(* ===== verification/Prelude.thy ===== *)
theory Prelude
  imports Main "HOL-Library.Word"
begin

text \<open>
  Shared vocabulary of the development: the machine integers of the Rust sources, checked
  arithmetic, Rust's \<open>Result\<close> and the \<open>?\<close> operator, methods on \<open>&mut self\<close> that may
  fail, Rust strings with the character classes the sources test, and the
  \<open>BTreeMap::entry\<close> idiom. The collections declared here carry the component proofs.
\<close>

section \<open>Collections\<close>

named_theorems result_simps \<open>success and failure of results, guards and commands\<close>
named_theorems command_defs \<open>definitions of the commands of the aggregates\<close>
named_theorems guard_defs \<open>definitions of the private guards the commands call\<close>

section \<open>Machine integers\<close>

type_synonym u16 = "16 word"
type_synonym u32 = "32 word"
type_synonym u64 = "64 word"
type_synonym uuid = "128 word"

text \<open>Rust's \<open>checked_add\<close> and \<open>checked_mul\<close>: \<open>None\<close> on overflow.\<close>

definition checked_add :: "'w::len word \<Rightarrow> 'w word \<Rightarrow> 'w word option" where
  "checked_add a b = (if unat a + unat b < 2 ^ LENGTH('w) then Some (a + b) else None)"

definition checked_mul :: "'w::len word \<Rightarrow> 'w word \<Rightarrow> 'w word option" where
  "checked_mul a b = (if unat a * unat b < 2 ^ LENGTH('w) then Some (a * b) else None)"

lemma checked_add_Some:
  "checked_add a b = Some c \<longleftrightarrow> unat c = unat a + unat b"
proof
  assume "checked_add a b = Some c"
  then show "unat c = unat a + unat b"
    by (auto simp: checked_add_def unat_word_ariths split: if_splits)
next
  assume c: "unat c = unat a + unat b"
  then have "unat a + unat b < 2 ^ LENGTH('a)"
    by (metis unsigned_less)
  then have "unat c = unat (a + b)"
    using c by (simp add: unat_word_ariths)
  then have "c = a + b"
    by (rule unsigned_word_eqI)
  then show "checked_add a b = Some c"
    using \<open>unat a + unat b < 2 ^ LENGTH('a)\<close> by (simp add: checked_add_def)
qed

lemma checked_mul_Some:
  "checked_mul a b = Some c \<longleftrightarrow> unat c = unat a * unat b"
proof
  assume "checked_mul a b = Some c"
  then show "unat c = unat a * unat b"
    by (auto simp: checked_mul_def unat_word_ariths split: if_splits)
next
  assume c: "unat c = unat a * unat b"
  then have "unat a * unat b < 2 ^ LENGTH('a)"
    by (metis unsigned_less)
  then have "unat c = unat (a * b)"
    using c by (simp add: unat_word_ariths)
  then have "c = a * b"
    by (rule unsigned_word_eqI)
  then show "checked_mul a b = Some c"
    using \<open>unat a * unat b < 2 ^ LENGTH('a)\<close> by (simp add: checked_mul_def)
qed

lemma checked_add_greater:
  assumes "checked_add a b = Some c" and "b \<noteq> 0"
  shows "a < c"
proof -
  from assms(2) have "0 < unat b" by (simp add: unat_gt_0)
  with assms(1) show ?thesis by (simp add: checked_add_Some word_less_nat_alt)
qed

lemma unat_u32_less: "unat (w :: u32) < 2 ^ 32"
  using unsigned_less [of w] by simp

lemma unat_u64_less: "unat (w :: u64) < 2 ^ 64"
  using unsigned_less [of w] by simp

lemma unat_max: "unat (max a b) = max (unat a) (unat b)"
  by (simp add: max_def word_le_nat_alt)

section \<open>Results\<close>

text \<open>
  A Rust \<open>Result<T, E>\<close> is \<open>'e + 't\<close> with \<open>Inl\<close> for \<open>Err\<close>. The early return of
  \<open>r?\<close> is \<open>and_then\<close>; \<open>if !b { return Err(e) }\<close> is \<open>ensure b e\<close>.
\<close>

definition and_then :: "'e + 'a \<Rightarrow> ('a \<Rightarrow> 'e + 'b) \<Rightarrow> 'e + 'b" where
  "and_then r k = (case r of Inl e \<Rightarrow> Inl e | Inr x \<Rightarrow> k x)"

definition ensure :: "bool \<Rightarrow> 'e \<Rightarrow> 'e + unit" where
  "ensure b e = (if b then Inr () else Inl e)"

definition ok_or :: "'a option \<Rightarrow> 'e \<Rightarrow> 'e + 'a" where
  "ok_or x e = (case x of None \<Rightarrow> Inl e | Some v \<Rightarrow> Inr v)"

definition map_err :: "('e \<Rightarrow> 'f) \<Rightarrow> 'e + 'a \<Rightarrow> 'f + 'a" where
  "map_err f r = (case r of Inl e \<Rightarrow> Inl (f e) | Inr x \<Rightarrow> Inr x)"

definition is_ok :: "'e + 'a \<Rightarrow> bool" where
  "is_ok r = (case r of Inl _ \<Rightarrow> False | Inr _ \<Rightarrow> True)"

lemma and_then_simps [simp]:
  "and_then (Inl e) k = Inl e"
  "and_then (Inr x) k = k x"
  by (simp_all add: and_then_def)

lemma and_then_Inr [result_simps]:
  "and_then r k = Inr y \<longleftrightarrow> (\<exists>x. r = Inr x \<and> k x = Inr y)"
  by (cases r) simp_all

lemma and_then_Inl [result_simps]:
  "and_then r k = Inl e \<longleftrightarrow> r = Inl e \<or> (\<exists>x. r = Inr x \<and> k x = Inl e)"
  by (cases r) simp_all

lemma ensure_simps [simp]:
  "ensure True e = Inr ()"
  "ensure False e = Inl e"
  by (simp_all add: ensure_def)

lemma ensure_Inr [result_simps]: "ensure b e = Inr u \<longleftrightarrow> b"
  by (simp add: ensure_def)

lemma ensure_Inl [result_simps]: "ensure b e = Inl f \<longleftrightarrow> \<not> b \<and> f = e"
  by (auto simp: ensure_def)

lemma ok_or_simps [simp]:
  "ok_or None e = Inl e"
  "ok_or (Some v) e = Inr v"
  by (simp_all add: ok_or_def)

lemma ok_or_Inr [result_simps]: "ok_or x e = Inr v \<longleftrightarrow> x = Some v"
  by (cases x) simp_all

lemma ok_or_Inl [result_simps]: "ok_or x e = Inl f \<longleftrightarrow> x = None \<and> f = e"
  by (cases x) auto

lemma map_err_simps [simp]:
  "map_err f (Inl e) = Inl (f e)"
  "map_err f (Inr x) = Inr x"
  by (simp_all add: map_err_def)

lemma map_err_Inr [result_simps]: "map_err f r = Inr x \<longleftrightarrow> r = Inr x"
  by (cases r) simp_all

lemma map_err_Inl [result_simps]: "map_err f r = Inl e \<longleftrightarrow> (\<exists>d. r = Inl d \<and> e = f d)"
  by (cases r) auto

lemma is_ok_simps [simp]: "\<not> is_ok (Inl e)" "is_ok (Inr x)"
  by (simp_all add: is_ok_def)

lemma is_ok_iff: "is_ok r \<longleftrightarrow> (\<exists>x. r = Inr x)"
  by (cases r) simp_all

text \<open>\<open>Option::is_some_and\<close>.\<close>

definition is_some_and :: "'a option \<Rightarrow> ('a \<Rightarrow> bool) \<Rightarrow> bool" where
  "is_some_and x p = (case x of None \<Rightarrow> False | Some v \<Rightarrow> p v)"

lemma is_some_and_simps [simp]:
  "\<not> is_some_and None p"
  "is_some_and (Some v) p = p v"
  by (simp_all add: is_some_and_def)

section \<open>Fallible methods on a mutable receiver\<close>

text \<open>
  A method \<open>fn m(&mut self, ..) -> Result<T, E>\<close> returns its result and the receiver as
  the call leaves it, also when it fails: writes made before an early return stay.
  \<open>attempt s r k\<close> is \<open>r?\<close> at a point where the receiver is \<open>s\<close>.
\<close>

type_synonym ('s, 'e, 'a) effect = "('e + 'a) \<times> 's"

definition attempt :: "'s \<Rightarrow> 'e + 'a \<Rightarrow> ('a \<Rightarrow> ('s, 'e, 'b) effect) \<Rightarrow> ('s, 'e, 'b) effect" where
  "attempt s r k = (case r of Inl e \<Rightarrow> (Inl e, s) | Inr x \<Rightarrow> k x)"

lemma attempt_simps [simp]:
  "attempt s (Inl e) k = (Inl e, s)"
  "attempt s (Inr x) k = k x"
  by (simp_all add: attempt_def)

lemma attempt_Inr [result_simps]:
  "attempt s r k = (Inr y, t) \<longleftrightarrow> (\<exists>x. r = Inr x \<and> k x = (Inr y, t))"
  by (cases r) simp_all

lemma attempt_Inl [result_simps]:
  "attempt s r k = (Inl e, t) \<longleftrightarrow>
     r = Inl e \<and> t = s \<or> (\<exists>x. r = Inr x \<and> k x = (Inl e, t))"
  by (cases r) auto

text \<open>A fallible method call \<open>self.m()?\<close> followed by the rest of the body.\<close>

definition and_continue ::
  "('s, 'e, 'a) effect \<Rightarrow> ('a \<Rightarrow> 's \<Rightarrow> ('s, 'e, 'b) effect) \<Rightarrow> ('s, 'e, 'b) effect" where
  "and_continue m k = attempt (snd m) (fst m) (\<lambda>x. k x (snd m))"

lemma and_continue_simps [simp]:
  "and_continue (Inl e, s) k = (Inl e, s)"
  "and_continue (Inr x, s) k = k x s"
  by (simp_all add: and_continue_def)

lemma and_continue_Inr [result_simps]:
  "and_continue m k = (Inr y, t) \<longleftrightarrow> (\<exists>x s. m = (Inr x, s) \<and> k x s = (Inr y, t))"
  by (cases m; cases "fst m") (auto simp: and_continue_def)

lemma and_continue_Inl [result_simps]:
  "and_continue m k = (Inl e, t) \<longleftrightarrow>
     m = (Inl e, t) \<or> (\<exists>x s. m = (Inr x, s) \<and> k x s = (Inl e, t))"
  by (cases m; cases "fst m") (auto simp: and_continue_def)

text \<open>What holds of the receiver at every exit holds of the receiver after the call.\<close>

lemma attempt_snd [intro]:
  assumes "P s" and "\<And>x. r = Inr x \<Longrightarrow> P (snd (k x))"
  shows "P (snd (attempt s r k))"
  using assms by (cases r) simp_all

section \<open>Validation loops\<close>

text \<open>
  \<open>for x in xs { check(x)?; }\<close>, and the same loop with a \<open>BTreeSet\<close> of the keys seen so far
  (\<open>if !seen.insert(key(x)) { return Err(dup) }\<close> after the check).
\<close>

fun for_each :: "('a \<Rightarrow> 'e + unit) \<Rightarrow> 'a list \<Rightarrow> 'e + unit" where
  "for_each check [] = Inr ()"
| "for_each check (x # xs) = and_then (check x) (\<lambda>_. for_each check xs)"

fun for_each_distinct ::
  "('a \<Rightarrow> 'e + unit) \<Rightarrow> ('a \<Rightarrow> 'k) \<Rightarrow> 'e \<Rightarrow> 'k set \<Rightarrow> 'a list \<Rightarrow> 'e + unit" where
  "for_each_distinct check key dup seen [] = Inr ()"
| "for_each_distinct check key dup seen (x # xs) =
     and_then (check x) (\<lambda>_.
       if key x \<in> seen then Inl dup
       else for_each_distinct check key dup (insert (key x) seen) xs)"

lemma for_each_Inr [result_simps]:
  "for_each check xs = Inr u \<longleftrightarrow> (\<forall>x \<in> set xs. check x = Inr ())"
  by (induction xs) (auto simp: result_simps)

lemma for_each_distinct_seen:
  "for_each_distinct check key dup seen xs = Inr u \<longleftrightarrow>
     (\<forall>x \<in> set xs. check x = Inr ()) \<and> distinct (map key xs) \<and> seen \<inter> key ` set xs = {}"
  by (induction xs arbitrary: seen) (auto simp: result_simps)

lemma for_each_distinct_Inr [result_simps]:
  "for_each_distinct check key dup {} xs = Inr u \<longleftrightarrow>
     (\<forall>x \<in> set xs. check x = Inr ()) \<and> distinct (map key xs)"
  by (simp add: for_each_distinct_seen)

section \<open>Strings\<close>

text \<open>
  A Rust \<open>String\<close> is a sequence of Unicode scalar values held as UTF-8. It is modelled by
  its list of code points; \<open>str_bytes\<close> is the UTF-8 encoding, so \<open>str_len\<close> is \<open>String::len\<close>
  (bytes, not characters). \<open>is_whitespace\<close> is the Unicode property White_Space and
  \<open>is_control\<close> the general category Cc, as \<open>char\<close>'s methods define them.
\<close>

type_synonym rust_char = nat
type_synonym rust_string = "rust_char list"

definition utf8 :: "rust_char \<Rightarrow> nat list" where
  "utf8 c =
     (if c < 128 then [c]
      else if c < 2048 then [192 + c div 64, 128 + c mod 64]
      else if c < 65536 then [224 + c div 4096, 128 + c div 64 mod 64, 128 + c mod 64]
      else [240 + c div 262144, 128 + c div 4096 mod 64, 128 + c div 64 mod 64, 128 + c mod 64])"

definition str_bytes :: "rust_string \<Rightarrow> nat list" where
  "str_bytes s = concat (map utf8 s)"

definition str_len :: "rust_string \<Rightarrow> nat" where
  "str_len s = length (str_bytes s)"

definition is_control :: "rust_char \<Rightarrow> bool" where
  "is_control c \<longleftrightarrow> c < 32 \<or> 127 \<le> c \<and> c < 160"

definition is_whitespace :: "rust_char \<Rightarrow> bool" where
  "is_whitespace c \<longleftrightarrow>
     9 \<le> c \<and> c \<le> 13 \<or> c = 32 \<or> c = 133 \<or> c = 160 \<or> c = 5760 \<or> 8192 \<le> c \<and> c \<le> 8202
     \<or> c = 8232 \<or> c = 8233 \<or> c = 8239 \<or> c = 8287 \<or> c = 12288"

definition is_ascii_digit :: "nat \<Rightarrow> bool" where
  "is_ascii_digit b \<longleftrightarrow> 48 \<le> b \<and> b \<le> 57"

definition is_ascii_lowercase :: "nat \<Rightarrow> bool" where
  "is_ascii_lowercase b \<longleftrightarrow> 97 \<le> b \<and> b \<le> 122"

definition is_ascii_alphanumeric :: "nat \<Rightarrow> bool" where
  "is_ascii_alphanumeric b \<longleftrightarrow>
     is_ascii_digit b \<or> is_ascii_lowercase b \<or> 65 \<le> b \<and> b \<le> 90"

definition trim_start_matches :: "(rust_char \<Rightarrow> bool) \<Rightarrow> rust_string \<Rightarrow> rust_string" where
  "trim_start_matches p s = dropWhile p s"

definition trim_end_matches :: "(rust_char \<Rightarrow> bool) \<Rightarrow> rust_string \<Rightarrow> rust_string" where
  "trim_end_matches p s = rev (dropWhile p (rev s))"

definition trim_end :: "rust_string \<Rightarrow> rust_string" where
  "trim_end s = trim_end_matches is_whitespace s"

definition trim :: "rust_string \<Rightarrow> rust_string" where
  "trim s = trim_end (trim_start_matches is_whitespace s)"

text \<open>\<open>str::to_ascii_lowercase\<close>.\<close>

definition to_ascii_lowercase :: "rust_string \<Rightarrow> rust_string" where
  "to_ascii_lowercase s = map (\<lambda>c. if 65 \<le> c \<and> c \<le> 90 then c + 32 else c) s"

text \<open>The code points of an ASCII literal.\<close>

definition lit :: "string \<Rightarrow> rust_string" where
  "lit s = map of_char s"

lemmas string_defs =
  utf8_def str_bytes_def str_len_def is_control_def is_whitespace_def is_ascii_digit_def
  is_ascii_lowercase_def is_ascii_alphanumeric_def trim_start_matches_def
  trim_end_matches_def trim_end_def trim_def lit_def

lemma utf8_nonempty: "utf8 c \<noteq> []"
  by (simp add: utf8_def)

lemma str_len_Nil [simp]: "str_len [] = 0"
  by (simp add: str_len_def str_bytes_def)

lemma str_len_0 [simp]: "str_len s = 0 \<longleftrightarrow> s = []"
  by (cases s) (simp_all add: str_len_def str_bytes_def utf8_nonempty)

lemma length_le_str_len: "length s \<le> str_len s"
proof (induction s)
  case (Cons c s)
  have "1 \<le> length (utf8 c)" by (simp add: utf8_def)
  with Cons show ?case by (simp add: str_len_def str_bytes_def)
qed simp

text \<open>A string whose bytes are all ASCII consists of those code points.\<close>

lemma utf8_ascii: "\<forall>b \<in> set (utf8 c). b < 128 \<Longrightarrow> utf8 c = [c] \<and> c < 128"
  unfolding utf8_def by (cases "c < 128"; cases "c < 2048"; cases "c < 65536") simp_all

lemma str_bytes_ascii:
  assumes "\<forall>b \<in> set (str_bytes s). b < 128"
  shows "str_bytes s = s"
  using assms
proof (induction s)
  case (Cons c s)
  then have "utf8 c = [c]" and "str_bytes s = s"
    using utf8_ascii [of c] by (auto simp: str_bytes_def)
  then show ?case by (simp add: str_bytes_def)
qed (simp add: str_bytes_def)

lemma trim_end_hd: "trim_end (c # s) \<noteq> [] \<Longrightarrow> hd (trim_end (c # s)) = c"
  by (auto simp: trim_end_def trim_end_matches_def dropWhile_append dest: set_dropWhileD)

lemma trim_end_last: "trim_end s \<noteq> [] \<Longrightarrow> \<not> is_whitespace (last (trim_end s))"
  unfolding trim_end_def trim_end_matches_def
  by (metis hd_dropWhile last_rev rev_is_Nil_conv)

lemma trim_end_fixed: "s = [] \<or> \<not> is_whitespace (last s) \<Longrightarrow> trim_end s = s"
  by (cases s rule: rev_cases) (auto simp: trim_end_def trim_end_matches_def)

lemma trim_end_idem [simp]: "trim_end (trim_end s) = trim_end s"
  by (metis trim_end_fixed trim_end_last)

lemma trim_start_fixed: "s = [] \<or> \<not> p (hd s) \<Longrightarrow> trim_start_matches p s = s"
  by (cases s) (auto simp: trim_start_matches_def)

lemma set_trim_end: "set (trim_end s) \<subseteq> set s"
  by (auto simp: trim_end_def trim_end_matches_def dest: set_dropWhileD)

lemma set_trim_start: "set (trim_start_matches p s) \<subseteq> set s"
  by (auto simp: trim_start_matches_def dest: set_dropWhileD)

section \<open>Ordered maps\<close>

text \<open>
  A \<open>BTreeMap\<close> is a partial function where only its contents matter.
  \<open>m.entry(k).and_modify(f).or_insert(v)\<close> is \<open>entry_modify m k f v\<close>.
\<close>

definition entry_modify :: "('k \<rightharpoonup> 'v) \<Rightarrow> 'k \<Rightarrow> ('v \<Rightarrow> 'v) \<Rightarrow> 'v \<Rightarrow> ('k \<rightharpoonup> 'v)" where
  "entry_modify m k f v = m(k \<mapsto> (case m k of None \<Rightarrow> v | Some x \<Rightarrow> f x))"

lemma entry_modify_same [simp]:
  "entry_modify m k f v k = Some (case m k of None \<Rightarrow> v | Some x \<Rightarrow> f x)"
  by (simp add: entry_modify_def)

lemma entry_modify_other [simp]: "k' \<noteq> k \<Longrightarrow> entry_modify m k f v k' = m k'"
  by (simp add: entry_modify_def)

lemma dom_entry_modify [simp]: "dom (entry_modify m k f v) = insert k (dom m)"
  by (simp add: entry_modify_def)

end
