(* ===== verification/Identity.thy ===== *)
theory Identity
  imports Prelude
begin

text \<open>
  Identifiers, aggregate versions, provenance and tenant contexts: the vocabulary every
  aggregate of \<open>crates/collaboration_domain\<close> shares (\<open>identity_types.rs\<close>, \<open>provenance.rs\<close>,
  \<open>tenant.rs\<close>). An identifier wraps a 128-bit UUID; a version wraps a non-zero \<open>u64\<close> and is
  ordered by it.
\<close>

section \<open>Identifiers\<close>

datatype community_id = CommunityId (community_uuid: uuid)
datatype aggregate_id = AggregateId (aggregate_uuid: uuid)
datatype operation_id = OperationId (operation_uuid: uuid)
datatype principal_id = PrincipalId (principal_uuid: uuid)

definition uuid_is_nil :: "uuid \<Rightarrow> bool" where
  "uuid_is_nil u \<longleftrightarrow> u = 0"

text \<open>\<open>AggregateId::from_uuid(community_id.as_uuid())\<close>: the community as a resource.\<close>

definition community_resource :: "community_id \<Rightarrow> aggregate_id" where
  "community_resource c = AggregateId (community_uuid c)"

lemma community_resource_inject [simp]:
  "community_resource c = community_resource d \<longleftrightarrow> c = d"
  by (cases c; cases d) (simp add: community_resource_def)

datatype aggregate_type =
    AggregateCommunity | AggregateProject | AggregateConversation | AggregateAgentSession
  | AggregateActivity | AggregateGitChange | AggregateWorkflow | AggregateIdentity
  | AggregatePresence

record scoped_aggregate_id =
  sa_community_id :: community_id
  sa_aggregate_type :: aggregate_type
  sa_aggregate_id :: aggregate_id

section \<open>Aggregate versions\<close>

datatype aggregate_version = AggregateVersion (version_get: u64)

definition version_first :: aggregate_version where
  "version_first = AggregateVersion 1"

definition version_new :: "u64 \<Rightarrow> aggregate_version option" where
  "version_new value = (if value = 0 then None else Some (AggregateVersion value))"

definition version_next :: "aggregate_version \<Rightarrow> aggregate_version option" where
  "version_next v = Option.bind (checked_add (version_get v) 1) version_new"

definition version_follows :: "aggregate_version \<Rightarrow> aggregate_version \<Rightarrow> bool" where
  "version_follows v previous \<longleftrightarrow> version_next previous = Some v"

text \<open>The derived order of the newtype.\<close>

instantiation aggregate_version :: linorder
begin

definition less_eq_aggregate_version :: "aggregate_version \<Rightarrow> aggregate_version \<Rightarrow> bool" where
  "v \<le> w \<longleftrightarrow> version_get v \<le> version_get w"

definition less_aggregate_version :: "aggregate_version \<Rightarrow> aggregate_version \<Rightarrow> bool" where
  "v < w \<longleftrightarrow> version_get v < version_get w"

instance
  by standard
    (auto simp: less_eq_aggregate_version_def less_aggregate_version_def aggregate_version.expand)

end

definition version_num :: "aggregate_version \<Rightarrow> nat" where
  "version_num v = unat (version_get v)"

lemma version_num_inject [simp]: "version_num v = version_num w \<longleftrightarrow> v = w"
  by (auto simp: version_num_def intro: aggregate_version.expand unsigned_word_eqI)

lemma version_num_le: "v \<le> w \<longleftrightarrow> version_num v \<le> version_num w"
  by (simp add: less_eq_aggregate_version_def version_num_def word_le_nat_alt)

lemma version_num_less: "v < w \<longleftrightarrow> version_num v < version_num w"
  by (simp add: less_aggregate_version_def version_num_def word_less_nat_alt)

lemma version_next_Some:
  "version_next v = Some w \<longleftrightarrow> version_num w = Suc (version_num v)"
proof -
  have "version_get w \<noteq> 0" if "unat (version_get w) = Suc n" for n
    using that by auto
  then show ?thesis
    by (cases w)
      (auto simp: version_next_def version_new_def bind_eq_Some_conv checked_add_Some
        version_num_def split: if_splits)
qed

lemma version_next_None: "version_next v = None \<longleftrightarrow> version_num v = 2 ^ 64 - 1"
proof -
  have "version_num v < 2 ^ 64"
    unfolding version_num_def using unsigned_less [of "version_get v"] by simp
  moreover have "checked_add (version_get v) 1 \<noteq> Some 0"
    by (simp add: checked_add_Some)
  ultimately show ?thesis
    by (auto simp: version_next_def version_new_def checked_add_def version_num_def
        bind_eq_None_conv split: if_splits)
qed

lemma version_next_less: "version_next v = Some w \<Longrightarrow> v < w"
  by (simp add: version_next_Some version_num_less)

lemma version_next_neq: "version_next v \<noteq> Some v"
  using version_next_less by blast

lemma version_next_nonzero: "version_next v = Some w \<Longrightarrow> version_get w \<noteq> 0"
  by (auto simp: version_next_Some version_num_def)

section \<open>Provenance\<close>

datatype source_system = SourceZed | SourceBuzz | SourceNostr | SourceAcp | SourceExternalGit

datatype source_record_id = SourceRecordId (source_record_str: rust_string)

definition source_record_id_new :: "rust_string \<Rightarrow> source_record_id option" where
  "source_record_id_new value =
     (if value = [] \<or> str_len value > 1024 then None else Some (SourceRecordId value))"

datatype integrity_algorithm = Sha256 | NostrEventIdIntegrity | GitObjectIdIntegrity

record integrity_reference =
  ir_algorithm :: integrity_algorithm
  ir_value :: rust_string

record provenance =
  pv_source_system :: source_system
  pv_source_record_id :: source_record_id
  pv_source_version :: "rust_string option"
  pv_observed_at_millis :: u64
  pv_integrity :: "integrity_reference option"

definition provenance_new :: "source_system \<Rightarrow> source_record_id \<Rightarrow> u64 \<Rightarrow> provenance" where
  "provenance_new system record_id observed_at =
     \<lparr>pv_source_system = system, pv_source_record_id = record_id, pv_source_version = None,
      pv_observed_at_millis = observed_at, pv_integrity = None\<rparr>"

definition with_source_version :: "provenance \<Rightarrow> rust_string \<Rightarrow> provenance" where
  "with_source_version p v = p\<lparr>pv_source_version := Some v\<rparr>"

definition with_integrity :: "provenance \<Rightarrow> integrity_reference \<Rightarrow> provenance" where
  "with_integrity p i = p\<lparr>pv_integrity := Some i\<rparr>"

section \<open>Tenant contexts\<close>

definition MAX_ROUTE_REFERENCE_BYTES :: nat where
  "MAX_ROUTE_REFERENCE_BYTES = 1024"

datatype trusted_tenant_route_source =
  DirectHost | TrustedForwardedHost | Listener | Deployment

record trusted_tenant_route =
  rt_community_id :: community_id
  rt_source :: trusted_tenant_route_source
  rt_reference :: rust_string

datatype tenant_route_error = InvalidReference

definition trusted_tenant_route_new ::
  "community_id \<Rightarrow> trusted_tenant_route_source \<Rightarrow> rust_string
   \<Rightarrow> tenant_route_error + trusted_tenant_route" where
  "trusted_tenant_route_new community source reference =
     (if reference = [] \<or> str_len reference > MAX_ROUTE_REFERENCE_BYTES
         \<or> trim reference \<noteq> reference \<or> list_ex is_control reference
      then Inl InvalidReference
      else Inr \<lparr>rt_community_id = community, rt_source = source, rt_reference = reference\<rparr>)"

definition from_direct_host ::
  "community_id \<Rightarrow> rust_string \<Rightarrow> tenant_route_error + trusted_tenant_route" where
  "from_direct_host community host = trusted_tenant_route_new community DirectHost host"

definition from_trusted_forwarded_host ::
  "community_id \<Rightarrow> rust_string \<Rightarrow> tenant_route_error + trusted_tenant_route" where
  "from_trusted_forwarded_host community host =
     trusted_tenant_route_new community TrustedForwardedHost host"

definition from_listener ::
  "community_id \<Rightarrow> rust_string \<Rightarrow> tenant_route_error + trusted_tenant_route" where
  "from_listener community listener = trusted_tenant_route_new community Listener listener"

definition from_deployment ::
  "community_id \<Rightarrow> rust_string \<Rightarrow> tenant_route_error + trusted_tenant_route" where
  "from_deployment community route = trusted_tenant_route_new community Deployment route"

datatype untrusted_tenant_claim_source =
  ChannelMapping | TokenStamp | SignedUrl | EventTag | BodyField

record untrusted_tenant_claim =
  cl_community_id :: community_id
  cl_source :: untrusted_tenant_claim_source

record tenant_context =
  tc_community_id :: community_id
  tc_route_source :: trusted_tenant_route_source
  tc_route_reference :: rust_string

datatype tenant_context_error = MissingTrustedRoute | ConflictingTenantClaim

definition establish ::
  "trusted_tenant_route option \<Rightarrow> untrusted_tenant_claim list
   \<Rightarrow> tenant_context_error + tenant_context" where
  "establish trusted_route untrusted_claims =
     and_then (ok_or trusted_route MissingTrustedRoute) (\<lambda>route.
       if list_ex (\<lambda>claim. cl_community_id claim \<noteq> rt_community_id route) untrusted_claims
       then Inl ConflictingTenantClaim
       else Inr \<lparr>tc_community_id = rt_community_id route, tc_route_source = rt_source route,
                 tc_route_reference = rt_reference route\<rparr>)"

text \<open>
  A context comes from the trusted route alone: claims can veto it, never choose it.
\<close>

lemma establish_Inr:
  "establish route claims = Inr ctx \<longleftrightarrow>
     (\<exists>r. route = Some r
        \<and> ctx = \<lparr>tc_community_id = rt_community_id r, tc_route_source = rt_source r,
                 tc_route_reference = rt_reference r\<rparr>
        \<and> (\<forall>c \<in> set claims. cl_community_id c = rt_community_id r))"
  by (auto simp: establish_def result_simps list_ex_iff)

end
