(* ===== verification/AccountBinding.thy ===== *)
theory AccountBinding
  imports Identity
begin

text \<open>
  Bindings of service accounts to Nostr keys (\<open>account_binding.rs\<close>). A binding is a record
  whose constructor checks the life cycle its status claims; a set of bindings is checked for
  conflicts between the active ones.
\<close>

section \<open>Data\<close>

datatype binding_id = BindingId (binding_uuid: uuid)
datatype profile_id = ProfileId (profile_uuid: uuid)
datatype service_account_id = ServiceAccountId (service_account_get: u64)

text \<open>A key is 32 bytes; the word is their big-endian value.\<close>

datatype nostr_public_key = NostrPublicKey "256 word"

datatype organization_policy_version = OrganizationPolicyVersion (policy_version_get: u64)

definition organization_policy_version_new :: "u64 \<Rightarrow> organization_policy_version option" where
  "organization_policy_version_new value =
     (if value = 0 then None else Some (OrganizationPolicyVersion value))"

definition MAX_EVIDENCE_REFERENCE_BYTES :: nat where
  "MAX_EVIDENCE_REFERENCE_BYTES = 1024"

datatype evidence_reference = EvidenceReference (evidence_str: rust_string)

definition evidence_reference_new :: "rust_string \<Rightarrow> evidence_reference option" where
  "evidence_reference_new value =
     (if value = [] \<or> str_len value > MAX_EVIDENCE_REFERENCE_BYTES then None
      else Some (EvidenceReference value))"

datatype binding_status = Pending | Verified | Active | Rotated | Revoked | Archived

fun status_is_historical :: "binding_status \<Rightarrow> bool" where
  "status_is_historical Rotated = True"
| "status_is_historical Revoked = True"
| "status_is_historical Archived = True"
| "status_is_historical _ = False"

fun status_can_sign :: "binding_status \<Rightarrow> bool" where
  "status_can_sign Active = True"
| "status_can_sign _ = False"

datatype binding_verification_method =
    GeneratedKeyChallenge | ExistingKeyChallenge | ImportedKeyChallenge | PairedKeyChallenge
  | RestoredKeyChallenge | MigratedEvidence

record binding_verification =
  bv_method :: binding_verification_method
  bv_evidence_reference :: evidence_reference
  bv_verified_at_millis :: u64

record binding_version_reference =
  br_binding_id :: binding_id
  br_version :: aggregate_version

record account_binding_fields =
  ab_binding_id :: binding_id
  ab_community_id :: community_id
  ab_service_account_id :: service_account_id
  ab_profile_id :: profile_id
  ab_public_key :: nostr_public_key
  ab_status :: binding_status
  ab_verification :: "binding_verification option"
  ab_predecessor :: "binding_version_reference option"
  ab_successor :: "binding_version_reference option"
  ab_created_at_millis :: u64
  ab_activated_at_millis :: "u64 option"
  ab_terminal_at_millis :: "u64 option"
  ab_organization_policy_version :: organization_policy_version
  ab_actor_principal_id :: principal_id
  ab_version :: aggregate_version
  ab_audit_reference :: operation_id

datatype account_binding_error =
    InvalidPendingState | MissingVerification binding_status | MigrationEvidenceCannotAuthorize
  | VerificationBeforeCreation | MissingActivation | ActivationBeforeVerification
  | UnexpectedTerminalTimestamp | MissingTerminalTimestamp | TerminalBeforeActivation
  | MissingRotationSuccessor | SelfReference
  | ActiveProfileConflict binding_id binding_id | ActiveOwnerConflict binding_id binding_id

section \<open>Validation of one binding\<close>

definition validate_fields :: "account_binding_fields \<Rightarrow> account_binding_error + unit" where
  "validate_fields f =
     (if is_some_and (ab_predecessor f) (\<lambda>r. br_binding_id r = ab_binding_id f)
         \<or> is_some_and (ab_successor f) (\<lambda>r. br_binding_id r = ab_binding_id f)
      then Inl SelfReference
      else if ab_status f = Pending then
        (if ab_verification f \<noteq> None \<or> ab_activated_at_millis f \<noteq> None
            \<or> ab_terminal_at_millis f \<noteq> None \<or> ab_predecessor f \<noteq> None
            \<or> ab_successor f \<noteq> None
         then Inl InvalidPendingState else Inr ())
      else
        and_then (ok_or (ab_verification f) (MissingVerification (ab_status f))) (\<lambda>verification.
        if bv_verified_at_millis verification < ab_created_at_millis f
        then Inl VerificationBeforeCreation
        else if bv_method verification = MigratedEvidence \<and> \<not> status_is_historical (ab_status f)
        then Inl MigrationEvidenceCannotAuthorize
        else
          and_then
            (case ab_status f of
               Verified \<Rightarrow>
                 (if ab_activated_at_millis f \<noteq> None then Inl ActivationBeforeVerification
                  else if ab_terminal_at_millis f \<noteq> None then Inl UnexpectedTerminalTimestamp
                  else Inr ())
             | Revoked \<Rightarrow>
                 (if is_some_and (ab_activated_at_millis f)
                       (\<lambda>activated_at. activated_at < bv_verified_at_millis verification)
                  then Inl ActivationBeforeVerification else Inr ())
             | Pending \<Rightarrow> Inl InvalidPendingState
             | _ \<Rightarrow>
                 and_then (ok_or (ab_activated_at_millis f) MissingActivation) (\<lambda>activated_at.
                   if activated_at < bv_verified_at_millis verification
                   then Inl ActivationBeforeVerification else Inr ()))
            (\<lambda>_.
          and_then
            (if status_is_historical (ab_status f) then
               and_then (ok_or (ab_terminal_at_millis f) MissingTerminalTimestamp) (\<lambda>terminal_at.
                 let lower_bound =
                   (case ab_activated_at_millis f of
                      None \<Rightarrow> bv_verified_at_millis verification | Some a \<Rightarrow> a)
                 in if terminal_at < lower_bound then Inl TerminalBeforeActivation else Inr ())
             else if ab_terminal_at_millis f \<noteq> None then Inl UnexpectedTerminalTimestamp
             else Inr ())
            (\<lambda>_.
          if ab_status f = Rotated
             \<and> (case ab_successor f of None \<Rightarrow> True
                 | Some successor \<Rightarrow> br_binding_id successor = ab_binding_id f)
          then Inl MissingRotationSuccessor else Inr ()))))"

definition account_binding_new ::
  "account_binding_fields \<Rightarrow> account_binding_error + account_binding_fields" where
  "account_binding_new f = and_then (validate_fields f) (\<lambda>_. Inr f)"

definition can_sign :: "account_binding_fields \<Rightarrow> bool" where
  "can_sign b = status_can_sign (ab_status b)"

definition is_historical :: "account_binding_fields \<Rightarrow> bool" where
  "is_historical b = status_is_historical (ab_status b)"

section \<open>Conflicts between active bindings\<close>

definition profile_key ::
  "account_binding_fields \<Rightarrow> community_id \<times> service_account_id \<times> profile_id" where
  "profile_key b = (ab_community_id b, ab_service_account_id b, ab_profile_id b)"

definition owner_key :: "account_binding_fields \<Rightarrow> community_id \<times> nostr_public_key" where
  "owner_key b = (ab_community_id b, ab_public_key b)"

fun scan_bindings ::
  "(community_id \<times> service_account_id \<times> profile_id \<rightharpoonup> binding_id)
   \<Rightarrow> (community_id \<times> nostr_public_key \<rightharpoonup> service_account_id \<times> binding_id)
   \<Rightarrow> account_binding_fields list \<Rightarrow> account_binding_error + unit" where
  "scan_bindings profiles owners [] = Inr ()"
| "scan_bindings profiles owners (b # bs) =
     (if ab_status b \<noteq> Active then scan_bindings profiles owners bs
      else case profiles (profile_key b) of
        Some first \<Rightarrow> Inl (ActiveProfileConflict first (ab_binding_id b))
      | None \<Rightarrow>
          (let profiles' = profiles(profile_key b \<mapsto> ab_binding_id b);
               owners' = owners(owner_key b \<mapsto> (ab_service_account_id b, ab_binding_id b))
           in case owners (owner_key b) of
                Some (account, first) \<Rightarrow>
                  (if account \<noteq> ab_service_account_id b
                   then Inl (ActiveOwnerConflict first (ab_binding_id b))
                   else scan_bindings profiles' owners' bs)
              | None \<Rightarrow> scan_bindings profiles' owners' bs))"

definition validate_active_bindings ::
  "account_binding_fields list \<Rightarrow> account_binding_error + unit" where
  "validate_active_bindings bs = scan_bindings Map.empty Map.empty bs"

section \<open>What validation guarantees\<close>

text \<open>The life cycle of a validated binding is in order, read off the record's timestamps.\<close>

definition binding_timeline :: "account_binding_fields \<Rightarrow> bool" where
  "binding_timeline f \<longleftrightarrow>
     (\<forall>v. ab_verification f = Some v \<longrightarrow>
        ab_created_at_millis f \<le> bv_verified_at_millis v
        \<and> (\<forall>a. ab_activated_at_millis f = Some a \<longrightarrow> bv_verified_at_millis v \<le> a)
        \<and> (\<forall>t. ab_terminal_at_millis f = Some t \<longrightarrow>
             bv_verified_at_millis v \<le> t
             \<and> (\<forall>a. ab_activated_at_millis f = Some a \<longrightarrow> a \<le> t)))"

lemma validate_fields_timeline:
  "validate_fields f = Inr () \<Longrightarrow> binding_timeline f"
  unfolding validate_fields_def binding_timeline_def
  by (cases "ab_status f")
    (auto simp: result_simps Let_def not_less split: if_splits option.splits)

lemma validate_fields_terminal:
  "validate_fields f = Inr () \<Longrightarrow>
     (ab_terminal_at_millis f \<noteq> None) = status_is_historical (ab_status f)"
  unfolding validate_fields_def
  by (cases "ab_status f")
    (auto simp: result_simps Let_def split: if_splits option.splits)

lemma validate_fields_active:
  "validate_fields f = Inr () \<Longrightarrow> ab_status f = Active \<Longrightarrow>
     \<exists>v a. ab_verification f = Some v \<and> bv_method v \<noteq> MigratedEvidence
         \<and> ab_activated_at_millis f = Some a"
  unfolding validate_fields_def
  by (auto simp: result_simps Let_def split: if_splits option.splits)

lemma scan_bindings_skip:
  "scan_bindings P W bs = scan_bindings P W (filter (\<lambda>b. ab_status b = Active) bs)"
  by (induction bs arbitrary: P W) (auto simp: Let_def split: option.splits)

text \<open>
  Two active bindings agree on the owner of a key; a map of owners seen so far admits a
  binding when it records the same account for its key, or none.
\<close>

definition owner_compatible :: "account_binding_fields \<Rightarrow> account_binding_fields \<Rightarrow> bool" where
  "owner_compatible b c \<longleftrightarrow>
     (owner_key b = owner_key c \<longrightarrow> ab_service_account_id b = ab_service_account_id c)"

definition owner_admits ::
  "(community_id \<times> nostr_public_key \<rightharpoonup> service_account_id \<times> binding_id)
   \<Rightarrow> account_binding_fields \<Rightarrow> bool" where
  "owner_admits owners b \<longleftrightarrow>
     (case owners (owner_key b) of None \<Rightarrow> True
      | Some (account, _) \<Rightarrow> account = ab_service_account_id b)"

lemma owner_compatible_refl [simp]: "owner_compatible b b"
  by (simp add: owner_compatible_def)

lemma owner_compatible_sym: "owner_compatible b c = owner_compatible c b"
  by (auto simp: owner_compatible_def)

lemma owner_admits_upd:
  assumes "owner_admits owners b"
  shows "owner_admits (owners(owner_key b \<mapsto> (ab_service_account_id b, i))) c \<longleftrightarrow>
     owner_compatible b c \<and> owner_admits owners c"
  using assms by (auto simp: owner_admits_def owner_compatible_def split: option.splits)

text \<open>The scan of active bindings, for any maps left by the bindings before them.\<close>

lemma scan_bindings_Inr:
  assumes "\<forall>b \<in> set bs. ab_status b = Active"
  shows "scan_bindings P W bs = Inr () \<longleftrightarrow>
     distinct (map profile_key bs) \<and> (\<forall>b \<in> set bs. P (profile_key b) = None)
     \<and> (\<forall>b \<in> set bs. owner_admits W b)
     \<and> (\<forall>b \<in> set bs. \<forall>c \<in> set bs. owner_compatible b c)"
    (is "_ \<longleftrightarrow> ?spec P W bs")
  using assms
proof (induction bs arbitrary: P W)
  case (Cons b bs)
  let ?P = "P(profile_key b \<mapsto> ab_binding_id b)"
  let ?W = "W(owner_key b \<mapsto> (ab_service_account_id b, ab_binding_id b))"
  have step: "scan_bindings P W (b # bs) = Inr () \<longleftrightarrow>
      P (profile_key b) = None \<and> owner_admits W b \<and> scan_bindings ?P ?W bs = Inr ()"
    using Cons.prems by (auto simp: Let_def owner_admits_def split: option.splits)
  have IH: "scan_bindings ?P ?W bs = Inr () \<longleftrightarrow> ?spec ?P ?W bs"
    by (rule Cons.IH) (use Cons.prems in simp)
  show ?case
  proof (cases "P (profile_key b) = None \<and> owner_admits W b")
    case True
    have fresh: "?P (profile_key c) = None \<longleftrightarrow>
        profile_key c \<noteq> profile_key b \<and> P (profile_key c) = None" for c
      by simp
    have "?spec ?P ?W bs \<longleftrightarrow> ?spec P W (b # bs)"
      unfolding fresh owner_admits_upd [OF conjunct2 [OF True]]
      using True owner_compatible_sym [of b] by (auto simp: image_iff)
    with step IH True show ?thesis by blast
  next
    case False
    then show ?thesis using step by auto
  qed
qed simp

lemma validate_active_bindings_Inr:
  fixes bs :: "account_binding_fields list"
  defines "active \<equiv> filter (\<lambda>b. ab_status b = Active) bs"
  shows "validate_active_bindings bs = Inr () \<longleftrightarrow>
     distinct (map profile_key active)
     \<and> (\<forall>b \<in> set active. \<forall>c \<in> set active. owner_compatible b c)"
  unfolding validate_active_bindings_def scan_bindings_skip [of _ _ bs] active_def
  by (subst scan_bindings_Inr) (auto simp: owner_admits_def)

end
