(* ===== verification/Profile.thy ===== *)
theory Profile
  imports AccountBinding
begin

text \<open>
  Identity profiles (\<open>profile.rs\<close>): metadata, statuses, social lists and relay archive states
  projected from Nostr events, the validation that every projection of a profile is signed by
  the profile's own key, and the check of an update against its predecessor. The newtype
  \<open>IdentityProfile\<close> is the record it wraps; its only constructor is \<open>identity_profile_new\<close>.
  A \<open>BTreeSet\<close> of entries is the list its iteration yields.
\<close>

section \<open>Limits\<close>

definition MAX_DISPLAY_NAME_BYTES :: nat where "MAX_DISPLAY_NAME_BYTES = 256"
definition MAX_ABOUT_BYTES :: nat where "MAX_ABOUT_BYTES = 4096"
definition MAX_URL_BYTES :: nat where "MAX_URL_BYTES = 2048"
definition MAX_NIP05_BYTES :: nat where "MAX_NIP05_BYTES = 320"
definition MAX_STATUS_BYTES :: nat where "MAX_STATUS_BYTES = 1024"
definition MAX_STATUS_KIND_BYTES :: nat where "MAX_STATUS_KIND_BYTES = 64"
definition MAX_ATTESTATION_CONDITIONS_BYTES :: nat where "MAX_ATTESTATION_CONDITIONS_BYTES = 1024"
definition MAX_SOCIAL_LISTS :: nat where "MAX_SOCIAL_LISTS = 256"
definition MAX_SOCIAL_ENTRIES :: nat where "MAX_SOCIAL_ENTRIES = 10000"
definition MAX_SOCIAL_VALUE_BYTES :: nat where "MAX_SOCIAL_VALUE_BYTES = 2048"
definition MAX_ARCHIVE_STATES :: nat where "MAX_ARCHIVE_STATES = 256"
definition MAX_ARCHIVE_REASON_BYTES :: nat where "MAX_ARCHIVE_REASON_BYTES = 256"

lemmas profile_limits =
  MAX_DISPLAY_NAME_BYTES_def MAX_ABOUT_BYTES_def MAX_URL_BYTES_def MAX_NIP05_BYTES_def
  MAX_STATUS_BYTES_def MAX_STATUS_KIND_BYTES_def MAX_ATTESTATION_CONDITIONS_BYTES_def
  MAX_SOCIAL_LISTS_def MAX_SOCIAL_ENTRIES_def MAX_SOCIAL_VALUE_BYTES_def
  MAX_ARCHIVE_STATES_def MAX_ARCHIVE_REASON_BYTES_def

section \<open>Data\<close>

datatype nostr_event_id = NostrEventId "256 word"

record 'a authored_value =
  av_source_event_id :: nostr_event_id
  av_source_author :: nostr_public_key
  av_source_created_at :: u64
  av_value :: 'a

record profile_metadata =
  pm_display_name :: "rust_string option"
  pm_name :: "rust_string option"
  pm_avatar_url :: "rust_string option"
  pm_about :: "rust_string option"
  pm_nip05_handle :: "rust_string option"

datatype profile_status_kind = General | Music | Custom rust_string

record profile_status =
  ps_kind :: profile_status_kind
  ps_content :: rust_string
  ps_expires_at :: "u64 option"

datatype social_list_kind =
  Contacts | Mutes | Pins | Bookmarks | Emojis | NamedFollow rust_string

datatype social_reference =
    SocialPublicKey nostr_public_key | SocialEvent nostr_event_id | SocialCoordinate rust_string
  | SocialHashtag rust_string | SocialUrl rust_string | SocialWord rust_string
  | SocialEmoji rust_string

record social_list =
  sl_kind :: social_list_kind
  sl_entries :: "social_reference list"

record owner_attestation_evidence =
  oa_owner_public_key :: nostr_public_key
  oa_agent_public_key :: nostr_public_key
  oa_proof_event_id :: nostr_event_id
  oa_exact_conditions :: rust_string
  oa_verified_at :: u64

record agent_profile =
  ap_claimed_owner :: "nostr_public_key option"
  ap_owner_attestation :: "owner_attestation_evidence option"

datatype profile_kind = Human | Agent agent_profile

datatype relay_archive_status = RelayVisible | RelayArchived

datatype archive_consent =
    SelfRequested nostr_public_key
  | OwnerAttested nostr_public_key owner_attestation_evidence
  | AdminConsent nostr_public_key
  | RelayPolicy

record relay_archive_record =
  ra_relay_public_key :: nostr_public_key
  ra_target_public_key :: nostr_public_key
  ra_status :: relay_archive_status
  ra_consent :: archive_consent
  ra_reason :: "rust_string option"
  ra_replacement_public_key :: "nostr_public_key option"
  ra_source_event_id :: nostr_event_id
  ra_source_author :: nostr_public_key
  ra_source_created_at :: u64

record identity_profile =
  pr_profile_id :: profile_id
  pr_community_id :: community_id
  pr_author_public_key :: nostr_public_key
  pr_kind :: profile_kind
  pr_metadata :: "profile_metadata authored_value option"
  pr_statuses :: "profile_status authored_value list"
  pr_social_lists :: "social_list authored_value list"
  pr_relay_archive_states :: "relay_archive_record list"
  pr_version :: aggregate_version

datatype profile_error =
    InvalidMetadata string | InvalidStatus string | InvalidSocialList string
  | InvalidOwnerAttestation | TooManySocialLists | DuplicateSocialList | TooManyArchiveStates
  | DuplicateRelayArchiveState | InvalidArchiveState string | ForeignAuthoredProjection
  | DifferentProfile | DifferentCommunity | AuthorChanged | ProfileKindChanged
  | VersionDoesNotFollow

section \<open>Validation\<close>

definition valid_owner_attestation ::
  "owner_attestation_evidence \<Rightarrow> nostr_public_key \<Rightarrow> nostr_public_key \<Rightarrow> bool" where
  "valid_owner_attestation attestation owner agent \<longleftrightarrow>
     owner \<noteq> agent \<and> oa_owner_public_key attestation = owner
     \<and> oa_agent_public_key attestation = agent
     \<and> str_len (oa_exact_conditions attestation) \<le> MAX_ATTESTATION_CONDITIONS_BYTES"

fun validate_kind :: "profile_kind \<Rightarrow> nostr_public_key \<Rightarrow> profile_error + unit" where
  "validate_kind Human author = Inr ()"
| "validate_kind (Agent agent) author =
     (case (ap_claimed_owner agent, ap_owner_attestation agent) of
        (None, None) \<Rightarrow> Inr ()
      | (Some owner, Some attestation) \<Rightarrow>
          (if valid_owner_attestation attestation owner author then Inr ()
           else Inl InvalidOwnerAttestation)
      | _ \<Rightarrow> Inl InvalidOwnerAttestation)"

definition validate_authored ::
  "'a authored_value \<Rightarrow> nostr_public_key \<Rightarrow> profile_error + unit" where
  "validate_authored value author =
     ensure (av_source_author value = author) ForeignAuthoredProjection"

definition validate_optional_text ::
  "rust_string option \<Rightarrow> nat \<Rightarrow> string \<Rightarrow> profile_error + unit" where
  "validate_optional_text value maximum field =
     ensure (\<not> is_some_and value (\<lambda>v. str_len v > maximum)) (InvalidMetadata field)"

definition validate_metadata :: "profile_metadata \<Rightarrow> profile_error + unit" where
  "validate_metadata m =
     and_then (validate_optional_text (pm_display_name m) MAX_DISPLAY_NAME_BYTES ''display name'') (\<lambda>_.
     and_then (validate_optional_text (pm_name m) MAX_DISPLAY_NAME_BYTES ''name'') (\<lambda>_.
     and_then (validate_optional_text (pm_avatar_url m) MAX_URL_BYTES ''avatar URL'') (\<lambda>_.
     and_then (validate_optional_text (pm_about m) MAX_ABOUT_BYTES ''about'') (\<lambda>_.
     validate_optional_text (pm_nip05_handle m) MAX_NIP05_BYTES ''NIP-05 handle''))))"

definition validate_status :: "profile_status \<Rightarrow> profile_error + unit" where
  "validate_status status =
     and_then (ensure (str_len (ps_content status) \<le> MAX_STATUS_BYTES)
                 (InvalidStatus ''content exceeds limit'')) (\<lambda>_.
     case ps_kind status of
       Custom kind \<Rightarrow>
         (if kind = [] \<or> str_len kind > MAX_STATUS_KIND_BYTES
          then Inl (InvalidStatus ''invalid custom kind'') else Inr ())
     | _ \<Rightarrow> Inr ())"

fun social_value_too_long :: "social_reference \<Rightarrow> bool" where
  "social_value_too_long (SocialCoordinate v) = (v = [] \<or> str_len v > MAX_SOCIAL_VALUE_BYTES)"
| "social_value_too_long (SocialHashtag v) = (v = [] \<or> str_len v > MAX_SOCIAL_VALUE_BYTES)"
| "social_value_too_long (SocialUrl v) = (v = [] \<or> str_len v > MAX_SOCIAL_VALUE_BYTES)"
| "social_value_too_long (SocialWord v) = (v = [] \<or> str_len v > MAX_SOCIAL_VALUE_BYTES)"
| "social_value_too_long (SocialEmoji v) = (v = [] \<or> str_len v > MAX_SOCIAL_VALUE_BYTES)"
| "social_value_too_long (SocialPublicKey _) = False"
| "social_value_too_long (SocialEvent _) = False"

fun entry_compatible :: "social_list_kind \<Rightarrow> social_reference \<Rightarrow> bool" where
  "entry_compatible Contacts entry =
     (case entry of SocialPublicKey _ \<Rightarrow> True | _ \<Rightarrow> False)"
| "entry_compatible (NamedFollow _) entry =
     (case entry of SocialPublicKey _ \<Rightarrow> True | _ \<Rightarrow> False)"
| "entry_compatible Mutes entry =
     (case entry of SocialUrl _ \<Rightarrow> False | SocialEmoji _ \<Rightarrow> False | _ \<Rightarrow> True)"
| "entry_compatible Pins entry =
     (case entry of SocialEvent _ \<Rightarrow> True | SocialCoordinate _ \<Rightarrow> True | _ \<Rightarrow> False)"
| "entry_compatible Bookmarks entry =
     (case entry of SocialEvent _ \<Rightarrow> True | SocialCoordinate _ \<Rightarrow> True | SocialHashtag _ \<Rightarrow> True
      | SocialUrl _ \<Rightarrow> True | _ \<Rightarrow> False)"
| "entry_compatible Emojis entry =
     (case entry of SocialEmoji _ \<Rightarrow> True | SocialCoordinate _ \<Rightarrow> True | _ \<Rightarrow> False)"

definition validate_social_list :: "social_list \<Rightarrow> profile_error + unit" where
  "validate_social_list list =
     and_then (ensure (length (sl_entries list) \<le> MAX_SOCIAL_ENTRIES)
                 (InvalidSocialList ''entry count exceeds limit'')) (\<lambda>_.
     and_then (case sl_kind list of
                 NamedFollow name \<Rightarrow>
                   (if name = [] \<or> str_len name > MAX_STATUS_KIND_BYTES
                    then Inl (InvalidSocialList ''invalid named follow list'') else Inr ())
               | _ \<Rightarrow> Inr ()) (\<lambda>_.
     for_each (\<lambda>entry.
       if \<not> entry_compatible (sl_kind list) entry \<or> social_value_too_long entry
       then Inl (InvalidSocialList ''entry is incompatible or exceeds limit'') else Inr ())
       (sl_entries list)))"

definition validate_archive ::
  "relay_archive_record \<Rightarrow> nostr_public_key \<Rightarrow> profile_error + unit" where
  "validate_archive archive target =
     (if ra_target_public_key archive \<noteq> target
         \<or> ra_source_author archive \<noteq> ra_relay_public_key archive
      then Inl (InvalidArchiveState ''target or relay signature does not match profile scope'')
      else if is_some_and (ra_reason archive) (\<lambda>r. str_len r > MAX_ARCHIVE_REASON_BYTES)
      then Inl (InvalidArchiveState ''reason exceeds limit'')
      else if ra_status archive = RelayVisible \<and> ra_replacement_public_key archive \<noteq> None
      then Inl (InvalidArchiveState ''visible state cannot name a replacement'')
      else case ra_consent archive of
        SelfRequested actor \<Rightarrow>
          (if actor \<noteq> target then Inl (InvalidArchiveState ''self actor is not target'') else Inr ())
      | OwnerAttested owner attestation \<Rightarrow>
          (if \<not> valid_owner_attestation attestation owner target
           then Inl (InvalidArchiveState ''owner consent has no matching attestation'') else Inr ())
      | _ \<Rightarrow> Inr ())"

text \<open>The body of the loop over statuses, before the duplicate check.\<close>

definition check_status ::
  "nostr_public_key \<Rightarrow> profile_status authored_value \<Rightarrow> profile_error + unit" where
  "check_status author status =
     and_then (validate_authored status author) (\<lambda>_.
     and_then (validate_status (av_value status)) (\<lambda>_.
     ensure (\<not> is_some_and (ps_expires_at (av_value status))
               (\<lambda>expires_at. expires_at < av_source_created_at status))
            (InvalidStatus ''expiration precedes source event'')))"

definition validate_profile :: "identity_profile \<Rightarrow> profile_error + unit" where
  "validate_profile f =
     (let author = pr_author_public_key f in
      and_then (validate_kind (pr_kind f) author) (\<lambda>_.
      and_then (case pr_metadata f of
                  None \<Rightarrow> Inr ()
                | Some metadata \<Rightarrow>
                    and_then (validate_authored metadata author) (\<lambda>_.
                    validate_metadata (av_value metadata))) (\<lambda>_.
      and_then (for_each_distinct (check_status author) (\<lambda>s. ps_kind (av_value s))
                  (InvalidStatus ''duplicate status kind'') {} (pr_statuses f)) (\<lambda>_.
      and_then (ensure (length (pr_social_lists f) \<le> MAX_SOCIAL_LISTS) TooManySocialLists) (\<lambda>_.
      and_then (for_each_distinct
                  (\<lambda>l. and_then (validate_authored l author) (\<lambda>_. validate_social_list (av_value l)))
                  (\<lambda>l. sl_kind (av_value l)) DuplicateSocialList {} (pr_social_lists f)) (\<lambda>_.
      and_then (ensure (length (pr_relay_archive_states f) \<le> MAX_ARCHIVE_STATES)
                  TooManyArchiveStates) (\<lambda>_.
      for_each_distinct (\<lambda>a. validate_archive a author) ra_relay_public_key
        DuplicateRelayArchiveState {} (pr_relay_archive_states f))))))))"

definition identity_profile_new :: "identity_profile \<Rightarrow> profile_error + identity_profile" where
  "identity_profile_new f = and_then (validate_profile f) (\<lambda>_. Inr f)"

definition is_archived_on :: "identity_profile \<Rightarrow> nostr_public_key \<Rightarrow> bool" where
  "is_archived_on p relay =
     list_ex (\<lambda>state. ra_relay_public_key state = relay \<and> ra_status state = RelayArchived)
       (pr_relay_archive_states p)"

text \<open>\<open>std::mem::discriminant\<close> on the two kinds of profile.\<close>

fun is_agent :: "profile_kind \<Rightarrow> bool" where
  "is_agent Human = False"
| "is_agent (Agent _) = True"

definition validate_profile_update ::
  "identity_profile \<Rightarrow> identity_profile \<Rightarrow> profile_error + unit" where
  "validate_profile_update previous new_profile =
     (if pr_profile_id previous \<noteq> pr_profile_id new_profile then Inl DifferentProfile
      else if pr_community_id previous \<noteq> pr_community_id new_profile then Inl DifferentCommunity
      else if pr_author_public_key previous \<noteq> pr_author_public_key new_profile then Inl AuthorChanged
      else if is_agent (pr_kind previous) \<noteq> is_agent (pr_kind new_profile)
      then Inl ProfileKindChanged
      else if \<not> version_follows (pr_version new_profile) (pr_version previous)
      then Inl VersionDoesNotFollow
      else Inr ())"

section \<open>What validation guarantees\<close>

definition signed_by_author :: "identity_profile \<Rightarrow> bool" where
  "signed_by_author p \<longleftrightarrow>
     (\<forall>m. pr_metadata p = Some m \<longrightarrow> av_source_author m = pr_author_public_key p)
     \<and> (\<forall>s \<in> set (pr_statuses p). av_source_author s = pr_author_public_key p)
     \<and> (\<forall>l \<in> set (pr_social_lists p). av_source_author l = pr_author_public_key p)"

lemma validate_profile_signed: "validate_profile p = Inr () \<Longrightarrow> signed_by_author p"
  unfolding validate_profile_def signed_by_author_def
  by (auto simp: result_simps Let_def validate_authored_def check_status_def split: option.splits)

text \<open>At most one status per kind, one list per kind, one archive state per relay.\<close>

definition projections_unique :: "identity_profile \<Rightarrow> bool" where
  "projections_unique p \<longleftrightarrow>
     distinct (map (\<lambda>s. ps_kind (av_value s)) (pr_statuses p))
     \<and> distinct (map (\<lambda>l. sl_kind (av_value l)) (pr_social_lists p))
     \<and> distinct (map ra_relay_public_key (pr_relay_archive_states p))"

lemma validate_profile_unique: "validate_profile p = Inr () \<Longrightarrow> projections_unique p"
  unfolding validate_profile_def projections_unique_def
  by (auto simp: result_simps Let_def)

text \<open>An agent either claims no owner or proves the one it claims.\<close>

lemma validate_profile_agent:
  assumes "validate_profile p = Inr ()" and "pr_kind p = Agent agent"
  shows "(ap_claimed_owner agent = None \<and> ap_owner_attestation agent = None)
       \<or> (\<exists>owner att. ap_claimed_owner agent = Some owner
            \<and> ap_owner_attestation agent = Some att
            \<and> valid_owner_attestation att owner (pr_author_public_key p))"
proof -
  from assms have "validate_kind (Agent agent) (pr_author_public_key p) = Inr ()"
    by (auto simp: validate_profile_def result_simps Let_def)
  then show ?thesis by (auto split: option.splits if_splits)
qed

lemma validate_profile_update_Inr:
  "validate_profile_update p q = Inr () \<longleftrightarrow>
     pr_profile_id q = pr_profile_id p \<and> pr_community_id q = pr_community_id p
     \<and> pr_author_public_key q = pr_author_public_key p
     \<and> is_agent (pr_kind q) = is_agent (pr_kind p)
     \<and> version_next (pr_version p) = Some (pr_version q)"
  by (auto simp: validate_profile_update_def version_follows_def)

text \<open>A history of accepted updates: each profile follows the one before it.\<close>

fun update_chain :: "identity_profile \<Rightarrow> identity_profile list \<Rightarrow> bool" where
  "update_chain p [] = True"
| "update_chain p (q # qs) = (validate_profile_update p q = Inr () \<and> update_chain q qs)"

lemma update_chain_last:
  assumes "update_chain p qs" and "qs \<noteq> []"
  shows "pr_profile_id (last qs) = pr_profile_id p
       \<and> pr_community_id (last qs) = pr_community_id p
       \<and> pr_author_public_key (last qs) = pr_author_public_key p
       \<and> is_agent (pr_kind (last qs)) = is_agent (pr_kind p)
       \<and> version_num (pr_version (last qs)) = version_num (pr_version p) + length qs"
  using assms
proof (induction qs arbitrary: p)
  case (Cons q qs)
  then show ?case
    by (cases "qs = []") (auto simp: validate_profile_update_Inr version_next_Some)
qed simp

end
