(* ===== verification/Principal.thy ===== *)
theory Principal
  imports Profile
begin

text \<open>
  Authenticated principals (\<open>principal.rs\<close>): scopes, the kinds of principal and their
  constructors. A bound Nostr identity needs a signing binding of the same tenant; an agent
  needs an attested owner.
\<close>

section \<open>Scopes\<close>

definition MAX_SCOPE_BYTES :: nat where "MAX_SCOPE_BYTES = 128"
definition MAX_PRINCIPAL_SCOPES :: nat where "MAX_PRINCIPAL_SCOPES = 128"
definition MAX_SERVICE_NAME_BYTES :: nat where "MAX_SERVICE_NAME_BYTES = 256"

datatype principal_error =
    InvalidScope | TooManyScopes | PrincipalTenantMismatch | BindingNotActive
  | OwnerAttestationRequired | InvalidPrincipalAttestation | InvalidServiceName

datatype authorization_scope = AuthorizationScope (scope_str: rust_string)

text \<open>The bytes of \<open>:._-/*\<close>.\<close>

definition scope_punctuation :: "nat list" where
  "scope_punctuation = [58, 46, 95, 45, 47, 42]"

definition scope_new :: "rust_string \<Rightarrow> principal_error + authorization_scope" where
  "scope_new value =
     (if value = [] \<or> str_len value > MAX_SCOPE_BYTES \<or> trim value \<noteq> value
         \<or> \<not> list_all (\<lambda>byte. is_ascii_alphanumeric byte \<or> byte \<in> set scope_punctuation)
               (str_bytes value)
      then Inl InvalidScope else Inr (AuthorizationScope value))"

type_synonym principal_scopes = "authorization_scope set"

text \<open>The loop over the given scopes with its running index.\<close>

fun collect_scopes ::
  "nat \<Rightarrow> principal_scopes \<Rightarrow> authorization_scope list \<Rightarrow> principal_error + principal_scopes" where
  "collect_scopes index normalized [] = Inr normalized"
| "collect_scopes index normalized (scope # scopes) =
     (if index \<ge> MAX_PRINCIPAL_SCOPES then Inl TooManyScopes
      else collect_scopes (Suc index) (insert scope normalized) scopes)"

definition scopes_new :: "authorization_scope list \<Rightarrow> principal_error + principal_scopes" where
  "scopes_new scopes = collect_scopes 0 {} scopes"

section \<open>Principals\<close>

datatype token_id = TokenId uuid
datatype nostr_authentication_method = Nip42 | Nip98

record active_binding_identity =
  bi_binding_id :: binding_id
  bi_service_account_id :: service_account_id
  bi_profile_id :: profile_id
  bi_public_key :: nostr_public_key

definition from_binding ::
  "community_id \<Rightarrow> account_binding_fields \<Rightarrow> principal_error + active_binding_identity" where
  "from_binding community binding =
     (if ab_community_id binding \<noteq> community then Inl PrincipalTenantMismatch
      else if \<not> can_sign binding then Inl BindingNotActive
      else Inr \<lparr>bi_binding_id = ab_binding_id binding,
                bi_service_account_id = ab_service_account_id binding,
                bi_profile_id = ab_profile_id binding, bi_public_key = ab_public_key binding\<rparr>)"

datatype authenticated_principal_kind =
    SimAccount service_account_id
  | NostrIdentity nostr_public_key nostr_authentication_method "active_binding_identity option"
  | OwnerAttestedAgent profile_id nostr_public_key nostr_public_key nostr_event_id
      nostr_authentication_method
  | ScopedToken token_id principal_id
  | Service rust_string

record authenticated_principal =
  pn_principal_id :: principal_id
  pn_community_id :: community_id
  pn_kind :: authenticated_principal_kind
  pn_scopes :: principal_scopes

definition zed_account ::
  "principal_id \<Rightarrow> community_id \<Rightarrow> service_account_id \<Rightarrow> principal_scopes
   \<Rightarrow> authenticated_principal" where
  "zed_account p c account scopes =
     \<lparr>pn_principal_id = p, pn_community_id = c, pn_kind = SimAccount account, pn_scopes = scopes\<rparr>"

definition nostr_identity ::
  "principal_id \<Rightarrow> community_id \<Rightarrow> nostr_public_key \<Rightarrow> nostr_authentication_method
   \<Rightarrow> principal_scopes \<Rightarrow> authenticated_principal" where
  "nostr_identity p c key method scopes =
     \<lparr>pn_principal_id = p, pn_community_id = c, pn_kind = NostrIdentity key method None,
      pn_scopes = scopes\<rparr>"

definition bound_nostr_identity ::
  "principal_id \<Rightarrow> community_id \<Rightarrow> account_binding_fields \<Rightarrow> nostr_authentication_method
   \<Rightarrow> principal_scopes \<Rightarrow> principal_error + authenticated_principal" where
  "bound_nostr_identity p c binding method scopes =
     and_then (from_binding c binding) (\<lambda>active.
       Inr \<lparr>pn_principal_id = p, pn_community_id = c,
            pn_kind = NostrIdentity (bi_public_key active) method (Some active),
            pn_scopes = scopes\<rparr>)"

definition owner_attested_agent ::
  "principal_id \<Rightarrow> community_id \<Rightarrow> identity_profile \<Rightarrow> nostr_authentication_method
   \<Rightarrow> principal_scopes \<Rightarrow> principal_error + authenticated_principal" where
  "owner_attested_agent p c profile method scopes =
     (if pr_community_id profile \<noteq> c then Inl PrincipalTenantMismatch
      else case pr_kind profile of
        Human \<Rightarrow> Inl OwnerAttestationRequired
      | Agent agent \<Rightarrow>
          (case (ap_claimed_owner agent, ap_owner_attestation agent) of
             (Some owner, Some attestation) \<Rightarrow>
               (if owner = pr_author_public_key profile
                   \<or> oa_owner_public_key attestation \<noteq> owner
                   \<or> oa_agent_public_key attestation \<noteq> pr_author_public_key profile
                then Inl InvalidPrincipalAttestation
                else Inr \<lparr>pn_principal_id = p, pn_community_id = c,
                          pn_kind = OwnerAttestedAgent (pr_profile_id profile)
                            (pr_author_public_key profile) owner
                            (oa_proof_event_id attestation) method,
                          pn_scopes = scopes\<rparr>)
           | _ \<Rightarrow> Inl OwnerAttestationRequired))"

definition scoped_token ::
  "principal_id \<Rightarrow> community_id \<Rightarrow> token_id \<Rightarrow> principal_id \<Rightarrow> principal_scopes
   \<Rightarrow> authenticated_principal" where
  "scoped_token p c token subject scopes =
     \<lparr>pn_principal_id = p, pn_community_id = c, pn_kind = ScopedToken token subject,
      pn_scopes = scopes\<rparr>"

definition service_principal ::
  "principal_id \<Rightarrow> community_id \<Rightarrow> rust_string \<Rightarrow> principal_scopes
   \<Rightarrow> principal_error + authenticated_principal" where
  "service_principal p c name scopes =
     (if name = [] \<or> str_len name > MAX_SERVICE_NAME_BYTES \<or> trim name \<noteq> name
         \<or> list_ex is_control name
      then Inl InvalidServiceName
      else Inr \<lparr>pn_principal_id = p, pn_community_id = c, pn_kind = Service name,
                pn_scopes = scopes\<rparr>)"

section \<open>Properties\<close>

lemma collect_scopes_eq:
  "index \<le> MAX_PRINCIPAL_SCOPES \<Longrightarrow>
   collect_scopes index normalized scopes =
     (if index + length scopes > MAX_PRINCIPAL_SCOPES then Inl TooManyScopes
      else Inr (normalized \<union> set scopes))"
  by (induction scopes arbitrary: index normalized) auto

text \<open>The bound counts the given scopes, duplicates included.\<close>

lemma scopes_new_eq:
  "scopes_new scopes =
     (if length scopes > MAX_PRINCIPAL_SCOPES then Inl TooManyScopes else Inr (set scopes))"
  by (simp add: scopes_new_def collect_scopes_eq)

text \<open>An accepted scope is printable ASCII of bounded length.\<close>

lemma scope_new_ascii:
  assumes "scope_new value = Inr s"
  shows "s = AuthorizationScope value \<and> value \<noteq> [] \<and> length value \<le> MAX_SCOPE_BYTES
       \<and> (\<forall>c \<in> set value. 32 < c \<and> c < 127)"
proof -
  from assms have len: "str_len value \<le> MAX_SCOPE_BYTES" and "value \<noteq> []"
    and s: "s = AuthorizationScope value"
    and ok: "\<forall>b \<in> set (str_bytes value). is_ascii_alphanumeric b \<or> b \<in> set scope_punctuation"
    by (auto simp: scope_new_def list_all_iff split: if_splits)
  have range: "\<forall>b \<in> set (str_bytes value). 32 < b \<and> b < 127"
    using ok by (auto simp: is_ascii_alphanumeric_def is_ascii_digit_def is_ascii_lowercase_def
        scope_punctuation_def)
  then have "str_bytes value = value"
    by (intro str_bytes_ascii) auto
  with range len s \<open>value \<noteq> []\<close> show ?thesis
    by (simp add: str_len_def)
qed

lemma bound_nostr_identity_Inr:
  assumes "bound_nostr_identity p c binding method scopes = Inr pn"
  shows "ab_community_id binding = c \<and> ab_status binding = Active
       \<and> pn_community_id pn = c \<and> pn_principal_id pn = p \<and> pn_scopes pn = scopes"
  using assms
  by (cases "ab_status binding")
    (auto simp: bound_nostr_identity_def from_binding_def can_sign_def result_simps split: if_splits)

text \<open>
  The attestation test of \<open>owner_attested_agent\<close> can only fail on profiles that validation
  rejects: for a validated profile the agent either has no owner or a proven one.
\<close>

lemma owner_attested_agent_valid:
  assumes "validate_profile profile = Inr ()"
  shows "owner_attested_agent p c profile method scopes \<noteq> Inl InvalidPrincipalAttestation"
proof (cases "pr_kind profile")
  case Human
  then show ?thesis by (simp add: owner_attested_agent_def)
next
  case (Agent agent)
  with validate_profile_agent [OF assms Agent] show ?thesis
    by (auto simp: owner_attested_agent_def valid_owner_attestation_def split: option.splits)
qed

end
