(* ===== verification/Authorization.thy ===== *)
theory Authorization
  imports Principal
begin

text \<open>
  The authorization decision (\<open>authorization.rs\<close>): roles, memberships, delegations and the
  function every command of every aggregate asks. \<open>authorized\<close> states the policy without the
  order of the tests; \<open>authorize_iff\<close> shows the code implements it.
\<close>

section \<open>Data\<close>

datatype authorization_action = Read | Write | Manage | Delete

datatype membership_role = Owner | Admin | Member | Guest | Bot

fun permits :: "membership_role \<Rightarrow> authorization_action \<Rightarrow> bool" where
  "permits Owner action = True"
| "permits Admin action = (action \<noteq> Delete)"
| "permits Member action = (action = Read \<or> action = Write)"
| "permits Guest action = (action = Read)"
| "permits Bot action = False"

datatype membership_status = MemberActive | MemberRevoked | MemberArchived

record community_membership =
  cm_community_id :: community_id
  cm_principal_id :: principal_id
  cm_role :: membership_role
  cm_status :: membership_status
  cm_version :: aggregate_version

record channel_membership =
  hm_community_id :: community_id
  hm_channel_id :: aggregate_id
  hm_principal_id :: principal_id
  hm_role :: membership_role
  hm_status :: membership_status
  hm_version :: aggregate_version

datatype authorization_resource_kind =
    CommunityResource | ChannelResource | ProjectResource | RepositoryResource
  | ConversationResource | WorkflowResource | AgentSessionResource | MediaResource
  | AdministrationResource

record authorization_resource =
  rs_community_id :: community_id
  rs_kind :: authorization_resource_kind
  rs_resource_id :: aggregate_id
  rs_owner_principal_id :: "principal_id option"
  rs_channel_id :: "aggregate_id option"

record delegation_grant =
  dg_community_id :: community_id
  dg_delegate_principal_id :: principal_id
  dg_resource_id :: aggregate_id
  dg_action :: authorization_action
  dg_membership_version :: aggregate_version
  dg_expires_at_millis :: u64
  dg_revoked :: bool

record authorization_request =
  rq_tenant :: tenant_context
  rq_principal :: authenticated_principal
  rq_required_scope :: authorization_scope
  rq_action :: authorization_action
  rq_resource :: authorization_resource
  rq_current_membership_version :: aggregate_version
  rq_community_membership :: "community_membership option"
  rq_current_channel_membership_version :: "aggregate_version option"
  rq_channel_membership :: "channel_membership option"
  rq_delegation :: "delegation_grant option"
  rq_now_millis :: u64

datatype authorization_denial =
    TenantMismatch | MissingScope | MissingMembership | InactiveMembership | StaleMembership
  | MissingChannelMembership | InactiveChannelMembership | StaleChannelMembership
  | InsufficientRole

datatype authorization_decision = Allowed | Denied authorization_denial

section \<open>The decision\<close>

definition authorization_subject :: "authenticated_principal \<Rightarrow> principal_id" where
  "authorization_subject p =
     (case pn_kind p of ScopedToken _ subject \<Rightarrow> subject | _ \<Rightarrow> pn_principal_id p)"

definition delegation_permits :: "authorization_request \<Rightarrow> bool" where
  "delegation_permits r =
     (case rq_delegation r of None \<Rightarrow> False
      | Some d \<Rightarrow>
          dg_community_id d = tc_community_id (rq_tenant r)
          \<and> dg_delegate_principal_id d = pn_principal_id (rq_principal r)
          \<and> dg_resource_id d = rs_resource_id (rq_resource r)
          \<and> dg_action d = rq_action r
          \<and> dg_membership_version d = rq_current_membership_version r
          \<and> dg_expires_at_millis d \<ge> rq_now_millis r
          \<and> \<not> dg_revoked d)"

definition role_decision :: "membership_role \<Rightarrow> authorization_action \<Rightarrow> authorization_decision" where
  "role_decision role action = (if permits role action then Allowed else Denied InsufficientRole)"

definition authorize :: "authorization_request \<Rightarrow> authorization_decision" where
  "authorize r =
     (let subject = authorization_subject (rq_principal r);
          tenant = tc_community_id (rq_tenant r);
          resource = rq_resource r in
      if tenant \<noteq> pn_community_id (rq_principal r) \<or> rs_community_id resource \<noteq> tenant
      then Denied TenantMismatch
      else if rq_required_scope r \<notin> pn_scopes (rq_principal r) then Denied MissingScope
      else if rs_kind resource = ChannelResource \<and> rs_channel_id resource = None
      then Denied MissingChannelMembership
      else if delegation_permits r then Allowed
      else case rq_community_membership r of
        None \<Rightarrow> Denied MissingMembership
      | Some membership \<Rightarrow>
          (if cm_community_id membership \<noteq> tenant \<or> cm_principal_id membership \<noteq> subject
           then Denied TenantMismatch
           else if cm_version membership \<noteq> rq_current_membership_version r
           then Denied StaleMembership
           else if cm_status membership \<noteq> MemberActive then Denied InactiveMembership
           else case rs_channel_id resource of
             Some channel \<Rightarrow>
               (case rq_channel_membership r of
                  None \<Rightarrow> Denied MissingChannelMembership
                | Some cm \<Rightarrow>
                    (if hm_community_id cm \<noteq> tenant \<or> hm_channel_id cm \<noteq> channel
                        \<or> hm_principal_id cm \<noteq> subject
                     then Denied TenantMismatch
                     else if Some (hm_version cm) \<noteq> rq_current_channel_membership_version r
                     then Denied StaleChannelMembership
                     else if hm_status cm \<noteq> MemberActive then Denied InactiveChannelMembership
                     else role_decision (hm_role cm) (rq_action r)))
           | None \<Rightarrow>
               (if rs_kind resource \<noteq> CommunityResource
                   \<and> rs_kind resource \<noteq> AdministrationResource
                   \<and> rs_owner_principal_id resource = Some subject
                then Allowed
                else role_decision (cm_role membership) (rq_action r))))"

text \<open>The subject of a request; \<open>membership.rs\<close> and \<open>channel.rs\<close> carry copies of it.\<close>

definition request_subject :: "authorization_request \<Rightarrow> principal_id" where
  "request_subject r = authorization_subject (rq_principal r)"

section \<open>The policy\<close>

text \<open>The subject's community membership in force: right tenant and person, current, active.\<close>

definition member_in_force :: "authorization_request \<Rightarrow> community_membership \<Rightarrow> bool" where
  "member_in_force r m \<longleftrightarrow>
     rq_community_membership r = Some m
     \<and> cm_community_id m = tc_community_id (rq_tenant r)
     \<and> cm_principal_id m = request_subject r
     \<and> cm_version m = rq_current_membership_version r
     \<and> cm_status m = MemberActive"

definition channel_member_in_force ::
  "authorization_request \<Rightarrow> aggregate_id \<Rightarrow> channel_membership \<Rightarrow> bool" where
  "channel_member_in_force r channel m \<longleftrightarrow>
     rq_channel_membership r = Some m
     \<and> hm_community_id m = tc_community_id (rq_tenant r)
     \<and> hm_channel_id m = channel
     \<and> hm_principal_id m = request_subject r
     \<and> rq_current_channel_membership_version r = Some (hm_version m)
     \<and> hm_status m = MemberActive"

definition same_tenant :: "authorization_request \<Rightarrow> bool" where
  "same_tenant r \<longleftrightarrow>
     pn_community_id (rq_principal r) = tc_community_id (rq_tenant r)
     \<and> rs_community_id (rq_resource r) = tc_community_id (rq_tenant r)"

text \<open>
  A request is authorized when it stays in its tenant, its principal holds the scope, and
  either a live delegation covers it or the subject's memberships in force do: in a channel
  the channel role decides, elsewhere ownership or the community role.
\<close>

definition authorized :: "authorization_request \<Rightarrow> bool" where
  "authorized r \<longleftrightarrow>
     same_tenant r
     \<and> rq_required_scope r \<in> pn_scopes (rq_principal r)
     \<and> (rs_kind (rq_resource r) = ChannelResource \<longrightarrow> rs_channel_id (rq_resource r) \<noteq> None)
     \<and> (delegation_permits r
        \<or> (\<exists>m. member_in_force r m
             \<and> (case rs_channel_id (rq_resource r) of
                  Some channel \<Rightarrow>
                    \<exists>c. channel_member_in_force r channel c \<and> permits (hm_role c) (rq_action r)
                | None \<Rightarrow>
                    rs_kind (rq_resource r) \<notin> {CommunityResource, AdministrationResource}
                      \<and> rs_owner_principal_id (rq_resource r) = Some (request_subject r)
                    \<or> permits (cm_role m) (rq_action r))))"

lemma role_decision_Allowed [simp]: "role_decision role action = Allowed \<longleftrightarrow> permits role action"
  by (simp add: role_decision_def)

lemma decision_if [simp]:
  "(if b then Denied d else k) = Allowed \<longleftrightarrow> \<not> b \<and> k = Allowed"
  "(if b then Allowed else k) = Allowed \<longleftrightarrow> b \<or> k = Allowed"
  by simp_all

lemma authorize_iff: "authorize r = Allowed \<longleftrightarrow> authorized r"
  unfolding authorize_def authorized_def same_tenant_def member_in_force_def
    channel_member_in_force_def request_subject_def Let_def decision_if
  by (cases "rq_community_membership r"; cases "rs_channel_id (rq_resource r)";
      cases "rq_channel_membership r"; auto split del: if_split)

lemma authorize_same_tenant: "authorize r = Allowed \<Longrightarrow> same_tenant r"
  by (simp add: authorize_iff authorized_def)

lemma authorize_scope:
  "authorize r = Allowed \<Longrightarrow> rq_required_scope r \<in> pn_scopes (rq_principal r)"
  by (simp add: authorize_iff authorized_def)

text \<open>Roles form a chain: what a lower role permits, every higher one permits.\<close>

fun role_rank :: "membership_role \<Rightarrow> nat" where
  "role_rank Owner = 4"
| "role_rank Admin = 3"
| "role_rank Member = 2"
| "role_rank Guest = 1"
| "role_rank Bot = 0"

lemma permits_mono: "role_rank a \<le> role_rank b \<Longrightarrow> permits a action \<Longrightarrow> permits b action"
  by (cases a; cases b) auto

text \<open>A request that relies on memberships only: its delegation, if any, does not apply.\<close>

lemma authorize_member:
  assumes "authorize r = Allowed" and "\<not> delegation_permits r"
  shows "\<exists>m. member_in_force r m"
  using assms by (auto simp: authorize_iff authorized_def)

lemma authorize_channel_member:
  assumes "authorize r = Allowed" and "\<not> delegation_permits r"
    and "rs_channel_id (rq_resource r) = Some channel"
  shows "\<exists>c. channel_member_in_force r channel c \<and> permits (hm_role c) (rq_action r)"
  using assms by (auto simp: authorize_iff authorized_def)

end
