(* ===== verification/Admission.thy ===== *)
theory Admission
  imports Authorization
begin

text \<open>
  Admission evidence (\<open>admission_evidence.rs\<close>): single-use replay challenges, scoped tokens,
  community invites with a use budget, and virtual memberships of owner-attested agents. The
  Rust methods take the evidence by value and return its successor, so each is a function from
  evidence to an error or the new evidence.
\<close>

section \<open>Data\<close>

datatype invite_id = InviteId uuid
datatype replay_challenge_id = ReplayChallengeId uuid

datatype admission_evidence_error =
    AdmissionTenantMismatch | AdmissionExpired | AdmissionRevoked | ReplayDetected
  | ScopeEscalation | InviteExhausted | InvalidInviteState | StaleEvidence
  | AdmissionVersionExhausted | AdmissionOwnerAttestationRequired
  | AdmissionInvalidOwnerAttestation | OwnerMembershipRequired

section \<open>Replay protection\<close>

record replay_protection_evidence =
  re_challenge_id :: replay_challenge_id
  re_community_id :: community_id
  re_token_id :: token_id
  re_expires_at_millis :: u64
  re_consumed :: bool
  re_version :: aggregate_version

definition consume ::
  "replay_protection_evidence \<Rightarrow> community_id \<Rightarrow> token_id \<Rightarrow> aggregate_version \<Rightarrow> u64
   \<Rightarrow> admission_evidence_error + replay_protection_evidence" where
  "consume ev community token current_version now =
     (if re_community_id ev \<noteq> community \<or> re_token_id ev \<noteq> token then Inl AdmissionTenantMismatch
      else if re_version ev \<noteq> current_version then Inl StaleEvidence
      else if re_consumed ev then Inl ReplayDetected
      else if re_expires_at_millis ev < now then Inl AdmissionExpired
      else and_then (ok_or (version_next (re_version ev)) AdmissionVersionExhausted) (\<lambda>version.
        Inr (ev\<lparr>re_consumed := True, re_version := version\<rparr>)))"

section \<open>Scoped tokens\<close>

record scoped_token_evidence =
  st_token_id :: token_id
  st_token_principal_id :: principal_id
  st_subject_principal_id :: principal_id
  st_community_id :: community_id
  st_granted_scopes :: principal_scopes
  st_expires_at_millis :: u64
  st_revoked :: bool

record scoped_token_admission =
  ta_principal :: authenticated_principal
  ta_replay_evidence :: replay_protection_evidence

definition admit ::
  "scoped_token_evidence \<Rightarrow> principal_scopes \<Rightarrow> replay_protection_evidence \<Rightarrow> aggregate_version
   \<Rightarrow> u64 \<Rightarrow> admission_evidence_error + scoped_token_admission" where
  "admit token requested replay current_replay_version now =
     (if st_revoked token then Inl AdmissionRevoked
      else if st_expires_at_millis token < now then Inl AdmissionExpired
      else if \<not> requested \<subseteq> st_granted_scopes token then Inl ScopeEscalation
      else and_then (consume replay (st_community_id token) (st_token_id token)
                       current_replay_version now) (\<lambda>replay'.
        Inr \<lparr>ta_principal =
               Principal.scoped_token (st_token_principal_id token) (st_community_id token)
                 (st_token_id token) (st_subject_principal_id token) requested,
             ta_replay_evidence = replay'\<rparr>))"

section \<open>Invites\<close>

record invite_admission_evidence =
  iv_invite_id :: invite_id
  iv_community_id :: community_id
  iv_max_uses :: "u32 option"
  iv_use_count :: u32
  iv_expires_at_millis :: u64
  iv_revoked :: bool
  iv_version :: aggregate_version

definition invite_new ::
  "invite_id \<Rightarrow> community_id \<Rightarrow> u32 option \<Rightarrow> u32 \<Rightarrow> u64 \<Rightarrow> bool \<Rightarrow> aggregate_version
   \<Rightarrow> admission_evidence_error + invite_admission_evidence" where
  "invite_new invite community max_uses use_count expires_at revoked version =
     (if max_uses = Some 0 \<or> is_some_and max_uses (\<lambda>maximum. use_count > maximum)
      then Inl InvalidInviteState
      else Inr \<lparr>iv_invite_id = invite, iv_community_id = community, iv_max_uses = max_uses,
                iv_use_count = use_count, iv_expires_at_millis = expires_at,
                iv_revoked = revoked, iv_version = version\<rparr>)"

datatype invite_redemption =
    Joined (redemption_evidence: invite_admission_evidence)
      (redemption_membership: community_membership)
  | AlreadyMember (redemption_evidence: invite_admission_evidence)
      (redemption_membership: community_membership)

definition redeem ::
  "invite_admission_evidence \<Rightarrow> community_id \<Rightarrow> principal_id \<Rightarrow> community_membership option
   \<Rightarrow> aggregate_version \<Rightarrow> aggregate_version \<Rightarrow> u64
   \<Rightarrow> admission_evidence_error + invite_redemption" where
  "redeem ev community p existing current_version membership_version now =
     (if iv_community_id ev \<noteq> community then Inl AdmissionTenantMismatch
      else if iv_version ev \<noteq> current_version then Inl StaleEvidence
      else if iv_revoked ev then Inl AdmissionRevoked
      else if iv_expires_at_millis ev < now then Inl AdmissionExpired
      else case existing of
        Some membership \<Rightarrow>
          (if cm_community_id membership \<noteq> community \<or> cm_principal_id membership \<noteq> p
           then Inl AdmissionTenantMismatch
           else Inr (AlreadyMember ev membership))
      | None \<Rightarrow>
          (if is_some_and (iv_max_uses ev) (\<lambda>maximum. iv_use_count ev \<ge> maximum)
           then Inl InviteExhausted
           else
             and_then (ok_or (checked_add (iv_use_count ev) 1) InviteExhausted) (\<lambda>use_count.
             and_then (ok_or (version_next (iv_version ev)) AdmissionVersionExhausted) (\<lambda>version.
             Inr (Joined (ev\<lparr>iv_use_count := use_count, iv_version := version\<rparr>)
               \<lparr>cm_community_id = community, cm_principal_id = p, cm_role = Member,
                cm_status = MemberActive, cm_version = membership_version\<rparr>)))))"

section \<open>Virtual memberships of agents\<close>

record virtual_agent_membership_evidence =
  va_community_id :: community_id
  va_agent_principal_id :: principal_id
  va_agent_public_key :: nostr_public_key
  va_owner_principal_id :: principal_id
  va_owner_public_key :: nostr_public_key
  va_proof_event_id :: nostr_event_id
  va_owner_membership_version :: aggregate_version

definition derive_virtual ::
  "authenticated_principal \<Rightarrow> principal_id \<Rightarrow> community_membership \<Rightarrow> aggregate_version
   \<Rightarrow> admission_evidence_error + virtual_agent_membership_evidence" where
  "derive_virtual pn owner membership current_version =
     (case pn_kind pn of
        OwnerAttestedAgent _ agent_key attested_owner proof _ \<Rightarrow>
          (if pn_principal_id pn = owner then Inl AdmissionInvalidOwnerAttestation
           else if cm_community_id membership \<noteq> pn_community_id pn
                   \<or> cm_principal_id membership \<noteq> owner
           then Inl AdmissionTenantMismatch
           else if cm_version membership \<noteq> current_version then Inl StaleEvidence
           else if cm_status membership \<noteq> MemberActive then Inl OwnerMembershipRequired
           else Inr \<lparr>va_community_id = pn_community_id pn,
                     va_agent_principal_id = pn_principal_id pn,
                     va_agent_public_key = agent_key, va_owner_principal_id = owner,
                     va_owner_public_key = attested_owner, va_proof_event_id = proof,
                     va_owner_membership_version = current_version\<rparr>)
      | _ \<Rightarrow> Inl AdmissionOwnerAttestationRequired)"

definition policy_membership_snapshot ::
  "virtual_agent_membership_evidence \<Rightarrow> community_membership" where
  "policy_membership_snapshot ev =
     \<lparr>cm_community_id = va_community_id ev, cm_principal_id = va_agent_principal_id ev,
      cm_role = Member, cm_status = MemberActive, cm_version = va_owner_membership_version ev\<rparr>"

section \<open>Properties\<close>

lemma consume_Inr:
  "consume ev community token v now = Inr ev' \<longleftrightarrow>
     re_community_id ev = community \<and> re_token_id ev = token \<and> re_version ev = v
     \<and> \<not> re_consumed ev \<and> now \<le> re_expires_at_millis ev
     \<and> (\<exists>w. version_next (re_version ev) = Some w
          \<and> ev' = ev\<lparr>re_consumed := True, re_version := w\<rparr>)"
  by (auto simp: consume_def result_simps not_less)

lemma consume_once:
  assumes "consume ev community token v now = Inr ev'"
  shows "\<not> is_ok (consume ev' community' token' v' now')"
  using assms by (auto simp: consume_Inr is_ok_iff)

lemma admit_Inr:
  assumes "admit token requested replay v now = Inr adm"
  shows "\<not> st_revoked token \<and> now \<le> st_expires_at_millis token
       \<and> requested \<subseteq> st_granted_scopes token
       \<and> consume replay (st_community_id token) (st_token_id token) v now
           = Inr (ta_replay_evidence adm)
       \<and> ta_principal adm = Principal.scoped_token (st_token_principal_id token)
           (st_community_id token) (st_token_id token) (st_subject_principal_id token) requested"
  using assms by (auto simp: admit_def result_simps not_less split: if_splits)

text \<open>The invariant of a constructed invite: its count is within its budget.\<close>

definition invite_ok :: "invite_admission_evidence \<Rightarrow> bool" where
  "invite_ok ev \<longleftrightarrow>
     (case iv_max_uses ev of None \<Rightarrow> True | Some maximum \<Rightarrow> 0 < maximum \<and> iv_use_count ev \<le> maximum)"

lemma invite_new_ok:
  "invite_new i c m n e r v = Inr ev \<Longrightarrow> invite_ok ev"
  by (auto simp: invite_new_def invite_ok_def word_gt_0 not_less split: if_splits option.splits)

lemma redeem_Joined:
  assumes "redeem ev c p existing v w now = Inr (Joined ev' m)"
  shows "existing = None \<and> iv_community_id ev = c \<and> iv_version ev = v \<and> \<not> iv_revoked ev
       \<and> now \<le> iv_expires_at_millis ev
       \<and> unat (iv_use_count ev') = unat (iv_use_count ev) + 1
       \<and> (\<forall>maximum. iv_max_uses ev = Some maximum \<longrightarrow> iv_use_count ev < maximum)
       \<and> iv_max_uses ev' = iv_max_uses ev \<and> iv_community_id ev' = iv_community_id ev
       \<and> iv_invite_id ev' = iv_invite_id ev
       \<and> version_next (iv_version ev) = Some (iv_version ev')
       \<and> m = \<lparr>cm_community_id = c, cm_principal_id = p, cm_role = Member,
              cm_status = MemberActive, cm_version = w\<rparr>"
  using assms
  by (auto simp: redeem_def result_simps checked_add_Some not_less not_le
      split: if_splits option.splits)

lemma redeem_AlreadyMember:
  assumes "redeem ev c p existing v w now = Inr (AlreadyMember ev' m)"
  shows "existing = Some m \<and> ev' = ev \<and> cm_community_id m = c \<and> cm_principal_id m = p"
  using assms by (auto simp: redeem_def result_simps split: if_splits option.splits)

lemma redeem_ok:
  assumes "invite_ok ev" and "redeem ev c p existing v w now = Inr r"
  shows "invite_ok (redemption_evidence r)"
proof (cases r)
  case (Joined ev' m)
  with redeem_Joined assms show ?thesis
    by (fastforce simp: invite_ok_def word_le_nat_alt word_less_nat_alt split: option.splits)
next
  case (AlreadyMember ev' m)
  with redeem_AlreadyMember assms show ?thesis by fastforce
qed

text \<open>
  A history of redemptions of one stored invite: every attempt sees the stored evidence, a
  failed attempt leaves it, a successful one stores the evidence it returns.
\<close>

record redemption_attempt =
  at_community_id :: community_id
  at_principal_id :: principal_id
  at_existing :: "community_membership option"
  at_current_version :: aggregate_version
  at_membership_version :: aggregate_version
  at_now_millis :: u64

definition attempt_redeem ::
  "invite_admission_evidence \<Rightarrow> redemption_attempt
   \<Rightarrow> admission_evidence_error + invite_redemption" where
  "attempt_redeem ev a =
     redeem ev (at_community_id a) (at_principal_id a) (at_existing a) (at_current_version a)
       (at_membership_version a) (at_now_millis a)"

primrec redeem_all ::
  "invite_admission_evidence \<Rightarrow> redemption_attempt list \<Rightarrow> invite_admission_evidence" where
  "redeem_all ev [] = ev"
| "redeem_all ev (a # as) =
     (case attempt_redeem ev a of Inl _ \<Rightarrow> redeem_all ev as
      | Inr r \<Rightarrow> redeem_all (redemption_evidence r) as)"

primrec joined_count :: "invite_admission_evidence \<Rightarrow> redemption_attempt list \<Rightarrow> nat" where
  "joined_count ev [] = 0"
| "joined_count ev (a # as) =
     (case attempt_redeem ev a of
        Inl _ \<Rightarrow> joined_count ev as
      | Inr (Joined ev' _) \<Rightarrow> Suc (joined_count ev' as)
      | Inr (AlreadyMember ev' _) \<Rightarrow> joined_count ev' as)"

lemma joined_count_use_count:
  "unat (iv_use_count (redeem_all ev as)) = unat (iv_use_count ev) + joined_count ev as
   \<and> iv_max_uses (redeem_all ev as) = iv_max_uses ev"
proof (induction as arbitrary: ev)
  case (Cons a as)
  show ?case
  proof (cases "attempt_redeem ev a")
    case (Inl e)
    with Cons show ?thesis by simp
  next
    case (Inr r)
    show ?thesis
    proof (cases r)
      case (Joined ev' m)
      with Inr have "unat (iv_use_count ev') = unat (iv_use_count ev) + 1
          \<and> iv_max_uses ev' = iv_max_uses ev"
        using redeem_Joined by (fastforce simp: attempt_redeem_def)
      with Inr Joined Cons.IH [of ev'] show ?thesis by simp
    next
      case (AlreadyMember ev' m)
      with Inr have "ev' = ev"
        using redeem_AlreadyMember by (fastforce simp: attempt_redeem_def)
      with Inr AlreadyMember Cons.IH [of ev] show ?thesis by simp
    qed
  qed
qed simp

lemma redeem_all_ok: "invite_ok ev \<Longrightarrow> invite_ok (redeem_all ev as)"
proof (induction as arbitrary: ev)
  case (Cons a as)
  then show ?case
    using redeem_ok by (fastforce simp: attempt_redeem_def split: sum.splits)
qed simp

lemma joined_count_bound:
  assumes "invite_ok ev" and "iv_max_uses ev = Some maximum"
  shows "joined_count ev as + unat (iv_use_count ev) \<le> unat maximum"
  using redeem_all_ok [OF assms(1), of as] joined_count_use_count [of ev as] assms(2)
  by (auto simp: invite_ok_def word_le_nat_alt)

lemma derive_virtual_Inr:
  assumes "derive_virtual pn owner m v = Inr ev"
  shows "va_community_id ev = pn_community_id pn \<and> va_agent_principal_id ev = pn_principal_id pn
       \<and> va_owner_principal_id ev = owner \<and> owner \<noteq> pn_principal_id pn
       \<and> va_owner_membership_version ev = v \<and> cm_version m = v \<and> cm_status m = MemberActive
       \<and> cm_community_id m = pn_community_id pn \<and> cm_principal_id m = owner"
  using assms by (auto simp: derive_virtual_def split: authenticated_principal_kind.splits if_splits)

end
