(* ===== verification/Versioned.thy ===== *)
theory Versioned
  imports Identity
begin

text \<open>
  Optimistic concurrency, once for every aggregate. The aggregates of
  \<open>crates/collaboration_domain\<close> share one contract: a command carries the version its sender
  saw, it is applied only at that version, applying it advances the version by one, and a
  command that answers \<open>Unchanged\<close> leaves the aggregate alone. The locale states that contract
  over an arbitrary command interpreter and proves what clients of a store of such aggregates
  rely on; each aggregate's theory interprets it on its own commands.
\<close>

section \<open>Outcomes and runs\<close>

text \<open>The outcome enums of the aggregates (\<open>ChannelCommandOutcome\<close> and its kin) agree.\<close>

datatype command_outcome = Applied | Unchanged

lemma outcome_cases:
  obtains (failed) e t where "m = (Inl e, t)"
  | (applied) t where "m = (Inr Applied, t)"
  | (unchanged) t where "m = (Inr Unchanged, t)"
proof (cases m)
  case (Pair r t)
  show thesis
  proof (cases r)
    case (Inr out)
    with Pair applied unchanged show thesis by (cases out) auto
  qed (use Pair failed in auto)
qed

primrec run_commands ::
  "('c \<Rightarrow> 's \<Rightarrow> ('s, 'e, command_outcome) effect) \<Rightarrow> 'c list \<Rightarrow> 's \<Rightarrow> 's" where
  "run_commands exec [] s = s"
| "run_commands exec (c # cs) s = run_commands exec cs (snd (exec c s))"

primrec count_applied ::
  "('c \<Rightarrow> 's \<Rightarrow> ('s, 'e, command_outcome) effect) \<Rightarrow> 'c list \<Rightarrow> 's \<Rightarrow> nat" where
  "count_applied exec [] s = 0"
| "count_applied exec (c # cs) s =
     (if fst (exec c s) = Inr Applied then 1 else 0) + count_applied exec cs (snd (exec c s))"

lemma run_commands_append:
  "run_commands exec (cs @ ds) s = run_commands exec ds (run_commands exec cs s)"
  by (induction cs arbitrary: s) simp_all

section \<open>The contract\<close>

locale versioned_aggregate =
  fixes exec :: "'c \<Rightarrow> 's \<Rightarrow> ('s, 'e, command_outcome) effect"
    and version :: "'s \<Rightarrow> aggregate_version"
    and expected :: "'c \<Rightarrow> aggregate_version"
    and identity :: "'s \<Rightarrow> 'i"
    and invar :: "'s \<Rightarrow> bool"
  assumes applied_expected: "exec c s = (Inr Applied, t) \<Longrightarrow> expected c = version s"
    and applied_next: "exec c s = (Inr Applied, t) \<Longrightarrow> version_next (version s) = Some (version t)"
    and unchanged_same: "exec c s = (Inr Unchanged, t) \<Longrightarrow> t = s"
    and failed_version: "exec c s = (Inl e, t) \<Longrightarrow> version t = version s"
    and failed_atomic:
      "exec c s = (Inl e, t) \<Longrightarrow> version_next (version s) \<noteq> None \<Longrightarrow> t = s"
    and identity_kept: "identity (snd (exec c s)) = identity s"
    and invar_kept: "invar s \<Longrightarrow> invar (snd (exec c s))"
begin

lemma step_version:
  "version_num (version (snd (exec c s))) =
     version_num (version s) + (if fst (exec c s) = Inr Applied then 1 else 0)"
  by (cases "exec c s" rule: outcome_cases)
    (auto simp: version_next_Some dest: failed_version applied_next unchanged_same)

text \<open>The version counts the applied commands: none is lost, none counted twice.\<close>

lemma run_version:
  "version_num (version (run_commands exec cs s)) =
     version_num (version s) + count_applied exec cs s"
  by (induction cs arbitrary: s) (simp_all add: step_version)

lemma run_version_mono: "version s \<le> version (run_commands exec cs s)"
  by (simp add: version_num_le run_version)

lemma run_identity: "identity (run_commands exec cs s) = identity s"
  by (induction cs arbitrary: s) (simp_all add: identity_kept)

lemma run_invar: "invar s \<Longrightarrow> invar (run_commands exec cs s)"
  by (induction cs arbitrary: s) (simp_all add: invar_kept)

text \<open>
  No lost update: once a command has been applied, no later command that was prepared
  against the same version is applied, whatever ran in between.
\<close>

lemma no_lost_update:
  assumes c: "exec c s = (Inr Applied, t)" and same: "expected d = expected c"
  shows "fst (exec d (run_commands exec cs t)) \<noteq> Inr Applied"
proof
  assume "fst (exec d (run_commands exec cs t)) = Inr Applied"
  then obtain u where "exec d (run_commands exec cs t) = (Inr Applied, u)"
    by (metis prod.collapse)
  then have "expected d = version (run_commands exec cs t)"
    by (rule applied_expected)
  with same applied_expected [OF c] have "version (run_commands exec cs t) = version s"
    by simp
  moreover have "version s < version t"
    using applied_next [OF c] by (rule version_next_less)
  ultimately show False
    using run_version_mono [of t cs] by simp
qed

text \<open>A run in which the version did not move left the aggregate as it was.\<close>

lemma run_same_version:
  assumes "version_next (version s) \<noteq> None"
    and "version (run_commands exec cs s) = version s"
  shows "run_commands exec cs s = s"
  using assms
proof (induction cs arbitrary: s)
  case (Cons c cs)
  let ?t = "snd (exec c s)"
  have "version s \<le> version ?t" by (simp add: version_num_le step_version)
  moreover have "version ?t \<le> version (run_commands exec cs ?t)" by (rule run_version_mono)
  ultimately have v: "version ?t = version s"
    using Cons.prems(2) by (simp add: antisym)
  then have "fst (exec c s) \<noteq> Inr Applied"
    using step_version [of c s] by (auto split: if_splits)
  then have "?t = s"
    using Cons.prems(1) failed_atomic [of c s _ ?t] unchanged_same [of c s ?t]
    by (cases "exec c s" rule: outcome_cases) auto
  with Cons v show ?case by simp
qed simp

end

text \<open>An aggregate with states that no command leaves.\<close>

locale terminal_aggregate = versioned_aggregate +
  fixes terminal :: "'b \<Rightarrow> bool"
  assumes terminal_not_applied: "terminal s \<Longrightarrow> fst (exec c s) \<noteq> Inr Applied"
    and terminal_failed_same: "terminal s \<Longrightarrow> exec c s = (Inl e, t) \<Longrightarrow> t = s"
begin

lemma terminal_step: "terminal s \<Longrightarrow> snd (exec c s) = s"
  using terminal_not_applied [of s c] terminal_failed_same [of s c]
    unchanged_same [of c s "snd (exec c s)"]
  by (cases "exec c s" rule: outcome_cases) auto

lemma terminal_run: "terminal s \<Longrightarrow> run_commands exec cs s = s"
  by (induction cs) (simp_all add: terminal_step)

end

end
