(* ===== verification/Samples.thy ===== *)
theory Samples
  imports Admission Versioned
begin

text \<open>
  Concrete principals, memberships and requests at which the theorems of the development are
  exercised: a community with an owner (Alice) and a member (Bob), and requests by Alice to
  manage the community or one of its channels.
\<close>

definition sample_community :: community_id where "sample_community = CommunityId 1"
definition sample_channel :: aggregate_id where "sample_channel = AggregateId 7"
definition alice :: principal_id where "alice = PrincipalId 10"
definition bob :: principal_id where "bob = PrincipalId 11"
definition sample_scope :: authorization_scope where
  "sample_scope = AuthorizationScope (lit ''manage'')"

definition sample_tenant :: tenant_context where
  "sample_tenant =
     \<lparr>tc_community_id = sample_community, tc_route_source = Listener,
      tc_route_reference = lit ''main''\<rparr>"

definition alice_principal :: authenticated_principal where
  "alice_principal = zed_account alice sample_community (ServiceAccountId 3) {sample_scope}"

definition version_of :: "u64 \<Rightarrow> aggregate_version" where
  "version_of n = AggregateVersion n"

definition alice_membership :: "membership_role \<Rightarrow> community_membership" where
  "alice_membership role =
     \<lparr>cm_community_id = sample_community, cm_principal_id = alice, cm_role = role,
      cm_status = MemberActive, cm_version = version_of 5\<rparr>"

definition alice_channel_membership :: "membership_role \<Rightarrow> channel_membership" where
  "alice_channel_membership role =
     \<lparr>hm_community_id = sample_community, hm_channel_id = sample_channel,
      hm_principal_id = alice, hm_role = role, hm_status = MemberActive,
      hm_version = version_of 6\<rparr>"

definition community_request :: "authorization_action \<Rightarrow> membership_role \<Rightarrow> authorization_request" where
  "community_request action role =
     \<lparr>rq_tenant = sample_tenant, rq_principal = alice_principal,
      rq_required_scope = sample_scope, rq_action = action,
      rq_resource =
        \<lparr>rs_community_id = sample_community, rs_kind = CommunityResource,
         rs_resource_id = community_resource sample_community,
         rs_owner_principal_id = None, rs_channel_id = None\<rparr>,
      rq_current_membership_version = version_of 5,
      rq_community_membership = Some (alice_membership role),
      rq_current_channel_membership_version = None,
      rq_channel_membership = None, rq_delegation = None, rq_now_millis = 1000\<rparr>"

definition channel_request :: "authorization_action \<Rightarrow> membership_role \<Rightarrow> authorization_request" where
  "channel_request action role =
     (community_request action Member)
       \<lparr>rq_resource :=
          \<lparr>rs_community_id = sample_community, rs_kind = ChannelResource,
           rs_resource_id = sample_channel, rs_owner_principal_id = None,
           rs_channel_id = Some sample_channel\<rparr>,
        rq_current_channel_membership_version := Some (version_of 6),
        rq_channel_membership := Some (alice_channel_membership role)\<rparr>"

text \<open>A delegation to Alice to manage the community, live at the request's time.\<close>

definition sample_delegation :: delegation_grant where
  "sample_delegation =
     \<lparr>dg_community_id = sample_community, dg_delegate_principal_id = alice,
      dg_resource_id = community_resource sample_community, dg_action = Manage,
      dg_membership_version = version_of 5, dg_expires_at_millis = 2000, dg_revoked = False\<rparr>"

text \<open>Evidence: an invite of three uses, a token with its replay challenge, an active binding,
  and the profile of an agent attested by its owner.\<close>

definition sample_invite :: invite_admission_evidence where
  "sample_invite =
     \<lparr>iv_invite_id = InviteId 1, iv_community_id = sample_community, iv_max_uses = Some 3,
      iv_use_count = 1, iv_expires_at_millis = 5000, iv_revoked = False,
      iv_version = version_of 1\<rparr>"

definition sample_replay :: replay_protection_evidence where
  "sample_replay =
     \<lparr>re_challenge_id = ReplayChallengeId 4, re_community_id = sample_community,
      re_token_id = TokenId 5, re_expires_at_millis = 5000, re_consumed = False,
      re_version = version_of 1\<rparr>"

definition sample_token :: scoped_token_evidence where
  "sample_token =
     \<lparr>st_token_id = TokenId 5, st_token_principal_id = bob, st_subject_principal_id = alice,
      st_community_id = sample_community, st_granted_scopes = {sample_scope},
      st_expires_at_millis = 5000, st_revoked = False\<rparr>"

definition sample_binding :: account_binding_fields where
  "sample_binding =
     \<lparr>ab_binding_id = BindingId 20, ab_community_id = sample_community,
      ab_service_account_id = ServiceAccountId 3, ab_profile_id = ProfileId 21,
      ab_public_key = NostrPublicKey 22, ab_status = binding_status.Active,
      ab_verification = Some \<lparr>bv_method = GeneratedKeyChallenge,
        bv_evidence_reference = EvidenceReference (lit ''proof''), bv_verified_at_millis = 200\<rparr>,
      ab_predecessor = None, ab_successor = None, ab_created_at_millis = 100,
      ab_activated_at_millis = Some 300, ab_terminal_at_millis = None,
      ab_organization_policy_version = OrganizationPolicyVersion 1,
      ab_actor_principal_id = alice, ab_version = version_of 1,
      ab_audit_reference = OperationId 23\<rparr>"

definition agent_profile_at :: "u64 \<Rightarrow> identity_profile" where
  "agent_profile_at n =
     \<lparr>pr_profile_id = ProfileId 30, pr_community_id = sample_community,
      pr_author_public_key = NostrPublicKey 31,
      pr_kind = Agent \<lparr>ap_claimed_owner = Some (NostrPublicKey 32),
        ap_owner_attestation = Some \<lparr>oa_owner_public_key = NostrPublicKey 32,
          oa_agent_public_key = NostrPublicKey 31, oa_proof_event_id = NostrEventId 33,
          oa_exact_conditions = [], oa_verified_at = 10\<rparr>\<rparr>,
      pr_metadata = None,
      pr_statuses = [\<lparr>av_source_event_id = NostrEventId 34, av_source_author = NostrPublicKey 31,
        av_source_created_at = 5,
        av_value = \<lparr>ps_kind = General, ps_content = lit ''busy'', ps_expires_at = None\<rparr>\<rparr>],
      pr_social_lists = [], pr_relay_archive_states = [], pr_version = version_of n\<rparr>"

definition agent_principal :: authenticated_principal where
  "agent_principal =
     \<lparr>pn_principal_id = bob, pn_community_id = sample_community,
      pn_kind = OwnerAttestedAgent (ProfileId 30) (NostrPublicKey 31) (NostrPublicKey 32)
        (NostrEventId 33) Nip98,
      pn_scopes = {sample_scope}\<rparr>"

text \<open>A request by the agent, with a membership snapshot.\<close>

definition agent_request_with :: "community_membership option \<Rightarrow> authorization_request" where
  "agent_request_with m =
     (community_request Write Member)\<lparr>rq_principal := agent_principal, rq_community_membership := m\<rparr>"

text \<open>Alice redeems the invite.\<close>

definition alice_redemption :: invite_redemption where
  "alice_redemption =
     Joined (sample_invite\<lparr>iv_use_count := 2, iv_version := version_of 2\<rparr>)
       ((alice_membership Member)\<lparr>cm_version := version_of 1\<rparr>)"

lemmas sample_defs =
  sample_community_def sample_channel_def alice_def bob_def sample_scope_def sample_tenant_def
  alice_principal_def zed_account_def version_of_def alice_membership_def
  alice_channel_membership_def community_request_def channel_request_def sample_delegation_def

lemmas authorize_eval =
  authorize_def authorization_subject_def delegation_permits_def role_decision_def
  request_subject_def community_resource_def Let_def

lemma version_next_of [simp]:
  "unat n + 1 < 2 ^ 64 \<Longrightarrow> version_next (version_of n) = Some (version_of (n + 1))"
  by (simp add: version_next_Some version_of_def version_num_def unat_word_ariths)

lemma community_request_allowed:
  "authorize (community_request action role) = role_decision role action"
  by (simp add: sample_defs authorize_eval)

lemma channel_request_allowed:
  "authorize (channel_request action role) = role_decision role action"
  by (simp add: sample_defs authorize_eval)

lemma alice_redeems:
  "redeem sample_invite sample_community alice None (version_of 1) (version_of 1) 10
     = Inr alice_redemption"
  by (simp add: redeem_def sample_invite_def checked_add_def alice_redemption_def
      alice_membership_def word_le_nat_alt)

end
