(* ===== verification/Membership.thy ===== *)
theory Membership
  imports Admission Versioned Samples
begin

text \<open>
  Memberships of communities and channels (\<open>membership.rs\<close>): adding a member, changing its
  role, revoking, archiving and restoring it, and the policy inputs other components read. A
  command is a method on \<open>&mut self\<close>; it returns its result and the membership it leaves.
\<close>

section \<open>Data\<close>

datatype membership_scope = CommunityScope | ChannelScope aggregate_id

record membership =
  mb_community_id :: community_id
  mb_scope :: membership_scope
  mb_principal_id :: principal_id
  mb_role :: membership_role
  mb_status :: membership_status
  mb_version :: aggregate_version
  mb_added_by_principal_id :: "principal_id option"

record membership_create_fields =
  mc_community_id :: community_id
  mc_scope :: membership_scope
  mc_principal_id :: principal_id
  mc_role :: membership_role

datatype membership_policy_input =
    PersistentCommunity community_membership
  | PersistentChannel channel_membership
  | VirtualCommunity community_membership

fun input_community_membership :: "membership_policy_input \<Rightarrow> community_membership option" where
  "input_community_membership (PersistentCommunity m) = Some m"
| "input_community_membership (VirtualCommunity m) = Some m"
| "input_community_membership (PersistentChannel _) = None"

fun input_channel_membership :: "membership_policy_input \<Rightarrow> channel_membership option" where
  "input_channel_membership (PersistentChannel m) = Some m"
| "input_channel_membership (PersistentCommunity _) = None"
| "input_channel_membership (VirtualCommunity _) = None"

fun input_is_virtual :: "membership_policy_input \<Rightarrow> bool" where
  "input_is_virtual (VirtualCommunity _) = True"
| "input_is_virtual _ = False"

record invite_membership_projection =
  im_membership :: membership
  im_inserted :: bool

datatype membership_error =
    AuthorizationShape | Unauthorized authorization_denial | MissingActorMembership | SelfMutation
  | ProtectedOwner | RoleEscalation | StaleVersion aggregate_version aggregate_version
  | InvalidTransition | VersionExhausted

section \<open>Guards\<close>

definition authorize_membership ::
  "authorization_request \<Rightarrow> community_id \<Rightarrow> membership_scope \<Rightarrow> membership_error + unit" where
  "authorize_membership r community scope =
     (if rq_action r \<noteq> Manage \<or> rs_community_id (rq_resource r) \<noteq> community
      then Inl AuthorizationShape
      else if \<not> (case scope of
             CommunityScope \<Rightarrow>
               rs_kind (rq_resource r) = CommunityResource
               \<and> rs_resource_id (rq_resource r) = community_resource community
               \<and> rs_channel_id (rq_resource r) = None
           | ChannelScope channel \<Rightarrow>
               rs_kind (rq_resource r) = ChannelResource
               \<and> rs_resource_id (rq_resource r) = channel
               \<and> rs_channel_id (rq_resource r) = Some channel)
      then Inl AuthorizationShape
      else case authorize r of Allowed \<Rightarrow> Inr () | Denied denial \<Rightarrow> Inl (Unauthorized denial))"

definition actor_role ::
  "authorization_request \<Rightarrow> membership_scope \<Rightarrow> membership_error + membership_role" where
  "actor_role r scope =
     ok_or (case scope of
              CommunityScope \<Rightarrow> map_option cm_role (rq_community_membership r)
            | ChannelScope _ \<Rightarrow> map_option hm_role (rq_channel_membership r))
       MissingActorMembership"

definition require_distinct_actor ::
  "authorization_request \<Rightarrow> principal_id \<Rightarrow> membership_error + unit" where
  "require_distinct_actor r target = ensure (request_subject r \<noteq> target) SelfMutation"

definition require_role_grant ::
  "membership_role \<Rightarrow> membership_role \<Rightarrow> membership_error + unit" where
  "require_role_grant actor target =
     (if (case actor of
            Owner \<Rightarrow> target \<noteq> Owner
          | Admin \<Rightarrow> target = Member \<or> target = Guest \<or> target = Bot
          | _ \<Rightarrow> False)
      then Inr ()
      else Inl (if target = Owner then ProtectedOwner else RoleEscalation))"

definition authorize_mutation :: "membership \<Rightarrow> authorization_request \<Rightarrow> membership_error + unit" where
  "authorize_mutation self r = authorize_membership r (mb_community_id self) (mb_scope self)"

definition require_version :: "membership \<Rightarrow> aggregate_version \<Rightarrow> membership_error + unit" where
  "require_version self expected =
     ensure (mb_version self = expected) (StaleVersion expected (mb_version self))"

definition require_active :: "membership \<Rightarrow> membership_error + unit" where
  "require_active self = ensure (mb_status self = MemberActive) InvalidTransition"

definition require_removable_by :: "membership \<Rightarrow> membership_role \<Rightarrow> membership_error + unit" where
  "require_removable_by self actor =
     (if mb_scope self = CommunityScope \<and> mb_role self = Owner then Inl ProtectedOwner
      else if (case actor of
                 Owner \<Rightarrow> True
               | Admin \<Rightarrow> mb_role self = Member \<or> mb_role self = Guest \<or> mb_role self = Bot
               | _ \<Rightarrow> False)
      then Inr () else Inl RoleEscalation)"

definition advance_version :: "membership \<Rightarrow> (membership, membership_error, unit) effect" where
  "advance_version self =
     attempt self (ok_or (version_next (mb_version self)) VersionExhausted) (\<lambda>v.
       (Inr (), self\<lparr>mb_version := v\<rparr>))"

section \<open>Operations\<close>

definition add ::
  "membership_create_fields \<Rightarrow> authorization_request \<Rightarrow> membership_error + membership" where
  "add f r =
     and_then (authorize_membership r (mc_community_id f) (mc_scope f)) (\<lambda>_.
     and_then (require_distinct_actor r (mc_principal_id f)) (\<lambda>_.
     and_then (actor_role r (mc_scope f)) (\<lambda>actor.
     and_then (require_role_grant actor (mc_role f)) (\<lambda>_.
     Inr \<lparr>mb_community_id = mc_community_id f, mb_scope = mc_scope f,
          mb_principal_id = mc_principal_id f, mb_role = mc_role f, mb_status = MemberActive,
          mb_version = version_first,
          mb_added_by_principal_id = Some (request_subject r)\<rparr>))))"

definition from_invite_redemption ::
  "invite_redemption \<Rightarrow> principal_id option \<Rightarrow> invite_membership_projection" where
  "from_invite_redemption redemption added_by =
     (let source = redemption_membership redemption in
      \<lparr>im_membership =
         \<lparr>mb_community_id = cm_community_id source, mb_scope = CommunityScope,
          mb_principal_id = cm_principal_id source, mb_role = cm_role source,
          mb_status = cm_status source, mb_version = cm_version source,
          mb_added_by_principal_id = added_by\<rparr>,
       im_inserted = is_Joined redemption\<rparr>)"

definition virtual_policy_input ::
  "virtual_agent_membership_evidence \<Rightarrow> membership_policy_input" where
  "virtual_policy_input ev = VirtualCommunity (policy_membership_snapshot ev)"

definition policy_input :: "membership \<Rightarrow> membership_policy_input" where
  "policy_input self =
     (case mb_scope self of
        CommunityScope \<Rightarrow>
          PersistentCommunity
            \<lparr>cm_community_id = mb_community_id self, cm_principal_id = mb_principal_id self,
             cm_role = mb_role self, cm_status = mb_status self, cm_version = mb_version self\<rparr>
      | ChannelScope channel \<Rightarrow>
          PersistentChannel
            \<lparr>hm_community_id = mb_community_id self, hm_channel_id = channel,
             hm_principal_id = mb_principal_id self, hm_role = mb_role self,
             hm_status = mb_status self, hm_version = mb_version self\<rparr>)"

definition change_role ::
  "aggregate_version \<Rightarrow> membership_role \<Rightarrow> authorization_request \<Rightarrow> membership
   \<Rightarrow> (membership, membership_error, command_outcome) effect" where
  "change_role expected new_role r self =
     attempt self (authorize_mutation self r) (\<lambda>_.
     attempt self (require_version self expected) (\<lambda>_.
     attempt self (require_active self) (\<lambda>_.
     attempt self (require_distinct_actor r (mb_principal_id self)) (\<lambda>_.
     attempt self (actor_role r (mb_scope self)) (\<lambda>actor.
     if actor \<noteq> Owner then (Inl RoleEscalation, self)
     else if new_role = Owner \<or> mb_scope self = CommunityScope \<and> mb_role self = Owner
     then (Inl ProtectedOwner, self)
     else if mb_role self = new_role then (Inr Unchanged, self)
     else and_continue (advance_version (self\<lparr>mb_role := new_role\<rparr>)) (\<lambda>_ self.
       (Inr Applied, self)))))))"

definition revoke ::
  "aggregate_version \<Rightarrow> authorization_request \<Rightarrow> membership
   \<Rightarrow> (membership, membership_error, command_outcome) effect" where
  "revoke expected r self =
     attempt self (authorize_mutation self r) (\<lambda>_.
     attempt self (require_version self expected) (\<lambda>_.
     attempt self (require_distinct_actor r (mb_principal_id self)) (\<lambda>_.
     attempt self (actor_role r (mb_scope self)) (\<lambda>actor.
     attempt self (require_removable_by self actor) (\<lambda>_.
     case mb_status self of
       MemberRevoked \<Rightarrow> (Inr Unchanged, self)
     | _ \<Rightarrow>
         and_continue (advance_version (self\<lparr>mb_status := MemberRevoked\<rparr>)) (\<lambda>_ self.
           (Inr Applied, self)))))))"

definition archive ::
  "aggregate_version \<Rightarrow> authorization_request \<Rightarrow> membership
   \<Rightarrow> (membership, membership_error, command_outcome) effect" where
  "archive expected r self =
     attempt self (authorize_mutation self r) (\<lambda>_.
     attempt self (require_version self expected) (\<lambda>_.
     attempt self (require_distinct_actor r (mb_principal_id self)) (\<lambda>_.
     attempt self (actor_role r (mb_scope self)) (\<lambda>actor.
     attempt self (require_removable_by self actor) (\<lambda>_.
     case mb_status self of
       MemberActive \<Rightarrow>
         and_continue (advance_version (self\<lparr>mb_status := MemberArchived\<rparr>)) (\<lambda>_ self.
           (Inr Applied, self))
     | MemberArchived \<Rightarrow> (Inr Unchanged, self)
     | MemberRevoked \<Rightarrow> (Inl InvalidTransition, self))))))"

definition restore ::
  "aggregate_version \<Rightarrow> authorization_request \<Rightarrow> membership
   \<Rightarrow> (membership, membership_error, command_outcome) effect" where
  "restore expected r self =
     attempt self (authorize_mutation self r) (\<lambda>_.
     attempt self (require_version self expected) (\<lambda>_.
     attempt self (require_distinct_actor r (mb_principal_id self)) (\<lambda>_.
     attempt self (actor_role r (mb_scope self)) (\<lambda>actor.
     attempt self (require_removable_by self actor) (\<lambda>_.
     case mb_status self of
       MemberArchived \<Rightarrow>
         and_continue (advance_version (self\<lparr>mb_status := MemberActive\<rparr>)) (\<lambda>_ self.
           (Inr Applied, self))
     | MemberActive \<Rightarrow> (Inr Unchanged, self)
     | MemberRevoked \<Rightarrow> (Inl InvalidTransition, self))))))"

section \<open>Commands as data\<close>

datatype membership_command =
    ChangeRole aggregate_version membership_role authorization_request
  | Revoke aggregate_version authorization_request
  | Archive aggregate_version authorization_request
  | Restore aggregate_version authorization_request

fun membership_exec ::
  "membership_command \<Rightarrow> membership \<Rightarrow> (membership, membership_error, command_outcome) effect" where
  "membership_exec (ChangeRole v role r) = change_role v role r"
| "membership_exec (Revoke v r) = revoke v r"
| "membership_exec (Archive v r) = archive v r"
| "membership_exec (Restore v r) = restore v r"

fun membership_expected :: "membership_command \<Rightarrow> aggregate_version" where
  "membership_expected (ChangeRole v role r) = v"
| "membership_expected (Revoke v r) = v"
| "membership_expected (Archive v r) = v"
| "membership_expected (Restore v r) = v"

fun membership_request :: "membership_command \<Rightarrow> authorization_request" where
  "membership_request (ChangeRole v role r) = r"
| "membership_request (Revoke v r) = r"
| "membership_request (Archive v r) = r"
| "membership_request (Restore v r) = r"

section \<open>Each command on each branch\<close>

lemmas membership_guards =
  authorize_mutation_def require_version_def require_active_def require_distinct_actor_def

lemma advance_version_Inr [result_simps]:
  "advance_version m = (Inr u, m') \<longleftrightarrow>
     (\<exists>v. version_next (mb_version m) = Some v \<and> m' = m\<lparr>mb_version := v\<rparr>)"
  by (auto simp: advance_version_def result_simps)

lemma advance_version_Inl [result_simps]:
  "advance_version m = (Inl e, m') \<longleftrightarrow>
     version_next (mb_version m) = None \<and> e = VersionExhausted \<and> m' = m"
  by (auto simp: advance_version_def result_simps)

text \<open>What every applied command has established about its request.\<close>

definition command_admitted :: "aggregate_version \<Rightarrow> authorization_request \<Rightarrow> membership \<Rightarrow> bool" where
  "command_admitted expected r m \<longleftrightarrow>
     authorize_membership r (mb_community_id m) (mb_scope m) = Inr ()
     \<and> mb_version m = expected \<and> request_subject r \<noteq> mb_principal_id m"

lemma change_role_Applied:
  "change_role expected new_role r m = (Inr Applied, m') \<longleftrightarrow>
     command_admitted expected r m \<and> mb_status m = MemberActive
     \<and> actor_role r (mb_scope m) = Inr Owner \<and> new_role \<noteq> Owner
     \<and> \<not> (mb_scope m = CommunityScope \<and> mb_role m = Owner) \<and> mb_role m \<noteq> new_role
     \<and> (\<exists>v. version_next (mb_version m) = Some v
          \<and> m' = m\<lparr>mb_role := new_role, mb_version := v\<rparr>)"
  by (auto simp: change_role_def command_admitted_def membership_guards result_simps)

lemma revoke_Applied:
  "revoke expected r m = (Inr Applied, m') \<longleftrightarrow>
     command_admitted expected r m
     \<and> (\<exists>actor. actor_role r (mb_scope m) = Inr actor \<and> require_removable_by m actor = Inr ())
     \<and> mb_status m \<noteq> MemberRevoked
     \<and> (\<exists>v. version_next (mb_version m) = Some v
          \<and> m' = m\<lparr>mb_status := MemberRevoked, mb_version := v\<rparr>)"
  by (auto simp: revoke_def command_admitted_def membership_guards result_simps
      split: membership_status.splits)

lemma archive_Applied:
  "archive expected r m = (Inr Applied, m') \<longleftrightarrow>
     command_admitted expected r m
     \<and> (\<exists>actor. actor_role r (mb_scope m) = Inr actor \<and> require_removable_by m actor = Inr ())
     \<and> mb_status m = MemberActive
     \<and> (\<exists>v. version_next (mb_version m) = Some v
          \<and> m' = m\<lparr>mb_status := MemberArchived, mb_version := v\<rparr>)"
  by (auto simp: archive_def command_admitted_def membership_guards result_simps
      split: membership_status.splits)

lemma restore_Applied:
  "restore expected r m = (Inr Applied, m') \<longleftrightarrow>
     command_admitted expected r m
     \<and> (\<exists>actor. actor_role r (mb_scope m) = Inr actor \<and> require_removable_by m actor = Inr ())
     \<and> mb_status m = MemberArchived
     \<and> (\<exists>v. version_next (mb_version m) = Some v
          \<and> m' = m\<lparr>mb_status := MemberActive, mb_version := v\<rparr>)"
  by (auto simp: restore_def command_admitted_def membership_guards result_simps
      split: membership_status.splits)

lemmas membership_Applied = change_role_Applied revoke_Applied archive_Applied restore_Applied

lemmas membership_commands = change_role_def revoke_def archive_def restore_def

lemma membership_Unchanged: "membership_exec c m = (Inr Unchanged, m') \<Longrightarrow> m' = m"
  by (cases c) (auto simp: membership_commands result_simps split: if_splits membership_status.splits)

text \<open>A failed command leaves the membership alone, unless the version ran out.\<close>

lemma membership_failed:
  "membership_exec c m = (Inl e, m') \<Longrightarrow>
     m' = m \<or> version_next (mb_version m) = None \<and> e = VersionExhausted
       \<and> mb_version m' = mb_version m \<and> mb_principal_id m' = mb_principal_id m
       \<and> mb_community_id m' = mb_community_id m \<and> mb_scope m' = mb_scope m"
  by (cases c) (auto simp: membership_commands result_simps split: if_splits membership_status.splits)

section \<open>The contract of versioned aggregates\<close>

definition membership_identity :: "membership \<Rightarrow> community_id \<times> membership_scope \<times> principal_id" where
  "membership_identity m = (mb_community_id m, mb_scope m, mb_principal_id m)"

definition membership_ok :: "membership \<Rightarrow> bool" where
  "membership_ok m \<longleftrightarrow> version_get (mb_version m) \<noteq> 0"

text \<open>A revoked member and the owner of a community are out of every command's reach.\<close>

definition membership_final :: "membership \<Rightarrow> bool" where
  "membership_final m \<longleftrightarrow>
     mb_status m = MemberRevoked \<or> mb_scope m = CommunityScope \<and> mb_role m = Owner"

lemma membership_exec_cases:
  obtains (same) "snd (membership_exec c m) = m"
  | (applied) "membership_exec c m = (Inr Applied, snd (membership_exec c m))"
  | (exhausted) "membership_exec c m = (Inl VersionExhausted, snd (membership_exec c m))"
      and "version_next (mb_version m) = None"
      and "mb_version (snd (membership_exec c m)) = mb_version m"
      and "membership_identity (snd (membership_exec c m)) = membership_identity m"
proof (cases "membership_exec c m" rule: outcome_cases)
  case (failed e m')
  with membership_failed [OF failed] show thesis
    by (auto intro: same exhausted simp: membership_identity_def)
qed (auto intro: same applied dest: membership_Unchanged)

lemma membership_Applied_frame:
  assumes "membership_exec c m = (Inr Applied, m')"
  shows "membership_expected c = mb_version m" "membership_identity m' = membership_identity m"
    "version_next (mb_version m) = Some (mb_version m')"
  using assms
  by (cases c; auto simp: membership_Applied command_admitted_def membership_identity_def)+

interpretation mem: terminal_aggregate membership_exec mb_version membership_expected
  membership_identity membership_ok membership_final
proof unfold_locales
  fix c m m'
  assume "membership_exec c m = (Inr Applied, m')"
  note frame = membership_Applied_frame [OF this]
  show "membership_expected c = mb_version m" by (rule frame(1))
  show "version_next (mb_version m) = Some (mb_version m')" by (rule frame(3))
next
  fix c m m'
  assume "membership_exec c m = (Inr Unchanged, m')"
  then show "m' = m" by (rule membership_Unchanged)
next
  fix c m e m'
  assume "membership_exec c m = (Inl e, m')"
  from membership_failed [OF this] show "mb_version m' = mb_version m" by auto
next
  fix c m e m'
  assume "membership_exec c m = (Inl e, m')" and "version_next (mb_version m) \<noteq> None"
  with membership_failed [of c m e m'] show "m' = m" by auto
next
  fix c m
  show "membership_identity (snd (membership_exec c m)) = membership_identity m"
    by (cases c m rule: membership_exec_cases) (auto dest: membership_Applied_frame(2))
next
  fix c m
  assume "membership_ok m"
  then show "membership_ok (snd (membership_exec c m))"
    by (cases c m rule: membership_exec_cases)
      (auto simp: membership_ok_def dest: membership_Applied_frame(3) version_next_nonzero)
next
  fix m c
  assume final: "membership_final m"
  show "fst (membership_exec c m) \<noteq> Inr Applied"
  proof
    assume "fst (membership_exec c m) = Inr Applied"
    then obtain m' where "membership_exec c m = (Inr Applied, m')"
      by (metis prod.collapse)
    with final show False
      by (cases c)
        (auto simp: membership_final_def membership_Applied require_removable_by_def split: if_splits)
  qed
next
  fix m c e m'
  assume "membership_final m" and "membership_exec c m = (Inl e, m')"
  then show "m' = m"
    by (cases c)
      (auto simp: membership_final_def membership_commands result_simps require_active_def
        require_removable_by_def split: if_splits membership_status.splits)
qed

section \<open>Authority behind a command\<close>

text \<open>The role the subject of a request holds in a scope, from a membership in force.\<close>

definition actor_in_force :: "authorization_request \<Rightarrow> membership_scope \<Rightarrow> membership_role \<Rightarrow> bool" where
  "actor_in_force r scope role \<longleftrightarrow>
     (case scope of
        CommunityScope \<Rightarrow> \<exists>m. member_in_force r m \<and> cm_role m = role
      | ChannelScope channel \<Rightarrow> \<exists>m. channel_member_in_force r channel m \<and> hm_role m = role)"

lemma authorize_membership_Inr:
  "authorize_membership r community scope = Inr () \<longleftrightarrow>
     rq_action r = Manage \<and> rs_community_id (rq_resource r) = community
     \<and> (case scope of
          CommunityScope \<Rightarrow>
            rs_kind (rq_resource r) = CommunityResource
            \<and> rs_resource_id (rq_resource r) = community_resource community
            \<and> rs_channel_id (rq_resource r) = None
        | ChannelScope channel \<Rightarrow>
            rs_kind (rq_resource r) = ChannelResource
            \<and> rs_resource_id (rq_resource r) = channel
            \<and> rs_channel_id (rq_resource r) = Some channel)
     \<and> authorize r = Allowed"
  by (auto simp: authorize_membership_def split: authorization_decision.splits)

lemma actor_role_in_force:
  assumes "authorize_membership r community scope = Inr ()" and "\<not> delegation_permits r"
    and "actor_role r scope = Inr role"
  shows "actor_in_force r scope role"
proof (cases scope)
  case CommunityScope
  from assms(1,2) obtain m where "member_in_force r m"
    using authorize_member by (auto simp: authorize_membership_Inr)
  with assms(3) CommunityScope show ?thesis
    by (auto simp: actor_role_def actor_in_force_def member_in_force_def result_simps)
next
  case (ChannelScope channel)
  with assms(1,2) obtain m where "channel_member_in_force r channel m"
    using authorize_channel_member by (fastforce simp: authorize_membership_Inr)
  with assms(3) ChannelScope show ?thesis
    by (auto simp: actor_role_def actor_in_force_def channel_member_in_force_def result_simps)
qed

lemma require_removable_by_Inr:
  "require_removable_by m actor = Inr () \<longleftrightarrow>
     \<not> (mb_scope m = CommunityScope \<and> mb_role m = Owner)
     \<and> (actor = Owner \<or> actor = Admin \<and> mb_role m \<notin> {Owner, Admin})"
  by (cases actor; cases "mb_role m") (auto simp: require_removable_by_def)

lemma membership_Applied_actor:
  assumes "membership_exec c m = (Inr Applied, m')"
  shows "authorize_membership (membership_request c) (mb_community_id m) (mb_scope m) = Inr ()
    \<and> request_subject (membership_request c) \<noteq> mb_principal_id m
    \<and> (\<exists>role. actor_role (membership_request c) (mb_scope m) = Inr role
         \<and> (role = Owner \<or> role = Admin \<and> mb_role m \<notin> {Owner, Admin}))"
  using assms
  by (cases c) (auto simp: membership_Applied command_admitted_def require_removable_by_Inr)

lemma membership_step_not_owner:
  "mb_role m \<noteq> Owner \<Longrightarrow> mb_role (snd (membership_exec c m)) \<noteq> Owner"
  by (cases c)
    (auto simp: membership_commands attempt_def and_continue_def advance_version_def
      split: sum.splits membership_status.splits)

section \<open>Properties\<close>

text \<open>The owner of a community and every revoked member are beyond the reach of the
  membership commands: whatever sequence of role changes, revocations, archivals and
  restorations is attempted, by whomever, the membership stays exactly as it was.\<close>

theorem protected_membership_immutable:
  assumes "mb_status m = MemberRevoked \<or> mb_scope m = CommunityScope \<and> mb_role m = Owner"
  shows "run_commands membership_exec cs m = m"
  by (rule mem.terminal_run) (use assms in \<open>simp add: membership_final_def\<close>)

definition bob_membership :: "membership_role \<Rightarrow> u64 \<Rightarrow> membership" where
  "bob_membership role version =
     \<lparr>mb_community_id = sample_community, mb_scope = CommunityScope, mb_principal_id = bob,
      mb_role = role, mb_status = MemberActive, mb_version = version_of version,
      mb_added_by_principal_id = None\<rparr>"

theorem protected_membership_immutable_witness:
  "run_commands membership_exec
     [Revoke (version_of 2) (community_request Manage Owner),
      ChangeRole (version_of 2) Guest (community_request Manage Admin)] (bob_membership Owner 2)
   = bob_membership Owner 2"
  by (rule protected_membership_immutable) (simp add: bob_membership_def)

text \<open>The memberships on record, and everything that changes them: additions, invites redeemed by newcomers,
  and the commands of a member.\<close>

datatype roster_command =
    AddMember membership_create_fields authorization_request
  | RedeemInvite invite_admission_evidence community_id principal_id "community_membership option" aggregate_version
      aggregate_version u64 "principal_id option"
  | OnMember nat membership_command

fun roster_step :: "roster_command \<Rightarrow> membership list \<Rightarrow> membership list" where
  "roster_step (AddMember f r) ms = (case add f r of Inr m \<Rightarrow> ms @ [m] | Inl _ \<Rightarrow> ms)"
| "roster_step (RedeemInvite ev community p existing v w now added_by) ms =
     (case redeem ev community p existing v w now of
        Inr redemption \<Rightarrow>
          (let projection = from_invite_redemption redemption added_by in
           if im_inserted projection then ms @ [im_membership projection] else ms)
      | Inl _ \<Rightarrow> ms)"
| "roster_step (OnMember i c) ms = (if i < length ms then ms[i := snd (membership_exec c (ms ! i))] else ms)"

definition roster_run :: "roster_command list \<Rightarrow> membership list \<Rightarrow> membership list" where
  "roster_run cs ms = fold roster_step cs ms"

definition membership_key :: "membership \<Rightarrow> community_id \<times> membership_scope \<times> principal_id" where
  "membership_key m = (mb_community_id m, mb_scope m, mb_principal_id m)"

definition community_owners :: "membership list \<Rightarrow> membership set" where
  "community_owners ms = {m \<in> set ms. mb_scope m = CommunityScope \<and> mb_role m = Owner}"

definition owners :: "membership list \<Rightarrow> (community_id \<times> membership_scope \<times> principal_id) set" where
  "owners ms = membership_key ` {m \<in> set ms. mb_role m = Owner}"

lemma membership_step_key: "membership_key (snd (membership_exec c m)) = membership_key m"
  by (cases c)
    (auto simp: membership_key_def membership_commands attempt_def and_continue_def advance_version_def
      split: sum.splits membership_status.splits)

lemma membership_step_owner:
  assumes "mb_scope m = CommunityScope" "mb_role m = Owner"
  shows "snd (membership_exec c m) = m"
  using mem.terminal_run [of m "[c]"] assms by (simp add: membership_final_def)

lemma added_not_owner: "add f r = Inr m \<Longrightarrow> mb_role m \<noteq> Owner"
  by (auto simp: add_def require_role_grant_def result_simps split: if_splits membership_role.splits)

lemma invited_not_owner:
  "\<lbrakk>redeem ev community p existing v w now = Inr redemption; im_inserted (from_invite_redemption redemption added_by)\<rbrakk> \<Longrightarrow>
   mb_role (im_membership (from_invite_redemption redemption added_by)) \<noteq> Owner"
  by (auto simp: redeem_def from_invite_redemption_def result_simps Let_def split: if_splits option.splits)

lemma owners_of_update:
  assumes "i < length ms"
  shows "community_owners (ms[i := snd (membership_exec c (ms ! i))]) = community_owners ms"
    "owners (ms[i := snd (membership_exec c (ms ! i))]) \<subseteq> owners ms"
proof -
  let ?m = "ms ! i" and ?t = "snd (membership_exec c (ms ! i))"
  have split: "set ms = insert ?m (set (take i ms) \<union> set (drop (Suc i) ms))"
    by (subst id_take_nth_drop [OF assms]) auto
  have upd: "set (ms[i := ?t]) = insert ?t (set (take i ms) \<union> set (drop (Suc i) ms))"
    using assms by (simp add: upd_conv_take_nth_drop)
  have key: "membership_key ?t = membership_key ?m" by (rule membership_step_key)
  then have scope: "mb_scope ?t = mb_scope ?m" by (simp add: membership_key_def)
  have role: "mb_role ?t = Owner \<Longrightarrow> mb_role ?m = Owner" using membership_step_not_owner by blast
  show "community_owners (ms[i := ?t]) = community_owners ms"
    unfolding community_owners_def split upd using scope role membership_step_owner [of ?m c] by auto
  show "owners (ms[i := ?t]) \<subseteq> owners ms"
    unfolding owners_def split upd using key role by auto
qed

lemma owners_step:
  "community_owners (roster_step c ms) = community_owners ms \<and> owners (roster_step c ms) \<subseteq> owners ms"
proof (cases c)
  case (AddMember f r)
  then show ?thesis
    using added_not_owner by (auto simp: community_owners_def owners_def split: sum.splits)
next
  case (RedeemInvite ev community p existing v w now added_by)
  then show ?thesis
    using invited_not_owner [of ev community p existing v w now]
    by (auto simp: community_owners_def owners_def Let_def split: sum.splits)
next
  case (OnMember i d)
  then show ?thesis using owners_of_update [of i ms d] by simp
qed

text \<open>C25. Ownership is fixed: whatever members are added, invites redeemed and commands given to members, by
  whomever, the owners of a community stay exactly as they are, and nobody becomes the owner of a channel.\<close>

theorem no_command_creates_owner:
  "community_owners (roster_run cs ms) = community_owners ms \<and> owners (roster_run cs ms) \<subseteq> owners ms"
proof (induction cs arbitrary: ms)
  case (Cons c cs)
  from Cons.IH [of "roster_step c ms"] owners_step [of c ms] show ?case by (auto simp: roster_run_def)
qed (simp add: roster_run_def)

text \<open>An applied membership command that no delegation covers was issued by somebody other
  than the member, who holds, through a current and active membership in the same community or
  channel, the role Owner, or the role Admin over a member who is neither owner nor admin.\<close>

theorem applied_command_authority:
  assumes "membership_exec c m = (Inr Applied, m')"
    and "\<not> delegation_permits (membership_request c)"
  shows "request_subject (membership_request c) \<noteq> mb_principal_id m
    \<and> (\<exists>role. actor_in_force (membership_request c) (mb_scope m) role
         \<and> (role = Owner \<or> role = Admin \<and> mb_role m \<notin> {Owner, Admin}))"
proof -
  from membership_Applied_actor [OF assms(1)] obtain role
    where "authorize_membership (membership_request c) (mb_community_id m) (mb_scope m) = Inr ()"
      and "actor_role (membership_request c) (mb_scope m) = Inr role"
      and rest: "request_subject (membership_request c) \<noteq> mb_principal_id m"
        "role = Owner \<or> role = Admin \<and> mb_role m \<notin> {Owner, Admin}"
    by blast
  with assms(2) have "actor_in_force (membership_request c) (mb_scope m) role"
    using actor_role_in_force by blast
  with rest show ?thesis by blast
qed

lemma bob_revoked:
  "revoke (version_of 2) (community_request Manage Admin) (bob_membership Member 2)
   = (Inr Applied, (bob_membership Member 3)\<lparr>mb_status := MemberRevoked\<rparr>)"
proof -
  have "authorize_membership (community_request Manage Admin) sample_community CommunityScope = Inr ()"
    by (simp add: authorize_membership_Inr community_request_allowed role_decision_def)
      (simp add: community_request_def)
  moreover have "actor_role (community_request Manage Admin) CommunityScope = Inr Admin"
    by (simp add: actor_role_def community_request_def alice_membership_def)
  moreover have "request_subject (community_request Manage Admin) \<noteq> bob"
    by (simp add: sample_defs request_subject_def authorization_subject_def)
  ultimately show ?thesis
    by (auto simp: revoke_Applied command_admitted_def bob_membership_def require_removable_by_Inr)
qed

theorem applied_command_authority_witness:
  "membership_exec (Revoke (version_of 2) (community_request Manage Admin)) (bob_membership Member 2)
     = (Inr Applied, (bob_membership Member 3)\<lparr>mb_status := MemberRevoked\<rparr>)
   \<and> request_subject (community_request Manage Admin) \<noteq> bob"
proof -
  have "\<not> delegation_permits (community_request Manage Admin)"
    by (simp add: delegation_permits_def community_request_def)
  then show ?thesis
    using applied_command_authority
        [of "Revoke (version_of 2) (community_request Manage Admin)" "bob_membership Member 2"]
      bob_revoked
    by (simp add: bob_membership_def)
qed

text \<open>C26. Membership updates are never lost: once a command has been applied, no later command
  prepared against the same version is applied, however many commands ran in between.\<close>

theorem membership_no_lost_update:
  assumes "membership_exec c m = (Inr Applied, m')"
    and "membership_expected d = membership_expected c"
  shows "fst (membership_exec d (run_commands membership_exec cs m')) \<noteq> Inr Applied"
  using assms by (rule mem.no_lost_update)

theorem membership_no_lost_update_witness:
  "fst (membership_exec (Archive (version_of 2) (community_request Manage Owner))
     (run_commands membership_exec [Restore (version_of 3) (community_request Manage Owner)]
       ((bob_membership Member 3)\<lparr>mb_status := MemberRevoked\<rparr>))) \<noteq> Inr Applied"
  by (rule membership_no_lost_update
      [of "Revoke (version_of 2) (community_request Manage Admin)" "bob_membership Member 2"])
    (simp_all add: bob_revoked)

text \<open>Revocation takes effect: after a community membership has been revoked, a request
  judged at the new membership version is refused both on the snapshot taken before the
  revocation and on the one taken after it, and on any delegation granted up to then.\<close>

theorem revocation_takes_effect:
  assumes "revoke v q m = (Inr Applied, m')" and "mb_scope m = CommunityScope"
    and "rq_current_membership_version r = mb_version m'"
    and "rq_community_membership r = input_community_membership (policy_input m)
       \<or> rq_community_membership r = input_community_membership (policy_input m')"
    and "\<forall>d. rq_delegation r = Some d \<longrightarrow> dg_membership_version d \<le> mb_version m"
  shows "authorize r \<noteq> Allowed"
proof -
  from assms(1) obtain w where w: "version_next (mb_version m) = Some w"
      and m': "m' = m\<lparr>mb_status := MemberRevoked, mb_version := w\<rparr>"
    by (auto simp: revoke_Applied)
  from w have less: "mb_version m < mb_version m'"
    by (simp add: m' version_next_less)
  then have "\<not> delegation_permits r"
    using assms(3,5) by (auto simp: delegation_permits_def split: option.splits)
  moreover have "\<not> member_in_force r cm" for cm
    using assms(2,3,4) less m' by (auto simp: member_in_force_def policy_input_def)
  ultimately show ?thesis
    by (auto simp: authorize_iff authorized_def)
qed

theorem revocation_takes_effect_witness:
  "authorize ((community_request Read Owner)
     \<lparr>rq_community_membership := input_community_membership (policy_input (bob_membership Member 2)),
      rq_current_membership_version := version_of 3\<rparr>) \<noteq> Allowed"
proof (rule revocation_takes_effect [OF bob_revoked])
  show "\<forall>d. rq_delegation ((community_request Read Owner)
     \<lparr>rq_community_membership := input_community_membership (policy_input (bob_membership Member 2)),
      rq_current_membership_version := version_of 3\<rparr>) = Some d
      \<longrightarrow> dg_membership_version d \<le> mb_version (bob_membership Member 2)"
    by (simp add: community_request_def)
qed (simp_all add: bob_membership_def)

text \<open>C40. A role change at the last representable version is not atomic: it reports that the
  version is exhausted, yet the membership it leaves behind carries the new role.\<close>

theorem change_role_exhausted_writes:
  assumes "command_admitted v r m" and "mb_status m = MemberActive"
    and "actor_role r (mb_scope m) = Inr Owner" and "new_role \<noteq> Owner"
    and "\<not> (mb_scope m = CommunityScope \<and> mb_role m = Owner)" and "mb_role m \<noteq> new_role"
    and "version_num (mb_version m) = 2 ^ 64 - 1"
  shows "change_role v new_role r m = (Inl VersionExhausted, m\<lparr>mb_role := new_role\<rparr>)"
proof -
  have "version_next (mb_version m) = None"
    using assms(7) by (simp add: version_next_None)
  with assms(1-6) show ?thesis
    by (simp add: change_role_def command_admitted_def membership_guards advance_version_def)
qed

theorem change_role_exhausted_writes_witness:
  "change_role (version_of 18446744073709551615) Guest (community_request Manage Owner) (bob_membership Member 18446744073709551615)
   = (Inl VersionExhausted, bob_membership Guest 18446744073709551615)"
proof -
  have "authorize_membership (community_request Manage Owner) sample_community CommunityScope = Inr ()"
    by (simp add: authorize_membership_Inr community_request_allowed role_decision_def)
      (simp add: community_request_def)
  moreover have "request_subject (community_request Manage Owner) \<noteq> bob"
    by (simp add: sample_defs request_subject_def authorization_subject_def)
  ultimately have "command_admitted (version_of 18446744073709551615) (community_request Manage Owner)
      (bob_membership Member 18446744073709551615)"
    by (simp add: command_admitted_def bob_membership_def)
  then show ?thesis
    using change_role_exhausted_writes
        [of "version_of 18446744073709551615" "community_request Manage Owner" "bob_membership Member 18446744073709551615" Guest]
    by (simp add: bob_membership_def actor_role_def community_request_def alice_membership_def
        version_num_def version_of_def)
qed

text \<open>C38. A delegated command is graded by a membership nobody has checked: when a delegation
  carries the authorization, the actor's role is read from the membership snapshot of the
  request although it belongs to somebody else and is revoked. Here Alice, who has no membership
  in force, adds an admin on the strength of Bob's revoked ownership.\<close>

theorem delegate_borrows_role:
  "\<exists>f r m bobs. rq_community_membership r = Some bobs
     \<and> cm_principal_id bobs \<noteq> request_subject r \<and> cm_status bobs = MemberRevoked
     \<and> \<not> actor_in_force r CommunityScope Owner
     \<and> add f r = Inr m \<and> mb_role m = Admin"
proof -
  let ?bobs = "\<lparr>cm_community_id = sample_community, cm_principal_id = bob, cm_role = Owner,
      cm_status = MemberRevoked, cm_version = version_of 5\<rparr>"
  let ?r = "(community_request Manage Guest)
      \<lparr>rq_community_membership := Some ?bobs, rq_delegation := Some sample_delegation\<rparr>"
  let ?f = "\<lparr>mc_community_id = sample_community, mc_scope = CommunityScope,
      mc_principal_id = PrincipalId 12, mc_role = Admin\<rparr>"
  have subject: "request_subject ?r = alice"
    by (simp add: sample_defs request_subject_def authorization_subject_def)
  have "authorize ?r = Allowed"
    by (simp add: sample_defs authorize_eval)
  then have auth: "authorize_membership ?r sample_community CommunityScope = Inr ()"
    by (simp add: authorize_membership_Inr) (simp add: community_request_def)
  have "add ?f ?r = Inr \<lparr>mb_community_id = sample_community, mb_scope = CommunityScope,
      mb_principal_id = PrincipalId 12, mb_role = Admin, mb_status = MemberActive,
      mb_version = version_first, mb_added_by_principal_id = Some alice\<rparr>"
    by (simp add: add_def auth require_distinct_actor_def subject actor_role_def
        require_role_grant_def alice_def)
  moreover have "\<not> actor_in_force ?r CommunityScope Owner"
    by (simp add: actor_in_force_def member_in_force_def)
  moreover have "bob \<noteq> alice" by (simp add: alice_def bob_def)
  ultimately show ?thesis
    by (intro exI [of _ ?f] exI [of _ ?r] exI [of _ "?bobs"] exI) (auto simp: subject)
qed

end
