(* ===== verification/Channel.thy ===== *)
theory Channel
  imports Samples
begin

text \<open>
  Channels (\<open>channel.rs\<close>): names and descriptions, expiration arithmetic, creation, and the
  life cycle Active, Archived, Expired, Deleted under commands with optimistic versions.
\<close>

section \<open>Data\<close>

definition MAX_CHANNEL_NAME_BYTES :: nat where "MAX_CHANNEL_NAME_BYTES = 255"
definition MAX_CHANNEL_DESCRIPTION_BYTES :: nat where "MAX_CHANNEL_DESCRIPTION_BYTES = 65536"

datatype channel_error =
    InvalidName | InvalidDescription | InvalidChannelId | InvalidVisibility | InvalidExpiration
  | CreatorMismatch | AuthorizationShape | Unauthorized authorization_denial
  | StaleVersion aggregate_version aggregate_version | InvalidTransition | NotExpirable
  | VersionExhausted

datatype channel_name = ChannelName (name_str: rust_string)

text \<open>\<open>character == '#' || character.is_whitespace()\<close>.\<close>

definition name_prefix_char :: "rust_char \<Rightarrow> bool" where
  "name_prefix_char c \<longleftrightarrow> c = 35 \<or> is_whitespace c"

definition channel_name_new :: "rust_string \<Rightarrow> channel_error + channel_name" where
  "channel_name_new value =
     (let value = trim_end (trim_start_matches name_prefix_char value) in
      if value = [] \<or> str_len value > MAX_CHANNEL_NAME_BYTES \<or> list_ex is_control value
      then Inl InvalidName else Inr (ChannelName value))"

datatype channel_description = ChannelDescription (description_str: rust_string)

definition channel_description_new :: "rust_string \<Rightarrow> channel_error + channel_description" where
  "channel_description_new value =
     (if str_len value > MAX_CHANNEL_DESCRIPTION_BYTES then Inl InvalidDescription
      else Inr (ChannelDescription value))"

datatype channel_type = Stream | Forum | DirectMessage | Workflow | Ephemeral | Huddle
datatype channel_visibility = Open | Private
datatype channel_lifecycle_state = Active | Archived | Deleted | Expired

record channel_expiration =
  ex_ttl_seconds :: u32
  ex_expires_at_millis :: u64

definition starting_at :: "u32 \<Rightarrow> u64 \<Rightarrow> channel_error + channel_expiration" where
  "starting_at ttl_seconds now =
     and_then (ok_or (checked_mul (ucast ttl_seconds) 1000) InvalidExpiration) (\<lambda>ttl_millis.
     and_then (ok_or (checked_add now ttl_millis) InvalidExpiration) (\<lambda>expires_at.
     Inr \<lparr>ex_ttl_seconds = ttl_seconds, ex_expires_at_millis = expires_at\<rparr>))"

definition renewed_at :: "channel_expiration \<Rightarrow> u64 \<Rightarrow> channel_error + channel_expiration" where
  "renewed_at self now = starting_at (ex_ttl_seconds self) now"

record channel =
  ch_community_id :: community_id
  ch_channel_id :: aggregate_id
  ch_name :: channel_name
  ch_channel_type :: channel_type
  ch_visibility :: channel_visibility
  ch_lifecycle_state :: channel_lifecycle_state
  ch_description :: "channel_description option"
  ch_creator_principal_id :: principal_id
  ch_expiration :: "channel_expiration option"
  ch_version :: aggregate_version

record channel_create_fields =
  cc_community_id :: community_id
  cc_channel_id :: aggregate_id
  cc_name :: channel_name
  cc_channel_type :: channel_type
  cc_visibility :: channel_visibility
  cc_description :: "channel_description option"
  cc_creator_principal_id :: principal_id
  cc_ttl_seconds :: "u32 option"
  cc_now_millis :: u64

section \<open>Guards\<close>

definition validate_shape ::
  "aggregate_id \<Rightarrow> channel_type \<Rightarrow> channel_visibility \<Rightarrow> channel_expiration option
   \<Rightarrow> channel_error + unit" where
  "validate_shape channel_id channel_type visibility expiration =
     (if uuid_is_nil (aggregate_uuid channel_id) then Inl InvalidChannelId
      else if (channel_type = DirectMessage \<or> channel_type = Workflow \<or> channel_type = Huddle)
              \<and> visibility \<noteq> Private
      then Inl InvalidVisibility
      else if channel_type = Ephemeral \<and> expiration = None then Inl InvalidExpiration
      else Inr ())"

definition authorize_create ::
  "authorization_request \<Rightarrow> community_id \<Rightarrow> channel_error + unit" where
  "authorize_create r community =
     (if rq_action r \<noteq> Manage \<or> rs_community_id (rq_resource r) \<noteq> community
         \<or> rs_kind (rq_resource r) \<noteq> CommunityResource
         \<or> rs_resource_id (rq_resource r) \<noteq> community_resource community
         \<or> rs_channel_id (rq_resource r) \<noteq> None
      then Inl AuthorizationShape
      else case authorize r of Allowed \<Rightarrow> Inr () | Denied denial \<Rightarrow> Inl (Unauthorized denial))"

definition authorize_lifecycle ::
  "channel \<Rightarrow> authorization_request \<Rightarrow> authorization_action \<Rightarrow> channel_error + unit" where
  "authorize_lifecycle self r action =
     (if rq_action r \<noteq> action \<or> rs_community_id (rq_resource r) \<noteq> ch_community_id self
         \<or> rs_kind (rq_resource r) \<noteq> ChannelResource
         \<or> rs_resource_id (rq_resource r) \<noteq> ch_channel_id self
         \<or> rs_channel_id (rq_resource r) \<noteq> Some (ch_channel_id self)
      then Inl AuthorizationShape
      else case authorize r of Allowed \<Rightarrow> Inr () | Denied denial \<Rightarrow> Inl (Unauthorized denial))"

definition require_version :: "channel \<Rightarrow> aggregate_version \<Rightarrow> channel_error + unit" where
  "require_version self expected =
     ensure (ch_version self = expected) (StaleVersion expected (ch_version self))"

definition advance_version :: "channel \<Rightarrow> (channel, channel_error, unit) effect" where
  "advance_version self =
     attempt self (ok_or (version_next (ch_version self)) VersionExhausted) (\<lambda>v.
       (Inr (), self\<lparr>ch_version := v\<rparr>))"

section \<open>Operations\<close>

definition from_record :: "channel \<Rightarrow> channel_error + channel" where
  "from_record f =
     and_then (validate_shape (ch_channel_id f) (ch_channel_type f) (ch_visibility f)
                 (ch_expiration f)) (\<lambda>_. Inr f)"

definition create ::
  "channel_create_fields \<Rightarrow> authorization_request \<Rightarrow> channel_error + channel" where
  "create f r =
     and_then (authorize_create r (cc_community_id f)) (\<lambda>_.
     and_then (ensure (request_subject r = cc_creator_principal_id f) CreatorMismatch) (\<lambda>_.
     and_then (case cc_ttl_seconds f of
                 None \<Rightarrow> Inr None
               | Some ttl \<Rightarrow> and_then (starting_at ttl (cc_now_millis f)) (\<lambda>e. Inr (Some e)))
       (\<lambda>expiration.
     and_then (validate_shape (cc_channel_id f) (cc_channel_type f) (cc_visibility f) expiration)
       (\<lambda>_.
     Inr \<lparr>ch_community_id = cc_community_id f, ch_channel_id = cc_channel_id f,
          ch_name = cc_name f, ch_channel_type = cc_channel_type f,
          ch_visibility = cc_visibility f, ch_lifecycle_state = Active,
          ch_description = cc_description f,
          ch_creator_principal_id = cc_creator_principal_id f,
          ch_expiration = expiration, ch_version = version_first\<rparr>))))"

definition archive ::
  "aggregate_version \<Rightarrow> authorization_request \<Rightarrow> channel
   \<Rightarrow> (channel, channel_error, command_outcome) effect" where
  "archive expected r self =
     attempt self (authorize_lifecycle self r Manage) (\<lambda>_.
     attempt self (require_version self expected) (\<lambda>_.
     case ch_lifecycle_state self of
       Active \<Rightarrow>
         and_continue (advance_version (self\<lparr>ch_lifecycle_state := Archived\<rparr>)) (\<lambda>_ self.
           (Inr Applied, self))
     | Archived \<Rightarrow> (Inr Unchanged, self)
     | Deleted \<Rightarrow> (Inl InvalidTransition, self)
     | Expired \<Rightarrow> (Inl InvalidTransition, self)))"

definition restore ::
  "aggregate_version \<Rightarrow> u64 \<Rightarrow> authorization_request \<Rightarrow> channel
   \<Rightarrow> (channel, channel_error, command_outcome) effect" where
  "restore expected now r self =
     (let reactivate =
        attempt self
          (case ch_expiration self of
             None \<Rightarrow> Inr self
           | Some expiration \<Rightarrow>
               and_then (renewed_at expiration now) (\<lambda>renewed.
                 Inr (self\<lparr>ch_expiration := Some renewed\<rparr>))) (\<lambda>self.
        and_continue (advance_version (self\<lparr>ch_lifecycle_state := Active\<rparr>)) (\<lambda>_ self.
          (Inr Applied, self))) in
      attempt self (authorize_lifecycle self r Manage) (\<lambda>_.
      attempt self (require_version self expected) (\<lambda>_.
      case ch_lifecycle_state self of
        Archived \<Rightarrow> reactivate
      | Expired \<Rightarrow> reactivate
      | Active \<Rightarrow> (Inr Unchanged, self)
      | Deleted \<Rightarrow> (Inl InvalidTransition, self))))"

definition delete ::
  "aggregate_version \<Rightarrow> authorization_request \<Rightarrow> channel
   \<Rightarrow> (channel, channel_error, command_outcome) effect" where
  "delete expected r self =
     attempt self (authorize_lifecycle self r authorization_action.Delete) (\<lambda>_.
     attempt self (require_version self expected) (\<lambda>_.
     if ch_lifecycle_state self = Deleted then (Inr Unchanged, self)
     else and_continue (advance_version (self\<lparr>ch_lifecycle_state := Deleted\<rparr>)) (\<lambda>_ self.
       (Inr Applied, self))))"

definition expire_if_due ::
  "aggregate_version \<Rightarrow> u64 \<Rightarrow> channel \<Rightarrow> (channel, channel_error, command_outcome) effect" where
  "expire_if_due expected now self =
     attempt self (require_version self expected) (\<lambda>_.
     if ch_lifecycle_state self \<noteq> Active then (Inl InvalidTransition, self)
     else attempt self (ok_or (ch_expiration self) NotExpirable) (\<lambda>expiration.
     if now < ex_expires_at_millis expiration then (Inr Unchanged, self)
     else and_continue (advance_version (self\<lparr>ch_lifecycle_state := Expired\<rparr>)) (\<lambda>_ self.
       (Inr Applied, self))))"

definition record_activity ::
  "aggregate_version \<Rightarrow> u64 \<Rightarrow> channel \<Rightarrow> (channel, channel_error, command_outcome) effect" where
  "record_activity expected now self =
     attempt self (require_version self expected) (\<lambda>_.
     if ch_lifecycle_state self \<noteq> Active then (Inl InvalidTransition, self)
     else case ch_expiration self of
       None \<Rightarrow> (Inr Unchanged, self)
     | Some expiration \<Rightarrow>
         attempt self (renewed_at expiration now) (\<lambda>renewed.
         if renewed = expiration then (Inr Unchanged, self)
         else and_continue (advance_version (self\<lparr>ch_expiration := Some renewed\<rparr>)) (\<lambda>_ self.
           (Inr Applied, self))))"

datatype channel_command =
    Archive aggregate_version authorization_request
  | Restore aggregate_version u64 authorization_request
  | Delete aggregate_version authorization_request
  | ExpireIfDue aggregate_version u64
  | RecordActivity aggregate_version u64

fun channel_exec ::
  "channel_command \<Rightarrow> channel \<Rightarrow> (channel, channel_error, command_outcome) effect" where
  "channel_exec (Archive v r) = archive v r"
| "channel_exec (Restore v now r) = restore v now r"
| "channel_exec (channel_command.Delete v r) = delete v r"
| "channel_exec (ExpireIfDue v now) = expire_if_due v now"
| "channel_exec (RecordActivity v now) = record_activity v now"

fun channel_expected :: "channel_command \<Rightarrow> aggregate_version" where
  "channel_expected (Archive v r) = v"
| "channel_expected (Restore v now r) = v"
| "channel_expected (channel_command.Delete v r) = v"
| "channel_expected (ExpireIfDue v now) = v"
| "channel_expected (RecordActivity v now) = v"

section \<open>Each command on each branch\<close>

lemma starting_at_Inr:
  "starting_at ttl now = Inr e \<longleftrightarrow>
     ex_ttl_seconds e = ttl \<and> unat (ex_expires_at_millis e) = unat now + 1000 * unat ttl"
proof -
  have small: "unat ttl < 2 ^ 32"
    using unsigned_less [of ttl] by simp
  then have "unat (ucast ttl :: u64) = unat ttl"
    by (simp add: unsigned_ucast_eq take_bit_nat_eq_self)
  with small have "checked_mul (ucast ttl :: u64) 1000 = Some (ucast ttl * 1000)"
    by (simp add: checked_mul_def)
  moreover from this have "unat (ucast ttl * 1000 :: u64) = 1000 * unat ttl"
    using \<open>unat (ucast ttl :: u64) = unat ttl\<close> by (simp add: checked_mul_Some)
  ultimately show ?thesis
    by (cases e) (auto simp: starting_at_def result_simps checked_add_Some)
qed

lemma channel_advance_version_Inr [result_simps]:
  "advance_version c = (Inr u, c') \<longleftrightarrow>
     (\<exists>v. version_next (ch_version c) = Some v \<and> c' = c\<lparr>ch_version := v\<rparr>)"
  by (auto simp: advance_version_def result_simps)

lemma channel_advance_version_Inl [result_simps]:
  "advance_version c = (Inl e, c') \<longleftrightarrow>
     version_next (ch_version c) = None \<and> e = VersionExhausted \<and> c' = c"
  by (auto simp: advance_version_def result_simps)

text \<open>The life cycle as an abstract machine; a deleted channel has no step.\<close>

type_synonym lifecycle_view = "channel_lifecycle_state \<times> (nat \<times> nat) option"

definition expiration_view :: "channel_expiration \<Rightarrow> nat \<times> nat" where
  "expiration_view e = (unat (ex_ttl_seconds e), unat (ex_expires_at_millis e))"

definition lifecycle_view :: "channel \<Rightarrow> lifecycle_view" where
  "lifecycle_view c = (ch_lifecycle_state c, map_option expiration_view (ch_expiration c))"

definition renewed_view :: "u64 \<Rightarrow> (nat \<times> nat) option \<Rightarrow> (nat \<times> nat) option" where
  "renewed_view now x = map_option (\<lambda>(ttl, _). (ttl, unat now + 1000 * ttl)) x"

inductive lifecycle_step :: "channel_command \<Rightarrow> lifecycle_view \<Rightarrow> lifecycle_view \<Rightarrow> bool" where
  archiving: "authorize r = Allowed \<Longrightarrow> lifecycle_step (Archive v r) (Active, x) (Archived, x)"
| restoring: "authorize r = Allowed \<Longrightarrow> lifecycle_step (Restore v now r) (Archived, x) (Active, renewed_view now x)"
| reviving: "authorize r = Allowed \<Longrightarrow> lifecycle_step (Restore v now r) (Expired, x) (Active, renewed_view now x)"
| deleting: "\<lbrakk>authorize r = Allowed; state \<noteq> Deleted\<rbrakk> \<Longrightarrow> lifecycle_step (channel_command.Delete v r) (state, x) (Deleted, x)"
| expiring: "t \<le> unat now \<Longrightarrow> lifecycle_step (ExpireIfDue v now) (Active, Some (ttl, t)) (Expired, Some (ttl, t))"
| renewing: "lifecycle_step (RecordActivity v now) (Active, Some x) (Active, renewed_view now (Some x))"

inductive_cases lifecycle_from_deleted: "lifecycle_step c (Deleted, x) y"

lemma lifecycle_view_simps [simp]:
  "lifecycle_view (s\<lparr>ch_version := v\<rparr>) = lifecycle_view s"
  "lifecycle_view (s\<lparr>ch_lifecycle_state := state\<rparr>) = (state, map_option expiration_view (ch_expiration s))"
  "lifecycle_view (s\<lparr>ch_expiration := e\<rparr>) = (ch_lifecycle_state s, map_option expiration_view e)"
  by (simp_all add: lifecycle_view_def)

lemma lifecycle_allowed: "authorize_lifecycle s r a = Inr u \<Longrightarrow> authorize r = Allowed"
  by (auto simp: authorize_lifecycle_def split: if_splits authorization_decision.splits)

lemma renewed_at_view: "renewed_at e now = Inr e' \<Longrightarrow> renewed_view now (Some (expiration_view e)) = Some (expiration_view e')"
  by (simp add: renewed_at_def starting_at_Inr renewed_view_def expiration_view_def)

text \<open>The transitions of the commands.\<close>

lemma lifecycle_moves:
  "\<lbrakk>authorize_lifecycle s r a = Inr (); ch_lifecycle_state s = Active\<rbrakk> \<Longrightarrow>
     lifecycle_step (Archive v r) (lifecycle_view s) (Archived, map_option expiration_view (ch_expiration s))"
  "\<lbrakk>authorize_lifecycle s r a = Inr (); ch_lifecycle_state s = Archived \<or> ch_lifecycle_state s = Expired; ch_expiration s = None\<rbrakk> \<Longrightarrow>
     lifecycle_step (Restore v now r) (lifecycle_view s) (Active, None)"
  "\<lbrakk>authorize_lifecycle s r a = Inr (); ch_lifecycle_state s = Archived \<or> ch_lifecycle_state s = Expired;
    ch_expiration s = Some e; renewed_at e now = Inr e'\<rbrakk> \<Longrightarrow>
     lifecycle_step (Restore v now r) (lifecycle_view s) (Active, Some (expiration_view e'))"
  "\<lbrakk>authorize_lifecycle s r a = Inr (); ch_lifecycle_state s \<noteq> Deleted\<rbrakk> \<Longrightarrow>
     lifecycle_step (channel_command.Delete v r) (lifecycle_view s) (Deleted, map_option expiration_view (ch_expiration s))"
  "\<lbrakk>ch_lifecycle_state s = Active; ch_expiration s = Some e; \<not> now < ex_expires_at_millis e\<rbrakk> \<Longrightarrow>
     lifecycle_step (ExpireIfDue v now) (lifecycle_view s) (Expired, Some (expiration_view e))"
  "\<lbrakk>ch_lifecycle_state s = Active; ch_expiration s = Some e; renewed_at e now = Inr e'\<rbrakk> \<Longrightarrow>
     lifecycle_step (RecordActivity v now) (lifecycle_view s) (Active, Some (expiration_view e'))"
proof -
  have none: "renewed_view now None = None" by (simp add: renewed_view_def)
  show "lifecycle_step (Archive v r) (lifecycle_view s) (Archived, map_option expiration_view (ch_expiration s))"
    if "authorize_lifecycle s r a = Inr ()" "ch_lifecycle_state s = Active"
    using that archiving lifecycle_allowed by (simp add: lifecycle_view_def)
  show "lifecycle_step (Restore v now r) (lifecycle_view s) (Active, None)"
    if "authorize_lifecycle s r a = Inr ()" "ch_lifecycle_state s = Archived \<or> ch_lifecycle_state s = Expired" "ch_expiration s = None"
    using that restoring [of r v now None] reviving [of r v now None] lifecycle_allowed none by (auto simp: lifecycle_view_def)
  show "lifecycle_step (Restore v now r) (lifecycle_view s) (Active, Some (expiration_view e'))"
    if "authorize_lifecycle s r a = Inr ()" "ch_lifecycle_state s = Archived \<or> ch_lifecycle_state s = Expired"
      "ch_expiration s = Some e" "renewed_at e now = Inr e'"
    using that restoring [of r v now "Some (expiration_view e)"] reviving [of r v now "Some (expiration_view e)"]
      lifecycle_allowed renewed_at_view by (auto simp: lifecycle_view_def)
  show "lifecycle_step (channel_command.Delete v r) (lifecycle_view s) (Deleted, map_option expiration_view (ch_expiration s))"
    if "authorize_lifecycle s r a = Inr ()" "ch_lifecycle_state s \<noteq> Deleted"
    using that deleting lifecycle_allowed by (simp add: lifecycle_view_def)
  show "lifecycle_step (ExpireIfDue v now) (lifecycle_view s) (Expired, Some (expiration_view e))"
    if "ch_lifecycle_state s = Active" "ch_expiration s = Some e" "\<not> now < ex_expires_at_millis e"
    using that expiring by (simp add: lifecycle_view_def expiration_view_def not_less word_le_nat_alt)
  show "lifecycle_step (RecordActivity v now) (lifecycle_view s) (Active, Some (expiration_view e'))"
    if "ch_lifecycle_state s = Active" "ch_expiration s = Some e" "renewed_at e now = Inr e'"
    using that renewing [of v now "expiration_view e"] renewed_at_view by (simp add: lifecycle_view_def)
qed

text \<open>What no command changes of a channel.\<close>

definition channel_frame :: "channel \<Rightarrow> channel \<Rightarrow> bool" where
  "channel_frame s t \<longleftrightarrow>
     ch_community_id t = ch_community_id s \<and> ch_channel_id t = ch_channel_id s
     \<and> ch_name t = ch_name s \<and> ch_channel_type t = ch_channel_type s
     \<and> ch_visibility t = ch_visibility s \<and> ch_description t = ch_description s
     \<and> ch_creator_principal_id t = ch_creator_principal_id s
     \<and> (ch_expiration t = None) = (ch_expiration s = None)"

lemmas channel_commands =
  archive_def restore_def delete_def expire_if_due_def record_activity_def

lemma channel_Applied:
  assumes "channel_exec c s = (Inr Applied, t)"
  shows "channel_expected c = ch_version s" "version_next (ch_version s) = Some (ch_version t)"
    "channel_frame s t" "lifecycle_step c (lifecycle_view s) (lifecycle_view t)"
  using assms
  by (cases c; auto simp: channel_commands channel_frame_def require_version_def result_simps Let_def
      intro: lifecycle_moves split: if_splits channel_lifecycle_state.splits option.splits)+

lemma channel_Unchanged: "channel_exec c s = (Inr Unchanged, t) \<Longrightarrow> t = s"
  by (cases c)
    (auto simp: channel_commands result_simps Let_def
      split: if_splits channel_lifecycle_state.splits option.splits)

lemma channel_failed:
  assumes "channel_exec c s = (Inl e, t)"
  shows "t = s \<or> version_next (ch_version s) = None \<and> ch_version t = ch_version s
    \<and> channel_frame s t \<and> lifecycle_step c (lifecycle_view s) (lifecycle_view t)"
  using assms
  by (cases c)
    (auto simp: channel_commands channel_frame_def result_simps Let_def
      intro: lifecycle_moves split: if_splits channel_lifecycle_state.splits option.splits)

section \<open>The contract of versioned aggregates\<close>

definition channel_identity :: "channel \<Rightarrow> community_id \<times> aggregate_id \<times> principal_id" where
  "channel_identity c = (ch_community_id c, ch_channel_id c, ch_creator_principal_id c)"

definition channel_ok :: "channel \<Rightarrow> bool" where
  "channel_ok c \<longleftrightarrow>
     validate_shape (ch_channel_id c) (ch_channel_type c) (ch_visibility c) (ch_expiration c) = Inr ()
     \<and> version_get (ch_version c) \<noteq> 0"

lemma channel_frame_refl: "channel_frame s s"
  by (simp add: channel_frame_def)

lemma channel_exec_frame: "channel_frame s (snd (channel_exec c s))"
  by (cases "channel_exec c s" rule: outcome_cases)
    (auto simp: channel_frame_refl dest: channel_failed channel_Applied(3) channel_Unchanged)

lemma channel_exec_version:
  "ch_version (snd (channel_exec c s)) = ch_version s
   \<or> version_next (ch_version s) = Some (ch_version (snd (channel_exec c s)))"
  by (cases "channel_exec c s" rule: outcome_cases)
    (auto dest: channel_failed channel_Applied(2) channel_Unchanged)

lemma channel_ok_frame:
  assumes "channel_ok s" and "channel_frame s t" and "version_get (ch_version t) \<noteq> 0"
  shows "channel_ok t"
  using assms by (auto simp: channel_ok_def channel_frame_def validate_shape_def split: if_splits)

interpretation chan: terminal_aggregate channel_exec ch_version channel_expected
  channel_identity channel_ok "\<lambda>c. ch_lifecycle_state c = Deleted"
proof unfold_locales
  fix c s t
  assume "channel_exec c s = (Inr Applied, t)"
  note facts = channel_Applied [OF this]
  show "channel_expected c = ch_version s" by (rule facts(1))
  show "version_next (ch_version s) = Some (ch_version t)" by (rule facts(2))
next
  fix c s t
  assume "channel_exec c s = (Inr Unchanged, t)"
  then show "t = s" by (rule channel_Unchanged)
next
  fix c s e t
  assume "channel_exec c s = (Inl e, t)"
  from channel_failed [OF this] show "ch_version t = ch_version s" by auto
next
  fix c s e t
  assume "channel_exec c s = (Inl e, t)" and "version_next (ch_version s) \<noteq> None"
  with channel_failed [of c s e t] show "t = s" by auto
next
  fix c s
  show "channel_identity (snd (channel_exec c s)) = channel_identity s"
    using channel_exec_frame [of s c] by (simp add: channel_identity_def channel_frame_def)
next
  fix c s
  assume ok: "channel_ok s"
  have "version_get (ch_version (snd (channel_exec c s))) \<noteq> 0"
    using channel_exec_version [of c s] ok version_next_nonzero by (auto simp: channel_ok_def)
  with ok show "channel_ok (snd (channel_exec c s))"
    by (rule channel_ok_frame [OF _ channel_exec_frame])
next
  fix s :: channel and c
  assume deleted: "ch_lifecycle_state s = Deleted"
  show "fst (channel_exec c s) \<noteq> Inr Applied"
  proof
    assume "fst (channel_exec c s) = Inr Applied"
    then have "channel_exec c s = (Inr Applied, snd (channel_exec c s))"
      by (metis prod.collapse)
    from channel_Applied(4) [OF this] deleted show False
      by (auto simp: lifecycle_view_def elim: lifecycle_from_deleted)
  qed
next
  fix s :: channel and c e t
  assume "ch_lifecycle_state s = Deleted" and "channel_exec c s = (Inl e, t)"
  with channel_failed [of c s e t] show "t = s"
    by (auto simp: lifecycle_view_def elim: lifecycle_from_deleted)
qed

text \<open>What a run of commands reports.\<close>

primrec channel_reports ::
  "channel_command list \<Rightarrow> channel \<Rightarrow> (channel_command \<times> (channel_error + command_outcome)) list" where
  "channel_reports [] s = []"
| "channel_reports (c # cs) s = (c, fst (channel_exec c s)) # channel_reports cs (snd (channel_exec c s))"

text \<open>A path of the machine that agrees with the reports: an applied command makes its transition, an unchanged one
  has none that would change anything, one refused as invalid has none at all, and other refusals do not move; with
  the last version used up, the transition is made and an error reported.\<close>

inductive lifecycle_path ::
  "(channel_command \<times> (channel_error + command_outcome)) list \<Rightarrow> lifecycle_view \<Rightarrow> lifecycle_view \<Rightarrow> bool" where
  path_end: "lifecycle_path [] x x"
| path_applied: "\<lbrakk>lifecycle_step c x y; lifecycle_path rs y z\<rbrakk> \<Longrightarrow> lifecycle_path ((c, Inr Applied) # rs) x z"
| path_unchanged: "\<lbrakk>\<And>y. lifecycle_step c x y \<Longrightarrow> y = x; lifecycle_path rs x z\<rbrakk> \<Longrightarrow> lifecycle_path ((c, Inr Unchanged) # rs) x z"
| path_invalid: "\<lbrakk>e \<in> {InvalidTransition, NotExpirable}; \<And>y. \<not> lifecycle_step c x y; lifecycle_path rs x z\<rbrakk>
    \<Longrightarrow> lifecycle_path ((c, Inl e) # rs) x z"
| path_refused: "\<lbrakk>e \<notin> {InvalidTransition, NotExpirable, VersionExhausted}; lifecycle_path rs x z\<rbrakk> \<Longrightarrow> lifecycle_path ((c, Inl e) # rs) x z"
| path_exhausted: "\<lbrakk>lifecycle_step c x y; lifecycle_path rs y z\<rbrakk> \<Longrightarrow> lifecycle_path ((c, Inl VersionExhausted) # rs) x z"

inductive_simps lifecycle_step_simps:
  "lifecycle_step (Archive v r) x y" "lifecycle_step (Restore v now r) x y" "lifecycle_step (channel_command.Delete v r) x y"
  "lifecycle_step (ExpireIfDue v now) x y" "lifecycle_step (RecordActivity v now) x y"

lemma guard_errors:
  "authorize_lifecycle s r a = Inl e \<Longrightarrow> e \<notin> {InvalidTransition, NotExpirable, VersionExhausted}"
  "require_version s v = Inl e \<Longrightarrow> e \<notin> {InvalidTransition, NotExpirable, VersionExhausted}"
  "renewed_at x now = Inl e \<Longrightarrow> e \<notin> {InvalidTransition, NotExpirable, VersionExhausted}"
  by (auto simp: authorize_lifecycle_def require_version_def renewed_at_def starting_at_def result_simps Let_def
      split: if_splits authorization_decision.splits option.splits)

lemma unchanged_no_move:
  assumes "channel_exec c s = (Inr Unchanged, t)" "lifecycle_step c (lifecycle_view s) y"
  shows "y = lifecycle_view s"
  using assms
  by (cases c)
    (auto simp: channel_commands result_simps Let_def lifecycle_step_simps lifecycle_view_def expiration_view_def word_less_nat_alt
      split: if_splits channel_lifecycle_state.splits option.splits dest: renewed_at_view)

lemma invalid_no_move:
  assumes "channel_exec c s = (Inl e, t)" "e \<in> {InvalidTransition, NotExpirable}"
  shows "\<not> lifecycle_step c (lifecycle_view s) y"
  using assms
  by (cases c)
    (auto simp: channel_commands result_simps Let_def lifecycle_step_simps lifecycle_view_def
      split: if_splits channel_lifecycle_state.splits option.splits dest: guard_errors)

lemma refused_same:
  assumes "channel_exec c s = (Inl e, t)" "e \<noteq> VersionExhausted"
  shows "t = s"
  using assms
  by (cases c)
    (auto simp: channel_commands result_simps Let_def
      split: if_splits channel_lifecycle_state.splits option.splits)

lemma exhausted_moves: "channel_exec c s = (Inl VersionExhausted, t) \<Longrightarrow> lifecycle_step c (lifecycle_view s) (lifecycle_view t)"
  by (cases c)
    (auto simp: channel_commands result_simps Let_def
      intro: lifecycle_moves split: if_splits channel_lifecycle_state.splits option.splits dest: guard_errors)

lemma lifecycle_path_step:
  assumes "lifecycle_path rs (lifecycle_view (snd (channel_exec c s))) z"
  shows "lifecycle_path ((c, fst (channel_exec c s)) # rs) (lifecycle_view s) z"
proof (cases "channel_exec c s" rule: outcome_cases)
  case (failed e t)
  with assms refused_same [OF failed] invalid_no_move [OF failed] exhausted_moves [of c s t] show ?thesis
    by (cases e) (simp_all add: path_exhausted path_invalid path_refused)
next
  case (applied t)
  with assms channel_Applied(4) show ?thesis by (auto intro: path_applied)
next
  case (unchanged t)
  with assms channel_Unchanged [OF unchanged] have "lifecycle_path rs (lifecycle_view s) z" by simp
  with unchanged unchanged_no_move [OF unchanged] show ?thesis by (simp add: path_unchanged)
qed

section \<open>Properties\<close>

definition sample_ephemeral :: "channel_lifecycle_state \<Rightarrow> channel" where
  "sample_ephemeral state =
     \<lparr>ch_community_id = sample_community, ch_channel_id = sample_channel,
      ch_name = ChannelName (lit ''standup''), ch_channel_type = Ephemeral,
      ch_visibility = Open, ch_lifecycle_state = state, ch_description = None,
      ch_creator_principal_id = alice,
      ch_expiration = Some \<lparr>ex_ttl_seconds = 60, ex_expires_at_millis = 61000\<rparr>,
      ch_version = version_of 4\<rparr>"

definition sample_channel_fields :: channel_create_fields where
  "sample_channel_fields =
     \<lparr>cc_community_id = sample_community, cc_channel_id = sample_channel,
      cc_name = ChannelName (lit ''standup''), cc_channel_type = Ephemeral,
      cc_visibility = Open, cc_description = None, cc_creator_principal_id = alice,
      cc_ttl_seconds = Some 60, cc_now_millis = 1000\<rparr>"

text \<open>C30. Every run of channel commands follows the machine of the life cycle and the expiration, and what the
  commands report is true of it: an applied command has made its transition, being authorized or, for an expiration,
  due; an unchanged one had nothing to change; one refused as invalid has no transition in that state.\<close>

theorem channel_lifecycle_refined:
  "lifecycle_path (channel_reports cs s) (lifecycle_view s) (lifecycle_view (run_commands channel_exec cs s))"
  by (induction cs arbitrary: s) (simp_all add: path_end lifecycle_path_step)

text \<open>Deletion is final: no sequence of commands changes a deleted channel in any way.\<close>

theorem deleted_channel_final:
  assumes "ch_lifecycle_state s = Deleted"
  shows "run_commands channel_exec cs s = s"
  using assms by (rule chan.terminal_run)

theorem deleted_channel_final_witness:
  "run_commands channel_exec
     [Restore (version_of 4) 5000 (channel_request Manage Owner), RecordActivity (version_of 4) 70000]
     (sample_ephemeral Deleted) = sample_ephemeral Deleted"
  by (rule deleted_channel_final) (simp add: sample_ephemeral_def)

text \<open>A channel that was created keeps its shape for good: after any run of commands it has
  a non-nil identifier, direct messages, workflows and huddles are private, an ephemeral channel
  has an expiration, and its version is non-zero.\<close>

theorem created_channel_well_shaped:
  assumes "create f r = Inr c"
  shows "channel_ok (run_commands channel_exec cs c)"
proof (rule chan.run_invar)
  from assms show "channel_ok c"
    by (auto simp: create_def channel_ok_def version_first_def result_simps)
qed

lemma sample_channel_created:
  "create sample_channel_fields (community_request Manage Owner)
   = Inr ((sample_ephemeral Active)\<lparr>ch_version := version_first\<rparr>)"
proof -
  have "authorize_create (community_request Manage Owner) sample_community = Inr ()"
    unfolding authorize_create_def community_request_allowed
    by (simp add: community_request_def role_decision_def)
  moreover have "request_subject (community_request Manage Owner) = alice"
    by (simp add: sample_defs request_subject_def authorization_subject_def)
  moreover have "starting_at 60 1000 = Inr \<lparr>ex_ttl_seconds = 60, ex_expires_at_millis = 61000\<rparr>"
    by (simp add: starting_at_Inr)
  ultimately show ?thesis
    by (simp add: create_def sample_channel_fields_def sample_ephemeral_def validate_shape_def
        uuid_is_nil_def sample_channel_def)
qed

theorem created_channel_well_shaped_witness:
  "channel_ok (run_commands channel_exec [ExpireIfDue version_first 99000]
     ((sample_ephemeral Active)\<lparr>ch_version := version_first\<rparr>))"
  by (rule created_channel_well_shaped [OF sample_channel_created])

text \<open>Expiration times are computed without wrap-around: starting a time to live at a given
  instant yields exactly that instant plus the seconds in milliseconds, and is refused exactly
  when that sum does not fit the 64-bit clock.\<close>

theorem starting_at_exact:
  "starting_at ttl now =
     (if unat now + 1000 * unat ttl < 2 ^ 64
      then Inr \<lparr>ex_ttl_seconds = ttl,
                ex_expires_at_millis = word_of_nat (unat now + 1000 * unat ttl)\<rparr>
      else Inl InvalidExpiration)"
proof (cases "unat now + 1000 * unat ttl < 2 ^ 64")
  case True
  have fits: "n < 2 ^ 64 \<Longrightarrow> unat (word_of_nat n :: u64) = n" for n
    by (simp add: unsigned_of_nat take_bit_nat_eq_self)
  have "starting_at ttl now = Inr \<lparr>ex_ttl_seconds = ttl,
      ex_expires_at_millis = word_of_nat (unat now + 1000 * unat ttl)\<rparr>"
    unfolding starting_at_Inr channel_expiration.simps fits [OF True] by simp
  with True show ?thesis by simp
next
  case False
  have "starting_at ttl now \<noteq> Inr e" for e
    using False unat_u64_less [of "ex_expires_at_millis e"] by (auto simp: starting_at_Inr)
  then obtain e where "starting_at ttl now = Inl e"
    by (cases "starting_at ttl now") auto
  moreover from this have "e = InvalidExpiration"
    by (auto simp: starting_at_def result_simps)
  ultimately show ?thesis using False by simp
qed

text \<open>Activity keeps a channel alive: after activity recorded at an instant, the expiration
  sweep run at any moment before that instant plus the time to live leaves the channel alone.\<close>

theorem activity_postpones_expiry:
  assumes "record_activity v now s = (Inr out, s')" and "ch_expiration s = Some e"
    and "unat t < unat now + 1000 * unat (ex_ttl_seconds e)"
  shows "expire_if_due (ch_version s') t s' = (Inr Unchanged, s')"
proof -
  from assms(1,2) obtain renewed where r: "starting_at (ex_ttl_seconds e) now = Inr renewed"
      and s': "ch_expiration s' = Some renewed" "ch_lifecycle_state s' = Active"
    by (auto simp: record_activity_def renewed_at_def result_simps split: if_splits)
  from r assms(3) have "t < ex_expires_at_millis renewed"
    by (simp add: starting_at_Inr word_less_nat_alt)
  with s' show ?thesis
    by (simp add: expire_if_due_def require_version_def)
qed

theorem activity_postpones_expiry_witness:
  "\<exists>s'. record_activity (version_of 4) 50000 (sample_ephemeral Active) = (Inr Applied, s')
     \<and> expire_if_due (ch_version s') 109999 s' = (Inr Unchanged, s')"
proof -
  have "starting_at 60 50000 = Inr \<lparr>ex_ttl_seconds = 60, ex_expires_at_millis = 110000\<rparr>"
    by (simp add: starting_at_Inr)
  then have "record_activity (version_of 4) 50000 (sample_ephemeral Active) =
      (Inr Applied, (sample_ephemeral Active)
         \<lparr>ch_expiration := Some \<lparr>ex_ttl_seconds = 60, ex_expires_at_millis = 110000\<rparr>,
          ch_version := version_of 5\<rparr>)" (is "_ = (_, ?s')")
    by (simp add: record_activity_def renewed_at_def require_version_def advance_version_def
        sample_ephemeral_def)
  moreover from activity_postpones_expiry [OF this]
  have "expire_if_due (ch_version ?s') 109999 ?s' = (Inr Unchanged, ?s')"
    by (simp add: sample_ephemeral_def)
  ultimately show ?thesis by blast
qed

text \<open>Channel names are kept in a normal form: an accepted name is within 1 to 255 bytes,
  starts with neither a hash sign nor white space, does not end in white space, holds no control
  character, and constructing a name from it gives the same name again.\<close>

theorem channel_name_normal_form:
  assumes "channel_name_new value = Inr name"
  shows "channel_name_new (name_str name) = Inr name
    \<and> 1 \<le> str_len (name_str name) \<and> str_len (name_str name) \<le> 255
    \<and> \<not> name_prefix_char (hd (name_str name)) \<and> \<not> is_whitespace (last (name_str name))
    \<and> (\<forall>c \<in> set (name_str name). \<not> is_control c)"
proof -
  let ?start = "trim_start_matches name_prefix_char value"
  from assms have name: "name_str name = trim_end ?start" and ne: "trim_end ?start \<noteq> []"
    and len: "str_len (trim_end ?start) \<le> MAX_CHANNEL_NAME_BYTES"
    and ctl: "\<not> list_ex is_control (trim_end ?start)"
    by (auto simp: channel_name_new_def Let_def split: if_splits)
  from ne have "?start \<noteq> []" by (auto simp: trim_end_def trim_end_matches_def)
  then have "\<not> name_prefix_char (hd ?start)"
    unfolding trim_start_matches_def by (rule hd_dropWhile)
  moreover have "hd (trim_end ?start) = hd ?start"
    using \<open>?start \<noteq> []\<close> ne trim_end_hd by (cases ?start) auto
  ultimately have hd: "\<not> name_prefix_char (hd (trim_end ?start))" by simp
  have "trim_end (trim_start_matches name_prefix_char (trim_end ?start)) = trim_end ?start"
    using hd by (simp add: trim_start_fixed)
  then have "channel_name_new (trim_end ?start) = Inr name"
    using assms by (simp add: channel_name_new_def Let_def)
  then have "channel_name_new (name_str name) = Inr name"
    by (simp only: name)
  with hd ne len ctl trim_end_last [OF ne] show ?thesis
    by (auto simp: name MAX_CHANNEL_NAME_BYTES_def list_ex_iff Suc_le_eq)
qed

theorem channel_name_normal_form_witness:
  "channel_name_new (lit '' ## standup '') = Inr (ChannelName (lit ''standup''))
   \<and> channel_name_new (lit ''standup'') = Inr (ChannelName (lit ''standup''))"
proof -
  have "channel_name_new (lit '' ## standup '') = Inr (ChannelName (lit ''standup''))"
    by (simp add: channel_name_new_def name_prefix_char_def string_defs MAX_CHANNEL_NAME_BYTES_def)
  with channel_name_normal_form [OF this] show ?thesis by simp
qed

end
