(* ===== verification/Replication.thy ===== *)
theory Replication
  imports Prelude
begin

text \<open>
  State-based replication: a merge that is associative, commutative and idempotent gives the
  same result for the same set of contributions, in whatever order and however often they
  arrive. The locale states the contract; read states and version vectors interpret it on
  their own merges. \<open>merge_map\<close> is the loop that merges one \<open>BTreeMap\<close> into another entry by
  entry.
\<close>

section \<open>The contract of a merge\<close>

locale merge_semilattice =
  fixes merge :: "'a \<Rightarrow> 'a \<Rightarrow> 'a"
  assumes merge_assoc: "merge (merge a b) c = merge a (merge b c)"
    and merge_comm: "merge a b = merge b a"
    and merge_idem: "merge a a = a"
begin

lemma merge_left_comm: "merge a (merge b c) = merge b (merge a c)"
  by (metis merge_assoc merge_comm)

lemma merge_left_idem: "merge a (merge a b) = merge a b"
  by (metis merge_assoc merge_idem)

sublocale folding: comp_fun_idem merge
  by unfold_locales (auto simp: fun_eq_iff merge_left_comm merge_left_idem)

text \<open>Convergence: the result depends on the set of contributions only.\<close>

lemma fold_merge_cong:
  assumes "set xs = set ys"
  shows "fold merge xs a = fold merge ys a"
proof -
  have "fold merge xs a = Finite_Set.fold merge a (set xs)"
    by (simp add: folding.fold_set_fold)
  also have "\<dots> = fold merge ys a"
    by (simp add: assms folding.fold_set_fold)
  finally show ?thesis .
qed

text \<open>A contribution already merged changes nothing.\<close>

lemma fold_merge_absorbs:
  assumes "x \<in> set xs"
  shows "merge x (fold merge xs a) = fold merge xs a"
proof -
  have "set (xs @ [x]) = set xs" using assms by auto
  then have "fold merge (xs @ [x]) a = fold merge xs a" by (rule fold_merge_cong)
  then show ?thesis by simp
qed

end

section \<open>Merging maps\<close>

definition merge_map :: "('v \<Rightarrow> 'v \<Rightarrow> 'v) \<Rightarrow> ('k \<rightharpoonup> 'v) \<Rightarrow> ('k \<rightharpoonup> 'v) \<Rightarrow> ('k \<rightharpoonup> 'v)" where
  "merge_map f m n =
     (\<lambda>k. case n k of None \<Rightarrow> m k | Some v \<Rightarrow> Some (case m k of None \<Rightarrow> v | Some x \<Rightarrow> f x v))"

lemma dom_merge_map [simp]: "dom (merge_map f m n) = dom m \<union> dom n"
  by (auto simp: merge_map_def split: option.splits)

lemma merge_map_empty [simp]: "merge_map f Map.empty n = n" "merge_map f m Map.empty = m"
  by (auto simp: merge_map_def fun_eq_iff split: option.splits)

text \<open>
  The loop \<open>for (k, v) in n { m.entry(k).and_modify(|x| *x = f(x, v)).or_insert(v) }\<close> over the
  entries of a map, in any order, computes \<open>merge_map\<close>.
\<close>

lemma merge_map_entries:
  assumes "distinct (map fst kvs)"
  shows "fold (\<lambda>(k, v) m. entry_modify m k (\<lambda>x. f x v) v) kvs m = merge_map f m (map_of kvs)"
  using assms
proof (induction kvs arbitrary: m)
  case (Cons kv kvs)
  obtain k v where kv: "kv = (k, v)" by (cases kv)
  from Cons.prems have "map_of kvs k = None"
    by (simp add: kv map_of_eq_None_iff)
  then have "merge_map f (entry_modify m k (\<lambda>x. f x v) v) (map_of kvs) =
      merge_map f m (map_of (kv # kvs))"
    by (auto simp: merge_map_def entry_modify_def kv fun_eq_iff split: option.splits)
  with Cons show ?case by (simp add: kv fun_upd_def)
qed simp

lemma merge_map_semilattice:
  assumes "merge_semilattice f"
  shows "merge_semilattice (merge_map f)"
proof -
  note laws = merge_semilattice.merge_assoc [OF assms] merge_semilattice.merge_comm [OF assms]
    merge_semilattice.merge_idem [OF assms]
  show ?thesis
  proof unfold_locales
    fix a b c :: "'b \<rightharpoonup> 'a"
    show "merge_map f (merge_map f a b) c = merge_map f a (merge_map f b c)"
      by (auto simp: merge_map_def fun_eq_iff laws(1) split: option.splits)
    show "merge_map f a b = merge_map f b a"
      by (auto simp: merge_map_def fun_eq_iff laws(2) split: option.splits)
    show "merge_map f a a = a"
      by (auto simp: merge_map_def fun_eq_iff laws(3) split: option.splits)
  qed
qed

interpretation max_merge: merge_semilattice "max :: 'a::linorder \<Rightarrow> 'a \<Rightarrow> 'a"
  by unfold_locales (simp_all add: max.assoc max.commute max.left_commute)

end
