(* ===== verification/ReadState.thy ===== *)
theory ReadState
  imports Identity Replication
begin

text \<open>
  Read state (\<open>read_state.rs\<close>): per context a read frontier and a manual-unread register,
  replicated between the owner's devices. A \<open>BTreeMap\<close> is a partial function; its \<open>len\<close> is the
  cardinality of its domain. Iterating over a map to merge it is \<open>merge_map\<close> (lemma
  \<open>merge_map_entries\<close>).
\<close>

section \<open>Data\<close>

definition MAX_CONTEXT_BYTES :: nat where "MAX_CONTEXT_BYTES = 256"
definition MAX_OVERRIDE_CONTEXT_BYTES :: nat where
  "MAX_OVERRIDE_CONTEXT_BYTES = MAX_CONTEXT_BYTES - str_len (lit ''ov_s:'')"
definition MAX_CONTEXTS :: nat where "MAX_CONTEXTS = 10000"

datatype read_state_error =
    InvalidContext | OverrideContextTooLong | TooManyContexts | OverrideWithoutFrontier
  | OwnerMismatch | ScopeMismatch | IncompleteLoad | CounterExhausted

datatype read_context_id = ReadContextId (context_str: rust_string)

definition read_context_id_new :: "rust_string \<Rightarrow> read_state_error + read_context_id" where
  "read_context_id_new value =
     (if value = [] \<or> str_len value > MAX_CONTEXT_BYTES then Inl InvalidContext
      else Inr (ReadContextId value))"

definition supports_override :: "read_context_id \<Rightarrow> bool" where
  "supports_override c \<longleftrightarrow> str_len (context_str c) \<le> MAX_OVERRIDE_CONTEXT_BYTES"

record read_state_scope =
  sc_community_id :: community_id
  sc_owner_principal_id :: principal_id

datatype read_state_completeness = Complete | PotentiallyIncomplete

section \<open>Manual-unread registers\<close>

record manual_unread_register =
  mu_set :: u32
  mu_clear :: u32
  mu_baseline :: u32

definition register_default :: manual_unread_register where
  "register_default = \<lparr>mu_set = 0, mu_clear = 0, mu_baseline = 0\<rparr>"

definition tombstone :: "u32 \<Rightarrow> manual_unread_register" where
  "tombstone counter = \<lparr>mu_set = 0, mu_clear = counter, mu_baseline = 0\<rparr>"

definition register_merge ::
  "manual_unread_register \<Rightarrow> manual_unread_register \<Rightarrow> manual_unread_register" where
  "register_merge a b =
     \<lparr>mu_set = max (mu_set a) (mu_set b), mu_clear = max (mu_clear a) (mu_clear b),
      mu_baseline = max (mu_baseline a) (mu_baseline b)\<rparr>"

definition is_active :: "manual_unread_register \<Rightarrow> u32 \<Rightarrow> bool" where
  "is_active r frontier \<longleftrightarrow> mu_set r > 0 \<and> mu_set r > mu_clear r \<and> frontier \<le> mu_baseline r"

definition register_mark_unread ::
  "manual_unread_register \<Rightarrow> u32 \<Rightarrow> (manual_unread_register, read_state_error, unit) effect" where
  "register_mark_unread self frontier =
     attempt self (ok_or (checked_add (max (mu_set self) (mu_clear self)) 1) CounterExhausted)
       (\<lambda>counter. (Inr (), self\<lparr>mu_set := counter, mu_baseline := frontier\<rparr>))"

definition register_mark_read ::
  "manual_unread_register \<Rightarrow> u32 \<Rightarrow> (manual_unread_register, read_state_error, unit) effect" where
  "register_mark_read self frontier =
     (case checked_add (max (mu_set self) (mu_clear self)) 1 of
        None \<Rightarrow> (if is_active self frontier then (Inl CounterExhausted, self) else (Inr (), self))
      | Some counter \<Rightarrow> (Inr (), self\<lparr>mu_clear := counter\<rparr>))"

datatype manual_unread_state = Virgin | Live manual_unread_register | Tombstone u32

definition canonical :: "manual_unread_register \<Rightarrow> u32 \<Rightarrow> manual_unread_state" where
  "canonical self frontier =
     (if is_active self frontier then Live self
      else if mu_set self > 0 \<or> mu_clear self > 0 then Tombstone (max (mu_set self) (mu_clear self))
      else Virgin)"

section \<open>Replicas\<close>

record owner_read_state_replica =
  rp_scope :: read_state_scope
  rp_frontiers :: "read_context_id \<rightharpoonup> u32"
  rp_overrides :: "read_context_id \<rightharpoonup> manual_unread_register"

definition normalize_frontiers :: "(read_context_id \<times> u32) list \<Rightarrow> (read_context_id \<rightharpoonup> u32)" where
  "normalize_frontiers kvs =
     fold (\<lambda>(context, frontier) m. entry_modify m context (\<lambda>current. max current frontier) frontier)
       kvs Map.empty"

fun normalize_overrides ::
  "(read_context_id \<times> manual_unread_register) list \<Rightarrow> (read_context_id \<rightharpoonup> manual_unread_register)
   \<Rightarrow> read_state_error + (read_context_id \<rightharpoonup> manual_unread_register)" where
  "normalize_overrides [] m = Inr m"
| "normalize_overrides ((context, register) # kvs) m =
     (if \<not> supports_override context then Inl OverrideContextTooLong
      else normalize_overrides kvs
        (entry_modify m context (\<lambda>current. register_merge current register) register))"

text \<open>The checks of \<open>OwnerReadStateReplica::new\<close> after both maps are normalized.\<close>

definition replica_finish ::
  "read_state_scope \<Rightarrow> (read_context_id \<rightharpoonup> u32) \<Rightarrow> (read_context_id \<rightharpoonup> manual_unread_register)
   \<Rightarrow> read_state_error + owner_read_state_replica" where
  "replica_finish scope frontiers overrides =
     (if card (dom frontiers) + card (dom overrides) > MAX_CONTEXTS then Inl TooManyContexts
      else if \<not> dom overrides \<subseteq> dom frontiers then Inl OverrideWithoutFrontier
      else Inr \<lparr>rp_scope = scope, rp_frontiers = frontiers, rp_overrides = overrides\<rparr>)"

definition replica_new ::
  "read_state_scope \<Rightarrow> principal_id \<Rightarrow> (read_context_id \<times> u32) list
   \<Rightarrow> (read_context_id \<times> manual_unread_register) list
   \<Rightarrow> read_state_error + owner_read_state_replica" where
  "replica_new scope decrypted_for frontiers overrides =
     (if sc_owner_principal_id scope \<noteq> decrypted_for then Inl OwnerMismatch
      else and_then (normalize_overrides overrides Map.empty) (\<lambda>normalized.
        replica_finish scope (normalize_frontiers frontiers) normalized))"

text \<open>The same constructor given two maps, whose keys are distinct.\<close>

definition replica_from_maps ::
  "read_state_scope \<Rightarrow> principal_id \<Rightarrow> (read_context_id \<rightharpoonup> u32)
   \<Rightarrow> (read_context_id \<rightharpoonup> manual_unread_register) \<Rightarrow> read_state_error + owner_read_state_replica" where
  "replica_from_maps scope decrypted_for frontiers overrides =
     (if sc_owner_principal_id scope \<noteq> decrypted_for then Inl OwnerMismatch
      else if \<not> (\<forall>context \<in> dom overrides. supports_override context)
      then Inl OverrideContextTooLong
      else replica_finish scope frontiers overrides)"

section \<open>The read state\<close>

record read_state =
  rd_scope :: read_state_scope
  rd_completeness :: read_state_completeness
  rd_frontiers :: "read_context_id \<rightharpoonup> u32"
  rd_overrides :: "read_context_id \<rightharpoonup> manual_unread_register"

definition merge ::
  "owner_read_state_replica \<Rightarrow> read_state \<Rightarrow> (read_state, read_state_error, unit) effect" where
  "merge replica self =
     attempt self (ensure (rp_scope replica = rd_scope self) ScopeMismatch) (\<lambda>_.
       (Inr (), self\<lparr>rd_frontiers := merge_map max (rd_frontiers self) (rp_frontiers replica),
                     rd_overrides :=
                       merge_map register_merge (rd_overrides self) (rp_overrides replica)\<rparr>))"

fun merge_replicas ::
  "owner_read_state_replica list \<Rightarrow> read_state \<Rightarrow> read_state_error + read_state" where
  "merge_replicas [] state = Inr state"
| "merge_replicas (replica # replicas) state =
     (case merge replica state of
        (Inl e, _) \<Rightarrow> Inl e
      | (Inr _, state') \<Rightarrow> merge_replicas replicas state')"

definition from_replicas ::
  "read_state_scope \<Rightarrow> read_state_completeness \<Rightarrow> owner_read_state_replica list
   \<Rightarrow> read_state_error + read_state" where
  "from_replicas scope completeness replicas =
     merge_replicas replicas
       \<lparr>rd_scope = scope, rd_completeness = completeness, rd_frontiers = Map.empty,
        rd_overrides = Map.empty\<rparr>"

definition mark_potentially_incomplete :: "read_state \<Rightarrow> read_state" where
  "mark_potentially_incomplete self = self\<lparr>rd_completeness := PotentiallyIncomplete\<rparr>"

definition effective_frontier_unchecked ::
  "read_state \<Rightarrow> read_context_id \<Rightarrow> read_context_id option \<Rightarrow> u32" where
  "effective_frontier_unchecked self context parent =
     (let frontier = (\<lambda>c. case rd_frontiers self c of None \<Rightarrow> 0 | Some f \<Rightarrow> f) in
      case parent of None \<Rightarrow> frontier context | Some p \<Rightarrow> max (frontier context) (frontier p))"

definition require_owner :: "read_state \<Rightarrow> principal_id \<Rightarrow> read_state_error + unit" where
  "require_owner self p = ensure (sc_owner_principal_id (rd_scope self) = p) OwnerMismatch"

definition require_complete_owner :: "read_state \<Rightarrow> principal_id \<Rightarrow> read_state_error + unit" where
  "require_complete_owner self p =
     and_then (require_owner self p) (\<lambda>_. ensure (rd_completeness self = Complete) IncompleteLoad)"

definition require_override_action ::
  "read_state \<Rightarrow> principal_id \<Rightarrow> read_context_id \<Rightarrow> read_state_error + unit" where
  "require_override_action self p context =
     and_then (require_complete_owner self p) (\<lambda>_.
       ensure (supports_override context) OverrideContextTooLong)"

definition effective_frontier ::
  "read_state \<Rightarrow> principal_id \<Rightarrow> read_context_id \<Rightarrow> read_context_id option
   \<Rightarrow> read_state_error + u32" where
  "effective_frontier self viewer context parent =
     and_then (require_owner self viewer) (\<lambda>_.
       Inr (effective_frontier_unchecked self context parent))"

definition manual_unread ::
  "read_state \<Rightarrow> principal_id \<Rightarrow> read_context_id \<Rightarrow> read_context_id option
   \<Rightarrow> read_state_error + manual_unread_state" where
  "manual_unread self viewer context parent =
     and_then (require_owner self viewer) (\<lambda>_.
       Inr (canonical (case rd_overrides self context of None \<Rightarrow> register_default | Some r \<Rightarrow> r)
              (effective_frontier_unchecked self context parent)))"

definition is_unread ::
  "read_state \<Rightarrow> principal_id \<Rightarrow> read_context_id \<Rightarrow> read_context_id option \<Rightarrow> u32
   \<Rightarrow> read_state_error + bool" where
  "is_unread self viewer context parent latest_message_at =
     and_then (require_owner self viewer) (\<lambda>_.
       let frontier = effective_frontier_unchecked self context parent;
           override_active = is_some_and (rd_overrides self context) (\<lambda>r. is_active r frontier)
       in Inr (latest_message_at > frontier \<or> override_active))"

definition advance_frontier ::
  "principal_id \<Rightarrow> read_context_id \<Rightarrow> u32 \<Rightarrow> read_state \<Rightarrow> (read_state, read_state_error, unit) effect" where
  "advance_frontier owner context read_through self =
     attempt self (require_complete_owner self owner) (\<lambda>_.
       (Inr (), self\<lparr>rd_frontiers :=
          entry_modify (rd_frontiers self) context (\<lambda>current. max current read_through)
            read_through\<rparr>))"

text \<open>\<open>entry(context).or_default()\<close> followed by a method on the register it yields.\<close>

definition update_register ::
  "read_context_id
   \<Rightarrow> (manual_unread_register \<Rightarrow> (manual_unread_register, read_state_error, unit) effect)
   \<Rightarrow> read_state \<Rightarrow> (read_state, read_state_error, unit) effect" where
  "update_register context f self =
     (let (result, register) =
        f (case rd_overrides self context of None \<Rightarrow> register_default | Some r \<Rightarrow> r)
      in (result, self\<lparr>rd_overrides := (rd_overrides self)(context \<mapsto> register)\<rparr>))"

definition mark_unread ::
  "principal_id \<Rightarrow> read_context_id \<Rightarrow> read_context_id option \<Rightarrow> read_state
   \<Rightarrow> (read_state, read_state_error, unit) effect" where
  "mark_unread owner context parent self =
     attempt self (require_override_action self owner context) (\<lambda>_.
       let frontier = effective_frontier_unchecked self context parent;
           self = self\<lparr>rd_frontiers := entry_modify (rd_frontiers self) context (\<lambda>f. f) 0\<rparr>
       in update_register context (\<lambda>r. register_mark_unread r frontier) self)"

definition mark_read ::
  "principal_id \<Rightarrow> read_context_id \<Rightarrow> read_context_id option \<Rightarrow> u32 \<Rightarrow> read_state
   \<Rightarrow> (read_state, read_state_error, unit) effect" where
  "mark_read owner context parent read_through self =
     attempt self (require_override_action self owner context) (\<lambda>_.
       let self = self\<lparr>rd_frontiers :=
             entry_modify (rd_frontiers self) context (\<lambda>current. max current read_through)
               read_through\<rparr>;
           frontier = effective_frontier_unchecked self context parent
       in update_register context (\<lambda>r. register_mark_read r frontier) self)"

definition canonical_overrides ::
  "read_state \<Rightarrow> (read_context_id \<rightharpoonup> read_context_id)
   \<Rightarrow> (read_context_id \<rightharpoonup> manual_unread_register)" where
  "canonical_overrides self parents =
     (\<lambda>context. case rd_overrides self context of None \<Rightarrow> None
      | Some register \<Rightarrow>
          (case canonical register (effective_frontier_unchecked self context (parents context)) of
             Virgin \<Rightarrow> None
           | Live register \<Rightarrow> Some register
           | Tombstone counter \<Rightarrow> Some (tombstone counter)))"

definition canonical_replica ::
  "read_state \<Rightarrow> principal_id \<Rightarrow> (read_context_id \<rightharpoonup> read_context_id)
   \<Rightarrow> read_state_error + owner_read_state_replica" where
  "canonical_replica self owner parents =
     and_then (require_complete_owner self owner) (\<lambda>_.
       replica_from_maps (rd_scope self) owner (rd_frontiers self)
         (canonical_overrides self parents))"

section \<open>Merging converges\<close>

interpretation register: merge_semilattice register_merge
  by unfold_locales
    (simp_all add: register_merge_def max.assoc max.commute max.left_commute)

interpretation frontier_maps: merge_semilattice "merge_map max :: (read_context_id \<rightharpoonup> u32) \<Rightarrow> _"
  by (rule merge_map_semilattice) unfold_locales

interpretation override_maps:
  merge_semilattice "merge_map register_merge :: (read_context_id \<rightharpoonup> manual_unread_register) \<Rightarrow> _"
  by (rule merge_map_semilattice) unfold_locales

text \<open>Given entries with distinct keys, the constructor is the one on maps.\<close>

lemma normalize_frontiers_distinct:
  "distinct (map fst kvs) \<Longrightarrow> normalize_frontiers kvs = map_of kvs"
  by (simp add: normalize_frontiers_def merge_map_entries)

lemma normalize_overrides_eq:
  "normalize_overrides kvs m =
     (if \<forall>k \<in> fst ` set kvs. supports_override k
      then Inr (fold (\<lambda>(k, v) m. entry_modify m k (\<lambda>x. register_merge x v) v) kvs m)
      else Inl OverrideContextTooLong)"
  by (induction kvs m rule: normalize_overrides.induct) auto

lemma replica_new_maps:
  assumes "distinct (map fst fs)" and "distinct (map fst os)"
  shows "replica_new scope p fs os = replica_from_maps scope p (map_of fs) (map_of os)"
  using assms
  by (simp add: replica_new_def replica_from_maps_def normalize_overrides_eq merge_map_entries
      normalize_frontiers_distinct dom_map_of_conv_image_fst)

lemma merge_replicas_eq:
  "merge_replicas rs s =
     (if \<forall>r \<in> set rs. rp_scope r = rd_scope s
      then Inr (s\<lparr>rd_frontiers := fold (merge_map max) (map rp_frontiers rs) (rd_frontiers s),
                  rd_overrides :=
                    fold (merge_map register_merge) (map rp_overrides rs) (rd_overrides s)\<rparr>)
      else Inl ScopeMismatch)"
  by (induction rs s rule: merge_replicas.induct)
    (auto simp: merge_def attempt_def ensure_def frontier_maps.merge_comm
      override_maps.merge_comm split: prod.splits sum.splits)

section \<open>Commands\<close>

datatype read_state_command =
    Merge owner_read_state_replica
  | MarkPotentiallyIncomplete
  | AdvanceFrontier principal_id read_context_id u32
  | MarkUnread principal_id read_context_id "read_context_id option"
  | MarkRead principal_id read_context_id "read_context_id option" u32

fun read_state_exec ::
  "read_state_command \<Rightarrow> read_state \<Rightarrow> (read_state, read_state_error, unit) effect" where
  "read_state_exec (Merge replica) s = merge replica s"
| "read_state_exec MarkPotentiallyIncomplete s = (Inr (), mark_potentially_incomplete s)"
| "read_state_exec (AdvanceFrontier owner context t) s = advance_frontier owner context t s"
| "read_state_exec (MarkUnread owner context parent) s = mark_unread owner context parent s"
| "read_state_exec (MarkRead owner context parent t) s = mark_read owner context parent t s"

fun read_state_run :: "read_state_command list \<Rightarrow> read_state \<Rightarrow> read_state" where
  "read_state_run [] s = s"
| "read_state_run (c # cs) s = read_state_run cs (snd (read_state_exec c s))"

definition frontier_of :: "read_state \<Rightarrow> read_context_id \<Rightarrow> u32" where
  "frontier_of s c = (case rd_frontiers s c of None \<Rightarrow> 0 | Some f \<Rightarrow> f)"

lemma effective_frontier_eq:
  "effective_frontier_unchecked s c parent =
     (case parent of None \<Rightarrow> frontier_of s c | Some p \<Rightarrow> max (frontier_of s c) (frontier_of s p))"
  by (cases parent) (simp_all add: effective_frontier_unchecked_def frontier_of_def Let_def)

lemma snd_update_register [simp]:
  "rd_frontiers (snd (update_register c f s)) = rd_frontiers s"
  "rd_scope (snd (update_register c f s)) = rd_scope s"
  "rd_completeness (snd (update_register c f s)) = rd_completeness s"
  by (simp_all add: update_register_def split: prod.splits)

lemma dom_update_register [simp]:
  "dom (rd_overrides (snd (update_register c f s))) = insert c (dom (rd_overrides s))"
  by (simp add: update_register_def split: prod.splits)

text \<open>No command moves a frontier back.\<close>

lemma frontier_of_step: "frontier_of s c \<le> frontier_of (snd (read_state_exec cmd s)) c"
  by (cases cmd)
    (auto simp: frontier_of_def merge_def mark_potentially_incomplete_def advance_frontier_def
      mark_unread_def mark_read_def merge_map_def entry_modify_def attempt_def Let_def
      split: sum.splits option.splits)

lemma frontier_of_run: "frontier_of s c \<le> frontier_of (read_state_run cs s) c"
  by (induction cs arbitrary: s) (auto intro: order.trans [OF frontier_of_step])

text \<open>Every override has a frontier beside it and a context short enough to carry it.\<close>

definition overrides_grounded ::
  "(read_context_id \<rightharpoonup> u32) \<Rightarrow> (read_context_id \<rightharpoonup> manual_unread_register) \<Rightarrow> bool" where
  "overrides_grounded F R \<longleftrightarrow> dom R \<subseteq> dom F \<and> (\<forall>c \<in> dom R. supports_override c)"

lemma overrides_grounded_step:
  assumes "overrides_grounded (rd_frontiers s) (rd_overrides s)"
    and "\<forall>r. cmd = Merge r \<longrightarrow> overrides_grounded (rp_frontiers r) (rp_overrides r)"
  shows "overrides_grounded (rd_frontiers (snd (read_state_exec cmd s)))
           (rd_overrides (snd (read_state_exec cmd s)))"
  using assms
  by (cases cmd)
    (auto simp: overrides_grounded_def merge_def mark_potentially_incomplete_def
      advance_frontier_def mark_unread_def mark_read_def attempt_def Let_def
      require_override_action_def result_simps split: sum.splits)

section \<open>Marking\<close>

lemma update_register_Inr:
  "update_register c f s = (Inr u, s') \<longleftrightarrow>
     (\<exists>r. f (case rd_overrides s c of None \<Rightarrow> register_default | Some r \<Rightarrow> r) = (Inr u, r)
        \<and> s' = s\<lparr>rd_overrides := (rd_overrides s)(c \<mapsto> r)\<rparr>)"
  by (auto simp: update_register_def split: prod.splits)

lemma register_mark_unread_active:
  assumes "register_mark_unread r f = (Inr u, r')"
  shows "is_active r' f"
proof -
  from assms obtain n where n: "checked_add (max (mu_set r) (mu_clear r)) 1 = Some n"
      and r': "r' = r\<lparr>mu_set := n, mu_baseline := f\<rparr>"
    by (auto simp: register_mark_unread_def result_simps)
  from n have "max (mu_set r) (mu_clear r) < n"
    by (rule checked_add_greater) simp
  then show ?thesis
    using r' by (auto simp: is_active_def word_gt_0 intro: order.strict_trans1)
qed

lemma register_mark_read_inactive:
  assumes "register_mark_read r f = (Inr u, r')"
  shows "\<not> is_active r' f"
proof (cases "checked_add (max (mu_set r) (mu_clear r)) 1")
  case None
  with assms show ?thesis by (auto simp: register_mark_read_def split: if_splits)
next
  case (Some n)
  then have "max (mu_set r) (mu_clear r) < n"
    by (rule checked_add_greater) simp
  with Some assms show ?thesis
    by (auto simp: register_mark_read_def is_active_def)
qed

lemma is_active_tombstone: "\<not> is_active (tombstone n) f"
  by (simp add: is_active_def tombstone_def)

lemma canonical_overrides_active:
  "is_some_and (canonical_overrides s parents c)
     (\<lambda>r. is_active r (effective_frontier_unchecked s c (parents c))) \<longleftrightarrow>
   is_some_and (rd_overrides s c) (\<lambda>r. is_active r (effective_frontier_unchecked s c (parents c)))"
  by (auto simp: canonical_overrides_def canonical_def is_active_tombstone split: option.splits)

section \<open>Properties\<close>

definition sample_read_scope :: read_state_scope where
  "sample_read_scope =
     \<lparr>sc_community_id = CommunityId 1, sc_owner_principal_id = PrincipalId 10\<rparr>"

definition sample_context :: read_context_id where
  "sample_context = ReadContextId (lit ''general'')"

definition sample_replica :: "u32 \<Rightarrow> manual_unread_register \<Rightarrow> owner_read_state_replica" where
  "sample_replica frontier register =
     \<lparr>rp_scope = sample_read_scope, rp_frontiers = [sample_context \<mapsto> frontier],
      rp_overrides = [sample_context \<mapsto> register]\<rparr>"

definition sample_read_state :: "u32 \<Rightarrow> manual_unread_register \<Rightarrow> read_state" where
  "sample_read_state frontier register =
     \<lparr>rd_scope = sample_read_scope, rd_completeness = Complete,
      rd_frontiers = [sample_context \<mapsto> frontier], rd_overrides = [sample_context \<mapsto> register]\<rparr>"

lemmas sample_read_defs =
  sample_read_scope_def sample_context_def sample_replica_def sample_read_state_def

lemma sample_context_override: "supports_override sample_context"
  by (simp add: supports_override_def sample_context_def MAX_OVERRIDE_CONTEXT_BYTES_def
      MAX_CONTEXT_BYTES_def string_defs)

text \<open>C7. Read state converges: loading the same set of replicas gives the same read state, or
  the same error, in whatever order the replicas arrive and however often each is delivered.\<close>

theorem read_state_converges:
  assumes "set rs = set rs'"
  shows "from_replicas scope completeness rs = from_replicas scope completeness rs'"
proof -
  have "set (map rp_frontiers rs) = set (map rp_frontiers rs')"
    and "set (map rp_overrides rs) = set (map rp_overrides rs')"
    using assms by simp_all
  then show ?thesis
    using assms frontier_maps.fold_merge_cong override_maps.fold_merge_cong
    by (simp add: from_replicas_def merge_replicas_eq)
qed

theorem read_state_converges_witness:
  "from_replicas sample_read_scope Complete
     [sample_replica 5 (tombstone 2), sample_replica 9 \<lparr>mu_set = 3, mu_clear = 0, mu_baseline = 9\<rparr>]
   = from_replicas sample_read_scope Complete
     [sample_replica 9 \<lparr>mu_set = 3, mu_clear = 0, mu_baseline = 9\<rparr>, sample_replica 5 (tombstone 2),
      sample_replica 5 (tombstone 2)]"
  by (rule read_state_converges) auto

text \<open>Marking unread works: after a successful call the owner sees the context as unread,
  whatever the time of its latest message.\<close>

theorem mark_unread_makes_unread:
  assumes "mark_unread owner context parent s = (Inr (), s')"
  shows "is_unread s' owner context parent latest = Inr True"
proof -
  let ?f = "effective_frontier_unchecked s context parent"
  let ?s = "s\<lparr>rd_frontiers := entry_modify (rd_frontiers s) context (\<lambda>f. f) 0\<rparr>"
  from assms obtain r where owner: "require_owner s owner = Inr ()"
      and r: "register_mark_unread
        (case rd_overrides s context of None \<Rightarrow> register_default | Some r \<Rightarrow> r) ?f = (Inr (), r)"
      and s': "s' = ?s\<lparr>rd_overrides := (rd_overrides s)(context \<mapsto> r)\<rparr>"
    by (auto simp: mark_unread_def require_override_action_def require_complete_owner_def
        update_register_Inr Let_def result_simps)
  have "frontier_of s' c = frontier_of s c" for c
    by (auto simp: s' frontier_of_def entry_modify_def split: option.splits)
  then have "effective_frontier_unchecked s' context parent = ?f"
    by (cases parent) (simp_all add: effective_frontier_eq)
  then show ?thesis
    using owner register_mark_unread_active [OF r]
    by (simp add: is_unread_def require_owner_def s' Let_def ensure_Inr)
qed

theorem mark_unread_makes_unread_witness:
  "\<exists>s'. mark_unread (PrincipalId 10) sample_context None (sample_read_state 7 (tombstone 4))
       = (Inr (), s') \<and> is_unread s' (PrincipalId 10) sample_context None 3 = Inr True"
proof -
  have "mark_unread (PrincipalId 10) sample_context None (sample_read_state 7 (tombstone 4)) =
      (Inr (), sample_read_state 7 \<lparr>mu_set = 5, mu_clear = 4, mu_baseline = 7\<rparr>)"
    using sample_context_override
    by (simp add: mark_unread_def require_override_action_def require_complete_owner_def
        require_owner_def update_register_def register_mark_unread_def checked_add_def
        effective_frontier_eq frontier_of_def entry_modify_def sample_read_state_def
        sample_read_scope_def tombstone_def)
  with mark_unread_makes_unread [OF this] show ?thesis by blast
qed

text \<open>Marking read works: after a successful call through a point in time, a context whose
  latest message is no newer than that point is no longer unread.\<close>

theorem mark_read_makes_read:
  assumes "mark_read owner context parent read_through s = (Inr (), s')"
    and "latest \<le> read_through"
  shows "is_unread s' owner context parent latest = Inr False"
proof -
  let ?s = "s\<lparr>rd_frontiers := entry_modify (rd_frontiers s) context
      (\<lambda>current. max current read_through) read_through\<rparr>"
  let ?f = "effective_frontier_unchecked ?s context parent"
  from assms(1) obtain r where owner: "require_owner s owner = Inr ()"
      and r: "register_mark_read
        (case rd_overrides s context of None \<Rightarrow> register_default | Some r \<Rightarrow> r) ?f = (Inr (), r)"
      and s': "s' = ?s\<lparr>rd_overrides := (rd_overrides s)(context \<mapsto> r)\<rparr>"
    by (auto simp: mark_read_def require_override_action_def require_complete_owner_def
        update_register_Inr Let_def result_simps)
  have "frontier_of s' c = frontier_of ?s c" for c
    by (simp add: s' frontier_of_def)
  then have eff: "effective_frontier_unchecked s' context parent = ?f"
    by (cases parent) (simp_all add: effective_frontier_eq)
  have "read_through \<le> frontier_of ?s context"
    by (simp add: frontier_of_def split: option.splits)
  then have "read_through \<le> ?f"
    by (auto simp: effective_frontier_eq le_max_iff_disj split: option.splits)
  with assms(2) have "\<not> ?f < latest" by simp
  then show ?thesis
    using owner register_mark_read_inactive [OF r] eff
    by (simp add: is_unread_def require_owner_def s' Let_def ensure_Inr)
qed

theorem mark_read_makes_read_witness:
  "\<exists>s'. mark_read (PrincipalId 10) sample_context None 8
       (sample_read_state 7 \<lparr>mu_set = 5, mu_clear = 4, mu_baseline = 9\<rparr>) = (Inr (), s')
     \<and> is_unread s' (PrincipalId 10) sample_context None 8 = Inr False"
proof -
  have "mark_read (PrincipalId 10) sample_context None 8
       (sample_read_state 7 \<lparr>mu_set = 5, mu_clear = 4, mu_baseline = 9\<rparr>) =
      (Inr (), sample_read_state 8 \<lparr>mu_set = 5, mu_clear = 6, mu_baseline = 9\<rparr>)"
    using sample_context_override
    by (simp add: mark_read_def require_override_action_def require_complete_owner_def
        require_owner_def update_register_def register_mark_read_def checked_add_def
        effective_frontier_eq frontier_of_def entry_modify_def sample_read_state_def
        sample_read_scope_def)
  with mark_read_makes_read [OF this] show ?thesis by auto
qed

text \<open>Publishing loses nothing: a read state rebuilt from the canonical replica of another
  one answers every unread question of the owner the same way, for the parents it was
  canonicalized with, although inactive registers were collapsed to tombstones.\<close>

theorem canonical_replica_lossless:
  assumes "canonical_replica s owner parents = Inr replica"
    and "from_replicas (rd_scope s) Complete [replica] = Inr s'"
  shows "is_unread s' owner context (parents context) latest
       = is_unread s owner context (parents context) latest"
proof -
  from assms(1) have rep: "replica = \<lparr>rp_scope = rd_scope s, rp_frontiers = rd_frontiers s,
      rp_overrides = canonical_overrides s parents\<rparr>"
    by (auto simp: canonical_replica_def replica_from_maps_def replica_finish_def result_simps
        split: if_splits)
  with assms(2) have s': "rd_scope s' = rd_scope s" "rd_frontiers s' = rd_frontiers s"
      "rd_overrides s' = canonical_overrides s parents"
    by (auto simp: from_replicas_def merge_def)
  have "effective_frontier_unchecked s' context (parents context) =
      effective_frontier_unchecked s context (parents context)"
    by (simp add: effective_frontier_unchecked_def s')
  then show ?thesis
    using canonical_overrides_active [of s parents "context"]
    by (simp add: is_unread_def require_owner_def s' Let_def)
qed

theorem canonical_replica_lossless_witness:
  "\<exists>replica s'. canonical_replica (sample_read_state 7 \<lparr>mu_set = 5, mu_clear = 4, mu_baseline = 3\<rparr>)
       (PrincipalId 10) Map.empty = Inr replica
     \<and> from_replicas sample_read_scope Complete [replica] = Inr s'
     \<and> is_unread s' (PrincipalId 10) sample_context None 7
       = is_unread (sample_read_state 7 \<lparr>mu_set = 5, mu_clear = 4, mu_baseline = 3\<rparr>)
           (PrincipalId 10) sample_context None 7"
proof -
  let ?s = "sample_read_state 7 \<lparr>mu_set = 5, mu_clear = 4, mu_baseline = 3\<rparr>"
  have over: "canonical_overrides ?s Map.empty = [sample_context \<mapsto> tombstone 5]"
    by (auto simp: canonical_overrides_def canonical_def is_active_def sample_read_state_def
        effective_frontier_eq frontier_of_def fun_eq_iff)
  have rep: "canonical_replica ?s (PrincipalId 10) Map.empty = Inr (sample_replica 7 (tombstone 5))"
    using sample_context_override
    by (simp add: canonical_replica_def over require_complete_owner_def require_owner_def
        replica_from_maps_def replica_finish_def MAX_CONTEXTS_def sample_replica_def)
      (simp add: sample_read_state_def sample_read_scope_def MAX_CONTEXTS_def)
  have load: "from_replicas (rd_scope ?s) Complete [sample_replica 7 (tombstone 5)]
      = Inr (sample_read_state 7 (tombstone 5))"
    by (simp add: from_replicas_def merge_def sample_replica_def sample_read_state_def)
  from canonical_replica_lossless [OF rep load, of sample_context 7] rep load show ?thesis
    by (auto simp: sample_read_state_def)
qed

text \<open>A dismissed manual-unread mark stays dismissed: merging the tombstone of an inactive
  register with any register whose set counter the tombstone had seen is inactive at every
  frontier.\<close>

theorem tombstone_not_resurrected:
  assumes "canonical r frontier = Tombstone n"
    and "mu_set q \<le> mu_set r \<or> mu_set q \<le> mu_clear r"
  shows "\<not> is_active (register_merge (tombstone n) q) frontier'"
proof -
  from assms(1) have "n = max (mu_set r) (mu_clear r)"
    by (auto simp: canonical_def split: if_splits)
  with assms(2) have "mu_set q \<le> n"
    by (auto simp: le_max_iff_disj)
  then show ?thesis
    by (auto simp: is_active_def register_merge_def tombstone_def not_less le_max_iff_disj)
qed

theorem tombstone_not_resurrected_witness:
  "\<not> is_active (register_merge (tombstone 5) \<lparr>mu_set = 5, mu_clear = 0, mu_baseline = 100\<rparr>) 20"
  by (rule tombstone_not_resurrected [of "\<lparr>mu_set = 5, mu_clear = 4, mu_baseline = 3\<rparr>" 7])
    (simp_all add: canonical_def is_active_def)

text \<open>Read positions never move back: no sequence of merges and marks, accepted or refused,
  lowers the effective frontier of a context under any parent.\<close>

theorem frontier_never_regresses:
  "effective_frontier_unchecked s context parent
   \<le> effective_frontier_unchecked (read_state_run cs s) context parent"
proof (cases parent)
  case (Some p)
  then show ?thesis
    using frontier_of_run [of s _ cs]
    by (simp only: effective_frontier_eq option.case max.mono)
qed (simp add: effective_frontier_eq frontier_of_run)

text \<open>A refused \<open>mark_read\<close> is not atomic: when the counters are exhausted it reports the
  error, yet the frontier of the context has advanced.\<close>

theorem mark_read_exhausted_advances:
  assumes "mark_read owner context parent read_through s = (Inl CounterExhausted, s')"
  shows "frontier_of s' context = max (frontier_of s context) read_through"
proof -
  from assms have "rd_frontiers s' = entry_modify (rd_frontiers s) context
      (\<lambda>current. max current read_through) read_through"
    by (auto simp: mark_read_def require_override_action_def require_complete_owner_def
        require_owner_def update_register_def Let_def result_simps split: prod.splits)
  then show ?thesis
    by (simp add: frontier_of_def split: option.splits)
qed

theorem mark_read_exhausted_advances_witness:
  "\<exists>s'. mark_read (PrincipalId 10) sample_context None 8
       (sample_read_state 7 \<lparr>mu_set = 4294967295, mu_clear = 0, mu_baseline = 9\<rparr>)
     = (Inl CounterExhausted, s') \<and> frontier_of s' sample_context = 8"
proof -
  have "mark_read (PrincipalId 10) sample_context None 8
       (sample_read_state 7 \<lparr>mu_set = 4294967295, mu_clear = 0, mu_baseline = 9\<rparr>) =
      (Inl CounterExhausted, sample_read_state 8 \<lparr>mu_set = 4294967295, mu_clear = 0, mu_baseline = 9\<rparr>)"
    using sample_context_override
    by (simp add: mark_read_def require_override_action_def require_complete_owner_def
        require_owner_def update_register_def register_mark_read_def checked_add_def is_active_def
        effective_frontier_eq frontier_of_def entry_modify_def sample_read_state_def
        sample_read_scope_def)
  with mark_read_exhausted_advances [OF this] show ?thesis
    by (simp add: sample_read_state_def frontier_of_def)
qed

end
