(* ===== verification/Clock.thy ===== *)
theory Clock
  imports Replication
begin

text \<open>
  Logical time (\<open>clock/src/clock.rs\<close>): replica ids, Lamport timestamps and version vectors.
  A version vector is the list of its sequence numbers, indexed by replica id; a replica
  beyond the end has been observed up to 0. Addition on a sequence number wraps, as the
  release build does; the properties that need it say where the counter is not exhausted.
\<close>

section \<open>Replica ids and timestamps\<close>

datatype replica_id = ReplicaId (as_u16: u16)

instantiation replica_id :: linorder
begin

definition less_eq_replica_id :: "replica_id \<Rightarrow> replica_id \<Rightarrow> bool" where
  "less_eq_replica_id a b \<longleftrightarrow> as_u16 a \<le> as_u16 b"

definition less_replica_id :: "replica_id \<Rightarrow> replica_id \<Rightarrow> bool" where
  "less_replica_id a b \<longleftrightarrow> as_u16 a < as_u16 b"

instance
  by standard (auto simp: less_eq_replica_id_def less_replica_id_def replica_id.expand)

end

definition LOCAL :: replica_id where "LOCAL = ReplicaId 0"
definition REMOTE_SERVER :: replica_id where "REMOTE_SERVER = ReplicaId 1"
definition AGENT :: replica_id where "AGENT = ReplicaId 2"
definition LOCAL_BRANCH :: replica_id where "LOCAL_BRANCH = ReplicaId 3"
definition FIRST_COLLAB_ID :: replica_id where "FIRST_COLLAB_ID = ReplicaId 8"

definition is_remote :: "replica_id \<Rightarrow> bool" where
  "is_remote r \<longleftrightarrow> r = REMOTE_SERVER \<or> FIRST_COLLAB_ID \<le> r"

type_synonym seq = u32

datatype lamport = Lamport (ts_value: seq) (ts_replica: replica_id)

instantiation lamport :: linorder
begin

definition less_eq_lamport :: "lamport \<Rightarrow> lamport \<Rightarrow> bool" where
  "less_eq_lamport a b \<longleftrightarrow>
     ts_value a < ts_value b \<or> ts_value a = ts_value b \<and> ts_replica a \<le> ts_replica b"

definition less_lamport :: "lamport \<Rightarrow> lamport \<Rightarrow> bool" where
  "less_lamport a b \<longleftrightarrow>
     ts_value a < ts_value b \<or> ts_value a = ts_value b \<and> ts_replica a < ts_replica b"

instance
  by standard (auto simp: less_eq_lamport_def less_lamport_def lamport.expand)

end

definition lamport_MIN :: lamport where "lamport_MIN = Lamport 0 (ReplicaId 0)"
definition lamport_MAX :: lamport where "lamport_MAX = Lamport (- 1) (ReplicaId (- 1))"

definition lamport_new :: "replica_id \<Rightarrow> lamport" where
  "lamport_new r = Lamport 1 r"

definition as_u64 :: "lamport \<Rightarrow> u64" where
  "as_u64 t = or (push_bit 32 (ucast (ts_value t))) (ucast (as_u16 (ts_replica t)))"

text \<open>\<open>tick\<close> returns the timestamp issued and the clock after it.\<close>

definition tick :: "lamport \<Rightarrow> lamport \<times> lamport" where
  "tick c = (c, Lamport (ts_value c + 1) (ts_replica c))"

definition lamport_observe :: "lamport \<Rightarrow> lamport \<Rightarrow> lamport" where
  "lamport_observe c t = Lamport (max (ts_value c) (ts_value t) + 1) (ts_replica c)"

section \<open>Version vectors\<close>

type_synonym global = "seq list"

definition global_new :: global where "global_new = []"

definition global_get :: "global \<Rightarrow> replica_id \<Rightarrow> seq" where
  "global_get g r = (let i = unat (as_u16 r) in if i < length g then g ! i else 0)"

definition resize :: "global \<Rightarrow> nat \<Rightarrow> global" where
  "resize g n = take n g @ replicate (n - length g) 0"

definition global_observe :: "global \<Rightarrow> lamport \<Rightarrow> global" where
  "global_observe g t =
     (if 0 < ts_value t then
        let i = unat (as_u16 (ts_replica t));
            g = (if length g < i + 1 then resize g (i + 1) else g)
        in g[i := max (g ! i) (ts_value t)]
      else g)"

text \<open>\<open>iter_mut().zip(other)\<close> with an assignment updates the common prefix and keeps the rest.\<close>

fun zip_update :: "(seq \<Rightarrow> seq \<Rightarrow> seq) \<Rightarrow> global \<Rightarrow> global \<Rightarrow> global" where
  "zip_update f (x # xs) (y # ys) = f x y # zip_update f xs ys"
| "zip_update f xs _ = xs"

definition join :: "global \<Rightarrow> global \<Rightarrow> global" where
  "join g other =
     zip_update max (if length g < length other then resize g (length other) else g) other"

definition meet_entry :: "seq \<Rightarrow> seq \<Rightarrow> seq" where
  "meet_entry left right =
     (if left = 0 then right else if right = 0 then left else min left right)"

text \<open>The loop of \<open>meet\<close>: the updated values, and one more than the last index in the zipped
  range whose value is not 0.\<close>

fun meet_loop :: "nat \<Rightarrow> global \<Rightarrow> global \<Rightarrow> nat \<Rightarrow> global \<times> nat" where
  "meet_loop ix (x # xs) (y # ys) new_len =
     (let left = meet_entry x y;
          (rest, n) = meet_loop (ix + 1) xs ys (if left \<noteq> 0 then ix + 1 else new_len)
      in (left # rest, n))"
| "meet_loop ix xs _ new_len = (xs, new_len)"

definition meet :: "global \<Rightarrow> global \<Rightarrow> global" where
  "meet g other =
     (let g = (if length g < length other then resize g (length other) else g);
          (values, new_len) = meet_loop 0 g other 0
      in if length other = length values then take new_len values else values)"

definition observed :: "global \<Rightarrow> lamport \<Rightarrow> bool" where
  "observed g t \<longleftrightarrow> ts_value t \<le> global_get g (ts_replica t)"

definition global_iter :: "global \<Rightarrow> lamport list" where
  "global_iter g = map (\<lambda>(i, seq). Lamport seq (ReplicaId (of_nat i))) (enumerate 0 g)"

definition observed_any :: "global \<Rightarrow> global \<Rightarrow> bool" where
  "observed_any g other \<longleftrightarrow>
     list_ex (\<lambda>(l, r). 0 < ts_value r \<and> ts_value r \<le> ts_value l)
       (zip (global_iter g) (global_iter other))"

definition observed_all :: "global \<Rightarrow> global \<Rightarrow> bool" where
  "observed_all g other \<longleftrightarrow>
     (if length g < length other then False
      else list_all (\<lambda>(l, r). ts_value r \<le> ts_value l) (zip (global_iter g) (global_iter other)))"

definition changed_since :: "global \<Rightarrow> global \<Rightarrow> bool" where
  "changed_since g other \<longleftrightarrow>
     length other < length g \<or> list_ex (\<lambda>(l, r). r < l) (zip g other)"

text \<open>\<open>max_by_key\<close> keeps the last of several maximal elements.\<close>

fun max_by_value :: "lamport \<Rightarrow> lamport list \<Rightarrow> lamport" where
  "max_by_value best [] = best"
| "max_by_value best (t # ts) =
     max_by_value (if ts_value t < ts_value best then best else t) ts"

definition most_recent :: "global \<Rightarrow> lamport option" where
  "most_recent g = (case global_iter g of [] \<Rightarrow> None | t # ts \<Rightarrow> Some (max_by_value t ts))"

definition from_iter :: "lamport list \<Rightarrow> global" where
  "from_iter ts = fold (\<lambda>t g. global_observe g t) ts global_new"

section \<open>Entries of a version vector\<close>

definition entry :: "global \<Rightarrow> nat \<Rightarrow> seq" where
  "entry g i = (if i < length g then g ! i else 0)"

lemma global_get_entry: "global_get g r = entry g (unat (as_u16 r))"
  by (simp add: global_get_def entry_def Let_def)

lemma entry_Nil [simp]: "entry [] i = 0"
  by (simp add: entry_def)

lemma global_eqI:
  assumes "length a = length b" "\<And>i. entry a i = entry b i"
  shows "a = b"
proof (rule nth_equalityI [OF assms(1)])
  fix i assume "i < length a"
  then show "a ! i = b ! i" using assms(2) [of i] assms(1) by (simp add: entry_def)
qed

lemma length_resize [simp]: "length (resize g n) = n"
  by (simp add: resize_def)

lemma entry_resize [simp]: "length g \<le> n \<Longrightarrow> entry (resize g n) i = entry g i"
  by (auto simp: entry_def resize_def nth_append)

lemma entry_update:
  "i < length g \<Longrightarrow> entry (g[i := v]) j = (if j = i then v else entry g j)"
  by (auto simp: entry_def)

lemma length_zip_update [simp]: "length (zip_update f xs ys) = length xs"
  by (induction f xs ys rule: zip_update.induct) auto

lemma nth_zip_update:
  "i < length xs \<Longrightarrow>
   zip_update f xs ys ! i = (if i < length ys then f (xs ! i) (ys ! i) else xs ! i)"
  by (induction f xs ys arbitrary: i rule: zip_update.induct) (auto simp: nth_Cons split: nat.splits)

lemma length_join: "length (join a b) = max (length a) (length b)"
  by (simp add: join_def max_def)

lemma entry_join: "entry (join a b) i = max (entry a i) (entry b i)"
proof -
  let ?a = "if length a < length b then resize a (length b) else a"
  have "length b \<le> length ?a" by simp
  then have "entry (join a b) i = max (entry ?a i) (entry b i)"
    by (simp add: join_def entry_def nth_zip_update)
  also have "entry ?a i = entry a i" by simp
  finally show ?thesis .
qed

interpretation vector: merge_semilattice join
  by unfold_locales
    (rule global_eqI; simp add: length_join entry_join ac_simps)+

lemma length_global_observe:
  "length (global_observe g t) =
     (if 0 < ts_value t then max (length g) (unat (as_u16 (ts_replica t)) + 1) else length g)"
  by (auto simp: global_observe_def Let_def max_def)

lemma entry_global_observe:
  "entry (global_observe g t) i =
     (if i = unat (as_u16 (ts_replica t)) then max (entry g i) (ts_value t) else entry g i)"
proof (cases "0 < ts_value t")
  case True
  let ?j = "unat (as_u16 (ts_replica t))"
  let ?g = "if length g < ?j + 1 then resize g (?j + 1) else g"
  have "?j < length ?g" by auto
  then have "?g ! ?j = entry ?g ?j" by (simp add: entry_def)
  with \<open>?j < length ?g\<close> True show ?thesis
    by (simp add: global_observe_def Let_def entry_update)
qed (auto simp: global_observe_def word_gt_0)

section \<open>Well-formed vectors\<close>

text \<open>The last sequence number is not 0, and there is at most one per replica id.\<close>

definition vector_ok :: "global \<Rightarrow> bool" where
  "vector_ok g \<longleftrightarrow> length g \<le> 65536 \<and> (0 < length g \<longrightarrow> entry g (length g - 1) \<noteq> 0)"

lemma vector_ok_Nil [simp]: "vector_ok []"
  by (simp add: vector_ok_def)

lemma replica_index_bound: "unat (as_u16 r) < 65536"
  using unsigned_less [where ?'b = 16 and ?'a = nat and w = "as_u16 r"] by simp

lemma vector_ok_observe:
  assumes "vector_ok g"
  shows "vector_ok (global_observe g t)"
  using assms replica_index_bound [of "ts_replica t"]
  by (auto simp: vector_ok_def length_global_observe entry_global_observe max_def word_gt_0
      split: if_splits)

lemma vector_ok_join:
  assumes "vector_ok a" "vector_ok b"
  shows "vector_ok (join a b)"
  using assms by (auto simp: vector_ok_def length_join entry_join max_def split: if_splits)

text \<open>The replica that holds an entry of a well-formed vector.\<close>

lemma entry_replica:
  assumes "vector_ok g" "entry g i \<noteq> 0"
  obtains r where "unat (as_u16 r) = i"
proof -
  have "i < 65536" using assms by (auto simp: vector_ok_def entry_def split: if_splits)
  then have "unat (as_u16 (ReplicaId (of_nat i))) = i" by (simp add: unat_of_nat)
  then show thesis by (rule that)
qed

lemma ts_value_global_iter: "map ts_value (global_iter g) = g"
  by (rule nth_equalityI) (auto simp: global_iter_def nth_enumerate_eq)

lemma length_global_iter [simp]: "length (global_iter g) = length g"
  by (simp add: global_iter_def)

lemma nth_global_iter: "i < length g \<Longrightarrow> ts_value (global_iter g ! i) = g ! i"
  by (simp add: global_iter_def nth_enumerate_eq)

lemma observed_all_entry:
  assumes "vector_ok b"
  shows "observed_all a b \<longleftrightarrow> (\<forall>i. entry b i \<le> entry a i)"
proof
  assume all: "observed_all a b"
  then have len: "length b \<le> length a" by (simp add: observed_all_def split: if_splits)
  show "\<forall>i. entry b i \<le> entry a i"
    using all len by (auto simp: observed_all_def entry_def list_all_length nth_global_iter)
next
  assume le: "\<forall>i. entry b i \<le> entry a i"
  have len: "length b \<le> length a"
  proof (rule ccontr)
    assume "\<not> length b \<le> length a"
    then have "entry a (length b - 1) = 0" "b \<noteq> []" by (auto simp: entry_def)
    with le [rule_format, of "length b - 1"] assms show False by (simp add: vector_ok_def)
  qed
  show "observed_all a b"
    using le len by (fastforce simp: observed_all_def entry_def list_all_length nth_global_iter
        split: if_splits)
qed

lemma changed_since_entry:
  assumes "vector_ok a"
  shows "changed_since a b \<longleftrightarrow> (\<exists>i. entry b i < entry a i)"
proof
  assume "changed_since a b"
  then consider "length b < length a" | i where "i < length a" "i < length b" "b ! i < a ! i"
    by (auto simp: changed_since_def list_ex_length)
  then show "\<exists>i. entry b i < entry a i"
  proof cases
    case 1
    then have "entry b (length a - 1) = 0" "a \<noteq> []" by (auto simp: entry_def)
    with assms show ?thesis by (auto simp: vector_ok_def word_gt_0 intro!: exI [of _ "length a - 1"])
  qed (auto simp: entry_def)
next
  assume "\<exists>i. entry b i < entry a i"
  then obtain i where "entry b i < entry a i" ..
  then show "changed_since a b"
    by (auto simp: changed_since_def list_ex_length entry_def split: if_splits)
qed

section \<open>Meet\<close>

text \<open>The loop counts, from \<open>ix\<close>, up to the last non-zero value it wrote.\<close>

lemma fst_meet_loop: "fst (meet_loop ix xs ys n) = zip_update meet_entry xs ys"
  by (induction ix xs ys n rule: meet_loop.induct) (auto simp: Let_def split: prod.splits)

lemma snd_meet_loop_tail:
  assumes "length xs = length ys" "n \<le> ix"
  shows "(\<exists>k. snd (meet_loop ix xs ys n) = ix + k \<and> 0 < k \<and> k \<le> length xs
           \<and> zip_update meet_entry xs ys ! (k - 1) \<noteq> 0
           \<and> (\<forall>j < length xs. k \<le> j \<longrightarrow> zip_update meet_entry xs ys ! j = 0))
       \<or> snd (meet_loop ix xs ys n) = n \<and> (\<forall>j < length xs. zip_update meet_entry xs ys ! j = 0)"
  using assms
proof (induction ix xs ys n rule: meet_loop.induct)
  case (1 ix x xs y ys n)
  let ?n = "if meet_entry x y \<noteq> 0 then ix + 1 else n"
  let ?z = "zip_update meet_entry xs ys"
  have snd: "snd (meet_loop ix (x # xs) (y # ys) n) = snd (meet_loop (ix + 1) xs ys ?n)"
    by (simp add: Let_def split: prod.splits)
  from 1 have "(\<exists>k. snd (meet_loop (ix + 1) xs ys ?n) = ix + 1 + k \<and> 0 < k \<and> k \<le> length xs
           \<and> ?z ! (k - 1) \<noteq> 0 \<and> (\<forall>j < length xs. k \<le> j \<longrightarrow> ?z ! j = 0))
       \<or> snd (meet_loop (ix + 1) xs ys ?n) = ?n \<and> (\<forall>j < length xs. ?z ! j = 0)"
    by simp
  then show ?case
  proof (elim disjE exE conjE)
    fix k assume k: "snd (meet_loop (ix + 1) xs ys ?n) = ix + 1 + k" "0 < k" "k \<le> length xs"
        "?z ! (k - 1) \<noteq> 0" "\<forall>j < length xs. k \<le> j \<longrightarrow> ?z ! j = 0"
    then have "\<forall>j < length (x # xs). Suc k \<le> j \<longrightarrow> (meet_entry x y # ?z) ! j = 0"
      by (auto simp: nth_Cons split: nat.splits)
    with k snd show ?thesis
      by (intro disjI1 exI [of _ "Suc k"]) (auto simp: nth_Cons')
  next
    assume "snd (meet_loop (ix + 1) xs ys ?n) = ?n" "\<forall>j < length xs. ?z ! j = 0"
    then show ?thesis
      using snd by (cases "meet_entry x y = 0") (auto simp: nth_Cons' intro!: exI [of _ 1])
  qed
qed auto

lemma meet_truncated:
  assumes "length xs = length ys"
  defines "n \<equiv> snd (meet_loop 0 xs ys 0)"
  shows "n \<le> length xs"
    and "0 < n \<Longrightarrow> zip_update meet_entry xs ys ! (n - 1) \<noteq> 0"
    and "\<lbrakk>n \<le> j; j < length xs\<rbrakk> \<Longrightarrow> zip_update meet_entry xs ys ! j = 0"
  using snd_meet_loop_tail [OF assms(1), of 0 0] by (auto simp: n_def)

lemma meet_eq:
  fixes a b :: global
  defines "g \<equiv> if length a < length b then resize a (length b) else a"
  shows "meet a b = (if length b = length g
      then take (snd (meet_loop 0 g b 0)) (zip_update meet_entry g b)
      else zip_update meet_entry g b)"
  using fst_meet_loop [of 0 g b 0]
  by (auto simp: meet_def g_def Let_def split: prod.splits)

lemma entry_meet: "entry (meet a b) i = meet_entry (entry a i) (entry b i)"
proof -
  define g where "g = (if length a < length b then resize a (length b) else a)"
  have len: "length b \<le> length g" and g: "entry g i = entry a i"
    by (auto simp: g_def)
  have z: "entry (zip_update meet_entry g b) i = meet_entry (entry g i) (entry b i)"
    using len by (auto simp: entry_def nth_zip_update meet_entry_def)
  show ?thesis
  proof (cases "length b = length g")
    case True
    let ?n = "snd (meet_loop 0 g b 0)"
    have "entry (take ?n (zip_update meet_entry g b)) i = entry (zip_update meet_entry g b) i"
      using meet_truncated [OF True [symmetric]] by (auto simp: entry_def not_less)
    then show ?thesis using True z g by (simp add: meet_eq [of a b, folded g_def])
  qed (use z g in \<open>simp add: meet_eq [of a b, folded g_def]\<close>)
qed

lemma vector_ok_meet:
  assumes "vector_ok a" "vector_ok b"
  shows "vector_ok (meet a b)"
proof -
  define g where "g = (if length a < length b then resize a (length b) else a)"
  have bound: "length g \<le> 65536" using assms by (simp add: g_def vector_ok_def)
  show ?thesis
  proof (cases "length b = length g")
    case True
    let ?n = "snd (meet_loop 0 g b 0)"
    have "meet a b = take ?n (zip_update meet_entry g b)"
      using True by (simp add: meet_eq [of a b, folded g_def])
    then show ?thesis
      using meet_truncated(1,2) [OF True [symmetric]] bound
      by (auto simp: vector_ok_def entry_def)
  next
    case False
    then have longer: "length b < length a" by (auto simp: g_def split: if_splits)
    with assms(1) have "entry (meet a b) (length a - 1) \<noteq> 0"
      by (auto simp: entry_meet meet_entry_def vector_ok_def entry_def [of b])
    moreover have "length (meet a b) = length a"
      using False longer by (simp add: meet_eq [of a b, folded g_def]) (simp add: g_def)
    ultimately show ?thesis using assms(1) by (simp add: vector_ok_def)
  qed
qed

section \<open>Version vectors as sets of timestamps\<close>

lemma global_observe_join: "global_observe g t = join g (global_observe [] t)"
  by (rule global_eqI)
    (auto simp: length_join length_global_observe entry_join entry_global_observe)

lemma from_iter_join: "from_iter ts = fold join (map (global_observe []) ts) []"
proof -
  have "fold (\<lambda>t g. global_observe g t) ts g = fold join (map (global_observe []) ts) g" for g
  proof (induction ts arbitrary: g)
    case (Cons t ts)
    have "global_observe g t = join (global_observe [] t) g"
      by (subst global_observe_join) (rule vector.merge_comm)
    with Cons show ?case by simp
  qed simp
  then show ?thesis by (simp add: from_iter_def global_new_def)
qed

lemma observed_join: "observed (join a b) t \<longleftrightarrow> observed a t \<or> observed b t"
  by (auto simp: observed_def global_get_entry entry_join le_max_iff_disj)

lemma observed_observe:
  "observed (global_observe g t) u \<longleftrightarrow>
     observed g u \<or> ts_replica u = ts_replica t \<and> ts_value u \<le> ts_value t"
  by (auto simp: observed_def global_get_entry entry_global_observe le_max_iff_disj
      intro: replica_id.expand word_unat_eq_iff [THEN iffD2])

lemma observed_subset:
  assumes "vector_ok b"
  shows "(\<forall>t. observed b t \<longrightarrow> observed a t) \<longleftrightarrow> (\<forall>i. entry b i \<le> entry a i)"
proof
  assume sub: "\<forall>t. observed b t \<longrightarrow> observed a t"
  show "\<forall>i. entry b i \<le> entry a i"
  proof
    fix i
    show "entry b i \<le> entry a i"
    proof (cases "entry b i = 0")
      case False
      then obtain r where "unat (as_u16 r) = i" using entry_replica [OF assms] by blast
      with sub [rule_format, of "Lamport (entry b i) r"] show ?thesis
        by (simp add: observed_def global_get_entry)
    qed simp
  qed
qed (auto simp: observed_def global_get_entry intro: order.trans)

text \<open>The vectors a replica can hold: built from the empty one by the operations.\<close>

inductive replica_vector :: "global \<Rightarrow> bool" where
  "replica_vector global_new"
| "replica_vector g \<Longrightarrow> replica_vector (global_observe g t)"
| "\<lbrakk>replica_vector a; replica_vector b\<rbrakk> \<Longrightarrow> replica_vector (join a b)"
| "\<lbrakk>replica_vector a; replica_vector b\<rbrakk> \<Longrightarrow> replica_vector (meet a b)"

lemma replica_vector_ok: "replica_vector g \<Longrightarrow> vector_ok g"
  by (induction rule: replica_vector.induct)
    (simp_all add: global_new_def vector_ok_observe vector_ok_join vector_ok_meet)

lemma replica_vector_from_iter: "replica_vector (from_iter ts)"
proof -
  have "replica_vector g \<Longrightarrow> replica_vector (fold (\<lambda>t g. global_observe g t) ts g)" for g
    by (induction ts arbitrary: g) (auto intro: replica_vector.intros)
  then show ?thesis by (simp add: from_iter_def replica_vector.intros)
qed

section \<open>Running a Lamport clock\<close>

datatype clock_event = Tick | Observe lamport

fun clock_step :: "lamport \<Rightarrow> clock_event \<Rightarrow> lamport list \<times> lamport" where
  "clock_step c Tick = (let (t, c') = tick c in ([t], c'))"
| "clock_step c (Observe t) = ([], lamport_observe c t)"

fun issued :: "lamport \<Rightarrow> clock_event list \<Rightarrow> lamport list" where
  "issued c [] = []"
| "issued c (e # es) = fst (clock_step c e) @ issued (snd (clock_step c e)) es"

definition clock_after :: "lamport \<Rightarrow> clock_event list \<Rightarrow> lamport" where
  "clock_after c es = fold (\<lambda>e c. snd (clock_step c e)) es c"

text \<open>No addition of the run exceeds \<open>u32::MAX\<close>.\<close>

fun clock_fits :: "lamport \<Rightarrow> clock_event list \<Rightarrow> bool" where
  "clock_fits c [] = True"
| "clock_fits c (e # es) =
     ((case e of Tick \<Rightarrow> ts_value c | Observe t \<Rightarrow> max (ts_value c) (ts_value t)) < 4294967295
      \<and> clock_fits (snd (clock_step c e)) es)"

lemma u32_Suc_greater: "(x :: u32) < 4294967295 \<Longrightarrow> x < x + 1"
proof -
  assume "x < 4294967295"
  then have "unat x + 1 < 2 ^ 32" by (simp add: word_less_nat_alt)
  then have "unat (x + 1) = unat x + 1" by (simp add: unat_word_ariths)
  then show ?thesis by (simp add: word_less_nat_alt)
qed

lemma clock_step_increases:
  assumes "clock_fits c (e # es)"
  shows "ts_value c < ts_value (snd (clock_step c e))"
proof (cases e)
  case Tick
  with assms show ?thesis by (simp add: tick_def u32_Suc_greater)
next
  case (Observe t)
  with assms have "max (ts_value c) (ts_value t) < max (ts_value c) (ts_value t) + 1"
    by (intro u32_Suc_greater) simp
  with Observe show ?thesis by (simp add: lamport_observe_def)
qed

lemma issued_after_clock:
  "\<lbrakk>clock_fits c es; u \<in> set (issued c es)\<rbrakk> \<Longrightarrow> ts_value c \<le> ts_value u"
proof (induction es arbitrary: c)
  case (Cons e es)
  note clock_step_increases [OF Cons.prems(1)]
  with Cons show ?case
    by (cases e) (fastforce simp: tick_def)+
qed simp

lemma issued_increasing:
  "clock_fits c es \<Longrightarrow> sorted_wrt (\<lambda>a b. ts_value a < ts_value b) (issued c es)"
proof (induction es arbitrary: c)
  case (Cons e es)
  have "ts_value c < ts_value u" if "u \<in> set (issued (snd (clock_step c e)) es)" for u
    using clock_step_increases [OF Cons.prems] issued_after_clock [OF _ that] Cons.prems by auto
  with Cons show ?case by (cases e) (auto simp: tick_def)
qed simp

lemma issued_append: "issued c (es @ fs) = issued c es @ issued (clock_after c es) fs"
  by (induction es arbitrary: c) (simp_all add: clock_after_def)

lemma clock_fits_append:
  "clock_fits c (es @ fs) \<longleftrightarrow> clock_fits c es \<and> clock_fits (clock_after c es) fs"
  by (induction es arbitrary: c) (auto simp: clock_after_def)

lemma observe_step_passes:
  assumes "clock_fits c (Observe t # es)"
  shows "ts_value t < ts_value (lamport_observe c t)"
proof -
  from assms have "max (ts_value c) (ts_value t) < max (ts_value c) (ts_value t) + 1"
    by (intro u32_Suc_greater) simp
  then show ?thesis by (simp add: lamport_observe_def)
qed

lemma unat_as_u64: "unat (as_u64 t) = unat (ts_value t) * 2 ^ 32 + unat (as_u16 (ts_replica t))"
proof -
  let ?v = "ts_value t" and ?r = "as_u16 (ts_replica t)"
  have v: "unat ?v < 2 ^ 32" by (rule unat_u32_less)
  have r: "unat ?r < 2 ^ 16" using replica_index_bound by simp
  have "unat (as_u64 t) = or (push_bit 32 (unat ?v)) (unat ?r)"
    using v r by (simp add: as_u64_def unsigned_or_eq unsigned_push_bit_eq unsigned_ucast_eq
        take_bit_nat_eq_self push_bit_nat_def)
  moreover have "and (push_bit 32 (unat ?v)) (unat ?r) = 0"
    by (rule bit_eqI) (auto simp: bit_simps dest: bit_imp_le_length)
  ultimately show ?thesis by (simp add: push_bit_eq_mult flip: disjunctive_add_eq_or)
qed

lemma max_by_value_max:
  "sorted_wrt (\<lambda>a b. ts_replica a < ts_replica b) (t # ts) \<Longrightarrow> max_by_value t ts = fold max ts t"
proof (induction ts arbitrary: t)
  case (Cons u ts)
  then have "ts_replica t < ts_replica u" by simp
  then have "(if ts_value u < ts_value t then t else u) = max u t"
    by (auto simp: max_def less_eq_lamport_def)
  moreover from Cons.prems have
    "sorted_wrt (\<lambda>a b. ts_replica a < ts_replica b) ((if ts_value u < ts_value t then t else u) # ts)"
    by auto
  ultimately show ?case using Cons.IH by simp
qed simp

lemma global_iter_sorted:
  assumes "vector_ok g"
  shows "sorted_wrt (\<lambda>a b. ts_replica a < ts_replica b) (global_iter g)"
proof -
  from assms have "length g \<le> 65536" by (simp add: vector_ok_def)
  then show ?thesis
    by (auto simp: sorted_wrt_iff_nth_less global_iter_def nth_enumerate_eq less_replica_id_def
        word_less_nat_alt unat_of_nat)
qed

section \<open>Properties\<close>

text \<open>C8. The comparisons of version vectors decide inclusion of what was observed:
  \<open>observed_all\<close> holds exactly when every timestamp the other vector has observed is observed
  here, and \<open>changed_since\<close> exactly when some timestamp observed here is new to the other. Both
  hold for every vector built by \<open>observe\<close>, \<open>join\<close> and \<open>meet\<close>, whatever its length.\<close>

theorem comparisons_decide_inclusion:
  assumes "replica_vector a" and "replica_vector b"
  shows "(observed_all a b \<longleftrightarrow> (\<forall>t. observed b t \<longrightarrow> observed a t))
       \<and> (changed_since a b \<longleftrightarrow> (\<exists>t. observed a t \<and> \<not> observed b t))"
proof -
  note ok = assms [THEN replica_vector_ok]
  have "changed_since a b \<longleftrightarrow> \<not> (\<forall>i. entry a i \<le> entry b i)"
    by (simp add: changed_since_entry ok not_le)
  then show ?thesis
    using observed_subset [OF ok(2), of a] observed_subset [OF ok(1), of b]
    unfolding observed_all_entry [OF ok(2)] by blast
qed

theorem comparisons_decide_inclusion_witness:
  "changed_since (from_iter [Lamport 3 LOCAL]) (from_iter [Lamport 2 AGENT])"
proof -
  have "observed (from_iter [Lamport 3 LOCAL]) (Lamport 3 LOCAL)"
      "\<not> observed (from_iter [Lamport 2 AGENT]) (Lamport 3 LOCAL)"
    by (simp_all add: from_iter_def observed_observe LOCAL_def AGENT_def)
      (simp add: observed_def global_get_def global_new_def)
  then show ?thesis
    using comparisons_decide_inclusion [OF replica_vector_from_iter replica_vector_from_iter] by blast
qed

text \<open>Version vectors converge: collecting the same set of timestamps, in any order and with
  any repetition, gives the same vector, down to its length.\<close>

theorem version_vectors_converge:
  assumes "set ts = set us"
  shows "from_iter ts = from_iter us"
  unfolding from_iter_join
  by (rule vector.fold_merge_cong) (use assms in auto)

theorem version_vectors_converge_witness:
  "from_iter [Lamport 3 LOCAL, Lamport 2 AGENT] =
   from_iter [Lamport 2 AGENT, Lamport 3 LOCAL, Lamport 2 AGENT]"
  by (rule version_vectors_converge) auto

text \<open>\<open>join\<close> is the least upper bound in the order \<open>observed_all\<close> decides, and \<open>meet\<close> keeps,
  of each replica both have observed, the smaller sequence number, and of any other the only one
  observed.\<close>

theorem join_meet_bounds:
  assumes "replica_vector a" and "replica_vector b"
  shows "(observed_all c (join a b) \<longleftrightarrow> observed_all c a \<and> observed_all c b)
       \<and> global_get (meet a b) r =
           (if global_get a r = 0 then global_get b r
            else if global_get b r = 0 then global_get a r
            else min (global_get a r) (global_get b r))"
proof -
  note ok = assms [THEN replica_vector_ok]
  show ?thesis
    by (auto simp: observed_all_entry ok vector_ok_join entry_join global_get_entry entry_meet
        meet_entry_def)
qed

theorem join_meet_bounds_witness:
  "(observed_all [3, 0, 2] (join (from_iter [Lamport 3 LOCAL]) (from_iter [Lamport 2 AGENT]))
      \<longleftrightarrow> observed_all [3, 0, 2] (from_iter [Lamport 3 LOCAL])
        \<and> observed_all [3, 0, 2] (from_iter [Lamport 2 AGENT]))
   \<and> global_get (meet (from_iter [Lamport 3 LOCAL]) (from_iter [Lamport 2 AGENT])) LOCAL = 3"
proof -
  have "global_get (from_iter [Lamport 3 LOCAL]) LOCAL = 3"
      "global_get (from_iter [Lamport 2 AGENT]) LOCAL = 0"
    by (simp_all add: global_get_entry from_iter_def global_new_def entry_global_observe
        LOCAL_def AGENT_def)
  then show ?thesis
    using join_meet_bounds [OF replica_vector_from_iter replica_vector_from_iter,
        of "[3, 0, 2]" "[Lamport 3 LOCAL]" "[Lamport 2 AGENT]" LOCAL]
    by simp
qed

text \<open>Lamport clocks respect causality: as long as no counter overflows, a clock issues
  strictly increasing timestamps, and everything it issues after observing a timestamp comes
  after that timestamp in the total order.\<close>

theorem lamport_clock_causal:
  assumes "clock_fits c (es @ Observe t # fs)"
  shows "sorted_wrt (<) (issued c (es @ Observe t # fs))
       \<and> (\<forall>u \<in> set (issued (clock_after c (es @ [Observe t])) fs). t < u)"
proof
  have "sorted_wrt (\<lambda>a b. ts_value a < ts_value b) (issued c (es @ Observe t # fs))"
    by (rule issued_increasing [OF assms])
  then show "sorted_wrt (<) (issued c (es @ Observe t # fs))"
    by (rule sorted_wrt_mono_rel [rotated]) (simp add: less_lamport_def)
  let ?c = "clock_after c es"
  from assms have fits: "clock_fits ?c (Observe t # fs)" by (simp add: clock_fits_append)
  have after: "clock_after c (es @ [Observe t]) = lamport_observe ?c t"
    by (simp add: clock_after_def)
  show "\<forall>u \<in> set (issued (clock_after c (es @ [Observe t])) fs). t < u"
  proof
    fix u assume "u \<in> set (issued (clock_after c (es @ [Observe t])) fs)"
    with fits after have "ts_value (lamport_observe ?c t) \<le> ts_value u"
      by (intro issued_after_clock [of _ fs]) simp_all
    with observe_step_passes [OF fits] show "t < u"
      by (auto simp: less_lamport_def)
  qed
qed

theorem lamport_clock_causal_witness:
  "sorted_wrt (<) (issued (lamport_new LOCAL) ([Tick] @ Observe (Lamport 9 AGENT) # [Tick, Tick]))
   \<and> list_all (\<lambda>u. Lamport 9 AGENT < u)
       (issued (clock_after (lamport_new LOCAL) ([Tick] @ [Observe (Lamport 9 AGENT)])) [Tick, Tick])"
  unfolding list_all_iff
  by (rule lamport_clock_causal) (simp add: lamport_new_def tick_def lamport_observe_def)

text \<open>The 64-bit key of a timestamp orders as the timestamp does, so the key is injective
  and can replace it.\<close>

theorem as_u64_order_embedding: "as_u64 a < as_u64 b \<longleftrightarrow> a < b"
  using replica_index_bound [of "ts_replica a"] replica_index_bound [of "ts_replica b"]
  by (auto simp: word_less_nat_alt unat_as_u64 less_lamport_def less_replica_id_def
      word_unat_eq_iff)

text \<open>\<open>most_recent\<close> is the greatest timestamp of the vector in the total order, replica ids
  breaking ties, and is absent only for the empty vector.\<close>

theorem most_recent_greatest:
  assumes "replica_vector g" and "g \<noteq> []"
  shows "most_recent g = Some (Max (set (global_iter g)))"
proof -
  from assms(2) have "global_iter g \<noteq> []" using length_global_iter [of g] by force
  then obtain t ts where iter: "global_iter g = t # ts" by (cases "global_iter g") auto
  then show ?thesis
    using max_by_value_max [of t ts] global_iter_sorted [OF replica_vector_ok [OF assms(1)]]
    by (simp add: most_recent_def Max.set_eq_fold del: set_simps)
qed

theorem most_recent_greatest_witness:
  "most_recent (global_observe global_new (Lamport 3 LOCAL)) =
   Some (Max (set (global_iter (global_observe global_new (Lamport 3 LOCAL)))))"
proof (rule most_recent_greatest)
  show "replica_vector (global_observe global_new (Lamport 3 LOCAL))"
    by (intro replica_vector.intros)
qed (simp add: global_observe_def global_new_def LOCAL_def resize_def)

end
