(* ===== verification/Locator.thy ===== *)
theory Locator
  imports Prelude "HOL-Library.List_Lexorder"
begin

text \<open>
  Dense position identifiers (\<open>text/src/locator.rs\<close>). A locator is its vector of 64-bit digits
  and the derived \<open>Ord\<close> is the lexicographic order of the library. \<open>between\<close> zips the digits of
  both sides, padded with 0 on the left and \<open>u64::MAX\<close> on the right, up to the first digit
  that grows.
\<close>

section \<open>The operations\<close>

type_synonym locator = "u64 list"

definition locator_min :: locator where "locator_min = [0]"

definition locator_max :: locator where "locator_max = [18446744073709551615]"

definition saturating_sub :: "u64 \<Rightarrow> u64 \<Rightarrow> u64" where
  "saturating_sub a b = (if b \<le> a then a - b else 0)"

definition mid_digit :: "u64 \<Rightarrow> u64 \<Rightarrow> u64" where
  "mid_digit lhs rhs = lhs + drop_bit 48 (saturating_sub rhs lhs)"

text \<open>The next digit of an iterator padded with a constant, and the iterator after it.\<close>

definition next_digit :: "u64 \<Rightarrow> locator \<Rightarrow> u64" where
  "next_digit pad ds = (case ds of [] \<Rightarrow> pad | d # _ \<Rightarrow> d)"

function between :: "locator \<Rightarrow> locator \<Rightarrow> locator" where
  "between lhs rhs =
     (let l = next_digit 0 lhs; mid = mid_digit l (next_digit 18446744073709551615 rhs)
      in mid # (if l < mid then [] else between (tl lhs) (tl rhs)))"
  by auto
termination
proof (relation "measure (\<lambda>(lhs, rhs). length lhs + length rhs)")
  fix lhs rhs :: locator and l mid
  assume "l = next_digit 0 lhs" "mid = mid_digit l (next_digit 18446744073709551615 rhs)"
    and "\<not> l < mid"
  then have "lhs \<noteq> [] \<or> rhs \<noteq> []"
    by (auto simp: next_digit_def mid_digit_def saturating_sub_def)
  then show "((tl lhs, tl rhs), lhs, rhs) \<in> measure (\<lambda>(lhs, rhs). length lhs + length rhs)"
    by (cases lhs; cases rhs) auto
qed simp

declare between.simps [simp del]

section \<open>Digits\<close>

lemma unat_mid_digit:
  assumes "l \<le> r"
  shows "unat (mid_digit l r) = unat l + (unat r - unat l) div 2 ^ 48"
proof -
  have "unat (r - l) = unat r - unat l"
    using assms by (simp add: unat_sub word_le_nat_alt)
  moreover have "unat l + (unat r - unat l) div 2 ^ 48 \<le> unat r"
    using assms div_le_dividend [of "unat r - unat l" "2 ^ 48"] unfolding word_le_nat_alt by linarith
  then have "unat l + (unat r - unat l) div 2 ^ 48 < 2 ^ 64"
    using unat_u64_less [of r] by linarith
  ultimately show ?thesis
    using assms
    by (simp add: mid_digit_def saturating_sub_def unat_word_ariths unsigned_drop_bit_eq
        drop_bit_eq_div take_bit_nat_eq_self)
qed

lemma mid_digit_ge: "l \<le> mid_digit l r"
proof (cases "l \<le> r")
  case True
  then show ?thesis by (simp add: word_le_nat_alt [of l "mid_digit l r"] unat_mid_digit)
qed (simp add: mid_digit_def saturating_sub_def)

lemma mid_digit_same [simp]: "mid_digit l l = l"
  by (simp add: mid_digit_def saturating_sub_def)

lemma mid_digit_less:
  assumes "l < r"
  shows "mid_digit l r < r"
proof -
  have lt: "unat l < unat r" using assms by (simp add: word_less_nat_alt)
  then have "(unat r - unat l) div 2 ^ 48 < unat r - unat l" by simp
  with lt have "unat l + (unat r - unat l) div 2 ^ 48 < unat r" by linarith
  then show ?thesis
    using unat_mid_digit [OF less_imp_le [OF assms]] by (simp add: word_less_nat_alt)
qed

lemma mid_digit_full: "0 < mid_digit 0 18446744073709551615"
  by (simp add: mid_digit_def saturating_sub_def)

lemma between_unfold:
  "between lhs rhs =
     mid_digit (next_digit 0 lhs) (next_digit 18446744073709551615 rhs)
       # (if next_digit 0 lhs < mid_digit (next_digit 0 lhs) (next_digit 18446744073709551615 rhs)
          then [] else between (tl lhs) (tl rhs))"
  by (subst between.simps) (simp add: Let_def)

lemma between_stop_or_copy:
  "\<not> l < mid_digit l r \<Longrightarrow> mid_digit l r = l"
  using mid_digit_ge [of l r] by auto

section \<open>Order\<close>

lemma between_greater: "lhs < between lhs rhs"
proof (induction lhs rhs rule: between.induct)
  case (1 lhs rhs)
  then show ?case
    by (subst between_unfold) (cases lhs; auto simp: next_digit_def Let_def dest: between_stop_or_copy)
qed

text \<open>The right side is not a copy of the left side followed by zeros when it ends in a digit
  other than 0: the last digit decides.\<close>

definition locator_ok :: "locator \<Rightarrow> bool" where
  "locator_ok l \<longleftrightarrow> l \<noteq> [] \<and> last l \<noteq> 0"

lemma between_less:
  "lhs < rhs \<Longrightarrow> locator_ok rhs \<Longrightarrow> between lhs rhs < rhs"
proof (induction lhs rhs rule: between.induct)
  case (1 lhs rhs)
  then obtain r rs where rhs: "rhs = r # rs" by (cases rhs) (auto simp: locator_ok_def)
  let ?l = "next_digit 0 lhs"
  have le: "?l \<le> r" using 1(2) rhs by (cases lhs) (auto simp: next_digit_def)
  show ?case
  proof (cases "?l = r")
    case False
    with le have "mid_digit ?l r < r" by (intro mid_digit_less) auto
    then show ?thesis by (subst between_unfold) (simp add: rhs next_digit_def)
  next
    case True
    have rs: "tl lhs < rs" and ok: "locator_ok rs"
      using 1(2,3) True rhs
      by (cases lhs; cases rs; auto simp: next_digit_def locator_ok_def)+
    then have "between (tl lhs) rs < rs" using 1(1) True rhs by (simp add: next_digit_def)
    then show ?thesis using True by (subst between_unfold) (simp add: rhs next_digit_def)
  qed
qed

lemma between_ok: "locator_ok (between lhs rhs)"
proof (induction lhs rhs rule: between.induct)
  case (1 lhs rhs)
  then show ?case
    by (subst between_unfold) (auto simp: locator_ok_def Let_def word_gt_0)
qed

lemma length_between: "length (between lhs rhs) \<le> max (length lhs) (length rhs) + 1"
proof (induction lhs rhs rule: between.induct)
  case (1 lhs rhs)
  show ?case
  proof (cases "lhs = [] \<and> rhs = []")
    case True
    then show ?thesis by (subst between_unfold) (simp add: next_digit_def mid_digit_full)
  next
    case False
    then have "max (length (tl lhs)) (length (tl rhs)) + 1 \<le> max (length lhs) (length rhs)"
      by (cases lhs; cases rhs) auto
    then show ?thesis
      by (subst between_unfold) (auto intro: order.trans [OF 1 [OF refl refl]])
  qed
qed

lemma locator_max_ok: "locator_ok locator_max"
  by (simp add: locator_ok_def locator_max_def)

section \<open>Sequential insertion\<close>

text \<open>Appending before \<open>max\<close> over and over, as buffer construction and typing do.\<close>

fun append_run :: "nat \<Rightarrow> locator" where
  "append_run 0 = locator_min"
| "append_run (Suc n) = between (append_run n) locator_max"

lemma append_run_depth_one:
  assumes "n * 65536 + 2 ^ 48 \<le> (2::nat) ^ 64"
  shows "\<exists>d. append_run n = [d] \<and> unat d \<le> n * 65536"
  using assms
proof (induction n)
  case (Suc n)
  then obtain d where d: "append_run n = [d]" "unat d \<le> n * 65536" by force
  let ?m = "mid_digit d 18446744073709551615"
  have m: "unat ?m = unat d + (18446744073709551615 - unat d) div 2 ^ 48"
    using unat_u64_less [of d] by (subst unat_mid_digit) (simp_all add: word_le_nat_alt)
  from Suc.prems d(2) have room: "2 ^ 48 \<le> 18446744073709551615 - unat d" by simp
  then have "unat d < unat ?m" unfolding m by (simp add: div_greater_zero_iff)
  moreover have "(18446744073709551615 - unat d) div 2 ^ 48 \<le> (65536 :: nat)" by simp
  then have "unat ?m \<le> Suc n * 65536" using d(2) unfolding m by simp
  ultimately show ?case
    using d by (simp add: between_unfold [of "[d]"] next_digit_def locator_max_def word_less_nat_alt)
qed (simp add: locator_min_def)

text \<open>The identifiers of the fragments of a buffer: \<open>max\<close> closes the sequence, and each insertion
  takes the identifier between two neighbours.\<close>

inductive fragment_ids :: "locator list \<Rightarrow> bool" where
  initial: "fragment_ids [locator_min, locator_max]"
| insert: "fragment_ids (xs @ [a, b] @ ys) \<Longrightarrow> fragment_ids (xs @ [a, between a b, b] @ ys)"

lemma fragment_ids_ok:
  "fragment_ids ls \<Longrightarrow> sorted_wrt (<) ls \<and> list_all locator_ok (tl ls) \<and> ls \<noteq> []"
proof (induction rule: fragment_ids.induct)
  case (insert xs a b ys)
  then have "a < b" by (simp add: sorted_wrt_append)
  moreover from insert have "locator_ok b" by (cases xs) auto
  ultimately have mid: "a < between a b" "between a b < b"
    by (simp_all add: between_greater between_less)
  then have "\<forall>x\<in>set xs. x < between a b" "\<forall>y\<in>set ys. between a b < y"
    using insert by (auto simp: sorted_wrt_append intro: less_trans)
  with insert mid show ?case
    by (cases xs) (auto simp: sorted_wrt_append between_ok)
qed (simp_all add: locator_min_def locator_max_def locator_ok_def)

section \<open>Properties\<close>

text \<open>C22. \<open>between\<close> is dense and total: for any two locators in order whose right one ends in a
  digit other than 0, as every locator but \<open>min\<close> does, it returns a locator strictly between
  them that again ends in a non-zero digit and is at most one digit longer than both.\<close>

theorem between_dense:
  assumes "lhs < rhs" and "locator_ok rhs"
  shows "lhs < between lhs rhs \<and> between lhs rhs < rhs \<and> locator_ok (between lhs rhs)
       \<and> length (between lhs rhs) \<le> max (length lhs) (length rhs) + 1"
  using assms by (simp add: between_greater between_less between_ok length_between del: One_nat_def)

theorem between_dense_witness:
  "[0] < between [0] [5] \<and> between [0] [5] < [5] \<and> locator_ok (between [0] [5])
     \<and> length (between [0] [5]) \<le> max (length [0 :: u64]) (length [5 :: u64]) + 1"
  by (rule between_dense) (simp_all add: locator_ok_def)

text \<open>The identifiers of a buffer's fragments stay strictly ordered through any sequence of
  insertions between neighbours.\<close>

theorem fragment_ids_strictly_ordered:
  assumes "fragment_ids ls"
  shows "sorted_wrt (<) ls"
  using fragment_ids_ok [OF assms] by blast

theorem fragment_ids_strictly_ordered_witness:
  "sorted_wrt (<) ([] @ [locator_min, between locator_min locator_max, locator_max] @ [])"
  by (rule fragment_ids_strictly_ordered, rule fragment_ids.insert) (simp add: fragment_ids.initial)

text \<open>Sequential appending stays at depth one: for at least the first 281,470,681,743,360
  appends, each new locator before \<open>max\<close> has a single digit.\<close>

theorem sequential_append_depth_one:
  assumes "n \<le> 281470681743360"
  shows "length (append_run n) = 1"
  using append_run_depth_one [of n] assms by auto

theorem sequential_append_depth_one_witness: "length (append_run 100000) = 1"
  by (rule sequential_append_depth_one) simp

end
