(* ===== verification/Patch.thy ===== *)
theory Patch
  imports Prelude
begin

text \<open>
  Patches between two versions of a text (\<open>text/src/patch.rs\<close>, with \<open>Edit\<close> of \<open>text.rs\<close>): lists
  of edits that replace a range of the old text by a range of the new one. Positions are natural
  numbers; every subtraction of the code is checked, so that an underflow, which panics or wraps
  in the program, makes the operation \<open>None\<close> in the model. \<open>covers\<close> says what a patch means: outside
  its edits the two texts agree.
\<close>

section \<open>Edits and patches\<close>

record edit =
  ed_old_start :: nat
  ed_old_end :: nat
  ed_new_start :: nat
  ed_new_end :: nat

type_synonym patch = "edit list"

definition mk_edit :: "nat \<Rightarrow> nat \<Rightarrow> nat \<Rightarrow> nat \<Rightarrow> edit" where
  "mk_edit os oe ns ne =
     \<lparr>ed_old_start = os, ed_old_end = oe, ed_new_start = ns, ed_new_end = ne\<rparr>"

definition edit_is_empty :: "edit \<Rightarrow> bool" where
  "edit_is_empty e \<longleftrightarrow> ed_old_start e = ed_old_end e \<and> ed_new_start e = ed_new_end e"

definition sub :: "nat \<Rightarrow> nat \<Rightarrow> nat option" where
  "sub a b = (if b \<le> a then Some (a - b) else None)"

definition old_len :: "edit \<Rightarrow> nat option" where
  "old_len e = sub (ed_old_end e) (ed_old_start e)"

definition new_len :: "edit \<Rightarrow> nat option" where
  "new_len e = sub (ed_new_end e) (ed_new_start e)"

definition push_maybe_empty :: "patch \<Rightarrow> edit \<Rightarrow> patch" where
  "push_maybe_empty edits e =
     (if edits = [] then [e]
      else
        let last_edit = last edits in
        if ed_old_end last_edit \<ge> ed_old_start e
        then butlast edits @ [last_edit\<lparr>ed_old_end := ed_old_end e, ed_new_end := ed_new_end e\<rparr>]
        else edits @ [e])"

definition push :: "patch \<Rightarrow> edit \<Rightarrow> patch" where
  "push edits e = (if edit_is_empty e then edits else push_maybe_empty edits e)"

definition invert :: "patch \<Rightarrow> patch" where
  "invert edits =
     map (\<lambda>e. mk_edit (ed_new_start e) (ed_new_end e) (ed_old_start e) (ed_old_end e)) edits"

section \<open>Composition\<close>

text \<open>The variables of the loop of \<open>compose\<close>: both positions, both iterators, the result.\<close>

record compose_state =
  cs_old_start :: nat
  cs_new_start :: nat
  cs_olds :: "edit list"
  cs_news :: "edit list"
  cs_composed :: patch

text \<open>The branch that pushes an old edit that ends before the next new edit.\<close>

definition push_old :: "compose_state \<Rightarrow> edit \<Rightarrow> compose_state option" where
  "push_old st p =
     Option.bind (sub (ed_old_start p) (cs_old_start st)) (\<lambda>catchup.
     Option.bind (old_len p) (\<lambda>ol. Option.bind (new_len p) (\<lambda>nl.
       let old_start = cs_old_start st + catchup; new_start = cs_new_start st + catchup;
           old_end = old_start + ol; new_end = new_start + nl
       in Some (st\<lparr>cs_old_start := old_end, cs_new_start := new_end, cs_olds := tl (cs_olds st),
            cs_composed := push (cs_composed st) (mk_edit old_start old_end new_start new_end)\<rparr>))))"

text \<open>The branch that pushes a new edit that ends before the next old edit.\<close>

definition push_new :: "compose_state \<Rightarrow> edit \<Rightarrow> compose_state option" where
  "push_new st q =
     Option.bind (sub (ed_new_start q) (cs_new_start st)) (\<lambda>catchup.
     Option.bind (old_len q) (\<lambda>ol. Option.bind (new_len q) (\<lambda>nl.
       let old_start = cs_old_start st + catchup; new_start = cs_new_start st + catchup;
           old_end = old_start + ol; new_end = new_start + nl
       in Some (st\<lparr>cs_old_start := old_end, cs_new_start := new_end, cs_news := tl (cs_news st),
            cs_composed := push (cs_composed st) (mk_edit old_start old_end new_start new_end)\<rparr>))))"

text \<open>Intersecting edits, first half: bring both edits to the same start.\<close>

definition align_edits ::
  "compose_state \<Rightarrow> edit \<Rightarrow> edit \<Rightarrow> (compose_state \<times> edit \<times> edit) option" where
  "align_edits st p q =
     (if ed_new_start p < ed_old_start q then
        Option.bind (sub (ed_old_start p) (cs_old_start st)) (\<lambda>catchup.
        Option.bind (sub (ed_old_start q) (ed_new_start p)) (\<lambda>overshoot.
        let old_start = cs_old_start st + catchup; new_start = cs_new_start st + catchup;
            old_end = min (old_start + overshoot) (ed_old_end p); new_end = new_start + overshoot
        in Some (st\<lparr>cs_old_start := old_end, cs_new_start := new_end,
               cs_composed := push (cs_composed st) (mk_edit old_start old_end new_start new_end)\<rparr>,
             p\<lparr>ed_old_start := old_end, ed_new_start := ed_new_start p + overshoot\<rparr>, q)))
      else
        Option.bind (sub (ed_new_start q) (cs_new_start st)) (\<lambda>catchup.
        Option.bind (sub (ed_new_start p) (ed_old_start q)) (\<lambda>overshoot.
        let old_start = cs_old_start st + catchup; new_start = cs_new_start st + catchup;
            old_end = old_start + overshoot; new_end = min (new_start + overshoot) (ed_new_end q)
        in Some (st\<lparr>cs_old_start := old_end, cs_new_start := new_end,
               cs_composed := push (cs_composed st) (mk_edit old_start old_end new_start new_end)\<rparr>,
             p, q\<lparr>ed_old_start := ed_old_start q + overshoot, ed_new_start := new_end\<rparr>))))"

text \<open>Second half: consume the edit that ends first, and the same part of the other one.\<close>

definition consume_edits :: "compose_state \<Rightarrow> edit \<Rightarrow> edit \<Rightarrow> compose_state option" where
  "consume_edits st p q =
     (if ed_new_end p > ed_old_end q then
        Option.bind (old_len p) (\<lambda>ool. Option.bind (old_len q) (\<lambda>nol.
        Option.bind (new_len q) (\<lambda>nnl.
        let old_end = cs_old_start st + min ool nol; new_end = cs_new_start st + nnl
        in Some (st\<lparr>cs_old_start := old_end, cs_new_start := new_end,
               cs_olds := p\<lparr>ed_old_start := old_end, ed_new_start := ed_old_end q\<rparr> # tl (cs_olds st),
               cs_news := tl (cs_news st),
               cs_composed := push (cs_composed st)
                 (mk_edit (cs_old_start st) old_end (cs_new_start st) new_end)\<rparr>))))
      else
        Option.bind (old_len p) (\<lambda>ool. Option.bind (new_len p) (\<lambda>onl.
        Option.bind (new_len q) (\<lambda>nnl.
        let old_end = cs_old_start st + ool; new_end = cs_new_start st + min onl nnl
        in Some (st\<lparr>cs_old_start := old_end, cs_new_start := new_end,
               cs_olds := tl (cs_olds st),
               cs_news := q\<lparr>ed_old_start := ed_new_end p, ed_new_start := new_end\<rparr> # tl (cs_news st),
               cs_composed := push (cs_composed st)
                 (mk_edit (cs_old_start st) old_end (cs_new_start st) new_end)\<rparr>)))))"

definition overlap :: "compose_state \<Rightarrow> edit \<Rightarrow> edit \<Rightarrow> compose_state option" where
  "overlap st p q =
     Option.bind (align_edits st p q) (\<lambda>(st, p, q). consume_edits st p q)"

text \<open>One round of the loop; \<open>None\<close> when both iterators are exhausted.\<close>

definition compose_round :: "compose_state \<Rightarrow> compose_state option option" where
  "compose_round st =
     (case (cs_olds st, cs_news st) of
        ([], []) \<Rightarrow> None
      | (p # _, []) \<Rightarrow> Some (push_old st p)
      | ([], q # _) \<Rightarrow> Some (push_new st q)
      | (p # _, q # _) \<Rightarrow>
          Some (if ed_new_end p < ed_old_start q then push_old st p
                else if ed_old_end q < ed_new_start p then push_new st q
                else overlap st p q))"

definition edits_left :: "compose_state \<Rightarrow> nat" where
  "edits_left st = length (cs_olds st) + length (cs_news st)"

lemma push_old_left: "push_old st p = Some st' \<Longrightarrow> cs_olds st \<noteq> [] \<Longrightarrow> edits_left st' < edits_left st"
  by (auto simp: push_old_def edits_left_def Let_def bind_eq_Some_conv)

lemma push_new_left: "push_new st q = Some st' \<Longrightarrow> cs_news st \<noteq> [] \<Longrightarrow> edits_left st' < edits_left st"
  by (auto simp: push_new_def edits_left_def Let_def bind_eq_Some_conv)

lemma overlap_left:
  assumes "overlap st p q = Some st'" "cs_olds st \<noteq> []" "cs_news st \<noteq> []"
  shows "edits_left st' < edits_left st"
  using assms
  by (cases "cs_olds st"; cases "cs_news st")
    (auto simp: overlap_def align_edits_def consume_edits_def edits_left_def Let_def
      bind_eq_Some_conv split: if_splits)

lemma compose_round_left:
  "compose_round st = Some (Some st') \<Longrightarrow> edits_left st' < edits_left st"
  by (auto simp: compose_round_def push_old_left push_new_left overlap_left
      split: list.splits if_splits)

function compose_loop :: "compose_state \<Rightarrow> patch option" where
  "compose_loop st =
     (case compose_round st of
        None \<Rightarrow> Some (cs_composed st)
      | Some None \<Rightarrow> None
      | Some (Some st') \<Rightarrow> compose_loop st')"
  by auto
termination
  by (relation "measure edits_left") (auto dest: compose_round_left)

declare compose_loop.simps [simp del]

definition compose :: "patch \<Rightarrow> edit list \<Rightarrow> patch option" where
  "compose self new_edits =
     compose_loop \<lparr>cs_old_start = 0, cs_new_start = 0, cs_olds = self, cs_news = new_edits,
       cs_composed = []\<rparr>"

section \<open>What a patch means\<close>

text \<open>The texts agree from one pair of positions up to another.\<close>

definition aligned :: "'a list \<Rightarrow> 'a list \<Rightarrow> nat \<Rightarrow> nat \<Rightarrow> nat \<Rightarrow> nat \<Rightarrow> bool" where
  "aligned a b i j i' j' \<longleftrightarrow>
     i \<le> i' \<and> i' \<le> length a \<and> j' \<le> length b \<and> j' = j + (i' - i)
     \<and> (\<forall>k < i' - i. a ! (i + k) = b ! (j + k))"

definition edit_in :: "'a list \<Rightarrow> 'a list \<Rightarrow> edit \<Rightarrow> bool" where
  "edit_in a b e \<longleftrightarrow>
     ed_old_start e \<le> ed_old_end e \<and> ed_old_end e \<le> length a
     \<and> ed_new_start e \<le> ed_new_end e \<and> ed_new_end e \<le> length b"

text \<open>Edits that lead from one pair of positions to another, the texts agreeing in between.\<close>

fun covers :: "'a list \<Rightarrow> 'a list \<Rightarrow> nat \<Rightarrow> nat \<Rightarrow> edit list \<Rightarrow> nat \<Rightarrow> nat \<Rightarrow> bool" where
  "covers a b i j [] i' j' = aligned a b i j i' j'"
| "covers a b i j (e # es) i' j' =
     (aligned a b i j (ed_old_start e) (ed_new_start e) \<and> edit_in a b e
      \<and> covers a b (ed_old_end e) (ed_new_end e) es i' j')"

text \<open>A patch leads from the whole old text to the whole new text.\<close>

definition leads :: "'a list \<Rightarrow> patch \<Rightarrow> 'a list \<Rightarrow> bool" where
  "leads a edits b \<longleftrightarrow> covers a b 0 0 edits (length a) (length b)"

lemma aligned_refl [simp]: "aligned a b i j i j \<longleftrightarrow> i \<le> length a \<and> j \<le> length b"
  by (auto simp: aligned_def)

lemma aligned_bounds:
  "aligned a b i j i' j' \<Longrightarrow> i \<le> i' \<and> j \<le> j' \<and> i' \<le> length a \<and> j' \<le> length b \<and> j' - j = i' - i"
  by (auto simp: aligned_def)

lemma aligned_append:
  assumes "aligned a b i j i' j'" "aligned a b i' j' i'' j''"
  shows "aligned a b i j i'' j''"
proof -
  have "a ! (i + k) = b ! (j + k)" if "k < i'' - i" for k
  proof (cases "k < i' - i")
    case False
    with assms that have "k - (i' - i) < i'' - i'" "i' + (k - (i' - i)) = i + k"
        "j' + (k - (i' - i)) = j + k"
      by (auto simp: aligned_def)
    with assms(2) show ?thesis unfolding aligned_def by metis
  qed (use assms(1) in \<open>simp add: aligned_def\<close>)
  with assms show ?thesis by (auto simp: aligned_def)
qed

lemma aligned_split:
  assumes "aligned a b i j i' j'" and "d \<le> i' - i"
  shows "aligned a b i j (i + d) (j + d)" and "aligned a b (i + d) (j + d) i' j'"
proof -
  show "aligned a b i j (i + d) (j + d)" using assms by (auto simp: aligned_def)
  have "a ! (i + d + k) = b ! (j + d + k)" if "k < i' - (i + d)" for k
  proof -
    from that have "d + k < i' - i" by simp
    with assms(1) have "a ! (i + (d + k)) = b ! (j + (d + k))" unfolding aligned_def by blast
    then show ?thesis by (simp add: add.assoc)
  qed
  with assms show "aligned a b (i + d) (j + d) i' j'" by (auto simp: aligned_def)
qed

lemma aligned_trans:
  "\<lbrakk>aligned a b i m i' m'; aligned b c m n m' n'\<rbrakk> \<Longrightarrow> aligned a c i n i' n'"
  by (auto simp: aligned_def)

lemma covers_bounds:
  "covers a b i j es i' j' \<Longrightarrow> i \<le> i' \<and> j \<le> j' \<and> i' \<le> length a \<and> j' \<le> length b"
  by (induction es arbitrary: i j) (fastforce simp: edit_in_def dest: aligned_bounds)+

text \<open>Moving the start forward inside the part before the first edit.\<close>

definition free_until :: "edit list \<Rightarrow> nat \<Rightarrow> nat \<Rightarrow> bool" where
  "free_until es end_pos x \<longleftrightarrow> (case es of [] \<Rightarrow> x \<le> end_pos | e # _ \<Rightarrow> x \<le> ed_old_start e)"

definition free_until_new :: "edit list \<Rightarrow> nat \<Rightarrow> nat \<Rightarrow> bool" where
  "free_until_new es end_pos x \<longleftrightarrow> (case es of [] \<Rightarrow> x \<le> end_pos | e # _ \<Rightarrow> x \<le> ed_new_start e)"

lemma covers_split:
  assumes "covers a b i j es i' j'" and "free_until es i' (i + d)"
  shows "aligned a b i j (i + d) (j + d)" and "covers a b (i + d) (j + d) es i' j'"
proof -
  obtain x y where xy: "aligned a b i j x y" "i + d \<le> x"
      and x: "x = (case es of [] \<Rightarrow> i' | e # _ \<Rightarrow> ed_old_start e)"
        "y = (case es of [] \<Rightarrow> j' | e # _ \<Rightarrow> ed_new_start e)"
    using assms by (cases es) (auto simp: free_until_def)
  from xy(2) have "d \<le> x - i" by simp
  note parts = aligned_split [OF xy(1) this]
  show "aligned a b i j (i + d) (j + d)" by (rule parts(1))
  from parts(2) assms(1) x show "covers a b (i + d) (j + d) es i' j'" by (cases es) auto
qed

lemma free_until_new_iff:
  assumes "covers a b i j es i' j'"
  shows "free_until_new es j' (j + d) \<longleftrightarrow> free_until es i' (i + d)"
  using assms by (cases es) (auto simp: free_until_def free_until_new_def dest: aligned_bounds)

text \<open>The last edit of a list.\<close>

lemma covers_snoc:
  "covers a b i j (es @ [e]) i' j' \<longleftrightarrow>
     covers a b i j es (ed_old_start e) (ed_new_start e) \<and> edit_in a b e
     \<and> aligned a b (ed_old_end e) (ed_new_end e) i' j'"
  by (induction es arbitrary: i j) auto

lemma covers_extend:
  "\<lbrakk>covers a b i j es i' j'; aligned a b i' j' i'' j''\<rbrakk> \<Longrightarrow> covers a b i j es i'' j''"
  by (induction es arbitrary: i j) (auto intro: aligned_append)

text \<open>\<open>push\<close> of an edit that starts where the patch has arrived, or later after agreeing text.\<close>

lemma covers_push:
  assumes "covers a c i0 j0 es i j" and "aligned a c i j os ns"
    and "os \<le> oe" "oe \<le> length a" "ns \<le> ne" "ne \<le> length c"
  shows "covers a c i0 j0 (push es (mk_edit os oe ns ne)) oe ne"
proof (cases "edit_is_empty (mk_edit os oe ns ne)")
  case True
  then have "oe = os" "ne = ns" by (simp_all add: edit_is_empty_def mk_edit_def)
  with covers_extend [OF assms(1,2)] True show ?thesis by (simp add: push_def)
next
  case False
  have arrived: "covers a c i0 j0 es os ns" by (rule covers_extend [OF assms(1,2)])
  show ?thesis
  proof (cases es rule: rev_cases)
    case Nil
    with arrived False assms show ?thesis
      by (simp add: push_def push_maybe_empty_def) (simp add: mk_edit_def edit_in_def)
  next
    case (snoc fs l)
    with arrived have l: "covers a c i0 j0 fs (ed_old_start l) (ed_new_start l)" "edit_in a c l"
        "aligned a c (ed_old_end l) (ed_new_end l) os ns"
      by (simp_all add: covers_snoc)
    show ?thesis
    proof (cases "os \<le> ed_old_end l")
      case True
      with l(3) have "os = ed_old_end l" "ns = ed_new_end l" by (auto simp: aligned_def)
      with l assms(3-6) False snoc show ?thesis
        by (simp add: push_def push_maybe_empty_def covers_snoc)
          (simp add: mk_edit_def covers_snoc edit_in_def)
    next
      case False': False
      with arrived assms(3-6) False snoc show ?thesis
        by (simp add: push_def push_maybe_empty_def)
          (simp add: mk_edit_def covers_snoc [of _ _ _ _ "fs @ [l]", simplified] edit_in_def)
    qed
  qed
qed

section \<open>Composition is correct\<close>

text \<open>The invariant of the loop: from some position of the middle text on, the edits left lead to
  the ends of the texts, and the composed edits lead to the positions reached.\<close>

definition composing :: "'a list \<Rightarrow> 'a list \<Rightarrow> 'a list \<Rightarrow> nat \<Rightarrow> compose_state \<Rightarrow> bool" where
  "composing a b c m st \<longleftrightarrow>
     covers a b (cs_old_start st) m (cs_olds st) (length a) (length b)
     \<and> covers b c m (cs_new_start st) (cs_news st) (length b) (length c)
     \<and> covers a c 0 0 (cs_composed st) (cs_old_start st) (cs_new_start st)"

text \<open>The next edit, as offsets from the positions reached.\<close>

lemma covers_Cons_offsets:
  assumes "covers a b i j (e # es) i' j'"
  obtains d x y where "ed_old_start e = i + d" "ed_new_start e = j + d"
    "ed_old_end e = i + d + x" "ed_new_end e = j + d + y"
    "aligned a b i j (i + d) (j + d)" "i + d + x \<le> length a" "j + d + y \<le> length b"
    "covers a b (i + d + x) (j + d + y) es i' j'"
proof -
  from assms have al: "aligned a b i j (ed_old_start e) (ed_new_start e)" and "edit_in a b e"
      and rest: "covers a b (ed_old_end e) (ed_new_end e) es i' j'"
    by simp_all
  from al obtain d where d: "ed_old_start e = i + d" "ed_new_start e = j + d"
    unfolding aligned_def by (metis le_add_diff_inverse)
  from \<open>edit_in a b e\<close> d obtain x y where "ed_old_end e = i + d + x" "ed_new_end e = j + d + y"
    unfolding edit_in_def by (metis le_Suc_ex)
  with that [of d x y] al rest d \<open>edit_in a b e\<close> show thesis by (simp add: edit_in_def)
qed

lemma push_old_composing:
  assumes inv: "composing a b c m st" and olds: "cs_olds st = p # ps"
    and free: "free_until (cs_news st) (length b) (ed_new_end p)"
  shows "\<exists>st' m'. push_old st p = Some st' \<and> composing a b c m' st'"
proof -
  let ?i = "cs_old_start st" and ?j = "cs_new_start st"
  from inv olds have "covers a b ?i m (p # ps) (length a) (length b)"
      and news: "covers b c m ?j (cs_news st) (length b) (length c)"
      and composed: "covers a c 0 0 (cs_composed st) ?i ?j"
    by (simp_all add: composing_def)
  from covers_Cons_offsets [OF this(1)] obtain d x y where
    p: "ed_old_start p = ?i + d" "ed_new_start p = m + d"
      "ed_old_end p = ?i + d + x" "ed_new_end p = m + d + y"
      "aligned a b ?i m (?i + d) (m + d)" "?i + d + x \<le> length a"
      "covers a b (?i + d + x) (m + d + y) ps (length a) (length b)"
    by metis
  from free p(4) have f: "free_until (cs_news st) (length b) (m + (d + y))"
      "free_until (cs_news st) (length b) (m + d)"
    by (auto simp: free_until_def split: list.splits)
  have rest: "covers b c (m + d + y) (?j + d + y) (cs_news st) (length b) (length c)"
    using covers_split(2) [OF news f(1)] by (simp add: add.assoc)
  have "aligned a c ?i ?j (?i + d) (?j + d)"
    by (rule aligned_trans [OF p(5) covers_split(1) [OF news f(2)]])
  with covers_push [OF composed this, of "?i + d + x" "?j + d + y"] p(6) covers_bounds [OF rest]
  have "covers a c 0 0 (push (cs_composed st) (mk_edit (?i + d) (?i + d + x) (?j + d) (?j + d + y)))
      (?i + d + x) (?j + d + y)"
    by simp
  with p rest olds show ?thesis
    by (auto simp: push_old_def sub_def old_len_def new_len_def composing_def Let_def
        intro!: exI [of _ "m + d + y"])
qed

lemma push_new_composing:
  assumes inv: "composing a b c m st" and news: "cs_news st = q # qs"
    and free: "free_until_new (cs_olds st) (length b) (ed_old_end q)"
  shows "\<exists>st' m'. push_new st q = Some st' \<and> composing a b c m' st'"
proof -
  let ?i = "cs_old_start st" and ?j = "cs_new_start st"
  from inv news have "covers b c m ?j (q # qs) (length b) (length c)"
      and olds: "covers a b ?i m (cs_olds st) (length a) (length b)"
      and composed: "covers a c 0 0 (cs_composed st) ?i ?j"
    by (simp_all add: composing_def)
  from covers_Cons_offsets [OF this(1)] obtain d x y where
    q: "ed_old_start q = m + d" "ed_new_start q = ?j + d"
      "ed_old_end q = m + d + x" "ed_new_end q = ?j + d + y"
      "aligned b c m ?j (m + d) (?j + d)" "?j + d + y \<le> length c"
      "covers b c (m + d + x) (?j + d + y) qs (length b) (length c)"
    by metis
  from free q(3) have "free_until_new (cs_olds st) (length b) (m + (d + x))"
      "free_until_new (cs_olds st) (length b) (m + d)"
    by (auto simp: free_until_new_def split: list.splits)
  then have f: "free_until (cs_olds st) (length a) (?i + (d + x))"
      "free_until (cs_olds st) (length a) (?i + d)"
    using free_until_new_iff [OF olds] by simp_all
  have rest: "covers a b (?i + d + x) (m + d + x) (cs_olds st) (length a) (length b)"
    using covers_split(2) [OF olds f(1)] by (simp add: add.assoc)
  have "aligned a c ?i ?j (?i + d) (?j + d)"
    by (rule aligned_trans [OF covers_split(1) [OF olds f(2)] q(5)])
  with covers_push [OF composed this, of "?i + d + x" "?j + d + y"] q(6) covers_bounds [OF rest]
  have "covers a c 0 0 (push (cs_composed st) (mk_edit (?i + d) (?i + d + x) (?j + d) (?j + d + y)))
      (?i + d + x) (?j + d + y)"
    by simp
  with q rest news show ?thesis
    by (auto simp: push_new_def sub_def old_len_def new_len_def composing_def Let_def
        intro!: exI [of _ "m + d + x"])
qed

text \<open>Two intersecting edits after they were aligned: both start at the positions reached.\<close>

definition meeting ::
  "'a list \<Rightarrow> 'a list \<Rightarrow> 'a list \<Rightarrow> nat \<Rightarrow> compose_state \<Rightarrow> edit \<Rightarrow> edit \<Rightarrow> bool" where
  "meeting a b c m st p q \<longleftrightarrow>
     ed_old_start p = cs_old_start st \<and> ed_new_start p = m
     \<and> ed_old_start q = m \<and> ed_new_start q = cs_new_start st
     \<and> composing a b c m (st\<lparr>cs_olds := p # tl (cs_olds st), cs_news := q # tl (cs_news st)\<rparr>)"

lemma consume_edits_composing:
  assumes meet: "meeting a b c m st p q"
  shows "\<exists>st' m'. consume_edits st p q = Some st' \<and> composing a b c m' st'"
proof -
  let ?i = "cs_old_start st" and ?j = "cs_new_start st"
  from meet have start: "ed_old_start p = ?i" "ed_new_start p = m" "ed_old_start q = m"
      "ed_new_start q = ?j"
      and pin: "edit_in a b p" and qin: "edit_in b c q"
      and ps: "covers a b (ed_old_end p) (ed_new_end p) (tl (cs_olds st)) (length a) (length b)"
      and qs: "covers b c (ed_old_end q) (ed_new_end q) (tl (cs_news st)) (length b) (length c)"
      and composed: "covers a c 0 0 (cs_composed st) ?i ?j"
    by (simp_all add: meeting_def composing_def)
  from pin qin start obtain x y x' y' where
    ends: "ed_old_end p = ?i + x" "ed_new_end p = m + y" "ed_old_end q = m + x'" "ed_new_end q = ?j + y'"
    unfolding edit_in_def by (metis le_Suc_ex)
  have here: "aligned a c ?i ?j ?i ?j" using covers_bounds [OF composed] by simp
  note pushed = covers_push [OF composed here]
  show ?thesis
  proof (cases "ed_new_end p > ed_old_end q")
    case True
    have "covers a c 0 0 (push (cs_composed st) (mk_edit ?i (?i + min x x') ?j (?j + y')))
        (?i + min x x') (?j + y')"
      by (rule pushed) (use pin qin ends in \<open>simp_all add: edit_in_def min_def\<close>)
    with True start ends pin qin ps qs show ?thesis
      by (auto simp: consume_edits_def sub_def old_len_def new_len_def composing_def Let_def
          edit_in_def intro!: exI [of _ "m + x'"])
  next
    case False
    have "covers a c 0 0 (push (cs_composed st) (mk_edit ?i (?i + x) ?j (?j + min y y')))
        (?i + x) (?j + min y y')"
      by (rule pushed) (use pin qin ends in \<open>simp_all add: edit_in_def min_def\<close>)
    with False start ends pin qin ps qs show ?thesis
      by (auto simp: consume_edits_def sub_def old_len_def new_len_def composing_def Let_def
          edit_in_def intro!: exI [of _ "m + y"])
  qed
qed

lemma align_edits_meeting:
  assumes inv: "composing a b c m st" and olds: "cs_olds st = p # ps" and news: "cs_news st = q # qs"
    and meet: "ed_old_start q \<le> ed_new_end p" "ed_new_start p \<le> ed_old_end q"
  shows "\<exists>st' p' q' m'. align_edits st p q = Some (st', p', q') \<and> meeting a b c m' st' p' q'"
proof -
  let ?i = "cs_old_start st" and ?j = "cs_new_start st"
  from inv olds news have pc: "covers a b ?i m (p # ps) (length a) (length b)"
      and qc: "covers b c m ?j (q # qs) (length b) (length c)"
      and composed: "covers a c 0 0 (cs_composed st) ?i ?j"
    by (simp_all add: composing_def)
  from covers_Cons_offsets [OF pc] obtain d x y where
    p: "ed_old_start p = ?i + d" "ed_new_start p = m + d" "ed_old_end p = ?i + d + x"
      "ed_new_end p = m + d + y" "aligned a b ?i m (?i + d) (m + d)"
      "?i + d + x \<le> length a" "m + d + y \<le> length b"
      "covers a b (?i + d + x) (m + d + y) ps (length a) (length b)"
    by metis
  from covers_Cons_offsets [OF qc] obtain e x' y' where
    q: "ed_old_start q = m + e" "ed_new_start q = ?j + e" "ed_old_end q = m + e + x'"
      "ed_new_end q = ?j + e + y'" "aligned b c m ?j (m + e) (?j + e)"
      "m + e + x' \<le> length b" "?j + e + y' \<le> length c"
      "covers b c (m + e + x') (?j + e + y') qs (length b) (length c)"
    by metis
  have reach: "aligned a c ?i ?j (?i + min d e) (?j + min d e)"
    by (rule aligned_trans [of _ _ _ m _ "m + min d e"])
      (use aligned_split(1) [OF p(5), of "min d e"] aligned_split(1) [OF q(5), of "min d e"] in simp_all)
  note pushed = covers_push [OF composed reach]
  show ?thesis
  proof (cases "d < e")
    case True
    then have "min d e = d" by simp
    have "covers a c 0 0 (push (cs_composed st)
        (mk_edit (?i + d) (min (?i + d + (e - d)) (?i + d + x)) (?j + d) (?j + e)))
        (min (?i + d + (e - d)) (?i + d + x)) (?j + e)"
      by (rule pushed [unfolded \<open>min d e = d\<close>]) (use True p(6) q(7) in \<open>simp_all add: min_def\<close>)
    with True p q olds news meet show ?thesis
      by (auto simp: align_edits_def sub_def Let_def meeting_def composing_def edit_in_def
          intro!: exI [of _ "m + e"])
  next
    case False
    then have "min d e = e" by simp
    have "covers a c 0 0 (push (cs_composed st)
        (mk_edit (?i + e) (?i + d) (?j + e) (min (?j + e + (d - e)) (?j + e + y'))))
        (?i + d) (min (?j + e + (d - e)) (?j + e + y'))"
      by (rule pushed [unfolded \<open>min d e = e\<close>]) (use False p(6) q(7) in \<open>simp_all add: min_def\<close>)
    with False p q olds news meet show ?thesis
      by (auto simp: align_edits_def sub_def Let_def meeting_def composing_def edit_in_def
          intro!: exI [of _ "m + d"])
  qed
qed

lemma compose_round_composing:
  assumes inv: "composing a b c m st" and round: "compose_round st = Some next"
  shows "\<exists>st' m'. next = Some st' \<and> composing a b c m' st'"
proof -
  have bounds: "m \<le> length b" "covers a b (cs_old_start st) m (cs_olds st) (length a) (length b)"
      "covers b c m (cs_new_start st) (cs_news st) (length b) (length c)"
    using inv covers_bounds unfolding composing_def by blast+
  show ?thesis
  proof (cases "cs_olds st")
    case Nil
    with round obtain q qs where "cs_news st = q # qs" "next = push_new st q"
      by (auto simp: compose_round_def split: list.splits)
    with push_new_composing [OF inv] bounds Nil show ?thesis
      by (auto simp: free_until_new_def edit_in_def)
  next
    case (Cons p ps)
    note olds = this
    show ?thesis
    proof (cases "cs_news st")
      case Nil
      with push_old_composing [OF inv olds] bounds olds round show ?thesis
        by (auto simp: compose_round_def free_until_def edit_in_def)
    next
      case (Cons q qs)
      with round olds consider "ed_new_end p < ed_old_start q" "next = push_old st p"
        | "ed_old_end q < ed_new_start p" "next = push_new st q"
        | "ed_old_start q \<le> ed_new_end p" "ed_new_start p \<le> ed_old_end q" "next = overlap st p q"
        by (auto simp: compose_round_def split: if_splits)
      then show ?thesis
      proof cases
        case 1
        with push_old_composing [OF inv olds] Cons show ?thesis by (simp add: free_until_def)
      next
        case 2
        with push_new_composing [OF inv Cons] olds show ?thesis by (simp add: free_until_new_def)
      next
        case 3
        from align_edits_meeting [OF inv olds Cons 3(1,2)] consume_edits_composing 3(3)
        show ?thesis by (fastforce simp: overlap_def)
      qed
    qed
  qed
qed

lemma compose_round_done:
  "\<lbrakk>composing a b c m st; compose_round st = None\<rbrakk> \<Longrightarrow>
     covers a c 0 0 (cs_composed st) (length a) (length c)"
  by (auto simp: composing_def compose_round_def split: list.splits
      intro: covers_extend aligned_trans)

text \<open>What \<open>Patch::new\<close> asserts of its edits: a gap between neighbours on both sides.\<close>

fun separated :: "edit list \<Rightarrow> bool" where
  "separated (e # f # es) \<longleftrightarrow>
     ed_old_start f > ed_old_end e \<and> ed_new_start f > ed_new_end e \<and> separated (f # es)"
| "separated _ \<longleftrightarrow> True"

definition patch_new :: "edit list \<Rightarrow> patch option" where
  "patch_new edits = (if separated edits then Some edits else None)"

lemma separated_snoc:
  "separated (es @ [e]) \<longleftrightarrow>
     separated es \<and> (es \<noteq> [] \<longrightarrow> ed_old_end (last es) < ed_old_start e
       \<and> ed_new_end (last es) < ed_new_start e)"
  by (induction es rule: separated.induct) auto

fun old_separated :: "edit list \<Rightarrow> bool" where
  "old_separated (e # f # es) \<longleftrightarrow> ed_old_start f > ed_old_end e \<and> old_separated (f # es)"
| "old_separated _ \<longleftrightarrow> True"

lemma old_separated_snoc:
  "old_separated (es @ [e]) \<longleftrightarrow>
     old_separated es \<and> (es \<noteq> [] \<longrightarrow> ed_old_end (last es) < ed_old_start e)"
  by (induction es rule: old_separated.induct) auto

lemma old_separated_push: "old_separated es \<Longrightarrow> old_separated (push es e)"
  by (cases es rule: rev_cases)
    (auto simp: push_def push_maybe_empty_def old_separated_snoc Let_def
      old_separated_snoc [of "_ @ [_]", simplified])

lemma old_separated_separated:
  "\<lbrakk>covers a b i j es i' j'; old_separated es\<rbrakk> \<Longrightarrow> separated es"
  by (induction es arbitrary: i j rule: old_separated.induct) (auto dest: aligned_bounds)

lemma compose_round_separated:
  assumes "compose_round st = Some (Some st')" "old_separated (cs_composed st)"
  shows "old_separated (cs_composed st')"
  using assms
  by (auto simp: compose_round_def push_old_def push_new_def overlap_def align_edits_def
      consume_edits_def Let_def bind_eq_Some_conv split: list.splits if_splits
      intro!: old_separated_push)

lemma compose_loop_correct:
  "\<lbrakk>composing a b c m st; old_separated (cs_composed st)\<rbrakk> \<Longrightarrow>
     \<exists>r. compose_loop st = Some r \<and> leads a r c \<and> old_separated r"
proof (induction st arbitrary: m rule: compose_loop.induct)
  case (1 st)
  show ?case
  proof (cases "compose_round st")
    case None
    with compose_round_done [OF 1(2)] 1(3) show ?thesis
      by (simp add: compose_loop.simps leads_def)
  next
    case (Some "next")
    with compose_round_composing [OF 1(2)] obtain st' m' where
      st': "next = Some st'" "composing a b c m' st'" by blast
    with Some 1 compose_round_separated [of st st'] show ?thesis
      by (subst compose_loop.simps) simp
  qed
qed

lemma compose_leads:
  assumes "leads a p b" "leads b q c"
  shows "\<exists>r. compose p q = Some r \<and> leads a r c \<and> patch_new r = Some r"
proof -
  have "composing a b c 0 \<lparr>cs_old_start = 0, cs_new_start = 0, cs_olds = p, cs_news = q,
      cs_composed = []\<rparr>"
    using assms by (simp add: composing_def leads_def)
  from compose_loop_correct [OF this] show ?thesis
    by (auto simp: compose_def patch_new_def leads_def dest: old_separated_separated)
qed

section \<open>Inversion and position mapping\<close>

lemma aligned_sym: "aligned a b i j i' j' \<Longrightarrow> aligned b a j i j' i'"
  by (auto simp: aligned_def)

lemma covers_invert: "covers a b i j es i' j' \<Longrightarrow> covers b a j i (invert es) j' i'"
  by (induction es arbitrary: i j)
    (auto simp: invert_def mk_edit_def edit_in_def dest: aligned_sym)

lemma separated_invert: "separated es \<Longrightarrow> separated (invert es)"
  by (induction es rule: separated.induct) (auto simp: invert_def mk_edit_def)

text \<open>The contract of \<open>binary_search_by\<close> on the starts of the edits, which are distinct: the index of
  the edit that starts at the position, or else the index where it would be inserted.\<close>

definition search_start :: "patch \<Rightarrow> nat \<Rightarrow> nat + nat" where
  "search_start edits old =
     (let ix = length (takeWhile (\<lambda>e. ed_old_start e < old) edits) in
      if ix < length edits \<and> ed_old_start (edits ! ix) = old then Inr ix else Inl ix)"

definition preceding_index :: "patch \<Rightarrow> nat \<Rightarrow> nat option" where
  "preceding_index edits old =
     (case search_start edits old of
        Inr ix \<Rightarrow> Some ix
      | Inl ix \<Rightarrow> if ix = 0 then None else Some (ix - 1))"

definition old_to_new :: "patch \<Rightarrow> nat \<Rightarrow> nat" where
  "old_to_new edits old =
     (case preceding_index edits old of
        None \<Rightarrow> old
      | Some ix \<Rightarrow>
          if ix < length edits then
            let e = edits ! ix in
            if old \<ge> ed_old_end e then ed_new_end e + (old - ed_old_end e) else ed_new_start e
          else old)"

definition edit_for_old_position :: "patch \<Rightarrow> nat \<Rightarrow> edit" where
  "edit_for_old_position edits old =
     (case preceding_index edits old of
        None \<Rightarrow> mk_edit old old old old
      | Some ix \<Rightarrow>
          if ix < length edits then
            let e = edits ! ix in
            if old > ed_old_end e then
              let translated = ed_new_end e + (old - ed_old_end e)
              in mk_edit old old translated translated
            else e
          else mk_edit old old old old)"

lemma preceding_index_None:
  assumes "preceding_index edits old = None"
  shows "edits = [] \<or> old < ed_old_start (hd edits)"
  using assms
  by (cases edits) (auto simp: preceding_index_def search_start_def Let_def split: if_splits)

lemma covers_mid:
  "covers a b i j (gs @ e # fs) i' j' \<longleftrightarrow>
     covers a b i j gs (ed_old_start e) (ed_new_start e) \<and> edit_in a b e
     \<and> covers a b (ed_old_end e) (ed_new_end e) fs i' j'"
  by (induction gs arbitrary: i j) auto

lemma separated_mid: "separated (gs @ e # f # fs) \<Longrightarrow> ed_old_end e < ed_old_start f"
  by (induction gs rule: separated.induct) auto

lemma preceding_index_Some:
  assumes "preceding_index edits old = Some ix" and "separated edits"
    and "\<forall>e \<in> set edits. ed_old_start e \<le> ed_old_end e"
  obtains gs e fs where "edits = gs @ e # fs" "ix = length gs" "ed_old_start e \<le> old"
    "fs \<noteq> [] \<Longrightarrow> old < ed_old_start (hd fs)"
proof -
  let ?less = "\<lambda>e. ed_old_start e < old"
  let ?t = "takeWhile ?less edits" and ?d = "dropWhile ?less edits"
  have split: "edits = ?t @ ?d" by simp
  show thesis
  proof (cases "?d \<noteq> [] \<and> ed_old_start (hd ?d) = old")
    case True
    then obtain f fs where d: "?d = f # fs" "ed_old_start f = old" by (cases ?d) auto
    with split have edits: "edits = ?t @ f # fs" by metis
    then have "edits ! length ?t = f" "length ?t < length edits"
      by (metis nth_append_length, metis length_append length_Cons less_add_same_cancel1 zero_less_Suc)
    with assms(1) d(2) have "ix = length ?t"
      by (simp add: preceding_index_def search_start_def Let_def)
    moreover have "old < ed_old_start (hd fs)" if ne: "fs \<noteq> []"
    proof -
      obtain g gs where "fs = g # gs" using ne by (cases fs) auto
      with edits assms(2) have "ed_old_end f < ed_old_start g" using separated_mid by metis
      moreover from edits assms(3) have "ed_old_start f \<le> ed_old_end f"
        by (metis in_set_conv_decomp)
      ultimately show ?thesis using d(2) \<open>fs = g # gs\<close> by simp
    qed
    ultimately show thesis using that edits d(2) by blast
  next
    case False
    have "\<not> (length ?t < length edits \<and> ed_old_start (edits ! length ?t) = old)"
    proof
      assume len: "length ?t < length edits \<and> ed_old_start (edits ! length ?t) = old"
      then have "?d = edits ! length ?t # drop (Suc (length ?t)) edits"
        by (metis Cons_nth_drop_Suc dropWhile_eq_drop)
      with False len show False by (metis list.sel(1) list.distinct(1))
    qed
    with assms(1) have ix: "?t \<noteq> []" "ix = length ?t - 1"
      by (auto simp: preceding_index_def search_start_def Let_def split: if_splits)
    then obtain gs e where t: "?t = gs @ [e]" by (metis rev_exhaust)
    then have "ed_old_start e < old" by (metis in_set_conv_decomp set_takeWhileD)
    moreover have "old < ed_old_start (hd ?d)" if "?d \<noteq> []"
      using hd_dropWhile [OF that] False that by linarith
    moreover from split t have "edits = gs @ e # ?d"
      by (metis append.assoc append_Cons append_Nil)
    ultimately show thesis using that [of gs e ?d] ix t by simp
  qed
qed

lemma covers_edit_in: "\<lbrakk>covers a b i j es i' j'; e \<in> set es\<rbrakk> \<Longrightarrow> edit_in a b e"
  by (auto simp: in_set_conv_decomp covers_mid)

lemma aligned_nth:
  "\<lbrakk>aligned a b i j i' j'; i \<le> x; x < i'\<rbrakk> \<Longrightarrow> j + (x - i) < length b \<and> b ! (j + (x - i)) = a ! x"
  unfolding aligned_def by (metis (no_types) add.commute add_less_cancel_left diff_less_mono
      le_add_diff_inverse order_less_le_trans)

lemma covers_hd_nth:
  assumes "covers a b i j es (length a) (length b)" and "i \<le> x" "x < length a"
    and "es \<noteq> [] \<Longrightarrow> x < ed_old_start (hd es)"
  shows "j + (x - i) < length b \<and> b ! (j + (x - i)) = a ! x"
  using assms aligned_nth [of a b i j _ _ x] by (cases es) auto

lemma old_to_new_unchanged:
  assumes leads: "leads a p b" and sep: "separated p" and x: "x < length a"
    and outside: "\<forall>e \<in> set p. \<not> (ed_old_start e \<le> x \<and> x < ed_old_end e)"
  shows "old_to_new p x < length b \<and> b ! old_to_new p x = a ! x"
proof (cases "preceding_index p x")
  case None
  with covers_hd_nth [of a b 0 0 p x] leads x preceding_index_None [OF None]
  show ?thesis by (auto simp: old_to_new_def leads_def)
next
  case (Some ix)
  have "\<forall>e \<in> set p. ed_old_start e \<le> ed_old_end e"
    using leads by (auto simp: leads_def edit_in_def dest: covers_edit_in)
  from preceding_index_Some [OF Some sep this] obtain gs e fs where
    p: "p = gs @ e # fs" "ix = length gs" "ed_old_start e \<le> x" "fs \<noteq> [] \<Longrightarrow> x < ed_old_start (hd fs)"
    by metis
  from leads p(1) have "covers a b (ed_old_end e) (ed_new_end e) fs (length a) (length b)"
    by (simp add: leads_def covers_mid)
  moreover from outside p(1,3) have "ed_old_end e \<le> x" by force
  ultimately show ?thesis
    using covers_hd_nth [of a b "ed_old_end e" "ed_new_end e" fs x] p x Some
    by (simp add: old_to_new_def)
qed

lemma separated_sorted:
  "\<lbrakk>separated es; \<forall>e \<in> set es. ed_old_start e \<le> ed_old_end e\<rbrakk> \<Longrightarrow>
     sorted_wrt (\<lambda>e f. ed_old_end e < ed_old_start f) es"
proof (induction es rule: separated.induct)
  case (1 e f es)
  then have sorted: "sorted_wrt (\<lambda>e f. ed_old_end e < ed_old_start f) (f # es)" by simp
  with 1(2,3) have "\<forall>g \<in> set es. ed_old_end e < ed_old_start g"
    by (auto intro: less_trans less_le_trans)
  with sorted 1(2) show ?case by simp
qed simp_all

definition touches :: "edit \<Rightarrow> nat \<Rightarrow> bool" where
  "touches e old \<longleftrightarrow> ed_old_start e \<le> old \<and> old \<le> ed_old_end e"

lemma edit_for_old_position_cases:
  assumes leads: "leads a p b" and sep: "separated p"
  shows "e \<in> set p \<and> touches e x \<Longrightarrow> edit_for_old_position p x = e"
    and "\<forall>e \<in> set p. \<not> touches e x \<Longrightarrow>
      edit_for_old_position p x = mk_edit x x (old_to_new p x) (old_to_new p x)"
proof -
  have wf: "\<forall>e \<in> set p. ed_old_start e \<le> ed_old_end e"
    using leads by (auto simp: leads_def edit_in_def dest: covers_edit_in)
  note sorted = separated_sorted [OF sep wf]
  show "edit_for_old_position p x = e" if e: "e \<in> set p \<and> touches e x"
  proof (cases "preceding_index p x")
    case None
    from preceding_index_None [OF None] e obtain f fs where p: "p = f # fs" "x < ed_old_start f"
      by (cases p) auto
    moreover from p(1) wf sorted have "ed_old_start f \<le> ed_old_start g" if "g \<in> set p" for g
      using that by (auto intro: order_trans less_imp_le)
    ultimately show ?thesis using e by (fastforce simp: touches_def)
  next
    case (Some ix)
    from preceding_index_Some [OF Some sep wf] obtain gs f fs where
      p: "p = gs @ f # fs" "ix = length gs" "ed_old_start f \<le> x" "fs \<noteq> [] \<Longrightarrow> x < ed_old_start (hd fs)"
      by metis
    from sorted p have "\<forall>g \<in> set gs. ed_old_end g < x" by (fastforce simp: sorted_wrt_append)
    moreover from sorted p wf have "\<forall>g \<in> set fs. x < ed_old_start g"
      by (cases fs) (fastforce simp: sorted_wrt_append)+
    ultimately have "e = f" using e p(1) by (fastforce simp: touches_def)
    with e Some p show ?thesis by (simp add: edit_for_old_position_def touches_def)
  qed
  show "edit_for_old_position p x = mk_edit x x (old_to_new p x) (old_to_new p x)"
    if none: "\<forall>e \<in> set p. \<not> touches e x"
  proof (cases "preceding_index p x")
    case (Some ix)
    from preceding_index_Some [OF Some sep wf] obtain gs f fs where
      "p = gs @ f # fs" "ix = length gs" "ed_old_start f \<le> x"
      by metis
    with none Some show ?thesis
      by (simp add: edit_for_old_position_def old_to_new_def touches_def Let_def)
  qed (simp add: edit_for_old_position_def old_to_new_def)
qed

section \<open>Properties\<close>

text \<open>C9. Composing patches: when one patch leads from a text to a second and another from the second
  to a third, \<open>compose\<close> ends without an underflow and returns a patch that \<open>Patch::new\<close> accepts and
  that leads from the first text to the third.\<close>

theorem compose_correct:
  assumes "leads a p b" and "leads b q c"
  shows "\<exists>r. compose p q = Some r \<and> leads a r c \<and> patch_new r = Some r"
  using assms by (rule compose_leads)

text \<open>A text whose middle is replaced, then touched again across the border of that edit.\<close>

definition sample_first :: patch where
  "sample_first = [mk_edit 1 3 1 4]"

definition sample_second :: patch where
  "sample_second = [mk_edit 0 0 0 1, mk_edit 3 5 4 5]"

theorem compose_correct_witness:
  "compose sample_first sample_second = Some [mk_edit 0 0 0 1, mk_edit 1 4 2 5]
   \<and> leads ''abcde'' [mk_edit 0 0 0 1, mk_edit 1 4 2 5] ''+axy!e''"
proof -
  have run: "compose sample_first sample_second = Some [mk_edit 0 0 0 1, mk_edit 1 4 2 5]"
    by code_simp
  have "leads ''abcde'' sample_first ''axyzde''"
    by (simp add: leads_def sample_first_def mk_edit_def edit_in_def aligned_def less_Suc_eq
        numeral_eq_Suc)
  moreover have "leads ''axyzde'' sample_second ''+axy!e''"
    by (simp add: leads_def sample_second_def mk_edit_def edit_in_def aligned_def less_Suc_eq
        numeral_eq_Suc)
  ultimately obtain r where "compose sample_first sample_second = Some r"
      "leads ''abcde'' r ''+axy!e''"
    using compose_correct by blast
  with run show ?thesis by simp
qed

text \<open>Position mapping: a character outside the edits of a patch is found in the new text at the
  position \<open>old_to_new\<close> gives, and the inverted patch leads back to the old text.\<close>

theorem patch_maps_unchanged:
  assumes "leads a p b" and "patch_new p = Some p" and "x < length a"
    and "\<forall>e \<in> set p. \<not> (ed_old_start e \<le> x \<and> x < ed_old_end e)"
  shows "old_to_new p x < length b \<and> b ! old_to_new p x = a ! x
    \<and> leads b (invert p) a \<and> patch_new (invert p) = Some (invert p)"
  using assms old_to_new_unchanged [OF assms(1) _ assms(3,4)]
  by (auto simp: patch_new_def leads_def covers_invert separated_invert split: if_splits)

theorem patch_maps_unchanged_witness:
  "old_to_new sample_first 3 = 4 \<and> ''axyzde'' ! 4 = ''abcde'' ! 3
   \<and> leads ''axyzde'' (invert sample_first) ''abcde''"
proof -
  have map: "old_to_new sample_first 3 = 4" by code_simp
  have "leads ''abcde'' sample_first ''axyzde''"
    by (simp add: leads_def sample_first_def mk_edit_def edit_in_def aligned_def less_Suc_eq
        numeral_eq_Suc)
  moreover have "patch_new sample_first = Some sample_first" by code_simp
  ultimately have "old_to_new sample_first 3 < length ''axyzde''
      \<and> ''axyzde'' ! old_to_new sample_first 3 = ''abcde'' ! 3
      \<and> leads ''axyzde'' (invert sample_first) ''abcde''"
    using patch_maps_unchanged [of "''abcde''" sample_first "''axyzde''" 3]
    by (simp add: sample_first_def mk_edit_def)
  with map show ?thesis by metis
qed

text \<open>The lookup of the edit at a position: the one edit that touches it, and else an empty edit at
  the position and its image.\<close>

theorem edit_for_old_position_exact:
  assumes "leads a p b" and "patch_new p = Some p"
  shows "edit_for_old_position p x =
    (case filter (\<lambda>e. touches e x) p of
       [] \<Rightarrow> mk_edit x x (old_to_new p x) (old_to_new p x)
     | e # _ \<Rightarrow> e)"
proof -
  from assms(2) have sep: "separated p" by (simp add: patch_new_def split: if_splits)
  note cases = edit_for_old_position_cases [OF assms(1) sep]
  show ?thesis
  proof (cases "filter (\<lambda>e. touches e x) p")
    case Nil
    with cases(2) [of x] show ?thesis by (simp add: filter_empty_conv)
  next
    case (Cons e es)
    then have "e \<in> set p \<and> touches e x" by (auto dest: Cons_eq_filterD [OF sym])
    with cases(1) [of e x] Cons show ?thesis by simp
  qed
qed

theorem edit_for_old_position_exact_witness:
  "edit_for_old_position sample_first 3 = mk_edit 1 3 1 4
   \<and> edit_for_old_position sample_first 4 = mk_edit 4 4 5 5"
proof -
  have "leads ''abcde'' sample_first ''axyzde''"
    by (simp add: leads_def sample_first_def mk_edit_def edit_in_def aligned_def less_Suc_eq
        numeral_eq_Suc)
  moreover have "patch_new sample_first = Some sample_first" by code_simp
  moreover have "old_to_new sample_first 4 = 5" by code_simp
  ultimately show ?thesis
    using edit_for_old_position_exact [of "''abcde''" sample_first "''axyzde''" 3]
      edit_for_old_position_exact [of "''abcde''" sample_first "''axyzde''" 4]
    by (simp add: sample_first_def touches_def) (simp add: mk_edit_def)
qed

end
