(* ===== verification/EventSourced.thy ===== *)
theory EventSourced
  imports Versioned
begin

text \<open>
  Event sourcing, once for every aggregate that stores what happened to it. Jobs keep the list of
  the commands applied to them and rebuild their state by applying it again: the locale
  \<open>event_sourced\<close> states what they promise about that list and proves that a stored history rebuilds
  the aggregate it was taken from. Messages and reactions keep a log of mutations beside their
  current fields, and loading checks the log step by step: the locale \<open>mutation_log\<close> states when the
  check passes after every run of commands.
\<close>

section \<open>Replaying a history\<close>

primrec replay ::
  "('c \<Rightarrow> 's \<Rightarrow> ('s, 'e, command_outcome) effect) \<Rightarrow> 'c list \<Rightarrow> 's \<Rightarrow> 's option" where
  "replay exec [] s = Some s"
| "replay exec (c # cs) s =
     (case exec c s of (Inr Applied, t) \<Rightarrow> replay exec cs t | _ \<Rightarrow> None)"

lemma replay_append:
  "replay exec (cs @ ds) s = Option.bind (replay exec cs s) (replay exec ds)"
  by (induction cs arbitrary: s) (auto split: prod.splits sum.splits command_outcome.splits)

section \<open>The contract\<close>

locale event_sourced =
  fixes start :: "'c \<Rightarrow> 'e + 's"
    and exec :: "'c \<Rightarrow> 's \<Rightarrow> ('s, 'e, command_outcome) effect"
    and history :: "'s \<Rightarrow> 'c list"
  assumes start_history: "start c = Inr s \<Longrightarrow> history s = [c]"
    and applied_history: "exec c s = (Inr Applied, t) \<Longrightarrow> history t = history s @ [c]"
    and not_applied_same: "fst (exec c s) \<noteq> Inr Applied \<Longrightarrow> snd (exec c s) = s"
begin

text \<open>The history only grows, by exactly the commands that were applied.\<close>

lemma run_history:
  "\<exists>ds. history (run_commands exec cs s) = history s @ ds
      \<and> replay exec ds s = Some (run_commands exec cs s) \<and> length ds = count_applied exec cs s"
proof (induction cs arbitrary: s)
  case (Cons c cs)
  show ?case
  proof (cases "fst (exec c s) = Inr Applied")
    case True
    then obtain t where t: "exec c s = (Inr Applied, t)" by (cases "exec c s") auto
    from Cons [of t] obtain ds where
      "history (run_commands exec cs t) = history t @ ds"
      "replay exec ds t = Some (run_commands exec cs t)" "length ds = count_applied exec cs t"
      by blast
    with t applied_history [OF t] show ?thesis by (intro exI [of _ "c # ds"]) simp
  next
    case False
    with not_applied_same Cons [of s] show ?thesis by simp
  qed
qed simp

text \<open>Rebuilding: the first command starts the aggregate, the rest replay to its state.\<close>

lemma history_rebuilds:
  assumes "start c = Inr s"
  obtains ds where "history (run_commands exec cs s) = c # ds"
    and "replay exec ds s = Some (run_commands exec cs s)"
  using run_history [of cs s] start_history [OF assms] that by auto

text \<open>What the start establishes and every applied command keeps holds of every aggregate.\<close>

lemma step_invariant:
  assumes "P s" and "\<And>t. exec c s = (Inr Applied, t) \<Longrightarrow> P t"
  shows "P (snd (exec c s))"
proof (cases "fst (exec c s) = Inr Applied")
  case True
  then show ?thesis by (intro assms(2)) (metis prod.collapse)
next
  case False
  with assms(1) show ?thesis by (simp add: not_applied_same)
qed

lemma run_invariant:
  assumes "P s" and "\<And>c s t. \<lbrakk>P s; exec c s = (Inr Applied, t)\<rbrakk> \<Longrightarrow> P t"
  shows "P (run_commands exec cs s)"
  using assms(1)
proof (induction cs arbitrary: s)
  case (Cons c cs)
  have "P (snd (exec c s))" by (rule step_invariant) (use Cons.prems assms(2) in blast)+
  with Cons.IH show ?case by simp
qed simp

end

section \<open>Logs of mutations\<close>

primrec fold_log :: "('m \<Rightarrow> 'a \<Rightarrow> 'e + 'a) \<Rightarrow> 'm list \<Rightarrow> 'a \<Rightarrow> 'e + 'a" where
  "fold_log step [] a = Inr a"
| "fold_log step (m # ms) a = and_then (step m a) (fold_log step ms)"

lemma fold_log_append:
  "fold_log step (ms @ ns) a = and_then (fold_log step ms a) (fold_log step ns)"
proof (induction ms arbitrary: a)
  case (Cons m ms)
  then show ?case by (cases "step m a") simp_all
qed simp

text \<open>The loader starts from what \<open>start\<close> reads off the fixed fields and folds the log; \<open>view\<close> is what
  the current fields claim. Commands of a kind the loader accepts keep the two in agreement.\<close>

locale mutation_log =
  fixes exec :: "'c \<Rightarrow> 's \<Rightarrow> ('s, 'e, command_outcome) effect"
    and log :: "'s \<Rightarrow> 'm list"
    and start :: "'s \<Rightarrow> 'a"
    and step :: "'s \<Rightarrow> 'm \<Rightarrow> 'a \<Rightarrow> 'f + 'a"
    and view :: "'s \<Rightarrow> 'a"
    and acceptable :: "'s \<Rightarrow> 'c \<Rightarrow> bool"
  assumes applied_logged: "exec c s = (Inr Applied, t) \<Longrightarrow> acceptable s c
      \<Longrightarrow> \<exists>m. log t = log s @ [m] \<and> step s m (view s) = Inr (view t)"
    and applied_fixed: "exec c s = (Inr Applied, t) \<Longrightarrow> start t = start s \<and> step t = step s
      \<and> acceptable t = acceptable s"
    and not_applied_kept: "fst (exec c s) \<noteq> Inr Applied \<Longrightarrow> snd (exec c s) = s"
begin

definition in_agreement :: "'s \<Rightarrow> bool" where
  "in_agreement s \<longleftrightarrow> fold_log (step s) (log s) (start s) = Inr (view s)"

lemma agreement_step:
  assumes "in_agreement s" "acceptable s c"
  shows "in_agreement (snd (exec c s)) \<and> acceptable (snd (exec c s)) = acceptable s"
proof (cases "fst (exec c s) = Inr Applied")
  case True
  then obtain t where t: "exec c s = (Inr Applied, t)" by (cases "exec c s") auto
  with assms applied_logged [OF t] applied_fixed [OF t] show ?thesis
    by (auto simp: in_agreement_def fold_log_append)
next
  case False
  with assms not_applied_kept show ?thesis by simp
qed

lemma agreement_run:
  assumes "in_agreement s" "\<forall>c \<in> set cs. acceptable s c"
  shows "in_agreement (run_commands exec cs s)"
  using assms
proof (induction cs arbitrary: s)
  case (Cons c cs)
  from Cons.prems agreement_step [of s c]
  have "in_agreement (snd (exec c s))" "acceptable (snd (exec c s)) = acceptable s" by auto
  with Cons show ?case by simp
qed simp

text \<open>The log only grows.\<close>

lemma log_grows:
  assumes "\<forall>c \<in> set cs. acceptable s c"
  shows "\<exists>ms. log (run_commands exec cs s) = log s @ ms"
  using assms
proof (induction cs arbitrary: s)
  case (Cons c cs)
  let ?t = "snd (exec c s)"
  have "(\<exists>m. log ?t = log s @ [m]) \<and> acceptable ?t = acceptable s \<or> ?t = s"
    using applied_logged [of c s ?t] applied_fixed [of c s ?t] not_applied_kept [of c s] Cons.prems
    by (cases "fst (exec c s) = Inr Applied") (auto simp: prod_eq_iff)
  with Cons.IH [of ?t] Cons.prems show ?case by auto
qed simp

end

end
