(* ===== verification/Job.thy ===== *)
theory Job
  imports EventSourced
begin

text \<open>
  Agent jobs (\<open>job.rs\<close>): a job is requested for a target executor, accepted, progressed and
  completed by it, or cancelled or failed by anyone, one version per command. The aggregate
  keeps its commands; redelivered commands are recognised by operation id.
\<close>

section \<open>Data\<close>

record job_identity =
  ji_community_id :: community_id
  ji_job_id :: aggregate_id

datatype job_command_type =
  RequestType | AcceptType | ProgressType | ResultType | CancelType | ErrorType

datatype job_command_kind =
    Request principal_id principal_id
  | Accept principal_id
  | Progress principal_id
  | Result principal_id
  | Cancel principal_id
  | Error principal_id

fun command_type :: "job_command_kind \<Rightarrow> job_command_type" where
  "command_type (Request _ _) = RequestType"
| "command_type (Accept _) = AcceptType"
| "command_type (Progress _) = ProgressType"
| "command_type (Result _) = ResultType"
| "command_type (Cancel _) = CancelType"
| "command_type (Error _) = ErrorType"

fun kind_principal_id :: "job_command_kind \<Rightarrow> principal_id option" where
  "kind_principal_id (Request _ _) = None"
| "kind_principal_id (Accept executor) = Some executor"
| "kind_principal_id (Progress executor) = Some executor"
| "kind_principal_id (Result executor) = Some executor"
| "kind_principal_id (Cancel actor) = Some actor"
| "kind_principal_id (Error actor) = Some actor"

record job_command =
  jc_identity :: job_identity
  jc_operation_id :: operation_id
  jc_version :: aggregate_version
  jc_occurred_at_millis :: u64
  jc_kind :: job_command_kind

datatype job_state_kind =
  RequestedKind | AcceptedKind | InProgressKind | CompletedKind | CancelledKind | FailedKind

datatype job_state =
    Requested
  | Accepted principal_id
  | InProgress principal_id
  | Completed principal_id
  | Cancelled "principal_id option" principal_id
  | Failed "principal_id option" principal_id

fun state_kind :: "job_state \<Rightarrow> job_state_kind" where
  "state_kind Requested = RequestedKind"
| "state_kind (Accepted _) = AcceptedKind"
| "state_kind (InProgress _) = InProgressKind"
| "state_kind (Completed _) = CompletedKind"
| "state_kind (Cancelled _ _) = CancelledKind"
| "state_kind (Failed _ _) = FailedKind"

fun is_terminal :: "job_state \<Rightarrow> bool" where
  "is_terminal (Completed _) = True"
| "is_terminal (Cancelled _ _) = True"
| "is_terminal (Failed _ _) = True"
| "is_terminal _ = False"

fun executor_principal_id :: "job_state \<Rightarrow> principal_id option" where
  "executor_principal_id Requested = None"
| "executor_principal_id (Accepted executor) = Some executor"
| "executor_principal_id (InProgress executor) = Some executor"
| "executor_principal_id (Completed executor) = Some executor"
| "executor_principal_id (Cancelled executor _) = executor"
| "executor_principal_id (Failed executor _) = executor"

datatype job_error =
    EmptyHistory | DuplicateHistoryEntry | InvalidCommunityId | InvalidJobId | InvalidOperationId
  | InvalidRequesterId | InvalidTargetExecutorId | InvalidActorId | FirstCommandMustBeRequest
  | InitialVersionMustBeFirst | IdentityMismatch | IdempotencyConflict
  | VersionConflict aggregate_version aggregate_version | VersionExhausted | TimestampRegression
  | ExecutorMismatch | InvalidTransition job_state_kind job_command_type
  | TerminalState job_state_kind

record job =
  jb_identity :: job_identity
  jb_requester_principal_id :: principal_id
  jb_target_executor_principal_id :: principal_id
  jb_state :: job_state
  jb_version :: aggregate_version
  jb_requested_at_millis :: u64
  jb_updated_at_millis :: u64
  jb_history :: "job_command list"

section \<open>Validation\<close>

definition job_identity_new :: "community_id \<Rightarrow> aggregate_id \<Rightarrow> job_error + job_identity" where
  "job_identity_new community job =
     (if uuid_is_nil (community_uuid community) then Inl InvalidCommunityId
      else if uuid_is_nil (aggregate_uuid job) then Inl InvalidJobId
      else Inr \<lparr>ji_community_id = community, ji_job_id = job\<rparr>)"

definition validate_command :: "job_command \<Rightarrow> job_error + unit" where
  "validate_command c =
     and_then (job_identity_new (ji_community_id (jc_identity c)) (ji_job_id (jc_identity c))) (\<lambda>_.
     if uuid_is_nil (operation_uuid (jc_operation_id c)) then Inl InvalidOperationId
     else case jc_kind c of
       Request requester target \<Rightarrow>
         (if uuid_is_nil (principal_uuid requester) then Inl InvalidRequesterId
          else if uuid_is_nil (principal_uuid target) then Inl InvalidTargetExecutorId
          else Inr ())
     | kind \<Rightarrow>
         (if is_some_and (kind_principal_id kind) (\<lambda>p. uuid_is_nil (principal_uuid p))
          then Inl InvalidActorId else Inr ()))"

definition job_command_new ::
  "job_identity \<Rightarrow> operation_id \<Rightarrow> aggregate_version \<Rightarrow> u64 \<Rightarrow> job_command_kind
   \<Rightarrow> job_error + job_command" where
  "job_command_new identity operation version occurred kind =
     (let command = \<lparr>jc_identity = identity, jc_operation_id = operation, jc_version = version,
                     jc_occurred_at_millis = occurred, jc_kind = kind\<rparr>
      in and_then (validate_command command) (\<lambda>_. Inr command))"

section \<open>The aggregate\<close>

definition job_request :: "job_command \<Rightarrow> job_error + job" where
  "job_request c =
     and_then (validate_command c) (\<lambda>_.
     if jc_version c \<noteq> version_first then Inl InitialVersionMustBeFirst
     else case jc_kind c of
       Request requester target \<Rightarrow>
         Inr \<lparr>jb_identity = jc_identity c, jb_requester_principal_id = requester,
              jb_target_executor_principal_id = target, jb_state = Requested,
              jb_version = jc_version c, jb_requested_at_millis = jc_occurred_at_millis c,
              jb_updated_at_millis = jc_occurred_at_millis c, jb_history = [c]\<rparr>
     | _ \<Rightarrow> Inl FirstCommandMustBeRequest)"

definition require_target_executor :: "job \<Rightarrow> principal_id \<Rightarrow> job_error + unit" where
  "require_target_executor self executor =
     (if executor \<noteq> jb_target_executor_principal_id self then Inl ExecutorMismatch else Inr ())"

definition require_current_executor :: "job \<Rightarrow> principal_id \<Rightarrow> job_error + unit" where
  "require_current_executor self executor =
     (if executor_principal_id (jb_state self) \<noteq> Some executor then Inl ExecutorMismatch else Inr ())"

text \<open>The match of \<open>apply\<close> on the state and the command.\<close>

definition next_state :: "job \<Rightarrow> job_command_kind \<Rightarrow> job_error + job_state" where
  "next_state self kind =
     (case (jb_state self, kind) of
        (Requested, Accept executor) \<Rightarrow>
          and_then (require_target_executor self executor) (\<lambda>_. Inr (Accepted executor))
      | (Accepted _, Progress executor) \<Rightarrow>
          and_then (require_current_executor self executor) (\<lambda>_. Inr (InProgress executor))
      | (InProgress _, Progress executor) \<Rightarrow>
          and_then (require_current_executor self executor) (\<lambda>_. Inr (InProgress executor))
      | (Accepted _, Result executor) \<Rightarrow>
          and_then (require_current_executor self executor) (\<lambda>_. Inr (Completed executor))
      | (InProgress _, Result executor) \<Rightarrow>
          and_then (require_current_executor self executor) (\<lambda>_. Inr (Completed executor))
      | (_, Cancel actor) \<Rightarrow> Inr (Cancelled (executor_principal_id (jb_state self)) actor)
      | (_, Error actor) \<Rightarrow> Inr (Failed (executor_principal_id (jb_state self)) actor)
      | (state, kind) \<Rightarrow> Inl (InvalidTransition (state_kind state) (command_type kind)))"

definition job_apply ::
  "job_command \<Rightarrow> job \<Rightarrow> (job, job_error, command_outcome) effect" where
  "job_apply c self =
     attempt self (validate_command c) (\<lambda>_.
     if jc_identity c \<noteq> jb_identity self then (Inl IdentityMismatch, self)
     else case find (\<lambda>existing. jc_operation_id existing = jc_operation_id c) (jb_history self) of
       Some existing \<Rightarrow>
         (if existing = c then (Inr Unchanged, self) else (Inl IdempotencyConflict, self))
     | None \<Rightarrow>
       (case find (\<lambda>existing. jc_version existing = jc_version c) (jb_history self) of
          Some existing \<Rightarrow>
            (if existing = c then (Inr Unchanged, self)
             else (Inl (VersionConflict (jb_version self) (jc_version c)), self))
        | None \<Rightarrow>
          attempt self (ok_or (version_next (jb_version self)) VersionExhausted) (\<lambda>expected.
          if jc_version c \<noteq> expected
          then (Inl (VersionConflict (jb_version self) (jc_version c)), self)
          else if jc_occurred_at_millis c < jb_updated_at_millis self
          then (Inl TimestampRegression, self)
          else if is_terminal (jb_state self)
          then (Inl (TerminalState (state_kind (jb_state self))), self)
          else attempt self (next_state self (jc_kind c)) (\<lambda>state.
            (Inr Applied,
             self\<lparr>jb_state := state, jb_version := jc_version c,
                  jb_updated_at_millis := jc_occurred_at_millis c,
                  jb_history := jb_history self @ [c]\<rparr>)))))"

text \<open>\<open>from_history\<close>: the loop over the commands after the first.\<close>

fun apply_history :: "job \<Rightarrow> job_command list \<Rightarrow> job_error + job" where
  "apply_history job [] = Inr job"
| "apply_history job (c # cs) =
     (case job_apply c job of
        (Inl e, _) \<Rightarrow> Inl e
      | (Inr Unchanged, _) \<Rightarrow> Inl DuplicateHistoryEntry
      | (Inr Applied, job') \<Rightarrow> apply_history job' cs)"

definition from_history :: "job_command list \<Rightarrow> job_error + job" where
  "from_history history =
     (case history of [] \<Rightarrow> Inl EmptyHistory
      | first # commands \<Rightarrow> and_then (job_request first) (\<lambda>job. apply_history job commands))"

section \<open>Steps\<close>

lemma find_fresh: "find (\<lambda>y. f y = k) xs = None \<longleftrightarrow> k \<notin> f ` set xs"
  by (induction xs) auto

lemma job_apply_Applied:
  "job_apply c s = (Inr Applied, t) \<longleftrightarrow>
     validate_command c = Inr () \<and> jc_identity c = jb_identity s
     \<and> jc_operation_id c \<notin> jc_operation_id ` set (jb_history s)
     \<and> jc_version c \<notin> jc_version ` set (jb_history s)
     \<and> version_next (jb_version s) = Some (jc_version c)
     \<and> jb_updated_at_millis s \<le> jc_occurred_at_millis c
     \<and> \<not> is_terminal (jb_state s)
     \<and> (\<exists>state. next_state s (jc_kind c) = Inr state
          \<and> t = s\<lparr>jb_state := state, jb_version := jc_version c,
                  jb_updated_at_millis := jc_occurred_at_millis c,
                  jb_history := jb_history s @ [c]\<rparr>)"
proof (cases "jc_operation_id c \<in> jc_operation_id ` set (jb_history s)
    \<or> jc_version c \<in> jc_version ` set (jb_history s)")
  case True
  then consider e where "find (\<lambda>e. jc_operation_id e = jc_operation_id c) (jb_history s) = Some e"
    | e where "find (\<lambda>e. jc_operation_id e = jc_operation_id c) (jb_history s) = None"
        "find (\<lambda>e. jc_version e = jc_version c) (jb_history s) = Some e"
    using find_fresh [of jc_operation_id] find_fresh [of jc_version] by (metis not_Some_eq)
  then have "fst (job_apply c s) \<noteq> Inr Applied"
    by cases (cases "validate_command c"; simp add: job_apply_def)+
  with True show ?thesis by auto
next
  case False
  then have "find (\<lambda>e. jc_operation_id e = jc_operation_id c) (jb_history s) = None"
      "find (\<lambda>e. jc_version e = jc_version c) (jb_history s) = None"
    by (simp_all add: find_fresh)
  with False show ?thesis
    by (simp add: job_apply_def result_simps) (auto simp: not_less)
qed

lemma job_apply_same:
  assumes "fst (job_apply c s) \<noteq> Inr Applied"
  shows "snd (job_apply c s) = s"
  using assms unfolding job_apply_def
  by (cases "validate_command c"; cases "version_next (jb_version s)";
      cases "next_state s (jc_kind c)") (auto split: option.splits)

lemma job_request_Inr:
  "job_request c = Inr j \<longleftrightarrow>
     validate_command c = Inr () \<and> jc_version c = version_first
     \<and> (\<exists>requester target. jc_kind c = Request requester target
        \<and> j = \<lparr>jb_identity = jc_identity c, jb_requester_principal_id = requester,
               jb_target_executor_principal_id = target, jb_state = Requested,
               jb_version = jc_version c, jb_requested_at_millis = jc_occurred_at_millis c,
               jb_updated_at_millis = jc_occurred_at_millis c, jb_history = [c]\<rparr>)"
  by (cases "jc_kind c") (auto simp: job_request_def result_simps)

interpretation jobs: event_sourced job_request job_apply jb_history
proof unfold_locales
  fix c and s t :: job
  show "job_request c = Inr s \<Longrightarrow> jb_history s = [c]"
    by (auto simp: job_request_Inr)
  show "job_apply c s = (Inr Applied, t) \<Longrightarrow> jb_history t = jb_history s @ [c]"
    by (auto simp: job_apply_Applied)
  show "fst (job_apply c s) \<noteq> Inr Applied \<Longrightarrow> snd (job_apply c s) = s"
    by (rule job_apply_same)
qed

text \<open>A command names the version it creates; the version its sender saw is the one before.\<close>

definition job_expected :: "job_command \<Rightarrow> aggregate_version" where
  "job_expected c = AggregateVersion (version_get (jc_version c) - 1)"

lemma job_expected_previous:
  assumes "version_next v = Some (jc_version c)"
  shows "job_expected c = v"
proof -
  from assms have "unat (version_get (jc_version c)) = Suc (unat (version_get v))"
    by (simp add: version_next_Some version_num_def)
  then have "version_get (jc_version c) = version_get v + 1"
    using checked_add_Some [of "version_get v" 1 "version_get (jc_version c)"]
    by (auto simp: checked_add_def split: if_splits)
  then show ?thesis by (simp add: job_expected_def aggregate_version.expand)
qed

lemma next_state_executor:
  assumes "next_state s kind = Inr state"
    and "executor_principal_id (jb_state s) \<in> {None, Some (jb_target_executor_principal_id s)}"
  shows "executor_principal_id state \<in> {None, Some (jb_target_executor_principal_id s)}"
  using assms unfolding next_state_def
  by (cases "jb_state s"; cases kind)
    (auto simp: result_simps require_target_executor_def require_current_executor_def
      split: if_splits)

section \<open>The invariant\<close>

definition job_ok :: "job \<Rightarrow> bool" where
  "job_ok j \<longleftrightarrow>
     jb_history j \<noteq> []
     \<and> map (\<lambda>c. version_num (jc_version c)) (jb_history j) = [1..<Suc (length (jb_history j))]
     \<and> jc_version (last (jb_history j)) = jb_version j
     \<and> distinct (map jc_operation_id (jb_history j))
     \<and> sorted (map jc_occurred_at_millis (jb_history j))
     \<and> jc_occurred_at_millis (last (jb_history j)) = jb_updated_at_millis j
     \<and> (\<forall>c \<in> set (jb_history j). validate_command c = Inr () \<and> jc_identity c = jb_identity j)
     \<and> executor_principal_id (jb_state j) \<in> {None, Some (jb_target_executor_principal_id j)}"

lemma job_ok_version:
  assumes "job_ok j"
  shows "version_num (jb_version j) = length (jb_history j)"
proof -
  let ?vs = "map (\<lambda>c. version_num (jc_version c)) (jb_history j)"
  from assms have vs: "?vs = [1..<Suc (length (jb_history j))]" and ne: "jb_history j \<noteq> []"
    and v: "jc_version (last (jb_history j)) = jb_version j"
    unfolding job_ok_def by blast+
  from ne v have "version_num (jb_version j) = last ?vs" by (simp add: last_map)
  also have "\<dots> = length (jb_history j)" using ne unfolding vs by (simp add: Suc_le_eq)
  finally show ?thesis .
qed

lemma sorted_le_last: "\<lbrakk>sorted xs; x \<in> set xs\<rbrakk> \<Longrightarrow> x \<le> last xs"
  by (induction xs) auto

lemma job_apply_frame:
  "job_apply c s = (Inr Applied, t) \<Longrightarrow>
     jb_identity t = jb_identity s \<and> jb_requester_principal_id t = jb_requester_principal_id s
     \<and> jb_target_executor_principal_id t = jb_target_executor_principal_id s"
  by (auto simp: job_apply_Applied)

lemma job_request_ok: "job_request c = Inr j \<Longrightarrow> job_ok j"
  by (auto simp: job_request_Inr job_ok_def version_first_def version_num_def)

lemma job_apply_ok:
  assumes "job_ok s" and "job_apply c s = (Inr Applied, t)"
  shows "job_ok t"
proof -
  from assms(2) obtain state where
    valid: "validate_command c = Inr ()" "jc_identity c = jb_identity s"
    and fresh: "jc_operation_id c \<notin> jc_operation_id ` set (jb_history s)"
    and v: "version_num (jc_version c) = Suc (version_num (jb_version s))"
    and time: "jb_updated_at_millis s \<le> jc_occurred_at_millis c"
    and next_state: "next_state s (jc_kind c) = Inr state"
    and t: "t = s\<lparr>jb_state := state, jb_version := jc_version c,
                  jb_updated_at_millis := jc_occurred_at_millis c,
                  jb_history := jb_history s @ [c]\<rparr>"
    by (auto simp: job_apply_Applied version_next_Some)
  have "\<forall>x \<in> set (jb_history s). jc_occurred_at_millis x \<le> jc_occurred_at_millis c"
  proof
    fix x assume "x \<in> set (jb_history s)"
    with assms(1) have "jc_occurred_at_millis x \<le> last (map jc_occurred_at_millis (jb_history s))"
      by (intro sorted_le_last) (auto simp: job_ok_def)
    also have "\<dots> = jb_updated_at_millis s"
      using assms(1) by (simp add: job_ok_def last_map)
    finally show "jc_occurred_at_millis x \<le> jc_occurred_at_millis c" using time by simp
  qed
  moreover have "executor_principal_id state \<in> {None, Some (jb_target_executor_principal_id s)}"
    using assms(1) unfolding job_ok_def by (intro next_state_executor [OF next_state]) blast
  ultimately show ?thesis
    using assms(1) valid fresh v job_ok_version [OF assms(1)]
    unfolding job_ok_def t by (simp add: sorted_append)
qed

interpretation jobv: terminal_aggregate job_apply jb_version job_expected
  "\<lambda>j. (jb_identity j, jb_requester_principal_id j, jb_target_executor_principal_id j)" job_ok
  "\<lambda>j. is_terminal (jb_state j)"
proof unfold_locales
  fix c and s t :: job and e
  show "job_apply c s = (Inr Applied, t) \<Longrightarrow> job_expected c = jb_version s"
    by (auto simp: job_apply_Applied intro: job_expected_previous)
  show "job_apply c s = (Inr Applied, t) \<Longrightarrow> version_next (jb_version s) = Some (jb_version t)"
    by (auto simp: job_apply_Applied)
  show "job_apply c s = (Inr Unchanged, t) \<Longrightarrow> t = s"
    using job_apply_same [of c s] by simp
  show "job_apply c s = (Inl e, t) \<Longrightarrow> jb_version t = jb_version s"
    using job_apply_same [of c s] by simp
  show "job_apply c s = (Inl e, t) \<Longrightarrow> version_next (jb_version s) \<noteq> None \<Longrightarrow> t = s"
    using job_apply_same [of c s] by simp
  show "(jb_identity (snd (job_apply c s)), jb_requester_principal_id (snd (job_apply c s)),
         jb_target_executor_principal_id (snd (job_apply c s))) =
        (jb_identity s, jb_requester_principal_id s, jb_target_executor_principal_id s)"
    by (rule jobs.step_invariant [of "\<lambda>t. (jb_identity t, jb_requester_principal_id t,
          jb_target_executor_principal_id t) = (jb_identity s, jb_requester_principal_id s,
          jb_target_executor_principal_id s)"]) (simp_all add: job_apply_frame)
  show "job_ok s \<Longrightarrow> job_ok (snd (job_apply c s))"
    by (rule jobs.step_invariant [of job_ok]) (auto intro: job_apply_ok)
  show "is_terminal (jb_state s) \<Longrightarrow> fst (job_apply c s) \<noteq> Inr Applied"
    by (cases "job_apply c s" rule: outcome_cases) (auto simp: job_apply_Applied)
  show "is_terminal (jb_state s) \<Longrightarrow> job_apply c s = (Inl e, t) \<Longrightarrow> t = s"
    using job_apply_same [of c s] by simp
qed

lemma apply_history_replay: "apply_history j cs = Inr k \<longleftrightarrow> replay job_apply cs j = Some k"
  by (induction cs arbitrary: j)
    (auto split: prod.splits sum.splits command_outcome.splits)

lemma job_redelivery:
  assumes "job_ok j" and "c \<in> set (jb_history j)"
  shows "job_apply c j = (Inr Unchanged, j)"
proof -
  from assms have valid: "validate_command c = Inr ()" "jc_identity c = jb_identity j"
    and inj: "inj_on jc_operation_id (set (jb_history j))"
    by (auto simp: job_ok_def distinct_map)
  from assms(2) obtain d where
    d: "find (\<lambda>e. jc_operation_id e = jc_operation_id c) (jb_history j) = Some d"
    using find_fresh [of jc_operation_id "jc_operation_id c" "jb_history j"] by fastforce
  then have "d \<in> set (jb_history j)" "jc_operation_id d = jc_operation_id c"
    by (auto simp: find_Some_iff)
  with inj assms(2) have "d = c" by (auto dest: inj_onD)
  with valid d show ?thesis by (simp add: job_apply_def)
qed

section \<open>Properties\<close>

definition sample_job_command :: "u64 \<Rightarrow> job_command_kind \<Rightarrow> job_command" where
  "sample_job_command n kind =
     \<lparr>jc_identity = \<lparr>ji_community_id = CommunityId 1, ji_job_id = AggregateId 2\<rparr>,
      jc_operation_id = OperationId (ucast n), jc_version = AggregateVersion n,
      jc_occurred_at_millis = 10 * n, jc_kind = kind\<rparr>"

definition sample_job :: job where
  "sample_job =
     \<lparr>jb_identity = \<lparr>ji_community_id = CommunityId 1, ji_job_id = AggregateId 2\<rparr>,
      jb_requester_principal_id = PrincipalId 3, jb_target_executor_principal_id = PrincipalId 4,
      jb_state = Requested, jb_version = AggregateVersion 1, jb_requested_at_millis = 10,
      jb_updated_at_millis = 10,
      jb_history = [sample_job_command 1 (Request (PrincipalId 3) (PrincipalId 4))]\<rparr>"

lemma sample_job_requested:
  "job_request (sample_job_command 1 (Request (PrincipalId 3) (PrincipalId 4))) = Inr sample_job"
  by (simp add: job_request_Inr validate_command_def job_identity_new_def uuid_is_nil_def
      sample_job_command_def sample_job_def version_first_def)

text \<open>C24. A job is exactly its history: whatever commands it received after its request, applied,
  repeated or refused, rebuilding a job from the stored history succeeds and gives the same
  job.\<close>

theorem job_rebuilds_from_history:
  assumes "job_request c = Inr j"
  shows "from_history (jb_history (run_commands job_apply cs j)) = Inr (run_commands job_apply cs j)"
proof -
  obtain ds where "jb_history (run_commands job_apply cs j) = c # ds"
      "replay job_apply ds j = Some (run_commands job_apply cs j)"
    by (rule jobs.history_rebuilds [OF assms])
  then show ?thesis by (simp add: from_history_def assms apply_history_replay)
qed

theorem job_rebuilds_from_history_witness:
  "from_history (jb_history (run_commands job_apply
       [sample_job_command 2 (Accept (PrincipalId 4)), sample_job_command 3 (Cancel (PrincipalId 3))]
       sample_job)) =
   Inr (run_commands job_apply
       [sample_job_command 2 (Accept (PrincipalId 4)), sample_job_command 3 (Cancel (PrincipalId 3))]
       sample_job)"
  by (rule job_rebuilds_from_history) (rule sample_job_requested)

text \<open>The record of a job stays consistent: its versions count 1, 2, 3 and so on without a
  gap, no operation id occurs twice, times never go back, and nobody but the executor the job
  was requested for ever becomes its executor.\<close>

theorem job_record_consistent:
  fixes cs :: "job_command list"
  assumes "job_request c = Inr j"
  defines "k \<equiv> run_commands job_apply cs j"
  shows "map (\<lambda>c. version_num (jc_version c)) (jb_history k) = [1..<Suc (length (jb_history k))]
       \<and> version_num (jb_version k) = length (jb_history k)
       \<and> distinct (map jc_operation_id (jb_history k))
       \<and> sorted (map jc_occurred_at_millis (jb_history k))
       \<and> executor_principal_id (jb_state k) \<in> {None, Some (jb_target_executor_principal_id j)}"
proof -
  have ok: "job_ok k"
    unfolding k_def by (rule jobv.run_invar [OF job_request_ok [OF assms(1)]])
  moreover have "jb_target_executor_principal_id k = jb_target_executor_principal_id j"
    unfolding k_def using jobv.run_identity [of cs j] by simp
  ultimately show ?thesis
    using job_ok_version [OF ok] by (simp add: job_ok_def)
qed

theorem job_record_consistent_witness:
  "executor_principal_id (jb_state (run_commands job_apply
      [sample_job_command 2 (Accept (PrincipalId 4))] sample_job)) \<in> {None, Some (PrincipalId 4)}"
  using job_record_consistent
    [OF sample_job_requested, of "[sample_job_command 2 (Accept (PrincipalId 4))]"]
  by (simp add: sample_job_def)

text \<open>Redelivery is harmless: a command that was applied once answers \<open>Unchanged\<close> and changes
  nothing however much later it arrives again, and a job that was completed, cancelled or failed
  is never changed by anything.\<close>

theorem job_redelivery_harmless:
  assumes "job_request c = Inr j"
    and "d \<in> set (jb_history (run_commands job_apply cs j))"
    and "is_terminal (jb_state k)"
  shows "job_apply d (run_commands job_apply (cs @ ds) j)
         = (Inr Unchanged, run_commands job_apply (cs @ ds) j)
       \<and> run_commands job_apply ds k = k"
proof
  have "job_ok (run_commands job_apply (cs @ ds) j)"
    by (rule jobv.run_invar [OF job_request_ok [OF assms(1)]])
  moreover have "d \<in> set (jb_history (run_commands job_apply (cs @ ds) j))"
    using assms(2) jobs.run_history [of ds "run_commands job_apply cs j"]
    by (auto simp: run_commands_append)
  ultimately show "job_apply d (run_commands job_apply (cs @ ds) j)
         = (Inr Unchanged, run_commands job_apply (cs @ ds) j)"
    by (rule job_redelivery)
  show "run_commands job_apply ds k = k"
    by (rule jobv.terminal_run [OF assms(3)])
qed

theorem job_redelivery_harmless_witness:
  "job_apply (sample_job_command 1 (Request (PrincipalId 3) (PrincipalId 4)))
      (run_commands job_apply ([] @ [sample_job_command 2 (Accept (PrincipalId 4))]) sample_job)
     = (Inr Unchanged,
        run_commands job_apply ([] @ [sample_job_command 2 (Accept (PrincipalId 4))]) sample_job)
   \<and> run_commands job_apply [sample_job_command 2 (Accept (PrincipalId 4))]
       (sample_job\<lparr>jb_state := Completed (PrincipalId 4)\<rparr>)
     = sample_job\<lparr>jb_state := Completed (PrincipalId 4)\<rparr>"
  by (rule job_redelivery_harmless [OF sample_job_requested]) (simp_all add: sample_job_def)

end
