(* ===== verification/CommunityDeletion.thy ===== *)
theory CommunityDeletion
  imports Versioned "HOL-Library.Sublist"
begin

text \<open>
  Deleting a community (\<open>community_deletion.rs\<close>): a staged process over an archived community,
  recorded as a list of transitions whose projection is the current state. Every command appends
  one transition and projects the whole list again before it is accepted. The archive snapshot
  is the part of \<open>moderation_policy.rs\<close> the process carries as its authority.
\<close>

section \<open>Data\<close>

definition MAX_DELETION_TRANSITIONS :: nat where "MAX_DELETION_TRANSITIONS = 1000"

datatype deletion_evidence_digest = DeletionEvidenceDigest "256 word"
datatype deletion_fence_generation = DeletionFenceGeneration (fence_get: u64)

datatype community_archive_policy_state = CommunityActive | CommunityArchived

record community_archive_snapshot =
  as_community_id :: community_id
  as_state :: community_archive_policy_state
  as_version :: aggregate_version

record deletion_authority =
  da_community_archive :: community_archive_snapshot
  da_actor_principal_id :: principal_id
  da_operation_id :: operation_id
  da_observed_at_millis :: u64

datatype deletion_active_state =
  ActiveRequested | ActiveVerified | ActiveReversible | ActiveIrreversible

datatype deletion_completion = Deleted | RolledBack

datatype deletion_failure_reason =
    AuthorityUnavailable | InventoryMismatch | DependencyUnavailable | FenceLost
  | VerificationFailed | ExecutionConflict

fun retryable :: "deletion_failure_reason \<Rightarrow> bool" where
  "retryable AuthorityUnavailable = True"
| "retryable DependencyUnavailable = True"
| "retryable FenceLost = True"
| "retryable ExecutionConflict = True"
| "retryable _ = False"

datatype deletion_state =
    DeletionRequested | DeletionVerified | DeletionReversible | DeletionIrreversible
  | DeletionCompleted deletion_completion
  | DeletionFailed deletion_active_state deletion_failure_reason

datatype deletion_transition =
    TRequested (authority: deletion_authority)
  | TVerified (authority: deletion_authority) deletion_evidence_digest
  | TEnteredReversible (authority: deletion_authority) deletion_fence_generation
  | TEnteredIrreversible (authority: deletion_authority) deletion_fence_generation
      deletion_evidence_digest
  | TCompleted (authority: deletion_authority) deletion_completion deletion_evidence_digest
  | TFailed (authority: deletion_authority) deletion_failure_reason
  | TResumed (authority: deletion_authority)

record deletion_fields =
  df_deletion_id :: aggregate_id
  df_community_id :: community_id
  df_transitions :: "deletion_transition list"
  df_version :: aggregate_version

record community_deletion =
  cd_fields :: deletion_fields
  cd_state :: deletion_state

datatype deletion_error =
    InvalidIdentity | InvalidAuthority | InvalidEvidence | InvalidRecord | InvalidTransition
  | InvalidRollback | StaleAuthority | VersionConflict | OperationConflict
  | TransitionLimitReached | VersionExhausted

definition deletion_evidence_digest_new ::
  "256 word \<Rightarrow> deletion_error + deletion_evidence_digest" where
  "deletion_evidence_digest_new value =
     (if value = 0 then Inl InvalidEvidence else Inr (DeletionEvidenceDigest value))"

definition deletion_fence_generation_new :: "u64 \<Rightarrow> deletion_fence_generation option" where
  "deletion_fence_generation_new value =
     (if value = 0 then None else Some (DeletionFenceGeneration value))"

section \<open>Authority\<close>

definition validate_authority :: "deletion_authority \<Rightarrow> community_id \<Rightarrow> deletion_error + unit" where
  "validate_authority a community =
     (if as_community_id (da_community_archive a) \<noteq> community
         \<or> as_state (da_community_archive a) \<noteq> CommunityArchived
         \<or> uuid_is_nil (principal_uuid (da_actor_principal_id a))
         \<or> uuid_is_nil (operation_uuid (da_operation_id a))
         \<or> da_observed_at_millis a = 0
      then Inl InvalidAuthority else Inr ())"

definition deletion_authority_new ::
  "community_archive_snapshot \<Rightarrow> principal_id \<Rightarrow> operation_id \<Rightarrow> u64
   \<Rightarrow> deletion_error + deletion_authority" where
  "deletion_authority_new archive actor operation observed =
     (let evidence = \<lparr>da_community_archive = archive, da_actor_principal_id = actor,
                      da_operation_id = operation, da_observed_at_millis = observed\<rparr>
      in and_then (validate_authority evidence (as_community_id archive)) (\<lambda>_. Inr evidence))"

section \<open>Projection\<close>

record projected_deletion =
  pd_state :: deletion_state
  pd_last_authority :: "deletion_authority option"
  pd_fence_generation :: "deletion_fence_generation option"

fun active_state :: "deletion_state \<Rightarrow> deletion_active_state option" where
  "active_state DeletionRequested = Some ActiveRequested"
| "active_state DeletionVerified = Some ActiveVerified"
| "active_state DeletionReversible = Some ActiveReversible"
| "active_state DeletionIrreversible = Some ActiveIrreversible"
| "active_state (DeletionCompleted _) = None"
| "active_state (DeletionFailed _ _) = None"

fun state_from_active :: "deletion_active_state \<Rightarrow> deletion_state" where
  "state_from_active ActiveRequested = DeletionRequested"
| "state_from_active ActiveVerified = DeletionVerified"
| "state_from_active ActiveReversible = DeletionReversible"
| "state_from_active ActiveIrreversible = DeletionIrreversible"

definition project_rollback :: "deletion_state \<Rightarrow> deletion_error + deletion_state" where
  "project_rollback state =
     (if (case state of
            DeletionVerified \<Rightarrow> True
          | DeletionReversible \<Rightarrow> True
          | DeletionFailed ActiveVerified _ \<Rightarrow> True
          | DeletionFailed ActiveReversible _ \<Rightarrow> True
          | _ \<Rightarrow> False)
      then Inr (DeletionCompleted RolledBack) else Inl InvalidRollback)"

definition project_transition ::
  "nat \<Rightarrow> projected_deletion \<Rightarrow> deletion_transition \<Rightarrow> deletion_error + deletion_state" where
  "project_transition index projected transition =
     (case transition of
        TRequested _ \<Rightarrow> (if index = 0 then Inr DeletionRequested else Inl InvalidTransition)
      | TVerified _ _ \<Rightarrow>
          (if pd_state projected = DeletionRequested then Inr DeletionVerified
           else Inl InvalidTransition)
      | TEnteredReversible _ _ \<Rightarrow>
          (if pd_state projected = DeletionVerified then Inr DeletionReversible
           else Inl InvalidTransition)
      | TEnteredIrreversible _ _ _ \<Rightarrow>
          (if pd_state projected = DeletionReversible then Inr DeletionIrreversible
           else Inl InvalidTransition)
      | TCompleted _ Deleted _ \<Rightarrow>
          (if pd_state projected = DeletionIrreversible then Inr (DeletionCompleted Deleted)
           else Inl InvalidTransition)
      | TCompleted _ RolledBack _ \<Rightarrow> project_rollback (pd_state projected)
      | TFailed _ reason \<Rightarrow>
          and_then (ok_or (active_state (pd_state projected)) InvalidTransition) (\<lambda>failed_from.
            Inr (DeletionFailed failed_from reason))
      | TResumed _ \<Rightarrow>
          (case pd_state projected of
             DeletionFailed failed_from reason \<Rightarrow>
               (if retryable reason then Inr (state_from_active failed_from)
                else Inl InvalidTransition)
           | _ \<Rightarrow> Inl InvalidTransition))"

text \<open>The body of the loop of \<open>project_transitions\<close>, and the loop.\<close>

definition project_step ::
  "community_id \<Rightarrow> nat \<Rightarrow> operation_id set \<Rightarrow> projected_deletion \<Rightarrow> deletion_transition
   \<Rightarrow> deletion_error + projected_deletion" where
  "project_step community index operation_ids projected transition =
     (let a = authority transition in
      and_then (validate_authority a community) (\<lambda>_.
      if da_operation_id a \<in> operation_ids then Inl OperationConflict
      else
      and_then
        (case pd_last_authority projected of
           None \<Rightarrow> Inr ()
         | Some previous \<Rightarrow>
             (if as_version (da_community_archive a) < as_version (da_community_archive previous)
              then Inl StaleAuthority
              else if da_observed_at_millis a \<le> da_observed_at_millis previous
              then Inl InvalidAuthority else Inr ())) (\<lambda>_.
      and_then (project_transition index projected transition) (\<lambda>state.
        let projected' = projected\<lparr>pd_state := state, pd_last_authority := Some a\<rparr> in
        case transition of
          TEnteredReversible _ fence \<Rightarrow> Inr (projected'\<lparr>pd_fence_generation := Some fence\<rparr>)
        | TEnteredIrreversible _ fence _ \<Rightarrow>
            (if pd_fence_generation projected \<noteq> Some fence then Inl InvalidTransition
             else Inr projected')
        | _ \<Rightarrow> Inr projected'))))"

fun project_loop ::
  "community_id \<Rightarrow> nat \<Rightarrow> operation_id set \<Rightarrow> projected_deletion \<Rightarrow> deletion_transition list
   \<Rightarrow> deletion_error + projected_deletion" where
  "project_loop community index operation_ids projected [] = Inr projected"
| "project_loop community index operation_ids projected (t # ts) =
     and_then (project_step community index operation_ids projected t) (\<lambda>projected'.
       project_loop community (index + 1) (insert (da_operation_id (authority t)) operation_ids)
         projected' ts)"

definition initial_projection :: projected_deletion where
  "initial_projection =
     \<lparr>pd_state = DeletionRequested, pd_last_authority = None, pd_fence_generation = None\<rparr>"

definition project_transitions ::
  "community_id \<Rightarrow> deletion_transition list \<Rightarrow> deletion_error + deletion_state" where
  "project_transitions community transitions =
     and_then (project_loop community 0 {} initial_projection transitions) (\<lambda>projected.
       Inr (pd_state projected))"

section \<open>The aggregate\<close>

definition request ::
  "aggregate_id \<Rightarrow> community_id \<Rightarrow> deletion_authority \<Rightarrow> deletion_error + community_deletion" where
  "request deletion community a =
     (if uuid_is_nil (aggregate_uuid deletion) \<or> uuid_is_nil (community_uuid community)
      then Inl InvalidIdentity
      else
        and_then (project_transitions community [TRequested a]) (\<lambda>state.
        Inr \<lparr>cd_fields = \<lparr>df_deletion_id = deletion, df_community_id = community,
               df_transitions = [TRequested a], df_version = version_first\<rparr>,
             cd_state = state\<rparr>))"

definition from_record :: "deletion_fields \<Rightarrow> deletion_error + community_deletion" where
  "from_record flds =
     (if uuid_is_nil (aggregate_uuid (df_deletion_id flds))
         \<or> uuid_is_nil (community_uuid (df_community_id flds))
         \<or> df_transitions flds = []
         \<or> length (df_transitions flds) > MAX_DELETION_TRANSITIONS
         \<or> length (df_transitions flds) \<noteq> version_num (df_version flds)
      then Inl InvalidRecord
      else
        and_then (project_transitions (df_community_id flds) (df_transitions flds)) (\<lambda>state.
        Inr \<lparr>cd_fields = flds, cd_state = state\<rparr>))"

definition apply_transition ::
  "aggregate_version \<Rightarrow> deletion_transition \<Rightarrow> community_deletion
   \<Rightarrow> (community_deletion, deletion_error, command_outcome) effect" where
  "apply_transition expected transition self =
     (let flds = cd_fields self; transitions = df_transitions flds in
      if transitions \<noteq> [] \<and> last transitions = transition then (Inr Unchanged, self)
      else if list_ex (\<lambda>existing. da_operation_id (authority existing)
                         = da_operation_id (authority transition)) transitions
      then (Inl OperationConflict, self)
      else if expected \<noteq> df_version flds then (Inl VersionConflict, self)
      else if length transitions \<ge> MAX_DELETION_TRANSITIONS then (Inl TransitionLimitReached, self)
      else
        attempt self (ok_or (version_next (df_version flds)) VersionExhausted) (\<lambda>next_version.
        attempt self (project_transitions (df_community_id flds) (transitions @ [transition]))
          (\<lambda>state.
        (Inr Applied,
         \<lparr>cd_fields = flds\<lparr>df_transitions := transitions @ [transition],
                            df_version := next_version\<rparr>,
          cd_state = state\<rparr>))))"

text \<open>The public commands.\<close>

type_synonym deletion_method =
  "community_deletion \<Rightarrow> (community_deletion, deletion_error, command_outcome) effect"

definition verify ::
  "aggregate_version \<Rightarrow> deletion_authority \<Rightarrow> deletion_evidence_digest \<Rightarrow> deletion_method" where
  "verify expected a inventory = apply_transition expected (TVerified a inventory)"

definition enter_reversible ::
  "aggregate_version \<Rightarrow> deletion_authority \<Rightarrow> deletion_fence_generation \<Rightarrow> deletion_method" where
  "enter_reversible expected a fence = apply_transition expected (TEnteredReversible a fence)"

definition enter_irreversible ::
  "aggregate_version \<Rightarrow> deletion_authority \<Rightarrow> deletion_fence_generation
   \<Rightarrow> deletion_evidence_digest \<Rightarrow> deletion_method" where
  "enter_irreversible expected a fence boundary =
     apply_transition expected (TEnteredIrreversible a fence boundary)"

definition complete_deletion ::
  "aggregate_version \<Rightarrow> deletion_authority \<Rightarrow> deletion_evidence_digest \<Rightarrow> deletion_method" where
  "complete_deletion expected a verification =
     apply_transition expected (TCompleted a Deleted verification)"

definition rollback ::
  "aggregate_version \<Rightarrow> deletion_authority \<Rightarrow> deletion_evidence_digest \<Rightarrow> deletion_method" where
  "rollback expected a verification =
     apply_transition expected (TCompleted a RolledBack verification)"

definition fail_deletion ::
  "aggregate_version \<Rightarrow> deletion_authority \<Rightarrow> deletion_failure_reason \<Rightarrow> deletion_method" where
  "fail_deletion expected a reason = apply_transition expected (TFailed a reason)"

definition resume :: "aggregate_version \<Rightarrow> deletion_authority \<Rightarrow> deletion_method" where
  "resume expected a = apply_transition expected (TResumed a)"

text \<open>Any of them, as the caller of the aggregate issues them.\<close>

datatype deletion_command =
    Verify (deletion_expected: aggregate_version) deletion_authority deletion_evidence_digest
  | EnterReversible (deletion_expected: aggregate_version) deletion_authority
      deletion_fence_generation
  | EnterIrreversible (deletion_expected: aggregate_version) deletion_authority
      deletion_fence_generation deletion_evidence_digest
  | Complete (deletion_expected: aggregate_version) deletion_authority deletion_evidence_digest
  | Rollback (deletion_expected: aggregate_version) deletion_authority deletion_evidence_digest
  | Fail (deletion_expected: aggregate_version) deletion_authority deletion_failure_reason
  | Resume (deletion_expected: aggregate_version) deletion_authority

fun deletion_exec :: "deletion_command \<Rightarrow> deletion_method" where
  "deletion_exec (Verify v a d) = verify v a d"
| "deletion_exec (EnterReversible v a f) = enter_reversible v a f"
| "deletion_exec (EnterIrreversible v a f d) = enter_irreversible v a f d"
| "deletion_exec (Complete v a d) = complete_deletion v a d"
| "deletion_exec (Rollback v a d) = rollback v a d"
| "deletion_exec (Fail v a r) = fail_deletion v a r"
| "deletion_exec (Resume v a) = resume v a"

fun command_transition :: "deletion_command \<Rightarrow> deletion_transition" where
  "command_transition (Verify _ a d) = TVerified a d"
| "command_transition (EnterReversible _ a f) = TEnteredReversible a f"
| "command_transition (EnterIrreversible _ a f d) = TEnteredIrreversible a f d"
| "command_transition (Complete _ a d) = TCompleted a Deleted d"
| "command_transition (Rollback _ a d) = TCompleted a RolledBack d"
| "command_transition (Fail _ a r) = TFailed a r"
| "command_transition (Resume _ a) = TResumed a"

lemma deletion_exec_eq:
  "deletion_exec c = apply_transition (deletion_expected c) (command_transition c)"
  by (cases c) (simp_all add: verify_def enter_reversible_def enter_irreversible_def
      complete_deletion_def rollback_def fail_deletion_def resume_def)

section \<open>Projecting one more transition\<close>

lemma project_loop_snoc:
  "project_loop community index ids p (ts @ [t]) =
     and_then (project_loop community index ids p ts) (\<lambda>p'.
       project_step community (index + length ts)
         (ids \<union> (\<lambda>t. da_operation_id (authority t)) ` set ts) p' t)"
proof (induction ts arbitrary: index ids p)
  case Nil
  show ?case by (cases "project_step community index ids p t") simp_all
next
  case (Cons u ts)
  then show ?case by (cases "project_step community index ids p u") (simp_all add: add.commute)
qed

text \<open>What an accepted step does to the state, whatever the evidence.\<close>

lemma project_step_state:
  assumes "project_step community index ids p t = Inr p'"
  shows "project_transition index p t = Inr (pd_state p')"
    and "pd_fence_generation p' =
      (case t of TEnteredReversible _ fence \<Rightarrow> Some fence | _ \<Rightarrow> pd_fence_generation p)"
  using assms
  by (cases t; auto simp: project_step_def result_simps Let_def split: if_splits)+

lemma apply_transition_Applied:
  "apply_transition expected t d = (Inr Applied, d') \<longleftrightarrow>
     \<not> (df_transitions (cd_fields d) \<noteq> [] \<and> last (df_transitions (cd_fields d)) = t)
     \<and> (\<forall>existing \<in> set (df_transitions (cd_fields d)).
          da_operation_id (authority existing) \<noteq> da_operation_id (authority t))
     \<and> expected = df_version (cd_fields d)
     \<and> length (df_transitions (cd_fields d)) < MAX_DELETION_TRANSITIONS
     \<and> (\<exists>v state. version_next (df_version (cd_fields d)) = Some v
          \<and> project_transitions (df_community_id (cd_fields d))
              (df_transitions (cd_fields d) @ [t]) = Inr state
          \<and> d' = \<lparr>cd_fields = (cd_fields d)\<lparr>df_transitions := df_transitions (cd_fields d) @ [t],
                                df_version := v\<rparr>,
                 cd_state = state\<rparr>)"
  by (auto simp: apply_transition_def Let_def result_simps list_ex_iff not_le)

lemma apply_transition_same:
  assumes "fst (apply_transition expected t d) \<noteq> Inr Applied"
  shows "snd (apply_transition expected t d) = d"
  using assms unfolding apply_transition_def Let_def attempt_def
  by (auto split: if_splits sum.splits)

section \<open>The invariant\<close>

definition deletion_ok :: "community_deletion \<Rightarrow> bool" where
  "deletion_ok d \<longleftrightarrow>
     \<not> uuid_is_nil (aggregate_uuid (df_deletion_id (cd_fields d)))
     \<and> \<not> uuid_is_nil (community_uuid (df_community_id (cd_fields d)))
     \<and> df_transitions (cd_fields d) \<noteq> []
     \<and> length (df_transitions (cd_fields d)) \<le> MAX_DELETION_TRANSITIONS
     \<and> version_num (df_version (cd_fields d)) = length (df_transitions (cd_fields d))
     \<and> project_transitions (df_community_id (cd_fields d)) (df_transitions (cd_fields d))
         = Inr (cd_state d)"

lemma request_ok: "request deletion community a = Inr d \<Longrightarrow> deletion_ok d"
  by (auto simp: request_def deletion_ok_def result_simps version_first_def version_num_def
      MAX_DELETION_TRANSITIONS_def split: if_splits)

lemma from_record_ok: "from_record f = Inr d \<longleftrightarrow> cd_fields d = f \<and> deletion_ok d"
  by (cases d) (auto simp: from_record_def deletion_ok_def result_simps not_less)

lemma apply_transition_ok:
  assumes "deletion_ok d" and "apply_transition expected t d = (Inr Applied, d')"
  shows "deletion_ok d'"
  using assms by (auto simp: deletion_ok_def apply_transition_Applied version_next_Some)

lemma deletion_exec_step:
  assumes "P d"
    and "\<And>d'. apply_transition (deletion_expected c) (command_transition c) d = (Inr Applied, d') \<Longrightarrow> P d'"
  shows "P (snd (deletion_exec c d))"
proof (cases "fst (deletion_exec c d) = Inr Applied")
  case True
  then show ?thesis by (intro assms(2)) (metis deletion_exec_eq prod.collapse)
next
  case False
  with assms(1) show ?thesis by (simp add: deletion_exec_eq apply_transition_same)
qed

text \<open>An applied transition continues the projection of the aggregate it is applied to.\<close>

lemma apply_transition_projects:
  assumes "deletion_ok d" and "apply_transition expected t d = (Inr Applied, d')"
  obtains p where "project_loop (df_community_id (cd_fields d)) 0 {} initial_projection
      (df_transitions (cd_fields d)) = Inr p"
    and "pd_state p = cd_state d"
    and "project_transition (length (df_transitions (cd_fields d))) p t = Inr (cd_state d')"
proof -
  from assms obtain p where p: "project_loop (df_community_id (cd_fields d)) 0 {}
      initial_projection (df_transitions (cd_fields d)) = Inr p" "pd_state p = cd_state d"
    by (auto simp: deletion_ok_def project_transitions_def result_simps)
  with assms(2) have "project_transition (length (df_transitions (cd_fields d))) p t
      = Inr (cd_state d')"
    by (auto simp: apply_transition_Applied project_transitions_def result_simps
        project_loop_snoc dest: project_step_state(1))
  with p that show thesis by blast
qed

lemma completed_not_applied:
  assumes "deletion_ok d" and "cd_state d = DeletionCompleted outcome"
  shows "apply_transition expected t d \<noteq> (Inr Applied, d')"
proof
  assume "apply_transition expected t d = (Inr Applied, d')"
  then obtain p where "pd_state p = DeletionCompleted outcome"
      "project_transition (length (df_transitions (cd_fields d))) p t = Inr (cd_state d')"
    by (rule apply_transition_projects [OF assms(1)]) (use assms(2) in simp)
  moreover have "df_transitions (cd_fields d) \<noteq> []" using assms(1) by (simp add: deletion_ok_def)
  ultimately show False
    by (cases t; cases outcome)
      (auto simp: project_transition_def project_rollback_def
        split: deletion_completion.splits)
qed

interpretation deletions: terminal_aggregate deletion_exec "\<lambda>d. df_version (cd_fields d)"
  deletion_expected "\<lambda>d. (df_deletion_id (cd_fields d), df_community_id (cd_fields d))"
  deletion_ok "\<lambda>d. deletion_ok d \<and> (\<exists>outcome. cd_state d = DeletionCompleted outcome)"
proof unfold_locales
  fix c e and s t :: community_deletion
  let ?id = "\<lambda>d. (df_deletion_id (cd_fields d), df_community_id (cd_fields d))"
  show "deletion_exec c s = (Inr Applied, t) \<Longrightarrow> deletion_expected c = df_version (cd_fields s)"
    by (simp add: deletion_exec_eq apply_transition_Applied)
  show "deletion_exec c s = (Inr Applied, t) \<Longrightarrow>
      version_next (df_version (cd_fields s)) = Some (df_version (cd_fields t))"
    by (auto simp: deletion_exec_eq apply_transition_Applied)
  show "deletion_exec c s = (Inr Unchanged, t) \<Longrightarrow> t = s"
    using apply_transition_same [of "deletion_expected c" "command_transition c" s]
    by (simp add: deletion_exec_eq)
  show "deletion_exec c s = (Inl e, t) \<Longrightarrow> df_version (cd_fields t) = df_version (cd_fields s)"
    using apply_transition_same [of "deletion_expected c" "command_transition c" s]
    by (simp add: deletion_exec_eq)
  show "deletion_exec c s = (Inl e, t) \<Longrightarrow> version_next (df_version (cd_fields s)) \<noteq> None \<Longrightarrow> t = s"
    using apply_transition_same [of "deletion_expected c" "command_transition c" s]
    by (simp add: deletion_exec_eq)
  show "deletion_ok s \<and> (\<exists>outcome. cd_state s = DeletionCompleted outcome) \<Longrightarrow>
      deletion_exec c s = (Inl e, t) \<Longrightarrow> t = s"
    using apply_transition_same [of "deletion_expected c" "command_transition c" s]
    by (simp add: deletion_exec_eq)
  show "?id (snd (deletion_exec c s)) = ?id s"
    by (rule deletion_exec_step [of "\<lambda>d. ?id d = ?id s"])
      (auto simp: apply_transition_Applied)
  show "deletion_ok s \<Longrightarrow> deletion_ok (snd (deletion_exec c s))"
    by (rule deletion_exec_step [of deletion_ok]) (auto intro: apply_transition_ok)
  show "deletion_ok s \<and> (\<exists>outcome. cd_state s = DeletionCompleted outcome) \<Longrightarrow>
      fst (deletion_exec c s) \<noteq> Inr Applied"
    using completed_not_applied [of s _ "deletion_expected c" "command_transition c"]
    by (metis deletion_exec_eq prod.collapse)
qed

section \<open>Stages\<close>

datatype stage =
    StageVerified | StageReversible deletion_fence_generation
  | StageIrreversible deletion_fence_generation | StageDeleted | StageRolledBack | StageOther

fun transition_stage :: "deletion_transition \<Rightarrow> stage" where
  "transition_stage (TVerified _ _) = StageVerified"
| "transition_stage (TEnteredReversible _ f) = StageReversible f"
| "transition_stage (TEnteredIrreversible _ f _) = StageIrreversible f"
| "transition_stage (TCompleted _ Deleted _) = StageDeleted"
| "transition_stage (TCompleted _ RolledBack _) = StageRolledBack"
| "transition_stage _ = StageOther"

text \<open>The stages a state has behind it, under the fence that was taken.\<close>

fun active_stages :: "deletion_fence_generation \<Rightarrow> deletion_active_state \<Rightarrow> stage list" where
  "active_stages f ActiveRequested = []"
| "active_stages f ActiveVerified = [StageVerified]"
| "active_stages f ActiveReversible = [StageVerified, StageReversible f]"
| "active_stages f ActiveIrreversible = [StageVerified, StageReversible f, StageIrreversible f]"

fun state_stages :: "deletion_fence_generation \<Rightarrow> deletion_state \<Rightarrow> stage list" where
  "state_stages f DeletionRequested = active_stages f ActiveRequested"
| "state_stages f DeletionVerified = active_stages f ActiveVerified"
| "state_stages f DeletionReversible = active_stages f ActiveReversible"
| "state_stages f DeletionIrreversible = active_stages f ActiveIrreversible"
| "state_stages f (DeletionCompleted Deleted) = active_stages f ActiveIrreversible @ [StageDeleted]"
| "state_stages f (DeletionCompleted RolledBack) = active_stages f ActiveVerified @ [StageRolledBack]"
| "state_stages f (DeletionFailed from_state _) = active_stages f from_state"

text \<open>The active state a process is in or failed from.\<close>

definition phase :: "deletion_state \<Rightarrow> deletion_active_state option" where
  "phase state =
     (case state of DeletionFailed from_state _ \<Rightarrow> Some from_state | _ \<Rightarrow> active_state state)"

definition fenced :: "projected_deletion \<Rightarrow> deletion_fence_generation \<Rightarrow> bool" where
  "fenced p f \<longleftrightarrow>
     (phase (pd_state p) \<in> {Some ActiveReversible, Some ActiveIrreversible}
      \<longrightarrow> pd_fence_generation p = Some f)"

lemma state_stages_from_active: "state_stages f (state_from_active a) = active_stages f a"
  by (cases a) simp_all

lemma phase_from_active [simp]: "phase (state_from_active a) = Some a"
  by (cases a) (simp_all add: phase_def)

lemma phase_failed [simp]: "phase (DeletionFailed a r) = Some a"
  by (simp add: phase_def)

lemma active_state_stages:
  "active_state state = Some a \<Longrightarrow> state_stages f state = active_stages f a \<and> phase state = Some a"
  by (cases state) (auto simp: phase_def)

text \<open>Appending the next stage on both sides, written for the lists of \<open>active_stages\<close>.\<close>

lemma stages_snoc:
  "subseq [] ss \<Longrightarrow> subseq [x] (ss @ [x])"
  "subseq [a] ss \<Longrightarrow> subseq [a, x] (ss @ [x])"
  "subseq [a, b] ss \<Longrightarrow> subseq [a, b, x] (ss @ [x])"
  "subseq [a, b, c] ss \<Longrightarrow> subseq [a, b, c, x] (ss @ [x])"
  using subseq_append [of "[]" "[x]" ss] subseq_append [of "[a]" "[x]" ss]
    subseq_append [of "[a, b]" "[x]" ss] subseq_append [of "[a, b, c]" "[x]" ss]
  by simp_all

text \<open>One accepted transition adds its own stage to those behind the state it leaves.\<close>

lemma project_step_stages:
  assumes step: "project_step community index ids p t = Inr p'"
    and f: "fenced p f" and ss: "subseq (state_stages f (pd_state p)) ss"
  shows "\<exists>g. fenced p' g \<and> subseq (state_stages g (pd_state p')) (ss @ [transition_stage t])"
proof -
  note st = project_step_state [OF step]
  show ?thesis
  proof (cases t)
    case (TEnteredReversible a g)
    with st(1) have "pd_state p = DeletionVerified" "pd_state p' = DeletionReversible"
      by (auto simp: project_transition_def split: if_splits)
    with ss st(2) TEnteredReversible show ?thesis
      by (intro exI [of _ g]) (auto simp: fenced_def intro: stages_snoc)
  next
    case (TEnteredIrreversible a g d)
    with st(1) have states: "pd_state p = DeletionReversible" "pd_state p' = DeletionIrreversible"
      by (auto simp: project_transition_def split: if_splits)
    moreover from step TEnteredIrreversible have "pd_fence_generation p = Some g"
      by (auto simp: project_step_def result_simps Let_def split: if_splits)
    ultimately have "f = g" using f by (simp add: fenced_def phase_def)
    with ss states st(2) TEnteredIrreversible f show ?thesis
      by (intro exI [of _ g]) (auto simp: fenced_def phase_def intro: stages_snoc)
  next
    case (TFailed a r)
    with st(1) obtain b where b: "active_state (pd_state p) = Some b" "pd_state p' = DeletionFailed b r"
      by (auto simp: project_transition_def result_simps)
    with active_state_stages [OF b(1), of f] ss f st(2) TFailed show ?thesis
      by (intro exI [of _ f]) (auto simp: fenced_def phase_def)
  next
    case (TResumed a)
    with st(1) obtain b r where b: "pd_state p = DeletionFailed b r" "pd_state p' = state_from_active b"
      by (auto simp: project_transition_def split: deletion_state.splits if_splits)
    with ss f st(2) TResumed show ?thesis
      by (intro exI [of _ f]) (auto simp: fenced_def state_stages_from_active)
  next
    case (TCompleted a outcome d)
    show ?thesis
    proof (cases outcome)
      case Deleted
      with st(1) TCompleted have "pd_state p = DeletionIrreversible"
          "pd_state p' = DeletionCompleted Deleted"
        by (auto simp: project_transition_def split: if_splits)
      with ss TCompleted Deleted show ?thesis
        by (intro exI [of _ f]) (auto simp: fenced_def phase_def intro: stages_snoc)
    next
      case RolledBack
      with st(1) TCompleted have p': "pd_state p' = DeletionCompleted RolledBack"
          and "phase (pd_state p) \<in> {Some ActiveVerified, Some ActiveReversible}"
          and "\<forall>outcome. pd_state p \<noteq> DeletionCompleted outcome"
        by (auto simp: project_transition_def project_rollback_def phase_def
            split: if_splits deletion_state.splits deletion_active_state.splits)
      then have "subseq [StageVerified] (state_stages f (pd_state p))"
        by (cases "pd_state p") (auto simp: phase_def)
      then have "subseq [StageVerified] ss" using ss by (rule subseq_order.order_trans)
      with p' TCompleted RolledBack show ?thesis
        by (intro exI [of _ f]) (auto simp: fenced_def phase_def intro: stages_snoc)
    qed
  next
    case (TVerified a d)
    with st(1) have "pd_state p = DeletionRequested" "pd_state p' = DeletionVerified"
      by (auto simp: project_transition_def split: if_splits)
    with TVerified show ?thesis
      by (intro exI [of _ f]) (auto simp: fenced_def phase_def intro: stages_snoc)
  next
    case (TRequested a)
    with st(1) have "pd_state p' = DeletionRequested"
      by (simp add: project_transition_def split: if_splits)
    then show ?thesis by (intro exI [of _ f]) (simp add: fenced_def phase_def)
  qed
qed

lemma project_loop_stages:
  "project_loop community 0 {} initial_projection ts = Inr p \<Longrightarrow>
   \<exists>f. fenced p f \<and> subseq (state_stages f (pd_state p)) (map transition_stage ts)"
proof (induction ts arbitrary: p rule: rev_induct)
  case Nil
  then show ?case by (auto simp: initial_projection_def fenced_def phase_def)
next
  case (snoc t ts)
  then obtain q where "project_loop community 0 {} initial_projection ts = Inr q"
      and step: "project_step community (length ts) ((\<lambda>t. da_operation_id (authority t)) ` set ts)
        q t = Inr p"
    by (auto simp: project_loop_snoc result_simps)
  with snoc.IH obtain f where "fenced q f"
      "subseq (state_stages f (pd_state q)) (map transition_stage ts)" by blast
  from project_step_stages [OF step this] show ?case by simp
qed

text \<open>Past the point of no return.\<close>

definition committed :: "deletion_state \<Rightarrow> bool" where
  "committed state \<longleftrightarrow>
     phase state = Some ActiveIrreversible \<or> state = DeletionCompleted Deleted"

lemma project_transition_committed:
  assumes "project_transition index p t = Inr state" and "committed (pd_state p)" and "0 < index"
  shows "committed state"
  using assms
  by (cases t; cases "pd_state p")
    (auto simp: project_transition_def project_rollback_def committed_def phase_def result_simps
      split: if_splits deletion_completion.splits deletion_active_state.splits)

lemma deletion_exec_committed:
  assumes "deletion_ok d" and "committed (cd_state d)"
  shows "committed (cd_state (snd (deletion_exec c d)))"
proof (rule deletion_exec_step)
  fix d' assume "apply_transition (deletion_expected c) (command_transition c) d = (Inr Applied, d')"
  then obtain p where p: "pd_state p = cd_state d" "project_transition
      (length (df_transitions (cd_fields d))) p (command_transition c) = Inr (cd_state d')"
    by (rule apply_transition_projects [OF assms(1)])
  from assms(1) have "0 < length (df_transitions (cd_fields d))" by (simp add: deletion_ok_def)
  with p assms(2) show "committed (cd_state d')"
    using project_transition_committed [OF p(2)] by simp
qed (fact assms(2))

lemma deletion_run_committed:
  "\<lbrakk>deletion_ok d; committed (cd_state d)\<rbrakk> \<Longrightarrow>
   committed (cd_state (run_commands deletion_exec cs d))"
  by (induction cs arbitrary: d)
    (simp_all add: deletion_exec_committed deletions.invar_kept)

section \<open>Properties\<close>

definition sample_authority :: "u64 \<Rightarrow> deletion_authority" where
  "sample_authority n =
     \<lparr>da_community_archive = \<lparr>as_community_id = CommunityId 1, as_state = CommunityArchived,
        as_version = AggregateVersion 4\<rparr>,
      da_actor_principal_id = PrincipalId 10, da_operation_id = OperationId (ucast n),
      da_observed_at_millis = 100 * n\<rparr>"

definition sample_deletion :: "deletion_transition list \<Rightarrow> deletion_state \<Rightarrow> community_deletion" where
  "sample_deletion ts state =
     \<lparr>cd_fields = \<lparr>df_deletion_id = AggregateId 2, df_community_id = CommunityId 1,
        df_transitions = ts, df_version = AggregateVersion (of_nat (length ts))\<rparr>,
      cd_state = state\<rparr>"

definition sample_irreversible :: "deletion_transition list" where
  "sample_irreversible =
     [TRequested (sample_authority 1), TVerified (sample_authority 2) (DeletionEvidenceDigest 9),
      TEnteredReversible (sample_authority 3) (DeletionFenceGeneration 5),
      TEnteredIrreversible (sample_authority 4) (DeletionFenceGeneration 5)
        (DeletionEvidenceDigest 9)]"

lemmas projection_eval =
  project_transitions_def project_step_def project_transition_def project_rollback_def
  initial_projection_def validate_authority_def sample_authority_def uuid_is_nil_def Let_def

lemma sample_irreversible_ok: "deletion_ok (sample_deletion sample_irreversible DeletionIrreversible)"
  by (simp add: deletion_ok_def sample_deletion_def sample_irreversible_def projection_eval
      MAX_DELETION_TRANSITIONS_def version_num_def)

lemma sample_requested:
  "request (AggregateId 2) (CommunityId 1) (sample_authority 1) =
     Inr (sample_deletion [TRequested (sample_authority 1)] DeletionRequested)"
  by (simp add: request_def sample_deletion_def projection_eval version_first_def)

text \<open>C4. The point of no return holds: once a deletion is irreversible, or failed while it was,
  no sequence of commands rolls it back or returns it to an earlier stage.\<close>

theorem no_rollback_after_irreversible:
  assumes "from_record flds = Inr d"
    and "cd_state d = DeletionIrreversible \<or> (\<exists>reason. cd_state d = DeletionFailed ActiveIrreversible reason)"
  defines "state \<equiv> \<lambda>cs. cd_state (run_commands deletion_exec cs d)"
  shows "state cs = DeletionIrreversible \<or> state cs = DeletionCompleted Deleted
       \<or> (\<exists>reason. state cs = DeletionFailed ActiveIrreversible reason)"
proof -
  from assms have "deletion_ok d" "committed (cd_state d)"
    by (auto simp: from_record_ok committed_def phase_def)
  then have "committed (state cs)" unfolding state_def by (rule deletion_run_committed)
  then show ?thesis
    by (cases "state cs") (auto simp: committed_def phase_def)
qed

theorem no_rollback_after_irreversible_witness:
  "cd_state (run_commands deletion_exec
       [Rollback (AggregateVersion 4) (sample_authority 5) (DeletionEvidenceDigest 9)]
       (sample_deletion sample_irreversible DeletionIrreversible))
     \<in> {DeletionIrreversible, DeletionCompleted Deleted}
       \<union> range (DeletionFailed ActiveIrreversible)"
proof -
  have "from_record (cd_fields (sample_deletion sample_irreversible DeletionIrreversible)) =
      Inr (sample_deletion sample_irreversible DeletionIrreversible)"
    by (simp add: from_record_ok sample_irreversible_ok)
  from no_rollback_after_irreversible [OF this,
      of "[Rollback (AggregateVersion 4) (sample_authority 5) (DeletionEvidenceDigest 9)]"]
  show ?thesis by (auto simp: sample_deletion_def)
qed

text \<open>C32. Nothing is deleted without every stage: a record that projects to a completed deletion
  contains, in this order, a verification, entering the reversible stage under some fence,
  entering the irreversible stage under the same fence, and the completion.\<close>

theorem deletion_requires_every_stage:
  assumes "project_transitions community ts = Inr (DeletionCompleted Deleted)"
  shows "\<exists>f. subseq [StageVerified, StageReversible f, StageIrreversible f, StageDeleted]
           (map transition_stage ts)"
proof -
  from assms obtain p where "project_loop community 0 {} initial_projection ts = Inr p"
      "pd_state p = DeletionCompleted Deleted"
    by (auto simp: project_transitions_def result_simps)
  with project_loop_stages [OF this(1)] show ?thesis by auto
qed

theorem deletion_requires_every_stage_witness:
  "\<exists>f. subseq [StageVerified, StageReversible f, StageIrreversible f, StageDeleted]
     (map transition_stage
        (sample_irreversible @ [TCompleted (sample_authority 5) Deleted (DeletionEvidenceDigest 9)]))"
  by (rule deletion_requires_every_stage [of "CommunityId 1"])
    (simp add: sample_irreversible_def projection_eval)

text \<open>A deletion survives storage: whatever commands a requested deletion received, loading its
  stored fields gives the same deletion back, its version is the number of its transitions, and a
  completed one never changes again.\<close>

theorem deletion_record_roundtrip:
  assumes "request deletion community a = Inr d"
  defines "run \<equiv> \<lambda>cs. run_commands deletion_exec cs d"
  shows "from_record (cd_fields (run cs)) = Inr (run cs)
       \<and> version_num (df_version (cd_fields (run cs))) = length (df_transitions (cd_fields (run cs)))
       \<and> (\<forall>outcome. cd_state (run cs) = DeletionCompleted outcome \<longrightarrow> run (cs @ ds) = run cs)"
proof -
  have ok: "deletion_ok (run cs)"
    unfolding run_def by (rule deletions.run_invar [OF request_ok [OF assms(1)]])
  then have "run (cs @ ds) = run cs" if "cd_state (run cs) = DeletionCompleted outcome" for outcome
    using deletions.terminal_run [of "run cs" ds] that by (auto simp: run_def run_commands_append)
  with ok show ?thesis by (auto simp: from_record_ok deletion_ok_def)
qed

theorem deletion_record_roundtrip_witness:
  "from_record (cd_fields (run_commands deletion_exec
       [Verify (AggregateVersion 1) (sample_authority 2) (DeletionEvidenceDigest 9)]
       (sample_deletion [TRequested (sample_authority 1)] DeletionRequested))) =
   Inr (run_commands deletion_exec
       [Verify (AggregateVersion 1) (sample_authority 2) (DeletionEvidenceDigest 9)]
       (sample_deletion [TRequested (sample_authority 1)] DeletionRequested))"
  using deletion_record_roundtrip [OF sample_requested,
      of "[Verify (AggregateVersion 1) (sample_authority 2) (DeletionEvidenceDigest 9)]"]
  by blast

text \<open>The projection of a history that goes on after its request does not need the request.\<close>

lemma project_step_relaxed:
  assumes "project_step c i ops p t = Inr q" "ops' \<subseteq> ops" "\<And>a. t \<noteq> TRequested a"
    and "p' = p \<or> p' = p\<lparr>pd_last_authority := None\<rparr>"
  shows "project_step c j ops' p' t = Inr q"
proof -
  have "pd_state p' = pd_state p" using assms(4) by auto
  then have "project_transition j p' t = project_transition i p t"
    using assms(3) by (cases t) (auto simp: project_transition_def split: deletion_completion.splits)
  moreover have "pd_fence_generation p' = pd_fence_generation p" using assms(4) by auto
  moreover have "p'\<lparr>pd_state := x, pd_last_authority := Some (authority t)\<rparr> = p\<lparr>pd_state := x, pd_last_authority := Some (authority t)\<rparr>" for x
    using assms(4) by auto
  moreover have "da_operation_id (authority t) \<notin> ops'" using assms(1,2) by (auto simp: project_step_def result_simps Let_def split: if_splits)
  ultimately show ?thesis
    using assms(1,4)
    by (auto simp: project_step_def result_simps Let_def split: if_splits option.splits) (cases t; simp split: if_splits)+
qed

lemma project_loop_no_request:
  "project_loop c i ops p ts = Inr q \<Longrightarrow> 0 < i \<Longrightarrow> TRequested a \<notin> set ts"
proof (induction ts arbitrary: i ops p)
  case (Cons t ts)
  then obtain p1 where 1: "project_step c i ops p t = Inr p1"
      "project_loop c (i + 1) (insert (da_operation_id (authority t)) ops) p1 ts = Inr q"
    by (auto simp: result_simps)
  from 1(1) Cons.prems(2) have "t \<noteq> TRequested a"
    by (auto simp: project_step_def project_transition_def result_simps Let_def split: if_splits)
  with Cons.IH [OF 1(2)] show ?case by auto
qed simp

lemma project_loop_relaxed:
  assumes "project_loop c i ops p ts = Inr q" "ops' \<subseteq> ops" "\<And>a. TRequested a \<notin> set ts"
  shows "project_loop c j ops' p ts = Inr q"
  using assms
proof (induction ts arbitrary: i j ops ops' p)
  case (Cons t ts)
  then obtain p1 where 1: "project_step c i ops p t = Inr p1"
      "project_loop c (i + 1) (insert (da_operation_id (authority t)) ops) p1 ts = Inr q"
    by (auto simp: result_simps)
  from Cons.prems(3) have "t \<noteq> TRequested a" for a by auto
  then have "project_step c j ops' p t = Inr p1" using project_step_relaxed [OF 1(1) Cons.prems(2)] by blast
  moreover have "project_loop c (j + 1) (insert (da_operation_id (authority t)) ops') p1 ts = Inr q"
    using Cons.prems(2,3) by (intro Cons.IH [OF 1(2)]) auto
  ultimately show ?case by simp
qed simp

text \<open>C39. Loading does not ask for the request: take away the request with which an accepted history begins, and
  what is left of it is accepted too and stands at the same stage.\<close>

theorem record_without_request_accepted:
  assumes "from_record flds = Inr d" "df_transitions flds = TRequested a # t # ts" "version_num v = length (t # ts)"
  shows "from_record (flds\<lparr>df_transitions := t # ts, df_version := v\<rparr>) =
    Inr \<lparr>cd_fields = flds\<lparr>df_transitions := t # ts, df_version := v\<rparr>, cd_state = cd_state d\<rparr>"
proof -
  let ?c = "df_community_id flds" and ?o = "da_operation_id (authority t)"
  from assms(1,2) obtain q where q: "project_loop ?c 0 {} initial_projection (TRequested a # t # ts) = Inr q"
      "cd_state d = pd_state q"
    by (auto simp: from_record_def project_transitions_def result_simps simp del: project_loop.simps split: if_splits)
  then obtain p where p: "project_step ?c 0 {} initial_projection (TRequested a) = Inr p"
      "project_loop ?c 1 {da_operation_id a} p (t # ts) = Inr q"
    by (auto simp: result_simps simp del: project_loop.simps(2)) (auto simp: result_simps)
  from p(1) have start: "p\<lparr>pd_last_authority := None\<rparr> = initial_projection"
    by (auto simp: project_step_def project_transition_def initial_projection_def result_simps Let_def split: if_splits)
  note later = project_loop_no_request [OF p(2)]
  from p(2) obtain p1 where 1: "project_step ?c 1 {da_operation_id a} p t = Inr p1"
      "project_loop ?c (Suc 1) {?o, da_operation_id a} p1 ts = Inr q"
    by (auto simp: result_simps)
  have "project_step ?c 0 {} initial_projection t = Inr p1"
    using project_step_relaxed [OF 1(1), of "{}"] later start by auto
  moreover have "project_loop ?c 1 {?o} p1 ts = Inr q"
    using project_loop_relaxed [OF 1(2), of "{?o}"] later by auto
  ultimately have "project_transitions ?c (t # ts) = Inr (cd_state d)"
    using q(2) by (simp add: project_transitions_def)
  then show ?thesis
    using assms by (auto simp: from_record_def result_simps split: if_splits)
qed

theorem record_without_request_accepted_witness:
  "from_record (cd_fields
       (sample_deletion [TVerified (sample_authority 2) (DeletionEvidenceDigest 9)] DeletionVerified))
   = Inr (sample_deletion [TVerified (sample_authority 2) (DeletionEvidenceDigest 9)] DeletionVerified)"
proof -
  let ?ts = "[TRequested (sample_authority 1), TVerified (sample_authority 2) (DeletionEvidenceDigest 9)]"
  have "from_record (cd_fields (sample_deletion ?ts DeletionVerified)) = Inr (sample_deletion ?ts DeletionVerified)"
    by (simp add: from_record_ok deletion_ok_def sample_deletion_def projection_eval
        MAX_DELETION_TRANSITIONS_def version_num_def)
  from record_without_request_accepted [OF this, of "sample_authority 1" _ "[]" "AggregateVersion 1"] show ?thesis
    by (simp add: sample_deletion_def version_num_def)
qed

end
