(* ===== verification/Encoding.thy ===== *)
theory Encoding
  imports Prelude
begin

text \<open>
  Byte encodings that can be read back: \<open>to_be_bytes\<close>, and the contract of a prefix code, an
  encoder whose output determines its argument whatever follows. Fixed-width integers and
  length-prefixed byte strings are prefix codes; encoders built from them field by field inherit
  injectivity through the lemmas of the locale.
\<close>

section \<open>Big-endian integers\<close>

fun be_bytes :: "nat \<Rightarrow> nat \<Rightarrow> nat list" where
  "be_bytes 0 v = []"
| "be_bytes (Suc n) v = be_bytes n (v div 256) @ [v mod 256]"

lemma length_be_bytes [simp]: "length (be_bytes n v) = n"
  by (induction n arbitrary: v) simp_all

lemma be_bytes_inject:
  "\<lbrakk>v < 256 ^ n; w < 256 ^ n\<rbrakk> \<Longrightarrow> be_bytes n v = be_bytes n w \<longleftrightarrow> v = w"
proof (induction n arbitrary: v w)
  case (Suc n)
  then have "v div 256 < 256 ^ n" "w div 256 < 256 ^ n"
    by (simp_all add: less_mult_imp_div_less mult.commute)
  with Suc.IH have "be_bytes n (v div 256) = be_bytes n (w div 256) \<longleftrightarrow> v div 256 = w div 256"
    by blast
  moreover have "v = w" if "v div 256 = w div 256" "v mod 256 = w mod 256"
    using that by (metis div_mult_mod_eq)
  ultimately show ?case by auto
qed simp

section \<open>Prefix codes\<close>

locale prefix_code =
  fixes valid :: "'a \<Rightarrow> bool" and enc :: "'a \<Rightarrow> nat list"
  assumes parse: "\<lbrakk>valid a; valid b; enc a @ r = enc b @ s\<rbrakk> \<Longrightarrow> a = b \<and> r = s"
begin

lemma cancel: "\<lbrakk>valid a; valid b\<rbrakk> \<Longrightarrow> enc a @ r = enc b @ s \<longleftrightarrow> a = b \<and> r = s"
  using parse by blast

lemma inject: "\<lbrakk>valid a; valid b\<rbrakk> \<Longrightarrow> enc a = enc b \<longleftrightarrow> a = b"
  using parse [of a b "[]" "[]"] by auto

text \<open>Two sequences of the same length, one code after the other.\<close>

lemma cancel_concat:
  "\<lbrakk>length as = length bs; list_all valid as; list_all valid bs\<rbrakk> \<Longrightarrow>
   concat (map enc as) @ r = concat (map enc bs) @ s \<longleftrightarrow> as = bs \<and> r = s"
  by (induction as bs rule: list_induct2) (auto simp: cancel)

end

lemma fixed_width_prefix_code:
  assumes "\<And>a b. \<lbrakk>valid a; valid b; enc a = enc b\<rbrakk> \<Longrightarrow> a = b"
    and "\<And>a b. \<lbrakk>valid a; valid b\<rbrakk> \<Longrightarrow> length (enc a) = length (enc b)"
  shows "prefix_code valid enc"
proof unfold_locales
  fix a b r s
  assume ok: "valid a" "valid b" and eq: "enc a @ r = enc b @ s"
  from ok have "length (enc a) = length (enc b)" by (rule assms(2))
  with eq have "enc a = enc b" "r = s" by (simp_all add: append_eq_append_conv)
  with ok assms(1) show "a = b \<and> r = s" by blast
qed

interpretation be_code: prefix_code "\<lambda>v. v < 256 ^ n" "be_bytes n" for n
  by (rule fixed_width_prefix_code) (simp_all add: be_bytes_inject)

text \<open>A byte string with its length in front, as a 32-bit number.\<close>

definition length_prefixed :: "nat list \<Rightarrow> nat list" where
  "length_prefixed bs = be_bytes 4 (length bs) @ bs"

lemma length_length_prefixed [simp]: "length (length_prefixed bs) = 4 + length bs"
  by (simp add: length_prefixed_def)

interpretation string_code: prefix_code "\<lambda>bs. length bs < 2 ^ 32" length_prefixed
proof unfold_locales
  fix a b r s :: "nat list"
  assume len: "length a < 2 ^ 32" "length b < 2 ^ 32"
    and eq: "length_prefixed a @ r = length_prefixed b @ s"
  have "length a = length b \<and> a @ r = b @ s"
    using eq len be_code.cancel [where n = 4] by (simp add: length_prefixed_def)
  then show "a = b \<and> r = s" by (metis append_eq_append_conv)
qed

end
