(* ===== verification/AuditLog.thy ===== *)
theory AuditLog
  imports Identity Encoding "HOL-Library.List_Lexorder" "HOL-Library.Multiset"
begin

text \<open>
  The audit log (\<open>audit.rs\<close>): validated names and values, fields in canonical order with
  sensitive ones redacted, and a hash chain of entries. SHA-256 belongs to the \<open>sha2\<close> crate and
  is the parameter \<open>sha256\<close> of the operations that hash; what is proved holds for every such
  function, and tamper evidence assumes only that it has no collision among the entries compared.
\<close>

section \<open>Names and values\<close>

definition AUDIT_HASH_DOMAIN :: rust_string where
  "AUDIT_HASH_DOMAIN = lit ''zed.collaboration.audit.entry.v1''"
definition MAX_ACTION_BYTES :: nat where "MAX_ACTION_BYTES = 128"
definition MAX_FIELD_NAME_BYTES :: nat where "MAX_FIELD_NAME_BYTES = 64"
definition MAX_IDENTIFIER_BYTES :: nat where "MAX_IDENTIFIER_BYTES = 256"
definition MAX_CATEGORY_BYTES :: nat where "MAX_CATEGORY_BYTES = 64"
definition MAX_FIELDS :: nat where "MAX_FIELDS = 32"
definition MAX_ENCODED_ENTRY_BYTES :: nat where "MAX_ENCODED_ENTRY_BYTES = 16 * 1024"

lemmas audit_limits =
  MAX_ACTION_BYTES_def MAX_FIELD_NAME_BYTES_def MAX_IDENTIFIER_BYTES_def MAX_CATEGORY_BYTES_def
  MAX_FIELDS_def MAX_ENCODED_ENTRY_BYTES_def

datatype audit_error =
    InvalidAction | InvalidFieldName | InvalidIdentifier | InvalidCategory | TooManyFields
  | DuplicateField | SensitiveFieldNotRedacted | AuditInvalidRecord | InvalidCommunity
  | InvalidBridge | SequenceExhausted | EntryTooLarge | HashMismatch

datatype audit_hash = AuditHash (hash_bits: "256 word")
datatype audit_action = AuditAction (action_str: rust_string)
datatype audit_field_name = AuditFieldName (field_name_str: rust_string)
datatype audit_identifier = AuditIdentifier (identifier_str: rust_string)
datatype audit_category = AuditCategory (category_str: rust_string)

text \<open>Lower-case letters, digits and \<open>_ - .\<close>\<close>

definition validate_category_token :: "rust_string \<Rightarrow> nat \<Rightarrow> bool" where
  "validate_category_token value maximum \<longleftrightarrow>
     value \<noteq> [] \<and> str_len value \<le> maximum
     \<and> list_all (\<lambda>b. is_ascii_lowercase b \<or> is_ascii_digit b \<or> b \<in> set [95, 45, 46])
         (str_bytes value)"

definition audit_action_new :: "rust_string \<Rightarrow> audit_error + audit_action" where
  "audit_action_new value =
     (if validate_category_token value MAX_ACTION_BYTES then Inr (AuditAction value)
      else Inl InvalidAction)"

definition audit_field_name_new :: "rust_string \<Rightarrow> audit_error + audit_field_name" where
  "audit_field_name_new value =
     (if validate_category_token value MAX_FIELD_NAME_BYTES then Inr (AuditFieldName value)
      else Inl InvalidFieldName)"

text \<open>The bytes of \<open>- _ . : /\<close>.\<close>

definition identifier_valid :: "rust_string \<Rightarrow> bool" where
  "identifier_valid value \<longleftrightarrow>
     value \<noteq> [] \<and> str_len value \<le> MAX_IDENTIFIER_BYTES
     \<and> list_all (\<lambda>b. is_ascii_alphanumeric b \<or> b \<in> set [45, 95, 46, 58, 47]) (str_bytes value)"

definition audit_identifier_new :: "rust_string \<Rightarrow> audit_error + audit_identifier" where
  "audit_identifier_new value =
     (if identifier_valid value then Inr (AuditIdentifier value) else Inl InvalidIdentifier)"

definition audit_category_new :: "rust_string \<Rightarrow> audit_error + audit_category" where
  "audit_category_new value =
     (if validate_category_token value MAX_CATEGORY_BYTES then Inr (AuditCategory value)
      else Inl InvalidCategory)"

text \<open>\<open>str::split\<close> at every character of a class.\<close>

fun split_at :: "(rust_char \<Rightarrow> bool) \<Rightarrow> rust_string \<Rightarrow> rust_string list" where
  "split_at p [] = [[]]"
| "split_at p (c # cs) =
     (if p c then [] # split_at p cs
      else case split_at p cs of [] \<Rightarrow> [[c]] | segment # segments \<Rightarrow> (c # segment) # segments)"

definition SENSITIVE_FIELD_SEGMENTS :: "rust_string list" where
  "SENSITIVE_FIELD_SEGMENTS =
     map lit [''body'', ''ciphertext'', ''content'', ''credential'', ''detail'', ''key'',
       ''message'', ''mnemonic'', ''note'', ''password'', ''payload'', ''private'', ''prompt'',
       ''secret'', ''seed'', ''token'']"

definition requires_redaction :: "audit_field_name \<Rightarrow> bool" where
  "requires_redaction name \<longleftrightarrow>
     list_ex (\<lambda>segment. segment \<in> set SENSITIVE_FIELD_SEGMENTS)
       (split_at (\<lambda>c. c \<in> set [46, 95, 45]) (field_name_str name))"

datatype audit_outcome = Succeeded | Failed | Denied | Cancelled

fun outcome_code :: "audit_outcome \<Rightarrow> nat" where
  "outcome_code Succeeded = 1"
| "outcome_code Failed = 2"
| "outcome_code Denied = 3"
| "outcome_code Cancelled = 4"

datatype audit_redaction = Credential | ErrorDetail | KeyMaterial | PersonalData | PrivateContent

fun redaction_code :: "audit_redaction \<Rightarrow> nat" where
  "redaction_code Credential = 1"
| "redaction_code ErrorDetail = 2"
| "redaction_code KeyMaterial = 3"
| "redaction_code PersonalData = 4"
| "redaction_code PrivateContent = 5"

datatype audit_value =
    Identifier audit_identifier | Category audit_category | Unsigned u64 | Signed "64 word"
  | Boolean bool | Redacted audit_redaction

record audit_field =
  fd_name :: audit_field_name
  fd_value :: audit_value

section \<open>Fields\<close>

text \<open>\<open>fields.windows(2).any(|pair| pair[0].name == pair[1].name)\<close>\<close>

fun adjacent_equal :: "'a list \<Rightarrow> bool" where
  "adjacent_equal (x # y # zs) = (x = y \<or> adjacent_equal (y # zs))"
| "adjacent_equal _ = False"

definition is_redacted :: "audit_value \<Rightarrow> bool" where
  "is_redacted v = (case v of Redacted _ \<Rightarrow> True | _ \<Rightarrow> False)"

type_synonym audit_fields = "audit_field list"

definition audit_fields_new :: "audit_field list \<Rightarrow> audit_error + audit_fields" where
  "audit_fields_new fs =
     (if length fs > MAX_FIELDS then Inl TooManyFields
      else
        let fs = sort_key (\<lambda>f. field_name_str (fd_name f)) fs in
        if adjacent_equal (map fd_name fs) then Inl DuplicateField
        else if list_ex (\<lambda>f. requires_redaction (fd_name f) \<and> \<not> is_redacted (fd_value f)) fs
        then Inl SensitiveFieldNotRedacted
        else Inr fs)"

section \<open>Records, bridges and positions\<close>

record audit_record =
  ar_operation_id :: operation_id
  ar_action :: audit_action
  ar_actor_principal_id :: "principal_id option"
  ar_outcome :: audit_outcome
  ar_occurred_at_millis :: u64
  ar_fields :: audit_fields

definition audit_record_new ::
  "operation_id \<Rightarrow> audit_action \<Rightarrow> principal_id option \<Rightarrow> audit_outcome \<Rightarrow> u64 \<Rightarrow> audit_fields
   \<Rightarrow> audit_error + audit_record" where
  "audit_record_new operation action actor outcome occurred fs =
     (if uuid_is_nil (operation_uuid operation)
         \<or> is_some_and actor (\<lambda>a. uuid_is_nil (principal_uuid a))
         \<or> occurred = 0
      then Inl AuditInvalidRecord
      else Inr \<lparr>ar_operation_id = operation, ar_action = action, ar_actor_principal_id = actor,
                ar_outcome = outcome, ar_occurred_at_millis = occurred, ar_fields = fs\<rparr>)"

datatype audit_chain_source = BuzzV1

fun source_code :: "audit_chain_source \<Rightarrow> nat" where
  "source_code BuzzV1 = 1"

record audit_chain_bridge =
  bg_source :: audit_chain_source
  bg_source_sequence :: u64
  bg_source_head :: audit_hash

definition audit_chain_bridge_new ::
  "audit_chain_source \<Rightarrow> u64 \<Rightarrow> audit_hash \<Rightarrow> audit_error + audit_chain_bridge" where
  "audit_chain_bridge_new source sequence head =
     (if sequence = 0 then Inl InvalidBridge
      else Inr \<lparr>bg_source = source, bg_source_sequence = sequence, bg_source_head = head\<rparr>)"

datatype audit_predecessor = Genesis | EntryHash audit_hash | Imported audit_chain_bridge

record audit_chain_position =
  cp_community_id :: community_id
  cp_next_sequence :: u64
  cp_predecessor :: audit_predecessor

definition chain_genesis :: "community_id \<Rightarrow> audit_error + audit_chain_position" where
  "chain_genesis community =
     (if uuid_is_nil (community_uuid community) then Inl InvalidCommunity
      else Inr \<lparr>cp_community_id = community, cp_next_sequence = 1, cp_predecessor = Genesis\<rparr>)"

definition from_imported ::
  "community_id \<Rightarrow> audit_chain_bridge \<Rightarrow> audit_error + audit_chain_position" where
  "from_imported community bridge =
     (if uuid_is_nil (community_uuid community) then Inl InvalidCommunity
      else
        and_then (ok_or (checked_add (bg_source_sequence bridge) 1) SequenceExhausted) (\<lambda>sequence.
        Inr \<lparr>cp_community_id = community, cp_next_sequence = sequence,
             cp_predecessor = Imported bridge\<rparr>))"

definition after_stored_head ::
  "community_id \<Rightarrow> u64 \<Rightarrow> audit_hash \<Rightarrow> audit_error + audit_chain_position" where
  "after_stored_head community sequence hash =
     (if uuid_is_nil (community_uuid community) \<or> sequence = 0 then Inl InvalidCommunity
      else
        and_then (ok_or (checked_add sequence 1) SequenceExhausted) (\<lambda>next_sequence.
        Inr \<lparr>cp_community_id = community, cp_next_sequence = next_sequence,
             cp_predecessor = EntryHash hash\<rparr>))"

record audit_entry =
  en_community_id :: community_id
  en_sequence :: u64
  en_record :: audit_record
  en_predecessor :: audit_predecessor
  en_hash :: audit_hash

section \<open>Hashing\<close>

definition write_bytes :: "nat list \<Rightarrow> nat list \<Rightarrow> audit_error + nat list" where
  "write_bytes encoded value =
     (if length value < 2 ^ 32 then Inr (encoded @ be_bytes 4 (length value) @ value)
      else Inl EntryTooLarge)"

fun write_value :: "nat list \<Rightarrow> audit_value \<Rightarrow> audit_error + nat list" where
  "write_value encoded (Identifier v) = write_bytes (encoded @ [1]) (str_bytes (identifier_str v))"
| "write_value encoded (Category v) = write_bytes (encoded @ [2]) (str_bytes (category_str v))"
| "write_value encoded (Unsigned v) = Inr (encoded @ [3] @ be_bytes 8 (unat v))"
| "write_value encoded (Signed v) = Inr (encoded @ [4] @ be_bytes 8 (unat v))"
| "write_value encoded (Boolean v) = Inr (encoded @ [5, if v then 1 else 0])"
| "write_value encoded (Redacted v) = Inr (encoded @ [6, redaction_code v])"

fun write_fields :: "nat list \<Rightarrow> audit_field list \<Rightarrow> audit_error + nat list" where
  "write_fields encoded [] = Inr encoded"
| "write_fields encoded (f # fs) =
     and_then (write_bytes encoded (str_bytes (field_name_str (fd_name f)))) (\<lambda>encoded.
     and_then (write_value encoded (fd_value f)) (\<lambda>encoded.
     write_fields encoded fs))"

fun actor_bytes :: "principal_id option \<Rightarrow> nat list" where
  "actor_bytes (Some actor) = 1 # be_bytes 16 (unat (principal_uuid actor))"
| "actor_bytes None = [0]"

fun predecessor_bytes :: "audit_predecessor \<Rightarrow> nat list" where
  "predecessor_bytes Genesis = [0]"
| "predecessor_bytes (EntryHash hash) = 1 # be_bytes 32 (unat (hash_bits hash))"
| "predecessor_bytes (Imported bridge) =
     [2, source_code (bg_source bridge)] @ be_bytes 8 (unat (bg_source_sequence bridge))
       @ be_bytes 32 (unat (hash_bits (bg_source_head bridge)))"

definition recompute_hash ::
  "(nat list \<Rightarrow> 256 word) \<Rightarrow> audit_entry \<Rightarrow> audit_error + audit_hash" where
  "recompute_hash sha256 entry =
     (let r = en_record entry in
      and_then (write_bytes [] (str_bytes AUDIT_HASH_DOMAIN)) (\<lambda>encoded.
      and_then (write_bytes
        (encoded @ be_bytes 16 (unat (community_uuid (en_community_id entry)))
          @ be_bytes 8 (unat (en_sequence entry))
          @ be_bytes 16 (unat (operation_uuid (ar_operation_id r))))
        (str_bytes (action_str (ar_action r)))) (\<lambda>encoded.
      if length (ar_fields r) \<ge> 2 ^ 16 then Inl EntryTooLarge
      else
      and_then (write_fields
        (encoded @ actor_bytes (ar_actor_principal_id r) @ [outcome_code (ar_outcome r)]
          @ be_bytes 8 (unat (ar_occurred_at_millis r)) @ be_bytes 2 (length (ar_fields r)))
        (ar_fields r)) (\<lambda>encoded.
      let encoded = encoded @ predecessor_bytes (en_predecessor entry) in
      if length encoded > MAX_ENCODED_ENTRY_BYTES then Inl EntryTooLarge
      else Inr (AuditHash (sha256 encoded))))))"

definition verify_entry :: "(nat list \<Rightarrow> 256 word) \<Rightarrow> audit_entry \<Rightarrow> audit_error + unit" where
  "verify_entry sha256 entry =
     and_then (recompute_hash sha256 entry) (\<lambda>hash.
       if hash = en_hash entry then Inr () else Inl HashMismatch)"

definition entry_at ::
  "audit_chain_position \<Rightarrow> audit_record \<Rightarrow> audit_hash \<Rightarrow> audit_entry" where
  "entry_at position r hash =
     \<lparr>en_community_id = cp_community_id position, en_sequence = cp_next_sequence position,
      en_record = r, en_predecessor = cp_predecessor position, en_hash = hash\<rparr>"

definition audit_append ::
  "(nat list \<Rightarrow> 256 word) \<Rightarrow> audit_chain_position \<Rightarrow> audit_record \<Rightarrow> audit_error + audit_entry" where
  "audit_append sha256 position r =
     (let entry = entry_at position r (AuditHash 0) in
      and_then (recompute_hash sha256 entry) (\<lambda>hash. Inr (entry\<lparr>en_hash := hash\<rparr>)))"

definition from_stored ::
  "(nat list \<Rightarrow> 256 word) \<Rightarrow> audit_chain_position \<Rightarrow> audit_record \<Rightarrow> audit_hash
   \<Rightarrow> audit_error + audit_entry" where
  "from_stored sha256 position r hash =
     (let entry = entry_at position r hash in
      and_then (verify_entry sha256 entry) (\<lambda>_. Inr entry))"

definition chain_after ::
  "(nat list \<Rightarrow> 256 word) \<Rightarrow> audit_entry \<Rightarrow> audit_error + audit_chain_position" where
  "chain_after sha256 entry =
     and_then (verify_entry sha256 entry) (\<lambda>_.
       after_stored_head (en_community_id entry) (en_sequence entry) (en_hash entry))"

definition previous_hash :: "audit_entry \<Rightarrow> audit_hash option" where
  "previous_hash entry = (case en_predecessor entry of EntryHash hash \<Rightarrow> Some hash | _ \<Rightarrow> None)"

definition chain_bridge :: "audit_entry \<Rightarrow> audit_chain_bridge option" where
  "chain_bridge entry = (case en_predecessor entry of Imported bridge \<Rightarrow> Some bridge | _ \<Rightarrow> None)"

section \<open>Valid values\<close>

text \<open>What the constructors guarantee of the values that reach the log.\<close>

fun value_ok :: "audit_value \<Rightarrow> bool" where
  "value_ok (Identifier v) = identifier_valid (identifier_str v)"
| "value_ok (Category v) = validate_category_token (category_str v) MAX_CATEGORY_BYTES"
| "value_ok _ = True"

definition field_ok :: "audit_field \<Rightarrow> bool" where
  "field_ok f \<longleftrightarrow>
     validate_category_token (field_name_str (fd_name f)) MAX_FIELD_NAME_BYTES
     \<and> value_ok (fd_value f)"

definition record_ok :: "audit_record \<Rightarrow> bool" where
  "record_ok r \<longleftrightarrow>
     validate_category_token (action_str (ar_action r)) MAX_ACTION_BYTES
     \<and> list_all field_ok (ar_fields r) \<and> length (ar_fields r) \<le> MAX_FIELDS"

lemma category_token_bytes:
  assumes "validate_category_token value maximum"
  shows "str_bytes value = value" and "length value \<le> maximum"
proof -
  have "\<forall>b \<in> set (str_bytes value). b < 128"
    using assms
    by (auto simp: validate_category_token_def list_all_iff is_ascii_lowercase_def
        is_ascii_digit_def)
  then show eq: "str_bytes value = value" by (rule str_bytes_ascii)
  with assms show "length value \<le> maximum"
    by (simp add: validate_category_token_def str_len_def)
qed

lemma identifier_bytes:
  assumes "identifier_valid value"
  shows "str_bytes value = value" and "length value \<le> MAX_IDENTIFIER_BYTES"
proof -
  have "\<forall>b \<in> set (str_bytes value). b < 128"
    using assms
    by (auto simp: identifier_valid_def list_all_iff is_ascii_alphanumeric_def
        is_ascii_lowercase_def is_ascii_digit_def)
  then show eq: "str_bytes value = value" by (rule str_bytes_ascii)
  with assms show "length value \<le> MAX_IDENTIFIER_BYTES"
    by (simp add: identifier_valid_def str_len_def)
qed

section \<open>The encoding\<close>

text \<open>The bytes each writer appends, and the preimage of an entry's hash.\<close>

fun value_bytes :: "audit_value \<Rightarrow> nat list" where
  "value_bytes (Identifier v) = 1 # length_prefixed (identifier_str v)"
| "value_bytes (Category v) = 2 # length_prefixed (category_str v)"
| "value_bytes (Unsigned v) = 3 # be_bytes 8 (unat v)"
| "value_bytes (Signed v) = 4 # be_bytes 8 (unat v)"
| "value_bytes (Boolean v) = [5, if v then 1 else 0]"
| "value_bytes (Redacted v) = [6, redaction_code v]"

definition field_bytes :: "audit_field \<Rightarrow> nat list" where
  "field_bytes f = length_prefixed (field_name_str (fd_name f)) @ value_bytes (fd_value f)"

definition record_bytes :: "audit_record \<Rightarrow> nat list" where
  "record_bytes r =
     be_bytes 16 (unat (operation_uuid (ar_operation_id r)))
     @ length_prefixed (action_str (ar_action r))
     @ actor_bytes (ar_actor_principal_id r) @ [outcome_code (ar_outcome r)]
     @ be_bytes 8 (unat (ar_occurred_at_millis r)) @ be_bytes 2 (length (ar_fields r))
     @ concat (map field_bytes (ar_fields r))"

definition entry_bytes :: "audit_entry \<Rightarrow> nat list" where
  "entry_bytes e =
     length_prefixed (str_bytes AUDIT_HASH_DOMAIN)
     @ be_bytes 16 (unat (community_uuid (en_community_id e)))
     @ be_bytes 8 (unat (en_sequence e))
     @ record_bytes (en_record e) @ predecessor_bytes (en_predecessor e)"

lemma write_bytes_eq:
  "length value < 2 ^ 32 \<Longrightarrow> write_bytes encoded value = Inr (encoded @ length_prefixed value)"
  by (simp add: write_bytes_def length_prefixed_def)

lemma write_value_eq: "value_ok v \<Longrightarrow> write_value encoded v = Inr (encoded @ value_bytes v)"
  by (cases v)
    (auto simp: write_bytes_eq identifier_bytes category_token_bytes audit_limits
      dest: identifier_bytes(2) category_token_bytes(2))

lemma write_fields_eq:
  "list_all field_ok fs \<Longrightarrow>
   write_fields encoded fs = Inr (encoded @ concat (map field_bytes fs))"
proof (induction fs arbitrary: encoded)
  case (Cons f fs)
  then have name: "validate_category_token (field_name_str (fd_name f)) MAX_FIELD_NAME_BYTES"
    and v: "value_ok (fd_value f)" by (simp_all add: field_ok_def)
  from category_token_bytes [OF name] Cons v show ?case
    by (simp add: write_bytes_eq write_value_eq field_bytes_def audit_limits)
qed simp

lemma length_value_bytes: "value_ok v \<Longrightarrow> length (value_bytes v) \<le> 261"
  by (cases v)
    (auto simp: audit_limits dest: identifier_bytes(2) category_token_bytes(2))

lemma length_field_bytes: "field_ok f \<Longrightarrow> length (field_bytes f) \<le> 329"
  using category_token_bytes(2) [of "field_name_str (fd_name f)" MAX_FIELD_NAME_BYTES]
    length_value_bytes [of "fd_value f"]
  by (simp add: field_ok_def field_bytes_def audit_limits)

lemma length_fields_bytes:
  "list_all field_ok fs \<Longrightarrow> length (concat (map field_bytes fs)) \<le> 329 * length fs"
  by (induction fs) (auto dest: length_field_bytes)

lemma length_predecessor_bytes: "length (predecessor_bytes p) \<le> 42"
  by (cases p) simp_all

lemma length_actor_bytes: "length (actor_bytes a) \<le> 17"
  by (cases a) simp_all

lemma length_domain: "length (str_bytes AUDIT_HASH_DOMAIN) = 32"
  by (simp add: AUDIT_HASH_DOMAIN_def string_defs)

lemma length_entry_bytes:
  assumes "record_ok (en_record e)"
  shows "length (entry_bytes e) \<le> MAX_ENCODED_ENTRY_BYTES"
proof -
  let ?r = "en_record e"
  have fs: "length (concat (map field_bytes (ar_fields ?r))) \<le> 329 * 32"
    using length_fields_bytes [of "ar_fields ?r"] assms by (simp add: record_ok_def audit_limits)
  have "length (action_str (ar_action ?r)) \<le> 128"
    using assms category_token_bytes(2) by (auto simp: record_ok_def audit_limits)
  with fs show ?thesis
    using length_predecessor_bytes [of "en_predecessor e"]
      length_actor_bytes [of "ar_actor_principal_id ?r"]
    by (simp add: entry_bytes_def record_bytes_def length_domain audit_limits)
qed

lemma recompute_hash_eq:
  assumes "record_ok (en_record e)"
  shows "recompute_hash sha256 e = Inr (AuditHash (sha256 (entry_bytes e)))"
proof -
  let ?r = "en_record e"
  have action: "str_bytes (action_str (ar_action ?r)) = action_str (ar_action ?r)"
      "length (action_str (ar_action ?r)) \<le> 128"
    using assms category_token_bytes by (auto simp: record_ok_def audit_limits)
  moreover have "list_all field_ok (ar_fields ?r)" "length (ar_fields ?r) \<le> 32"
    using assms by (simp_all add: record_ok_def audit_limits)
  ultimately show ?thesis
    using length_entry_bytes [OF assms]
    by (simp add: recompute_hash_def Let_def write_bytes_eq write_fields_eq length_domain
        entry_bytes_def record_bytes_def)
qed

section \<open>The encoding determines the entry\<close>

lemma redaction_code_inject [simp]: "redaction_code a = redaction_code b \<longleftrightarrow> a = b"
  by (cases a; cases b) simp_all

lemma outcome_code_inject [simp]: "outcome_code a = outcome_code b \<longleftrightarrow> a = b"
  by (cases a; cases b) simp_all

lemma be_bytes_word_inject [simp]:
  "be_bytes 8 (unat (v :: u64)) = be_bytes 8 (unat w) \<longleftrightarrow> v = w"
  "be_bytes 16 (unat (u :: uuid)) = be_bytes 16 (unat x) \<longleftrightarrow> u = x"
  "be_bytes 32 (unat (h :: 256 word)) = be_bytes 32 (unat k) \<longleftrightarrow> h = k"
proof -
  have "unat v < 256 ^ 8" "unat w < 256 ^ 8" using unat_u64_less [of v] unat_u64_less [of w] by simp_all
  then show "be_bytes 8 (unat v) = be_bytes 8 (unat w) \<longleftrightarrow> v = w"
    by (simp add: be_bytes_inject word_unat_eq_iff)
  have "unat u < 256 ^ 16" "unat x < 256 ^ 16"
    using unsigned_less [where ?'a = nat and w = u] unsigned_less [where ?'a = nat and w = x] by simp_all
  then show "be_bytes 16 (unat u) = be_bytes 16 (unat x) \<longleftrightarrow> u = x"
    by (simp add: be_bytes_inject word_unat_eq_iff)
  have "unat h < 256 ^ 32" "unat k < 256 ^ 32"
    using unsigned_less [where ?'a = nat and w = h] unsigned_less [where ?'a = nat and w = k] by simp_all
  then show "be_bytes 32 (unat h) = be_bytes 32 (unat k) \<longleftrightarrow> h = k"
    by (simp add: be_bytes_inject word_unat_eq_iff)
qed

lemma be_bytes_count_inject [simp]:
  "\<lbrakk>m \<le> 32; n \<le> 32\<rbrakk> \<Longrightarrow> be_bytes 2 m = be_bytes 2 n \<longleftrightarrow> m = n"
  by (simp add: be_bytes_inject)

lemma token_cancel:
  assumes "length a \<le> 256" "length b \<le> 256"
  shows "length_prefixed a @ r = length_prefixed b @ s \<longleftrightarrow> a = b \<and> r = s"
  using assms by (intro string_code.cancel) simp_all

lemma value_ok_length:
  "value_ok (Identifier i) \<Longrightarrow> length (identifier_str i) \<le> 256"
  "value_ok (Category c) \<Longrightarrow> length (category_str c) \<le> 256"
  using identifier_bytes(2) [of "identifier_str i"]
    category_token_bytes(2) [of "category_str c" MAX_CATEGORY_BYTES]
  by (simp_all add: audit_limits)

lemma field_ok_length: "field_ok f \<Longrightarrow> length (field_name_str (fd_name f)) \<le> 256"
  using category_token_bytes(2) [of "field_name_str (fd_name f)" MAX_FIELD_NAME_BYTES]
  by (simp add: field_ok_def audit_limits)

lemma record_ok_length: "record_ok r \<Longrightarrow> length (action_str (ar_action r)) \<le> 256"
  using category_token_bytes(2) [of "action_str (ar_action r)" MAX_ACTION_BYTES]
  by (simp add: record_ok_def audit_limits)

interpretation value_code: prefix_code value_ok value_bytes
proof unfold_locales
  fix a b r s
  assume "value_ok a" "value_ok b" "value_bytes a @ r = value_bytes b @ s"
  then show "a = b \<and> r = s"
    by (cases a; cases b)
      (auto simp: token_cancel value_ok_length simp del: value_ok.simps
        intro: audit_identifier.expand audit_category.expand split: if_splits)
qed

interpretation field_code: prefix_code field_ok field_bytes
proof unfold_locales
  fix a b r s
  assume ok: "field_ok a" "field_ok b" and eq: "field_bytes a @ r = field_bytes b @ s"
  from eq have "field_name_str (fd_name a) = field_name_str (fd_name b)"
      "value_bytes (fd_value a) @ r = value_bytes (fd_value b) @ s"
    using ok by (simp_all add: field_bytes_def token_cancel field_ok_length)
  with ok show "a = b \<and> r = s"
    by (auto simp: field_ok_def value_code.cancel audit_field_name.expand intro: audit_field.equality)
qed

lemma actor_cancel:
  "actor_bytes a @ r = actor_bytes b @ s \<longleftrightarrow> a = b \<and> r = s"
  by (cases a; cases b) (auto simp: principal_id.expand)

lemma bridge_equality:
  fixes a b :: audit_chain_bridge
  assumes "bg_source_sequence a = bg_source_sequence b"
    and "hash_bits (bg_source_head a) = hash_bits (bg_source_head b)"
  shows "a = b"
  using assms
  by (cases "bg_source a"; cases "bg_source b")
    (auto intro!: audit_chain_bridge.equality audit_hash.expand)

lemma predecessor_inject: "predecessor_bytes p = predecessor_bytes q \<longleftrightarrow> p = q"
  by (cases p; cases q) (auto intro: audit_hash.expand bridge_equality)

interpretation record_code: prefix_code record_ok record_bytes
proof unfold_locales
  fix a b r s
  assume ok: "record_ok a" "record_ok b" and eq: "record_bytes a @ r = record_bytes b @ s"
  have fields: "list_all field_ok (ar_fields a)" "list_all field_ok (ar_fields b)"
      "length (ar_fields a) \<le> 32" "length (ar_fields b) \<le> 32"
    using ok by (simp_all add: record_ok_def audit_limits)
  from eq have "operation_uuid (ar_operation_id a) = operation_uuid (ar_operation_id b)
      \<and> action_str (ar_action a) = action_str (ar_action b)
      \<and> ar_actor_principal_id a = ar_actor_principal_id b \<and> ar_outcome a = ar_outcome b
      \<and> ar_occurred_at_millis a = ar_occurred_at_millis b
      \<and> length (ar_fields a) = length (ar_fields b)
      \<and> concat (map field_bytes (ar_fields a)) @ r = concat (map field_bytes (ar_fields b)) @ s"
    using fields(3,4)
    by (simp add: record_bytes_def token_cancel record_ok_length [OF ok(1)]
        record_ok_length [OF ok(2)] actor_cancel)
  with fields field_code.cancel_concat show "a = b \<and> r = s"
    by (auto simp: operation_id.expand audit_action.expand intro: audit_record.equality)
qed

lemma entry_bytes_inject:
  assumes "record_ok (en_record e)" "record_ok (en_record f)" and "entry_bytes e = entry_bytes f"
  shows "en_community_id e = en_community_id f \<and> en_sequence e = en_sequence f
       \<and> en_record e = en_record f \<and> en_predecessor e = en_predecessor f"
  using assms
  by (simp add: entry_bytes_def record_code.cancel predecessor_inject
      community_id.expand)

section \<open>Chains\<close>

text \<open>Entries in sequence, each verified and stored at the position the one before it leaves.\<close>

definition stored_at :: "(nat list \<Rightarrow> 256 word) \<Rightarrow> audit_chain_position \<Rightarrow> audit_entry \<Rightarrow> bool" where
  "stored_at sha256 position e \<longleftrightarrow>
     from_stored sha256 position (en_record e) (en_hash e) = Inr e"

fun audit_chain ::
  "(nat list \<Rightarrow> 256 word) \<Rightarrow> audit_chain_position \<Rightarrow> audit_entry list \<Rightarrow> bool" where
  "audit_chain sha256 position [] = True"
| "audit_chain sha256 position (e # es) =
     (stored_at sha256 position e
      \<and> (es = [] \<or> (\<exists>position'. chain_after sha256 e = Inr position'
           \<and> audit_chain sha256 position' es)))"

lemma verify_entry_Inr:
  assumes "record_ok (en_record e)"
  shows "verify_entry sha256 e = Inr () \<longleftrightarrow> en_hash e = AuditHash (sha256 (entry_bytes e))"
  by (auto simp: verify_entry_def recompute_hash_eq [OF assms])

lemma stored_at_iff:
  "stored_at sha256 position e \<longleftrightarrow>
     verify_entry sha256 e = Inr () \<and> en_community_id e = cp_community_id position
     \<and> en_sequence e = cp_next_sequence position \<and> en_predecessor e = cp_predecessor position"
  by (cases e) (auto simp: stored_at_def from_stored_def Let_def result_simps entry_at_def)

lemma chain_after_predecessor:
  "chain_after sha256 e = Inr position \<Longrightarrow> cp_predecessor position = EntryHash (en_hash e)"
  by (auto simp: chain_after_def after_stored_head_def result_simps split: if_splits)

text \<open>The last entry of a chain points to the entry before it, or to where the chain starts.\<close>

lemma audit_chain_snoc:
  "audit_chain sha256 position (es @ [e]) \<Longrightarrow>
     audit_chain sha256 position es \<and> verify_entry sha256 e = Inr ()
     \<and> en_predecessor e =
         (if es = [] then cp_predecessor position else EntryHash (en_hash (last es)))"
proof (induction es arbitrary: position)
  case (Cons d es)
  from Cons.prems obtain position' where d: "stored_at sha256 position d"
      "chain_after sha256 d = Inr position'" "audit_chain sha256 position' (es @ [e])"
    by auto
  from Cons.IH [OF d(3)] d(1,2) chain_after_predecessor [OF d(2)] show ?case by auto
qed (simp add: stored_at_iff)

lemma audit_chain_unique:
  assumes "audit_chain sha256 position es" and "audit_chain sha256 position' fs"
    and "cp_predecessor position = Genesis" and "cp_predecessor position' = Genesis"
    and "\<forall>e \<in> set es \<union> set fs. record_ok (en_record e)"
    and "inj_on sha256 (entry_bytes ` (set es \<union> set fs))"
    and "es \<noteq> []" and "fs \<noteq> []" and "en_hash (last es) = en_hash (last fs)"
  shows "es = fs"
  using assms
proof (induction es arbitrary: fs rule: rev_induct)
  case (snoc e es)
  obtain f fs' where fs: "fs = fs' @ [f]" using snoc.prems(8) by (cases fs rule: rev_cases) auto
  note e = audit_chain_snoc [OF snoc.prems(1)]
  note f = audit_chain_snoc [OF snoc.prems(2) [unfolded fs]]
  have ok: "record_ok (en_record e)" "record_ok (en_record f)" using snoc.prems(5) fs by auto
  have "en_hash e = en_hash f" using snoc.prems(9) fs by simp
  with e f ok have "sha256 (entry_bytes e) = sha256 (entry_bytes f)"
    by (simp add: verify_entry_Inr)
  then have "entry_bytes e = entry_bytes f"
    by (rule inj_onD [OF snoc.prems(6)]) (auto simp: fs)
  from entry_bytes_inject [OF ok this] \<open>en_hash e = en_hash f\<close> have "e = f"
    by (auto intro: audit_entry.equality)
  show ?case
  proof (cases "es = []")
    case True
    with e f snoc.prems(3,4) \<open>e = f\<close> have "fs' = []" by (auto split: if_splits)
    with True fs \<open>e = f\<close> show ?thesis by simp
  next
    case False
    with e f snoc.prems(3,4) \<open>e = f\<close> have "fs' \<noteq> []" "en_hash (last es) = en_hash (last fs')"
      by (auto split: if_splits)
    moreover have "inj_on sha256 (entry_bytes ` (set es \<union> set fs'))"
      using snoc.prems(6) by (rule inj_on_subset) (auto simp: fs)
    ultimately have "es = fs'"
      using snoc.IH [of fs'] e f snoc.prems(3,4,5) False fs by simp
    with fs \<open>e = f\<close> show ?thesis by simp
  qed
qed simp

section \<open>Canonical fields\<close>

lemma adjacent_equal_sorted:
  "sorted_wrt (\<lambda>a b. f a \<le> (f b :: 'b :: linorder)) xs \<Longrightarrow> inj f \<Longrightarrow>
   adjacent_equal xs \<longleftrightarrow> \<not> distinct xs"
proof (induction xs rule: adjacent_equal.induct)
  case (1 x y zs)
  have "x \<notin> set zs" if "x \<noteq> y"
  proof
    assume "x \<in> set zs"
    with 1(2) have "f x = f y" by (auto intro: antisym)
    with 1(3) that show False by (auto dest: injD)
  qed
  with 1 show ?case by auto
qed simp_all

lemma inj_field_name_str: "inj field_name_str"
  by (rule injI) (rule audit_field_name.expand)

lemma audit_fields_new_Inr:
  "audit_fields_new fs = Inr gs \<longleftrightarrow>
     length fs \<le> MAX_FIELDS \<and> gs = sort_key (\<lambda>f. field_name_str (fd_name f)) fs
     \<and> distinct (map fd_name fs)
     \<and> (\<forall>f \<in> set fs. requires_redaction (fd_name f) \<longrightarrow> is_redacted (fd_value f))"
proof -
  let ?gs = "sort_key (\<lambda>f. field_name_str (fd_name f)) fs"
  have "sorted_wrt (\<lambda>a b. field_name_str a \<le> field_name_str b) (map fd_name ?gs)"
    using sorted_sort_key [of "\<lambda>f. field_name_str (fd_name f)" fs]
    by (simp add: sorted_map sorted_wrt_map)
  then have "adjacent_equal (map fd_name ?gs) \<longleftrightarrow> \<not> distinct (map fd_name ?gs)"
    by (rule adjacent_equal_sorted) (rule inj_field_name_str)
  also have "distinct (map fd_name ?gs) \<longleftrightarrow> distinct (map fd_name fs)"
    by (rule mset_eq_imp_distinct_iff) simp
  finally show ?thesis
    by (auto simp: audit_fields_new_def Let_def list_ex_iff not_less)
qed

section \<open>Properties\<close>

definition sample_record :: audit_record where
  "sample_record =
     \<lparr>ar_operation_id = OperationId 7, ar_action = AuditAction (lit ''member.add''),
      ar_actor_principal_id = Some (PrincipalId 3), ar_outcome = Succeeded,
      ar_occurred_at_millis = 10,
      ar_fields = [\<lparr>fd_name = AuditFieldName (lit ''count''), fd_value = Unsigned 2\<rparr>]\<rparr>"

definition sample_position :: audit_chain_position where
  "sample_position =
     \<lparr>cp_community_id = CommunityId 1, cp_next_sequence = 1, cp_predecessor = Genesis\<rparr>"

text \<open>A stand-in for the hash function, and an entry stored under it.\<close>

definition sample_sha :: "nat list \<Rightarrow> 256 word" where
  "sample_sha bytes = of_nat (length bytes)"

definition sample_entry :: audit_entry where
  "sample_entry = entry_at sample_position sample_record
     (AuditHash (sample_sha (entry_bytes (entry_at sample_position sample_record (AuditHash 0)))))"

definition sample_fields :: "audit_field list" where
  "sample_fields =
     [\<lparr>fd_name = AuditFieldName (lit ''token''), fd_value = Redacted Credential\<rparr>,
      \<lparr>fd_name = AuditFieldName (lit ''count''), fd_value = Unsigned 2\<rparr>]"

lemma sample_record_ok: "record_ok sample_record"
  by (simp add: record_ok_def field_ok_def sample_record_def validate_category_token_def
      string_defs audit_limits)

text \<open>C33. Appending never fails and stores what verifies: for a record whose action, names and
  values passed their constructors, appending at any position succeeds within the bound on the
  encoded size, the entry verifies, and reading it back from storage with its hash returns it.\<close>

theorem audit_append_total:
  assumes "record_ok r"
  shows "\<exists>e. audit_append sha256 position r = Inr e \<and> verify_entry sha256 e = Inr ()
       \<and> from_stored sha256 position r (en_hash e) = Inr e"
proof -
  let ?h = "AuditHash (sha256 (entry_bytes (entry_at position r (AuditHash 0))))"
  let ?e = "entry_at position r ?h"
  have "audit_append sha256 position r = Inr ?e"
    using assms by (simp add: audit_append_def Let_def recompute_hash_eq entry_at_def)
  moreover have "verify_entry sha256 ?e = Inr ()"
    using assms by (simp add: verify_entry_Inr entry_at_def entry_bytes_def)
  moreover from this have "from_stored sha256 position r (en_hash ?e) = Inr ?e"
    by (simp add: from_stored_def Let_def) (simp add: entry_at_def)
  ultimately show ?thesis by blast
qed

theorem audit_append_total_witness:
  "\<exists>e. audit_append sample_sha sample_position sample_record = Inr e
     \<and> verify_entry sample_sha e = Inr ()
     \<and> from_stored sample_sha sample_position sample_record (en_hash e) = Inr e"
  by (rule audit_append_total) (rule sample_record_ok)

text \<open>C3. The log is tamper evident: two chains from the beginning whose last entries have the same
  hash are the same chain, entry for entry, unless two of their entries collide under the hash
  function. So whoever keeps the head hash detects any change, removal, insertion or reordering
  of an earlier entry.\<close>

theorem audit_chain_tamper_evident:
  assumes "audit_chain sha256 position es" and "audit_chain sha256 position' fs"
    and "cp_predecessor position = Genesis" and "cp_predecessor position' = Genesis"
    and "\<forall>e \<in> set es \<union> set fs. record_ok (en_record e)"
    and "inj_on sha256 (entry_bytes ` (set es \<union> set fs))"
    and "es \<noteq> []" and "fs \<noteq> []" and "en_hash (last es) = en_hash (last fs)"
  shows "es = fs"
  using assms by (rule audit_chain_unique)

theorem audit_chain_tamper_evident_witness:
  "audit_chain sample_sha sample_position [sample_entry] \<and> [sample_entry] = [sample_entry]"
proof
  have "verify_entry sample_sha sample_entry = Inr ()"
    using sample_record_ok
    by (simp add: verify_entry_Inr sample_entry_def entry_at_def entry_bytes_def)
  then show chain: "audit_chain sample_sha sample_position [sample_entry]"
    by (simp add: stored_at_iff) (simp add: sample_entry_def entry_at_def)
  show "[sample_entry] = [sample_entry]"
    by (rule audit_chain_tamper_evident [OF chain chain])
      (simp_all add: sample_position_def sample_entry_def entry_at_def sample_record_ok)
qed

text \<open>Accepted audit fields are canonical and redacted: they are the given fields in order of
  their distinct names, every one with a sensitive segment in its name is redacted, and the
  order in which the caller listed them does not matter.\<close>

theorem audit_fields_canonical:
  assumes "audit_fields_new fs = Inr gs"
  shows "mset gs = mset fs \<and> sorted (map (\<lambda>f. field_name_str (fd_name f)) gs)
       \<and> distinct (map fd_name gs)
       \<and> (\<forall>f \<in> set gs. requires_redaction (fd_name f) \<longrightarrow> is_redacted (fd_value f))
       \<and> (\<forall>hs. mset hs = mset fs \<longrightarrow> audit_fields_new hs = Inr gs)"
proof -
  let ?key = "\<lambda>f. field_name_str (fd_name f)"
  from assms have fs: "length fs \<le> MAX_FIELDS" "gs = sort_key ?key fs" "distinct (map fd_name fs)"
      "\<forall>f \<in> set fs. requires_redaction (fd_name f) \<longrightarrow> is_redacted (fd_value f)"
    by (simp_all add: audit_fields_new_Inr)
  have dist: "distinct (map fd_name hs)" if "mset hs = mset fs" for hs
    using that fs(3) by (metis mset_eq_imp_distinct_iff mset_map)
  have inj: "inj_on ?key (set fs)"
    using fs(3) inj_field_name_str by (auto simp: distinct_map inj_on_def inj_def)
  have "audit_fields_new hs = Inr gs" if hs: "mset hs = mset fs" for hs
  proof -
    have "set hs = set fs" "length hs = length fs" using hs by (metis set_mset_mset, metis size_mset)
    moreover have "sort_key ?key hs = gs"
      using hs inj fs(2) \<open>set hs = set fs\<close>
      by (intro sort_key_inj_key_eq) (simp_all add: inj)
    ultimately show ?thesis using fs dist [OF hs] by (simp add: audit_fields_new_Inr)
  qed
  with fs dist [of gs] show ?thesis by simp
qed

theorem audit_fields_canonical_witness:
  "mset (rev sample_fields) = mset sample_fields
   \<and> audit_fields_new (rev sample_fields) = Inr (rev sample_fields)"
proof -
  have "audit_fields_new sample_fields = Inr (rev sample_fields)"
    by (auto simp: audit_fields_new_Inr sample_fields_def audit_limits lit_def is_redacted_def
        requires_redaction_def SENSITIVE_FIELD_SEGMENTS_def)
  from audit_fields_canonical [OF this] show ?thesis by simp
qed

end
