(* ===== verification/SumTree.thy ===== *)
theory SumTree
  imports Prelude "HOL-Library.Monad_Syntax"
begin

text \<open>
  Sum trees (\<open>sum_tree/src/sum_tree.rs\<close>): B+ trees whose nodes carry the summary of the items below
  them. Reference counts are invisible, since \<open>Arc::make_mut\<close> copies what is shared: a tree is a value,
  and a method on \<open>&mut self\<close> returns the new tree. What panics in the code (a fixed-size vector that
  overflows, a child of a leaf, an item of an internal node, a height that underflows) is \<open>None\<close>. The
  summaries are a parameter: a zero, an addition and the summary of one item.
\<close>

section \<open>Nodes\<close>

definition TREE_BASE :: nat where
  "TREE_BASE = 6"

record ('t, 's) summary_ops =
  so_zero :: 's
  so_add :: "'s \<Rightarrow> 's \<Rightarrow> 's"
  so_summary :: "'t \<Rightarrow> 's"

datatype ('t, 's) sum_tree =
    Internal (internal_height: nat) (internal_summary: 's) (internal_summaries: "'s list")
      (internal_trees: "('t, 's) sum_tree list")
  | Leaf (leaf_summary: 's) (leaf_items: "'t list") (leaf_summaries: "'s list")

definition is_leaf :: "('t, 's) sum_tree \<Rightarrow> bool" where
  "is_leaf t = (case t of Leaf _ _ _ \<Rightarrow> True | _ \<Rightarrow> False)"

definition height :: "('t, 's) sum_tree \<Rightarrow> nat" where
  "height t = (case t of Internal h _ _ _ \<Rightarrow> h | Leaf _ _ _ \<Rightarrow> 0)"

definition summary :: "('t, 's) sum_tree \<Rightarrow> 's" where
  "summary t = (case t of Internal _ s _ _ \<Rightarrow> s | Leaf s _ _ \<Rightarrow> s)"

definition child_summaries :: "('t, 's) sum_tree \<Rightarrow> 's list" where
  "child_summaries t = (case t of Internal _ _ ss _ \<Rightarrow> ss | Leaf _ _ ss \<Rightarrow> ss)"

definition child_trees :: "('t, 's) sum_tree \<Rightarrow> ('t, 's) sum_tree list option" where
  "child_trees t = (case t of Internal _ _ _ ts \<Rightarrow> Some ts | Leaf _ _ _ \<Rightarrow> None)"

definition node_items :: "('t, 's) sum_tree \<Rightarrow> 't list option" where
  "node_items t = (case t of Leaf _ xs _ \<Rightarrow> Some xs | Internal _ _ _ _ \<Rightarrow> None)"

definition is_underflowing :: "('t, 's) sum_tree \<Rightarrow> bool" where
  "is_underflowing t =
     (case t of Internal _ _ _ ts \<Rightarrow> length ts < TREE_BASE | Leaf _ xs _ \<Rightarrow> length xs < TREE_BASE)"

definition sum_summaries :: "('t, 's) summary_ops \<Rightarrow> 's list \<Rightarrow> 's" where
  "sum_summaries ops ss = foldl (so_add ops) (so_zero ops) ss"

text \<open>A fixed-size vector holds at most \<open>2 * TREE_BASE\<close> elements.\<close>

definition array_vec :: "'a list \<Rightarrow> 'a list option" where
  "array_vec xs = (if length xs \<le> 2 * TREE_BASE then Some xs else None)"

definition sub_height :: "nat \<Rightarrow> nat \<Rightarrow> nat option" where
  "sub_height a b = (if b \<le> a then Some (a - b) else None)"

section \<open>Building and appending\<close>

definition tree_new :: "('t, 's) summary_ops \<Rightarrow> ('t, 's) sum_tree" where
  "tree_new ops = Leaf (so_zero ops) [] []"

definition tree_is_empty :: "('t, 's) sum_tree \<Rightarrow> bool" where
  "tree_is_empty t = (case t of Internal _ _ _ _ \<Rightarrow> False | Leaf _ xs _ \<Rightarrow> xs = [])"

definition from_child_trees ::
  "('t, 's) summary_ops \<Rightarrow> ('t, 's) sum_tree \<Rightarrow> ('t, 's) sum_tree \<Rightarrow> ('t, 's) sum_tree" where
  "from_child_trees ops left right =
     (let ss = [summary left, summary right]
      in Internal (height left + 1) (sum_summaries ops ss) ss [left, right])"

text \<open>The end of \<open>push_tree_recursive\<close> on an internal node: add the children, or split the node.\<close>

definition extend_internal ::
  "('t, 's) summary_ops \<Rightarrow> nat \<Rightarrow> 's \<Rightarrow> 's list \<Rightarrow> ('t, 's) sum_tree list
   \<Rightarrow> 's list \<Rightarrow> ('t, 's) sum_tree list \<Rightarrow> (('t, 's) sum_tree \<times> ('t, 's) sum_tree option) option" where
  "extend_internal ops h s css cts summaries_to_append trees_to_append =
     (let child_count = length cts + length trees_to_append in
      if child_count > 2 * TREE_BASE then
        let midpoint = (child_count + child_count mod 2) div 2;
            all_summaries = css @ summaries_to_append; all_trees = cts @ trees_to_append
        in do {
          left_summaries \<leftarrow> array_vec (take midpoint all_summaries);
          right_summaries \<leftarrow> array_vec (drop midpoint all_summaries);
          left_trees \<leftarrow> array_vec (take midpoint all_trees);
          right_trees \<leftarrow> array_vec (drop midpoint all_trees);
          Some (Internal h (sum_summaries ops left_summaries) left_summaries left_trees,
            Some (Internal h (sum_summaries ops right_summaries) right_summaries right_trees))
        }
      else do {
        css \<leftarrow> array_vec (css @ summaries_to_append);
        cts \<leftarrow> array_vec (cts @ trees_to_append);
        Some (Internal h s css cts, None)
      })"

text \<open>\<open>push_tree_recursive\<close> on a leaf.\<close>

definition extend_leaf ::
  "('t, 's) summary_ops \<Rightarrow> 's \<Rightarrow> 't list \<Rightarrow> 's list \<Rightarrow> ('t, 's) sum_tree
   \<Rightarrow> (('t, 's) sum_tree \<times> ('t, 's) sum_tree option) option" where
  "extend_leaf ops s xs ss other = do {
     other_items \<leftarrow> node_items other;
     (let child_count = length xs + length other_items in
      if child_count > 2 * TREE_BASE then
        let midpoint = (child_count + child_count mod 2) div 2;
            all_items = xs @ other_items; all_summaries = ss @ child_summaries other
        in do {
          left_items \<leftarrow> array_vec (take midpoint all_items);
          right_items \<leftarrow> array_vec (drop midpoint all_items);
          left_summaries \<leftarrow> array_vec (take midpoint all_summaries);
          right_summaries \<leftarrow> array_vec (drop midpoint all_summaries);
          Some (Leaf (sum_summaries ops left_summaries) left_items left_summaries,
            Some (Leaf (sum_summaries ops right_summaries) right_items right_summaries))
        }
      else do {
        xs \<leftarrow> array_vec (xs @ other_items);
        ss \<leftarrow> array_vec (ss @ child_summaries other);
        Some (Leaf (so_add ops s (summary other)) xs ss, None)
      })
   }"

lemma child_size: "t \<in> set ts \<Longrightarrow> size t \<le> n + size_list size ts"
  by (rule trans_le_add2) (simp add: size_list_estimation')

function push_tree_recursive ::
  "('t, 's) summary_ops \<Rightarrow> ('t, 's) sum_tree \<Rightarrow> ('t, 's) sum_tree
   \<Rightarrow> (('t, 's) sum_tree \<times> ('t, 's) sum_tree option) option" where
  "push_tree_recursive ops (Internal h s css cts) other =
     (let s = so_add ops s (summary other) in do {
        height_delta \<leftarrow> sub_height h (height other);
        if height_delta = 0 then do {
          trees \<leftarrow> child_trees other;
          extend_internal ops h s css cts (child_summaries other) trees
        }
        else if height_delta = 1 \<and> \<not> is_underflowing other then
          extend_internal ops h s css cts [summary other] [other]
        else if cts = [] then None
        else do {
          (last_child, split) \<leftarrow> push_tree_recursive ops (last cts) other;
          (let css = butlast css @ [summary last_child]; cts = butlast cts @ [last_child] in
           case split of
             None \<Rightarrow> extend_internal ops h s css cts [] []
           | Some split_tree \<Rightarrow> extend_internal ops h s css cts [summary split_tree] [split_tree])
        }
      })"
| "push_tree_recursive ops (Leaf s xs ss) other = extend_leaf ops s xs ss other"
  by pat_completeness auto
termination
  by (relation "measure (\<lambda>(ops, self, other). size self)")
    (auto simp: less_Suc_eq_le intro!: child_size)

text \<open>\<open>merge_into_right\<close> returns the node split off on the left, if any, and the right node.\<close>

definition merge_into_right ::
  "('t, 's) summary_ops \<Rightarrow> ('t, 's) sum_tree \<Rightarrow> ('t, 's) sum_tree
   \<Rightarrow> (('t, 's) sum_tree option \<times> ('t, 's) sum_tree) option" where
  "merge_into_right ops small large =
     (case (small, large) of
        (Internal _ small_summary small_summaries small_trees, Internal h s css cts) \<Rightarrow>
          (let total = length cts + length small_trees in
           if total \<le> 2 * TREE_BASE then do {
             trees \<leftarrow> array_vec (small_trees @ cts);
             summaries \<leftarrow> array_vec (small_summaries @ css);
             Some (None, Internal h (so_add ops small_summary s) summaries trees)
           }
           else
             let midpoint = (total + 1) div 2; all_trees = small_trees @ cts;
                 all_summaries = small_summaries @ css
             in do {
               left_trees \<leftarrow> array_vec (take midpoint all_trees);
               cts \<leftarrow> array_vec (drop midpoint all_trees);
               left_summaries \<leftarrow> array_vec (take midpoint all_summaries);
               css \<leftarrow> array_vec (drop midpoint all_summaries);
               Some (Some (Internal h (sum_summaries ops left_summaries) left_summaries left_trees),
                 Internal h (sum_summaries ops css) css cts)
             })
      | (Leaf small_summary small_items small_summaries, Leaf s xs ss) \<Rightarrow>
          (let total = length small_items + length xs in
           if total \<le> 2 * TREE_BASE then do {
             xs \<leftarrow> array_vec (small_items @ xs);
             summaries \<leftarrow> array_vec (small_summaries @ ss);
             Some (None, Leaf (so_add ops small_summary s) xs summaries)
           }
           else
             let midpoint = (total + 1) div 2; all_items = small_items @ xs;
                 all_summaries = small_summaries @ ss
             in do {
               left_items \<leftarrow> array_vec (take midpoint all_items);
               xs \<leftarrow> array_vec (drop midpoint all_items);
               left_summaries \<leftarrow> array_vec (take midpoint all_summaries);
               ss \<leftarrow> array_vec (drop midpoint all_summaries);
               Some (Some (Leaf (sum_summaries ops left_summaries) left_items left_summaries),
                 Leaf (sum_summaries ops ss) xs ss)
             })
      | _ \<Rightarrow> None)"

text \<open>The end of \<open>append_large\<close>: insert the tree split off below in front, or split this node.\<close>

definition insert_first_child ::
  "('t, 's) summary_ops \<Rightarrow> nat \<Rightarrow> 's \<Rightarrow> 's list \<Rightarrow> ('t, 's) sum_tree list \<Rightarrow> ('t, 's) sum_tree
   \<Rightarrow> (('t, 's) sum_tree option \<times> ('t, 's) sum_tree) option" where
  "insert_first_child ops h s css cts tree =
     (if length cts < 2 * TREE_BASE then do {
        css \<leftarrow> array_vec (summary tree # css);
        cts \<leftarrow> array_vec (tree # cts);
        Some (None, Internal h s css cts)
      }
      else do {
        new_summaries \<leftarrow> array_vec (summary tree # take TREE_BASE css);
        new_trees \<leftarrow> array_vec (tree # take TREE_BASE cts);
        (let css = drop TREE_BASE css; cts = drop TREE_BASE cts in
         Some (Some (Internal h (sum_summaries ops new_summaries) new_summaries new_trees),
           Internal h (sum_summaries ops css) css cts))
      })"

text \<open>\<open>append_large\<close> returns the node split off on the left, if any, and the large tree.\<close>

function append_large ::
  "('t, 's) summary_ops \<Rightarrow> ('t, 's) sum_tree \<Rightarrow> ('t, 's) sum_tree
   \<Rightarrow> (('t, 's) sum_tree option \<times> ('t, 's) sum_tree) option" where
  "append_large ops small large =
     (if height small = height large then
        (if \<not> is_underflowing small then Some (Some small, large)
         else merge_into_right ops small large)
      else case large of
        Leaf _ _ _ \<Rightarrow> None
      | Internal h s css cts \<Rightarrow>
          (let s = so_add ops (summary small) s in
           if cts = [] then None
           else do {
             (res, first) \<leftarrow> append_large ops small (hd cts);
             (let css = summary first # tl css; cts = first # tl cts in
              case res of
                None \<Rightarrow> Some (None, Internal h s css cts)
              | Some tree \<Rightarrow> insert_first_child ops h s css cts tree)
           }))"
  by pat_completeness auto
termination
  by (relation "measure (\<lambda>(ops, small, large). size large)")
    (auto simp: less_Suc_eq_le intro!: child_size)

declare append_large.simps [simp del]

definition append_tree ::
  "('t, 's) summary_ops \<Rightarrow> ('t, 's) sum_tree \<Rightarrow> ('t, 's) sum_tree \<Rightarrow> ('t, 's) sum_tree option" where
  "append_tree ops self other =
     (if tree_is_empty self then Some other
      else if \<not> is_leaf other \<or> node_items other \<noteq> Some [] then
        (if height self < height other then do {
           (res, large) \<leftarrow> append_large ops self other;
           Some (case res of None \<Rightarrow> large | Some tree \<Rightarrow> from_child_trees ops tree large)
         }
         else do {
           (self, res) \<leftarrow> push_tree_recursive ops self other;
           Some (case res of None \<Rightarrow> self | Some split_tree \<Rightarrow> from_child_trees ops self split_tree)
         })
      else Some self)"

definition push_item ::
  "('t, 's) summary_ops \<Rightarrow> ('t, 's) sum_tree \<Rightarrow> 't \<Rightarrow> ('t, 's) sum_tree option" where
  "push_item ops self item =
     (let s = so_summary ops item in append_tree ops self (Leaf s [item] [s]))"

definition from_item :: "('t, 's) summary_ops \<Rightarrow> 't \<Rightarrow> ('t, 's) sum_tree option" where
  "from_item ops item = push_item ops (tree_new ops) item"

section \<open>Bulk loading\<close>

text \<open>The first loop of \<open>from_iter\<close>: full leaves, the last one possibly shorter.\<close>

definition leaf_of :: "('t, 's) summary_ops \<Rightarrow> 't list \<Rightarrow> ('t, 's) sum_tree" where
  "leaf_of ops xs =
     (let ss = map (so_summary ops) xs
      in Leaf (foldl (so_add ops) (hd ss) (tl ss)) xs ss)"

function leaf_nodes :: "('t, 's) summary_ops \<Rightarrow> 't list \<Rightarrow> ('t, 's) sum_tree list" where
  "leaf_nodes ops xs =
     (if xs = [] then []
      else leaf_of ops (take (2 * TREE_BASE) xs) # leaf_nodes ops (drop (2 * TREE_BASE) xs))"
  by pat_completeness auto
termination
  by (relation "measure (\<lambda>(ops, xs). length xs)") (auto simp: TREE_BASE_def)

declare leaf_nodes.simps [simp del]

text \<open>The body of the second loop: the current parent, taken when it is full.\<close>

definition add_child ::
  "('t, 's) summary_ops \<Rightarrow> nat \<Rightarrow> ('t, 's) sum_tree option \<Rightarrow> ('t, 's) sum_tree \<Rightarrow> ('t, 's) sum_tree option"
  where
  "add_child ops h current child =
     (case (case current of None \<Rightarrow> Internal h (so_zero ops) [] [] | Some parent \<Rightarrow> parent) of
        Leaf _ _ _ \<Rightarrow> None
      | Internal h s css cts \<Rightarrow> do {
          css \<leftarrow> array_vec (css @ [summary child]);
          cts \<leftarrow> array_vec (cts @ [child]);
          Some (Internal h (so_add ops s (summary child)) css cts)
        })"

fun parent_nodes ::
  "('t, 's) summary_ops \<Rightarrow> nat \<Rightarrow> ('t, 's) sum_tree option \<Rightarrow> ('t, 's) sum_tree list
   \<Rightarrow> ('t, 's) sum_tree list option" where
  "parent_nodes ops h current [] = Some (case current of None \<Rightarrow> [] | Some parent \<Rightarrow> [parent])"
| "parent_nodes ops h current (child # children) = do {
     parent \<leftarrow> add_child ops h current child;
     if length (internal_trees parent) = 2 * TREE_BASE
     then map_option ((#) parent) (parent_nodes ops h None children)
     else parent_nodes ops h (Some parent) children
   }"

lemma length_internal_trees_add_child:
  "add_child ops h current child = Some parent \<Longrightarrow>
     length (internal_trees parent) =
       (case current of None \<Rightarrow> 1 | Some p \<Rightarrow> length (internal_trees p) + 1)"
  by (auto simp: add_child_def array_vec_def bind_eq_Some_conv
      split: option.splits sum_tree.splits if_splits)

lemma parent_nodes_le:
  "parent_nodes ops h current ns = Some ps \<Longrightarrow>
     length ps \<le> length ns + (if current = None then 0 else 1)"
proof (induction ops h current ns arbitrary: ps rule: parent_nodes.induct)
  case (2 ops h current child children)
  then show ?case by (fastforce simp: bind_eq_Some_conv split: if_splits)
qed (auto split: option.splits)

lemma parent_nodes_current_le:
  "\<lbrakk>parent_nodes ops h (Some p) ns = Some ps; ns \<noteq> []\<rbrakk> \<Longrightarrow> length ps \<le> length ns"
  by (cases ns) (auto simp: bind_eq_Some_conv dest: parent_nodes_le split: if_splits)

lemma parent_nodes_less:
  assumes "parent_nodes ops h None ns = Some ps" "length ns > 1"
  shows "length ps < length ns"
proof -
  from assms(2) obtain n ms where ns: "ns = n # ms" "ms \<noteq> []" by (cases ns) auto
  from assms(1) ns(1) obtain p where "add_child ops h None n = Some p"
      "parent_nodes ops h (Some p) ms = Some ps"
    by (auto simp: bind_eq_Some_conv TREE_BASE_def dest: length_internal_trees_add_child split: if_splits)
  with parent_nodes_current_le [OF _ ns(2)] ns(1) show ?thesis by fastforce
qed

function build_levels ::
  "('t, 's) summary_ops \<Rightarrow> nat \<Rightarrow> ('t, 's) sum_tree list \<Rightarrow> ('t, 's) sum_tree list option" where
  "build_levels ops h nodes =
     (if length nodes > 1 then do {
        parents \<leftarrow> parent_nodes ops (h + 1) None nodes;
        build_levels ops (h + 1) parents
      }
      else Some nodes)"
  by pat_completeness auto
termination
  by (relation "measure (\<lambda>(ops, h, nodes). length nodes)") (auto dest: parent_nodes_less)

declare build_levels.simps [simp del]

definition tree_from_iter :: "('t, 's) summary_ops \<Rightarrow> 't list \<Rightarrow> ('t, 's) sum_tree option" where
  "tree_from_iter ops xs = do {
     nodes \<leftarrow> build_levels ops 0 (leaf_nodes ops xs);
     Some (if nodes = [] then tree_new ops else last nodes)
   }"

definition extend_tree ::
  "('t, 's) summary_ops \<Rightarrow> ('t, 's) sum_tree \<Rightarrow> 't list \<Rightarrow> ('t, 's) sum_tree option" where
  "extend_tree ops self xs = do {
     other \<leftarrow> tree_from_iter ops xs;
     append_tree ops self other
   }"

section \<open>The ends of a tree\<close>

function leftmost_leaf :: "('t, 's) sum_tree \<Rightarrow> ('t, 's) sum_tree option" where
  "leftmost_leaf t =
     (case t of
        Leaf _ _ _ \<Rightarrow> Some t
      | Internal _ _ _ cts \<Rightarrow> if cts = [] then None else leftmost_leaf (hd cts))"
  by pat_completeness auto
termination
  by (relation "measure size") (auto simp: less_Suc_eq_le intro!: child_size)

function rightmost_leaf :: "('t, 's) sum_tree \<Rightarrow> ('t, 's) sum_tree option" where
  "rightmost_leaf t =
     (case t of
        Leaf _ _ _ \<Rightarrow> Some t
      | Internal _ _ _ cts \<Rightarrow> if cts = [] then None else rightmost_leaf (last cts))"
  by pat_completeness auto
termination
  by (relation "measure size") (auto simp: less_Suc_eq_le intro!: child_size)

declare leftmost_leaf.simps [simp del] rightmost_leaf.simps [simp del]

text \<open>The outer option is the panic of \<open>unwrap\<close>, the inner one the result.\<close>

definition tree_first :: "('t, 's) sum_tree \<Rightarrow> 't option option" where
  "tree_first t = do {
     leaf \<leftarrow> leftmost_leaf t;
     xs \<leftarrow> node_items leaf;
     Some (if xs = [] then None else Some (hd xs))
   }"

definition tree_last :: "('t, 's) sum_tree \<Rightarrow> 't option option" where
  "tree_last t = do {
     leaf \<leftarrow> rightmost_leaf t;
     xs \<leftarrow> node_items leaf;
     Some (if xs = [] then None else Some (last xs))
   }"

text \<open>\<open>update_last\<close> and \<open>update_first\<close> with the summary that the recursion returns.\<close>

function update_last_recursive ::
  "('t, 's) summary_ops \<Rightarrow> ('t \<Rightarrow> 't) \<Rightarrow> ('t, 's) sum_tree
   \<Rightarrow> ('s option \<times> ('t, 's) sum_tree) option" where
  "update_last_recursive ops f (Internal h s css cts) =
     (if css = [] \<or> cts = [] then None
      else do {
        (res, last_child) \<leftarrow> update_last_recursive ops f (last cts);
        last_summary \<leftarrow> res;
        (let css = butlast css @ [last_summary]; s = sum_summaries ops css
         in Some (Some s, Internal h s css (butlast cts @ [last_child])))
      })"
| "update_last_recursive ops f (Leaf s xs ss) =
     (if xs = [] \<or> ss = [] then Some (None, Leaf s xs ss)
      else
        let item = f (last xs); ss = butlast ss @ [so_summary ops item]; s = sum_summaries ops ss
        in Some (Some s, Leaf s (butlast xs @ [item]) ss))"
  by pat_completeness auto
termination
  by (relation "measure (\<lambda>(ops, f, t). size t)") (auto simp: less_Suc_eq_le intro!: child_size)

definition update_last ::
  "('t, 's) summary_ops \<Rightarrow> ('t \<Rightarrow> 't) \<Rightarrow> ('t, 's) sum_tree \<Rightarrow> ('t, 's) sum_tree option" where
  "update_last ops f t = map_option snd (update_last_recursive ops f t)"

function update_first_recursive ::
  "('t, 's) summary_ops \<Rightarrow> ('t \<Rightarrow> 't) \<Rightarrow> ('t, 's) sum_tree
   \<Rightarrow> ('s option \<times> ('t, 's) sum_tree) option" where
  "update_first_recursive ops f (Internal h s css cts) =
     (if css = [] \<or> cts = [] then None
      else do {
        (res, first_child) \<leftarrow> update_first_recursive ops f (hd cts);
        first_summary \<leftarrow> res;
        (let css = first_summary # tl css; s = sum_summaries ops css
         in Some (Some s, Internal h s css (first_child # tl cts)))
      })"
| "update_first_recursive ops f (Leaf s xs ss) =
     (if xs = [] \<or> ss = [] then Some (None, Leaf s xs ss)
      else
        let item = f (hd xs); ss = so_summary ops item # tl ss; s = sum_summaries ops ss
        in Some (Some s, Leaf s (item # tl xs) ss))"
  by pat_completeness auto
termination
  by (relation "measure (\<lambda>(ops, f, t). size t)") (auto simp: less_Suc_eq_le intro!: child_size)

definition update_first ::
  "('t, 's) summary_ops \<Rightarrow> ('t \<Rightarrow> 't) \<Rightarrow> ('t, 's) sum_tree \<Rightarrow> ('t, 's) sum_tree option" where
  "update_first ops f t = map_option snd (update_first_recursive ops f t)"

section \<open>What a tree stands for\<close>

fun tree_items :: "('t, 's) sum_tree \<Rightarrow> 't list" where
  "tree_items (Leaf s xs ss) = xs"
| "tree_items (Internal h s css cts) = concat (map tree_items cts)"

text \<open>A node that is not empty: all leaves at the same depth, at most \<open>2 * TREE_BASE\<close> entries, and the
  summaries of the items below.\<close>

fun node_ok :: "('t, 's) summary_ops \<Rightarrow> ('t, 's) sum_tree \<Rightarrow> bool" where
  "node_ok ops (Leaf s xs ss) \<longleftrightarrow>
     xs \<noteq> [] \<and> length xs \<le> 2 * TREE_BASE \<and> ss = map (so_summary ops) xs
     \<and> s = sum_summaries ops ss"
| "node_ok ops (Internal h s css cts) \<longleftrightarrow>
     cts \<noteq> [] \<and> length cts \<le> 2 * TREE_BASE \<and> css = map summary cts
     \<and> s = sum_summaries ops css \<and> list_all (\<lambda>t. node_ok ops t \<and> h = height t + 1) cts"

definition tree_ok :: "('t, 's) summary_ops \<Rightarrow> ('t, 's) sum_tree \<Rightarrow> bool" where
  "tree_ok ops t \<longleftrightarrow> t = tree_new ops \<or> node_ok ops t"

text \<open>A node and what was split off to its right, or to its left.\<close>

definition split_right ::
  "('t, 's) summary_ops \<Rightarrow> nat \<Rightarrow> 't list \<Rightarrow> ('t, 's) sum_tree \<Rightarrow> ('t, 's) sum_tree option \<Rightarrow> bool" where
  "split_right ops h xs l r \<longleftrightarrow>
     node_ok ops l \<and> height l = h
     \<and> (case r of
          None \<Rightarrow> tree_items l = xs
        | Some r \<Rightarrow> node_ok ops r \<and> height r = h \<and> tree_items l @ tree_items r = xs)"

definition split_left ::
  "('t, 's) summary_ops \<Rightarrow> nat \<Rightarrow> 't list \<Rightarrow> ('t, 's) sum_tree option \<Rightarrow> ('t, 's) sum_tree \<Rightarrow> bool" where
  "split_left ops h xs l r \<longleftrightarrow>
     node_ok ops r \<and> height r = h
     \<and> (case l of
          None \<Rightarrow> tree_items r = xs
        | Some l \<Rightarrow> node_ok ops l \<and> height l = h \<and> tree_items l @ tree_items r = xs)"

lemma node_simps [simp]:
  "height (Internal h s css cts) = h" "height (Leaf s xs ss) = 0"
  "summary (Internal h s css cts) = s" "summary (Leaf s xs ss) = s"
  "child_summaries (Internal h s css cts) = css" "child_summaries (Leaf s xs ss) = ss"
  "child_trees (Internal h s css cts) = Some cts" "child_trees (Leaf s xs ss) = None"
  "node_items (Internal h s css cts) = None" "node_items (Leaf s xs ss) = Some xs"
  "is_leaf (Internal h s css cts) \<longleftrightarrow> False" "is_leaf (Leaf s xs ss) \<longleftrightarrow> True"
  "tree_is_empty (Internal h s css cts) \<longleftrightarrow> False" "tree_is_empty (Leaf s xs ss) \<longleftrightarrow> xs = []"
  by (simp_all add: height_def summary_def child_summaries_def child_trees_def node_items_def
      is_leaf_def tree_is_empty_def)

lemma array_vec_fits [simp]: "length xs \<le> 2 * TREE_BASE \<Longrightarrow> array_vec xs = Some xs"
  by (simp add: array_vec_def)

lemma halves_fit:
  assumes "n > 2 * TREE_BASE" "n \<le> 4 * TREE_BASE"
  shows "(n + n mod 2) div 2 \<le> 2 * TREE_BASE" "n - (n + n mod 2) div 2 \<le> 2 * TREE_BASE"
    "0 < (n + n mod 2) div 2" "(n + n mod 2) div 2 < n"
  using assms by (auto simp: TREE_BASE_def)

lemma node_ok_items: "node_ok ops t \<Longrightarrow> tree_items t \<noteq> []"
proof (induction t)
  case (Internal h s css cts)
  then obtain c cs where "cts = c # cs" by (cases cts) auto
  with Internal show ?case by auto
qed auto

lemma node_ok_nonempty: "node_ok ops t \<Longrightarrow> \<not> tree_is_empty t"
  by (cases t) auto

lemma node_ok_height_0: "node_ok ops t \<Longrightarrow> height t = 0 \<longleftrightarrow> is_leaf t"
  by (cases t) (auto simp: list_all_iff)

text \<open>The interface of summaries: an associative addition with a zero on the left. The zero need not
  be neutral on the right, since no operation adds the summary of an empty node.\<close>

locale summary_laws =
  fixes ops :: "('t, 's) summary_ops"
  assumes add_assoc: "so_add ops (so_add ops a b) c = so_add ops a (so_add ops b c)"
    and add_zero: "so_add ops (so_zero ops) a = a"
begin

lemma sum_Cons_add: "foldl (so_add ops) (so_add ops a b) ss = so_add ops a (foldl (so_add ops) b ss)"
  by (induction ss arbitrary: b) (simp_all add: add_assoc)

lemma sum_append:
  "ss' \<noteq> [] \<Longrightarrow> sum_summaries ops (ss @ ss') = so_add ops (sum_summaries ops ss) (sum_summaries ops ss')"
  by (cases ss') (simp_all add: sum_summaries_def add_zero sum_Cons_add)

lemma sum_single [simp]: "sum_summaries ops [s] = s"
  by (simp add: sum_summaries_def add_zero)

lemma sum_Nil_add [simp]: "so_add ops (sum_summaries ops []) s = s"
  by (simp add: sum_summaries_def add_zero)

lemma sum_snoc: "sum_summaries ops (ss @ [s]) = so_add ops (sum_summaries ops ss) s"
  by (simp add: sum_append)

lemma sum_Cons: "ss \<noteq> [] \<Longrightarrow> sum_summaries ops (s # ss) = so_add ops s (sum_summaries ops ss)"
  using sum_append [of ss "[s]"] by simp

lemma sum_hd: "ss \<noteq> [] \<Longrightarrow> foldl (so_add ops) (hd ss) (tl ss) = sum_summaries ops ss"
  by (cases ss) (simp_all add: sum_summaries_def add_zero)

text \<open>The summary of a node is the sum of the summaries of its items.\<close>

lemma sum_concat:
  assumes "list_all (\<lambda>t. summary t = sum_summaries ops (map (so_summary ops) (tree_items t))
      \<and> tree_items t \<noteq> []) cts" "cts \<noteq> []"
  shows "sum_summaries ops (map summary cts) =
    sum_summaries ops (map (so_summary ops) (concat (map tree_items cts)))"
  using assms
proof (induction cts rule: rev_induct)
  case (snoc t cts)
  then show ?case by (cases "cts = []") (simp_all add: sum_snoc sum_append)
qed simp

lemma summary_items:
  "node_ok ops t \<Longrightarrow> summary t = sum_summaries ops (map (so_summary ops) (tree_items t))"
proof (induction t)
  case (Internal h s css cts)
  then have "\<forall>t \<in> set cts. tree_items t \<noteq> []" by (auto simp: list_all_iff dest: node_ok_items)
  with Internal show ?case using sum_concat [of cts] by (auto simp: list_all_iff)
qed simp

lemma add_summaries:
  assumes "node_ok ops a" "node_ok ops b"
  shows "so_add ops (summary a) (summary b) =
    sum_summaries ops (map (so_summary ops) (tree_items a @ tree_items b))"
  unfolding summary_items [OF assms(1)] summary_items [OF assms(2)] map_append
  by (rule sum_append [symmetric]) (simp add: node_ok_items [OF assms(2)])

lemma extend_internal_split:
  assumes "cts \<noteq> []" "length cts \<le> 2 * TREE_BASE" "length ts \<le> 2 * TREE_BASE"
    and all: "list_all (\<lambda>t. node_ok ops t \<and> h = height t + 1) (cts @ ts)"
    and s: "s = sum_summaries ops (map summary (cts @ ts))"
  shows "\<exists>l r. extend_internal ops h s (map summary cts) cts (map summary ts) ts = Some (l, r)
    \<and> split_right ops h (concat (map tree_items (cts @ ts))) l r"
proof (cases "length cts + length ts > 2 * TREE_BASE")
  case True
  define mid where "mid = (length cts + length ts + (length cts + length ts) mod 2) div 2"
  let ?l = "take mid (cts @ ts)" and ?r = "drop mid (cts @ ts)"
  from True assms(2,3) have mid: "mid \<le> 2 * TREE_BASE" "length cts + length ts - mid \<le> 2 * TREE_BASE"
      "0 < mid" "mid < length cts + length ts"
    using halves_fit [of "length cts + length ts"] by (simp_all add: mid_def)
  have "list_all (\<lambda>t. node_ok ops t \<and> h = height t + 1) (?l @ ?r)"
    using all by (simp only: append_take_drop_id)
  then have parts: "list_all (\<lambda>t. node_ok ops t \<and> h = height t + 1) ?l"
      "list_all (\<lambda>t. node_ok ops t \<and> h = height t + 1) ?r"
    unfolding list_all_append by blast+
  have "concat (map tree_items (cts @ ts)) = concat (map tree_items ?l) @ concat (map tree_items ?r)"
    by (metis append_take_drop_id concat_append map_append)
  moreover have "?l \<noteq> []" "?r \<noteq> []" "length ?l \<le> 2 * TREE_BASE" "length ?r \<le> 2 * TREE_BASE"
    using mid assms(1) by auto
  moreover from this have "extend_internal ops h s (map summary cts) cts (map summary ts) ts =
      Some (Internal h (sum_summaries ops (map summary ?l)) (map summary ?l) ?l,
        Some (Internal h (sum_summaries ops (map summary ?r)) (map summary ?r) ?r))"
    using True
    by (simp add: extend_internal_def Let_def take_map drop_map flip: mid_def map_append
        del: take_append drop_append length_take length_drop)
  ultimately show ?thesis
    using parts by (simp add: split_right_def list_all_append del: take_append drop_append)
next
  case False
  with assms show ?thesis
    by (simp add: extend_internal_def Let_def split_right_def)
qed

lemma node_ok_last:
  assumes "node_ok ops (Internal h s css cts)"
  shows "node_ok ops (last cts)" "h = height (last cts) + 1"
  using assms by (auto simp: list_all_iff)

lemma node_ok_butlast:
  assumes "node_ok ops (Internal h s css cts)"
  shows "css = map summary cts" "list_all (\<lambda>t. node_ok ops t \<and> h = height t + 1) (butlast cts)"
    "length (butlast cts) < 2 * TREE_BASE"
    "concat (map tree_items cts) = concat (map tree_items (butlast cts)) @ tree_items (last cts)"
proof -
  from assms have ne: "cts \<noteq> []" by simp
  show "concat (map tree_items cts) = concat (map tree_items (butlast cts)) @ tree_items (last cts)"
    by (subst append_butlast_last_id [OF ne, symmetric]) simp
qed (use assms in \<open>auto simp: list_all_iff TREE_BASE_def dest: in_set_butlastD\<close>)

lemma split_right_summary:
  assumes "split_right ops h xs l r"
  shows "sum_summaries ops (summary l # (case r of None \<Rightarrow> [] | Some r \<Rightarrow> [summary r])) =
    sum_summaries ops (map (so_summary ops) xs)"
  using assms summary_items
  by (auto simp: split_right_def sum_Cons sum_append node_ok_items split: option.splits)

lemma extend_leaf_split:
  assumes "node_ok ops (Leaf s xs ss)" "node_ok ops other" "height other = 0"
  shows "\<exists>l r. extend_leaf ops s xs ss other = Some (l, r)
    \<and> split_right ops 0 (xs @ tree_items other) l r"
proof -
  from node_ok_height_0 [OF assms(2)] assms(3) obtain s' ys ss' where other: "other = Leaf s' ys ss'"
    by (cases other) simp_all
  show ?thesis
  proof (cases "length xs + length ys > 2 * TREE_BASE")
    case True
    define mid where "mid = (length xs + length ys + (length xs + length ys) mod 2) div 2"
    from True assms other have "mid \<le> 2 * TREE_BASE" "length xs + length ys - mid \<le> 2 * TREE_BASE"
        "0 < mid" "mid < length xs + length ys"
      using halves_fit [of "length xs + length ys"] by (simp_all add: mid_def)
    with True assms other show ?thesis
      by (simp add: extend_leaf_def Let_def split_right_def take_map drop_map
          flip: mid_def map_append del: take_append drop_append)
  next
    case False
    with assms other show ?thesis
      by (simp add: extend_leaf_def Let_def split_right_def sum_append)
  qed
qed

lemma replace_last_split:
  assumes ok: "node_ok ops (Internal h s css cts)" and other: "node_ok ops other"
    and lr: "split_right ops (height (last cts)) (tree_items (last cts) @ tree_items other) l r"
  shows "\<exists>l' r'. extend_internal ops h (so_add ops s (summary other)) (butlast css @ [summary l])
      (butlast cts @ [l]) (case r of None \<Rightarrow> [] | Some t \<Rightarrow> [summary t])
      (case r of None \<Rightarrow> [] | Some t \<Rightarrow> [t]) = Some (l', r')
    \<and> split_right ops h (concat (map tree_items cts) @ tree_items other) l' r'"
proof -
  note last = node_ok_last [OF ok] and butlast = node_ok_butlast [OF ok]
  let ?ts = "case r of None \<Rightarrow> [] | Some t \<Rightarrow> [t]" and ?s = "so_add ops s (summary other)"
  have ts: "map summary ?ts = (case r of None \<Rightarrow> [] | Some t \<Rightarrow> [summary t])" "length ?ts \<le> 2 * TREE_BASE"
    by (simp_all add: TREE_BASE_def split: option.splits)
  have "so_add ops (summary (last cts)) (summary other) = sum_summaries ops (summary l # map summary ?ts)"
    unfolding add_summaries [OF last(1) other] ts(1) by (rule split_right_summary [OF lr, symmetric])
  moreover have "map summary cts = map summary (butlast cts) @ [summary (last cts)]"
    using ok by (cases cts rule: rev_cases) simp_all
  ultimately have s: "?s = sum_summaries ops (map summary ((butlast cts @ [l]) @ ?ts))"
    using ok by (simp add: sum_snoc add_assoc sum_append)
  have "list_all (\<lambda>t. node_ok ops t \<and> h = height t + 1) ((butlast cts @ [l]) @ ?ts)"
    using butlast(2) lr last(2) by (auto simp: split_right_def split: option.splits)
  from extend_internal_split [OF _ _ ts(2) this s] butlast(1,3) ts(1)
  have "\<exists>l' r'. extend_internal ops h ?s (butlast css @ [summary l]) (butlast cts @ [l])
      (case r of None \<Rightarrow> [] | Some t \<Rightarrow> [summary t]) ?ts = Some (l', r')
    \<and> split_right ops h (concat (map tree_items ((butlast cts @ [l]) @ ?ts))) l' r'"
    by (simp add: map_butlast)
  moreover have "concat (map tree_items ((butlast cts @ [l]) @ ?ts)) =
      concat (map tree_items cts) @ tree_items other"
    using lr butlast(4) by (auto simp: split_right_def split: option.splits)
  ultimately show ?thesis by simp
qed

lemma push_tree_recursive_split:
  "\<lbrakk>node_ok ops self; node_ok ops other; height other \<le> height self\<rbrakk> \<Longrightarrow>
   \<exists>l r. push_tree_recursive ops self other = Some (l, r)
     \<and> split_right ops (height self) (tree_items self @ tree_items other) l r"
proof (induction self arbitrary: other)
  case (Leaf s xs ss)
  then show ?case using extend_leaf_split [of s xs ss other] by simp
next
  case (Internal h s css cts)
  let ?s = "so_add ops s (summary other)"
  note ok = Internal.prems(1)
  then have cts: "cts \<noteq> []" "length cts \<le> 2 * TREE_BASE" "css = map summary cts"
      "s = sum_summaries ops css" "list_all (\<lambda>t. node_ok ops t \<and> h = height t + 1) cts"
    by simp_all
  from Internal.prems have delta: "sub_height h (height other) = Some (h - height other)"
    by (simp add: sub_height_def)
  consider (same) "height other = h" | (child) "h = height other + 1" "\<not> is_underflowing other"
    | (below) "height other < h" "\<not> (h = height other + 1 \<and> \<not> is_underflowing other)"
    using Internal.prems(3) by fastforce
  then show ?case
  proof cases
    case same
    then have "\<not> is_leaf other" using node_ok_height_0 [OF Internal.prems(2)] cts(1,5)
      by (auto simp: list_all_iff)
    with same obtain s' css' ts where other: "other = Internal h s' css' ts"
      by (cases other) simp_all
    with Internal.prems(2) cts have "?s = sum_summaries ops (map summary (cts @ ts))"
      by (simp add: sum_append)
    with extend_internal_split [of cts ts h ?s] Internal.prems(2) cts other delta show ?thesis
      by (simp add: list_all_append)
  next
    case child
    have "?s = sum_summaries ops (map summary (cts @ [other]))" using cts by (simp add: sum_snoc)
    with extend_internal_split [of cts "[other]" h ?s] cts delta child Internal.prems(2)
    show ?thesis by (simp add: TREE_BASE_def)
  next
    case below
    note last = node_ok_last [OF ok] and butlast = node_ok_butlast [OF ok]
    obtain l r where rec: "push_tree_recursive ops (last cts) other = Some (l, r)"
        and lr: "split_right ops (height (last cts)) (tree_items (last cts) @ tree_items other) l r"
      using Internal.IH [of "last cts" other] cts(1) last below(1) Internal.prems(2) by auto
    from below have "h - height other \<noteq> 0" "\<not> (h - height other = 1 \<and> \<not> is_underflowing other)"
      by auto
    with replace_last_split [OF ok Internal.prems(2) lr] rec delta cts(1) show ?thesis
      by (cases r) (auto simp: Let_def)
  qed
qed

lemma merge_into_right_split:
  assumes "node_ok ops small" "node_ok ops large" "height small = height large"
  shows "\<exists>l r. merge_into_right ops small large = Some (l, r)
    \<and> split_left ops (height large) (tree_items small @ tree_items large) l r"
proof (cases "is_leaf large")
  case True
  with assms(3) node_ok_height_0 [OF assms(1)] node_ok_height_0 [OF assms(2)]
  obtain s xs ss s' ys ss' where nodes: "small = Leaf s xs ss" "large = Leaf s' ys ss'"
    by (cases small; cases large) simp_all
  show ?thesis
  proof (cases "length xs + length ys > 2 * TREE_BASE")
    case True
    define mid where "mid = (length xs + length ys + 1) div 2"
    from True assms nodes have "mid \<le> 2 * TREE_BASE" "length xs + length ys - mid \<le> 2 * TREE_BASE"
        "0 < mid" "mid < length xs + length ys"
      by (auto simp: TREE_BASE_def mid_def)
    with True assms nodes show ?thesis
      by (simp add: merge_into_right_def Let_def split_left_def take_map drop_map
          flip: mid_def [simplified] map_append del: take_append drop_append)
  next
    case False
    with assms nodes show ?thesis
      by (simp add: merge_into_right_def Let_def split_left_def sum_append)
  qed
next
  case False
  with assms(3) node_ok_height_0 [OF assms(1)] node_ok_height_0 [OF assms(2)]
  obtain h s css cts h' s' css' ts
    where nodes: "small = Internal h s css cts" "large = Internal h' s' css' ts"
    by (cases small; cases large) simp_all
  with assms have h: "h' = h" by simp
  show ?thesis
  proof (cases "length ts + length cts > 2 * TREE_BASE")
    case True
    define mid where "mid = (length ts + length cts + 1) div 2"
    let ?l = "take mid (cts @ ts)" and ?r = "drop mid (cts @ ts)"
    from True assms nodes have "mid \<le> 2 * TREE_BASE" "length ts + length cts - mid \<le> 2 * TREE_BASE"
        "0 < mid" "mid < length ts + length cts"
      by (auto simp: TREE_BASE_def mid_def)
    then have "?l \<noteq> []" "?r \<noteq> []" "length ?l \<le> 2 * TREE_BASE" "length ?r \<le> 2 * TREE_BASE" by auto
    moreover from this have "merge_into_right ops small large =
        Some (Some (Internal h (sum_summaries ops (map summary ?l)) (map summary ?l) ?l),
          Internal h (sum_summaries ops (map summary ?r)) (map summary ?r) ?r)"
      using True assms nodes h
      by (simp add: merge_into_right_def Let_def take_map drop_map flip: mid_def [simplified] map_append
          del: take_append drop_append length_take length_drop)
    moreover have "list_all (\<lambda>t. node_ok ops t \<and> h = height t + 1) (?l @ ?r)"
      using assms nodes h by (simp only: append_take_drop_id list_all_append) simp
    then have "list_all (\<lambda>t. node_ok ops t \<and> h = height t + 1) ?l"
        "list_all (\<lambda>t. node_ok ops t \<and> h = height t + 1) ?r"
      unfolding list_all_append by blast+
    moreover have "concat (map tree_items cts) @ concat (map tree_items ts) =
        concat (map tree_items ?l) @ concat (map tree_items ?r)"
      by (metis append_take_drop_id concat_append map_append)
    ultimately show ?thesis
      using nodes h by (simp add: split_left_def del: take_append drop_append)
  next
    case False
    with assms nodes h show ?thesis
      by (simp add: merge_into_right_def Let_def split_left_def sum_append)
  qed
qed

lemma insert_first_child_split:
  assumes "list_all (\<lambda>t. node_ok ops t \<and> h = height t + 1) (tree # cts)"
    and "cts \<noteq> []" "length cts \<le> 2 * TREE_BASE"
    and "s = sum_summaries ops (map summary (tree # cts))"
  shows "\<exists>l r. insert_first_child ops h s (map summary cts) cts tree = Some (l, r)
    \<and> split_left ops h (concat (map tree_items (tree # cts))) l r"
proof (cases "length cts < 2 * TREE_BASE")
  case True
  with assms show ?thesis by (auto simp: insert_first_child_def split_left_def)
next
  case False
  let ?t = "take TREE_BASE cts" and ?d = "drop TREE_BASE cts"
  from False assms(3) have len: "length cts = 2 * TREE_BASE" by simp
  have "list_all (\<lambda>t. node_ok ops t \<and> h = height t + 1) (?t @ ?d)"
    using assms(1) by (auto simp only: append_take_drop_id list.pred_inject(2))
  then have "list_all (\<lambda>t. node_ok ops t \<and> h = height t + 1) ?t"
      "list_all (\<lambda>t. node_ok ops t \<and> h = height t + 1) ?d"
    unfolding list_all_append by simp_all
  moreover have "concat (map tree_items cts) =
      concat (map tree_items ?t) @ concat (map tree_items ?d)"
    by (metis append_take_drop_id concat_append map_append)
  ultimately show ?thesis
    using assms(1) len
    by (simp add: insert_first_child_def Let_def split_left_def TREE_BASE_def take_map drop_map)
qed

lemma split_left_summary:
  assumes "split_left ops h xs l r"
  shows "sum_summaries ops ((case l of None \<Rightarrow> [] | Some l \<Rightarrow> [summary l]) @ [summary r]) =
    sum_summaries ops (map (so_summary ops) xs)"
  using assms summary_items
  by (auto simp: split_left_def sum_Cons sum_append node_ok_items split: option.splits)

lemma append_large_split:
  "\<lbrakk>node_ok ops small; node_ok ops large; height small \<le> height large\<rbrakk> \<Longrightarrow>
   \<exists>l r. append_large ops small large = Some (l, r)
     \<and> split_left ops (height large) (tree_items small @ tree_items large) l r"
proof (induction large)
  case (Leaf s xs ss)
  then show ?case
    using merge_into_right_split [of small "Leaf s xs ss"]
    by (auto simp: append_large.simps [of ops small] split_left_def)
next
  case (Internal h s css cts)
  note ok = Internal.prems(2)
  show ?case
  proof (cases "height small = h")
    case True
    with Internal.prems merge_into_right_split [of small "Internal h s css cts"] show ?thesis
      by (auto simp: append_large.simps [of ops small] split_left_def)
  next
    case False
    from ok obtain c cs where cts: "cts = c # cs" by (cases cts) simp_all
    with ok have c: "node_ok ops c" "h = height c + 1" by simp_all
    from Internal.IH [of c] Internal.prems False cts c obtain l r where
      rec: "append_large ops small c = Some (l, r)"
      and lr: "split_left ops (height c) (tree_items small @ tree_items c) l r"
      by auto
    let ?s = "so_add ops (summary small) s"
    let ?new = "(case l of None \<Rightarrow> [] | Some l \<Rightarrow> [l]) @ r # cs"
    have "so_add ops (summary small) (summary c) =
        sum_summaries ops ((case l of None \<Rightarrow> [] | Some l \<Rightarrow> [summary l]) @ [summary r])"
      unfolding split_left_summary [OF lr] by (rule add_summaries [OF Internal.prems(1) c(1)])
    then have s: "?s = sum_summaries ops (map summary ?new)"
      using ok cts by (cases "cs = []"; cases l) (simp_all add: sum_Cons flip: add_assoc)
    have all: "list_all (\<lambda>t. node_ok ops t \<and> h = height t + 1) ?new"
      using ok cts c lr by (auto simp: split_left_def split: option.splits)
    have items: "concat (map tree_items ?new) = tree_items small @ concat (map tree_items cts)"
      using lr cts by (auto simp: split_left_def split: option.splits)
    have unfold: "append_large ops small (Internal h s css cts) =
        (case l of None \<Rightarrow> Some (None, Internal h ?s (map summary (r # cs)) (r # cs))
         | Some tree \<Rightarrow> insert_first_child ops h ?s (map summary (r # cs)) (r # cs) tree)"
      by (subst append_large.simps) (use rec ok cts False in \<open>auto simp: Let_def split: option.split\<close>)
    show ?thesis
    proof (cases l)
      case None
      with unfold s all items ok cts show ?thesis by (auto simp: split_left_def)
    next
      case (Some tree)
      then have "?new = tree # r # cs" by simp
      note parts = all [unfolded this] s [unfolded this] items [unfolded this]
      have "length (r # cs) \<le> 2 * TREE_BASE" using ok cts by simp
      from insert_first_child_split [OF parts(1) _ this parts(2)] parts(3) unfold Some
      show ?thesis by (simp only: option.case node_simps tree_items.simps) blast
    qed
  qed
qed

lemma from_child_trees_ok:
  assumes "node_ok ops l" "node_ok ops r" "height l = height r"
  shows "node_ok ops (from_child_trees ops l r)"
    "tree_items (from_child_trees ops l r) = tree_items l @ tree_items r"
  using assms by (simp_all add: from_child_trees_def Let_def TREE_BASE_def)

text \<open>Appending refines the concatenation of the items, and never panics.\<close>

lemma append_tree_refines:
  assumes "tree_ok ops a" "tree_ok ops b"
  shows "\<exists>t. append_tree ops a b = Some t \<and> tree_ok ops t \<and> tree_items t = tree_items a @ tree_items b"
proof (cases "a = tree_new ops \<or> b = tree_new ops")
  case True
  with assms show ?thesis
    by (auto simp: append_tree_def tree_new_def tree_ok_def dest: node_ok_nonempty)
next
  case False
  with assms have ok: "node_ok ops a" "node_ok ops b" by (simp_all add: tree_ok_def)
  then have ne: "\<not> tree_is_empty a" "\<not> is_leaf b \<or> node_items b \<noteq> Some []"
    by (cases a; cases b; simp)+
  show ?thesis
  proof (cases "height a < height b")
    case True
    with append_large_split [OF ok] obtain l r where
      "append_large ops a b = Some (l, r)" "split_left ops (height b) (tree_items a @ tree_items b) l r"
      by auto
    with ne True from_child_trees_ok show ?thesis
      by (cases l) (auto simp: append_tree_def split_left_def tree_ok_def)
  next
    case False
    with push_tree_recursive_split [OF ok] obtain l r where
      "push_tree_recursive ops a b = Some (l, r)"
      "split_right ops (height a) (tree_items a @ tree_items b) l r"
      by auto
    with ne False from_child_trees_ok show ?thesis
      by (cases r) (auto simp: append_tree_def split_right_def tree_ok_def)
  qed
qed

lemma push_item_refines:
  "tree_ok ops t \<Longrightarrow> \<exists>u. push_item ops t x = Some u \<and> tree_ok ops u \<and> tree_items u = tree_items t @ [x]"
  using append_tree_refines [of t "Leaf (so_summary ops x) [x] [so_summary ops x]"]
  by (simp add: push_item_def Let_def tree_ok_def TREE_BASE_def)

lemma leaf_of_ok:
  "\<lbrakk>xs \<noteq> []; length xs \<le> 2 * TREE_BASE\<rbrakk> \<Longrightarrow>
     node_ok ops (leaf_of ops xs) \<and> height (leaf_of ops xs) = 0 \<and> tree_items (leaf_of ops xs) = xs"
  by (simp add: leaf_of_def Let_def sum_hd)

lemma leaf_nodes_ok:
  "list_all (\<lambda>t. node_ok ops t \<and> height t = 0) (leaf_nodes ops xs)
   \<and> concat (map tree_items (leaf_nodes ops xs)) = xs"
proof (induction xs rule: length_induct)
  case (1 xs)
  show ?case
  proof (cases "xs = []")
    case False
    then have "length (drop (2 * TREE_BASE) xs) < length xs" by (simp add: TREE_BASE_def)
    with 1 False leaf_of_ok [of "take (2 * TREE_BASE) xs"] show ?thesis
      by (simp add: leaf_nodes.simps [of ops xs] TREE_BASE_def)
  qed (simp add: leaf_nodes.simps)
qed

definition partial_parent :: "nat \<Rightarrow> ('t, 's) sum_tree option \<Rightarrow> bool" where
  "partial_parent h current \<longleftrightarrow>
     (case current of None \<Rightarrow> True
      | Some p \<Rightarrow> node_ok ops p \<and> height p = h \<and> length (internal_trees p) < 2 * TREE_BASE)"

definition current_items :: "('t, 's) sum_tree option \<Rightarrow> 't list" where
  "current_items current = (case current of None \<Rightarrow> [] | Some p \<Rightarrow> tree_items p)"

lemma add_child_ok:
  assumes "partial_parent h current" "node_ok ops child" "h = height child + 1"
  shows "\<exists>p. add_child ops h current child = Some p \<and> node_ok ops p \<and> height p = h
    \<and> tree_items p = current_items current @ tree_items child"
proof (cases current)
  case None
  with assms show ?thesis
    by (simp add: add_child_def current_items_def TREE_BASE_def add_zero)
next
  case (Some p)
  with assms obtain s css cts where "p = Internal h s css cts"
    by (cases p) (auto simp: partial_parent_def)
  with Some assms show ?thesis
    by (auto simp: add_child_def partial_parent_def current_items_def sum_snoc)
qed

lemma parent_nodes_ok:
  "\<lbrakk>list_all (\<lambda>t. node_ok ops t \<and> h = height t + 1) ns; partial_parent h current\<rbrakk> \<Longrightarrow>
   \<exists>ps. parent_nodes ops h current ns = Some ps \<and> list_all (\<lambda>t. node_ok ops t \<and> height t = h) ps
     \<and> concat (map tree_items ps) = current_items current @ concat (map tree_items ns)"
proof (induction ns arbitrary: current)
  case Nil
  then show ?case by (auto simp: partial_parent_def current_items_def split: option.splits)
next
  case (Cons n ns)
  then have n: "node_ok ops n" "h = height n + 1"
      and ns: "list_all (\<lambda>t. node_ok ops t \<and> h = height t + 1) ns"
    by auto
  from add_child_ok [OF Cons.prems(2) n] obtain p where
    p: "add_child ops h current n = Some p" "node_ok ops p" "height p = h"
      "tree_items p = current_items current @ tree_items n"
    by blast
  then have len: "length (internal_trees p) \<le> 2 * TREE_BASE" using n(2) by (cases p) simp_all
  show ?case
  proof (cases "length (internal_trees p) = 2 * TREE_BASE")
    case True
    with Cons.IH [OF ns, of None] p show ?thesis
      by (auto simp: partial_parent_def current_items_def)
  next
    case False
    with len p have "partial_parent h (Some p)" by (simp add: partial_parent_def)
    with Cons.IH [OF ns this] False p show ?thesis by (simp add: current_items_def)
  qed
qed

lemma build_levels_ok:
  "list_all (\<lambda>t. node_ok ops t \<and> height t = h) nodes \<Longrightarrow>
   \<exists>ps. build_levels ops h nodes = Some ps \<and> length ps \<le> 1 \<and> list_all (node_ok ops) ps
     \<and> concat (map tree_items ps) = concat (map tree_items nodes)"
proof (induction "length nodes" arbitrary: h nodes rule: less_induct)
  case less
  show ?case
  proof (cases "length nodes > 1")
    case True
    have "list_all (\<lambda>t. node_ok ops t \<and> h + 1 = height t + 1) nodes"
      using less.prems by (simp add: list_all_iff)
    with parent_nodes_ok [of "h + 1" nodes None] obtain ps where
      ps: "parent_nodes ops (h + 1) None nodes = Some ps"
        "list_all (\<lambda>t. node_ok ops t \<and> height t = h + 1) ps"
        "concat (map tree_items ps) = concat (map tree_items nodes)"
      by (auto simp: partial_parent_def current_items_def)
    from less.hyps [OF parent_nodes_less [OF ps(1) True] ps(2)] ps True show ?thesis
      by (simp add: build_levels.simps [of ops h nodes])
  next
    case False
    with less.prems show ?thesis by (simp add: build_levels.simps list_all_iff)
  qed
qed

text \<open>Bulk loading gives a tree of exactly the items.\<close>

lemma tree_from_iter_refines:
  "\<exists>t. tree_from_iter ops xs = Some t \<and> tree_ok ops t \<and> tree_items t = xs"
proof -
  from build_levels_ok [of 0 "leaf_nodes ops xs"] leaf_nodes_ok [of xs] obtain ps where
    ps: "build_levels ops 0 (leaf_nodes ops xs) = Some ps" "length ps \<le> 1" "list_all (node_ok ops) ps"
      "concat (map tree_items ps) = xs"
    by auto
  then show ?thesis
    by (cases ps) (auto simp: tree_from_iter_def tree_ok_def tree_new_def)
qed

lemma extend_tree_refines:
  assumes "tree_ok ops t"
  shows "\<exists>u. extend_tree ops t xs = Some u \<and> tree_ok ops u \<and> tree_items u = tree_items t @ xs"
proof -
  obtain o' where "tree_from_iter ops xs = Some o'" "tree_ok ops o'" "tree_items o' = xs"
    using tree_from_iter_refines by blast
  with append_tree_refines [OF assms] show ?thesis by (fastforce simp: extend_tree_def)
qed

text \<open>Updating an end changes that item only, and keeps the summaries.\<close>

lemma update_last_recursive_ok:
  "node_ok ops t \<Longrightarrow>
   \<exists>u. update_last_recursive ops f t = Some (Some (summary u), u) \<and> node_ok ops u \<and> height u = height t
     \<and> tree_items u = butlast (tree_items t) @ [f (last (tree_items t))]"
proof (induction t)
  case (Leaf s xs ss)
  then show ?case
    by (cases xs rule: rev_cases) (simp_all add: Let_def)
next
  case (Internal h s css cts)
  note ok = Internal.prems
  then obtain cs c where cts: "cts = cs @ [c]" by (cases cts rule: rev_cases) auto
  with ok have c: "node_ok ops c" "h = height c + 1" by simp_all
  from Internal.IH [of c] cts c(1) obtain u where
    "update_last_recursive ops f c = Some (Some (summary u), u)" "node_ok ops u" "height u = height c"
    "tree_items u = butlast (tree_items c) @ [f (last (tree_items c))]"
    by auto
  with ok cts node_ok_items [OF c(1)] show ?case by (auto simp: Let_def butlast_append)
qed

lemma update_first_recursive_ok:
  "node_ok ops t \<Longrightarrow>
   \<exists>u. update_first_recursive ops f t = Some (Some (summary u), u) \<and> node_ok ops u \<and> height u = height t
     \<and> tree_items u = f (hd (tree_items t)) # tl (tree_items t)"
proof (induction t)
  case (Leaf s xs ss)
  then show ?case by (cases xs) (simp_all add: Let_def)
next
  case (Internal h s css cts)
  note ok = Internal.prems
  then obtain c cs where cts: "cts = c # cs" by (cases cts) auto
  with ok have c: "node_ok ops c" "h = height c + 1" by simp_all
  from Internal.IH [of c] cts c(1) obtain u where
    "update_first_recursive ops f c = Some (Some (summary u), u)" "node_ok ops u" "height u = height c"
    "tree_items u = f (hd (tree_items c)) # tl (tree_items c)"
    by auto
  with ok cts node_ok_items [OF c(1)] show ?case by (auto simp: Let_def)
qed

lemma update_ends_refine:
  assumes "tree_ok ops t"
  shows "\<exists>u. update_last ops f t = Some u \<and> tree_ok ops u
      \<and> tree_items u = (if tree_items t = [] then [] else butlast (tree_items t) @ [f (last (tree_items t))])"
    and "\<exists>u. update_first ops f t = Some u \<and> tree_ok ops u
      \<and> tree_items u = (if tree_items t = [] then [] else f (hd (tree_items t)) # tl (tree_items t))"
  using assms update_last_recursive_ok [of t f] update_first_recursive_ok [of t f] node_ok_items [of ops t]
  by (auto simp: tree_ok_def update_last_def update_first_def tree_new_def)

end

lemma leftmost_leaf_ok:
  "node_ok ops t \<Longrightarrow> \<exists>s xs ss. leftmost_leaf t = Some (Leaf s xs ss) \<and> xs \<noteq> [] \<and> hd xs = hd (tree_items t)"
proof (induction t)
  case (Internal h s css cts)
  then obtain c cs where cts: "cts = c # cs" by (cases cts) auto
  with Internal.IH [of c] Internal.prems obtain s' xs ss where
    "leftmost_leaf c = Some (Leaf s' xs ss)" "xs \<noteq> []" "hd xs = hd (tree_items c)"
    by auto
  moreover have "tree_items c \<noteq> []" using Internal.prems cts node_ok_items by auto
  ultimately show ?case using cts by (subst leftmost_leaf.simps) simp
qed (simp add: leftmost_leaf.simps)

lemma rightmost_leaf_ok:
  "node_ok ops t \<Longrightarrow> \<exists>s xs ss. rightmost_leaf t = Some (Leaf s xs ss) \<and> xs \<noteq> [] \<and> last xs = last (tree_items t)"
proof (induction t)
  case (Internal h s css cts)
  then obtain cs c where cts: "cts = cs @ [c]" by (cases cts rule: rev_cases) auto
  with Internal.IH [of c] Internal.prems obtain s' xs ss where
    "rightmost_leaf c = Some (Leaf s' xs ss)" "xs \<noteq> []" "last xs = last (tree_items c)"
    by auto
  moreover have "tree_items c \<noteq> []" using Internal.prems cts node_ok_items by auto
  ultimately show ?case using cts by (subst rightmost_leaf.simps) simp
qed (simp add: rightmost_leaf.simps)

lemma tree_ends_refine:
  assumes "tree_ok ops t"
  shows "tree_first t = Some (if tree_items t = [] then None else Some (hd (tree_items t)))"
    and "tree_last t = Some (if tree_items t = [] then None else Some (last (tree_items t)))"
  using assms leftmost_leaf_ok [of ops t] rightmost_leaf_ok [of ops t] node_ok_items [of ops t]
  by (auto simp: tree_ok_def tree_first_def tree_last_def tree_new_def leftmost_leaf.simps
      rightmost_leaf.simps)

end
