(* ===== verification/TreeSearch.thy ===== *)
theory TreeSearch
  imports SumTree
begin

text \<open>
  Searching sum trees (\<open>find\<close>, \<open>find_exact\<close>, \<open>get\<close> and their kin of \<open>sum_tree.rs\<close>): descending by the
  summaries of the children finds the same item as a scan of the items from left to right.
\<close>

section \<open>Searching\<close>

datatype ordering = Less | Equal | Greater

datatype bias = BiasLeft | BiasRight

definition cmp :: "'k::linorder \<Rightarrow> 'k \<Rightarrow> ordering" where
  "cmp a b = (if a < b then Less else if a = b then Equal else Greater)"

text \<open>A dimension measures summaries; a target compares itself with a position.\<close>

record ('s, 'd) dimension_ops =
  dm_zero :: 'd
  dm_add :: "'d \<Rightarrow> 's \<Rightarrow> 'd"

definition target_in :: "('d \<Rightarrow> ordering) \<Rightarrow> bias \<Rightarrow> 'd \<Rightarrow> bool" where
  "target_in target b end_pos \<longleftrightarrow>
     target end_pos = Less \<or> target end_pos = Equal \<and> b = BiasLeft"

text \<open>The loops of \<open>find_iterate\<close> over the children of an internal node and the items of a leaf; they
  return the position before the child or item found, or else the position after the last one.\<close>

fun find_child ::
  "('s, 'd) dimension_ops \<Rightarrow> ('d \<Rightarrow> bool) \<Rightarrow> 'd \<Rightarrow> ('c \<times> 's) list \<Rightarrow> 'd \<times> ('c \<times> 'd) option" where
  "find_child dim found position [] = (position, None)"
| "find_child dim found position ((child, s) # rest) =
     (let child_end = dm_add dim position s in
      if found child_end then (position, Some (child, child_end))
      else find_child dim found child_end rest)"

lemma find_child_in: "find_child dim found position cs = (p, Some (c, e)) \<Longrightarrow> c \<in> fst ` set cs"
  by (induction dim found position cs rule: find_child.induct)
    (auto simp: Let_def split: if_splits)

function find_iterate ::
  "('s, 'd) dimension_ops \<Rightarrow> ('d \<Rightarrow> ordering) \<Rightarrow> bias \<Rightarrow> bool \<Rightarrow> 'd \<Rightarrow> ('t, 's) sum_tree
   \<Rightarrow> 'd \<times> ('t \<times> 'd) option" where
  "find_iterate dim target b exact position this =
     (case this of
        Internal _ _ css cts \<Rightarrow>
          (case find_child dim (target_in target b) position (zip cts css) of
             (position, Some (child, _)) \<Rightarrow> find_iterate dim target b exact position child
           | (position, None) \<Rightarrow> (position, None))
      | Leaf _ xs ss \<Rightarrow>
          find_child dim (if exact then (\<lambda>e. target e = Equal) else target_in target b) position
            (zip xs ss))"
  by pat_completeness auto
termination
  by (relation "measure (\<lambda>(dim, target, b, exact, position, this). size this)")
    (auto simp: less_Suc_eq_le intro!: child_size
      dest!: find_child_in [OF sym] dest: set_zip_leftD)

declare find_iterate.simps [simp del]

text \<open>The head of \<open>find\<close> and \<open>find_exact\<close>: a target past the end of the tree is not searched.\<close>

definition find_from ::
  "('s, 'd) dimension_ops \<Rightarrow> ('d \<Rightarrow> ordering) \<Rightarrow> bias \<Rightarrow> bool \<Rightarrow> ('t, 's) sum_tree
   \<Rightarrow> 'd \<times> 'd \<times> 't option" where
  "find_from dim target b exact self =
     (let tree_end = dm_add dim (dm_zero dim) (summary self) in
      if target tree_end = Greater \<or> target tree_end = Equal \<and> b = BiasRight
      then (tree_end, tree_end, None)
      else
        case find_iterate dim target b exact (dm_zero dim) self of
          (pos, Some (item, end_pos)) \<Rightarrow> (pos, end_pos, Some item)
        | (pos, None) \<Rightarrow> (pos, pos, None))"

definition tree_find ::
  "('s, 'd) dimension_ops \<Rightarrow> ('d \<Rightarrow> ordering) \<Rightarrow> bias \<Rightarrow> ('t, 's) sum_tree \<Rightarrow> 'd \<times> 'd \<times> 't option" where
  "tree_find dim target b self = find_from dim target b False self"

definition tree_find_exact ::
  "('s, 'd) dimension_ops \<Rightarrow> ('d \<Rightarrow> ordering) \<Rightarrow> bias \<Rightarrow> ('t, 's) sum_tree \<Rightarrow> 'd \<times> 'd \<times> 't option" where
  "tree_find_exact dim target b self = find_from dim target b True self"

text \<open>\<open>extent\<close> measures the whole tree.\<close>

definition extent :: "('s, 'd) dimension_ops \<Rightarrow> ('t, 's) sum_tree \<Rightarrow> 'd" where
  "extent dim self = dm_add dim (dm_zero dim) (summary self)"

text \<open>\<open>find_with_prev\<close>: the loops also keep the item before.\<close>

fun find_child_prev ::
  "('s, 'd) dimension_ops \<Rightarrow> ('d \<Rightarrow> bool) \<Rightarrow> ('c \<Rightarrow> 't option option) \<Rightarrow> 't option \<Rightarrow> 'd \<Rightarrow> ('c \<times> 's) list
   \<Rightarrow> ('t option \<times> 'd \<times> ('c \<times> 'd) option) option" where
  "find_child_prev dim found last_of prev position [] = Some (prev, position, None)"
| "find_child_prev dim found last_of prev position ((child, s) # rest) =
     (let child_end = dm_add dim position s in
      if found child_end then Some (prev, position, Some (child, child_end))
      else do {
        prev \<leftarrow> last_of child;
        find_child_prev dim found last_of prev child_end rest
      })"

lemma find_child_prev_in:
  "find_child_prev dim found last_of prev position cs = Some (q, p, Some (c, e)) \<Longrightarrow> c \<in> fst ` set cs"
  by (induction dim found last_of prev position cs rule: find_child_prev.induct)
    (auto simp: Let_def bind_eq_Some_conv split: if_splits)

function find_with_prev_iterate ::
  "('s, 'd) dimension_ops \<Rightarrow> ('d \<Rightarrow> ordering) \<Rightarrow> bias \<Rightarrow> 't option \<Rightarrow> 'd \<Rightarrow> ('t, 's) sum_tree
   \<Rightarrow> ('t option \<times> 'd \<times> ('t \<times> 'd) option) option" where
  "find_with_prev_iterate dim target b prev position this =
     (case this of
        Internal _ _ css cts \<Rightarrow>
          (case find_child_prev dim (target_in target b) tree_last prev position (zip cts css) of
             None \<Rightarrow> None
           | Some (prev, position, None) \<Rightarrow> Some (prev, position, None)
           | Some (prev, position, Some (child, _)) \<Rightarrow>
               find_with_prev_iterate dim target b prev position child)
      | Leaf _ xs ss \<Rightarrow>
          find_child_prev dim (target_in target b) (\<lambda>item. Some (Some item)) prev position (zip xs ss))"
  by pat_completeness auto
termination
  by (relation "measure (\<lambda>(dim, target, b, prev, position, this). size this)")
    (auto simp: less_Suc_eq_le intro!: child_size dest!: find_child_prev_in dest: set_zip_leftD)

declare find_with_prev_iterate.simps [simp del]

definition find_with_prev ::
  "('s, 'd) dimension_ops \<Rightarrow> ('d \<Rightarrow> ordering) \<Rightarrow> bias \<Rightarrow> ('t, 's) sum_tree
   \<Rightarrow> ('d \<times> 'd \<times> ('t option \<times> 't) option) option" where
  "find_with_prev dim target b self =
     (let tree_end = dm_add dim (dm_zero dim) (summary self) in
      if target tree_end = Greater \<or> target tree_end = Equal \<and> b = BiasRight
      then Some (tree_end, tree_end, None)
      else
        case find_with_prev_iterate dim target b None (dm_zero dim) self of
          None \<Rightarrow> None
        | Some (prev, pos, Some (item, end_pos)) \<Rightarrow> Some (pos, end_pos, Some (prev, item))
        | Some (_, pos, None) \<Rightarrow> Some (pos, pos, None))"

section \<open>Scanning\<close>

text \<open>The reference: the first item whose end the target reaches, from left to right.\<close>

definition scan ::
  "('t, 's) summary_ops \<Rightarrow> ('s, 'd) dimension_ops \<Rightarrow> ('d \<Rightarrow> bool) \<Rightarrow> 'd \<Rightarrow> 't list
   \<Rightarrow> 'd \<times> ('t \<times> 'd) option" where
  "scan ops dim found position xs = find_child dim found position (map (\<lambda>x. (x, so_summary ops x)) xs)"

fun item_ends ::
  "('t, 's) summary_ops \<Rightarrow> ('s, 'd) dimension_ops \<Rightarrow> 'd \<Rightarrow> 't list \<Rightarrow> 'd list" where
  "item_ends ops dim position [] = []"
| "item_ends ops dim position (x # xs) =
     (let e = dm_add dim position (so_summary ops x) in e # item_ends ops dim e xs)"

text \<open>Once an item's end reaches the target, the ends of the items after it do so too.\<close>

definition ordered_ends :: "('d \<Rightarrow> bool) \<Rightarrow> 'd list \<Rightarrow> bool" where
  "ordered_ends found es \<longleftrightarrow> sorted_wrt (\<lambda>a b. found a \<longrightarrow> found b) es"

definition last_end :: "'d \<Rightarrow> 'd list \<Rightarrow> 'd" where
  "last_end position es = (if es = [] then position else last es)"

lemma last_end_Nil [simp]: "last_end p [] = p"
  by (simp add: last_end_def)

lemma last_end_append: "last_end p (es @ fs) = last_end (last_end p es) fs"
  by (simp add: last_end_def)

lemma item_ends_eq_Nil [simp]: "item_ends ops dim p xs = [] \<longleftrightarrow> xs = []"
  by (cases xs) (simp_all add: Let_def)

lemma item_ends_append:
  "item_ends ops dim p (xs @ ys) =
     item_ends ops dim p xs @ item_ends ops dim (last_end p (item_ends ops dim p xs)) ys"
  by (induction xs arbitrary: p) (auto simp: Let_def last_end_def)

lemma scan_Nil [simp]: "scan ops dim found p [] = (p, None)"
  by (simp add: scan_def)

lemma scan_Cons [simp]:
  "scan ops dim found p (x # xs) =
     (let e = dm_add dim p (so_summary ops x) in
      if found e then (p, Some (x, e)) else scan ops dim found e xs)"
  by (simp add: scan_def Let_def)

lemma zip_map_same: "zip xs (map f xs) = map (\<lambda>x. (x, f x)) xs"
  by (induction xs) simp_all

lemma scan_append:
  "scan ops dim found p (xs @ ys) =
     (case scan ops dim found p xs of
        (q, None) \<Rightarrow> scan ops dim found q ys
      | r \<Rightarrow> r)"
  by (induction xs arbitrary: p) (simp_all add: Let_def)

lemma scan_None:
  "\<forall>e \<in> set (item_ends ops dim p xs). \<not> found e \<Longrightarrow>
     scan ops dim found p xs = (last_end p (item_ends ops dim p xs), None)"
  by (induction xs arbitrary: p) (auto simp: Let_def last_end_def)

lemma scan_Some:
  "\<exists>e \<in> set (item_ends ops dim p xs). found e \<Longrightarrow> \<exists>q x e. scan ops dim found p xs = (q, Some (x, e))"
  by (induction xs arbitrary: p) (auto simp: Let_def)

lemma ordered_ends_append:
  "ordered_ends found (es @ fs) \<longleftrightarrow>
     ordered_ends found es \<and> ordered_ends found fs \<and> (\<forall>a \<in> set es. \<forall>b \<in> set fs. found a \<longrightarrow> found b)"
  by (simp add: ordered_ends_def sorted_wrt_append)

lemma ordered_ends_last:
  "\<lbrakk>ordered_ends found es; e \<in> set es; found e\<rbrakk> \<Longrightarrow> found (last es)"
  by (induction es rule: rev_induct) (auto simp: ordered_ends_append)

text \<open>The interface of dimensions: measuring a sum is measuring its parts in turn.\<close>

locale dimension_laws = summary_laws ops for ops :: "('t, 's) summary_ops" +
  fixes dim :: "('s, 'd) dimension_ops"
  assumes dm_add_add: "dm_add dim (dm_add dim d a) b = dm_add dim d (so_add ops a b)"
begin

lemma last_item_ends:
  "xs \<noteq> [] \<Longrightarrow> last (item_ends ops dim p xs) = dm_add dim p (sum_summaries ops (map (so_summary ops) xs))"
proof (induction xs arbitrary: p)
  case (Cons x xs)
  then show ?case by (cases "xs = []") (simp_all add: Let_def sum_Cons dm_add_add)
qed simp

lemma last_end_node:
  "node_ok ops t \<Longrightarrow> last_end p (item_ends ops dim p (tree_items t)) = dm_add dim p (summary t)"
  using node_ok_items [of ops t] by (simp add: last_end_def last_item_ends summary_items)

lemma find_children_scan:
  assumes "\<And>c p. \<lbrakk>c \<in> set cts; ordered_ends found (item_ends ops dim p (tree_items c))\<rbrakk> \<Longrightarrow>
      iterate p c = scan ops dim found p (tree_items c)"
    and "list_all (node_ok ops) cts"
    and "ordered_ends found (item_ends ops dim p (concat (map tree_items cts)))"
  shows "(case find_child dim found p (map (\<lambda>c. (c, summary c)) cts) of
      (p, Some (child, _)) \<Rightarrow> iterate p child
    | (p, None) \<Rightarrow> (p, None)) = scan ops dim found p (concat (map tree_items cts))"
  using assms
proof (induction cts arbitrary: p)
  case (Cons c cts)
  let ?es = "item_ends ops dim p (tree_items c)" and ?e = "dm_add dim p (summary c)"
  from Cons.prems(2) have ok: "node_ok ops c" "list_all (node_ok ops) cts" by simp_all
  note last = last_end_node [OF ok(1), of p]
  have ne: "?es \<noteq> []" using node_ok_items [OF ok(1)] by simp
  from Cons.prems(3) last have ord: "ordered_ends found ?es"
      "ordered_ends found (item_ends ops dim ?e (concat (map tree_items cts)))"
    by (simp_all add: item_ends_append ordered_ends_append)
  show ?case
  proof (cases "found ?e")
    case True
    with last ne have "\<exists>e \<in> set ?es. found e" unfolding last_end_def by (metis last_in_set)
    with scan_Some obtain q x e where "scan ops dim found p (tree_items c) = (q, Some (x, e))" by metis
    with True Cons.prems(1) [of c p] ord(1) show ?thesis by (simp add: Let_def scan_append)
  next
    case False
    with ord(1) last ne have "\<forall>e \<in> set ?es. \<not> found e"
      using ordered_ends_last [of found ?es] by (auto simp: last_end_def)
    with scan_None have "scan ops dim found p (tree_items c) = (?e, None)" using last by metis
    with False Cons.IH [OF Cons.prems(1) ok(2) ord(2)] show ?thesis by (simp add: Let_def scan_append)
  qed
qed simp

lemma find_iterate_scan:
  "\<lbrakk>node_ok ops t; ordered_ends (target_in target b) (item_ends ops dim p (tree_items t))\<rbrakk> \<Longrightarrow>
   find_iterate dim target b False p t = scan ops dim (target_in target b) p (tree_items t)"
proof (induction t arbitrary: p)
  case (Internal h s css cts)
  have "find_iterate dim target b False p (Internal h s css cts) =
      (case find_child dim (target_in target b) p (map (\<lambda>c. (c, summary c)) cts) of
        (p, Some (child, _)) \<Rightarrow> find_iterate dim target b False p child | (p, None) \<Rightarrow> (p, None))"
    using Internal.prems(1) by (subst find_iterate.simps) (simp add: zip_map_same)
  also have "\<dots> = scan ops dim (target_in target b) p (concat (map tree_items cts))"
    by (rule find_children_scan) (use Internal in \<open>auto simp: list_all_iff\<close>)
  finally show ?case by simp
next
  case (Leaf s xs ss)
  then show ?case by (simp add: find_iterate.simps scan_def zip_map_same)
qed

lemma scan_found: "scan ops dim found p xs = (q, Some (x, e)) \<Longrightarrow> x \<in> set xs \<and> found e"
  by (induction xs arbitrary: p) (auto simp: Let_def split: if_splits)

text \<open>With \<open>EXACT\<close> the leaf is scanned for an end equal to the target: the item a search to the left
  finds, when its end is equal.\<close>

lemma scan_exact:
  assumes "ordered_ends (\<lambda>e. target e = Less) (item_ends ops dim p xs)"
  shows "snd (scan ops dim (\<lambda>e. target e = Equal) p xs) =
    Option.bind (snd (scan ops dim (target_in target BiasLeft) p xs))
      (\<lambda>(x, e). if target e = Equal then Some (x, e) else None)"
  using assms
proof (induction xs arbitrary: p)
  case (Cons x xs)
  let ?e = "dm_add dim p (so_summary ops x)"
  from Cons.prems have ord: "ordered_ends (\<lambda>e. target e = Less) (item_ends ops dim ?e xs)"
      "target ?e = Less \<Longrightarrow> \<forall>e \<in> set (item_ends ops dim ?e xs). target e = Less"
    by (auto simp: ordered_ends_def Let_def)
  show ?case
  proof (cases "target ?e")
    case Less
    with ord(2) scan_None [of ops dim ?e xs "\<lambda>e. target e = Equal"] show ?thesis
      by (simp add: Let_def target_in_def)
  qed (simp_all add: Let_def target_in_def Cons.IH [OF ord(1)])
qed simp

lemma find_children_exact:
  assumes "\<And>c p. \<lbrakk>c \<in> set cts; ordered_ends (target_in target BiasLeft) (item_ends ops dim p (tree_items c));
      ordered_ends (\<lambda>e. target e = Less) (item_ends ops dim p (tree_items c))\<rbrakk> \<Longrightarrow>
      snd (iterate p c) = snd (scan ops dim (\<lambda>e. target e = Equal) p (tree_items c))"
    and "list_all (node_ok ops) cts"
    and "ordered_ends (target_in target BiasLeft) (item_ends ops dim p (concat (map tree_items cts)))"
    and "ordered_ends (\<lambda>e. target e = Less) (item_ends ops dim p (concat (map tree_items cts)))"
  shows "snd (case find_child dim (target_in target BiasLeft) p (map (\<lambda>c. (c, summary c)) cts) of
      (p, Some (child, _)) \<Rightarrow> iterate p child
    | (p, None) \<Rightarrow> (p, None)) =
    snd (scan ops dim (\<lambda>e. target e = Equal) p (concat (map tree_items cts)))"
  using assms
proof (induction cts arbitrary: p)
  case (Cons c cts)
  let ?es = "item_ends ops dim p (tree_items c)" and ?e = "dm_add dim p (summary c)"
  let ?fs = "item_ends ops dim ?e (concat (map tree_items cts))"
  let ?exact = "scan ops dim (\<lambda>e. target e = Equal)"
  from Cons.prems(2) have ok: "node_ok ops c" "list_all (node_ok ops) cts" by simp_all
  note last = last_end_node [OF ok(1), of p]
  have ne: "?es \<noteq> []" using node_ok_items [OF ok(1)] by simp
  with last last_in_set [OF ne] have e: "last ?es = ?e" "?e \<in> set ?es" by (simp_all add: last_end_def)
  from Cons.prems(3,4) last have ord: "ordered_ends (target_in target BiasLeft) ?es"
      "ordered_ends (target_in target BiasLeft) ?fs" "ordered_ends (\<lambda>e. target e = Less) ?es"
      "ordered_ends (\<lambda>e. target e = Less) ?fs"
      "\<forall>a \<in> set ?es. \<forall>b \<in> set ?fs. target a = Less \<longrightarrow> target b = Less"
    by (simp_all add: item_ends_append ordered_ends_append)
  have iter: "snd (iterate p c) = snd (?exact p (tree_items c))"
    by (rule Cons.prems(1)) (simp_all add: ord)
  show ?case
  proof (cases "target ?e")
    case Greater
    with ordered_ends_last [OF ord(1)] e(1) have "\<forall>e \<in> set ?es. \<not> target e = Equal"
      by (auto simp: target_in_def)
    with scan_None [of ops dim p _ "\<lambda>e. target e = Equal"] last have "?exact p (tree_items c) = (?e, None)"
      by metis
    with Greater Cons.IH [OF Cons.prems(1) ok(2) ord(2,4)] show ?thesis
      by (simp add: Let_def target_in_def scan_append)
  next
    case Equal
    with e(2) scan_Some [of ops dim p _ "\<lambda>e. target e = Equal"] obtain q x d where
      "?exact p (tree_items c) = (q, Some (x, d))" by metis
    with Equal iter show ?thesis by (simp add: Let_def target_in_def scan_append)
  next
    case Less
    with ord(5) e(2) have none: "\<forall>e \<in> set ?fs. \<not> target e = Equal" by fastforce
    have "snd (?exact p (tree_items c @ concat (map tree_items cts))) = snd (?exact p (tree_items c))"
    proof (cases "snd (?exact p (tree_items c))")
      case None
      then have "\<forall>e \<in> set ?es. \<not> target e = Equal"
        using scan_Some [of ops dim p "tree_items c" "\<lambda>e. target e = Equal"] by force
      with scan_None [of ops dim p _ "\<lambda>e. target e = Equal"] last
      have "?exact p (tree_items c) = (?e, None)" by metis
      with None scan_None [OF none] show ?thesis by (simp add: scan_append)
    next
      case (Some r)
      then show ?thesis by (cases "?exact p (tree_items c)") (simp add: scan_append)
    qed
    with Less iter show ?thesis by (simp add: Let_def target_in_def)
  qed
qed simp

lemma find_iterate_exact:
  "\<lbrakk>node_ok ops t; ordered_ends (target_in target BiasLeft) (item_ends ops dim p (tree_items t));
    ordered_ends (\<lambda>e. target e = Less) (item_ends ops dim p (tree_items t))\<rbrakk> \<Longrightarrow>
   snd (find_iterate dim target BiasLeft True p t) =
     snd (scan ops dim (\<lambda>e. target e = Equal) p (tree_items t))"
proof (induction t arbitrary: p)
  case (Internal h s css cts)
  have "find_iterate dim target BiasLeft True p (Internal h s css cts) =
      (case find_child dim (target_in target BiasLeft) p (map (\<lambda>c. (c, summary c)) cts) of
        (p, Some (child, _)) \<Rightarrow> find_iterate dim target BiasLeft True p child | (p, None) \<Rightarrow> (p, None))"
    using Internal.prems(1) by (subst find_iterate.simps) (simp add: zip_map_same)
  moreover have "snd \<dots> = snd (scan ops dim (\<lambda>e. target e = Equal) p (concat (map tree_items cts)))"
    by (rule find_children_exact) (use Internal in \<open>auto simp: list_all_iff\<close>)
  ultimately show ?case by simp
next
  case (Leaf s xs ss)
  then show ?case by (simp add: find_iterate.simps scan_def zip_map_same)
qed

text \<open>\<open>find\<close> is the scan of all items.\<close>

lemma tree_find_scan:
  assumes "tree_ok ops t" and zero: "dm_add dim (dm_zero dim) (so_zero ops) = dm_zero dim"
    and ord: "ordered_ends (target_in target b) (item_ends ops dim (dm_zero dim) (tree_items t))"
  shows "tree_find dim target b t =
    (case scan ops dim (target_in target b) (dm_zero dim) (tree_items t) of
       (pos, Some (item, e)) \<Rightarrow> (pos, e, Some item)
     | (pos, None) \<Rightarrow> (pos, pos, None))"
proof (cases "t = tree_new ops")
  case True
  with zero show ?thesis
    by (simp add: tree_find_def find_from_def tree_new_def Let_def find_iterate.simps)
next
  case False
  with assms have ok: "node_ok ops t" by (simp add: tree_ok_def)
  let ?e = "dm_add dim (dm_zero dim) (summary t)" and ?es = "item_ends ops dim (dm_zero dim) (tree_items t)"
  note last = last_end_node [OF ok, of "dm_zero dim"] and iter = find_iterate_scan [OF ok ord]
  show ?thesis
  proof (cases "target_in target b ?e")
    case True
    then have "\<not> (target ?e = Greater \<or> target ?e = Equal \<and> b = BiasRight)"
      by (auto simp: target_in_def)
    with iter show ?thesis by (auto simp: tree_find_def find_from_def Let_def)
  next
    case False
    have "\<not> target_in target b e" if "e \<in> set ?es" for e
      using ordered_ends_last [OF ord that] last False that by (auto simp: last_end_def split: if_splits)
    with scan_None last have "scan ops dim (target_in target b) (dm_zero dim) (tree_items t) = (?e, None)"
      by metis
    moreover from False have "target ?e = Greater \<or> target ?e = Equal \<and> b = BiasRight"
      by (cases "target ?e"; cases b) (simp_all add: target_in_def)
    ultimately show ?thesis by (simp add: tree_find_def find_from_def Let_def)
  qed
qed

lemma tree_find_exact_scan:
  assumes "tree_ok ops t"
    and ord: "ordered_ends (target_in target BiasLeft) (item_ends ops dim (dm_zero dim) (tree_items t))"
      "ordered_ends (\<lambda>e. target e = Less) (item_ends ops dim (dm_zero dim) (tree_items t))"
  shows "snd (snd (tree_find_exact dim target BiasLeft t)) =
    map_option fst (snd (scan ops dim (\<lambda>e. target e = Equal) (dm_zero dim) (tree_items t)))"
proof (cases "t = tree_new ops")
  case True
  then show ?thesis
    by (simp add: tree_find_exact_def find_from_def tree_new_def Let_def find_iterate.simps)
next
  case False
  with assms have ok: "node_ok ops t" by (simp add: tree_ok_def)
  let ?e = "dm_add dim (dm_zero dim) (summary t)" and ?es = "item_ends ops dim (dm_zero dim) (tree_items t)"
  note last = last_end_node [OF ok, of "dm_zero dim"] and iter = find_iterate_exact [OF ok ord]
  show ?thesis
  proof (cases "target ?e = Greater")
    case True
    have "\<not> target e = Equal" if "e \<in> set ?es" for e
      using ordered_ends_last [OF ord(1) that] last True that
      by (auto simp: last_end_def target_in_def split: if_splits)
    then have "\<forall>e \<in> set ?es. \<not> target e = Equal" by blast
    from scan_None [OF this] last
    have "scan ops dim (\<lambda>e. target e = Equal) (dm_zero dim) (tree_items t) = (?e, None)" by simp
    with True show ?thesis by (simp add: tree_find_exact_def find_from_def Let_def)
  next
    case False
    obtain pos r where "find_iterate dim target BiasLeft True (dm_zero dim) t = (pos, r)" by fastforce
    with iter False show ?thesis
      by (cases r) (auto simp: tree_find_exact_def find_from_def Let_def dest: sym)
  qed
qed

end

end
