(* ===== verification/TreeCursor.thy ===== *)
theory TreeCursor
  imports TreeSearch
begin

text \<open>
  Cursors over sum trees (\<open>sum_tree/src/cursor.rs\<close>): a stack of nodes with the index reached in each,
  moved forward by \<open>seek\<close>, \<open>slice\<close> and \<open>next\<close>. The model keeps the stack, its capacity of 16 entries,
  and the aggregates that collect what a seek passes over. What it stands for is the list of the
  items not passed yet.
\<close>

section \<open>Cursors\<close>

record ('t, 's, 'd) stack_entry =
  se_tree :: "('t, 's) sum_tree"
  se_index :: nat
  se_position :: 'd

record ('t, 's, 'd) cursor =
  cu_tree :: "('t, 's) sum_tree"
  cu_stack :: "('t, 's, 'd) stack_entry list"
  cu_position :: 'd
  cu_did_seek :: bool
  cu_at_end :: bool

definition STACK_CAPACITY :: nat where
  "STACK_CAPACITY = 16"

definition cursor_new :: "('s, 'd) dimension_ops \<Rightarrow> ('t, 's) sum_tree \<Rightarrow> ('t, 's, 'd) cursor" where
  "cursor_new dim t =
     \<lparr>cu_tree = t, cu_stack = [], cu_position = dm_zero dim, cu_did_seek = False,
      cu_at_end = tree_is_empty t\<rparr>"

definition cursor_reset :: "('s, 'd) dimension_ops \<Rightarrow> ('t, 's, 'd) cursor \<Rightarrow> ('t, 's, 'd) cursor" where
  "cursor_reset dim cu =
     cu\<lparr>cu_did_seek := False, cu_at_end := tree_is_empty (cu_tree cu), cu_stack := [],
        cu_position := dm_zero dim\<rparr>"

text \<open>The stack has its top at the head. \<open>push_entry\<close> panics on a full stack.\<close>

definition push_entry ::
  "('t, 's, 'd) stack_entry \<Rightarrow> ('t, 's, 'd) stack_entry list \<Rightarrow> ('t, 's, 'd) stack_entry list option" where
  "push_entry e stack = (if length stack < STACK_CAPACITY then Some (e # stack) else None)"

definition entry_at :: "('t, 's) sum_tree \<Rightarrow> nat \<Rightarrow> 'd \<Rightarrow> ('t, 's, 'd) stack_entry" where
  "entry_at t i p = \<lparr>se_tree = t, se_index = i, se_position = p\<rparr>"

text \<open>\<open>item\<close> and \<open>item_summary\<close>: the outer option is the panic before the first seek, on an internal
  node, or out of range.\<close>

definition current ::
  "(('t, 's) sum_tree \<Rightarrow> 'x list option) \<Rightarrow> ('t, 's, 'd) cursor \<Rightarrow> 'x option option" where
  "current entries cu =
     (if \<not> cu_did_seek cu then None
      else case cu_stack cu of
        [] \<Rightarrow> Some None
      | e # _ \<Rightarrow> do {
          xs \<leftarrow> entries (se_tree e);
          if se_index e = length xs then Some None
          else if se_index e < length xs then Some (Some (xs ! se_index e))
          else None
        })"

definition cursor_item :: "('t, 's, 'd) cursor \<Rightarrow> 't option option" where
  "cursor_item cu = current node_items cu"

definition leaf_item_summaries :: "('t, 's) sum_tree \<Rightarrow> 's list option" where
  "leaf_item_summaries t = (case t of Leaf _ _ ss \<Rightarrow> Some ss | Internal _ _ _ _ \<Rightarrow> None)"

definition cursor_item_summary :: "('t, 's, 'd) cursor \<Rightarrow> 's option option" where
  "cursor_item_summary cu = current leaf_item_summaries cu"

definition cursor_end :: "('s, 'd) dimension_ops \<Rightarrow> ('t, 's, 'd) cursor \<Rightarrow> 'd option" where
  "cursor_end dim cu = do {
     s \<leftarrow> cursor_item_summary cu;
     Some (case s of None \<Rightarrow> cu_position cu | Some s \<Rightarrow> dm_add dim (cu_position cu) s)
   }"

section \<open>Seeking\<close>

text \<open>The trait \<open>SeekAggregate\<close>, without \<open>begin_leaf\<close>, which does nothing in each implementation.\<close>

record ('a, 't, 's) aggregate_ops =
  ag_push_tree :: "'a \<Rightarrow> ('t, 's) sum_tree \<Rightarrow> 's \<Rightarrow> 'a option"
  ag_push_item :: "'a \<Rightarrow> 't \<Rightarrow> 's \<Rightarrow> 'a option"
  ag_end_leaf :: "'a \<Rightarrow> 'a option"

definition past :: "('d \<Rightarrow> ordering) \<Rightarrow> bias \<Rightarrow> 'd \<Rightarrow> bool" where
  "past target b e \<longleftrightarrow> target e = Greater \<or> target e = Equal \<and> b = BiasRight"

text \<open>The loops over children and over items: pass what ends before the target. The result is the
  number of entries passed, the position, the aggregate and the entry that stopped the loop.\<close>

fun seek_entries ::
  "('a \<Rightarrow> 'c \<Rightarrow> 's \<Rightarrow> 'a option) \<Rightarrow> ('s, 'd) dimension_ops \<Rightarrow> ('d \<Rightarrow> bool) \<Rightarrow> 'd \<Rightarrow> 'a \<Rightarrow> ('c \<times> 's) list
   \<Rightarrow> (nat \<times> 'd \<times> 'a \<times> 'c option) option" where
  "seek_entries push dim passed position a [] = Some (0, position, a, None)"
| "seek_entries push dim passed position a ((child, s) # rest) =
     (let child_end = dm_add dim position s in
      if passed child_end then do {
        a \<leftarrow> push a child s;
        (n, position, a, stop) \<leftarrow> seek_entries push dim passed child_end a rest;
        Some (Suc n, position, a, stop)
      }
      else Some (0, position, a, Some child))"

lemma seek_entries_stop:
  "seek_entries push dim passed p a cs = Some (n, q, a', stop) \<Longrightarrow>
     n \<le> length cs \<and> (case stop of None \<Rightarrow> n = length cs | Some c \<Rightarrow> n < length cs \<and> c = fst (cs ! n))"
proof (induction push dim passed p a cs arbitrary: n q a' stop rule: seek_entries.induct)
  case (2 push dim passed p a c s rest)
  show ?case
  proof (cases "passed (dm_add dim p s)")
    case True
    with 2(2) obtain a1 m where "push a c s = Some a1" "n = Suc m"
        "seek_entries push dim passed (dm_add dim p s) a1 rest = Some (m, q, a', stop)"
      by (auto simp: Let_def bind_eq_Some_conv)
    with 2(1) [OF refl True, of a1] show ?thesis by (auto split: option.splits)
  qed (use 2(2) in \<open>auto simp: Let_def\<close>)
qed simp

text \<open>The work left on the stack bounds the loop.\<close>

fun node_weight :: "('t, 's) sum_tree \<Rightarrow> nat" where
  "node_weight (Leaf _ _ _) = 2"
| "node_weight (Internal _ _ _ cts) = 2 + sum_list (map node_weight cts)"

definition work_from :: "nat \<Rightarrow> ('t, 's) sum_tree \<Rightarrow> nat" where
  "work_from i t =
     (case t of Leaf _ _ _ \<Rightarrow> 1 | Internal _ _ _ cts \<Rightarrow> 1 + sum_list (map node_weight (drop i cts)))"

definition stack_work :: "bool \<Rightarrow> ('t, 's, 'd) stack_entry list \<Rightarrow> nat" where
  "stack_work fresh stack =
     (case stack of
        [] \<Rightarrow> 0
      | e # below \<Rightarrow> work_from (se_index e + (if fresh then 0 else 1)) (se_tree e)
          + sum_list (map (\<lambda>e. work_from (se_index e + 1) (se_tree e)) below))"

lemma work_from_Internal [simp]:
  "work_from i (Internal h s css cts) = 1 + sum_list (map node_weight (drop i cts))"
  by (simp add: work_from_def)

lemma stack_work_pop: "stack_work False below < stack_work fresh (e # below)"
  by (cases below) (auto simp: stack_work_def work_from_def split: sum_tree.splits)

lemma node_weight_work: "node_weight t = 1 + work_from 0 t"
  by (cases t) (simp_all add: work_from_def)

lemma sum_list_drop_mono: "i \<le> j \<Longrightarrow> sum_list (drop j xs) \<le> sum_list (drop i (xs :: nat list))"
proof -
  assume "i \<le> j"
  then have "drop i xs = take (j - i) (drop i xs) @ drop j xs"
    by (metis append_take_drop_id drop_drop le_add_diff_inverse2)
  then show ?thesis by (metis le_add2 sum_list_append)
qed

lemma stack_work_push:
  assumes "se_tree e = Internal h s css cts" and "se_tree e' = se_tree e"
    and "se_index e' = j" "se_index e + (if fresh then 0 else 1) \<le> j" "j < length cts"
  shows "stack_work True (entry_at (cts ! j) 0 p # e' # below) < stack_work fresh (e # below)"
proof -
  let ?i = "se_index e + (if fresh then 0 else 1)" and ?j = j
  have "drop ?j cts = cts ! ?j # drop (?j + 1) cts" using assms(5) by (simp add: Cons_nth_drop_Suc)
  then have "sum_list (map node_weight (drop ?j cts)) =
      node_weight (cts ! ?j) + sum_list (map node_weight (drop (?j + 1) cts))" by simp
  moreover have "sum_list (map node_weight (drop ?j cts)) \<le> sum_list (map node_weight (drop ?i cts))"
    using sum_list_drop_mono [OF assms(4), of "map node_weight cts"] by (simp add: drop_map)
  ultimately show ?thesis
    using assms(1,2,3)
    by (cases fresh) (simp_all add: stack_work_def entry_at_def node_weight_work)
qed

lemma seek_descend_work:
  assumes "se_tree e = Internal h s css cts" and "se_tree e' = se_tree e"
    and "seek_entries push dim passed p a (zip (drop i cts) (drop i css)) = Some (n, q, a', Some c)"
    and "i = se_index e + (if fresh then 0 else 1)" and "se_index e' = i + n"
  shows "stack_work True (entry_at c 0 q # e' # below) < stack_work fresh (e # below)"
proof -
  from seek_entries_stop [OF assms(3)] assms(5) have "c = cts ! se_index e'" "se_index e' < length cts"
    by auto
  with stack_work_push [OF assms(1,2) refl, of fresh q below] assms(4,5) show ?thesis by simp
qed

text \<open>The loop of \<open>seek_internal\<close>; it returns the stack, the position and the aggregate.\<close>

function seek_loop ::
  "('a, 't, 's) aggregate_ops \<Rightarrow> ('s, 'd) dimension_ops \<Rightarrow> ('d \<Rightarrow> bool) \<Rightarrow> bool
   \<Rightarrow> ('t, 's, 'd) stack_entry list \<Rightarrow> 'd \<Rightarrow> 'a \<Rightarrow> (('t, 's, 'd) stack_entry list \<times> 'd \<times> 'a) option"
  where
  "seek_loop ag dim passed ascending stack position a =
     (case stack of
        [] \<Rightarrow> Some ([], position, a)
      | entry # below \<Rightarrow>
          (case se_tree entry of
             Internal _ _ css cts \<Rightarrow>
               (let entry = (if ascending
                  then entry\<lparr>se_index := se_index entry + 1, se_position := position\<rparr> else entry);
                    i = se_index entry in
                if i > length cts \<or> i > length css then None
                else do {
                  (n, position, a, stop) \<leftarrow>
                    seek_entries (ag_push_tree ag) dim passed position a (zip (drop i cts) (drop i css));
                  (case stop of
                     None \<Rightarrow> seek_loop ag dim passed True below position a
                   | Some child \<Rightarrow>
                       (let entry = entry\<lparr>se_index := i + n,
                          se_position := (if n = 0 then se_position entry else position)\<rparr> in
                        if length below + 1 < STACK_CAPACITY
                        then seek_loop ag dim passed False (entry_at child 0 position # entry # below)
                          position a
                        else None))
                })
           | Leaf _ xs ss \<Rightarrow>
               (let i = se_index entry in
                if i > length xs \<or> i > length ss then None
                else do {
                  (n, position, a, stop) \<leftarrow>
                    seek_entries (ag_push_item ag) dim passed position a (zip (drop i xs) (drop i ss));
                  a \<leftarrow> ag_end_leaf ag a;
                  (case stop of
                     None \<Rightarrow> seek_loop ag dim passed True below position a
                   | Some _ \<Rightarrow> Some (entry\<lparr>se_index := i + n\<rparr> # below, position, a))
                })))"
  by pat_completeness auto
termination
  by (relation "measure (\<lambda>(ag, dim, passed, ascending, stack, position, a). stack_work (\<not> ascending) stack)")
    (auto simp: stack_work_pop intro!: seek_descend_work)

declare seek_loop.simps [simp del]

definition seek_internal ::
  "('a, 't, 's) aggregate_ops \<Rightarrow> ('s, 'd) dimension_ops \<Rightarrow> ('d \<Rightarrow> ordering) \<Rightarrow> bias
   \<Rightarrow> ('t, 's, 'd) cursor \<Rightarrow> 'a \<Rightarrow> (bool \<times> ('t, 's, 'd) cursor \<times> 'a) option" where
  "seek_internal ag dim target b cu a =
     (if target (cu_position cu) = Less then None
      else do {
        stack \<leftarrow> (if cu_did_seek cu then Some (cu_stack cu)
          else push_entry (entry_at (cu_tree cu) 0 (dm_zero dim)) (cu_stack cu));
        (stack, position, a) \<leftarrow> seek_loop ag dim (past target b) False stack (cu_position cu) a;
        (let cu = cu\<lparr>cu_did_seek := True, cu_stack := stack, cu_position := position,
                     cu_at_end := (stack = [])\<rparr> in do {
           end_pos \<leftarrow> (if b = BiasLeft then cursor_end dim cu else Some position);
           Some (target end_pos = Equal, cu, a)
         })
      })"

text \<open>The aggregate \<open>()\<close> collects nothing.\<close>

definition unit_aggregate :: "(unit, 't, 's) aggregate_ops" where
  "unit_aggregate = \<lparr>ag_push_tree = (\<lambda>_ _ _. Some ()), ag_push_item = (\<lambda>_ _ _. Some ()),
     ag_end_leaf = (\<lambda>_. Some ())\<rparr>"

definition cursor_seek_forward ::
  "('s, 'd) dimension_ops \<Rightarrow> ('d \<Rightarrow> ordering) \<Rightarrow> bias \<Rightarrow> ('t, 's, 'd) cursor
   \<Rightarrow> (bool \<times> ('t, 's, 'd) cursor) option" where
  "cursor_seek_forward dim target b cu =
     map_option (\<lambda>(found, cu, _). (found, cu)) (seek_internal unit_aggregate dim target b cu ())"

definition cursor_seek ::
  "('s, 'd) dimension_ops \<Rightarrow> ('d \<Rightarrow> ordering) \<Rightarrow> bias \<Rightarrow> ('t, 's, 'd) cursor
   \<Rightarrow> (bool \<times> ('t, 's, 'd) cursor) option" where
  "cursor_seek dim target b cu = cursor_seek_forward dim target b (cursor_reset dim cu)"

text \<open>The aggregate of \<open>slice\<close> collects the items and trees passed in a tree of their own.\<close>

record ('t, 's) slice_aggregate =
  sl_tree :: "('t, 's) sum_tree"
  sl_leaf_items :: "'t list"
  sl_leaf_item_summaries :: "'s list"
  sl_leaf_summary :: 's

definition slice_push_tree ::
  "('t, 's) summary_ops \<Rightarrow> ('t, 's) slice_aggregate \<Rightarrow> ('t, 's) sum_tree \<Rightarrow> 's
   \<Rightarrow> ('t, 's) slice_aggregate option" where
  "slice_push_tree ops sl t s = do {
     t \<leftarrow> append_tree ops (sl_tree sl) t;
     Some (sl\<lparr>sl_tree := t\<rparr>)
   }"

definition slice_push_item ::
  "('t, 's) summary_ops \<Rightarrow> ('t, 's) slice_aggregate \<Rightarrow> 't \<Rightarrow> 's \<Rightarrow> ('t, 's) slice_aggregate option" where
  "slice_push_item ops sl item s = do {
     xs \<leftarrow> array_vec (sl_leaf_items sl @ [item]);
     ss \<leftarrow> array_vec (sl_leaf_item_summaries sl @ [s]);
     Some (sl\<lparr>sl_leaf_items := xs, sl_leaf_item_summaries := ss,
              sl_leaf_summary := so_add ops (sl_leaf_summary sl) s\<rparr>)
   }"

definition slice_end_leaf ::
  "('t, 's) summary_ops \<Rightarrow> ('t, 's) slice_aggregate \<Rightarrow> ('t, 's) slice_aggregate option" where
  "slice_end_leaf ops sl = do {
     t \<leftarrow> append_tree ops (sl_tree sl)
       (Leaf (sl_leaf_summary sl) (sl_leaf_items sl) (sl_leaf_item_summaries sl));
     Some \<lparr>sl_tree = t, sl_leaf_items = [], sl_leaf_item_summaries = [],
           sl_leaf_summary = so_zero ops\<rparr>
   }"

definition slice_ops ::
  "('t, 's) summary_ops \<Rightarrow> (('t, 's) slice_aggregate, 't, 's) aggregate_ops" where
  "slice_ops ops = \<lparr>ag_push_tree = slice_push_tree ops, ag_push_item = slice_push_item ops,
     ag_end_leaf = slice_end_leaf ops\<rparr>"

definition slice_new :: "('t, 's) summary_ops \<Rightarrow> ('t, 's) slice_aggregate" where
  "slice_new ops = \<lparr>sl_tree = tree_new ops, sl_leaf_items = [], sl_leaf_item_summaries = [],
     sl_leaf_summary = so_zero ops\<rparr>"

definition cursor_slice ::
  "('t, 's) summary_ops \<Rightarrow> ('s, 'd) dimension_ops \<Rightarrow> ('d \<Rightarrow> ordering) \<Rightarrow> bias \<Rightarrow> ('t, 's, 'd) cursor
   \<Rightarrow> (('t, 's) sum_tree \<times> ('t, 's, 'd) cursor) option" where
  "cursor_slice ops dim target b cu = do {
     (_, cu, sl) \<leftarrow> seek_internal (slice_ops ops) dim target b cu (slice_new ops);
     Some (sl_tree sl, cu)
   }"

text \<open>The target \<open>End\<close> is greater than every position.\<close>

definition end_target :: "'d \<Rightarrow> ordering" where
  "end_target _ = Greater"

definition cursor_suffix ::
  "('t, 's) summary_ops \<Rightarrow> ('s, 'd) dimension_ops \<Rightarrow> ('t, 's, 'd) cursor
   \<Rightarrow> (('t, 's) sum_tree \<times> ('t, 's, 'd) cursor) option" where
  "cursor_suffix ops dim cu = cursor_slice ops dim end_target BiasRight cu"

text \<open>The aggregate of \<open>summary\<close> measures what is passed in another dimension.\<close>

definition measure_ops :: "('s, 'o) dimension_ops \<Rightarrow> ('o, 't, 's) aggregate_ops" where
  "measure_ops out = \<lparr>ag_push_tree = (\<lambda>d _ s. Some (dm_add out d s)),
     ag_push_item = (\<lambda>d _ s. Some (dm_add out d s)), ag_end_leaf = Some\<rparr>"

definition cursor_summary ::
  "('s, 'd) dimension_ops \<Rightarrow> ('s, 'o) dimension_ops \<Rightarrow> ('d \<Rightarrow> ordering) \<Rightarrow> bias \<Rightarrow> ('t, 's, 'd) cursor
   \<Rightarrow> ('o \<times> ('t, 's, 'd) cursor) option" where
  "cursor_summary dim out target b cu = do {
     (_, cu, d) \<leftarrow> seek_internal (measure_ops out) dim target b cu (dm_zero out);
     Some (d, cu)
   }"

section \<open>Moving to the next item\<close>

text \<open>The inner loops of \<open>search_forward\<close>: skip the entries whose summary the filter rejects.\<close>

fun skip_rejected :: "('s, 'd) dimension_ops \<Rightarrow> ('s \<Rightarrow> bool) \<Rightarrow> 'd \<Rightarrow> 's list \<Rightarrow> nat \<times> 'd" where
  "skip_rejected dim keep p [] = (0, p)"
| "skip_rejected dim keep p (s # ss) =
     (if keep s then (0, p)
      else let (n, q) = skip_rejected dim keep (dm_add dim p s) ss in (Suc n, q))"

text \<open>The loop returns the stack, the position, and whether it stopped at an item.\<close>

function forward_loop ::
  "('s, 'd) dimension_ops \<Rightarrow> ('s \<Rightarrow> bool) \<Rightarrow> bool \<Rightarrow> ('t, 's, 'd) stack_entry list \<Rightarrow> 'd
   \<Rightarrow> (('t, 's, 'd) stack_entry list \<times> 'd \<times> bool) option" where
  "forward_loop dim keep descend stack position =
     (case stack of
        [] \<Rightarrow> Some ([], position, False)
      | entry # below \<Rightarrow>
          (case se_tree entry of
             Internal _ _ css cts \<Rightarrow>
               (let entry = (if \<not> descend
                  then entry\<lparr>se_index := se_index entry + 1, se_position := position\<rparr> else entry);
                    i = se_index entry; (n, q) = skip_rejected dim keep position (drop i css);
                    entry = entry\<lparr>se_index := i + n,
                      se_position := foldl (dm_add dim) (se_position entry) (take n (drop i css))\<rparr> in
                if i + n < length cts then
                  (if length below + 1 < STACK_CAPACITY
                   then forward_loop dim keep True (entry_at (cts ! (i + n)) 0 q # entry # below) q
                   else None)
                else forward_loop dim keep False below q)
           | Leaf _ _ ss \<Rightarrow>
               if \<not> descend \<and> se_index entry \<ge> length ss then None
               else
                 let (entry, position) = (if \<not> descend
                    then (entry\<lparr>se_index := se_index entry + 1,
                        se_position := dm_add dim (se_position entry) (ss ! se_index entry)\<rparr>,
                      dm_add dim position (ss ! se_index entry))
                    else (entry, position));
                   i = se_index entry; (n, q) = skip_rejected dim keep position (drop i ss);
                   entry = entry\<lparr>se_index := i + n,
                     se_position := foldl (dm_add dim) (se_position entry) (take n (drop i ss))\<rparr> in
                 if i + n < length ss then Some (entry # below, q, True)
                 else forward_loop dim keep False below q))"
  by pat_completeness auto
termination
  by (relation "measure (\<lambda>(dim, keep, descend, stack, position). stack_work descend stack)")
    (auto simp: stack_work_pop intro: stack_work_push)

declare forward_loop.simps [simp del]

definition search_forward ::
  "('s, 'd) dimension_ops \<Rightarrow> ('s \<Rightarrow> bool) \<Rightarrow> ('t, 's, 'd) cursor \<Rightarrow> ('t, 's, 'd) cursor option" where
  "search_forward dim keep cu = do {
     stack \<leftarrow> (if cu_stack cu = [] \<and> \<not> cu_at_end cu
       then push_entry (entry_at (cu_tree cu) 0 (dm_zero dim)) (cu_stack cu) else Some (cu_stack cu));
     (stack', position, found) \<leftarrow>
       forward_loop dim keep (cu_stack cu = [] \<and> \<not> cu_at_end cu) stack (cu_position cu);
     Some (cu\<lparr>cu_did_seek := cu_did_seek cu \<or> cu_stack cu = [], cu_stack := stack',
              cu_position := position, cu_at_end := (if found then cu_at_end cu else stack' = [])\<rparr>)
   }"

definition cursor_next ::
  "('s, 'd) dimension_ops \<Rightarrow> ('t, 's, 'd) cursor \<Rightarrow> ('t, 's, 'd) cursor option" where
  "cursor_next dim cu = search_forward dim (\<lambda>_. True) cu"

section \<open>What a cursor stands for\<close>

text \<open>The items from an index on, and the items after the entries of a stack.\<close>

definition entry_items :: "nat \<Rightarrow> ('t, 's) sum_tree \<Rightarrow> 't list" where
  "entry_items i t =
     (case t of Internal _ _ _ cts \<Rightarrow> concat (map tree_items (drop i cts)) | Leaf _ xs _ \<Rightarrow> drop i xs)"

definition below_items :: "('t, 's, 'd) stack_entry list \<Rightarrow> 't list" where
  "below_items stack = concat (map (\<lambda>e. entry_items (se_index e + 1) (se_tree e)) stack)"

definition loop_items :: "bool \<Rightarrow> ('t, 's, 'd) stack_entry list \<Rightarrow> 't list" where
  "loop_items ascending stack =
     (case stack of
        [] \<Rightarrow> []
      | e # below \<Rightarrow>
          entry_items (se_index e + (if ascending then 1 else 0)) (se_tree e) @ below_items below)"

text \<open>Entries below the top are internal nodes with a child at their index, and the stack has room
  for the nodes below.\<close>

fun below_ok :: "('t, 's) summary_ops \<Rightarrow> ('t, 's, 'd) stack_entry list \<Rightarrow> bool" where
  "below_ok ops [] \<longleftrightarrow> True"
| "below_ok ops (e # below) \<longleftrightarrow>
     \<not> is_leaf (se_tree e) \<and> node_ok ops (se_tree e)
     \<and> se_index e < length (child_summaries (se_tree e))
     \<and> height (se_tree e) + length (e # below) \<le> STACK_CAPACITY \<and> below_ok ops below"

definition loop_ok :: "('t, 's) summary_ops \<Rightarrow> bool \<Rightarrow> ('t, 's, 'd) stack_entry list \<Rightarrow> bool" where
  "loop_ok ops ascending stack \<longleftrightarrow>
     (if ascending then below_ok ops stack
      else case stack of
        [] \<Rightarrow> True
      | e # below \<Rightarrow>
          tree_ok ops (se_tree e) \<and> se_index e \<le> length (child_summaries (se_tree e))
          \<and> height (se_tree e) + length (e # below) \<le> STACK_CAPACITY \<and> below_ok ops below)"

text \<open>A stack at rest: at an item of a leaf, or empty at the end.\<close>

definition stack_at ::
  "('t, 's) summary_ops \<Rightarrow> ('t, 's, 'd) stack_entry list \<Rightarrow> 't list \<Rightarrow> bool" where
  "stack_at ops stack xs \<longleftrightarrow>
     (case stack of
        [] \<Rightarrow> xs = []
      | e # below \<Rightarrow>
          is_leaf (se_tree e) \<and> node_ok ops (se_tree e)
          \<and> se_index e < length (child_summaries (se_tree e))
          \<and> length stack \<le> STACK_CAPACITY \<and> below_ok ops below \<and> loop_items False stack = xs)"

text \<open>How many entries are passed, and up to which position.\<close>

fun passing :: "('c \<Rightarrow> 's) \<Rightarrow> ('s, 'd) dimension_ops \<Rightarrow> ('d \<Rightarrow> bool) \<Rightarrow> 'd \<Rightarrow> 'c list \<Rightarrow> nat \<times> 'd" where
  "passing sm dim passed p [] = (0, p)"
| "passing sm dim passed p (c # cs) =
     (let e = dm_add dim p (sm c) in
      if passed e then (let (n, q) = passing sm dim passed e cs in (Suc n, q)) else (0, p))"

fun push_all :: "('a \<Rightarrow> 'c \<Rightarrow> 's \<Rightarrow> 'a option) \<Rightarrow> ('c \<Rightarrow> 's) \<Rightarrow> 'a \<Rightarrow> 'c list \<Rightarrow> 'a option" where
  "push_all push sm a [] = Some a"
| "push_all push sm a (c # cs) = do { a \<leftarrow> push a c (sm c); push_all push sm a cs }"

lemma entry_items_0 [simp]: "entry_items 0 t = tree_items t"
  by (cases t) (simp_all add: entry_items_def)

lemma entry_items_Internal [simp]:
  "entry_items i (Internal h s css cts) = concat (map tree_items (drop i cts))"
  by (simp add: entry_items_def)

lemma loop_items_True [simp]: "loop_items True stack = below_items stack"
  by (cases stack) (simp_all add: loop_items_def below_items_def)

lemma seek_entries_passing:
  "passing sm dim passed p cs = (n, q) \<Longrightarrow>
   seek_entries push dim passed p a (map (\<lambda>c. (c, sm c)) cs) =
     Option.bind (push_all push sm a (take n cs))
       (\<lambda>a'. Some (n, q, a', if n < length cs then Some (cs ! n) else None))"
proof (induction cs arbitrary: p a n)
  case (Cons c cs)
  let ?e = "dm_add dim p (sm c)"
  show ?case
  proof (cases "passed ?e")
    case True
    with Cons.prems obtain m where "passing sm dim passed ?e cs = (m, q)" "n = Suc m"
      by (auto simp: Let_def split: prod.splits)
    with True Cons.IH [of ?e m] show ?thesis
      by (cases "push a c (sm c)") (auto simp: Let_def bind_eq_Some_conv split: Option.bind_splits)
  qed (use Cons.prems in \<open>auto simp: Let_def\<close>)
qed auto

lemma passing_le: "passing sm dim passed p cs = (n, q) \<Longrightarrow> n \<le> length cs"
  by (induction cs arbitrary: p n) (auto simp: Let_def split: if_splits prod.splits)

lemma passing_items:
  "passing (so_summary ops) dim (\<lambda>e. \<not> found e) p xs = (n, q) \<Longrightarrow>
     (\<forall>e \<in> set (item_ends ops dim p (take n xs)). \<not> found e)
     \<and> q = last_end p (item_ends ops dim p (take n xs))
     \<and> (n < length xs \<longrightarrow> found (dm_add dim q (so_summary ops (xs ! n))))"
proof (induction xs arbitrary: p n)
  case (Cons x xs)
  let ?e = "dm_add dim p (so_summary ops x)"
  show ?case
  proof (cases "found ?e")
    case False
    with Cons.prems obtain m where "passing (so_summary ops) dim (\<lambda>e. \<not> found e) ?e xs = (m, q)" "n = Suc m"
      by (auto simp: Let_def split: prod.splits)
    with False Cons.IH [of ?e m] show ?thesis by (auto simp: Let_def last_end_def)
  qed (use Cons.prems in \<open>auto simp: Let_def\<close>)
qed auto

context dimension_laws
begin

lemma passing_children:
  assumes "list_all (node_ok ops) cts"
    and "ordered_ends found (item_ends ops dim p (concat (map tree_items cts)))"
    and "passing summary dim (\<lambda>e. \<not> found e) p cts = (n, q)"
  shows "(\<forall>e \<in> set (item_ends ops dim p (concat (map tree_items (take n cts)))). \<not> found e)
    \<and> q = last_end p (item_ends ops dim p (concat (map tree_items (take n cts))))"
  using assms
proof (induction cts arbitrary: p n)
  case (Cons c cts)
  let ?e = "dm_add dim p (summary c)" and ?es = "item_ends ops dim p (tree_items c)"
  from Cons.prems(1) have c: "node_ok ops c" by simp
  note last = last_end_node [OF c, of p]
  have ord: "ordered_ends found ?es" "ordered_ends found (item_ends ops dim ?e (concat (map tree_items cts)))"
    using Cons.prems(2) last by (simp_all add: item_ends_append ordered_ends_append)
  show ?case
  proof (cases "found ?e")
    case False
    with Cons.prems(3) obtain m where m: "passing summary dim (\<lambda>e. \<not> found e) ?e cts = (m, q)" "n = Suc m"
      by (auto simp: Let_def split: prod.splits)
    have "\<forall>e \<in> set ?es. \<not> found e"
      using ordered_ends_last [OF ord(1)] last False by (auto simp: last_end_def split: if_splits)
    with Cons.IH [OF _ ord(2) m(1)] Cons.prems(1) m(2) last show ?thesis
      by (auto simp: item_ends_append last_end_append)
  qed (use Cons.prems(3) in \<open>auto simp: Let_def\<close>)
qed auto

end

text \<open>The interface of aggregates: what was collected so far, by whole trees or leaf by leaf.\<close>

locale seek_aggregate = dimension_laws ops dim
  for ops :: "('t, 's) summary_ops" and dim :: "('s, 'd) dimension_ops" +
  fixes ag :: "('a, 't, 's) aggregate_ops" and collected :: "'a \<Rightarrow> 't list \<Rightarrow> bool"
  assumes collect_tree: "\<lbrakk>collected a xs; node_ok ops t\<rbrakk> \<Longrightarrow>
      \<exists>a'. ag_push_tree ag a t (summary t) = Some a' \<and> collected a' (xs @ tree_items t)"
    and collect_leaf: "\<lbrakk>collected a xs; length ys \<le> 2 * TREE_BASE\<rbrakk> \<Longrightarrow>
      \<exists>a'. Option.bind (push_all (ag_push_item ag) (so_summary ops) a ys) (ag_end_leaf ag) = Some a'
        \<and> collected a' (xs @ ys)"
begin

lemma collect_trees:
  "\<lbrakk>collected a xs; list_all (node_ok ops) ts\<rbrakk> \<Longrightarrow>
   \<exists>a'. push_all (ag_push_tree ag) summary a ts = Some a'
     \<and> collected a' (xs @ concat (map tree_items ts))"
proof (induction ts arbitrary: a xs)
  case (Cons t ts)
  with collect_tree [of a xs t] obtain a1 where
    "ag_push_tree ag a t (summary t) = Some a1" "collected a1 (xs @ tree_items t)" by auto
  with Cons.IH [of a1 "xs @ tree_items t"] Cons.prems(2) show ?case by simp
qed simp

text \<open>What a seek promises: it passes the items whose ends the target lies behind, up to the first that
  the target is in.\<close>

definition sought ::
  "('d \<Rightarrow> bool) \<Rightarrow> 'd \<Rightarrow> 't list \<Rightarrow> 't list \<Rightarrow> ('t, 's, 'd) stack_entry list \<times> 'd \<times> 'a \<Rightarrow> bool" where
  "sought found p xs rest = (\<lambda>(stack, q, a). \<exists>ys zs. rest = ys @ zs
     \<and> (\<forall>e \<in> set (item_ends ops dim p ys). \<not> found e) \<and> q = last_end p (item_ends ops dim p ys)
     \<and> collected a (xs @ ys) \<and> stack_at ops stack zs
     \<and> (zs \<noteq> [] \<longrightarrow> found (dm_add dim q (so_summary ops (hd zs)))))"

lemma sought_step:
  assumes "sought found (last_end p (item_ends ops dim p ys)) (xs @ ys) zs r"
    and "\<forall>e \<in> set (item_ends ops dim p ys). \<not> found e"
  shows "sought found p xs (ys @ zs) r"
proof -
  obtain stack q a where r: "r = (stack, q, a)" by (cases r)
  with assms(1) obtain us vs where uv: "zs = us @ vs"
      "\<forall>e \<in> set (item_ends ops dim (last_end p (item_ends ops dim p ys)) us). \<not> found e"
      "q = last_end (last_end p (item_ends ops dim p ys))
        (item_ends ops dim (last_end p (item_ends ops dim p ys)) us)"
      "collected a (xs @ ys @ us)" "stack_at ops stack vs"
      "vs \<noteq> [] \<longrightarrow> found (dm_add dim q (so_summary ops (hd vs)))"
    by (auto simp: sought_def)
  show ?thesis
    unfolding sought_def r prod.case
    by (rule exI [of _ "ys @ us"], rule exI [of _ vs])
      (use uv assms(2) in \<open>auto simp: item_ends_append last_end_append\<close>)
qed

text \<open>The step at a leaf: items are passed, and the stack stays there or goes on above.\<close>

lemma seek_leaf:
  assumes leaf: "se_tree e = Leaf s ls ss" and ok: "loop_ok ops asc (e # below)"
    and a: "collected a xs"
    and up: "\<And>q a'. collected a' (xs @ drop (se_index e) ls) \<Longrightarrow>
      q = last_end p (item_ends ops dim p (drop (se_index e) ls)) \<Longrightarrow>
      \<exists>r. seek_loop ag dim (\<lambda>e. \<not> found e) True below q a' = Some r
        \<and> sought found q (xs @ drop (se_index e) ls) (below_items below) r"
  shows "\<exists>r. seek_loop ag dim (\<lambda>e. \<not> found e) asc (e # below) p a = Some r
    \<and> sought found p xs (loop_items asc (e # below)) r"
proof -
  let ?i = "se_index e" and ?ls = "drop (se_index e) ls"
  from ok leaf have asc: "\<not> asc" and top: "tree_ok ops (Leaf s ls ss)" "?i \<le> length ss"
      "length (e # below) \<le> STACK_CAPACITY" "below_ok ops below"
    by (auto simp: loop_ok_def split: if_splits)
  then have ss: "ss = map (so_summary ops) ls" "length ls \<le> 2 * TREE_BASE"
    by (auto simp: tree_ok_def tree_new_def)
  obtain n q where n: "passing (so_summary ops) dim (\<lambda>e. \<not> found e) p ?ls = (n, q)" by fastforce
  note passed = passing_items [OF n] and n_le = passing_le [OF n]
  have "length (take n ?ls) \<le> 2 * TREE_BASE" using ss(2) by simp
  from collect_leaf [OF a this] obtain a1 a' where
    a': "push_all (ag_push_item ag) (so_summary ops) a (take n ?ls) = Some a1" "ag_end_leaf ag a1 = Some a'"
      "collected a' (xs @ take n ?ls)"
    by (auto simp: bind_eq_Some_conv)
  have "zip ?ls (drop ?i ss) = map (\<lambda>x. (x, so_summary ops x)) ?ls"
    by (simp add: ss drop_map zip_map_same)
  then have run: "seek_entries (ag_push_item ag) dim (\<lambda>e. \<not> found e) p a (zip ?ls (drop ?i ss)) =
      Some (n, q, a1, if n < length ?ls then Some (?ls ! n) else None)"
    by (simp only: seek_entries_passing [OF n] a'(1) bind.bind_lunit)
  have unfold: "seek_loop ag dim (\<lambda>e. \<not> found e) asc (e # below) p a =
      (if n < length ?ls then Some (e\<lparr>se_index := ?i + n\<rparr> # below, q, a')
       else seek_loop ag dim (\<lambda>e. \<not> found e) True below q a')"
    using leaf top(2) run a'(2) ss(1) by (subst seek_loop.simps) (simp add: Let_def)
  have items: "loop_items asc (e # below) = ?ls @ below_items below"
    using asc leaf by (simp add: loop_items_def entry_items_def)
  show ?thesis
  proof (cases "n < length ?ls")
    case True
    let ?r = "(e\<lparr>se_index := ?i + n\<rparr> # below, q, a')"
    have "stack_at ops (e\<lparr>se_index := ?i + n\<rparr> # below) (drop n ?ls @ below_items below)"
      using True leaf top ss(1)
      by (auto simp: stack_at_def loop_items_def entry_items_def tree_ok_def tree_new_def add.commute)
    moreover have "hd (drop n ?ls @ below_items below) = ?ls ! n"
      using True by (simp add: hd_drop_conv_nth add.commute)
    ultimately have "sought found p xs (take n ?ls @ drop n ?ls @ below_items below) ?r"
      unfolding sought_def prod.case using passed True a'(3) by metis
    moreover have "loop_items asc (e # below) = take n ?ls @ drop n ?ls @ below_items below"
      unfolding items by (metis append_assoc append_take_drop_id)
    moreover have "seek_loop ag dim (\<lambda>e. \<not> found e) asc (e # below) p a = Some ?r"
      using unfold True by simp
    ultimately show ?thesis by metis
  next
    case False
    with n_le have "n = length ?ls" by simp
    with up [of a' q] a'(3) passed unfold False items sought_step [of found p ?ls xs] show ?thesis
      by fastforce
  qed
qed

text \<open>The step at an internal node: children are passed, and the seek goes on in a child or above.\<close>

lemma seek_node:
  assumes node: "se_tree e = Internal h s css cts" and ok: "loop_ok ops asc (e # below)"
    and ord: "ordered_ends found (item_ends ops dim p (loop_items asc (e # below)))"
    and a: "collected a xs"
    and rec: "\<And>asc' stack ys q a'. \<lbrakk>stack_work (\<not> asc') stack < stack_work (\<not> asc) (e # below);
      loop_ok ops asc' stack; collected a' ys;
      ordered_ends found (item_ends ops dim q (loop_items asc' stack))\<rbrakk> \<Longrightarrow>
      \<exists>r. seek_loop ag dim (\<lambda>e. \<not> found e) asc' stack q a' = Some r
        \<and> sought found q ys (loop_items asc' stack) r"
  shows "\<exists>r. seek_loop ag dim (\<lambda>e. \<not> found e) asc (e # below) p a = Some r
    \<and> sought found p xs (loop_items asc (e # below)) r"
proof -
  define i where "i = se_index e + (if asc then 1 else 0)"
  define e' where "e' = (if asc then e\<lparr>se_index := i, se_position := p\<rparr> else e)"
  let ?cs = "drop i cts"
  from ok node have nok: "node_ok ops (Internal h s css cts)" "i \<le> length css"
      "h + length (e # below) \<le> STACK_CAPACITY" "below_ok ops below"
    by (auto simp: loop_ok_def i_def tree_ok_def tree_new_def split: if_splits)
  then have css: "css = map summary cts" and all: "list_all (node_ok ops) ?cs"
    by (auto simp: list_all_iff dest: in_set_dropD)
  obtain n q where n: "passing summary dim (\<lambda>e. \<not> found e) p ?cs = (n, q)" by fastforce
  note n_le = passing_le [OF n]
  let ?ys = "concat (map tree_items (take n ?cs))"
  let ?zs = "concat (map tree_items (drop n ?cs)) @ below_items below"
  have all_items: "loop_items asc (e # below) = concat (map tree_items ?cs) @ below_items below"
    using node by (simp add: loop_items_def i_def)
  moreover have "concat (map tree_items ?cs) = ?ys @ concat (map tree_items (drop n ?cs))"
    by (metis append_take_drop_id concat_append map_append)
  ultimately have items: "loop_items asc (e # below) = ?ys @ ?zs" by (simp only: append_assoc)
  from all_items
    ord have "ordered_ends found (item_ends ops dim p (concat (map tree_items ?cs)))"
    by (simp add: item_ends_append ordered_ends_append)
  note passed = passing_children [OF all this n]
  from ord items passed have ord': "ordered_ends found (item_ends ops dim q ?zs)"
    by (simp add: item_ends_append ordered_ends_append)
  have "list_all (node_ok ops) (take n ?cs)" using all by (auto simp: list_all_iff dest: in_set_takeD)
  from collect_trees [OF a this] obtain a' where
    a': "push_all (ag_push_tree ag) summary a (take n ?cs) = Some a'" "collected a' (xs @ ?ys)" by blast
  have "zip ?cs (drop i css) = map (\<lambda>c. (c, summary c)) ?cs" by (simp add: css drop_map zip_map_same)
  then have run: "seek_entries (ag_push_tree ag) dim (\<lambda>e. \<not> found e) p a (zip ?cs (drop i css)) =
      Some (n, q, a', if n < length ?cs then Some (?cs ! n) else None)"
    by (simp only: seek_entries_passing [OF n] a'(1) bind.bind_lunit)
  define f where "f = e'\<lparr>se_index := i + n, se_position := (if n = 0 then se_position e' else q)\<rparr>"
  have f: "se_tree f = Internal h s css cts" "se_index f = i + n"
    using node by (simp_all add: f_def e'_def)
  have e': "se_index e' = i" by (simp add: e'_def i_def)
  have unfold: "seek_loop ag dim (\<lambda>e. \<not> found e) asc (e # below) p a =
      (if n < length ?cs then
         (if length below + 1 < STACK_CAPACITY
          then seek_loop ag dim (\<lambda>e. \<not> found e) False (entry_at (?cs ! n) 0 q # f # below) q a'
          else None)
       else seek_loop ag dim (\<lambda>e. \<not> found e) True below q a')"
  proof -
    have code: "(if asc then e\<lparr>se_index := se_index e + 1, se_position := p\<rparr> else e) = e'"
      by (simp add: e'_def i_def)
    have len: "length css = length cts" by (simp add: css)
    show ?thesis
      by (subst seek_loop.simps, simp only: list.case node sum_tree.case code Let_def e' run)
        (use nok(2) len in \<open>simp add: f_def\<close>)
  qed
  have "\<exists>r. seek_loop ag dim (\<lambda>e. \<not> found e) asc (e # below) p a = Some r
      \<and> sought found q (xs @ ?ys) ?zs r"
  proof (cases "n < length ?cs")
    case True
    let ?c = "?cs ! n" and ?stack = "entry_at (?cs ! n) 0 q # f # below"
    have "?c \<in> set cts" using True by (simp add: nth_drop)
    with nok(1) have c: "node_ok ops ?c" "h = height ?c + 1" by (auto simp: list_all_iff)
    have "drop n ?cs = ?c # drop (Suc (i + n)) cts"
      using Cons_nth_drop_Suc [of n ?cs] True by (simp add: add.commute)
    then have zs: "loop_items False ?stack = ?zs"
      using f by (simp add: loop_items_def below_items_def entry_at_def)
    have "loop_ok ops False ?stack"
      using c nok f True css by (auto simp: loop_ok_def entry_at_def tree_ok_def)
    moreover have "stack_work True ?stack < stack_work (\<not> asc) (e # below)"
      by (rule seek_descend_work [OF node _ run [unfolded if_P [OF True]]]) (use f node in \<open>auto simp: i_def\<close>)
    ultimately show ?thesis
      using rec [of False ?stack a' "xs @ ?ys" q] unfold True a'(2) ord' zs nok(3) c(2)
      by simp
  next
    case False
    with n_le have "?zs = below_items below" by simp
    with rec [of True below a' "xs @ ?ys" q] stack_work_pop [of below] nok(4) a'(2) ord' unfold False
    show ?thesis by (simp add: loop_ok_def)
  qed
  with sought_step passed items show ?thesis by metis
qed

lemma seek_loop_sought:
  "\<lbrakk>loop_ok ops asc stack; collected a xs;
    ordered_ends found (item_ends ops dim p (loop_items asc stack))\<rbrakk> \<Longrightarrow>
   \<exists>r. seek_loop ag dim (\<lambda>e. \<not> found e) asc stack p a = Some r
     \<and> sought found p xs (loop_items asc stack) r"
proof (induction "stack_work (\<not> asc) stack" arbitrary: asc stack a xs p rule: less_induct)
  case less
  show ?case
  proof (cases stack)
    case Nil
    with less.prems show ?thesis
      by (simp add: seek_loop.simps sought_def loop_items_def stack_at_def)
  next
    case (Cons e below)
    show ?thesis
    proof (cases "se_tree e")
      case (Internal h s css cts)
      show ?thesis unfolding Cons
        by (rule seek_node [OF Internal]) (use less Cons in \<open>simp_all\<close>)
    next
      case (Leaf s ls ss)
      let ?ls = "drop (se_index e) ls"
      from less.prems(1) Cons Leaf have "\<not> asc" "below_ok ops below"
        by (auto simp: loop_ok_def split: if_splits)
      with Cons Leaf have items: "loop_items asc stack = ?ls @ below_items below"
        by (simp add: loop_items_def entry_items_def)
      have "ordered_ends found (item_ends ops dim (last_end p (item_ends ops dim p ?ls)) (below_items below))"
        using less.prems(3) items by (simp add: item_ends_append ordered_ends_append)
      with less.hyps [of True below] stack_work_pop [of below] Cons \<open>below_ok ops below\<close>
      show ?thesis unfolding Cons
        by (intro seek_leaf [OF Leaf less.prems(1) [unfolded Cons] less.prems(2)]) (simp add: loop_ok_def)
    qed
  qed
qed

end

text \<open>A cursor at the items not passed yet and at a position: before the first seek it is at all items
  of its tree.\<close>

definition cursor_at ::
  "('t, 's) summary_ops \<Rightarrow> ('s, 'd) dimension_ops \<Rightarrow> ('t, 's, 'd) cursor \<Rightarrow> 't list \<Rightarrow> 'd \<Rightarrow> bool" where
  "cursor_at ops dim cu xs p \<longleftrightarrow>
     tree_ok ops (cu_tree cu) \<and> height (cu_tree cu) < STACK_CAPACITY \<and> cu_position cu = p
     \<and> (if cu_did_seek cu then stack_at ops (cu_stack cu) xs \<and> (cu_at_end cu \<longleftrightarrow> cu_stack cu = [])
        else cu_stack cu = [] \<and> p = dm_zero dim \<and> xs = tree_items (cu_tree cu)
          \<and> (cu_at_end cu \<longleftrightarrow> tree_is_empty (cu_tree cu)))"

lemma tree_is_empty_items: "tree_ok ops t \<Longrightarrow> tree_is_empty t \<longleftrightarrow> tree_items t = []"
  by (auto simp: tree_ok_def tree_new_def dest: node_ok_items node_ok_nonempty)

lemma cursor_at_new:
  "\<lbrakk>tree_ok ops t; height t < STACK_CAPACITY\<rbrakk> \<Longrightarrow>
     cursor_at ops dim (cursor_new dim t) (tree_items t) (dm_zero dim)"
  by (simp add: cursor_at_def cursor_new_def)

lemma cursor_at_reset:
  "cursor_at ops dim cu xs p \<Longrightarrow>
     cursor_at ops dim (cursor_reset dim cu) (tree_items (cu_tree cu)) (dm_zero dim)"
  by (simp add: cursor_at_def cursor_reset_def)

lemma cursor_item_at:
  assumes "cursor_at ops dim cu xs p" "cu_did_seek cu"
  shows "cursor_item cu = Some (case xs of [] \<Rightarrow> None | x # _ \<Rightarrow> Some x)"
    and "cursor_item_summary cu = Some (case xs of [] \<Rightarrow> None | x # _ \<Rightarrow> Some (so_summary ops x))"
proof -
  from assms have at: "stack_at ops (cu_stack cu) xs" by (simp add: cursor_at_def)
  have "cursor_item cu = Some (case xs of [] \<Rightarrow> None | x # _ \<Rightarrow> Some x)
      \<and> cursor_item_summary cu = Some (case xs of [] \<Rightarrow> None | x # _ \<Rightarrow> Some (so_summary ops x))"
  proof (cases "cu_stack cu")
    case Nil
    with at assms(2) show ?thesis
      by (simp add: stack_at_def cursor_item_def cursor_item_summary_def current_def)
  next
    case (Cons e below)
    with at obtain s ls where leaf: "se_tree e = Leaf s ls (map (so_summary ops) ls)"
        "se_index e < length ls" "xs = drop (se_index e) ls @ below_items below"
      by (cases "se_tree e") (auto simp: stack_at_def loop_items_def entry_items_def)
    then have "xs = ls ! se_index e # drop (Suc (se_index e)) ls @ below_items below"
      by (simp add: Cons_nth_drop_Suc [symmetric])
    with leaf Cons assms(2) show ?thesis
      by (simp add: cursor_item_def cursor_item_summary_def current_def leaf_item_summaries_def)
  qed
  then show "cursor_item cu = Some (case xs of [] \<Rightarrow> None | x # _ \<Rightarrow> Some x)"
    and "cursor_item_summary cu = Some (case xs of [] \<Rightarrow> None | x # _ \<Rightarrow> Some (so_summary ops x))"
    by blast+
qed

lemma past_eq: "past target b = (\<lambda>e. \<not> target_in target b e)"
proof (rule ext)
  fix e
  show "past target b e = (\<not> target_in target b e)"
    by (cases "target e"; cases b) (simp_all add: past_def target_in_def)
qed

text \<open>A seek splits the items not passed yet at the target.\<close>

definition seek_splits ::
  "('t, 's) summary_ops \<Rightarrow> ('s, 'd) dimension_ops \<Rightarrow> ('d \<Rightarrow> bool) \<Rightarrow> 't list \<Rightarrow> 'd \<Rightarrow> 't list \<Rightarrow> 't list \<Rightarrow> bool"
  where
  "seek_splits ops dim found xs p ys zs \<longleftrightarrow>
     xs = ys @ zs \<and> (\<forall>e \<in> set (item_ends ops dim p ys). \<not> found e)
     \<and> (zs \<noteq> [] \<longrightarrow> found (dm_add dim (last_end p (item_ends ops dim p ys)) (so_summary ops (hd zs))))"

context seek_aggregate
begin

lemma seek_internal_splits:
  assumes at: "cursor_at ops dim cu xs p" and forward: "target p \<noteq> Less"
    and ord: "ordered_ends (target_in target b) (item_ends ops dim p xs)"
    and a: "collected a cs"
  shows "\<exists>found cu' a' ys zs. seek_internal ag dim target b cu a = Some (found, cu', a')
    \<and> seek_splits ops dim (target_in target b) xs p ys zs
    \<and> cursor_at ops dim cu' zs (last_end p (item_ends ops dim p ys)) \<and> cu_did_seek cu'
    \<and> cu_tree cu' = cu_tree cu \<and> collected a' (cs @ ys)"
proof -
  from at have p: "cu_position cu = p" and tree: "tree_ok ops (cu_tree cu)" "height (cu_tree cu) < STACK_CAPACITY"
    by (simp_all add: cursor_at_def)
  let ?start = "if cu_did_seek cu then Some (cu_stack cu)
    else push_entry (entry_at (cu_tree cu) 0 (dm_zero dim)) (cu_stack cu)"
  obtain stack where start: "?start = Some stack" "loop_ok ops False stack" "loop_items False stack = xs"
  proof (cases "cu_did_seek cu")
    case True
    with at have "stack_at ops (cu_stack cu) xs" by (simp add: cursor_at_def)
    with True that [of "cu_stack cu"] show thesis
      by (cases "cu_stack cu")
        (auto simp: stack_at_def loop_ok_def loop_items_def tree_ok_def node_ok_height_0 [THEN iffD2])
  next
    case False
    with at that [of "[entry_at (cu_tree cu) 0 (dm_zero dim)]"] show thesis
      by (auto simp: cursor_at_def push_entry_def loop_ok_def loop_items_def entry_at_def below_items_def
          STACK_CAPACITY_def)
  qed
  from seek_loop_sought [OF start(2) a, of "target_in target b" p] ord start(3)
  obtain stack' q a' where run: "seek_loop ag dim (past target b) False stack p a = Some (stack', q, a')"
      and "sought (target_in target b) p cs xs (stack', q, a')"
    by (auto simp: past_eq)
  then obtain ys zs where split: "seek_splits ops dim (target_in target b) xs p ys zs"
      "q = last_end p (item_ends ops dim p ys)" "collected a' (cs @ ys)" "stack_at ops stack' zs"
    by (auto simp: sought_def seek_splits_def)
  define cu' where "cu' = cu\<lparr>cu_did_seek := True, cu_stack := stack', cu_position := q, cu_at_end := (stack' = [])\<rparr>"
  have at': "cursor_at ops dim cu' zs q" "cu_did_seek cu'" "cu_tree cu' = cu_tree cu"
    using tree split(4) by (simp_all add: cursor_at_def cu'_def)
  have "\<exists>end_pos. (if b = BiasLeft then cursor_end dim cu' else Some q) = Some end_pos"
    using cursor_item_at(2) [OF at'(1,2)] by (simp add: cursor_end_def)
  then obtain end_pos where "(if b = BiasLeft then cursor_end dim cu' else Some q) = Some end_pos" ..
  then have "seek_internal ag dim target b cu a = Some (target end_pos = Equal, cu', a')"
    using forward p start(1) run by (auto simp: seek_internal_def Let_def simp flip: cu'_def split: if_splits)
  with at' split show ?thesis by blast
qed

end

text \<open>The three aggregates of the code.\<close>

definition slice_collected :: "('t, 's) summary_ops \<Rightarrow> ('t, 's) slice_aggregate \<Rightarrow> 't list \<Rightarrow> bool" where
  "slice_collected ops sl xs \<longleftrightarrow>
     tree_ok ops (sl_tree sl) \<and> tree_items (sl_tree sl) = xs \<and> sl_leaf_items sl = []
     \<and> sl_leaf_item_summaries sl = [] \<and> sl_leaf_summary sl = so_zero ops"

lemma slice_push_all:
  "length (sl_leaf_items sl) + length ys \<le> 2 * TREE_BASE \<Longrightarrow>
   length (sl_leaf_item_summaries sl) = length (sl_leaf_items sl) \<Longrightarrow>
   push_all (slice_push_item ops) (so_summary ops) sl ys =
     Some (sl\<lparr>sl_leaf_items := sl_leaf_items sl @ ys,
              sl_leaf_item_summaries := sl_leaf_item_summaries sl @ map (so_summary ops) ys,
              sl_leaf_summary := foldl (so_add ops) (sl_leaf_summary sl) (map (so_summary ops) ys)\<rparr>)"
  by (induction ys arbitrary: sl) (simp_all add: slice_push_item_def)

sublocale dimension_laws \<subseteq> skip: seek_aggregate ops dim unit_aggregate "\<lambda>_ _. True"
proof unfold_locales
  fix a :: unit and ys :: "'t list"
  have "push_all (\<lambda>_ _ _. Some ()) (so_summary ops) a ys = Some ()" by (induction ys) simp_all
  then show "\<exists>a'. Option.bind (push_all (ag_push_item unit_aggregate) (so_summary ops) a ys)
      (ag_end_leaf unit_aggregate) = Some a' \<and> True"
    by (simp add: unit_aggregate_def)
qed (simp add: unit_aggregate_def)

sublocale dimension_laws \<subseteq> slice: seek_aggregate ops dim "slice_ops ops" "slice_collected ops"
proof unfold_locales
  fix a xs and t :: "('t, 's) sum_tree"
  assume a: "slice_collected ops a xs" and t: "node_ok ops t"
  then obtain u where "append_tree ops (sl_tree a) t = Some u" "tree_ok ops u" "tree_items u = xs @ tree_items t"
    using append_tree_refines [of "sl_tree a" t] by (fastforce simp: slice_collected_def tree_ok_def)
  with a show "\<exists>a'. ag_push_tree (slice_ops ops) a t (summary t) = Some a'
      \<and> slice_collected ops a' (xs @ tree_items t)"
    by (simp add: slice_ops_def slice_push_tree_def slice_collected_def)
next
  fix a xs and ys :: "'t list"
  assume a: "slice_collected ops a xs" and len: "length ys \<le> 2 * TREE_BASE"
  let ?leaf = "Leaf (sum_summaries ops (map (so_summary ops) ys)) ys (map (so_summary ops) ys)"
  have "tree_ok ops ?leaf" using len by (auto simp: tree_ok_def tree_new_def sum_summaries_def)
  with a append_tree_refines [of "sl_tree a" ?leaf] obtain t where
    "append_tree ops (sl_tree a) ?leaf = Some t" "tree_ok ops t" "tree_items t = xs @ ys"
    by (auto simp: slice_collected_def)
  with a len show "\<exists>a'. Option.bind (push_all (ag_push_item (slice_ops ops)) (so_summary ops) a ys)
      (ag_end_leaf (slice_ops ops)) = Some a' \<and> slice_collected ops a' (xs @ ys)"
    by (simp add: slice_ops_def slice_push_all slice_collected_def slice_end_leaf_def sum_summaries_def)
qed

section \<open>The next item\<close>

lemma skip_rejected_map:
  "skip_rejected dim keep p (map sm cs) = (n, q) \<Longrightarrow>
     n \<le> length cs \<and> (\<forall>c \<in> set (take n cs). \<not> keep (sm c)) \<and> (n < length cs \<longrightarrow> keep (sm (cs ! n)))
     \<and> q = foldl (dm_add dim) p (map sm (take n cs))"
proof (induction cs arbitrary: p n)
  case (Cons c cs)
  show ?case
  proof (cases "keep (sm c)")
    case False
    with Cons.prems obtain m where "skip_rejected dim keep (dm_add dim p (sm c)) (map sm cs) = (m, q)" "n = Suc m"
      by (auto split: prod.splits)
    with Cons.IH False show ?thesis by fastforce
  qed (use Cons.prems in auto)
qed simp

lemma last_end_foldl:
  "last_end p (item_ends ops dim p xs) = foldl (dm_add dim) p (map (so_summary ops) xs)"
  by (induction xs arbitrary: p) (simp_all add: Let_def last_end_def split: if_splits)

text \<open>A filter that rejects a node must reject the items below it.\<close>

definition filter_sound :: "('t, 's) summary_ops \<Rightarrow> ('s \<Rightarrow> bool) \<Rightarrow> bool" where
  "filter_sound ops keep \<longleftrightarrow>
     (\<forall>t. node_ok ops t \<and> \<not> keep (summary t) \<longrightarrow> (\<forall>x \<in> set (tree_items t). \<not> keep (so_summary ops x)))"

lemma filter_sound_all [simp]: "filter_sound ops (\<lambda>_. True)"
  by (simp add: filter_sound_def)

definition forward_splits ::
  "('t, 's) summary_ops \<Rightarrow> ('s, 'd) dimension_ops \<Rightarrow> ('s \<Rightarrow> bool) \<Rightarrow> 'd \<Rightarrow> 't list
   \<Rightarrow> ('t, 's, 'd) stack_entry list \<times> 'd \<times> bool \<Rightarrow> bool" where
  "forward_splits ops dim keep p xs = (\<lambda>(stack, q, found). \<exists>ys zs. xs = ys @ zs
     \<and> (\<forall>y \<in> set ys. \<not> keep (so_summary ops y)) \<and> (zs \<noteq> [] \<longrightarrow> keep (so_summary ops (hd zs)))
     \<and> q = last_end p (item_ends ops dim p ys) \<and> stack_at ops stack zs \<and> (found \<longleftrightarrow> zs \<noteq> []))"

lemma forward_splits_step:
  assumes "forward_splits ops dim keep (last_end p (item_ends ops dim p ys)) zs r"
    and "\<forall>y \<in> set ys. \<not> keep (so_summary ops y)"
  shows "forward_splits ops dim keep p (ys @ zs) r"
proof -
  obtain stack q found where r: "r = (stack, q, found)" by (cases r)
  let ?p = "last_end p (item_ends ops dim p ys)"
  from assms(1) r obtain us vs where uv: "zs = us @ vs" "\<forall>y \<in> set us. \<not> keep (so_summary ops y)"
      "vs \<noteq> [] \<longrightarrow> keep (so_summary ops (hd vs))" "q = last_end ?p (item_ends ops dim ?p us)"
      "stack_at ops stack vs" "found \<longleftrightarrow> vs \<noteq> []"
    by (auto simp: forward_splits_def)
  show ?thesis
    unfolding forward_splits_def r prod.case
    by (rule exI [of _ "ys @ us"], rule exI [of _ vs])
      (use uv assms(2) in \<open>auto simp: item_ends_append last_end_append\<close>)
qed

lemma forward_leaf:
  assumes leaf: "se_tree e = Leaf s ls ss" and ok: "loop_ok ops False (e # below)"
    and up: "\<And>q. \<exists>r. forward_loop dim keep False below q = Some r
      \<and> forward_splits ops dim keep q (below_items below) r"
  shows "\<exists>r. forward_loop dim keep True (e # below) p = Some r
    \<and> forward_splits ops dim keep p (loop_items False (e # below)) r"
proof -
  let ?i = "se_index e" and ?ls = "drop (se_index e) ls"
  from ok leaf have top: "tree_ok ops (Leaf s ls ss)" "?i \<le> length ss"
      "length (e # below) \<le> STACK_CAPACITY" "below_ok ops below"
    by (auto simp: loop_ok_def)
  then have ss: "ss = map (so_summary ops) ls" by (auto simp: tree_ok_def tree_new_def)
  obtain n q where "skip_rejected dim keep p (map (so_summary ops) ?ls) = (n, q)" by fastforce
  then have n: "skip_rejected dim keep p (drop ?i ss) = (n, q)" by (simp add: ss drop_map)
  note skipped = skip_rejected_map [of dim keep p "so_summary ops" ?ls n q, folded drop_map ss, OF n]
  have q: "q = last_end p (item_ends ops dim p (take n ?ls))"
    using skipped by (simp add: last_end_foldl)
  define f where "f = e\<lparr>se_index := ?i + n,
    se_position := foldl (dm_add dim) (se_position e) (take n (drop ?i ss))\<rparr>"
  have f: "se_tree f = Leaf s ls ss" "se_index f = ?i + n" using leaf by (simp_all add: f_def)
  have unfold: "forward_loop dim keep True (e # below) p =
      (if ?i + n < length ss then Some (f # below, q, True) else forward_loop dim keep False below q)"
    by (subst forward_loop.simps) (use leaf n in \<open>simp add: Let_def flip: f_def\<close>)
  have items: "loop_items False (e # below) = take n ?ls @ drop n ?ls @ below_items below"
    using leaf by (simp add: loop_items_def entry_items_def) (metis append_assoc append_take_drop_id drop_drop)
  show ?thesis
  proof (cases "n < length ?ls")
    case True
    have "stack_at ops (f # below) (drop n ?ls @ below_items below)"
      using True f top ss
      by (auto simp: stack_at_def loop_items_def entry_items_def tree_ok_def tree_new_def add.commute)
    moreover have "hd (drop n ?ls @ below_items below) = ?ls ! n" "drop n ?ls \<noteq> []"
      using True by (simp_all add: hd_drop_conv_nth add.commute)
    ultimately have "forward_splits ops dim keep p (loop_items False (e # below)) (f # below, q, True)"
      unfolding forward_splits_def prod.case items using skipped q True by (metis append_is_Nil_conv)
    moreover have "forward_loop dim keep True (e # below) p = Some (f # below, q, True)"
      using unfold True ss by (simp add: less_diff_conv add.commute)
    ultimately show ?thesis by blast
  next
    case False
    with skipped have "n = length ?ls" by simp
    with up [of q] skipped q unfold False items ss forward_splits_step [of ops dim keep p ?ls] show ?thesis
      by fastforce
  qed
qed

context dimension_laws
begin

lemma last_end_children:
  "list_all (node_ok ops) ts \<Longrightarrow>
   last_end p (item_ends ops dim p (concat (map tree_items ts))) = foldl (dm_add dim) p (map summary ts)"
  by (induction ts arbitrary: p) (simp_all add: item_ends_append last_end_append last_end_node)

lemma forward_node:
  assumes node: "se_tree e = Internal h s css cts" and ok: "loop_ok ops (\<not> descend) (e # below)"
    and sound: "filter_sound ops keep"
    and rec: "\<And>descend' stack q. \<lbrakk>stack_work descend' stack < stack_work descend (e # below);
      loop_ok ops (\<not> descend') stack\<rbrakk> \<Longrightarrow>
      \<exists>r. forward_loop dim keep descend' stack q = Some r
        \<and> forward_splits ops dim keep q (loop_items (\<not> descend') stack) r"
  shows "\<exists>r. forward_loop dim keep descend (e # below) p = Some r
    \<and> forward_splits ops dim keep p (loop_items (\<not> descend) (e # below)) r"
proof -
  define i where "i = se_index e + (if descend then 0 else 1)"
  define e' where "e' = (if \<not> descend then e\<lparr>se_index := i, se_position := p\<rparr> else e)"
  let ?cs = "drop i cts"
  from ok node have nok: "node_ok ops (Internal h s css cts)" "i \<le> length css"
      "h + length (e # below) \<le> STACK_CAPACITY" "below_ok ops below"
    by (auto simp: loop_ok_def i_def tree_ok_def tree_new_def split: if_splits)
  then have css: "css = map summary cts" and all: "list_all (node_ok ops) ?cs"
    by (auto simp: list_all_iff dest: in_set_dropD)
  obtain n q where n: "skip_rejected dim keep p (drop i css) = (n, q)" by fastforce
  note skipped = skip_rejected_map [of dim keep p summary ?cs n q, folded drop_map css, OF n]
  let ?ys = "concat (map tree_items (take n ?cs))"
  let ?zs = "concat (map tree_items (drop n ?cs)) @ below_items below"
  have take_ok: "list_all (node_ok ops) (take n ?cs)" using all by (auto simp: list_all_iff dest: in_set_takeD)
  then have rejected: "\<forall>y \<in> set ?ys. \<not> keep (so_summary ops y)"
    using skipped sound by (fastforce simp: filter_sound_def list_all_iff)
  have q: "q = last_end p (item_ends ops dim p ?ys)" using skipped last_end_children [OF take_ok] by simp
  have "loop_items (\<not> descend) (e # below) = concat (map tree_items ?cs) @ below_items below"
    using node by (simp add: loop_items_def i_def)
  moreover have "concat (map tree_items ?cs) = ?ys @ concat (map tree_items (drop n ?cs))"
    by (metis append_take_drop_id concat_append map_append)
  ultimately have items: "loop_items (\<not> descend) (e # below) = ?ys @ ?zs" by (simp only: append_assoc)
  define f where "f = e'\<lparr>se_index := i + n,
    se_position := foldl (dm_add dim) (se_position e') (take n (drop i css))\<rparr>"
  have f: "se_tree f = Internal h s css cts" "se_index f = i + n" and e': "se_index e' = i"
    using node by (simp_all add: f_def e'_def i_def)
  have unfold: "forward_loop dim keep descend (e # below) p =
      (if i + n < length cts then
         (if length below + 1 < STACK_CAPACITY
          then forward_loop dim keep True (entry_at (cts ! (i + n)) 0 q # f # below) q else None)
       else forward_loop dim keep False below q)"
  proof -
    have code: "(if \<not> descend then e\<lparr>se_index := se_index e + 1, se_position := p\<rparr> else e) = e'"
      by (simp add: e'_def i_def)
    show ?thesis
      by (subst forward_loop.simps, simp only: list.case node sum_tree.case code Let_def e' n prod.case)
        (simp add: f_def)
  qed
  have "\<exists>r. forward_loop dim keep descend (e # below) p = Some r \<and> forward_splits ops dim keep q ?zs r"
  proof (cases "i + n < length cts")
    case True
    let ?c = "cts ! (i + n)" and ?stack = "entry_at (cts ! (i + n)) 0 q # f # below"
    from nok(1) True have c: "node_ok ops ?c" "h = height ?c + 1" by (auto simp: list_all_length)
    have "drop n ?cs = ?c # drop (Suc (i + n)) cts"
      using Cons_nth_drop_Suc [OF True] by (simp add: add.commute)
    then have zs: "loop_items False ?stack = ?zs"
      using f by (simp add: loop_items_def below_items_def entry_at_def)
    have "loop_ok ops False ?stack"
      using c nok f True css by (auto simp: loop_ok_def entry_at_def tree_ok_def)
    moreover have "stack_work True ?stack < stack_work descend (e # below)"
      by (rule stack_work_push [OF node]) (use f node True in \<open>auto simp: i_def\<close>)
    ultimately show ?thesis
      using rec [of True ?stack q] unfold True zs nok(3) c(2) by simp
  next
    case False
    then have "?zs = below_items below" by simp
    with rec [of False below q] stack_work_pop [of below] nok(4) unfold False
    show ?thesis by (simp add: loop_ok_def)
  qed
  with forward_splits_step [of ops dim keep p ?ys ?zs] rejected q items show ?thesis by auto
qed

lemma forward_loop_splits:
  "\<lbrakk>loop_ok ops (\<not> descend) stack; filter_sound ops keep\<rbrakk> \<Longrightarrow>
   \<exists>r. forward_loop dim keep descend stack p = Some r
     \<and> forward_splits ops dim keep p (loop_items (\<not> descend) stack) r"
proof (induction "stack_work descend stack" arbitrary: descend stack p rule: less_induct)
  case less
  show ?case
  proof (cases stack)
    case Nil
    then show ?thesis
      by (simp add: forward_loop.simps forward_splits_def loop_items_def stack_at_def)
  next
    case (Cons e below)
    show ?thesis
    proof (cases "se_tree e")
      case (Internal h s css cts)
      show ?thesis unfolding Cons
        by (rule forward_node [OF Internal]) (use less Cons in \<open>simp_all\<close>)
    next
      case (Leaf s ls ss)
      with less.prems(1) Cons have d: "descend" "below_ok ops below" "loop_ok ops False (e # below)"
        by (auto simp: loop_ok_def split: if_splits)
      have "\<exists>r. forward_loop dim keep False below q = Some r
          \<and> forward_splits ops dim keep q (below_items below) r" for q
        using less.hyps [of False below q] stack_work_pop [of below] Cons d(2) less.prems(2)
        by (simp add: loop_ok_def)
      with forward_leaf [OF Leaf d(3)] d(1) Cons show ?thesis by simp
    qed
  qed
qed

text \<open>Moving on from an item of a leaf is going on after it.\<close>

lemma forward_from_item:
  assumes "se_tree e = Leaf s ls ss" "se_index e < length ss"
  shows "forward_loop dim keep False (e # below) p =
    forward_loop dim keep True (e\<lparr>se_index := se_index e + 1,
      se_position := dm_add dim (se_position e) (ss ! se_index e)\<rparr> # below) (dm_add dim p (ss ! se_index e))"
  using assms by (subst (1 2) forward_loop.simps) (simp add: Let_def)

text \<open>The items a forward search starts from, and the position there: after the current item.\<close>

definition after_current :: "('t, 's, 'd) cursor \<Rightarrow> 't list \<Rightarrow> 't list" where
  "after_current cu xs = (if cu_did_seek cu then tl xs else xs)"

definition position_after :: "('t, 's, 'd) cursor \<Rightarrow> 't list \<Rightarrow> 'd \<Rightarrow> 'd" where
  "position_after cu xs p =
     (if cu_did_seek cu \<and> xs \<noteq> [] then dm_add dim p (so_summary ops (hd xs)) else p)"

lemma search_start:
  assumes at: "cursor_at ops dim cu xs p" and sound: "filter_sound ops keep"
  shows "\<exists>stack r. (if cu_stack cu = [] \<and> \<not> cu_at_end cu
      then push_entry (entry_at (cu_tree cu) 0 (dm_zero dim)) (cu_stack cu) else Some (cu_stack cu)) = Some stack
    \<and> forward_loop dim keep (cu_stack cu = [] \<and> \<not> cu_at_end cu) stack p = Some r
    \<and> forward_splits ops dim keep (position_after cu xs p) (after_current cu xs) r"
proof (cases "cu_did_seek cu")
  case False
  with at have fresh: "cu_stack cu = []" "xs = tree_items (cu_tree cu)" "tree_ok ops (cu_tree cu)"
      "height (cu_tree cu) < STACK_CAPACITY" "cu_at_end cu \<longleftrightarrow> tree_is_empty (cu_tree cu)"
    by (simp_all add: cursor_at_def)
  show ?thesis
  proof (cases "cu_at_end cu")
    case True
    with fresh have "xs = []" by (cases "cu_tree cu") (auto simp: tree_ok_def tree_new_def)
    with True fresh(1) False show ?thesis
      by (auto simp: forward_loop.simps forward_splits_def after_current_def position_after_def stack_at_def)
  next
    case False': False
    let ?stack = "[entry_at (cu_tree cu) 0 (dm_zero dim)]"
    have "loop_ok ops False ?stack" "loop_items False ?stack = xs"
      using fresh by (simp_all add: loop_ok_def loop_items_def entry_at_def below_items_def)
    with forward_loop_splits [of True ?stack keep p] sound False False' fresh(1) show ?thesis
      by (auto simp: push_entry_def STACK_CAPACITY_def after_current_def position_after_def)
  qed
next
  case True
  with at have s: "stack_at ops (cu_stack cu) xs" "cu_at_end cu \<longleftrightarrow> cu_stack cu = []"
    by (simp_all add: cursor_at_def)
  show ?thesis
  proof (cases "cu_stack cu")
    case Nil
    with s True show ?thesis
      by (auto simp: forward_loop.simps forward_splits_def after_current_def position_after_def stack_at_def)
  next
    case (Cons e below)
    with s obtain u ls where leaf: "se_tree e = Leaf u ls (map (so_summary ops) ls)"
        "node_ok ops (se_tree e)" "se_index e < length ls" "below_ok ops below"
        "length (e # below) \<le> STACK_CAPACITY" "xs = drop (se_index e) ls @ below_items below"
      by (cases "se_tree e") (auto simp: stack_at_def loop_items_def entry_items_def)
    let ?e = "e\<lparr>se_index := se_index e + 1,
      se_position := dm_add dim (se_position e) (so_summary ops (ls ! se_index e))\<rparr>"
    have xs: "xs = ls ! se_index e # drop (Suc (se_index e)) ls @ below_items below"
      using leaf(3,6) by (simp add: Cons_nth_drop_Suc [symmetric])
    have "loop_ok ops False (?e # below)" "loop_items False (?e # below) = tl xs"
      using leaf xs by (auto simp: loop_ok_def loop_items_def entry_items_def tree_ok_def)
    with forward_loop_splits [of True "?e # below" keep "dm_add dim p (so_summary ops (hd xs))"] sound xs
      forward_from_item [OF leaf(1), of keep below p] leaf(3) Cons s(2) True
    show ?thesis by (auto simp: after_current_def position_after_def)
  qed
qed

lemma search_forward_splits:
  assumes at: "cursor_at ops dim cu xs p" and sound: "filter_sound ops keep"
  shows "\<exists>cu' ys zs. search_forward dim keep cu = Some cu' \<and> after_current cu xs = ys @ zs
    \<and> (\<forall>y \<in> set ys. \<not> keep (so_summary ops y)) \<and> (zs \<noteq> [] \<longrightarrow> keep (so_summary ops (hd zs)))
    \<and> cursor_at ops dim cu' zs (last_end (position_after cu xs p) (item_ends ops dim (position_after cu xs p) ys))
    \<and> cu_did_seek cu' \<and> cu_tree cu' = cu_tree cu"
proof -
  from search_start [OF assms] obtain stack stack' q found where
    run: "(if cu_stack cu = [] \<and> \<not> cu_at_end cu
      then push_entry (entry_at (cu_tree cu) 0 (dm_zero dim)) (cu_stack cu) else Some (cu_stack cu)) = Some stack"
      "forward_loop dim keep (cu_stack cu = [] \<and> \<not> cu_at_end cu) stack p = Some (stack', q, found)"
      and "forward_splits ops dim keep (position_after cu xs p) (after_current cu xs) (stack', q, found)"
    by (metis prod_cases3)
  then obtain ys zs where split: "after_current cu xs = ys @ zs" "\<forall>y \<in> set ys. \<not> keep (so_summary ops y)"
      "zs \<noteq> [] \<longrightarrow> keep (so_summary ops (hd zs))"
      "q = last_end (position_after cu xs p) (item_ends ops dim (position_after cu xs p) ys)"
      "stack_at ops stack' zs" "found \<longleftrightarrow> zs \<noteq> []"
    by (auto simp: forward_splits_def)
  define cu' where "cu' = cu\<lparr>cu_did_seek := cu_did_seek cu \<or> cu_stack cu = [], cu_stack := stack',
    cu_position := q, cu_at_end := (if found then cu_at_end cu else stack' = [])\<rparr>"
  have "search_forward dim keep cu = Some cu'"
    using run at by (simp add: search_forward_def cursor_at_def cu'_def)
  moreover have seek: "cu_did_seek cu'" using at by (auto simp: cu'_def cursor_at_def)
  moreover have "cu_at_end cu' \<longleftrightarrow> stack' = []"
    using at split(1,5,6)
    by (cases stack') (auto simp: cu'_def cursor_at_def after_current_def stack_at_def tree_is_empty_items
        split: if_splits)
  with at seek split(4,5) have "cursor_at ops dim cu' zs q" by (simp add: cursor_at_def) (simp add: cu'_def)
  moreover have "cu_tree cu' = cu_tree cu" by (simp add: cu'_def)
  ultimately show ?thesis using split(1-4) by blast
qed

text \<open>\<open>next\<close> moves past the current item, or to the first one.\<close>

lemma cursor_next_at:
  assumes "cursor_at ops dim cu xs p"
  shows "\<exists>cu'. cursor_next dim cu = Some cu' \<and> cursor_at ops dim cu' (after_current cu xs) (position_after cu xs p)
    \<and> cu_did_seek cu' \<and> cu_tree cu' = cu_tree cu"
proof -
  from search_forward_splits [OF assms filter_sound_all] obtain cu' ys zs where
    "search_forward dim (\<lambda>_. True) cu = Some cu'" "after_current cu xs = ys @ zs" "\<forall>y \<in> set ys. False"
    "cursor_at ops dim cu' zs (last_end (position_after cu xs p) (item_ends ops dim (position_after cu xs p) ys))"
    "cu_did_seek cu'" "cu_tree cu' = cu_tree cu"
    by auto
  then show ?thesis by (cases ys) (auto simp: cursor_next_def)
qed

text \<open>\<open>slice\<close> returns the items before the target as a tree, \<open>suffix\<close> all that are left, and \<open>seek\<close>
  starts again from the first item.\<close>

lemma cursor_slice_splits:
  assumes "cursor_at ops dim cu xs p" "target p \<noteq> Less"
    and "ordered_ends (target_in target b) (item_ends ops dim p xs)"
  shows "\<exists>t cu' ys zs. cursor_slice ops dim target b cu = Some (t, cu')
    \<and> seek_splits ops dim (target_in target b) xs p ys zs \<and> tree_ok ops t \<and> tree_items t = ys
    \<and> cursor_at ops dim cu' zs (last_end p (item_ends ops dim p ys)) \<and> cu_did_seek cu'
    \<and> cu_tree cu' = cu_tree cu"
proof -
  have "slice_collected ops (slice_new ops) []"
    by (simp add: slice_collected_def slice_new_def tree_ok_def tree_new_def)
  from slice.seek_internal_splits [OF assms this] obtain found cu' a' ys zs where
    "seek_internal (slice_ops ops) dim target b cu (slice_new ops) = Some (found, cu', a')"
    "seek_splits ops dim (target_in target b) xs p ys zs"
    "cursor_at ops dim cu' zs (last_end p (item_ends ops dim p ys))" "cu_did_seek cu'"
    "cu_tree cu' = cu_tree cu" "slice_collected ops a' ys"
    by auto
  then show ?thesis by (auto simp: cursor_slice_def slice_collected_def)
qed

lemma cursor_suffix_all:
  assumes "cursor_at ops dim cu xs p"
  shows "\<exists>t cu'. cursor_suffix ops dim cu = Some (t, cu') \<and> tree_ok ops t \<and> tree_items t = xs"
proof -
  have never: "target_in end_target BiasRight = (\<lambda>_. False)" by (auto simp: target_in_def end_target_def)
  have "ordered_ends (target_in end_target BiasRight) (item_ends ops dim p xs)"
    by (simp add: never ordered_ends_def sorted_wrt_iff_nth_less)
  from cursor_slice_splits [OF assms _ this] obtain t cu' ys zs where
    "cursor_slice ops dim end_target BiasRight cu = Some (t, cu')"
    "seek_splits ops dim (\<lambda>_. False) xs p ys zs" "tree_ok ops t" "tree_items t = ys"
    by (auto simp: end_target_def never)
  then show ?thesis by (auto simp: cursor_suffix_def seek_splits_def)
qed

lemma cursor_seek_splits:
  assumes "cursor_at ops dim cu xs p" "target (dm_zero dim) \<noteq> Less"
    and "ordered_ends (target_in target b) (item_ends ops dim (dm_zero dim) (tree_items (cu_tree cu)))"
  shows "\<exists>found cu' ys zs. cursor_seek dim target b cu = Some (found, cu')
    \<and> seek_splits ops dim (target_in target b) (tree_items (cu_tree cu)) (dm_zero dim) ys zs
    \<and> cursor_at ops dim cu' zs (last_end (dm_zero dim) (item_ends ops dim (dm_zero dim) ys))
    \<and> cu_did_seek cu' \<and> cu_tree cu' = cu_tree cu"
proof -
  have tree: "cu_tree (cursor_reset dim cu) = cu_tree cu" by (simp add: cursor_reset_def)
  from skip.seek_internal_splits [OF cursor_at_reset [OF assms(1)] assms(2,3) TrueI, of "()"]
  show ?thesis unfolding tree by (auto simp: cursor_seek_def cursor_seek_forward_def)
qed

end

end
