(* ===== verification/TreeEdit.thy ===== *)
theory TreeEdit
  imports TreeCursor "HOL-Library.Multiset"
begin

text \<open>
  Sum trees of keyed items (\<open>KeyedItem\<close> in \<open>sum_tree.rs\<close>): insertion, removal, lookup and the batch
  \<open>edit\<close>, by cutting the tree with a cursor and appending the pieces. The items are kept in the
  order of their keys, and the operations refine the corresponding operations on sorted lists.
\<close>

section \<open>Operations\<close>

datatype ('t, 'k) tree_edit = Insert 't | Remove 'k

definition edit_key :: "('t \<Rightarrow> 'k) \<Rightarrow> ('t, 'k) tree_edit \<Rightarrow> 'k" where
  "edit_key key e = (case e of Insert item \<Rightarrow> key item | Remove k \<Rightarrow> k)"

definition insert_or_replace ::
  "('t, 's) summary_ops \<Rightarrow> ('s, 'k::linorder) dimension_ops \<Rightarrow> ('t \<Rightarrow> 'k) \<Rightarrow> 't \<Rightarrow> ('t, 's) sum_tree
   \<Rightarrow> ('t option \<times> ('t, 's) sum_tree) option" where
  "insert_or_replace ops dim key item self = do {
     (new_tree, cu) \<leftarrow> cursor_slice ops dim (cmp (key item)) BiasLeft (cursor_new dim self);
     cursor_item \<leftarrow> cursor_item cu;
     (replaced, cu) \<leftarrow> (case cursor_item of
        Some old \<Rightarrow> if key old = key item then map_option (Pair (Some old)) (cursor_next dim cu)
          else Some (None, cu)
      | None \<Rightarrow> Some (None, cu));
     new_tree \<leftarrow> push_item ops new_tree item;
     (suffix, _) \<leftarrow> cursor_suffix ops dim cu;
     new_tree \<leftarrow> append_tree ops new_tree suffix;
     Some (replaced, new_tree)
   }"

definition remove ::
  "('t, 's) summary_ops \<Rightarrow> ('s, 'k::linorder) dimension_ops \<Rightarrow> ('t \<Rightarrow> 'k) \<Rightarrow> 'k \<Rightarrow> ('t, 's) sum_tree
   \<Rightarrow> ('t option \<times> ('t, 's) sum_tree) option" where
  "remove ops dim key k self = do {
     (new_tree, cu) \<leftarrow> cursor_slice ops dim (cmp k) BiasLeft (cursor_new dim self);
     cursor_item \<leftarrow> cursor_item cu;
     (removed, cu) \<leftarrow> (case cursor_item of
        Some old \<Rightarrow> if key old = k then map_option (Pair (Some old)) (cursor_next dim cu)
          else Some (None, cu)
      | None \<Rightarrow> Some (None, cu));
     (suffix, _) \<leftarrow> cursor_suffix ops dim cu;
     new_tree \<leftarrow> append_tree ops new_tree suffix;
     Some (removed, new_tree)
   }"

text \<open>\<open>get\<close> looks the key up exactly.\<close>

definition tree_get ::
  "('s, 'k::linorder) dimension_ops \<Rightarrow> 'k \<Rightarrow> ('t, 's) sum_tree \<Rightarrow> 't option" where
  "tree_get dim k self = snd (snd (tree_find_exact dim (cmp k) BiasLeft self))"

text \<open>The variables of the loop of \<open>edit\<close>.\<close>

record ('t, 's, 'k) edit_state =
  es_cursor :: "('t, 's, 'k) cursor"
  es_new_tree :: "('t, 's) sum_tree"
  es_buffered :: "'t list"
  es_removed :: "'t list"

text \<open>The first half of the body: up to the key, when the current item is before it.\<close>

definition advance_to ::
  "('t, 's) summary_ops \<Rightarrow> ('s, 'k::linorder) dimension_ops \<Rightarrow> ('t \<Rightarrow> 'k) \<Rightarrow> 'k \<Rightarrow> ('t, 's, 'k) edit_state
   \<Rightarrow> ('t option \<times> ('t, 's, 'k) edit_state) option" where
  "advance_to ops dim key new_key st = do {
     old_item \<leftarrow> cursor_item (es_cursor st);
     (if (case old_item of Some old \<Rightarrow> key old < new_key | None \<Rightarrow> False) then do {
        new_tree \<leftarrow> extend_tree ops (es_new_tree st) (es_buffered st);
        (slice, cu) \<leftarrow> cursor_slice ops dim (cmp new_key) BiasLeft (es_cursor st);
        new_tree \<leftarrow> append_tree ops new_tree slice;
        old_item \<leftarrow> cursor_item cu;
        Some (old_item, st\<lparr>es_cursor := cu, es_new_tree := new_tree, es_buffered := []\<rparr>)
      }
      else Some (old_item, st))
   }"

definition edit_step ::
  "('t, 's) summary_ops \<Rightarrow> ('s, 'k::linorder) dimension_ops \<Rightarrow> ('t \<Rightarrow> 'k) \<Rightarrow> ('t, 'k) tree_edit
   \<Rightarrow> ('t, 's, 'k) edit_state \<Rightarrow> ('t, 's, 'k) edit_state option" where
  "edit_step ops dim key e st = do {
     (old_item, st) \<leftarrow> advance_to ops dim key (edit_key key e) st;
     st \<leftarrow> (case old_item of
        Some old \<Rightarrow>
          if key old = edit_key key e then do {
            cu \<leftarrow> cursor_next dim (es_cursor st);
            Some (st\<lparr>es_cursor := cu, es_removed := es_removed st @ [old]\<rparr>)
          }
          else Some st
      | None \<Rightarrow> Some st);
     Some (case e of Insert item \<Rightarrow> st\<lparr>es_buffered := es_buffered st @ [item]\<rparr> | Remove _ \<Rightarrow> st)
   }"

fun edit_loop ::
  "('t, 's) summary_ops \<Rightarrow> ('s, 'k::linorder) dimension_ops \<Rightarrow> ('t \<Rightarrow> 'k) \<Rightarrow> ('t, 'k) tree_edit list
   \<Rightarrow> ('t, 's, 'k) edit_state \<Rightarrow> ('t, 's, 'k) edit_state option" where
  "edit_loop ops dim key [] st = Some st"
| "edit_loop ops dim key (e # es) st = do {
     st \<leftarrow> edit_step ops dim key e st;
     edit_loop ops dim key es st
   }"

text \<open>\<open>sort_unstable_by_key\<close> leaves the order of equal keys open; the model keeps their order.\<close>

definition edit_tree ::
  "('t, 's) summary_ops \<Rightarrow> ('s, 'k::linorder) dimension_ops \<Rightarrow> ('t \<Rightarrow> 'k) \<Rightarrow> ('t, 'k) tree_edit list
   \<Rightarrow> ('t, 's) sum_tree \<Rightarrow> ('t list \<times> ('t, 's) sum_tree) option" where
  "edit_tree ops dim key edits self =
     (if edits = [] then Some ([], self)
      else do {
        (_, cu) \<leftarrow> cursor_seek dim (cmp (dm_zero dim)) BiasLeft (cursor_new dim self);
        st \<leftarrow> edit_loop ops dim key (sort_key (edit_key key) edits)
          \<lparr>es_cursor = cu, es_new_tree = tree_new ops, es_buffered = [], es_removed = []\<rparr>;
        new_tree \<leftarrow> extend_tree ops (es_new_tree st) (es_buffered st);
        (suffix, _) \<leftarrow> cursor_suffix ops dim (es_cursor st);
        new_tree \<leftarrow> append_tree ops new_tree suffix;
        Some (es_removed st, new_tree)
      })"

section \<open>Sorted lists\<close>

text \<open>The reference: sorted lists of items with distinct keys.\<close>

definition key_sorted :: "('t \<Rightarrow> 'k::linorder) \<Rightarrow> 't list \<Rightarrow> bool" where
  "key_sorted key xs \<longleftrightarrow> sorted_wrt (<) (map key xs)"

definition list_insert :: "('t \<Rightarrow> 'k::linorder) \<Rightarrow> 't \<Rightarrow> 't list \<Rightarrow> 't list" where
  "list_insert key item xs =
     filter (\<lambda>x. key x < key item) xs @ item # filter (\<lambda>x. key item < key x) xs"

definition list_remove :: "('t \<Rightarrow> 'k::linorder) \<Rightarrow> 'k \<Rightarrow> 't list \<Rightarrow> 't list" where
  "list_remove key k xs = filter (\<lambda>x. key x \<noteq> k) xs"

definition list_edit :: "('t \<Rightarrow> 'k::linorder) \<Rightarrow> ('t, 'k) tree_edit \<Rightarrow> 't list \<Rightarrow> 't list" where
  "list_edit key e xs = (case e of Insert item \<Rightarrow> list_insert key item xs | Remove k \<Rightarrow> list_remove key k xs)"

definition list_get :: "('t \<Rightarrow> 'k::linorder) \<Rightarrow> 'k \<Rightarrow> 't list \<Rightarrow> 't option" where
  "list_get key k xs = find (\<lambda>x. key x = k) xs"

lemma key_sorted_append:
  "key_sorted key (xs @ ys) \<longleftrightarrow>
     key_sorted key xs \<and> key_sorted key ys \<and> (\<forall>x \<in> set xs. \<forall>y \<in> set ys. key x < key y)"
  by (auto simp: key_sorted_def sorted_wrt_append)

lemma key_sorted_Cons:
  "key_sorted key (x # xs) \<longleftrightarrow> (\<forall>y \<in> set xs. key x < key y) \<and> key_sorted key xs"
  by (simp add: key_sorted_def)

lemma key_sorted_Nil [simp]: "key_sorted key []"
  by (simp add: key_sorted_def)

lemma key_sorted_filter: "key_sorted key xs \<Longrightarrow> key_sorted key (filter P xs)"
  by (induction xs) (auto simp: key_sorted_Cons)

lemma key_sorted_insert: "key_sorted key xs \<Longrightarrow> key_sorted key (list_insert key item xs)"
  by (auto simp: list_insert_def key_sorted_append key_sorted_Cons key_sorted_filter)

lemma key_sorted_edit: "key_sorted key xs \<Longrightarrow> key_sorted key (list_edit key e xs)"
  by (auto simp: list_edit_def list_remove_def key_sorted_insert key_sorted_filter split: tree_edit.splits)

lemma key_sorted_split:
  assumes "key_sorted key (ys @ zs)" and "\<forall>y \<in> set ys. key y < k" and "zs \<noteq> [] \<longrightarrow> k \<le> key (hd zs)"
  shows "ys = filter (\<lambda>x. key x < k) (ys @ zs)" and "zs = filter (\<lambda>x. k \<le> key x) (ys @ zs)"
proof -
  have "\<forall>z \<in> set zs. k \<le> key z"
    using assms(1,3) by (cases zs) (auto simp: key_sorted_append key_sorted_Cons)
  with assms(2) show "ys = filter (\<lambda>x. key x < k) (ys @ zs)" "zs = filter (\<lambda>x. k \<le> key x) (ys @ zs)"
    by (auto simp: filter_id_conv filter_empty_conv)
qed

text \<open>The items from a key on are the item with this key, if any, and the items after it.\<close>

lemma filter_ge_cases:
  assumes "key_sorted key xs"
  shows "filter (\<lambda>x. k \<le> key x) xs =
    (case list_get key k xs of None \<Rightarrow> [] | Some x \<Rightarrow> [x]) @ filter (\<lambda>x. k < key x) xs"
  using assms
proof (induction xs)
  case (Cons x xs)
  consider "key x < k" | "key x = k" | "k < key x" by force
  then show ?case
  proof cases
    case 2
    with Cons.prems have "\<forall>y \<in> set xs. k < key y" by (simp add: key_sorted_Cons)
    with 2 show ?thesis by (auto simp: list_get_def filter_id_conv intro!: filter_cong)
  next
    case 3
    with Cons.prems have "\<forall>y \<in> set xs. k < key y" by (auto simp: key_sorted_Cons)
    with 3 have "filter (\<lambda>x. k \<le> key x) xs = xs" "filter (\<lambda>x. k < key x) xs = xs" "list_get key k xs = None"
      by (auto simp: filter_id_conv list_get_def find_None_iff)
    with 3 show ?thesis by (auto simp: list_get_def)
  qed (use Cons in \<open>auto simp: key_sorted_Cons list_get_def\<close>)
qed (simp add: list_get_def)

lemma filter_around:
  "key_sorted key xs \<Longrightarrow>
   filter (\<lambda>x. key x < k) xs @ filter (\<lambda>x. k < key x) xs = filter (\<lambda>x. key x \<noteq> k) xs"
proof (induction xs)
  case (Cons x xs)
  show ?case
  proof (cases "key x < k")
    case False
    with Cons.prems have "\<forall>y \<in> set xs. k < key y" by (auto simp: key_sorted_Cons)
    then have "filter (\<lambda>x. key x < k) xs = []" "filter (\<lambda>x. key x \<noteq> k) xs = xs"
        "filter (\<lambda>x. k < key x) xs = xs"
      by (auto simp: filter_empty_conv filter_id_conv)
    with False show ?thesis by auto
  qed (use Cons in \<open>auto simp: key_sorted_Cons\<close>)
qed simp

lemma list_get_key: "list_get key k xs = Some x \<Longrightarrow> key x = k \<and> x \<in> set xs"
  by (auto simp: list_get_def find_Some_iff)

lemma find_filter: "find P (filter Q xs) = find (\<lambda>x. Q x \<and> P x) xs"
  by (induction xs) auto

lemma list_get_remove: "list_get key k (list_remove key j xs) = (if k = j then None else list_get key k xs)"
  by (auto simp: list_get_def list_remove_def find_filter find_None_iff intro: arg_cong2 [where f = find])

lemma list_get_append:
  "list_get key k (xs @ ys) = (case list_get key k xs of None \<Rightarrow> list_get key k ys | Some x \<Rightarrow> Some x)"
  by (induction xs) (simp_all add: list_get_def)

lemma list_get_Cons: "list_get key k (x # xs) = (if key x = k then Some x else list_get key k xs)"
  by (simp add: list_get_def)

lemma list_get_insert:
  assumes "key_sorted key xs"
  shows "list_get key k (list_insert key item xs) = (if k = key item then Some item else list_get key k xs)"
proof -
  have "list_get key (key item) (filter (\<lambda>x. key x < key item) xs) = None"
    by (auto simp: list_get_def find_None_iff)
  moreover have "list_get key k (filter (\<lambda>x. key x < key item) xs @ filter (\<lambda>x. key item < key x) xs) =
      list_get key k xs" if "k \<noteq> key item"
    using list_get_remove [of key k "key item" xs] that
    by (simp add: filter_around [OF assms] list_remove_def)
  ultimately show ?thesis
    by (auto simp: list_insert_def list_get_append list_get_Cons cong: option.case_cong)
qed

text \<open>Edits of different keys commute, so a batch does not depend on its order.\<close>

lemma list_edit_commute_less:
  assumes less: "edit_key key e < edit_key key f"
  shows "list_edit key e (list_edit key f xs) = list_edit key f (list_edit key e xs)"
proof -
  let ?a = "edit_key key e" and ?b = "edit_key key f"
  have below: "(key x < ?b \<and> key x < ?a) = (key x < ?a)" "(key x < ?a \<and> key x < ?b) = (key x < ?a)"
      "(key x \<noteq> ?b \<and> key x < ?a) = (key x < ?a)" "(key x < ?a \<and> key x \<noteq> ?b) = (key x < ?a)" for x
    using less by auto
  have above: "(?b < key x \<and> ?a < key x) = (?b < key x)" "(?a < key x \<and> ?b < key x) = (?b < key x)"
      "(key x \<noteq> ?a \<and> ?b < key x) = (?b < key x)" "(?b < key x \<and> key x \<noteq> ?a) = (?b < key x)" for x
    using less by auto
  have none: "(key x < ?a \<and> ?b < key x) = False" "(?b < key x \<and> key x < ?a) = False" for x
    using less by auto
  have swap: "filter (\<lambda>x. ?a < key x \<and> key x < ?b) xs = filter (\<lambda>x. key x < ?b \<and> ?a < key x) xs"
      "filter (\<lambda>x. ?a < key x \<and> key x \<noteq> ?b) xs = filter (\<lambda>x. key x \<noteq> ?b \<and> ?a < key x) xs"
      "filter (\<lambda>x. key x \<noteq> ?a \<and> key x < ?b) xs = filter (\<lambda>x. key x < ?b \<and> key x \<noteq> ?a) xs"
      "filter (\<lambda>x. key x \<noteq> ?a \<and> key x \<noteq> ?b) xs = filter (\<lambda>x. key x \<noteq> ?b \<and> key x \<noteq> ?a) xs"
    by (simp_all add: conj_commute)
  show ?thesis using less below above none swap
    by (cases e; cases f) (auto simp: list_edit_def list_insert_def list_remove_def edit_key_def)
qed

lemma list_edit_commute:
  "edit_key key e \<noteq> edit_key key f \<Longrightarrow>
   list_edit key e (list_edit key f xs) = list_edit key f (list_edit key e xs)"
  by (metis list_edit_commute_less neq_iff)

lemma fold_list_edit_mset:
  assumes keys: "distinct (map (edit_key key) es)" and mset: "mset es = mset fs"
  shows "fold (list_edit key) es xs = fold (list_edit key) fs xs"
proof -
  have "fold (list_edit key) es = fold (list_edit key) fs"
  proof (rule fold_multiset_equiv [OF _ mset])
    fix e f assume "e \<in> set es" "f \<in> set es"
    with keys have "e = f \<or> edit_key key e \<noteq> edit_key key f" by (auto simp: distinct_map inj_on_def)
    then show "list_edit key e \<circ> list_edit key f = list_edit key f \<circ> list_edit key e"
      by (auto simp: fun_eq_iff list_edit_commute)
  qed
  then show ?thesis by simp
qed

lemma fold_list_edit_sort:
  "distinct (map (edit_key key) edits) \<Longrightarrow>
   fold (list_edit key) (sort_key (edit_key key) edits) xs = fold (list_edit key) edits xs"
  by (rule fold_list_edit_mset [symmetric]) simp_all

text \<open>The items a batch replaces or removes, in the order of their keys.\<close>

fun edit_removed :: "('t \<Rightarrow> 'k::linorder) \<Rightarrow> ('t, 'k) tree_edit list \<Rightarrow> 't list \<Rightarrow> 't list" where
  "edit_removed key [] xs = []"
| "edit_removed key (e # es) xs =
     (case list_get key (edit_key key e) xs of None \<Rightarrow> [] | Some x \<Rightarrow> [x])
     @ edit_removed key es (list_edit key e xs)"

text \<open>The interface of keys: among sorted items the end of an item is its key.\<close>

locale keyed_laws = dimension_laws ops dim
  for ops :: "('t, 's) summary_ops" and dim :: "('s, 'k::linorder) dimension_ops" +
  fixes key :: "'t \<Rightarrow> 'k"
  assumes end_key: "p \<le> key x \<Longrightarrow> dm_add dim p (so_summary ops x) = key x"
    and zero_least: "dm_zero dim \<le> k"
begin

lemma target_cmp: "target_in (cmp k) BiasLeft = (\<le>) k"
  by (rule ext) (auto simp: target_in_def cmp_def)

lemma item_ends_keys:
  "\<lbrakk>key_sorted key xs; \<forall>x \<in> set xs. p \<le> key x\<rbrakk> \<Longrightarrow> item_ends ops dim p xs = map key xs"
  by (induction xs arbitrary: p) (simp_all add: Let_def end_key key_sorted_Cons less_imp_le)

lemma ordered_keys:
  assumes "key_sorted key xs"
  shows "ordered_ends (\<lambda>e. k \<le> e) (map key xs)" "ordered_ends (\<lambda>e. cmp k e = Less) (map key xs)"
  using assms by (auto simp: ordered_ends_def key_sorted_def cmp_def elim!: sorted_wrt_mono_rel [rotated]
      split: if_splits)

text \<open>A cursor among sorted items, at or before the first of them.\<close>

definition keyed_at :: "('t, 's, 'k) cursor \<Rightarrow> 't list \<Rightarrow> 'k \<Rightarrow> bool" where
  "keyed_at cu xs p \<longleftrightarrow>
     cursor_at ops dim cu xs p \<and> key_sorted key xs \<and> (\<forall>x \<in> set xs. p \<le> key x)"

lemma keyed_at_new:
  "\<lbrakk>tree_ok ops t; height t < STACK_CAPACITY; key_sorted key (tree_items t)\<rbrakk> \<Longrightarrow>
     keyed_at (cursor_new dim t) (tree_items t) (dm_zero dim)"
  by (simp add: keyed_at_def cursor_at_new zero_least)

lemma keyed_splits:
  assumes at: "key_sorted key xs" "\<forall>x \<in> set xs. p \<le> key x" and k: "p \<le> k"
    and s: "seek_splits ops dim (\<lambda>e. k \<le> e) xs p ys zs" "cursor_at ops dim cu zs (last_end p (item_ends ops dim p ys))"
  shows "ys = filter (\<lambda>x. key x < k) xs \<and> zs = filter (\<lambda>x. k \<le> key x) xs
    \<and> (\<exists>q. keyed_at cu zs q \<and> q \<le> k \<and> (p < k \<longrightarrow> q < k) \<and> q \<in> insert p (key ` set ys))"
proof -
  from s(1) have xs: "xs = ys @ zs" by (simp add: seek_splits_def)
  let ?q = "last_end p (map key ys)"
  have ys_ends: "item_ends ops dim p ys = map key ys"
    using at xs by (intro item_ends_keys) (auto simp: key_sorted_append)
  with s(1) have ys: "\<forall>y \<in> set ys. key y < k" by (auto simp: seek_splits_def)
  then have q: "?q \<le> k" "?q \<in> insert p (key ` set ys)" "p < k \<longrightarrow> ?q < k"
    using k by (auto simp: last_end_def last_map less_imp_le)
  then have q_le: "\<forall>z \<in> set zs. ?q \<le> key z" using at xs by (auto simp: key_sorted_append less_imp_le)
  with s(1) ys_ends have "zs \<noteq> [] \<longrightarrow> k \<le> key (hd zs)" by (cases zs) (auto simp: seek_splits_def end_key)
  note split = key_sorted_split [OF at(1) [unfolded xs] ys this]
  have "keyed_at cu zs ?q"
    using s(2) ys_ends q_le at(1) xs by (simp add: keyed_at_def key_sorted_append)
  with q split xs show ?thesis by metis
qed

lemma keyed_ordered:
  "\<lbrakk>key_sorted key xs; \<forall>x \<in> set xs. p \<le> key x\<rbrakk> \<Longrightarrow>
   ordered_ends (target_in (cmp k) BiasLeft) (item_ends ops dim p xs)"
  by (simp add: item_ends_keys target_cmp ordered_keys(1))

lemma keyed_slice:
  assumes at: "keyed_at cu xs p" and k: "p \<le> k"
  shows "\<exists>t cu' q. cursor_slice ops dim (cmp k) BiasLeft cu = Some (t, cu') \<and> tree_ok ops t
    \<and> tree_items t = filter (\<lambda>x. key x < k) xs \<and> keyed_at cu' (filter (\<lambda>x. k \<le> key x) xs) q
    \<and> cu_did_seek cu' \<and> q \<le> k \<and> (p < k \<longrightarrow> q < k) \<and> cu_tree cu' = cu_tree cu"
proof -
  from at have c: "cursor_at ops dim cu xs p" and sorted: "key_sorted key xs" "\<forall>x \<in> set xs. p \<le> key x"
    by (simp_all add: keyed_at_def)
  from k have "cmp k p \<noteq> Less" by (auto simp: cmp_def)
  from cursor_slice_splits [OF c this keyed_ordered [OF sorted]] obtain t cu' ys zs where
    s: "cursor_slice ops dim (cmp k) BiasLeft cu = Some (t, cu')"
      "seek_splits ops dim (\<lambda>e. k \<le> e) xs p ys zs" "tree_ok ops t" "tree_items t = ys"
      "cursor_at ops dim cu' zs (last_end p (item_ends ops dim p ys))" "cu_did_seek cu'"
      "cu_tree cu' = cu_tree cu"
    by (auto simp: target_cmp)
  from keyed_splits [OF sorted k s(2,5)] s(1,3,4,6,7) show ?thesis by auto
qed

lemma keyed_seek_forward:
  assumes at: "keyed_at cu xs p" and k: "p \<le> k"
  shows "\<exists>found cu' q. cursor_seek_forward dim (cmp k) BiasLeft cu = Some (found, cu')
    \<and> keyed_at cu' (filter (\<lambda>x. k \<le> key x) xs) q \<and> cu_did_seek cu'
    \<and> q \<in> insert p (key ` set (filter (\<lambda>x. key x < k) xs))"
proof -
  from at have c: "cursor_at ops dim cu xs p" and sorted: "key_sorted key xs" "\<forall>x \<in> set xs. p \<le> key x"
    by (simp_all add: keyed_at_def)
  from k have "cmp k p \<noteq> Less" by (auto simp: cmp_def)
  from skip.seek_internal_splits [OF c this keyed_ordered [OF sorted] TrueI, of "()"] obtain found cu' a ys zs where
    s: "seek_internal unit_aggregate dim (cmp k) BiasLeft cu () = Some (found, cu', a)"
      "seek_splits ops dim (\<lambda>e. k \<le> e) xs p ys zs"
      "cursor_at ops dim cu' zs (last_end p (item_ends ops dim p ys))" "cu_did_seek cu'"
    by (auto simp: target_cmp)
  from keyed_splits [OF sorted k s(2,3)] s(1,4) show ?thesis by (auto simp: cursor_seek_forward_def)
qed

lemma keyed_next:
  assumes "keyed_at cu (x # xs) p" "cu_did_seek cu"
  shows "\<exists>cu'. cursor_next dim cu = Some cu' \<and> keyed_at cu' xs (key x) \<and> cu_did_seek cu'
    \<and> cu_tree cu' = cu_tree cu"
  using assms cursor_next_at [of cu "x # xs" p]
  by (auto simp: keyed_at_def key_sorted_Cons after_current_def position_after_def end_key less_imp_le)

lemma keyed_suffix:
  "keyed_at cu xs p \<Longrightarrow> \<exists>t cu'. cursor_suffix ops dim cu = Some (t, cu') \<and> tree_ok ops t \<and> tree_items t = xs"
  unfolding keyed_at_def using cursor_suffix_all by blast

text \<open>Stepping over the item with the key, the middle part of each operation.\<close>

lemma keyed_skip:
  assumes at: "keyed_at cu (filter (\<lambda>x. k \<le> key x) xs) q" "cu_did_seek cu"
    and sorted: "key_sorted key xs" and q: "q \<le> k"
  shows "\<exists>cu' q'. Option.bind (cursor_item cu) (\<lambda>old. case old of
        Some old \<Rightarrow> if key old = k then map_option (Pair (Some old)) (cursor_next dim cu) else Some (None, cu)
      | None \<Rightarrow> Some (None, cu)) = Some (list_get key k xs, cu')
    \<and> keyed_at cu' (filter (\<lambda>x. k < key x) xs) q' \<and> cu_did_seek cu' \<and> q' \<le> k"
proof -
  note ge = filter_ge_cases [OF sorted, of k]
  from at have "cursor_at ops dim cu (filter (\<lambda>x. k \<le> key x) xs) q" by (simp add: keyed_at_def)
  note item = cursor_item_at(1) [OF this at(2)]
  show ?thesis
  proof (cases "list_get key k xs")
    case None
    with ge have "filter (\<lambda>x. k \<le> key x) xs = filter (\<lambda>x. k < key x) xs" by simp
    note eq = this
    show ?thesis
    proof (cases "filter (\<lambda>x. k < key x) xs")
      case Nil
      with at item q None eq show ?thesis by auto
    next
      case (Cons y ys)
      then have "y \<in> set (filter (\<lambda>x. k < key x) xs)" by (simp only: list.set_intros)
      then have "key y \<noteq> k" by auto
      with at item q None eq Cons show ?thesis by auto
    qed
  next
    case (Some x)
    with list_get_key have x: "key x = k" by metis
    from Some ge have "filter (\<lambda>x. k \<le> key x) xs = x # filter (\<lambda>x. k < key x) xs" by simp
    with keyed_next [of cu x _ q] at item x Some show ?thesis by auto
  qed
qed

text \<open>The item with the key, found by comparing the key with the end of the current item.\<close>

lemma keyed_found:
  assumes at: "keyed_at cu (filter (\<lambda>x. k \<le> key x) xs) q" "cu_did_seek cu"
    and sorted: "key_sorted key xs" and q: "q < k"
  shows "\<exists>e. cursor_end dim cu = Some e \<and> (case list_get key k xs of
      None \<Rightarrow> cmp k e \<noteq> Equal \<and> keyed_at cu (filter (\<lambda>x. k < key x) xs) q
    | Some x \<Rightarrow> cmp k e = Equal \<and> cursor_item cu = Some (Some x)
        \<and> (\<exists>cu'. cursor_next dim cu = Some cu' \<and> keyed_at cu' (filter (\<lambda>x. k < key x) xs) k))"
proof -
  note ge = filter_ge_cases [OF sorted, of k]
  from at have c: "cursor_at ops dim cu (filter (\<lambda>x. k \<le> key x) xs) q" by (simp add: keyed_at_def)
  note item = cursor_item_at [OF c at(2)]
  from c have pos: "cu_position cu = q" by (simp add: cursor_at_def)
  show ?thesis
  proof (cases "list_get key k xs")
    case None
    with ge have eq: "filter (\<lambda>x. k \<le> key x) xs = filter (\<lambda>x. k < key x) xs" by simp
    show ?thesis
    proof (cases "filter (\<lambda>x. k < key x) xs")
      case Nil
      with at item q None eq pos show ?thesis by (auto simp: cursor_end_def cmp_def)
    next
      case (Cons y ys)
      then have "y \<in> set (filter (\<lambda>x. k < key x) xs)" by (simp only: list.set_intros)
      then have "k < key y" by auto
      moreover from this q have "dm_add dim q (so_summary ops y) = key y" by (simp add: end_key)
      ultimately show ?thesis using at item q None eq pos Cons by (auto simp: cursor_end_def cmp_def)
    qed
  next
    case (Some x)
    with list_get_key have x: "key x = k" by metis
    with q have e: "dm_add dim q (so_summary ops x) = k" by (simp add: end_key less_imp_le)
    from Some ge have "filter (\<lambda>x. k \<le> key x) xs = x # filter (\<lambda>x. k < key x) xs" by simp
    with keyed_next [of cu x _ q] at item x e Some pos show ?thesis by (auto simp: cursor_end_def cmp_def)
  qed
qed

lemma insert_or_replace_refines:
  assumes t: "tree_ok ops t" "height t < STACK_CAPACITY" and sorted: "key_sorted key (tree_items t)"
  shows "\<exists>u. insert_or_replace ops dim key item t = Some (list_get key (key item) (tree_items t), u)
    \<and> tree_ok ops u \<and> tree_items u = list_insert key item (tree_items t)"
proof -
  let ?k = "key item" and ?xs = "tree_items t"
  from keyed_slice [OF keyed_at_new [OF t sorted] zero_least, of ?k] obtain a cu q where
    a: "cursor_slice ops dim (cmp ?k) BiasLeft (cursor_new dim t) = Some (a, cu)" "tree_ok ops a"
      "tree_items a = filter (\<lambda>x. key x < ?k) ?xs" "keyed_at cu (filter (\<lambda>x. ?k \<le> key x) ?xs) q"
      "cu_did_seek cu" "q \<le> ?k"
    by blast
  from keyed_skip [OF a(4,5) sorted a(6)] obtain cu' q' old where
    b: "cursor_item cu = Some old" "(case old of
        Some old \<Rightarrow> if key old = ?k then map_option (Pair (Some old)) (cursor_next dim cu) else Some (None, cu)
      | None \<Rightarrow> Some (None, cu)) = Some (list_get key ?k ?xs, cu')"
      "keyed_at cu' (filter (\<lambda>x. ?k < key x) ?xs) q'"
    by (auto simp: bind_eq_Some_conv)
  from push_item_refines [OF a(2), of item] obtain c where
    c: "push_item ops a item = Some c" "tree_ok ops c" "tree_items c = tree_items a @ [item]" by blast
  from keyed_suffix [OF b(3)] obtain d cu'' where
    d: "cursor_suffix ops dim cu' = Some (d, cu'')" "tree_ok ops d" "tree_items d = filter (\<lambda>x. ?k < key x) ?xs"
    by blast
  from append_tree_refines [OF c(2) d(2)] a c d b show ?thesis
    by (auto simp: insert_or_replace_def list_insert_def)
qed

lemma remove_refines:
  assumes t: "tree_ok ops t" "height t < STACK_CAPACITY" and sorted: "key_sorted key (tree_items t)"
  shows "\<exists>u. remove ops dim key k t = Some (list_get key k (tree_items t), u)
    \<and> tree_ok ops u \<and> tree_items u = list_remove key k (tree_items t)"
proof -
  let ?xs = "tree_items t"
  from keyed_slice [OF keyed_at_new [OF t sorted] zero_least, of k] obtain a cu q where
    a: "cursor_slice ops dim (cmp k) BiasLeft (cursor_new dim t) = Some (a, cu)" "tree_ok ops a"
      "tree_items a = filter (\<lambda>x. key x < k) ?xs" "keyed_at cu (filter (\<lambda>x. k \<le> key x) ?xs) q"
      "cu_did_seek cu" "q \<le> k"
    by blast
  from keyed_skip [OF a(4,5) sorted a(6)] obtain cu' q' old where
    b: "cursor_item cu = Some old" "(case old of
        Some old \<Rightarrow> if key old = k then map_option (Pair (Some old)) (cursor_next dim cu) else Some (None, cu)
      | None \<Rightarrow> Some (None, cu)) = Some (list_get key k ?xs, cu')"
      "keyed_at cu' (filter (\<lambda>x. k < key x) ?xs) q'"
    by (auto simp: bind_eq_Some_conv)
  from keyed_suffix [OF b(3)] obtain d cu'' where
    d: "cursor_suffix ops dim cu' = Some (d, cu'')" "tree_ok ops d" "tree_items d = filter (\<lambda>x. k < key x) ?xs"
    by blast
  have "filter (\<lambda>x. key x < k) ?xs @ filter (\<lambda>x. k < key x) ?xs = list_remove key k ?xs"
    using sorted unfolding list_remove_def by (rule filter_around)
  with append_tree_refines [OF a(2) d(2)] a d b show ?thesis by (auto simp: remove_def)
qed

text \<open>The invariant of \<open>edit\<close>: the new tree, the buffered items and the items left are the list edited
  so far, and what is done lies before the keys to come.\<close>

definition editing :: "'t list \<Rightarrow> 't list \<Rightarrow> 'k set \<Rightarrow> ('t, 's, 'k) edit_state \<Rightarrow> bool" where
  "editing xs removed ks st \<longleftrightarrow>
     (\<exists>zs q. keyed_at (es_cursor st) zs q \<and> cu_did_seek (es_cursor st) \<and> tree_ok ops (es_new_tree st)
       \<and> tree_items (es_new_tree st) @ es_buffered st @ zs = xs
       \<and> (\<forall>k \<in> ks. q \<le> k \<and> (\<forall>x \<in> set (tree_items (es_new_tree st) @ es_buffered st). key x < k)))
     \<and> key_sorted key xs \<and> es_removed st = removed"

lemma advance_to_editing:
  assumes inv: "editing xs removed ks st" and k: "k \<in> ks"
  shows "\<exists>old st' q. advance_to ops dim key k st = Some (old, st')
    \<and> cursor_item (es_cursor st') = Some old
    \<and> keyed_at (es_cursor st') (filter (\<lambda>x. k \<le> key x) xs) q \<and> cu_did_seek (es_cursor st') \<and> q \<le> k
    \<and> tree_ok ops (es_new_tree st') \<and> es_removed st' = removed
    \<and> tree_items (es_new_tree st') @ es_buffered st' = filter (\<lambda>x. key x < k) xs"
proof -
  let ?cu = "es_cursor st" and ?as = "tree_items (es_new_tree st) @ es_buffered st"
  from inv obtain zs q where at: "keyed_at ?cu zs q" "cu_did_seek ?cu" and nt: "tree_ok ops (es_new_tree st)"
      and items: "tree_items (es_new_tree st) @ es_buffered st @ zs = xs"
      and done_before: "\<forall>k \<in> ks. q \<le> k \<and> (\<forall>x \<in> set ?as. key x < k)"
      and sorted: "key_sorted key xs" "es_removed st = removed"
    unfolding editing_def by blast
  from items have xs: "?as @ zs = xs" by simp
  from done_before k have q: "q \<le> k" and before: "\<forall>x \<in> set ?as. key x < k" by blast+
  have item: "cursor_item ?cu = Some (case zs of [] \<Rightarrow> None | x # _ \<Rightarrow> Some x)"
    using at by (intro cursor_item_at(1) [of ops dim _ _ q]) (simp_all add: keyed_at_def)
  have parts: "filter (\<lambda>x. key x < k) xs = ?as @ filter (\<lambda>x. key x < k) zs"
      "filter (\<lambda>x. k \<le> key x) xs = filter (\<lambda>x. k \<le> key x) zs"
    unfolding xs [symmetric] using before by (auto simp: filter_id_conv filter_empty_conv not_le)
  show ?thesis
  proof (cases "zs \<noteq> [] \<and> key (hd zs) < k")
    case True
    from keyed_slice [OF at(1) q] obtain t cu' q' where
      s: "cursor_slice ops dim (cmp k) BiasLeft ?cu = Some (t, cu')" "tree_ok ops t"
        "tree_items t = filter (\<lambda>x. key x < k) zs" "keyed_at cu' (filter (\<lambda>x. k \<le> key x) zs) q'"
        "cu_did_seek cu'" "q' \<le> k"
      by blast
    from extend_tree_refines [OF nt] obtain u where
      u: "extend_tree ops (es_new_tree st) (es_buffered st) = Some u" "tree_ok ops u" "tree_items u = ?as"
      by blast
    from append_tree_refines [OF u(2) s(2)] obtain v where
      v: "append_tree ops u t = Some v" "tree_ok ops v" "tree_items v = tree_items u @ tree_items t" by blast
    obtain old where old: "cursor_item cu' = Some old"
      using cursor_item_at(1) [of ops dim cu' "filter (\<lambda>x. k \<le> key x) zs" q'] s(4,5)
      by (auto simp: keyed_at_def)
    from True item have "\<exists>x. cursor_item ?cu = Some (Some x) \<and> key x < k" by (cases zs) auto
    with s(1) u(1) v(1) old have "advance_to ops dim key k st =
        Some (old, st\<lparr>es_cursor := cu', es_new_tree := v, es_buffered := []\<rparr>)"
      by (auto simp: advance_to_def)
    with s v u old parts sorted show ?thesis by fastforce
  next
    case False
    then have ge: "\<forall>z \<in> set zs. k \<le> key z"
      using at(1) by (cases zs) (auto simp: keyed_at_def key_sorted_Cons)
    then have "filter (\<lambda>x. key x < k) zs = []" "filter (\<lambda>x. k \<le> key x) zs = zs"
      by (auto simp: filter_empty_conv filter_id_conv)
    moreover have "advance_to ops dim key k st = Some (case zs of [] \<Rightarrow> None | x # _ \<Rightarrow> Some x, st)"
      using item False by (cases zs) (simp_all add: advance_to_def)
    ultimately show ?thesis using at q nt parts item sorted by auto
  qed
qed

lemma edit_step_editing:
  assumes inv: "editing xs removed ks st" and k: "edit_key key e \<in> ks"
    and later: "\<forall>k' \<in> ks'. edit_key key e < k'"
  shows "\<exists>st'. edit_step ops dim key e st = Some st'
    \<and> editing (list_edit key e xs)
        (removed @ (case list_get key (edit_key key e) xs of None \<Rightarrow> [] | Some x \<Rightarrow> [x])) ks' st'"
proof -
  let ?k = "edit_key key e"
  have sorted: "key_sorted key xs" using inv by (simp add: editing_def)
  from advance_to_editing [OF inv k] obtain old st1 q where
    a: "advance_to ops dim key ?k st = Some (old, st1)" "cursor_item (es_cursor st1) = Some old"
      "keyed_at (es_cursor st1) (filter (\<lambda>x. ?k \<le> key x) xs) q" "cu_did_seek (es_cursor st1)" "q \<le> ?k"
      "tree_ok ops (es_new_tree st1)" "es_removed st1 = removed"
      "tree_items (es_new_tree st1) @ es_buffered st1 = filter (\<lambda>x. key x < ?k) xs"
    by blast
  from keyed_skip [OF a(3,4) sorted a(5)] a(2) obtain cu q' where
    b: "(case old of
        Some old \<Rightarrow> if key old = ?k then map_option (Pair (Some old)) (cursor_next dim (es_cursor st1))
          else Some (None, es_cursor st1)
      | None \<Rightarrow> Some (None, es_cursor st1)) = Some (list_get key ?k xs, cu)"
      "keyed_at cu (filter (\<lambda>x. ?k < key x) xs) q'" "cu_did_seek cu" "q' \<le> ?k"
    by auto
  let ?st2 = "st1\<lparr>es_cursor := cu,
    es_removed := removed @ (case list_get key ?k xs of None \<Rightarrow> [] | Some x \<Rightarrow> [x])\<rparr>"
  let ?st3 = "case e of Insert item \<Rightarrow> ?st2\<lparr>es_buffered := es_buffered ?st2 @ [item]\<rparr> | Remove _ \<Rightarrow> ?st2"
  have "(case old of
        Some old \<Rightarrow> if key old = ?k then Option.bind (cursor_next dim (es_cursor st1))
            (\<lambda>cu. Some (st1\<lparr>es_cursor := cu, es_removed := es_removed st1 @ [old]\<rparr>))
          else Some st1
      | None \<Rightarrow> Some st1) = Some ?st2"
    using b(1) a(7) by (auto split: option.splits if_splits)
  then have run: "edit_step ops dim key e st = Some ?st3" using a(1) by (simp add: edit_step_def)
  have "editing (list_edit key e xs)
      (removed @ (case list_get key ?k xs of None \<Rightarrow> [] | Some x \<Rightarrow> [x])) ks' ?st3"
    unfolding editing_def
  proof (intro conjI exI)
    show "keyed_at (es_cursor ?st3) (filter (\<lambda>x. ?k < key x) xs) q'" "cu_did_seek (es_cursor ?st3)"
        "tree_ok ops (es_new_tree ?st3)"
        "es_removed ?st3 = removed @ (case list_get key ?k xs of None \<Rightarrow> [] | Some x \<Rightarrow> [x])"
      using a(6) b(2,3) by (cases e; simp)+
    show "tree_items (es_new_tree ?st3) @ es_buffered ?st3 @ filter (\<lambda>x. ?k < key x) xs = list_edit key e xs"
      using a(8) filter_around [OF sorted, of ?k]
      by (cases e) (auto simp: list_edit_def list_insert_def list_remove_def edit_key_def simp flip: append_assoc)
    show "key_sorted key (list_edit key e xs)" by (rule key_sorted_edit [OF sorted])
    show "\<forall>k \<in> ks'. q' \<le> k \<and> (\<forall>x \<in> set (tree_items (es_new_tree ?st3) @ es_buffered ?st3). key x < k)"
    proof
      fix k' assume "k' \<in> ks'"
      with later have "?k < k'" by blast
      moreover from this have "\<forall>x \<in> set (tree_items (es_new_tree st1) @ es_buffered st1). key x < k'"
        unfolding a(8) by auto
      ultimately show "q' \<le> k' \<and> (\<forall>x \<in> set (tree_items (es_new_tree ?st3) @ es_buffered ?st3). key x < k')"
        using b(4) by (cases e) (auto simp: edit_key_def)
    qed
  qed
  with run show ?thesis by blast
qed

lemma edit_loop_editing:
  "\<lbrakk>editing xs removed (edit_key key ` set es) st; sorted_wrt (<) (map (edit_key key) es)\<rbrakk> \<Longrightarrow>
   \<exists>st'. edit_loop ops dim key es st = Some st'
     \<and> editing (fold (list_edit key) es xs) (removed @ edit_removed key es xs) {} st'"
proof (induction es arbitrary: xs removed st)
  case (Cons e es)
  from edit_step_editing [OF Cons.prems(1), of e "edit_key key ` set es"] Cons.prems(2) obtain st1 where
    "edit_step ops dim key e st = Some st1"
    "editing (list_edit key e xs)
      (removed @ (case list_get key (edit_key key e) xs of None \<Rightarrow> [] | Some x \<Rightarrow> [x])) (edit_key key ` set es) st1"
    by auto
  with Cons.IH Cons.prems(2) show ?case by fastforce
qed simp

lemma cursor_at_start:
  assumes t: "tree_ok ops t" "height t < STACK_CAPACITY" "key_sorted key (tree_items t)"
  shows "\<exists>found cu. cursor_seek dim (cmp (dm_zero dim)) BiasLeft (cursor_new dim t) = Some (found, cu)
    \<and> keyed_at cu (tree_items t) (dm_zero dim) \<and> cu_did_seek cu"
proof -
  have all: "target_in (cmp (dm_zero dim)) BiasLeft = (\<lambda>_. True)"
    by (simp add: target_cmp fun_eq_iff zero_least)
  have new: "cu_tree (cursor_new dim t) = t" by (simp add: cursor_new_def)
  from cursor_seek_splits [where target = "cmp (dm_zero dim)" and b = BiasLeft, OF cursor_at_new [OF t(1,2)]]
  obtain found cu ys zs where
    "cursor_seek dim (cmp (dm_zero dim)) BiasLeft (cursor_new dim t) = Some (found, cu)"
    "seek_splits ops dim (\<lambda>_. True) (tree_items t) (dm_zero dim) ys zs"
    "cursor_at ops dim cu zs (last_end (dm_zero dim) (item_ends ops dim (dm_zero dim) ys))" "cu_did_seek cu"
    unfolding all new by (auto simp: cmp_def ordered_ends_def)
  with t(3) show ?thesis by (auto simp: seek_splits_def keyed_at_def zero_least)
qed

lemma edit_tree_refines:
  assumes t: "tree_ok ops t" "height t < STACK_CAPACITY" "key_sorted key (tree_items t)"
    and keys: "distinct (map (edit_key key) edits)"
  shows "\<exists>u. edit_tree ops dim key edits t =
      Some (edit_removed key (sort_key (edit_key key) edits) (tree_items t), u)
    \<and> tree_ok ops u \<and> tree_items u = fold (list_edit key) edits (tree_items t)"
proof (cases "edits = []")
  case True
  with t show ?thesis by (simp add: edit_tree_def)
next
  case False
  let ?es = "sort_key (edit_key key) edits"
  from cursor_at_start [OF t] obtain found cu where
    cu: "cursor_seek dim (cmp (dm_zero dim)) BiasLeft (cursor_new dim t) = Some (found, cu)"
      "keyed_at cu (tree_items t) (dm_zero dim)" "cu_did_seek cu"
    by blast
  have sorted: "sorted_wrt (<) (map (edit_key key) ?es)"
    using keys by (simp add: strict_sorted_iff distinct_map)
  let ?st = "\<lparr>es_cursor = cu, es_new_tree = tree_new ops, es_buffered = [], es_removed = []\<rparr>"
  have "editing (tree_items t) [] (edit_key key ` set ?es) ?st"
    using cu t(3) by (auto simp: editing_def tree_ok_def tree_new_def zero_least)
  from edit_loop_editing [OF this sorted] obtain st where
    st: "edit_loop ops dim key ?es ?st = Some st"
      "editing (fold (list_edit key) ?es (tree_items t)) (edit_removed key ?es (tree_items t)) {} st"
    by auto
  then obtain zs q where at: "keyed_at (es_cursor st) zs q" "tree_ok ops (es_new_tree st)"
      "tree_items (es_new_tree st) @ es_buffered st @ zs = fold (list_edit key) ?es (tree_items t)"
      "es_removed st = edit_removed key ?es (tree_items t)"
    unfolding editing_def by blast
  from extend_tree_refines [OF at(2)] obtain u where
    u: "extend_tree ops (es_new_tree st) (es_buffered st) = Some u" "tree_ok ops u"
      "tree_items u = tree_items (es_new_tree st) @ es_buffered st"
    by blast
  from keyed_suffix [OF at(1)] obtain s cu' where
    s: "cursor_suffix ops dim (es_cursor st) = Some (s, cu')" "tree_ok ops s" "tree_items s = zs" by blast
  from append_tree_refines [OF u(2) s(2)] obtain v where
    "append_tree ops u s = Some v" "tree_ok ops v" "tree_items v = tree_items u @ tree_items s" by blast
  with False cu(1) st(1) u s at(3,4) fold_list_edit_sort [OF keys] show ?thesis
    by (simp add: edit_tree_def)
qed

lemma tree_get_refines:
  assumes "tree_ok ops t" and sorted: "key_sorted key (tree_items t)"
  shows "tree_get dim k t = list_get key k (tree_items t)"
proof -
  have ends: "item_ends ops dim (dm_zero dim) (tree_items t) = map key (tree_items t)"
    by (rule item_ends_keys [OF sorted]) (simp add: zero_least)
  have exact: "(cmp k e = Equal) = (e = k)" for e by (auto simp: cmp_def)
  have "map_option fst (snd (scan ops dim (\<lambda>e. e = k) p xs)) = list_get key k xs"
    if "item_ends ops dim p xs = map key xs" for p xs
    using that by (induction xs arbitrary: p) (auto simp: Let_def list_get_def)
  with tree_find_exact_scan [where target = "cmp k", OF assms(1)] ends ordered_keys [OF sorted, of k]
  show ?thesis by (simp add: tree_get_def exact target_cmp)
qed

end

end
