(* ===== verification/TreeIter.thy ===== *)
theory TreeIter
  imports TreeEdit
begin

text \<open>
  Iteration over sum trees (\<open>cursor.rs\<close>): the iterator \<open>Iter\<close>, the iterator that a cursor is, and
  the filtered cursor. A \<open>for\<close> loop over each of them visits the items of the tree in order, and ends.
\<close>

section \<open>The iterators\<close>

type_synonym ('t, 's) iter_stack = "('t, 's, unit) stack_entry list"

record ('t, 's) tree_iter =
  it_tree :: "('t, 's) sum_tree"
  it_stack :: "('t, 's) iter_stack"

definition iter_new :: "('t, 's) sum_tree \<Rightarrow> ('t, 's) tree_iter" where
  "iter_new t = \<lparr>it_tree = t, it_stack = []\<rparr>"

function iter_loop :: "bool \<Rightarrow> ('t, 's) iter_stack \<Rightarrow> ('t option \<times> ('t, 's) iter_stack) option" where
  "iter_loop descend stack =
     (case stack of
        [] \<Rightarrow> Some (None, [])
      | entry # below \<Rightarrow>
          (let entry = (if descend then entry else entry\<lparr>se_index := se_index entry + 1\<rparr>);
               i = se_index entry in
           case se_tree entry of
             Internal _ _ _ cts \<Rightarrow>
               if i < length cts then
                 (if length below + 1 < STACK_CAPACITY
                  then iter_loop True (entry_at (cts ! i) 0 () # entry # below) else None)
               else iter_loop False below
           | Leaf _ items _ \<Rightarrow>
               if i < length items then Some (Some (items ! i), entry # below)
               else iter_loop False below))"
  by pat_completeness auto
termination
  by (relation "measure (\<lambda>(descend, stack). stack_work descend stack)")
    (auto simp: stack_work_pop intro: stack_work_push split: if_splits)

declare iter_loop.simps [simp del]

definition iter_next :: "('t, 's) tree_iter \<Rightarrow> ('t option \<times> ('t, 's) tree_iter) option" where
  "iter_next it = do {
     stack \<leftarrow> (if it_stack it = [] then push_entry (entry_at (it_tree it) 0 ()) [] else Some (it_stack it));
     (x, stack) \<leftarrow> iter_loop (it_stack it = []) stack;
     Some (x, it\<lparr>it_stack := stack\<rparr>)
   }"

text \<open>The iterator of a cursor.\<close>

definition cursor_iter_next ::
  "('s, 'd) dimension_ops \<Rightarrow> ('t, 's, 'd) cursor \<Rightarrow> ('t option \<times> ('t, 's, 'd) cursor) option" where
  "cursor_iter_next dim cu = do {
     cu \<leftarrow> (if cu_did_seek cu then Some cu else cursor_next dim cu);
     item \<leftarrow> cursor_item cu;
     (case item of
        Some x \<Rightarrow> map_option (Pair (Some x)) (cursor_next dim cu)
      | None \<Rightarrow> Some (None, cu))
   }"

text \<open>The filtered cursor is a cursor and a filter; its methods other than these are the cursor's.\<close>

definition filter_cursor_next ::
  "('s, 'd) dimension_ops \<Rightarrow> ('s \<Rightarrow> bool) \<Rightarrow> ('t, 's, 'd) cursor \<Rightarrow> ('t, 's, 'd) cursor option" where
  "filter_cursor_next dim keep cu = search_forward dim keep cu"

definition filter_iter_next ::
  "('s, 'd) dimension_ops \<Rightarrow> ('s \<Rightarrow> bool) \<Rightarrow> ('t, 's, 'd) cursor
   \<Rightarrow> ('t option \<times> ('t, 's, 'd) cursor) option" where
  "filter_iter_next dim keep cu = do {
     cu \<leftarrow> (if cu_did_seek cu then Some cu else filter_cursor_next dim keep cu);
     item \<leftarrow> cursor_item cu;
     (case item of
        Some x \<Rightarrow> map_option (Pair (Some x)) (search_forward dim keep cu)
      | None \<Rightarrow> Some (None, cu))
   }"

text \<open>A \<open>for\<close> loop over an iterator: the body goes on with \<open>Inr\<close> and breaks with \<open>Inl\<close>. A loop that
  panics, or does not end, is \<open>None\<close>.\<close>

partial_function (option) for_loop ::
  "('i \<Rightarrow> ('x option \<times> 'i) option) \<Rightarrow> ('x \<Rightarrow> 'a \<Rightarrow> 'a + 'a) \<Rightarrow> 'a \<Rightarrow> 'i \<Rightarrow> 'a option" where
  "for_loop next body acc it = do {
     (x, it) \<leftarrow> next it;
     (case x of
        None \<Rightarrow> Some acc
      | Some x \<Rightarrow> (case body x acc of Inl acc \<Rightarrow> Some acc | Inr acc \<Rightarrow> for_loop next body acc it))
   }"

declare for_loop.simps [code]

definition collect_items :: "('i \<Rightarrow> ('x option \<times> 'i) option) \<Rightarrow> 'i \<Rightarrow> 'x list option" where
  "collect_items next it = for_loop next (\<lambda>x xs. Inr (xs @ [x])) [] it"

section \<open>Loops over iterators are loops over lists\<close>

fun list_for :: "('x \<Rightarrow> 'a \<Rightarrow> 'a + 'a) \<Rightarrow> 'a \<Rightarrow> 'x list \<Rightarrow> 'a" where
  "list_for body acc [] = acc"
| "list_for body acc (x # xs) = (case body x acc of Inl acc \<Rightarrow> acc | Inr acc \<Rightarrow> list_for body acc xs)"

lemma list_for_collect: "list_for (\<lambda>x xs. Inr (xs @ [x])) acc xs = acc @ xs"
  by (induction xs arbitrary: acc) simp_all

text \<open>The interface of iterators: \<open>at it xs\<close> says that the items left are \<open>xs\<close>.\<close>

locale iterator_laws =
  fixes next_item :: "'i \<Rightarrow> ('x option \<times> 'i) option" and at :: "'i \<Rightarrow> 'x list \<Rightarrow> bool"
  assumes next_at: "at it xs \<Longrightarrow>
    \<exists>it'. next_item it = Some (case xs of [] \<Rightarrow> None | x # _ \<Rightarrow> Some x, it') \<and> (xs \<noteq> [] \<longrightarrow> at it' (tl xs))"
begin

lemma for_loop_list: "at it xs \<Longrightarrow> for_loop next_item body acc it = Some (list_for body acc xs)"
proof (induction xs arbitrary: it acc)
  case Nil
  with next_at [of it "[]"] show ?case by (subst for_loop.simps) auto
next
  case (Cons x xs)
  with next_at [of it "x # xs"] obtain it' where "next_item it = Some (Some x, it')" "at it' xs" by auto
  with Cons.IH show ?case by (subst for_loop.simps) (auto split: sum.splits)
qed

lemma collect_items_list: "at it xs \<Longrightarrow> collect_items next_item it = Some xs"
  by (simp add: collect_items_def for_loop_list list_for_collect)

end

text \<open>The iterator \<open>Iter\<close>: it starts again after it has returned \<open>None\<close>, so that state stands for no
  items.\<close>

definition iter_at :: "('t, 's) summary_ops \<Rightarrow> ('t, 's) tree_iter \<Rightarrow> 't list \<Rightarrow> bool" where
  "iter_at ops it xs \<longleftrightarrow>
     (if it_stack it = []
      then tree_ok ops (it_tree it) \<and> height (it_tree it) < STACK_CAPACITY \<and> xs = tree_items (it_tree it)
      else (\<exists>x. stack_at ops (it_stack it) (x # xs)))"

definition first_item :: "'t list \<Rightarrow> 't option" where
  "first_item xs = (case xs of [] \<Rightarrow> None | x # _ \<Rightarrow> Some x)"

lemma iter_node:
  assumes node: "se_tree e = Internal h s css cts" and ok: "loop_ok ops (\<not> descend) (e # below)"
    and rec: "\<And>descend' stack. \<lbrakk>stack_work descend' stack < stack_work descend (e # below);
      loop_ok ops (\<not> descend') stack\<rbrakk> \<Longrightarrow>
      \<exists>stack'. iter_loop descend' stack = Some (first_item (loop_items (\<not> descend') stack), stack')
        \<and> stack_at ops stack' (loop_items (\<not> descend') stack)"
  shows "\<exists>stack'. iter_loop descend (e # below) = Some (first_item (loop_items (\<not> descend) (e # below)), stack')
    \<and> stack_at ops stack' (loop_items (\<not> descend) (e # below))"
proof -
  define i where "i = se_index e + (if descend then 0 else 1)"
  define f where "f = (if descend then e else e\<lparr>se_index := se_index e + 1\<rparr>)"
  have f: "se_tree f = Internal h s css cts" "se_index f = i" using node by (simp_all add: f_def i_def)
  from ok node have nok: "node_ok ops (Internal h s css cts)" "i \<le> length css"
      "h + length (e # below) \<le> STACK_CAPACITY" "below_ok ops below"
    by (auto simp: loop_ok_def i_def tree_ok_def tree_new_def split: if_splits)
  have items: "loop_items (\<not> descend) (e # below) = concat (map tree_items (drop i cts)) @ below_items below"
    using node by (simp add: loop_items_def i_def)
  have unfold: "iter_loop descend (e # below) =
      (if i < length cts then
         (if length below + 1 < STACK_CAPACITY then iter_loop True (entry_at (cts ! i) 0 () # f # below) else None)
       else iter_loop False below)"
    using f by (subst iter_loop.simps) (simp add: f_def [symmetric] Let_def)
  show ?thesis
  proof (cases "i < length cts")
    case True
    let ?stack = "entry_at (cts ! i) 0 () # f # below"
    from nok(1) True have c: "node_ok ops (cts ! i)" "h = height (cts ! i) + 1" by (auto simp: list_all_length)
    have zs: "loop_items False ?stack = loop_items (\<not> descend) (e # below)"
      unfolding items using f Cons_nth_drop_Suc [OF True, symmetric]
      by (simp add: loop_items_def below_items_def entry_at_def)
    have "loop_ok ops False ?stack"
      using c nok f True by (auto simp: loop_ok_def entry_at_def tree_ok_def)
    moreover have "stack_work True ?stack < stack_work descend (e # below)"
      by (rule stack_work_push [OF node]) (use f node True in \<open>auto simp: i_def\<close>)
    ultimately show ?thesis using rec [of True ?stack] unfold True zs nok(3) c(2) by simp
  next
    case False
    with rec [of False below] stack_work_pop [of below] nok(4) unfold items
    show ?thesis by (simp add: loop_ok_def)
  qed
qed

lemma iter_leaf:
  assumes leaf: "se_tree e = Leaf s ls ss" and ok: "loop_ok ops False (e # below)"
    and rec: "\<exists>stack'. iter_loop False below = Some (first_item (below_items below), stack')
        \<and> stack_at ops stack' (below_items below)"
  shows "\<exists>stack'. iter_loop True (e # below) = Some (first_item (loop_items False (e # below)), stack')
    \<and> stack_at ops stack' (loop_items False (e # below))"
proof (cases "se_index e < length ls")
  case True
  with ok leaf have "node_ok ops (se_tree e)" by (auto simp: loop_ok_def tree_ok_def tree_new_def)
  with True ok leaf have "stack_at ops (e # below) (loop_items False (e # below))"
    by (auto simp: stack_at_def loop_ok_def)
  moreover have "loop_items False (e # below) = ls ! se_index e # drop (Suc (se_index e)) ls @ below_items below"
    using leaf Cons_nth_drop_Suc [OF True, symmetric] by (simp add: loop_items_def entry_items_def)
  ultimately show ?thesis using leaf True by (subst iter_loop.simps) (simp add: Let_def first_item_def)
next
  case False
  with leaf rec show ?thesis
    by (subst iter_loop.simps) (simp add: Let_def loop_items_def entry_items_def)
qed

lemma iter_loop_items:
  "loop_ok ops (\<not> descend) stack \<Longrightarrow>
   \<exists>stack'. iter_loop descend stack = Some (first_item (loop_items (\<not> descend) stack), stack')
     \<and> stack_at ops stack' (loop_items (\<not> descend) stack)"
proof (induction "stack_work descend stack" arbitrary: descend stack rule: less_induct)
  case less
  show ?case
  proof (cases stack)
    case Nil
    then show ?thesis by (simp add: iter_loop.simps loop_items_def stack_at_def first_item_def)
  next
    case (Cons e below)
    show ?thesis
    proof (cases "se_tree e")
      case (Internal h s css cts)
      show ?thesis unfolding Cons by (rule iter_node [OF Internal]) (use less Cons in \<open>simp_all\<close>)
    next
      case (Leaf s ls ss)
      with less.prems(1) Cons have d: "descend" "below_ok ops below" "loop_ok ops False (e # below)"
        by (auto simp: loop_ok_def split: if_splits)
      with iter_leaf [OF Leaf d(3)] less.hyps [of False below] stack_work_pop [of below] Cons
      show ?thesis by (simp add: loop_ok_def)
    qed
  qed
qed

lemma iter_from_item:
  assumes at: "stack_at ops stack (x # xs)"
  shows "\<exists>stack'. iter_loop False stack = Some (first_item xs, stack') \<and> stack_at ops stack' xs"
proof -
  from at obtain e below u ls where leaf: "stack = e # below" "se_tree e = Leaf u ls (map (so_summary ops) ls)"
      "node_ok ops (se_tree e)" "se_index e < length ls" "below_ok ops below"
      "length (e # below) \<le> STACK_CAPACITY" "x # xs = drop (se_index e) ls @ below_items below"
    by (cases stack; cases "se_tree (hd stack)") (auto simp: stack_at_def loop_items_def entry_items_def)
  let ?e = "e\<lparr>se_index := se_index e + 1\<rparr>"
  have "xs = drop (Suc (se_index e)) ls @ below_items below"
    using leaf(4,7) by (simp add: Cons_nth_drop_Suc [symmetric])
  then have "loop_ok ops False (?e # below)" "loop_items False (?e # below) = xs"
    using leaf by (auto simp: loop_ok_def loop_items_def entry_items_def tree_ok_def)
  moreover have "iter_loop False (e # below) = iter_loop True (?e # below)"
    using leaf(2) by (subst (1 2) iter_loop.simps) (simp add: Let_def)
  ultimately show ?thesis using iter_loop_items [of ops True "?e # below"] leaf(1) by simp
qed

lemma iter_next_at:
  assumes at: "iter_at ops it xs"
  shows "\<exists>it'. iter_next it = Some (first_item xs, it') \<and> (xs \<noteq> [] \<longrightarrow> iter_at ops it' (tl xs))"
proof -
  have run: "\<exists>it'. iter_next it = Some (first_item xs, it') \<and> (xs \<noteq> [] \<longrightarrow> iter_at ops it' (tl xs))"
    if start: "(if it_stack it = [] then push_entry (entry_at (it_tree it) 0 ()) [] else Some (it_stack it)) =
        Some stack"
      and loop: "iter_loop (it_stack it = []) stack = Some (first_item xs, stack')"
      and stop: "stack_at ops stack' xs" for stack stack'
  proof -
    have "iter_next it = Some (first_item xs, it\<lparr>it_stack := stack'\<rparr>)"
      using start loop by (simp only: iter_next_def) simp
    moreover have "iter_at ops (it\<lparr>it_stack := stack'\<rparr>) (tl xs)" if "xs \<noteq> []"
      using stop that by (cases xs; cases stack') (auto simp: iter_at_def, auto simp: stack_at_def)
    ultimately show ?thesis by blast
  qed
  show ?thesis
  proof (cases "it_stack it = []")
    case True
    let ?stack = "[entry_at (it_tree it) 0 ()]"
    from True at have "loop_ok ops False ?stack" "loop_items False ?stack = xs"
      by (simp_all add: iter_at_def loop_ok_def loop_items_def entry_at_def below_items_def)
    with iter_loop_items [of ops True ?stack] run [of ?stack] True show ?thesis
      by (auto simp: push_entry_def STACK_CAPACITY_def)
  next
    case False
    with at obtain x where "stack_at ops (it_stack it) (x # xs)" by (auto simp: iter_at_def)
    from iter_from_item [OF this] run [of "it_stack it"] False show ?thesis by auto
  qed
qed

interpretation tree_iterator: iterator_laws iter_next "iter_at ops" for ops
  by unfold_locales (use iter_next_at in \<open>simp add: first_item_def\<close>)

lemma iter_new_at:
  "\<lbrakk>tree_ok ops t; height t < STACK_CAPACITY\<rbrakk> \<Longrightarrow> iter_at ops (iter_new t) (tree_items t)"
  by (simp add: iter_at_def iter_new_def)

text \<open>The iterator of a cursor stands for the items the cursor has not passed.\<close>

definition cursor_iter_at ::
  "('t, 's) summary_ops \<Rightarrow> ('s, 'd) dimension_ops \<Rightarrow> ('t, 's, 'd) cursor \<Rightarrow> 't list \<Rightarrow> bool" where
  "cursor_iter_at ops dim cu xs \<longleftrightarrow> (\<exists>p. cursor_at ops dim cu xs p)"

context dimension_laws
begin

lemma cursor_iter_next_at:
  assumes "cursor_iter_at ops dim cu xs"
  shows "\<exists>cu'. cursor_iter_next dim cu = Some (first_item xs, cu')
    \<and> (xs \<noteq> [] \<longrightarrow> cursor_iter_at ops dim cu' (tl xs))"
proof -
  from assms obtain p where at: "cursor_at ops dim cu xs p" by (auto simp: cursor_iter_at_def)
  from cursor_next_at [OF at] at obtain cu1 p1 where
    one: "(if cu_did_seek cu then Some cu else cursor_next dim cu) = Some cu1"
      "cursor_at ops dim cu1 xs p1" "cu_did_seek cu1"
    by (cases "cu_did_seek cu") (auto simp: after_current_def)
  from cursor_next_at [OF one(2)] one(3) obtain cu2 p2 where
    "cursor_next dim cu1 = Some cu2" "cursor_at ops dim cu2 (tl xs) p2"
    by (auto simp: after_current_def)
  with one cursor_item_at(1) [OF one(2,3)] show ?thesis
    by (cases xs) (auto simp: cursor_iter_next_def cursor_iter_at_def first_item_def)
qed

end

sublocale dimension_laws \<subseteq> cursor_iterator: iterator_laws "cursor_iter_next dim" "cursor_iter_at ops dim"
  by unfold_locales (use cursor_iter_next_at in \<open>simp add: first_item_def\<close>)

text \<open>A filtered cursor visits the items the filter keeps, when the filter rejects a subtree only if it
  rejects its items.\<close>

definition filter_at ::
  "('t, 's) summary_ops \<Rightarrow> ('s, 'd) dimension_ops \<Rightarrow> ('s \<Rightarrow> bool) \<Rightarrow> ('t, 's, 'd) cursor \<Rightarrow> 't list \<Rightarrow> bool"
  where
  "filter_at ops dim keep cu xs \<longleftrightarrow>
     (\<exists>ys p. cursor_at ops dim cu ys p \<and> (cu_did_seek cu \<longrightarrow> ys = [] \<or> keep (so_summary ops (hd ys)))
       \<and> xs = filter (\<lambda>x. keep (so_summary ops x)) ys)"

context dimension_laws
begin

lemma search_forward_filter:
  assumes sound: "filter_sound ops keep" and "cursor_at ops dim cu ys p"
  shows "\<exists>cu'. search_forward dim keep cu = Some cu' \<and> cu_did_seek cu'
    \<and> filter_at ops dim keep cu' (filter (\<lambda>x. keep (so_summary ops x)) (after_current cu ys))"
proof -
  from search_forward_splits [OF assms(2) sound] obtain cu' us vs where
    s: "search_forward dim keep cu = Some cu'" "after_current cu ys = us @ vs"
      "\<forall>y \<in> set us. \<not> keep (so_summary ops y)" "vs \<noteq> [] \<longrightarrow> keep (so_summary ops (hd vs))"
      "cursor_at ops dim cu' vs (last_end (position_after cu ys p) (item_ends ops dim (position_after cu ys p) us))"
      "cu_did_seek cu'"
    by blast
  from s(2,3) have "filter (\<lambda>x. keep (so_summary ops x)) (after_current cu ys) =
      filter (\<lambda>x. keep (so_summary ops x)) vs"
    by (simp add: filter_empty_conv)
  with s show ?thesis by (auto simp: filter_at_def)
qed

lemma filter_iter_next_at:
  assumes sound: "filter_sound ops keep" and "filter_at ops dim keep cu xs"
  shows "\<exists>cu'. filter_iter_next dim keep cu = Some (first_item xs, cu') \<and> (xs \<noteq> [] \<longrightarrow> filter_at ops dim keep cu' (tl xs))"
proof -
  have "\<exists>cu1. (if cu_did_seek cu then Some cu else filter_cursor_next dim keep cu) = Some cu1
      \<and> filter_at ops dim keep cu1 xs \<and> cu_did_seek cu1"
    using assms(2) search_forward_filter [OF sound]
    by (cases "cu_did_seek cu") (fastforce simp: filter_cursor_next_def filter_at_def after_current_def)+
  then obtain cu1 where one: "(if cu_did_seek cu then Some cu else filter_cursor_next dim keep cu) = Some cu1"
      "filter_at ops dim keep cu1 xs" "cu_did_seek cu1"
    by blast
  then obtain ys p where ys: "cursor_at ops dim cu1 ys p" "ys = [] \<or> keep (so_summary ops (hd ys))"
      "xs = filter (\<lambda>x. keep (so_summary ops x)) ys"
    by (auto simp: filter_at_def)
  note item = cursor_item_at(1) [OF ys(1) one(3)]
  show ?thesis
  proof (cases ys)
    case Nil
    with item one ys(3) show ?thesis by (auto simp: filter_iter_next_def first_item_def)
  next
    case (Cons y zs)
    with search_forward_filter [OF sound ys(1)] one(3) obtain cu2 where
      "search_forward dim keep cu1 = Some cu2" "filter_at ops dim keep cu2 (filter (\<lambda>x. keep (so_summary ops x)) zs)"
      by (auto simp: after_current_def)
    with item one ys Cons show ?thesis by (auto simp: filter_iter_next_def first_item_def)
  qed
qed

lemma filter_iterator: "filter_sound ops keep \<Longrightarrow> iterator_laws (filter_iter_next dim keep) (filter_at ops dim keep)"
  by unfold_locales (use filter_iter_next_at in \<open>simp add: first_item_def\<close>)

lemma filter_cursor_items:
  assumes sound: "filter_sound ops keep" and t: "tree_ok ops t" "height t < STACK_CAPACITY"
  shows "collect_items (filter_iter_next dim keep) (cursor_new dim t) =
    Some (filter (\<lambda>x. keep (so_summary ops x)) (tree_items t))"
  by (rule iterator_laws.collect_items_list [OF filter_iterator [OF sound]])
    (use cursor_at_new [OF t, of dim] in \<open>auto simp: filter_at_def cursor_new_def\<close>)

end

end
