(* ===== verification/TreeMap.thy ===== *)
theory TreeMap
  imports TreeIter "HOL-Library.Option_ord"
begin

text \<open>
  The ordered map and the ordered set on a sum tree (\<open>tree_map.rs\<close>). The summary of entries is the
  last key, or none for an empty tree. The laws of summaries, dimensions and keys are discharged for
  this instance, and the operations are shown to be those of a finite map.
\<close>

section \<open>Entries and keys\<close>

record ('k, 'v) map_entry =
  me_key :: 'k
  me_value :: 'v

definition new_entry :: "'k \<times> 'v \<Rightarrow> ('k, 'v) map_entry" where
  "new_entry kv = \<lparr>me_key = fst kv, me_value = snd kv\<rparr>"

definition entry_pair :: "('k, 'v) map_entry \<Rightarrow> 'k \<times> 'v" where
  "entry_pair e = (me_key e, me_value e)"

text \<open>\<open>MapKey\<close> and \<open>MapKeyRef\<close> are optional keys, ordered with \<open>None\<close> first.\<close>

definition entry_key :: "('k, 'v) map_entry \<Rightarrow> 'k option" where
  "entry_key e = Some (me_key e)"

definition map_ops :: "(('k, 'v) map_entry, 'k option) summary_ops" where
  "map_ops = \<lparr>so_zero = None, so_add = (\<lambda>_ s. s), so_summary = entry_key\<rparr>"

definition map_dim :: "('k option, 'k option) dimension_ops" where
  "map_dim = \<lparr>dm_zero = None, dm_add = (\<lambda>_ s. s)\<rparr>"

type_synonym ('k, 'v) tree_map = "(('k, 'v) map_entry, 'k option) sum_tree"

section \<open>Operations of the map\<close>

definition tm_from_ordered_entries :: "('k \<times> 'v) list \<Rightarrow> ('k, 'v) tree_map option" where
  "tm_from_ordered_entries entries = tree_from_iter map_ops (map new_entry entries)"

definition tm_default :: "('k, 'v) tree_map" where
  "tm_default = tree_new map_ops"

definition tm_is_empty :: "('k, 'v) tree_map \<Rightarrow> bool" where
  "tm_is_empty self = tree_is_empty self"

definition tm_get :: "'k::linorder \<Rightarrow> ('k, 'v) tree_map \<Rightarrow> 'v option" where
  "tm_get key self =
     (let (_, _, item) = tree_find map_dim (cmp (Some key)) BiasLeft self in
      case item of
        Some item \<Rightarrow> if Some key = entry_key item then Some (me_value item) else None
      | None \<Rightarrow> None)"

definition tm_contains_key :: "'k::linorder \<Rightarrow> ('k, 'v) tree_map \<Rightarrow> bool" where
  "tm_contains_key key self \<longleftrightarrow> tm_get key self \<noteq> None"

definition tm_insert_or_replace ::
  "'k::linorder \<Rightarrow> 'v \<Rightarrow> ('k, 'v) tree_map \<Rightarrow> ('v option \<times> ('k, 'v) tree_map) option" where
  "tm_insert_or_replace key v self = do {
     (replaced, self) \<leftarrow> insert_or_replace map_ops map_dim entry_key (new_entry (key, v)) self;
     Some (map_option me_value replaced, self)
   }"

definition tm_insert :: "'k::linorder \<Rightarrow> 'v \<Rightarrow> ('k, 'v) tree_map \<Rightarrow> ('k, 'v) tree_map option" where
  "tm_insert key v self = map_option snd (insert_or_replace map_ops map_dim entry_key (new_entry (key, v)) self)"

definition tm_extend :: "('k::linorder \<times> 'v) list \<Rightarrow> ('k, 'v) tree_map \<Rightarrow> ('k, 'v) tree_map option" where
  "tm_extend entries self =
     map_option snd (edit_tree map_ops map_dim entry_key (map (\<lambda>kv. Insert (new_entry kv)) entries) self)"

definition tm_clear :: "('k, 'v) tree_map \<Rightarrow> ('k, 'v) tree_map" where
  "tm_clear self = tree_new map_ops"

definition tm_remove ::
  "'k::linorder \<Rightarrow> ('k, 'v) tree_map \<Rightarrow> ('v option \<times> ('k, 'v) tree_map) option" where
  "tm_remove key self = do {
     (new_tree, cu) \<leftarrow> cursor_slice map_ops map_dim (cmp (Some key)) BiasLeft (cursor_new map_dim self);
     end_pos \<leftarrow> cursor_end map_dim cu;
     (removed, cu) \<leftarrow> (if cmp (Some key) end_pos = Equal then do {
          item \<leftarrow> cursor_item cu;
          item \<leftarrow> item;
          cu \<leftarrow> cursor_next map_dim cu;
          Some (Some (me_value item), cu)
        }
        else Some (None, cu));
     (suffix, _) \<leftarrow> cursor_suffix map_ops map_dim cu;
     new_tree \<leftarrow> append_tree map_ops new_tree suffix;
     Some (removed, new_tree)
   }"

text \<open>\<open>MapSeekTargetAdaptor\<close>: a target on keys as a target on optional keys.\<close>

definition map_target :: "('k \<Rightarrow> ordering) \<Rightarrow> 'k option \<Rightarrow> ordering" where
  "map_target t p = (case p of Some key \<Rightarrow> t key | None \<Rightarrow> Greater)"

definition tm_remove_range ::
  "('k \<Rightarrow> ordering) \<Rightarrow> ('k \<Rightarrow> ordering) \<Rightarrow> ('k, 'v) tree_map \<Rightarrow> ('k, 'v) tree_map option" where
  "tm_remove_range start stop self = do {
     (new_tree, cu) \<leftarrow> cursor_slice map_ops map_dim (map_target start) BiasLeft (cursor_new map_dim self);
     (_, cu) \<leftarrow> cursor_seek map_dim (map_target stop) BiasLeft cu;
     (suffix, _) \<leftarrow> cursor_suffix map_ops map_dim cu;
     append_tree map_ops new_tree suffix
   }"

text \<open>The entries from a key on; the code returns them lazily.\<close>

definition tm_iter_from :: "'k::linorder \<Rightarrow> ('k, 'v) tree_map \<Rightarrow> ('k \<times> 'v) list option" where
  "tm_iter_from from_key self = do {
     (_, cu) \<leftarrow> cursor_seek map_dim (cmp (Some from_key)) BiasLeft (cursor_new map_dim self);
     entries \<leftarrow> collect_items (cursor_iter_next map_dim) cu;
     Some (map entry_pair entries)
   }"

text \<open>The closure of \<open>update\<close> changes the value and returns a result.\<close>

definition tm_update ::
  "'k::linorder \<Rightarrow> ('v \<Rightarrow> 'r \<times> 'v) \<Rightarrow> ('k, 'v) tree_map \<Rightarrow> ('r option \<times> ('k, 'v) tree_map) option" where
  "tm_update key f self = do {
     (new_tree, cu) \<leftarrow> cursor_slice map_ops map_dim (cmp (Some key)) BiasLeft (cursor_new map_dim self);
     end_pos \<leftarrow> cursor_end map_dim cu;
     (result, new_tree, cu) \<leftarrow> (if cmp (Some key) end_pos = Equal then do {
          item \<leftarrow> cursor_item cu;
          item \<leftarrow> item;
          let (r, v) = f (me_value item);
          new_tree \<leftarrow> push_item map_ops new_tree (item\<lparr>me_value := v\<rparr>);
          cu \<leftarrow> cursor_next map_dim cu;
          Some (Some r, new_tree, cu)
        }
        else Some (None, new_tree, cu));
     (suffix, _) \<leftarrow> cursor_suffix map_ops map_dim cu;
     new_tree \<leftarrow> append_tree map_ops new_tree suffix;
     Some (result, new_tree)
   }"

partial_function (option) retain_loop ::
  "('k \<Rightarrow> 'v \<Rightarrow> bool) \<Rightarrow> (('k, 'v) map_entry, 'k option, 'k option) cursor \<Rightarrow> ('k, 'v) tree_map
   \<Rightarrow> ('k, 'v) tree_map option" where
  "retain_loop predicate cu new_map = do {
     item \<leftarrow> cursor_item cu;
     (case item of
        None \<Rightarrow> Some new_map
      | Some item \<Rightarrow> do {
          new_map \<leftarrow> (if predicate (me_key item) (me_value item) then push_item map_ops new_map item
            else Some new_map);
          cu \<leftarrow> cursor_next map_dim cu;
          retain_loop predicate cu new_map
        })
   }"

definition tm_retain :: "('k \<Rightarrow> 'v \<Rightarrow> bool) \<Rightarrow> ('k, 'v) tree_map \<Rightarrow> ('k, 'v) tree_map option" where
  "tm_retain predicate self = do {
     cu \<leftarrow> cursor_next map_dim (cursor_new map_dim self);
     retain_loop predicate cu (tree_new map_ops)
   }"

definition tm_iter :: "('k, 'v) tree_map \<Rightarrow> ('k \<times> 'v) list option" where
  "tm_iter self = map_option (map entry_pair) (collect_items iter_next (iter_new self))"

definition tm_values :: "('k, 'v) tree_map \<Rightarrow> 'v list option" where
  "tm_values self = map_option (map me_value) (collect_items iter_next (iter_new self))"

definition tm_first :: "('k, 'v) tree_map \<Rightarrow> ('k \<times> 'v) option option" where
  "tm_first self = map_option (map_option entry_pair) (tree_first self)"

definition tm_last :: "('k, 'v) tree_map \<Rightarrow> ('k \<times> 'v) option option" where
  "tm_last self = map_option (map_option entry_pair) (tree_last self)"

definition tm_insert_tree :: "('k::linorder, 'v) tree_map \<Rightarrow> ('k, 'v) tree_map \<Rightarrow> ('k, 'v) tree_map option" where
  "tm_insert_tree other self = do {
     entries \<leftarrow> tm_iter other;
     map_option snd (edit_tree map_ops map_dim entry_key (map (\<lambda>kv. Insert (new_entry kv)) entries) self)
   }"

section \<open>The set\<close>

type_synonym 'k tree_set = "('k, unit) tree_map"

definition ts_from_ordered_entries :: "'k list \<Rightarrow> 'k tree_set option" where
  "ts_from_ordered_entries entries = tm_from_ordered_entries (map (\<lambda>key. (key, ())) entries)"

definition ts_is_empty :: "'k tree_set \<Rightarrow> bool" where
  "ts_is_empty self = tm_is_empty self"

definition ts_insert :: "'k::linorder \<Rightarrow> 'k tree_set \<Rightarrow> 'k tree_set option" where
  "ts_insert key self = tm_insert key () self"

definition ts_remove :: "'k::linorder \<Rightarrow> 'k tree_set \<Rightarrow> (bool \<times> 'k tree_set) option" where
  "ts_remove key self = map_option (\<lambda>(removed, self). (removed \<noteq> None, self)) (tm_remove key self)"

definition ts_extend :: "'k::linorder list \<Rightarrow> 'k tree_set \<Rightarrow> 'k tree_set option" where
  "ts_extend keys self = tm_extend (map (\<lambda>key. (key, ())) keys) self"

definition ts_contains :: "'k::linorder \<Rightarrow> 'k tree_set \<Rightarrow> bool" where
  "ts_contains key self \<longleftrightarrow> tm_get key self \<noteq> None"

definition ts_iter :: "'k tree_set \<Rightarrow> 'k list option" where
  "ts_iter self = map_option (map fst) (tm_iter self)"

definition ts_iter_from :: "'k::linorder \<Rightarrow> 'k tree_set \<Rightarrow> 'k list option" where
  "ts_iter_from key self = map_option (map fst) (tm_iter_from key self)"

section \<open>The laws hold for entries\<close>

lemma entry_key_inject [simp]: "entry_key a = entry_key b \<longleftrightarrow> me_key a = me_key b"
  by (simp add: entry_key_def)

lemma entry_key_new_entry [simp]: "entry_key (new_entry (k, v)) = Some k"
  by (simp add: entry_key_def new_entry_def)

interpretation map_tree: keyed_laws map_ops map_dim "entry_key :: ('k::linorder, 'v) map_entry \<Rightarrow> 'k option"
  by unfold_locales (simp_all add: map_ops_def map_dim_def entry_key_def)

text \<open>A valid map is a valid tree with strictly ascending keys; it stands for a finite map.\<close>

definition map_ok :: "('k::linorder, 'v) tree_map \<Rightarrow> bool" where
  "map_ok m \<longleftrightarrow> tree_ok map_ops m \<and> key_sorted entry_key (tree_items m)"

definition items_map :: "('k::linorder, 'v) map_entry list \<Rightarrow> 'k \<Rightarrow> 'v option" where
  "items_map xs k = map_option me_value (list_get entry_key (Some k) xs)"

definition map_abs :: "('k::linorder, 'v) tree_map \<Rightarrow> 'k \<Rightarrow> 'v option" where
  "map_abs m = items_map (tree_items m)"

lemma items_map_insert:
  "key_sorted entry_key xs \<Longrightarrow>
   items_map (list_insert entry_key (new_entry (k, v)) xs) = (items_map xs)(k \<mapsto> v)"
  by (rule ext) (simp add: items_map_def list_get_insert new_entry_def entry_key_def)

lemma items_map_remove:
  "items_map (list_remove entry_key (Some k) xs) = (items_map xs)(k := None)"
  by (rule ext) (simp add: items_map_def list_get_remove)

lemma list_get_filter:
  "key_sorted key xs \<Longrightarrow> list_get key k (filter P xs) =
     (case list_get key k xs of Some x \<Rightarrow> if P x then Some x else None | None \<Rightarrow> None)"
proof (induction xs)
  case (Cons x xs)
  have "list_get key k (filter P xs) = None" if "key x = k"
    using Cons.prems that by (auto simp: list_get_def find_None_iff key_sorted_Cons)
  with Cons show ?case by (auto simp: key_sorted_Cons list_get_Cons)
qed (simp add: list_get_def)

lemma items_map_filter:
  "key_sorted entry_key xs \<Longrightarrow> items_map (filter (\<lambda>e. P (me_key e) (me_value e)) xs) =
     (\<lambda>k. case items_map xs k of Some v \<Rightarrow> if P k v then Some v else None | None \<Rightarrow> None)"
  by (rule ext)
    (auto simp: items_map_def list_get_filter entry_key_def dest!: list_get_key split: option.splits)

lemma fold_insert_map:
  "key_sorted entry_key xs \<Longrightarrow>
   key_sorted entry_key (fold (list_edit entry_key) (map (\<lambda>kv. Insert (new_entry kv)) kvs) xs)
   \<and> items_map (fold (list_edit entry_key) (map (\<lambda>kv. Insert (new_entry kv)) kvs) xs) =
       fold (\<lambda>(k, v) m. m(k \<mapsto> v)) kvs (items_map xs)"
proof (induction kvs arbitrary: xs)
  case (Cons kv kvs)
  obtain k v where kv: "kv = (k, v)" by (cases kv)
  have "list_edit entry_key (Insert (new_entry kv)) xs = list_insert entry_key (new_entry (k, v)) xs"
    by (simp add: list_edit_def kv)
  with Cons.IH [of "list_insert entry_key (new_entry (k, v)) xs"] Cons.prems kv show ?case
    by (simp add: key_sorted_insert items_map_insert)
qed simp

section \<open>Lookup and single updates\<close>

lemma scan_get:
  "\<lbrakk>key_sorted entry_key xs; \<forall>x \<in> set xs. p \<le> entry_key x\<rbrakk> \<Longrightarrow>
   list_get entry_key k xs =
     (case snd (scan map_ops map_dim (\<lambda>e. k \<le> e) p xs) of
        Some (x, e) \<Rightarrow> if k = entry_key x then Some x else None | None \<Rightarrow> None)"
proof (induction xs arbitrary: p)
  case (Cons x xs)
  then have e: "dm_add map_dim p (so_summary map_ops x) = entry_key x" by (simp add: map_tree.end_key)
  have "list_get entry_key k xs = None" if "k < entry_key x"
    using Cons.prems that by (auto simp: list_get_def find_None_iff key_sorted_Cons)
  with Cons e show ?case
    by (cases "k \<le> entry_key x") (auto simp: Let_def list_get_Cons key_sorted_Cons less_imp_le)
qed (simp add: list_get_def)

lemma tm_get_abs:
  assumes "map_ok m"
  shows "tm_get k m = map_abs m k"
proof -
  from assms have m: "tree_ok map_ops m" "key_sorted entry_key (tree_items m)" by (simp_all add: map_ok_def)
  have ends: "item_ends map_ops map_dim (dm_zero map_dim) (tree_items m) = map entry_key (tree_items m)"
    by (rule map_tree.item_ends_keys [OF m(2)]) (simp add: map_tree.zero_least)
  have "dm_add map_dim (dm_zero map_dim) (so_zero map_ops) = dm_zero map_dim" by (simp add: map_ops_def map_dim_def)
  from map_tree.tree_find_scan [OF m(1) this, of "cmp (Some k)" BiasLeft] map_tree.ordered_keys(1) [OF m(2), of "Some k"]
  have "tree_find map_dim (cmp (Some k)) BiasLeft m =
    (case scan map_ops map_dim (\<lambda>e. Some k \<le> e) (dm_zero map_dim) (tree_items m) of
       (pos, Some (item, e)) \<Rightarrow> (pos, e, Some item) | (pos, None) \<Rightarrow> (pos, pos, None))"
    by (simp add: ends map_tree.target_cmp)
  then show ?thesis
    using scan_get [OF m(2), of "dm_zero map_dim" "Some k"]
    by (auto simp: tm_get_def map_abs_def items_map_def map_tree.zero_least split: prod.splits option.splits)
qed

lemma tm_insert_abs:
  assumes "map_ok m" "height m < STACK_CAPACITY"
  shows "\<exists>m'. tm_insert_or_replace k v m = Some (map_abs m k, m') \<and> tm_insert k v m = Some m' \<and> map_ok m'
    \<and> map_abs m' = (map_abs m)(k \<mapsto> v)"
proof -
  from assms have m: "tree_ok map_ops m" "key_sorted entry_key (tree_items m)" by (simp_all add: map_ok_def)
  from map_tree.insert_or_replace_refines [OF m(1) assms(2) m(2), of "new_entry (k, v)"] obtain u where
    "insert_or_replace map_ops map_dim entry_key (new_entry (k, v)) m = Some (list_get entry_key (Some k) (tree_items m), u)"
    "tree_ok map_ops u" "tree_items u = list_insert entry_key (new_entry (k, v)) (tree_items m)"
    by auto
  with m(2) show ?thesis
    by (simp add: tm_insert_or_replace_def tm_insert_def map_ok_def map_abs_def key_sorted_insert items_map_insert)
      (simp add: items_map_def)
qed

text \<open>\<open>remove\<close> and \<open>update\<close> cut the tree at the key.\<close>

lemma map_cut:
  assumes "map_ok m" "height m < STACK_CAPACITY"
  shows "\<exists>a cu e. cursor_slice map_ops map_dim (cmp (Some k)) BiasLeft (cursor_new map_dim m) = Some (a, cu)
    \<and> tree_ok map_ops a \<and> tree_items a = filter (\<lambda>x. entry_key x < Some k) (tree_items m)
    \<and> cursor_end map_dim cu = Some e
    \<and> (\<exists>cu' b. (case list_get entry_key (Some k) (tree_items m) of
         None \<Rightarrow> cmp (Some k) e \<noteq> Equal \<and> cu' = cu
       | Some x \<Rightarrow> cmp (Some k) e = Equal \<and> cursor_item cu = Some (Some x) \<and> cursor_next map_dim cu = Some cu')
     \<and> map_option fst (cursor_suffix map_ops map_dim cu') = Some b
     \<and> tree_ok map_ops b \<and> tree_items b = filter (\<lambda>x. Some k < entry_key x) (tree_items m))"
proof -
  let ?xs = "tree_items m"
  from assms have m: "tree_ok map_ops m" and sorted: "key_sorted entry_key ?xs" by (simp_all add: map_ok_def)
  have "dm_zero map_dim < Some k" by (simp add: map_dim_def)
  with map_tree.keyed_slice [OF map_tree.keyed_at_new [OF m assms(2) sorted] map_tree.zero_least, of "Some k"]
  obtain a cu q where
    a: "cursor_slice map_ops map_dim (cmp (Some k)) BiasLeft (cursor_new map_dim m) = Some (a, cu)"
      "tree_ok map_ops a" "tree_items a = filter (\<lambda>x. entry_key x < Some k) ?xs"
      "map_tree.keyed_at cu (filter (\<lambda>x. Some k \<le> entry_key x) ?xs) q" "cu_did_seek cu" "q < Some k"
    by blast
  from map_tree.keyed_found [OF a(4,5) sorted a(6)] obtain e where
    e: "cursor_end map_dim cu = Some e" "(case list_get entry_key (Some k) ?xs of
      None \<Rightarrow> cmp (Some k) e \<noteq> Equal \<and> map_tree.keyed_at cu (filter (\<lambda>x. Some k < entry_key x) ?xs) q
    | Some x \<Rightarrow> cmp (Some k) e = Equal \<and> cursor_item cu = Some (Some x)
        \<and> (\<exists>cu'. cursor_next map_dim cu = Some cu'
          \<and> map_tree.keyed_at cu' (filter (\<lambda>x. Some k < entry_key x) ?xs) (Some k)))"
    by blast
  then obtain cu' q' where
    next_cu: "case list_get entry_key (Some k) ?xs of
         None \<Rightarrow> cmp (Some k) e \<noteq> Equal \<and> cu' = cu
       | Some x \<Rightarrow> cmp (Some k) e = Equal \<and> cursor_item cu = Some (Some x) \<and> cursor_next map_dim cu = Some cu'"
      and at: "map_tree.keyed_at cu' (filter (\<lambda>x. Some k < entry_key x) ?xs) q'"
    by (cases "list_get entry_key (Some k) ?xs") auto
  from map_tree.keyed_suffix [OF at] obtain b cu'' where
    "cursor_suffix map_ops map_dim cu' = Some (b, cu'')" "tree_ok map_ops b"
    "tree_items b = filter (\<lambda>x. Some k < entry_key x) ?xs"
    by blast
  with a(1,2,3) e(1) next_cu show ?thesis by force
qed

lemma tm_remove_abs:
  assumes "map_ok m" "height m < STACK_CAPACITY"
  shows "\<exists>m'. tm_remove k m = Some (map_abs m k, m') \<and> map_ok m' \<and> map_abs m' = (map_abs m)(k := None)"
proof -
  let ?xs = "tree_items m"
  from assms have sorted: "key_sorted entry_key ?xs" by (simp add: map_ok_def)
  from map_cut [OF assms, of k] obtain a cu e cu' b where
    c: "cursor_slice map_ops map_dim (cmp (Some k)) BiasLeft (cursor_new map_dim m) = Some (a, cu)"
      "tree_ok map_ops a" "tree_items a = filter (\<lambda>x. entry_key x < Some k) ?xs" "cursor_end map_dim cu = Some e"
      "case list_get entry_key (Some k) ?xs of
         None \<Rightarrow> cmp (Some k) e \<noteq> Equal \<and> cu' = cu
       | Some x \<Rightarrow> cmp (Some k) e = Equal \<and> cursor_item cu = Some (Some x) \<and> cursor_next map_dim cu = Some cu'"
      "map_option fst (cursor_suffix map_ops map_dim cu') = Some b"
      "tree_ok map_ops b" "tree_items b = filter (\<lambda>x. Some k < entry_key x) ?xs"
    by blast
  from map_tree.append_tree_refines [OF c(2,7)] obtain u where
    u: "append_tree map_ops a b = Some u" "tree_ok map_ops u" "tree_items u = tree_items a @ tree_items b" by blast
  have items: "tree_items u = list_remove entry_key (Some k) ?xs"
    using filter_around [OF sorted, of "Some k"] u(3) c(3,8) by (simp add: list_remove_def)
  have "tm_remove k m = Some (map_abs m k, u)"
    using c(1,4,5,6) u(1)
    by (cases "list_get entry_key (Some k) ?xs") (auto simp: tm_remove_def map_abs_def items_map_def)
  moreover have "map_ok u" using u(2) items sorted by (simp add: map_ok_def list_remove_def key_sorted_filter)
  ultimately show ?thesis using items items_map_remove by (auto simp: map_abs_def)
qed


lemma tm_update_abs:
  assumes "map_ok m" "height m < STACK_CAPACITY"
  shows "\<exists>m'. tm_update k f m = Some (map_option (\<lambda>v. fst (f v)) (map_abs m k), m') \<and> map_ok m'
    \<and> map_abs m' = (map_abs m)(k := map_option (\<lambda>v. snd (f v)) (map_abs m k))"
proof -
  let ?xs = "tree_items m" and ?old = "list_get entry_key (Some k) (tree_items m)"
  from assms have sorted: "key_sorted entry_key ?xs" by (simp add: map_ok_def)
  from map_cut [OF assms, of k] obtain a cu e cu' b where
    c: "cursor_slice map_ops map_dim (cmp (Some k)) BiasLeft (cursor_new map_dim m) = Some (a, cu)"
      "tree_ok map_ops a" "tree_items a = filter (\<lambda>x. entry_key x < Some k) ?xs" "cursor_end map_dim cu = Some e"
      "case ?old of
         None \<Rightarrow> cmp (Some k) e \<noteq> Equal \<and> cu' = cu
       | Some x \<Rightarrow> cmp (Some k) e = Equal \<and> cursor_item cu = Some (Some x) \<and> cursor_next map_dim cu = Some cu'"
      "map_option fst (cursor_suffix map_ops map_dim cu') = Some b"
      "tree_ok map_ops b" "tree_items b = filter (\<lambda>x. Some k < entry_key x) ?xs"
    by blast
  show ?thesis
  proof (cases ?old)
    case None
    from map_tree.append_tree_refines [OF c(2,7)] obtain u where
      u: "append_tree map_ops a b = Some u" "tree_ok map_ops u" "tree_items u = tree_items a @ tree_items b" by blast
    have items: "tree_items u = list_remove entry_key (Some k) ?xs"
      using filter_around [OF sorted, of "Some k"] u(3) c(3,8) by (simp add: list_remove_def)
    have "tm_update k f m = Some (None, u)" using c(1,4,5,6) None u(1) by (auto simp: tm_update_def)
    with None u(2) items sorted items_map_remove [of k ?xs] show ?thesis
      by (simp add: map_ok_def map_abs_def list_remove_def key_sorted_filter) (simp add: items_map_def)
  next
    case (Some x)
    then have x: "me_key x = k" using list_get_key [of entry_key "Some k" ?xs x] by (simp add: entry_key_def)
    obtain r v where f: "f (me_value x) = (r, v)" by fastforce
    have entry: "x\<lparr>me_value := v\<rparr> = new_entry (k, v)" using x by (simp add: new_entry_def)
    from map_tree.push_item_refines [OF c(2), of "new_entry (k, v)"] obtain a' where
      a': "push_item map_ops a (new_entry (k, v)) = Some a'" "tree_ok map_ops a'"
        "tree_items a' = tree_items a @ [new_entry (k, v)]" by blast
    from map_tree.append_tree_refines [OF a'(2) c(7)] obtain u where
      u: "append_tree map_ops a' b = Some u" "tree_ok map_ops u" "tree_items u = tree_items a' @ tree_items b" by blast
    have items: "tree_items u = list_insert entry_key (new_entry (k, v)) ?xs"
      using u(3) a'(3) c(3,8) by (simp add: list_insert_def)
    have "tm_update k f m = Some (Some r, u)"
      using c(1,4,5,6) Some f a'(1) u(1) by (auto simp: tm_update_def entry)
    with Some f u(2) items sorted show ?thesis
      by (simp add: map_ok_def map_abs_def key_sorted_insert items_map_insert) (simp add: items_map_def)
  qed
qed

section \<open>Whole maps\<close>

lemma map_items_ok:
  "\<lbrakk>tree_ok map_ops u; tree_items u = xs; key_sorted entry_key xs\<rbrakk> \<Longrightarrow> map_ok u \<and> map_abs u = items_map xs"
  by (simp add: map_ok_def map_abs_def)

lemma retain_loop_items:
  "\<lbrakk>cursor_at (map_ops :: (('k::linorder, 'v) map_entry, 'k option) summary_ops) map_dim cu xs p;
     cu_did_seek cu; tree_ok map_ops t\<rbrakk> \<Longrightarrow>
   \<exists>u. retain_loop P cu t = Some u \<and> tree_ok map_ops u
     \<and> tree_items u = tree_items t @ filter (\<lambda>e. P (me_key e) (me_value e)) xs"
proof (induction xs arbitrary: cu p t)
  case Nil
  with cursor_item_at(1) [OF Nil(1,2)] show ?case by (subst retain_loop.simps) simp
next
  case (Cons x xs)
  note item = cursor_item_at(1) [OF Cons.prems(1,2)]
  from map_tree.cursor_next_at [OF Cons.prems(1)] Cons.prems(2) obtain cu' p' where
    n: "cursor_next map_dim cu = Some cu'" "cursor_at map_ops map_dim cu' xs p'" "cu_did_seek cu'"
    by (auto simp: map_tree.after_current_def)
  from map_tree.push_item_refines [OF Cons.prems(3), of x] obtain t' where
    t': "push_item map_ops t x = Some t'" "tree_ok map_ops t'" "tree_items t' = tree_items t @ [x]" by blast
  show ?case
  proof (cases "P (me_key x) (me_value x)")
    case True
    with Cons.IH [OF n(2,3) t'(2)] item n(1) t' show ?thesis by (subst retain_loop.simps) simp
  next
    case False
    with Cons.IH [OF n(2,3) Cons.prems(3)] item n(1) show ?thesis by (subst retain_loop.simps) simp
  qed
qed

lemma tm_retain_abs:
  assumes "map_ok m" "height m < STACK_CAPACITY"
  shows "\<exists>m'. tm_retain P m = Some m' \<and> map_ok m'
    \<and> map_abs m' = (\<lambda>k. case map_abs m k of Some v \<Rightarrow> if P k v then Some v else None | None \<Rightarrow> None)"
proof -
  from assms have m: "tree_ok map_ops m" and sorted: "key_sorted entry_key (tree_items m)" by (simp_all add: map_ok_def)
  from map_tree.cursor_next_at [OF cursor_at_new [OF m assms(2)]] obtain cu p where
    cu: "cursor_next map_dim (cursor_new map_dim m) = Some cu" "cursor_at map_ops map_dim cu (tree_items m) p"
      "cu_did_seek cu"
    by (auto simp: map_tree.after_current_def cursor_new_def)
  have "tree_ok map_ops (tree_new map_ops)" by (simp add: tree_ok_def)
  from retain_loop_items [OF cu(2,3) this] obtain u where
    "retain_loop P cu (tree_new map_ops) = Some u" "tree_ok map_ops u"
    "tree_items u = filter (\<lambda>e. P (me_key e) (me_value e)) (tree_items m)"
    by (auto simp: tree_new_def)
  with cu(1) sorted items_map_filter [OF sorted] show ?thesis
    by (auto simp: tm_retain_def map_ok_def map_abs_def key_sorted_filter)
qed

text \<open>A target is monotone when the keys it lies after form a prefix.\<close>

definition ascending_target :: "('k::linorder \<Rightarrow> ordering) \<Rightarrow> bool" where
  "ascending_target t \<longleftrightarrow> (\<forall>a b. a < b \<longrightarrow> t b = Greater \<longrightarrow> t a = Greater)"

lemma ascending_cmp: "ascending_target (cmp k)"
  by (auto simp: ascending_target_def cmp_def split: if_splits)

lemma target_in_map:
  "target_in (map_target t) BiasLeft p \<longleftrightarrow> (case p of None \<Rightarrow> False | Some k \<Rightarrow> t k \<noteq> Greater)"
  by (cases p; cases "t (the p)") (auto simp: target_in_def map_target_def)

lemma ordered_target:
  assumes "ascending_target t" "key_sorted entry_key xs"
  shows "ordered_ends (target_in (map_target t) BiasLeft) (map entry_key xs)"
proof -
  from assms(2) have "sorted_wrt (\<lambda>a b. target_in (map_target t) BiasLeft a \<longrightarrow> target_in (map_target t) BiasLeft b)
      (map entry_key xs)"
    unfolding key_sorted_def
    by (rule sorted_wrt_mono_rel [rotated])
      (use assms(1) in \<open>auto simp: target_in_map ascending_target_def entry_key_def split: option.splits\<close>)
  then show ?thesis by (simp add: ordered_ends_def)
qed

lemma target_splits:
  assumes t: "ascending_target t" and sorted: "key_sorted entry_key xs"
    and split: "seek_splits map_ops map_dim (target_in (map_target t) BiasLeft) xs None ys zs"
  shows "ys = filter (\<lambda>e. t (me_key e) = Greater) xs" and "zs = filter (\<lambda>e. t (me_key e) \<noteq> Greater) xs"
proof -
  from split have xs: "xs = ys @ zs" by (simp add: seek_splits_def)
  have ends: "item_ends map_ops map_dim None ys = map entry_key ys"
    using sorted xs by (intro map_tree.item_ends_keys) (auto simp: key_sorted_append)
  with split have ys: "\<forall>y \<in> set ys. t (me_key y) = Greater"
    by (auto simp: seek_splits_def target_in_map entry_key_def)
  have "zs \<noteq> [] \<longrightarrow> t (me_key (hd zs)) \<noteq> Greater"
    using split by (auto simp: seek_splits_def target_in_map map_dim_def map_ops_def entry_key_def)
  then have zs: "\<forall>z \<in> set zs. t (me_key z) \<noteq> Greater"
    using sorted t xs by (cases zs) (auto simp: key_sorted_append key_sorted_Cons entry_key_def ascending_target_def)
  from ys zs xs show "ys = filter (\<lambda>e. t (me_key e) = Greater) xs" "zs = filter (\<lambda>e. t (me_key e) \<noteq> Greater) xs"
    by (auto simp: filter_id_conv filter_empty_conv)
qed


lemma range_kept:
  assumes "key_sorted entry_key xs" "ascending_target start" "ascending_target stop"
    and "\<forall>k. start k = Greater \<longrightarrow> stop k = Greater"
  shows "filter (\<lambda>e. start (me_key e) = Greater) xs @ filter (\<lambda>e. stop (me_key e) \<noteq> Greater) xs =
    filter (\<lambda>e. start (me_key e) = Greater \<or> stop (me_key e) \<noteq> Greater) xs"
  using assms(1)
proof (induction xs)
  case (Cons x xs)
  show ?case
  proof (cases "start (me_key x) = Greater")
    case False
    with Cons.prems assms(2) have "\<forall>y \<in> set xs. start (me_key y) \<noteq> Greater"
      by (auto simp: key_sorted_Cons entry_key_def ascending_target_def)
    then have "filter (\<lambda>e. start (me_key e) = Greater) xs = []"
        "filter (\<lambda>e. start (me_key e) = Greater \<or> stop (me_key e) \<noteq> Greater) xs = filter (\<lambda>e. stop (me_key e) \<noteq> Greater) xs"
      by (auto simp: filter_empty_conv intro!: filter_cong)
    with False show ?thesis by simp
  qed (use Cons assms(4) in \<open>auto simp: key_sorted_Cons\<close>)
qed simp

text \<open>\<open>remove_range\<close> drops the entries from the start to the end, exclusively.\<close>

lemma tm_remove_range_abs:
  assumes "map_ok m" "height m < STACK_CAPACITY" and targets: "ascending_target start" "ascending_target stop"
    and before: "\<forall>k. start k = Greater \<longrightarrow> stop k = Greater"
  shows "\<exists>m'. tm_remove_range start stop m = Some m' \<and> map_ok m'
    \<and> map_abs m' = (\<lambda>k. if start k \<noteq> Greater \<and> stop k = Greater then None else map_abs m k)"
proof -
  let ?xs = "tree_items m" and ?keep = "\<lambda>k _. start k = Greater \<or> stop k \<noteq> Greater"
  from assms have m: "tree_ok map_ops m" and sorted: "key_sorted entry_key ?xs" by (simp_all add: map_ok_def)
  note new = cursor_at_new [OF m assms(2), of map_dim]
  have zero: "dm_zero map_dim = None" by (simp add: map_dim_def)
  have new_tree: "cu_tree (cursor_new map_dim m) = m" by (simp add: cursor_new_def)
  have ends: "item_ends map_ops map_dim None ?xs = map entry_key ?xs"
    by (rule map_tree.item_ends_keys [OF sorted]) simp
  have start_ge: "map_target t (dm_zero map_dim) \<noteq> Less" for t by (simp add: map_target_def zero)
  have ordered: "ordered_ends (target_in (map_target t) BiasLeft) (item_ends map_ops map_dim (dm_zero map_dim) ?xs)"
    if "ascending_target t" for t
    unfolding zero ends by (rule ordered_target [OF that sorted])
  from map_tree.cursor_slice_splits [OF new start_ge ordered [OF targets(1)]]
  obtain a cu ys zs p where a: "cursor_slice map_ops map_dim (map_target start) BiasLeft (cursor_new map_dim m) = Some (a, cu)"
      "seek_splits map_ops map_dim (target_in (map_target start) BiasLeft) ?xs None ys zs" "tree_ok map_ops a"
      "tree_items a = ys" "cursor_at map_ops map_dim cu zs p" "cu_tree cu = m"
    unfolding zero new_tree by blast
  from map_tree.cursor_seek_splits [where target = "map_target stop", OF a(5) start_ge, unfolded a(6),
      OF ordered [OF targets(2)]]
  obtain found cu' us vs q where b: "cursor_seek map_dim (map_target stop) BiasLeft cu = Some (found, cu')"
      "seek_splits map_ops map_dim (target_in (map_target stop) BiasLeft) ?xs None us vs"
      "cursor_at map_ops map_dim cu' vs q"
    unfolding zero by blast
  from map_tree.cursor_suffix_all [OF b(3)] obtain d cu'' where
    d: "cursor_suffix map_ops map_dim cu' = Some (d, cu'')" "tree_ok map_ops d" "tree_items d = vs" by blast
  from map_tree.append_tree_refines [OF a(3) d(2)] obtain u where
    u: "append_tree map_ops a d = Some u" "tree_ok map_ops u" "tree_items u = ys @ vs" using a(4) d(3) by auto
  have "ys @ vs = filter (\<lambda>e. ?keep (me_key e) (me_value e)) ?xs"
    unfolding target_splits(1) [OF targets(1) sorted a(2)] target_splits(2) [OF targets(2) sorted b(2)]
    by (rule range_kept [OF sorted targets before])
  with u sorted have "map_ok u" "map_abs u = items_map (filter (\<lambda>e. ?keep (me_key e) (me_value e)) ?xs)"
    by (simp_all add: map_ok_def map_abs_def key_sorted_filter)
  moreover have "tm_remove_range start stop m = Some u" using a(1) b(1) d(1) u(1) by (simp add: tm_remove_range_def)
  ultimately show ?thesis
    using items_map_filter [OF sorted, of ?keep]
    by (auto simp: map_abs_def fun_eq_iff split: option.splits)
qed

section \<open>Iteration and batches\<close>

definition entry_list :: "('k, 'v) tree_map \<Rightarrow> ('k \<times> 'v) list" where
  "entry_list m = map entry_pair (tree_items m)"

lemma map_of_entries: "map_of (map entry_pair xs) = items_map xs"
proof (rule ext)
  fix k
  show "map_of (map entry_pair xs) k = items_map xs k"
    by (induction xs) (simp_all add: items_map_def list_get_def entry_pair_def entry_key_def)
qed

lemma entry_list_sorted:
  assumes "map_ok m"
  shows "sorted_wrt (<) (map fst (entry_list m))" and "map_of (entry_list m) = map_abs m"
  using assms
  by (simp_all add: entry_list_def map_ok_def map_abs_def map_of_entries key_sorted_def sorted_wrt_map
      entry_pair_def entry_key_def)

lemma tm_iter_items:
  assumes "tree_ok map_ops m" "height m < STACK_CAPACITY"
  shows "tm_iter m = Some (entry_list m)" and "tm_values m = Some (map snd (entry_list m))"
  using tree_iterator.collect_items_list [OF iter_new_at [OF assms]]
  by (simp_all add: tm_iter_def tm_values_def entry_list_def entry_pair_def o_def)

lemma tm_ends:
  assumes "tree_ok map_ops m"
  shows "tm_first m = Some (if entry_list m = [] then None else Some (hd (entry_list m)))"
    and "tm_last m = Some (if entry_list m = [] then None else Some (last (entry_list m)))"
  using tree_ends_refine [OF assms]
  by (simp_all add: tm_first_def tm_last_def entry_list_def hd_map last_map)

lemma cmp_target: "cmp (Some k) = map_target (cmp k)"
  by (rule ext) (auto simp: cmp_def map_target_def less_option_None split: option.splits)

lemma tm_iter_from_items:
  assumes "map_ok m" "height m < STACK_CAPACITY"
  shows "tm_iter_from k m = Some (filter (\<lambda>(k', _). k \<le> k') (entry_list m))"
proof -
  let ?xs = "tree_items m"
  from assms have m: "tree_ok map_ops m" and sorted: "key_sorted entry_key ?xs" by (simp_all add: map_ok_def)
  have zero: "dm_zero map_dim = None" by (simp add: map_dim_def)
  have ends: "item_ends map_ops map_dim None ?xs = map entry_key ?xs"
    by (rule map_tree.item_ends_keys [OF sorted]) simp
  from map_tree.cursor_seek_splits [where target = "map_target (cmp k)" and b = BiasLeft,
      OF cursor_at_new [OF m assms(2)]] ordered_target [OF ascending_cmp sorted, of k]
  obtain found cu ys zs p where s: "cursor_seek map_dim (map_target (cmp k)) BiasLeft (cursor_new map_dim m) = Some (found, cu)"
      "seek_splits map_ops map_dim (target_in (map_target (cmp k)) BiasLeft) ?xs None ys zs"
      "cursor_at map_ops map_dim cu zs p"
    by (auto simp: zero ends cursor_new_def map_target_def)
  from s(3) have "cursor_iter_at map_ops map_dim cu zs" by (auto simp: cursor_iter_at_def)
  note collected = map_tree.cursor_iterator.collect_items_list [OF this]
  have "(cmp k k' \<noteq> Greater) = (k \<le> k')" for k' by (auto simp: cmp_def)
  with target_splits(2) [OF ascending_cmp sorted s(2)] have "zs = filter (\<lambda>e. k \<le> me_key e) ?xs" by simp
  with s(1) collected show ?thesis
    by (simp add: tm_iter_from_def cmp_target entry_list_def filter_map o_def entry_pair_def)
qed

lemma new_entry_pair [simp]: "new_entry (entry_pair e) = e"
  by (simp add: new_entry_def entry_pair_def)

lemma fold_update_map_add: "fold (\<lambda>(k, v) m. m(k \<mapsto> v)) kvs m = m ++ map_of (rev kvs)"
  by (induction kvs arbitrary: m) (auto simp: map_add_def fun_eq_iff split: option.splits)

lemma tm_extend_abs:
  assumes "map_ok m" "height m < STACK_CAPACITY" and keys: "distinct (map fst kvs)"
  shows "\<exists>m'. tm_extend kvs m = Some m' \<and> map_ok m' \<and> map_abs m' = map_abs m ++ map_of kvs"
proof -
  let ?es = "map (\<lambda>kv. Insert (new_entry kv)) kvs :: (_, _ option) tree_edit list"
  from assms have m: "tree_ok map_ops m" and sorted: "key_sorted entry_key (tree_items m)" by (simp_all add: map_ok_def)
  have "map (edit_key entry_key) ?es = map Some (map fst kvs)"
    by (simp add: edit_key_def entry_key_def new_entry_def)
  with keys have "distinct (map (edit_key entry_key) ?es)" by (simp add: distinct_map inj_on_def)
  from map_tree.edit_tree_refines [OF m assms(2) sorted this] fold_insert_map [OF sorted, of kvs]
  obtain u where "tm_extend kvs m = Some u" "map_ok u"
      "map_abs u = fold (\<lambda>(k, v) m. m(k \<mapsto> v)) kvs (map_abs m)"
    by (auto simp: tm_extend_def map_ok_def map_abs_def)
  moreover have "map_of (rev kvs) = map_of kvs" using keys by (intro map_of_inject_set [THEN iffD2]) (simp_all add: rev_map [symmetric])
  ultimately show ?thesis by (simp add: fold_update_map_add)
qed

lemma tm_insert_tree_abs:
  assumes "map_ok m" "height m < STACK_CAPACITY" and other: "map_ok n" "height n < STACK_CAPACITY"
  shows "\<exists>m'. tm_insert_tree n m = Some m' \<and> map_ok m' \<and> map_abs m' = map_abs m ++ map_abs n"
proof -
  have "tm_insert_tree n m = tm_extend (entry_list n) m"
    using tm_iter_items(1) [of n] other by (simp add: tm_insert_tree_def tm_extend_def map_ok_def)
  moreover have "distinct (map fst (entry_list n))"
    using entry_list_sorted(1) [OF other(1)] by (simp add: strict_sorted_iff)
  ultimately show ?thesis using tm_extend_abs [OF assms(1,2)] entry_list_sorted(2) [OF other(1)] by fastforce
qed

lemma tm_from_ordered_entries_abs:
  assumes "sorted_wrt (<) (map fst kvs)"
  shows "\<exists>m. tm_from_ordered_entries kvs = Some m \<and> map_ok m \<and> entry_list m = kvs \<and> map_abs m = map_of kvs"
proof -
  have pairs: "map entry_pair (map new_entry kvs) = kvs" by (induction kvs) (simp_all add: entry_pair_def new_entry_def)
  from map_tree.tree_from_iter_refines [of "map new_entry kvs"] obtain m where
    "tm_from_ordered_entries kvs = Some m" "tree_ok map_ops m" "tree_items m = map new_entry kvs"
    by (auto simp: tm_from_ordered_entries_def)
  moreover have "key_sorted entry_key (map new_entry kvs)"
    using assms by (simp add: key_sorted_def sorted_wrt_map entry_key_def new_entry_def)
  moreover have "items_map (map new_entry kvs) = map_of kvs" using map_of_entries [of "map new_entry kvs"] pairs by simp
  ultimately show ?thesis using pairs by (simp add: map_ok_def map_abs_def entry_list_def)
qed


section \<open>The map and the set\<close>

definition sample_map :: "(nat, nat) tree_map" where
  "sample_map = Leaf (Some 3) [new_entry (1, 10), new_entry (3, 30)] [Some 1, Some 3]"

lemma sample_map_ok: "map_ok sample_map" "height sample_map < STACK_CAPACITY"
  by (simp_all add: map_ok_def sample_map_def tree_ok_def TREE_BASE_def map_ops_def new_entry_def entry_key_def
      sum_summaries_def key_sorted_def STACK_CAPACITY_def)

text \<open>C11. A tree map behaves as a finite map. Lookup, insertion, removal, updating a value in place and
  filtering never panic, keep the keys strictly ascending, return the old value (or the result of
  the closure), and have on the map the effect of the map operation.\<close>

theorem tree_map_refines_map:
  assumes "map_ok m" "height m < STACK_CAPACITY"
  shows "tm_get k m = map_abs m k
    \<and> (\<exists>m'. tm_insert_or_replace k v m = Some (map_abs m k, m') \<and> map_ok m' \<and> map_abs m' = (map_abs m)(k \<mapsto> v))
    \<and> (\<exists>m'. tm_remove k m = Some (map_abs m k, m') \<and> map_ok m' \<and> map_abs m' = (map_abs m)(k := None))
    \<and> (\<exists>m'. tm_update k f m = Some (map_option (\<lambda>v. fst (f v)) (map_abs m k), m') \<and> map_ok m'
        \<and> map_abs m' = (map_abs m)(k := map_option (\<lambda>v. snd (f v)) (map_abs m k)))
    \<and> (\<exists>m'. tm_retain P m = Some m' \<and> map_ok m'
        \<and> map_abs m' = (\<lambda>k. case map_abs m k of Some v \<Rightarrow> if P k v then Some v else None | None \<Rightarrow> None))"
  using tm_get_abs [OF assms(1)] tm_insert_abs [OF assms] tm_remove_abs [OF assms] tm_update_abs [OF assms]
    tm_retain_abs [OF assms]
  by blast

theorem tree_map_refines_map_witness:
  "tm_get 3 sample_map = Some 30 \<and> (\<exists>m'. tm_remove 3 sample_map = Some (Some 30, m') \<and> map_abs m' 3 = None)"
proof -
  have "map_abs sample_map 3 = Some 30"
    by (simp add: map_abs_def items_map_def sample_map_def list_get_def new_entry_def entry_key_def)
  with tree_map_refines_map [OF sample_map_ok, of 3 0 "\<lambda>v. ((), v)" "\<lambda>_ _. True"] show ?thesis by auto
qed

text \<open>Maps combine as maps do: inserting a whole tree is the union in which the inserted tree wins, and
  extending by entries with distinct keys updates each of them. Iteration returns the entries of the
  map in ascending order of the keys.\<close>

theorem tree_map_batches:
  assumes "map_ok m" "height m < STACK_CAPACITY" "map_ok n" "height n < STACK_CAPACITY"
    and "distinct (map fst kvs)"
  shows "(\<exists>m'. tm_insert_tree n m = Some m' \<and> map_ok m' \<and> map_abs m' = map_abs m ++ map_abs n)
    \<and> (\<exists>m'. tm_extend kvs m = Some m' \<and> map_ok m' \<and> map_abs m' = map_abs m ++ map_of kvs)
    \<and> (\<exists>entries. tm_iter m = Some entries \<and> sorted_wrt (<) (map fst entries) \<and> map_of entries = map_abs m)"
  using tm_insert_tree_abs [OF assms(1-4)] tm_extend_abs [OF assms(1,2,5)] tm_iter_items(1) [of m]
    entry_list_sorted [OF assms(1)] assms(1,2)
  by (auto simp: map_ok_def)

theorem tree_map_batches_witness:
  "\<exists>m'. tm_extend [(2, 20), (1, 11)] sample_map = Some m' \<and> map_abs m' 1 = Some 11 \<and> map_abs m' 3 = Some 30"
proof -
  have "map_abs sample_map 3 = Some 30"
    by (simp add: map_abs_def items_map_def sample_map_def list_get_def new_entry_def entry_key_def)
  with tree_map_batches [OF sample_map_ok sample_map_ok, of "[(2, 20), (1, 11)]"] show ?thesis by auto
qed

text \<open>Removing a range removes exactly the keys from its start up to, and without, its end.\<close>

theorem tree_map_remove_range:
  assumes "map_ok m" "height m < STACK_CAPACITY" "start \<le> stop"
  shows "\<exists>m'. tm_remove_range (cmp start) (cmp stop) m = Some m' \<and> map_ok m'
    \<and> map_abs m' = (\<lambda>k. if start \<le> k \<and> k < stop then None else map_abs m k)"
proof -
  have "(cmp a k = Greater) = (k < a)" for a k :: 'a by (auto simp: cmp_def)
  moreover have "\<forall>k < start. k < stop" using assms(3) by auto
  ultimately show ?thesis
    using tm_remove_range_abs [OF assms(1,2) ascending_cmp ascending_cmp, of start stop] by (simp add: not_less)
qed

theorem tree_map_remove_range_witness:
  "\<exists>m'. tm_remove_range (cmp 2) (cmp 4) sample_map = Some m' \<and> map_abs m' 3 = None"
  using tree_map_remove_range [OF sample_map_ok, of 2 4] by auto

text \<open>A tree set behaves as a finite set.\<close>

theorem tree_set_refines_set:
  assumes "map_ok s" "height s < STACK_CAPACITY"
  shows "ts_contains k s \<longleftrightarrow> k \<in> dom (map_abs s)"
    and "\<exists>s'. ts_insert k s = Some s' \<and> map_ok s' \<and> dom (map_abs s') = insert k (dom (map_abs s))"
    and "\<exists>s'. ts_remove k s = Some (k \<in> dom (map_abs s), s') \<and> map_ok s' \<and> dom (map_abs s') = dom (map_abs s) - {k}"
    and "\<exists>ks. ts_iter s = Some ks \<and> sorted_wrt (<) ks \<and> set ks = dom (map_abs s)"
proof -
  show "ts_contains k s \<longleftrightarrow> k \<in> dom (map_abs s)" by (simp add: ts_contains_def tm_get_abs [OF assms(1)] domIff)
  show "\<exists>s'. ts_insert k s = Some s' \<and> map_ok s' \<and> dom (map_abs s') = insert k (dom (map_abs s))"
    using tm_insert_abs [OF assms, of k "()"] by (auto simp: ts_insert_def)
  show "\<exists>s'. ts_remove k s = Some (k \<in> dom (map_abs s), s') \<and> map_ok s' \<and> dom (map_abs s') = dom (map_abs s) - {k}"
    using tm_remove_abs [OF assms, of k] by (auto simp: ts_remove_def domIff)
  show "\<exists>ks. ts_iter s = Some ks \<and> sorted_wrt (<) ks \<and> set ks = dom (map_abs s)"
    using tm_iter_items(1) [of s] entry_list_sorted [OF assms(1)] assms dom_map_of_conv_image_fst [of "entry_list s"]
    by (simp add: ts_iter_def map_ok_def)
qed

text \<open>Extending a map by entries that repeat a key keeps both entries: the batch of edits compares each
  edit with the entries of the old tree only. Removing the key then removes one of them, and the key
  is still found.\<close>

theorem extend_keeps_duplicates:
  "(do {
      m \<leftarrow> tm_extend [(1 :: nat, 10 :: nat), (1, 11)] tm_default;
      (removed, m') \<leftarrow> tm_remove 1 m;
      Some (entry_list m, removed, tm_get 1 m')
    }) = Some ([(1, 10), (1, 11)], Some 10, Some 11)"
  by code_simp

end
