(* ===== verification/UndoMap.thy ===== *)
theory UndoMap
  imports TreeIter Clock
begin

text \<open>
  The undo map of a text buffer (\<open>undo_map.rs\<close>): for each edit and each undo operation that concerns
  it, how often the edit had been undone. An edit is undone when the largest of its counts is odd.
  The map is a sum tree keyed by edit and undo; replicas that insert the same undo operations in
  different orders agree.
\<close>

section \<open>Keys and entries\<close>

datatype undo_map_key = UndoMapKey (uk_edit_id: lamport) (uk_undo_id: lamport)

text \<open>The derived order: by edit, then by undo.\<close>

instantiation undo_map_key :: linorder
begin

definition less_eq_undo_map_key :: "undo_map_key \<Rightarrow> undo_map_key \<Rightarrow> bool" where
  "less_eq_undo_map_key a b \<longleftrightarrow>
     uk_edit_id a < uk_edit_id b \<or> uk_edit_id a = uk_edit_id b \<and> uk_undo_id a \<le> uk_undo_id b"

definition less_undo_map_key :: "undo_map_key \<Rightarrow> undo_map_key \<Rightarrow> bool" where
  "less_undo_map_key a b \<longleftrightarrow>
     uk_edit_id a < uk_edit_id b \<or> uk_edit_id a = uk_edit_id b \<and> uk_undo_id a < uk_undo_id b"

instance
  by standard (auto simp: less_eq_undo_map_key_def less_undo_map_key_def undo_map_key.expand)

end

record undo_map_entry =
  ue_key :: undo_map_key
  ue_undo_count :: u32

definition undo_zero :: undo_map_key where
  "undo_zero = UndoMapKey lamport_MIN lamport_MIN"

definition undo_ops :: "(undo_map_entry, undo_map_key) summary_ops" where
  "undo_ops = \<lparr>so_zero = undo_zero, so_add = max, so_summary = ue_key\<rparr>"

text \<open>A summary is a dimension of itself.\<close>

definition undo_dim :: "(undo_map_key, undo_map_key) dimension_ops" where
  "undo_dim = \<lparr>dm_zero = undo_zero, dm_add = max\<rparr>"

type_synonym undo_map = "(undo_map_entry, undo_map_key) sum_tree"

text \<open>An undo operation; the hash map of its counts as the list of its entries.\<close>

record undo_operation =
  uo_timestamp :: lamport
  uo_version :: global
  uo_counts :: "(lamport \<times> u32) list"

section \<open>Operations\<close>

definition undo_default :: undo_map where
  "undo_default = tree_new undo_ops"

definition undo_edits :: "undo_operation \<Rightarrow> (undo_map_entry, undo_map_key) tree_edit list" where
  "undo_edits undo =
     map (\<lambda>(edit_id, n). Insert \<lparr>ue_key = UndoMapKey edit_id (uo_timestamp undo), ue_undo_count = n\<rparr>)
       (uo_counts undo)"

definition undo_insert :: "undo_operation \<Rightarrow> undo_map \<Rightarrow> undo_map option" where
  "undo_insert undo self = map_option snd (edit_tree undo_ops undo_dim ue_key (undo_edits undo) self)"

definition count_body ::
  "lamport \<Rightarrow> (lamport \<Rightarrow> bool) \<Rightarrow> undo_map_entry \<Rightarrow> u32 \<Rightarrow> u32 + u32" where
  "count_body edit_id counted e n =
     (if uk_edit_id (ue_key e) \<noteq> edit_id then Inl n
      else if counted (uk_undo_id (ue_key e)) then Inr (max n (ue_undo_count e))
      else Inr n)"

definition undo_count :: "lamport \<Rightarrow> undo_map \<Rightarrow> u32 option" where
  "undo_count edit_id self = do {
     (_, cu) \<leftarrow> cursor_seek undo_dim (cmp (UndoMapKey edit_id lamport_MIN)) BiasLeft (cursor_new undo_dim self);
     for_loop (cursor_iter_next undo_dim) (count_body edit_id (\<lambda>_. True)) 0 cu
   }"

definition is_undone :: "lamport \<Rightarrow> undo_map \<Rightarrow> bool option" where
  "is_undone edit_id self = map_option (\<lambda>n. n mod 2 = 1) (undo_count edit_id self)"

definition was_undone :: "lamport \<Rightarrow> global \<Rightarrow> undo_map \<Rightarrow> bool option" where
  "was_undone edit_id version self = do {
     (_, cu) \<leftarrow> cursor_seek undo_dim (cmp (UndoMapKey edit_id lamport_MIN)) BiasLeft (cursor_new undo_dim self);
     n \<leftarrow> for_loop (cursor_iter_next undo_dim) (count_body edit_id (observed version)) 0 cu;
     Some (n mod 2 = 1)
   }"

section \<open>The laws hold for undo entries\<close>

lemma lamport_MIN_least [simp]: "lamport_MIN \<le> t"
  by (cases t; cases "ts_replica t") (auto simp: less_eq_lamport_def lamport_MIN_def less_eq_replica_id_def
      order_le_less word_gt_0)

lemma undo_zero_least [simp]: "undo_zero \<le> k"
  by (cases k) (auto simp: less_eq_undo_map_key_def undo_zero_def order_le_less [symmetric])

interpretation undo_tree: keyed_laws undo_ops undo_dim ue_key
  by unfold_locales (auto simp: undo_ops_def undo_dim_def max.assoc max_def)

definition undo_ok :: "undo_map \<Rightarrow> bool" where
  "undo_ok m \<longleftrightarrow> tree_ok undo_ops m \<and> key_sorted ue_key (tree_items m)"

context keyed_laws
begin

lemma keyed_seek:
  assumes t: "tree_ok ops t" "height t < STACK_CAPACITY" and sorted: "key_sorted key (tree_items t)"
  shows "\<exists>found cu. cursor_seek dim (cmp k) BiasLeft (cursor_new dim t) = Some (found, cu)
    \<and> cursor_iter_at ops dim cu (filter (\<lambda>x. k \<le> key x) (tree_items t))"
proof -
  have reset: "cursor_reset dim (cursor_new dim t) = cursor_new dim t"
    by (simp add: cursor_reset_def cursor_new_def)
  from keyed_seek_forward [OF keyed_at_new [OF t sorted] zero_least, of k] show ?thesis
    by (auto simp: cursor_seek_def reset keyed_at_def cursor_iter_at_def)
qed

end

section \<open>Counting\<close>

text \<open>The largest count recorded for an edit by the undo operations that are counted.\<close>

definition largest_count :: "lamport \<Rightarrow> (lamport \<Rightarrow> bool) \<Rightarrow> undo_map_entry list \<Rightarrow> u32" where
  "largest_count edit_id counted xs =
     Max (insert 0 (ue_undo_count ` {x \<in> set xs. uk_edit_id (ue_key x) = edit_id \<and> counted (uk_undo_id (ue_key x))}))"

lemma Max_insert_max: "finite S \<Longrightarrow> Max (insert (max a b) S) = Max (insert a (insert b S))" for a :: "'a::linorder"
  by (cases "S = {}") (simp_all add: max.assoc)

lemma list_for_count:
  "\<lbrakk>key_sorted ue_key xs; \<forall>x \<in> set xs. UndoMapKey e lamport_MIN \<le> ue_key x\<rbrakk> \<Longrightarrow>
   list_for (count_body e counted) n xs =
     Max (insert n (ue_undo_count ` {x \<in> set xs. uk_edit_id (ue_key x) = e \<and> counted (uk_undo_id (ue_key x))}))"
proof (induction xs arbitrary: n)
  case (Cons x xs)
  let ?S = "\<lambda>xs. {x \<in> set xs. uk_edit_id (ue_key x) = e \<and> counted (uk_undo_id (ue_key x))}"
  show ?case
  proof (cases "uk_edit_id (ue_key x) = e")
    case True
    let ?n = "if counted (uk_undo_id (ue_key x)) then max n (ue_undo_count x) else n"
    have "list_for (count_body e counted) n (x # xs) = list_for (count_body e counted) ?n xs"
      using True by (simp add: count_body_def)
    also have "\<dots> = Max (insert ?n (ue_undo_count ` ?S xs))"
      using Cons by (intro Cons.IH) (auto simp: key_sorted_Cons)
    also have "\<dots> = Max (insert n (ue_undo_count ` ?S (x # xs)))"
    proof (cases "counted (uk_undo_id (ue_key x))")
      case c: True
      then have "?S (x # xs) = insert x (?S xs)" using True by auto
      with c show ?thesis by (simp only: image_insert if_True) (simp add: Max_insert_max)
    next
      case False
      then have "?S (x # xs) = ?S xs" by auto
      with False show ?thesis by simp
    qed
    finally show ?thesis .
  next
    case False
    with Cons.prems have "e < uk_edit_id (ue_key x)" by (auto simp: less_eq_undo_map_key_def)
    with Cons.prems have none: "?S (x # xs) = {}"
      by (auto simp: key_sorted_Cons less_undo_map_key_def)
    show ?thesis unfolding none using False by (simp add: count_body_def)
  qed
qed simp

lemma count_items:
  assumes "undo_ok m" "height m < STACK_CAPACITY"
  shows "\<exists>found cu. cursor_seek undo_dim (cmp (UndoMapKey e lamport_MIN)) BiasLeft (cursor_new undo_dim m) = Some (found, cu)
    \<and> for_loop (cursor_iter_next undo_dim) (count_body e counted) 0 cu = Some (largest_count e counted (tree_items m))"
proof -
  let ?xs = "tree_items m" and ?k = "UndoMapKey e lamport_MIN"
  from assms have m: "tree_ok undo_ops m" and sorted: "key_sorted ue_key ?xs" by (simp_all add: undo_ok_def)
  let ?S = "\<lambda>xs. {x \<in> set xs. uk_edit_id (ue_key x) = e \<and> counted (uk_undo_id (ue_key x))}"
  from undo_tree.keyed_seek [OF m assms(2) sorted, of ?k] obtain found cu where
    cu: "cursor_seek undo_dim (cmp ?k) BiasLeft (cursor_new undo_dim m) = Some (found, cu)"
      "cursor_iter_at undo_ops undo_dim cu (filter (\<lambda>x. ?k \<le> ue_key x) ?xs)"
    by blast
  have "?S (filter (\<lambda>x. ?k \<le> ue_key x) ?xs) = ?S ?xs" by (auto simp: less_eq_undo_map_key_def)
  with list_for_count [OF key_sorted_filter [OF sorted, of "\<lambda>x. ?k \<le> ue_key x"], of e counted 0]
  have "list_for (count_body e counted) 0 (filter (\<lambda>x. ?k \<le> ue_key x) ?xs) = largest_count e counted ?xs"
    by (simp add: largest_count_def)
  with undo_tree.cursor_iterator.for_loop_list [OF cu(2), of "count_body e counted" 0] cu(1) show ?thesis by simp
qed

lemma undo_count_items:
  assumes "undo_ok m" "height m < STACK_CAPACITY"
  shows "undo_count e m = Some (largest_count e (\<lambda>_. True) (tree_items m))"
    and "is_undone e m = Some (largest_count e (\<lambda>_. True) (tree_items m) mod 2 = 1)"
    and "was_undone e v m = Some (largest_count e (observed v) (tree_items m) mod 2 = 1)"
  using count_items [OF assms, of e "\<lambda>_. True"] count_items [OF assms, of e "observed v"]
  by (auto simp: undo_count_def is_undone_def was_undone_def)

section \<open>Inserting undo operations\<close>

lemma undo_edit_keys:
  "map (edit_key ue_key) (undo_edits undo) = map (\<lambda>(e, _). UndoMapKey e (uo_timestamp undo)) (uo_counts undo)"
  by (simp add: undo_edits_def edit_key_def split_def)

lemma undo_edit_keys_distinct:
  "distinct (map fst (uo_counts undo)) \<Longrightarrow> distinct (map (edit_key ue_key) (undo_edits undo))"
  unfolding undo_edit_keys by (auto simp: distinct_map inj_on_def split_def)

lemma key_sorted_edits: "key_sorted key xs \<Longrightarrow> key_sorted key (fold (list_edit key) es xs)"
  by (induction es arbitrary: xs) (simp_all add: key_sorted_edit)

lemma undo_insert_items:
  assumes "undo_ok m" "height m < STACK_CAPACITY" "distinct (map fst (uo_counts undo))"
  shows "\<exists>m'. undo_insert undo m = Some m' \<and> undo_ok m'
    \<and> tree_items m' = fold (list_edit ue_key) (undo_edits undo) (tree_items m)"
  using undo_tree.edit_tree_refines [of m "undo_edits undo"] undo_edit_keys_distinct [OF assms(3)] assms(1,2)
  by (auto simp: undo_ok_def undo_insert_def key_sorted_edits)

lemma set_fold_inserts:
  assumes "distinct (map key ys)"
  shows "set (fold (list_edit key) (map Insert ys) xs) = {x \<in> set xs. key x \<notin> key ` set ys} \<union> set ys"
  using assms
proof (induction ys arbitrary: xs)
  case (Cons y ys)
  have "set (list_edit key (Insert y) xs) = {x \<in> set xs. key x \<noteq> key y} \<union> {y}"
    by (auto simp: list_edit_def list_insert_def)
  with Cons show ?case by (auto simp: image_iff)
qed simp

definition undo_entries :: "undo_operation \<Rightarrow> undo_map_entry list" where
  "undo_entries undo =
     map (\<lambda>(e, n). \<lparr>ue_key = UndoMapKey e (uo_timestamp undo), ue_undo_count = n\<rparr>) (uo_counts undo)"

lemma undo_edits_entries: "undo_edits undo = map Insert (undo_entries undo)"
  by (simp add: undo_edits_def undo_entries_def o_def split_def)

lemma undo_insert_set:
  assumes "distinct (map fst (uo_counts undo))"
    and fresh: "\<forall>x \<in> set xs. uk_undo_id (ue_key x) \<noteq> uo_timestamp undo"
  shows "set (fold (list_edit ue_key) (undo_edits undo) xs) = set xs \<union> set (undo_entries undo)"
proof -
  have "distinct (map ue_key (undo_entries undo))"
    using assms(1) by (auto simp: undo_entries_def distinct_map inj_on_def split_def)
  moreover have "{x \<in> set xs. ue_key x \<notin> ue_key ` set (undo_entries undo)} = set xs"
    using fresh by (fastforce simp: undo_entries_def)
  ultimately show ?thesis by (simp add: undo_edits_entries set_fold_inserts)
qed

lemma largest_count_insert:
  assumes "distinct (map fst (uo_counts undo))"
    and "\<forall>x \<in> set xs. uk_undo_id (ue_key x) \<noteq> uo_timestamp undo"
  shows "largest_count e (\<lambda>_. True) (fold (list_edit ue_key) (undo_edits undo) xs) =
    max (largest_count e (\<lambda>_. True) xs) (case map_of (uo_counts undo) e of None \<Rightarrow> 0 | Some n \<Rightarrow> n)"
proof -
  let ?S = "\<lambda>X. ue_undo_count ` {x \<in> X. uk_edit_id (ue_key x) = e}"
  let ?N = "?S (set (undo_entries undo))"
  have "?N = {n. (e, n) \<in> set (uo_counts undo)}"
  proof (intro equalityI subsetI)
    fix n assume "n \<in> {n. (e, n) \<in> set (uo_counts undo)}"
    then have "\<lparr>ue_key = UndoMapKey e (uo_timestamp undo), ue_undo_count = n\<rparr> \<in> set (undo_entries undo)"
      by (auto simp: undo_entries_def image_iff intro!: bexI [of _ "(e, n)"])
    then show "n \<in> ?N" by (force intro: rev_image_eqI)
  qed (auto simp: undo_entries_def)
  then have new: "?N = set_option (map_of (uo_counts undo) e)"
    by (auto simp: map_of_eq_Some_iff [OF assms(1), symmetric])
  have "largest_count e (\<lambda>_. True) (fold (list_edit ue_key) (undo_edits undo) xs) = Max (insert 0 (?S (set xs)) \<union> ?N)"
    unfolding largest_count_def undo_insert_set [OF assms] by (rule arg_cong [of _ _ Max]) auto
  also have "\<dots> = max (Max (insert 0 (?S (set xs)))) (case map_of (uo_counts undo) e of None \<Rightarrow> 0 | Some n \<Rightarrow> n)"
    unfolding new by (cases "map_of (uo_counts undo) e") (simp_all add: max.commute)
  finally show ?thesis by (simp add: largest_count_def)
qed


definition sample_undo :: "lamport \<Rightarrow> u32 \<Rightarrow> undo_operation" where
  "sample_undo t n = \<lparr>uo_timestamp = t, uo_version = [], uo_counts = [(Lamport 1 LOCAL, n)]\<rparr>"

lemma undo_default_ok: "undo_ok undo_default" "height undo_default < STACK_CAPACITY"
  by (simp_all add: undo_ok_def undo_default_def tree_ok_def tree_new_def STACK_CAPACITY_def)

text \<open>An edit is undone exactly when the largest count recorded for it is odd, and was undone at a
  version exactly when the largest count among the undo operations the version has observed is odd:
  the loops end, do not panic, and find every entry of the edit.\<close>

theorem undone_by_largest_count:
  assumes "undo_ok m" "height m < STACK_CAPACITY"
  shows "is_undone e m = Some (largest_count e (\<lambda>_. True) (tree_items m) mod 2 = 1)
    \<and> was_undone e v m = Some (largest_count e (observed v) (tree_items m) mod 2 = 1)"
  using undo_count_items [OF assms] by simp

theorem undone_by_largest_count_witness:
  "is_undone (Lamport 1 LOCAL) undo_default = Some False"
  using undone_by_largest_count [OF undo_default_ok, of "Lamport 1 LOCAL"]
  by (simp add: largest_count_def undo_default_def tree_new_def)

text \<open>Inserting an undo operation never panics and raises the count of each edit to the count the
  operation carries for it; the other edits keep theirs. The operation is new: no entry has its
  timestamp.\<close>

theorem undo_insert_raises_counts:
  assumes "undo_ok m" "height m < STACK_CAPACITY" "distinct (map fst (uo_counts undo))"
    and "\<forall>x \<in> set (tree_items m). uk_undo_id (ue_key x) \<noteq> uo_timestamp undo"
  shows "\<exists>m'. undo_insert undo m = Some m' \<and> undo_ok m'
    \<and> (\<forall>e. largest_count e (\<lambda>_. True) (tree_items m') =
         max (largest_count e (\<lambda>_. True) (tree_items m)) (case map_of (uo_counts undo) e of None \<Rightarrow> 0 | Some n \<Rightarrow> n))"
  using undo_insert_items [OF assms(1-3)] largest_count_insert [OF assms(3,4)] by auto

theorem undo_insert_raises_counts_witness:
  "\<exists>m'. undo_insert (sample_undo (Lamport 2 LOCAL) 1) undo_default = Some m'
     \<and> largest_count (Lamport 1 LOCAL) (\<lambda>_. True) (tree_items m') = 1"
  using undo_insert_raises_counts [OF undo_default_ok, of "sample_undo (Lamport 2 LOCAL) 1"]
  by (auto simp: sample_undo_def undo_default_def tree_new_def largest_count_def)

text \<open>C12. The undo map converges: two undo operations with different timestamps lead to the same entries,
  and so to the same counts, in whichever order a replica receives them.\<close>

theorem undo_map_converges:
  assumes "undo_ok m" "height m < STACK_CAPACITY" "uo_timestamp a \<noteq> uo_timestamp b"
    and keys: "distinct (map fst (uo_counts a))" "distinct (map fst (uo_counts b))"
    and first: "undo_insert a m = Some ma" "undo_insert b m = Some mb"
    and room: "height ma < STACK_CAPACITY" "height mb < STACK_CAPACITY"
  shows "\<exists>mab mba. undo_insert b ma = Some mab \<and> undo_insert a mb = Some mba
    \<and> undo_ok mab \<and> undo_ok mba \<and> tree_items mab = tree_items mba"
proof -
  from undo_insert_items [OF assms(1,2) keys(1)] undo_insert_items [OF assms(1,2) keys(2)] first have
    ok: "undo_ok ma" "undo_ok mb"
      and items: "tree_items ma = fold (list_edit ue_key) (undo_edits a) (tree_items m)"
        "tree_items mb = fold (list_edit ue_key) (undo_edits b) (tree_items m)"
    by auto
  have "distinct (map (edit_key ue_key) (undo_edits a @ undo_edits b))"
    using undo_edit_keys_distinct keys assms(3) unfolding map_append distinct_append undo_edit_keys
    by auto
  then have "fold (list_edit ue_key) (undo_edits a @ undo_edits b) (tree_items m) =
      fold (list_edit ue_key) (undo_edits b @ undo_edits a) (tree_items m)"
    by (rule fold_list_edit_mset) simp
  with undo_insert_items [OF ok(1) room(1) keys(2)] undo_insert_items [OF ok(2) room(2) keys(1)] items
  show ?thesis by auto
qed

theorem undo_map_converges_witness:
  "\<exists>ma mb mab mba. undo_insert (sample_undo (Lamport 2 LOCAL) 1) undo_default = Some ma
     \<and> undo_insert (sample_undo (Lamport 3 LOCAL) 2) ma = Some mab
     \<and> undo_insert (sample_undo (Lamport 3 LOCAL) 2) undo_default = Some mb
     \<and> undo_insert (sample_undo (Lamport 2 LOCAL) 1) mb = Some mba \<and> tree_items mab = tree_items mba"
proof -
  let ?a = "sample_undo (Lamport 2 LOCAL) 1" and ?b = "sample_undo (Lamport 3 LOCAL) 2"
  obtain ma mb where m: "undo_insert ?a undo_default = Some ma" "undo_insert ?b undo_default = Some mb"
      "height ma < STACK_CAPACITY" "height mb < STACK_CAPACITY"
  proof -
    have "map_option height (undo_insert ?a undo_default) = Some 0" "map_option height (undo_insert ?b undo_default) = Some 0"
      by code_simp+
    with that show ?thesis by (auto simp: STACK_CAPACITY_def)
  qed
  with undo_map_converges [OF undo_default_ok _ _ _ m(1,2)] show ?thesis
    by (auto simp: sample_undo_def)
qed


end
