(* ===== verification/TreeContract.thy ===== *)
theory TreeContract
  imports TreeMap UndoMap
begin

text \<open>
  What the sum tree promises to its clients, for any items, summaries and dimensions that obey the
  laws. The witnesses use the entries of the ordered map and of the undo map, for which the laws are
  discharged.
\<close>

lemma map_summary_laws: "summary_laws (map_ops :: ((nat, nat) map_entry, nat option) summary_ops)"
  by (rule map_tree.summary_laws_axioms)

lemma map_dimension_laws: "dimension_laws (map_ops :: ((nat, nat) map_entry, nat option) summary_ops) map_dim"
  by (rule map_tree.dimension_laws_axioms)

lemma sample_tree_ok: "tree_ok map_ops sample_map" "key_sorted entry_key (tree_items sample_map)"
  using sample_map_ok by (simp_all add: map_ok_def)

lemma sample_items: "tree_items sample_map = [new_entry (1, 10), new_entry (3, 30)]"
  by (simp add: sample_map_def)

text \<open>C10. Appending never panics and is concatenation: the result is balanced with nodes of legal size,
  its items are the items of both trees in order, and its cached summary is the sum over its
  items.\<close>

theorem append_is_concatenation:
  assumes "summary_laws ops" "tree_ok ops a" "tree_ok ops b"
  shows "\<exists>t. append_tree ops a b = Some t \<and> tree_ok ops t \<and> tree_items t = tree_items a @ tree_items b
    \<and> summary t = sum_summaries ops (map (so_summary ops) (tree_items a @ tree_items b))"
proof -
  from summary_laws.append_tree_refines [OF assms] obtain t where
    t: "append_tree ops a b = Some t" "tree_ok ops t" "tree_items t = tree_items a @ tree_items b" by blast
  have "summary t = sum_summaries ops (map (so_summary ops) (tree_items t))"
    using t(2) summary_laws.summary_items [OF assms(1)]
    by (auto simp: tree_ok_def) (simp add: tree_new_def sum_summaries_def)
  with t show ?thesis by auto
qed

theorem append_is_concatenation_witness:
  "\<exists>t. append_tree map_ops sample_map sample_map = Some t
     \<and> tree_items t = [new_entry (1, 10), new_entry (3, 30), new_entry (1, 10), new_entry (3, 30)]"
  using append_is_concatenation [OF map_summary_laws sample_tree_ok(1) sample_tree_ok(1)]
  by (auto simp: sample_items)

text \<open>C35. A tree built from a sequence of items and iterated gives the sequence back: building does not
  panic, and the iterator visits every item once and ends.\<close>

theorem from_iter_roundtrip:
  assumes "summary_laws ops" "tree_from_iter ops xs = Some t" "height t < STACK_CAPACITY"
  shows "tree_ok ops t \<and> collect_items iter_next (iter_new t) = Some xs"
proof -
  from summary_laws.tree_from_iter_refines [OF assms(1)] assms(2) have t: "tree_ok ops t" "tree_items t = xs"
    by (metis option.inject)+
  with tree_iterator.collect_items_list [OF iter_new_at [OF t(1) assms(3)]] show ?thesis by simp
qed

theorem from_iter_roundtrip_witness:
  "collect_items iter_next (iter_new sample_map) = Some [new_entry (1, 10), new_entry (3, 30)]"
proof -
  have "tree_from_iter map_ops [new_entry (1, 10), new_entry (3, 30)] = Some sample_map" by code_simp
  from from_iter_roundtrip [OF map_summary_laws this sample_map_ok(2)] show ?thesis by blast
qed

text \<open>The descent of \<open>find\<close> agrees with a scan of all items from the left: it finds the first item whose
  end reaches the target, and the positions before and after it. The targets it is given are
  monotone along the items.\<close>

theorem find_is_scan:
  assumes "dimension_laws ops dim" "tree_ok ops t" "dm_add dim (dm_zero dim) (so_zero ops) = dm_zero dim"
    and "ordered_ends (target_in target b) (item_ends ops dim (dm_zero dim) (tree_items t))"
  shows "tree_find dim target b t =
    (case scan ops dim (target_in target b) (dm_zero dim) (tree_items t) of
       (pos, Some (item, e)) \<Rightarrow> (pos, e, Some item)
     | (pos, None) \<Rightarrow> (pos, pos, None))"
  using assms by (rule dimension_laws.tree_find_scan)

theorem find_is_scan_witness:
  "tree_find map_dim (cmp (Some 2)) BiasLeft sample_map = (Some 1, Some 3, Some (new_entry (3, 30)))"
proof -
  have ordered: "ordered_ends (target_in (cmp (Some 2)) BiasLeft)
      (item_ends map_ops map_dim (dm_zero map_dim) (tree_items sample_map))"
    by code_simp
  have zero: "dm_add map_dim (dm_zero map_dim) (so_zero (map_ops :: ((nat, nat) map_entry, nat option) summary_ops)) =
      dm_zero map_dim"
    by (simp add: map_dim_def map_ops_def)
  have "scan map_ops map_dim (target_in (cmp (Some 2)) BiasLeft) (dm_zero map_dim) (tree_items sample_map) =
      (Some 1, Some (new_entry (3, 30), Some 3))"
    by code_simp
  with find_is_scan [OF map_dimension_laws sample_tree_ok(1) zero ordered] show ?thesis by simp
qed

text \<open>Cutting a tree at a target and taking the rest loses nothing and panics nowhere: slice and suffix
  are valid trees that partition the items, every item of the slice ends before the target and the
  first item of the suffix does not.\<close>

theorem slice_and_suffix_partition:
  assumes laws: "dimension_laws ops dim" and t: "tree_ok ops t" "height t < STACK_CAPACITY"
    and target: "target (dm_zero dim) \<noteq> Less"
      "ordered_ends (target_in target b) (item_ends ops dim (dm_zero dim) (tree_items t))"
  shows "\<exists>a cu s cu'. cursor_slice ops dim target b (cursor_new dim t) = Some (a, cu)
    \<and> cursor_suffix ops dim cu = Some (s, cu') \<and> tree_ok ops a \<and> tree_ok ops s
    \<and> seek_splits ops dim (target_in target b) (tree_items t) (dm_zero dim) (tree_items a) (tree_items s)"
proof -
  from dimension_laws.cursor_slice_splits [OF laws cursor_at_new [OF t] target] obtain a cu zs p where
    a: "cursor_slice ops dim target b (cursor_new dim t) = Some (a, cu)" "tree_ok ops a"
      "seek_splits ops dim (target_in target b) (tree_items t) (dm_zero dim) (tree_items a) zs"
      "cursor_at ops dim cu zs p"
    by blast
  from dimension_laws.cursor_suffix_all [OF laws a(4)] a(1-3) show ?thesis by blast
qed

theorem slice_and_suffix_partition_witness:
  "\<exists>a cu s cu'. cursor_slice map_ops map_dim (cmp (Some 2)) BiasLeft (cursor_new map_dim sample_map) = Some (a, cu)
     \<and> cursor_suffix map_ops map_dim cu = Some (s, cu')
     \<and> tree_items a @ tree_items s = [new_entry (1, 10), new_entry (3, 30)]"
proof -
  have "ordered_ends (target_in (cmp (Some 2)) BiasLeft) (item_ends map_ops map_dim (dm_zero map_dim) (tree_items sample_map))"
    by code_simp
  moreover have "cmp (Some 2) (dm_zero map_dim) \<noteq> Less" by (simp add: cmp_def map_dim_def)
  ultimately show ?thesis
    using slice_and_suffix_partition [OF map_dimension_laws sample_tree_ok(1) sample_map_ok(2)]
    by (fastforce simp: seek_splits_def sample_items)
qed

text \<open>C34. A batch of edits on distinct keys has the effect of the single edits in any order: the new tree
  holds the old items with each edit applied, and the call returns the items replaced or removed.\<close>

theorem edit_applies_batch:
  assumes laws: "keyed_laws ops dim key" and t: "tree_ok ops t" "height t < STACK_CAPACITY"
    and sorted: "key_sorted key (tree_items t)" and "distinct (map (edit_key key) edits)" "mset edits = mset edits'"
  shows "\<exists>u. edit_tree ops dim key edits t =
      Some (edit_removed key (sort_key (edit_key key) edits) (tree_items t), u)
    \<and> tree_ok ops u \<and> key_sorted key (tree_items u) \<and> tree_items u = fold (list_edit key) edits' (tree_items t)"
  using keyed_laws.edit_tree_refines [OF laws t sorted assms(5)] fold_list_edit_mset [OF assms(5,6)]
    key_sorted_edits [OF sorted, of edits]
  by auto

theorem edit_applies_batch_witness:
  "\<exists>u removed. edit_tree map_ops map_dim entry_key [Insert (new_entry (2, 20)), Remove (Some 1)] sample_map = Some (removed, u)
     \<and> tree_items u = [new_entry (2, 20), new_entry (3, 30)]"
proof -
  have "fold (list_edit entry_key) [Remove (Some 1), Insert (new_entry (2, 20))] (tree_items sample_map) =
      [new_entry (2, 20), new_entry (3, 30)]"
    by code_simp
  moreover have "keyed_laws map_ops map_dim (entry_key :: (nat, nat) map_entry \<Rightarrow> nat option)"
    by (rule map_tree.keyed_laws_axioms)
  ultimately show ?thesis
    using edit_applies_batch [OF _ sample_tree_ok(1) sample_map_ok(2) sample_tree_ok(2),
        of map_dim "[Insert (new_entry (2, 20)), Remove (Some 1)]" "[Remove (Some 1), Insert (new_entry (2, 20))]"]
    by (auto simp: edit_key_def)
qed

end
