(* ===== verification/Moderation.thy ===== *)
theory Moderation
  imports Samples
begin

text \<open>
  Moderation (\<open>moderation.rs\<close>): reports and their resolution, the restrictions (bans and timeouts) of a
  person in a community with the history of their transitions, and personal mutes. A restriction is
  stored with its history, and loading replays it.
\<close>

section \<open>Data\<close>

definition MODERATION_REPORT_SCOPE :: rust_string where "MODERATION_REPORT_SCOPE = lit ''moderation:report''"
definition MODERATION_MANAGE_SCOPE :: rust_string where "MODERATION_MANAGE_SCOPE = lit ''moderation:manage''"
definition PERSONAL_MUTE_SCOPE :: rust_string where "PERSONAL_MUTE_SCOPE = lit ''moderation:mute''"
definition MAX_REPORT_CONTEXT_BYTES :: nat where "MAX_REPORT_CONTEXT_BYTES = 4096"
definition MAX_RESTRICTION_TRANSITIONS :: nat where "MAX_RESTRICTION_TRANSITIONS = 1000"
definition MAX_PERSONAL_MUTE_TRANSITIONS :: nat where "MAX_PERSONAL_MUTE_TRANSITIONS = 1000"

datatype moderation_error =
    AuthorizationShape | Unauthorized authorization_denial | TenantMismatch | InvalidIdentity
  | InvalidOperationId | InvalidReportContext | InvalidTimestamp | InvalidExpiry | InvalidTransition
  | ConflictingOperation | ProtectedTarget | SelfRestriction | SelfMute | PersonalMuteOwnerMismatch
  | StaleTarget | StaleVersion aggregate_version aggregate_version | TooManyTransitions
  | VersionExhausted | InvalidRecord

record moderation_source =
  ms_operation_id :: operation_id
  ms_occurred_at_millis :: u64

datatype moderation_report_reason =
  Spam | Profanity | IllegalContent | Nudity | Malware | Impersonation | OtherReason

datatype report_context = ModerationReportContext (context_str: rust_string)

definition report_context_new :: "rust_string \<Rightarrow> moderation_error + report_context" where
  "report_context_new value =
     (let value = trim value in
      if value = [] \<or> str_len value > MAX_REPORT_CONTEXT_BYTES then Inl InvalidReportContext
      else Inr (ModerationReportContext value))"

datatype report_target = TargetEvent nostr_event_id | TargetPrincipal principal_id | TargetBlobSha256 "256 word"

datatype moderation_resolution = Dismissed | ContentRemoved | MemberRemoved | TimedOutMember | BannedMember | Escalated

record resolution_record =
  rr_resolution :: moderation_resolution
  rr_actor_principal_id :: principal_id
  rr_source :: moderation_source

datatype report_state = ReportOpen | Resolved resolution_record

record moderation_report =
  rp_report_id :: aggregate_id
  rp_community_id :: community_id
  rp_reporter_principal_id :: principal_id
  rp_target :: report_target
  rp_reason :: moderation_report_reason
  rp_private_context :: "report_context option"
  rp_filed_source :: moderation_source
  rp_state :: report_state
  rp_version :: aggregate_version

datatype ban_state = BanNone | BanActive "u64 option" principal_id moderation_source
datatype timeout_state = TimeoutNone | TimeoutActive u64 principal_id moderation_source

definition ban_is_active_at :: "ban_state \<Rightarrow> u64 \<Rightarrow> bool" where
  "ban_is_active_at self now =
     (case self of
        BanNone \<Rightarrow> False
      | BanActive expires _ _ \<Rightarrow> (case expires of Some expires \<Rightarrow> expires > now | None \<Rightarrow> True))"

definition timeout_is_active_at :: "timeout_state \<Rightarrow> u64 \<Rightarrow> bool" where
  "timeout_is_active_at self now =
     (case self of TimeoutNone \<Rightarrow> False | TimeoutActive expires _ _ \<Rightarrow> expires > now)"

definition active_expiry_at :: "timeout_state \<Rightarrow> u64 \<Rightarrow> u64 option" where
  "active_expiry_at self now =
     (case self of
        TimeoutActive expires _ _ \<Rightarrow> if expires > now then Some expires else None
      | TimeoutNone \<Rightarrow> None)"

datatype restriction_kind = ApplyBan "u64 option" | LiftBan | ApplyTimeout u64 | LiftTimeout

record restriction_transition =
  rt_kind :: restriction_kind
  rt_actor_principal_id :: principal_id
  rt_transition_source :: moderation_source
  rt_resulting_version :: aggregate_version

record moderation_restriction =
  mr_community_id :: community_id
  mr_target_principal_id :: principal_id
  mr_ban :: ban_state
  mr_timeout :: timeout_state
  mr_transitions :: "restriction_transition list"
  mr_version :: aggregate_version

datatype mute_state = Unmuted | Muted

record mute_transition =
  mt_state :: mute_state
  mt_source :: moderation_source
  mt_resulting_version :: aggregate_version

record personal_mute =
  pm_community_id :: community_id
  pm_owner_principal_id :: principal_id
  pm_muted_principal_id :: principal_id
  pm_state :: mute_state
  pm_transitions :: "mute_transition list"
  pm_version :: aggregate_version

section \<open>Guards\<close>

definition validate_member_authorization ::
  "community_id \<Rightarrow> rust_string \<Rightarrow> authorization_action \<Rightarrow> authorization_resource_kind
   \<Rightarrow> authorization_request \<Rightarrow> moderation_error + unit" where
  "validate_member_authorization community required_scope action kind r =
     (if rq_required_scope r \<noteq> AuthorizationScope required_scope
         \<or> rq_action r \<noteq> action
         \<or> rs_community_id (rq_resource r) \<noteq> community
         \<or> rs_kind (rq_resource r) \<noteq> kind
         \<or> rs_resource_id (rq_resource r) \<noteq> community_resource community
         \<or> rs_channel_id (rq_resource r) \<noteq> None
         \<or> rs_owner_principal_id (rq_resource r) \<noteq> None
      then Inl AuthorizationShape
      else case authorize r of Allowed \<Rightarrow> Inr () | Denied denial \<Rightarrow> Inl (Unauthorized denial))"

definition validate_administration_authorization ::
  "community_id \<Rightarrow> authorization_request \<Rightarrow> moderation_error + unit" where
  "validate_administration_authorization community r =
     and_then (validate_member_authorization community MODERATION_MANAGE_SCOPE Manage AdministrationResource r) (\<lambda>_.
     and_then (ok_or (map_option cm_role (rq_community_membership r)) (Unauthorized MissingMembership)) (\<lambda>role.
     ensure (role = Owner \<or> role = Admin) (Unauthorized InsufficientRole)))"

definition validate_source :: "moderation_source \<Rightarrow> moderation_error + unit" where
  "validate_source source = ensure (\<not> uuid_is_nil (operation_uuid (ms_operation_id source))) InvalidOperationId"

definition validate_aggregate_id :: "aggregate_id \<Rightarrow> moderation_error + unit" where
  "validate_aggregate_id i = ensure (\<not> uuid_is_nil (aggregate_uuid i)) InvalidIdentity"

definition validate_principal_id :: "principal_id \<Rightarrow> moderation_error + unit" where
  "validate_principal_id p = ensure (\<not> uuid_is_nil (principal_uuid p)) InvalidIdentity"

definition validate_community_and_principal :: "community_id \<Rightarrow> principal_id \<Rightarrow> moderation_error + unit" where
  "validate_community_and_principal c p =
     ensure (\<not> uuid_is_nil (community_uuid c) \<and> \<not> uuid_is_nil (principal_uuid p)) InvalidIdentity"

definition validate_report_target :: "report_target \<Rightarrow> moderation_error + unit" where
  "validate_report_target target =
     (case target of
        TargetEvent event_id \<Rightarrow> if event_id = NostrEventId 0 then Inl InvalidIdentity else Inr ()
      | TargetPrincipal p \<Rightarrow> validate_principal_id p
      | TargetBlobSha256 digest \<Rightarrow> if digest = 0 then Inl InvalidIdentity else Inr ())"

section \<open>Reports\<close>

definition report_file ::
  "aggregate_id \<Rightarrow> community_id \<Rightarrow> report_target \<Rightarrow> moderation_report_reason \<Rightarrow> report_context option
   \<Rightarrow> moderation_source \<Rightarrow> authorization_request \<Rightarrow> moderation_error + moderation_report" where
  "report_file report_id community target reason private_context source r =
     and_then (validate_member_authorization community MODERATION_REPORT_SCOPE Write CommunityResource r) (\<lambda>_.
     and_then (validate_aggregate_id report_id) (\<lambda>_.
     and_then (validate_report_target target) (\<lambda>_.
     and_then (validate_source source) (\<lambda>_.
     Inr \<lparr>rp_report_id = report_id, rp_community_id = community,
          rp_reporter_principal_id = request_subject r, rp_target = target, rp_reason = reason,
          rp_private_context = private_context, rp_filed_source = source, rp_state = ReportOpen,
          rp_version = version_first\<rparr>))))"

definition report_from_record :: "moderation_report \<Rightarrow> moderation_error + moderation_report" where
  "report_from_record f =
     and_then (validate_aggregate_id (rp_report_id f)) (\<lambda>_.
     and_then (validate_community_and_principal (rp_community_id f) (rp_reporter_principal_id f)) (\<lambda>_.
     and_then (validate_report_target (rp_target f)) (\<lambda>_.
     and_then (validate_source (rp_filed_source f)) (\<lambda>_.
     and_then (case rp_state f of
         ReportOpen \<Rightarrow> ensure (rp_version f = version_first) InvalidRecord
       | Resolved resolution \<Rightarrow>
           and_then (validate_principal_id (rr_actor_principal_id resolution)) (\<lambda>_.
           and_then (validate_source (rr_source resolution)) (\<lambda>_.
           ensure (\<not> (ms_occurred_at_millis (rr_source resolution) < ms_occurred_at_millis (rp_filed_source f)
               \<or> ms_operation_id (rr_source resolution) = ms_operation_id (rp_filed_source f)
               \<or> version_get (rp_version f) \<noteq> 2)) InvalidRecord))) (\<lambda>_.
     Inr f)))))"

definition report_require_version :: "moderation_report \<Rightarrow> aggregate_version \<Rightarrow> moderation_error + unit" where
  "report_require_version self expected =
     ensure (rp_version self = expected) (StaleVersion expected (rp_version self))"

definition report_advance_version :: "moderation_report \<Rightarrow> (moderation_report, moderation_error, unit) effect" where
  "report_advance_version self =
     attempt self (ok_or (version_next (rp_version self)) VersionExhausted) (\<lambda>v.
       (Inr (), self\<lparr>rp_version := v\<rparr>))"

definition resolve ::
  "aggregate_version \<Rightarrow> moderation_resolution \<Rightarrow> moderation_source \<Rightarrow> authorization_request \<Rightarrow> moderation_report
   \<Rightarrow> (moderation_report, moderation_error, command_outcome) effect" where
  "resolve expected resolution source r self =
     attempt self (validate_administration_authorization (rp_community_id self) r) (\<lambda>_.
     attempt self (validate_source source) (\<lambda>_.
     let new_record = \<lparr>rr_resolution = resolution, rr_actor_principal_id = request_subject r, rr_source = source\<rparr> in
     case rp_state self of
       Resolved existing \<Rightarrow>
         (if existing = new_record then (Inr Unchanged, self)
          else if ms_operation_id (rr_source existing) = ms_operation_id source
          then (Inl ConflictingOperation, self)
          else (Inl InvalidTransition, self))
     | ReportOpen \<Rightarrow>
         attempt self (report_require_version self expected) (\<lambda>_.
         if ms_operation_id source = ms_operation_id (rp_filed_source self) then (Inl ConflictingOperation, self)
         else if ms_occurred_at_millis source < ms_occurred_at_millis (rp_filed_source self)
         then (Inl InvalidTimestamp, self)
         else and_continue (report_advance_version (self\<lparr>rp_state := Resolved new_record\<rparr>)) (\<lambda>_ self.
           (Inr Applied, self)))))"

section \<open>Restrictions\<close>

definition restriction_new :: "community_id \<Rightarrow> principal_id \<Rightarrow> moderation_error + moderation_restriction" where
  "restriction_new community target =
     and_then (validate_community_and_principal community target) (\<lambda>_.
     Inr \<lparr>mr_community_id = community, mr_target_principal_id = target, mr_ban = BanNone,
          mr_timeout = TimeoutNone, mr_transitions = [], mr_version = version_first\<rparr>)"

definition restriction_require_version ::
  "moderation_restriction \<Rightarrow> aggregate_version \<Rightarrow> moderation_error + unit" where
  "restriction_require_version self expected =
     ensure (mr_version self = expected) (StaleVersion expected (mr_version self))"

definition authorize_transition ::
  "community_membership \<Rightarrow> aggregate_version \<Rightarrow> authorization_request \<Rightarrow> moderation_restriction
   \<Rightarrow> moderation_error + principal_id" where
  "authorize_transition target current_target_version r self =
     and_then (validate_administration_authorization (mr_community_id self) r) (\<lambda>_.
     let actor = request_subject r in
     and_then (ensure (cm_community_id target = mr_community_id self
       \<and> cm_principal_id target = mr_target_principal_id self) TenantMismatch) (\<lambda>_.
     and_then (ensure (cm_version target = current_target_version) StaleTarget) (\<lambda>_.
     and_then (ensure (actor \<noteq> mr_target_principal_id self) SelfRestriction) (\<lambda>_.
     and_then (ok_or (map_option cm_role (rq_community_membership r)) (Unauthorized MissingMembership)) (\<lambda>actor_role.
     and_then (ensure (\<not> (cm_role target = Owner \<or> actor_role = Admin \<and> cm_role target = Admin)) ProtectedTarget) (\<lambda>_.
     Inr actor))))))"

definition set_restriction_state ::
  "restriction_kind \<Rightarrow> principal_id \<Rightarrow> moderation_source \<Rightarrow> moderation_restriction \<Rightarrow> moderation_restriction" where
  "set_restriction_state kind actor source self =
     (case kind of
        ApplyBan expires \<Rightarrow> self\<lparr>mr_ban := BanActive expires actor source\<rparr>
      | LiftBan \<Rightarrow> self\<lparr>mr_ban := BanNone\<rparr>
      | ApplyTimeout expires \<Rightarrow> self\<lparr>mr_timeout := TimeoutActive expires actor source\<rparr>
      | LiftTimeout \<Rightarrow> self\<lparr>mr_timeout := TimeoutNone\<rparr>)"

text \<open>\<open>set_restriction_state\<close>, the push and the new version, shared by \<open>apply_transition\<close> and
  \<open>replay_transition\<close>.\<close>

definition record_transition :: "restriction_transition \<Rightarrow> moderation_restriction \<Rightarrow> moderation_restriction" where
  "record_transition tr self =
     (set_restriction_state (rt_kind tr) (rt_actor_principal_id tr) (rt_transition_source tr) self)
       \<lparr>mr_transitions := mr_transitions self @ [tr], mr_version := rt_resulting_version tr\<rparr>"

definition later_than_last :: "moderation_source \<Rightarrow> moderation_restriction \<Rightarrow> bool" where
  "later_than_last source self \<longleftrightarrow>
     mr_transitions self = []
     \<or> ms_occurred_at_millis (rt_transition_source (last (mr_transitions self))) \<le> ms_occurred_at_millis source"

definition apply_transition ::
  "aggregate_version \<Rightarrow> restriction_kind \<Rightarrow> principal_id \<Rightarrow> moderation_source \<Rightarrow> moderation_restriction
   \<Rightarrow> (moderation_restriction, moderation_error, command_outcome) effect" where
  "apply_transition expected kind actor source self =
     attempt self (validate_source source) (\<lambda>_.
     case find (\<lambda>tr. ms_operation_id (rt_transition_source tr) = ms_operation_id source) (mr_transitions self) of
       Some existing \<Rightarrow>
         (if rt_kind existing = kind \<and> rt_actor_principal_id existing = actor \<and> rt_transition_source existing = source
          then (Inr Unchanged, self) else (Inl ConflictingOperation, self))
     | None \<Rightarrow>
         if mr_version self \<noteq> expected then (Inl (StaleVersion expected (mr_version self)), self)
         else if length (mr_transitions self) \<ge> MAX_RESTRICTION_TRANSITIONS then (Inl TooManyTransitions, self)
         else if \<not> later_than_last source self then (Inl InvalidTimestamp, self)
         else attempt self (ok_or (version_next (mr_version self)) VersionExhausted) (\<lambda>v.
           (Inr Applied, record_transition
              \<lparr>rt_kind = kind, rt_actor_principal_id = actor, rt_transition_source = source,
               rt_resulting_version = v\<rparr> self)))"

definition apply_ban ::
  "aggregate_version \<Rightarrow> u64 option \<Rightarrow> moderation_source \<Rightarrow> community_membership \<Rightarrow> aggregate_version
   \<Rightarrow> authorization_request \<Rightarrow> moderation_restriction
   \<Rightarrow> (moderation_restriction, moderation_error, command_outcome) effect" where
  "apply_ban expected expires source target current_target_version r self =
     attempt self (authorize_transition target current_target_version r self) (\<lambda>actor.
     if is_some_and expires (\<lambda>expiry. expiry \<le> ms_occurred_at_millis source) then (Inl InvalidExpiry, self)
     else apply_transition expected (ApplyBan expires) actor source self)"

definition lift_ban ::
  "aggregate_version \<Rightarrow> moderation_source \<Rightarrow> community_membership \<Rightarrow> aggregate_version
   \<Rightarrow> authorization_request \<Rightarrow> moderation_restriction
   \<Rightarrow> (moderation_restriction, moderation_error, command_outcome) effect" where
  "lift_ban expected source target current_target_version r self =
     attempt self (authorize_transition target current_target_version r self) (\<lambda>actor.
     attempt self (validate_source source) (\<lambda>_.
     attempt self (restriction_require_version self expected) (\<lambda>_.
     if \<not> ban_is_active_at (mr_ban self) (ms_occurred_at_millis source) then (Inr Unchanged, self)
     else apply_transition expected LiftBan actor source self)))"

definition apply_timeout ::
  "aggregate_version \<Rightarrow> u64 \<Rightarrow> moderation_source \<Rightarrow> community_membership \<Rightarrow> aggregate_version
   \<Rightarrow> authorization_request \<Rightarrow> moderation_restriction
   \<Rightarrow> (moderation_restriction, moderation_error, command_outcome) effect" where
  "apply_timeout expected expires source target current_target_version r self =
     attempt self (authorize_transition target current_target_version r self) (\<lambda>actor.
     if expires \<le> ms_occurred_at_millis source then (Inl InvalidExpiry, self)
     else apply_transition expected (ApplyTimeout expires) actor source self)"

definition lift_timeout ::
  "aggregate_version \<Rightarrow> moderation_source \<Rightarrow> community_membership \<Rightarrow> aggregate_version
   \<Rightarrow> authorization_request \<Rightarrow> moderation_restriction
   \<Rightarrow> (moderation_restriction, moderation_error, command_outcome) effect" where
  "lift_timeout expected source target current_target_version r self =
     attempt self (authorize_transition target current_target_version r self) (\<lambda>actor.
     attempt self (validate_source source) (\<lambda>_.
     attempt self (restriction_require_version self expected) (\<lambda>_.
     if \<not> timeout_is_active_at (mr_timeout self) (ms_occurred_at_millis source) then (Inr Unchanged, self)
     else apply_transition expected LiftTimeout actor source self)))"

definition replay_kind_ok :: "restriction_transition \<Rightarrow> moderation_restriction \<Rightarrow> bool" where
  "replay_kind_ok tr self =
     (let at = ms_occurred_at_millis (rt_transition_source tr) in
      case rt_kind tr of
        ApplyBan expires \<Rightarrow> \<not> is_some_and expires (\<lambda>expiry. expiry \<le> at)
      | ApplyTimeout expires \<Rightarrow> \<not> expires \<le> at
      | LiftBan \<Rightarrow> ban_is_active_at (mr_ban self) at
      | LiftTimeout \<Rightarrow> timeout_is_active_at (mr_timeout self) at)"

definition replay_transition ::
  "restriction_transition \<Rightarrow> moderation_restriction \<Rightarrow> moderation_error + moderation_restriction" where
  "replay_transition tr self =
     and_then (validate_principal_id (rt_actor_principal_id tr)) (\<lambda>_.
     and_then (validate_source (rt_transition_source tr)) (\<lambda>_.
     and_then (ensure (\<not> list_ex (\<lambda>e. ms_operation_id (rt_transition_source e)
           = ms_operation_id (rt_transition_source tr)) (mr_transitions self)
         \<and> later_than_last (rt_transition_source tr) self
         \<and> version_follows (rt_resulting_version tr) (mr_version self)) InvalidRecord) (\<lambda>_.
     and_then (ensure (replay_kind_ok tr self) InvalidRecord) (\<lambda>_.
     Inr (record_transition tr self)))))"

primrec replay_transitions ::
  "restriction_transition list \<Rightarrow> moderation_restriction \<Rightarrow> moderation_error + moderation_restriction" where
  "replay_transitions [] self = Inr self"
| "replay_transitions (tr # trs) self = and_then (replay_transition tr self) (replay_transitions trs)"

definition restriction_from_record :: "moderation_restriction \<Rightarrow> moderation_error + moderation_restriction" where
  "restriction_from_record f =
     and_then (validate_community_and_principal (mr_community_id f) (mr_target_principal_id f)) (\<lambda>_.
     and_then (ensure (\<not> length (mr_transitions f) > MAX_RESTRICTION_TRANSITIONS) TooManyTransitions) (\<lambda>_.
     and_then (restriction_new (mr_community_id f) (mr_target_principal_id f)) (\<lambda>reconstructed.
     and_then (replay_transitions (mr_transitions f) reconstructed) (\<lambda>reconstructed.
     and_then (ensure (mr_ban reconstructed = mr_ban f \<and> mr_timeout reconstructed = mr_timeout f
         \<and> mr_version reconstructed = mr_version f) InvalidRecord) (\<lambda>_.
     Inr f)))))"

section \<open>Personal mutes\<close>

definition mute_new ::
  "community_id \<Rightarrow> principal_id \<Rightarrow> authorization_request \<Rightarrow> moderation_error + personal_mute" where
  "mute_new community muted r =
     and_then (validate_member_authorization community PERSONAL_MUTE_SCOPE Write CommunityResource r) (\<lambda>_.
     and_then (validate_principal_id muted) (\<lambda>_.
     and_then (ensure (request_subject r \<noteq> muted) SelfMute) (\<lambda>_.
     Inr \<lparr>pm_community_id = community, pm_owner_principal_id = request_subject r,
          pm_muted_principal_id = muted, pm_state = Unmuted, pm_transitions = [],
          pm_version = version_first\<rparr>)))"

text \<open>The loop of \<open>from_record\<close> over the transitions: the transitions before, the state, the version and
  the time of the last one.\<close>

fun mute_replay ::
  "mute_transition list \<Rightarrow> mute_state \<Rightarrow> aggregate_version \<Rightarrow> u64 option \<Rightarrow> mute_transition list
   \<Rightarrow> moderation_error + (mute_state \<times> aggregate_version)" where
  "mute_replay seen state version previous [] = Inr (state, version)"
| "mute_replay seen state version previous (tr # trs) =
     and_then (validate_source (mt_source tr)) (\<lambda>_.
     if mt_state tr = state
        \<or> is_some_and previous (\<lambda>timestamp. ms_occurred_at_millis (mt_source tr) < timestamp)
        \<or> list_ex (\<lambda>e. ms_operation_id (mt_source e) = ms_operation_id (mt_source tr)) seen
        \<or> \<not> version_follows (mt_resulting_version tr) version
     then Inl InvalidRecord
     else mute_replay (seen @ [tr]) (mt_state tr) (mt_resulting_version tr)
       (Some (ms_occurred_at_millis (mt_source tr))) trs)"

definition mute_from_record :: "personal_mute \<Rightarrow> moderation_error + personal_mute" where
  "mute_from_record f =
     and_then (validate_community_and_principal (pm_community_id f) (pm_owner_principal_id f)) (\<lambda>_.
     and_then (validate_principal_id (pm_muted_principal_id f)) (\<lambda>_.
     and_then (ensure (\<not> (pm_owner_principal_id f = pm_muted_principal_id f
         \<or> length (pm_transitions f) > MAX_PERSONAL_MUTE_TRANSITIONS)) InvalidRecord) (\<lambda>_.
     and_then (mute_replay [] Unmuted version_first None (pm_transitions f)) (\<lambda>(state, version).
     and_then (ensure (\<not> (pm_state f \<noteq> state \<or> pm_version f \<noteq> version)) InvalidRecord) (\<lambda>_.
     Inr f)))))"

definition mute_set_state ::
  "aggregate_version \<Rightarrow> mute_state \<Rightarrow> moderation_source \<Rightarrow> authorization_request \<Rightarrow> personal_mute
   \<Rightarrow> (personal_mute, moderation_error, command_outcome) effect" where
  "mute_set_state expected state source r self =
     attempt self (validate_member_authorization (pm_community_id self) PERSONAL_MUTE_SCOPE Write CommunityResource r) (\<lambda>_.
     attempt self (ensure (request_subject r = pm_owner_principal_id self) PersonalMuteOwnerMismatch) (\<lambda>_.
     attempt self (validate_source source) (\<lambda>_.
     case find (\<lambda>tr. ms_operation_id (mt_source tr) = ms_operation_id source) (pm_transitions self) of
       Some existing \<Rightarrow>
         (if mt_state existing = state \<and> mt_source existing = source then (Inr Unchanged, self)
          else (Inl ConflictingOperation, self))
     | None \<Rightarrow>
         if pm_version self \<noteq> expected then (Inl (StaleVersion expected (pm_version self)), self)
         else if pm_state self = state then (Inr Unchanged, self)
         else if length (pm_transitions self) \<ge> MAX_PERSONAL_MUTE_TRANSITIONS then (Inl TooManyTransitions, self)
         else if pm_transitions self \<noteq> []
              \<and> ms_occurred_at_millis source < ms_occurred_at_millis (mt_source (last (pm_transitions self)))
         then (Inl InvalidTimestamp, self)
         else attempt self (ok_or (version_next (pm_version self)) VersionExhausted) (\<lambda>v.
           (Inr Applied, self\<lparr>pm_transitions := pm_transitions self
                @ [\<lparr>mt_state = state, mt_source = source, mt_resulting_version = v\<rparr>],
              pm_state := state, pm_version := v\<rparr>)))))"

section \<open>Restriction commands on each branch\<close>

datatype restriction_command =
  RestrictionCommand (rc_kind: restriction_kind) (rc_expected: aggregate_version) (rc_source: moderation_source)
    (rc_target: community_membership) (rc_target_version: aggregate_version) (rc_request: authorization_request)

definition restriction_exec ::
  "restriction_command \<Rightarrow> moderation_restriction \<Rightarrow> (moderation_restriction, moderation_error, command_outcome) effect" where
  "restriction_exec c =
     (case c of RestrictionCommand kind v s t tv r \<Rightarrow>
        (case kind of
           ApplyBan expires \<Rightarrow> apply_ban v expires s t tv r
         | LiftBan \<Rightarrow> lift_ban v s t tv r
         | ApplyTimeout expires \<Rightarrow> apply_timeout v expires s t tv r
         | LiftTimeout \<Rightarrow> lift_timeout v s t tv r))"

definition command_transition :: "restriction_command \<Rightarrow> aggregate_version \<Rightarrow> restriction_transition" where
  "command_transition c v =
     \<lparr>rt_kind = rc_kind c, rt_actor_principal_id = request_subject (rc_request c),
      rt_transition_source = rc_source c, rt_resulting_version = v\<rparr>"

lemma authorize_transition_Inr:
  "authorize_transition tm tv r self = Inr actor \<longleftrightarrow>
     actor = request_subject r \<and> validate_administration_authorization (mr_community_id self) r = Inr ()
     \<and> cm_community_id tm = mr_community_id self \<and> cm_principal_id tm = mr_target_principal_id self
     \<and> cm_version tm = tv \<and> actor \<noteq> mr_target_principal_id self
     \<and> (\<exists>m. rq_community_membership r = Some m \<and> cm_role tm \<noteq> Owner \<and> \<not> (cm_role m = Admin \<and> cm_role tm = Admin))"
  by (auto simp: authorize_transition_def Let_def result_simps)

lemma restriction_transition_Applied:
  "apply_transition expected kind actor source self = (Inr Applied, t) \<longleftrightarrow>
     expected = mr_version self \<and> validate_source source = Inr ()
     \<and> \<not> list_ex (\<lambda>e. ms_operation_id (rt_transition_source e) = ms_operation_id source) (mr_transitions self)
     \<and> length (mr_transitions self) < MAX_RESTRICTION_TRANSITIONS \<and> later_than_last source self
     \<and> (\<exists>v. version_next (mr_version self) = Some v \<and> t = record_transition
          \<lparr>rt_kind = kind, rt_actor_principal_id = actor, rt_transition_source = source, rt_resulting_version = v\<rparr> self)"
  by (auto simp: apply_transition_def result_simps find_None_iff list_ex_iff not_le split: option.splits if_splits
      dest!: find_Some_iff [THEN iffD1] nth_mem)

lemma apply_transition_other:
  "apply_transition expected kind actor source self = (res, t) \<Longrightarrow> res \<noteq> Inr Applied \<Longrightarrow> t = self"
  by (auto simp: apply_transition_def attempt_def split: sum.splits option.splits if_splits)

lemma restriction_not_applied:
  "restriction_exec c self = (res, t) \<Longrightarrow> res \<noteq> Inr Applied \<Longrightarrow> t = self"
  by (cases c)
    (auto simp: restriction_exec_def apply_ban_def lift_ban_def apply_timeout_def lift_timeout_def attempt_def
      split: restriction_kind.splits sum.splits if_splits dest: apply_transition_other)

lemma restriction_Applied:
  assumes "restriction_exec c self = (Inr Applied, t)"
  shows "rc_expected c = mr_version self
    \<and> authorize_transition (rc_target c) (rc_target_version c) (rc_request c) self = Inr (request_subject (rc_request c))
    \<and> validate_source (rc_source c) = Inr ()
    \<and> \<not> list_ex (\<lambda>e. ms_operation_id (rt_transition_source e) = ms_operation_id (rc_source c)) (mr_transitions self)
    \<and> length (mr_transitions self) < MAX_RESTRICTION_TRANSITIONS \<and> later_than_last (rc_source c) self
    \<and> (\<exists>v. version_next (mr_version self) = Some v \<and> t = record_transition (command_transition c v) self
         \<and> replay_kind_ok (command_transition c v) self)"
proof (cases c)
  case (RestrictionCommand kind v s tm tv r)
  have actor: "actor = request_subject r" if "authorize_transition tm tv r self = Inr actor" for actor
    using that by (simp add: authorize_transition_Inr)
  show ?thesis
    using assms RestrictionCommand
    by (cases kind)
      (auto simp: restriction_exec_def apply_ban_def lift_ban_def apply_timeout_def lift_timeout_def attempt_Inr
        restriction_transition_Applied command_transition_def replay_kind_ok_def Let_def dest: actor split: if_splits)
qed

lemma record_transition_sel [simp]:
  "mr_transitions (record_transition tr self) = mr_transitions self @ [tr]"
  "mr_version (record_transition tr self) = rt_resulting_version tr"
  "mr_community_id (record_transition tr self) = mr_community_id self"
  "mr_target_principal_id (record_transition tr self) = mr_target_principal_id self"
  by (simp_all add: record_transition_def set_restriction_state_def split: restriction_kind.splits)

section \<open>The contract of restrictions\<close>

text \<open>A consistent restriction: the version counts the transitions, their number is bounded, no operation
  occurs twice and the times do not go back.\<close>

definition restriction_ok :: "moderation_restriction \<Rightarrow> bool" where
  "restriction_ok self \<longleftrightarrow>
     version_num (mr_version self) = Suc (length (mr_transitions self))
     \<and> length (mr_transitions self) \<le> MAX_RESTRICTION_TRANSITIONS
     \<and> distinct (map (\<lambda>tr. ms_operation_id (rt_transition_source tr)) (mr_transitions self))
     \<and> sorted (map (\<lambda>tr. ms_occurred_at_millis (rt_transition_source tr)) (mr_transitions self))"

lemma sorted_snoc: "sorted (xs @ [x]) \<longleftrightarrow> sorted xs \<and> (xs = [] \<or> last xs \<le> x)"
  by (cases xs rule: rev_cases) (auto simp: sorted_append)

lemma restriction_ok_applied:
  assumes "restriction_ok self" "restriction_exec c self = (Inr Applied, t)"
  shows "restriction_ok t"
proof -
  let ?trs = "mr_transitions self" and ?s = "rc_source c"
  from restriction_Applied [OF assms(2)] obtain v where
    v: "version_next (mr_version self) = Some v" "t = record_transition (command_transition c v) self"
      and fresh: "\<not> list_ex (\<lambda>e. ms_operation_id (rt_transition_source e) = ms_operation_id ?s) ?trs"
      and more: "length ?trs < MAX_RESTRICTION_TRANSITIONS" "later_than_last ?s self"
    by blast
  from fresh have "ms_operation_id ?s \<notin> (\<lambda>tr. ms_operation_id (rt_transition_source tr)) ` set ?trs"
    by (auto simp: list_ex_iff)
  moreover from more(2) have "?trs = [] \<or> last (map (\<lambda>tr. ms_occurred_at_millis (rt_transition_source tr)) ?trs)
      \<le> ms_occurred_at_millis ?s"
    by (auto simp: later_than_last_def last_map)
  ultimately show ?thesis
    using assms(1) v more(1) by (simp add: restriction_ok_def command_transition_def version_next_Some sorted_snoc)
qed

interpretation restriction: versioned_aggregate restriction_exec mr_version rc_expected
  "\<lambda>self. (mr_community_id self, mr_target_principal_id self)" restriction_ok
proof unfold_locales
  fix c s t
  assume "restriction_exec c s = (Inr Applied, t)"
  note facts = restriction_Applied [OF this]
  then show "rc_expected c = mr_version s" by blast
  from facts show "version_next (mr_version s) = Some (mr_version t)" by (auto simp: command_transition_def)
next
  fix c s t e
  assume "restriction_exec c s = (Inl e, t)"
  with restriction_not_applied show "mr_version t = mr_version s" "t = s" by blast+
next
  fix c s t
  assume "restriction_exec c s = (Inr Unchanged, t)"
  with restriction_not_applied show "t = s" by blast
next
  fix c s
  show "(mr_community_id (snd (restriction_exec c s)), mr_target_principal_id (snd (restriction_exec c s))) =
      (mr_community_id s, mr_target_principal_id s)"
    by (cases "restriction_exec c s" rule: outcome_cases) (auto dest: restriction_not_applied restriction_Applied)
  show "restriction_ok (snd (restriction_exec c s))" if "restriction_ok s"
    using that by (cases "restriction_exec c s" rule: outcome_cases)
      (auto dest: restriction_not_applied restriction_ok_applied)
qed


section \<open>Histories rebuild restrictions\<close>

lemma replay_transitions_append:
  "replay_transitions (xs @ ys) self = and_then (replay_transitions xs self) (replay_transitions ys)"
  by (induction xs arbitrary: self) (auto simp: and_then_def split: sum.splits)

definition rebuilt :: "moderation_restriction \<Rightarrow> bool" where
  "rebuilt self \<longleftrightarrow>
     (\<exists>fresh. restriction_new (mr_community_id self) (mr_target_principal_id self) = Inr fresh
       \<and> replay_transitions (mr_transitions self) fresh = Inr self)"

lemma replay_transition_Inr:
  "replay_transition tr self = Inr t \<longleftrightarrow>
     \<not> uuid_is_nil (principal_uuid (rt_actor_principal_id tr)) \<and> validate_source (rt_transition_source tr) = Inr ()
     \<and> \<not> list_ex (\<lambda>e. ms_operation_id (rt_transition_source e) = ms_operation_id (rt_transition_source tr)) (mr_transitions self)
     \<and> later_than_last (rt_transition_source tr) self \<and> version_follows (rt_resulting_version tr) (mr_version self)
     \<and> replay_kind_ok tr self \<and> t = record_transition tr self"
  by (auto simp: replay_transition_def validate_principal_id_def result_simps)

lemma rebuilt_applied:
  assumes "rebuilt self" "restriction_exec c self = (Inr Applied, t)"
    and "\<not> uuid_is_nil (principal_uuid (request_subject (rc_request c)))"
  shows "rebuilt t"
proof -
  from restriction_Applied [OF assms(2)] obtain v where
    v: "version_next (mr_version self) = Some v" "t = record_transition (command_transition c v) self"
      "replay_kind_ok (command_transition c v) self" "validate_source (rc_source c) = Inr ()"
      "\<not> list_ex (\<lambda>e. ms_operation_id (rt_transition_source e) = ms_operation_id (rc_source c)) (mr_transitions self)"
      "later_than_last (rc_source c) self"
    by blast
  then have "replay_transition (command_transition c v) self = Inr t"
    using assms(3) by (simp add: replay_transition_Inr) (simp add: command_transition_def version_follows_def)
  with assms(1) v(2) show ?thesis by (auto simp: rebuilt_def replay_transitions_append)
qed

abbreviation identified_transition :: "restriction_transition \<Rightarrow> bool" where
  "identified_transition tr \<equiv> \<not> uuid_is_nil (principal_uuid (rt_actor_principal_id tr))"

lemma transitions_grow: "\<exists>trs. mr_transitions (run_commands restriction_exec cs self) = mr_transitions self @ trs"
proof (induction cs arbitrary: self)
  case (Cons c cs)
  have "\<exists>trs. mr_transitions (snd (restriction_exec c self)) = mr_transitions self @ trs"
    by (cases "restriction_exec c self" rule: outcome_cases) (auto dest: restriction_not_applied restriction_Applied)
  with Cons.IH [of "snd (restriction_exec c self)"] show ?case by auto
qed simp

lemma rebuilt_run:
  "\<lbrakk>rebuilt self; \<forall>tr \<in> set (mr_transitions (run_commands restriction_exec cs self)). identified_transition tr\<rbrakk> \<Longrightarrow>
   rebuilt (run_commands restriction_exec cs self)"
proof (induction cs arbitrary: self)
  case (Cons c cs)
  have "rebuilt (snd (restriction_exec c self))"
  proof (cases "restriction_exec c self" rule: outcome_cases)
    case (applied t)
    from restriction_Applied [OF applied] obtain v where t: "t = record_transition (command_transition c v) self" by blast
    have "set (mr_transitions t) \<subseteq> set (mr_transitions (run_commands restriction_exec cs t))"
      using transitions_grow [of cs t] by auto
    with Cons.prems(2) applied t have "identified_transition (command_transition c v)" by auto
    then have "\<not> uuid_is_nil (principal_uuid (request_subject (rc_request c)))" by (simp add: command_transition_def)
    with rebuilt_applied [OF Cons.prems(1) applied] applied show ?thesis by simp
  qed (use Cons.prems(1) restriction_not_applied in auto)
  with Cons show ?case by simp
qed simp

lemma replayed_identified: "replay_transitions trs self = Inr t \<Longrightarrow> \<forall>tr \<in> set trs. identified_transition tr"
  by (induction trs arbitrary: self) (auto simp: result_simps replay_transition_Inr)

lemma rebuilt_new: "restriction_new c p = Inr self \<Longrightarrow> rebuilt self \<and> restriction_ok self"
  by (auto simp: rebuilt_def restriction_new_def restriction_ok_def result_simps version_first_def version_num_def)

lemma rebuilt_from_record:
  assumes "rebuilt self" "restriction_ok self"
  shows "restriction_from_record self = Inr self"
proof -
  from assms(1) obtain fresh where
    "restriction_new (mr_community_id self) (mr_target_principal_id self) = Inr fresh"
    "replay_transitions (mr_transitions self) fresh = Inr self"
    by (auto simp: rebuilt_def)
  moreover from this(1) have "validate_community_and_principal (mr_community_id self) (mr_target_principal_id self) = Inr ()"
    by (auto simp: restriction_new_def result_simps)
  ultimately show ?thesis using assms(2) by (simp add: restriction_from_record_def restriction_ok_def)
qed

lemma replay_ok:
  "\<lbrakk>replay_transitions trs self = Inr t; restriction_ok self;
    length (mr_transitions self) + length trs \<le> MAX_RESTRICTION_TRANSITIONS\<rbrakk> \<Longrightarrow>
   restriction_ok t \<and> mr_transitions t = mr_transitions self @ trs"
proof (induction trs arbitrary: self)
  case (Cons tr trs)
  then obtain u where u: "replay_transition tr self = Inr u" "replay_transitions trs u = Inr t"
    by (auto simp: result_simps)
  have "tr \<notin> set (mr_transitions self) \<and> restriction_ok u"
    using u(1) Cons.prems(2,3) unfolding replay_transition_Inr restriction_ok_def
    by (auto simp: version_follows_def version_next_Some sorted_snoc later_than_last_def list_ex_iff last_map)
  moreover have "mr_transitions u = mr_transitions self @ [tr]" using u(1) by (simp add: replay_transition_Inr)
  ultimately show ?case using Cons.IH [OF u(2)] Cons.prems(3) by simp
qed simp

lemma restriction_from_record_ok:
  assumes "restriction_from_record f = Inr g"
  shows "g = f \<and> restriction_ok f"
proof -
  from assms obtain fresh u where g: "g = f" and bound: "length (mr_transitions f) \<le> MAX_RESTRICTION_TRANSITIONS"
      and fresh: "restriction_new (mr_community_id f) (mr_target_principal_id f) = Inr fresh"
      and u: "replay_transitions (mr_transitions f) fresh = Inr u" "mr_version u = mr_version f"
    by (auto simp: restriction_from_record_def result_simps not_less)
  have "mr_transitions fresh = []" using fresh by (auto simp: restriction_new_def result_simps)
  with replay_ok [OF u(1)] rebuilt_new [OF fresh] bound u(2) have "restriction_ok f" by (auto simp: restriction_ok_def)
  with g show ?thesis by simp
qed

text \<open>C29. Restrictions survive storage: after any run of commands on a new restriction, its record loads back
  unchanged exactly when every transition in it has an identified actor; and whatever loads has a
  consistent history, with one version per transition, no operation twice and times that do not go back.
  (Commands let an administrator with the nil identifier restrict members, and the loader refuses what
  they stored.)\<close>

theorem restriction_record_roundtrip:
  assumes "restriction_new c p = Inr self"
  shows "(restriction_from_record (run_commands restriction_exec cs self) = Inr (run_commands restriction_exec cs self)
      \<longleftrightarrow> (\<forall>tr \<in> set (mr_transitions (run_commands restriction_exec cs self)). identified_transition tr))
    \<and> (\<forall>f g. restriction_from_record f = Inr g \<longrightarrow> g = f \<and> restriction_ok f)"
proof -
  let ?t = "run_commands restriction_exec cs self"
  have "restriction_from_record ?t = Inr ?t" if "\<forall>tr \<in> set (mr_transitions ?t). identified_transition tr"
    using rebuilt_from_record [OF rebuilt_run restriction.run_invar] rebuilt_new [OF assms] that by blast
  moreover have "\<forall>tr \<in> set (mr_transitions ?t). identified_transition tr" if "restriction_from_record ?t = Inr ?t"
    using that replayed_identified by (auto simp: restriction_from_record_def result_simps)
  ultimately show ?thesis using restriction_from_record_ok by blast
qed

definition moderator_request :: authorization_request where
  "moderator_request =
     (community_request Manage Owner)
       \<lparr>rq_principal := zed_account alice sample_community (ServiceAccountId 3)
          {AuthorizationScope MODERATION_MANAGE_SCOPE},
        rq_required_scope := AuthorizationScope MODERATION_MANAGE_SCOPE,
        rq_resource := \<lparr>rs_community_id = sample_community, rs_kind = AdministrationResource,
          rs_resource_id = community_resource sample_community, rs_owner_principal_id = None, rs_channel_id = None\<rparr>\<rparr>"

definition bob_target :: community_membership where
  "bob_target = \<lparr>cm_community_id = sample_community, cm_principal_id = bob, cm_role = Member,
     cm_status = MemberActive, cm_version = version_of 3\<rparr>"

definition sample_ban :: restriction_command where
  "sample_ban = RestrictionCommand (ApplyBan None) version_first
     \<lparr>ms_operation_id = OperationId 40, ms_occurred_at_millis = 900\<rparr> bob_target (version_of 3) moderator_request"

definition unrestricted_bob :: moderation_restriction where
  "unrestricted_bob =
     \<lparr>mr_community_id = sample_community, mr_target_principal_id = bob, mr_ban = BanNone,
      mr_timeout = TimeoutNone, mr_transitions = [], mr_version = version_first\<rparr>"

definition banned_bob :: moderation_restriction where
  "banned_bob = record_transition (command_transition sample_ban (version_of 2)) unrestricted_bob"

lemma moderator_subject: "request_subject moderator_request = alice"
  by (simp add: moderator_request_def request_subject_def authorization_subject_def sample_defs)

lemma moderator_authorized: "validate_administration_authorization sample_community moderator_request = Inr ()"
  by (simp add: validate_administration_authorization_def validate_member_authorization_def moderator_request_def
      sample_defs authorize_eval result_simps)

lemma sample_ban_applied: "restriction_exec sample_ban unrestricted_bob = (Inr Applied, banned_bob)"
proof -
  have "authorize_transition bob_target (version_of 3) moderator_request unrestricted_bob = Inr alice"
    by (simp add: authorize_transition_Inr moderator_subject)
      (simp add: unrestricted_bob_def bob_target_def moderator_authorized, simp add: moderator_request_def sample_defs)
  moreover have "version_next version_first = Some (version_of 2)"
    by (simp add: version_next_Some version_first_def version_of_def version_num_def)
  ultimately show ?thesis
    by (simp add: restriction_exec_def sample_ban_def apply_ban_def restriction_transition_Applied validate_source_def
        uuid_is_nil_def later_than_last_def banned_bob_def command_transition_def moderator_subject)
      (simp add: unrestricted_bob_def MAX_RESTRICTION_TRANSITIONS_def)
qed

text \<open>The same ban by an administrator with the nil identifier.\<close>

definition nil_moderator_request :: authorization_request where
  "nil_moderator_request =
     moderator_request
       \<lparr>rq_principal := zed_account (PrincipalId 0) sample_community (ServiceAccountId 3)
          {AuthorizationScope MODERATION_MANAGE_SCOPE},
        rq_community_membership := Some ((alice_membership Owner)\<lparr>cm_principal_id := PrincipalId 0\<rparr>)\<rparr>"

definition nil_ban :: restriction_command where
  "nil_ban = RestrictionCommand (ApplyBan None) version_first
     \<lparr>ms_operation_id = OperationId 40, ms_occurred_at_millis = 900\<rparr> bob_target (version_of 3) nil_moderator_request"

definition nil_banned_bob :: moderation_restriction where
  "nil_banned_bob = record_transition (command_transition nil_ban (version_of 2)) unrestricted_bob"

lemma nil_moderator_subject: "request_subject nil_moderator_request = PrincipalId 0"
  by (simp add: nil_moderator_request_def request_subject_def authorization_subject_def zed_account_def)

lemma nil_ban_applied: "restriction_exec nil_ban unrestricted_bob = (Inr Applied, nil_banned_bob)"
proof -
  have "validate_administration_authorization sample_community nil_moderator_request = Inr ()"
    by (simp add: validate_administration_authorization_def validate_member_authorization_def nil_moderator_request_def
        moderator_request_def sample_defs authorize_eval result_simps)
  then have "authorize_transition bob_target (version_of 3) nil_moderator_request unrestricted_bob = Inr (PrincipalId 0)"
    by (simp add: authorize_transition_Inr nil_moderator_subject)
      (simp add: unrestricted_bob_def bob_target_def nil_moderator_request_def sample_defs)
  moreover have "version_next version_first = Some (version_of 2)"
    by (simp add: version_next_Some version_first_def version_of_def version_num_def)
  ultimately show ?thesis
    by (simp add: restriction_exec_def nil_ban_def apply_ban_def restriction_transition_Applied validate_source_def
        uuid_is_nil_def later_than_last_def nil_banned_bob_def command_transition_def nil_moderator_subject)
      (simp add: unrestricted_bob_def MAX_RESTRICTION_TRANSITIONS_def)
qed

theorem restriction_record_roundtrip_witness:
  "restriction_from_record banned_bob = Inr banned_bob
   \<and> restriction_exec nil_ban unrestricted_bob = (Inr Applied, nil_banned_bob)
   \<and> restriction_from_record nil_banned_bob \<noteq> Inr nil_banned_bob"
proof -
  have new: "restriction_new sample_community bob = Inr unrestricted_bob"
    by (simp add: restriction_new_def validate_community_and_principal_def uuid_is_nil_def unrestricted_bob_def sample_defs)
  have "request_subject (rc_request sample_ban) = alice" by (simp add: sample_ban_def moderator_subject)
  then have "restriction_from_record banned_bob = Inr banned_bob"
    using restriction_record_roundtrip [OF new, of "[sample_ban]"] sample_ban_applied
    by (simp add: banned_bob_def unrestricted_bob_def command_transition_def uuid_is_nil_def alice_def)
  moreover have "request_subject (rc_request nil_ban) = PrincipalId 0" by (simp add: nil_ban_def nil_moderator_subject)
  then have "restriction_from_record nil_banned_bob \<noteq> Inr nil_banned_bob"
    using restriction_record_roundtrip [OF new, of "[nil_ban]"] nil_ban_applied
    by (simp add: nil_banned_bob_def unrestricted_bob_def command_transition_def uuid_is_nil_def)
  ultimately show ?thesis using nil_ban_applied by blast
qed

text \<open>Who may restrict whom: an applied restriction command was allowed by the authorization policy for
  moderators, by somebody other than the target, on a current membership of the target in the
  community, and the target is not an owner; administrators do not restrict each other.\<close>

theorem restriction_authority:
  assumes "restriction_exec c self = (Inr Applied, t)"
  shows "authorize (rc_request c) = Allowed
    \<and> rq_required_scope (rc_request c) = AuthorizationScope MODERATION_MANAGE_SCOPE
    \<and> rs_community_id (rq_resource (rc_request c)) = mr_community_id self
    \<and> request_subject (rc_request c) \<noteq> mr_target_principal_id self
    \<and> cm_principal_id (rc_target c) = mr_target_principal_id self
    \<and> cm_version (rc_target c) = rc_target_version c \<and> cm_role (rc_target c) \<noteq> Owner
    \<and> (\<exists>m. rq_community_membership (rc_request c) = Some m
         \<and> (cm_role m = Owner \<or> cm_role m = Admin \<and> cm_role (rc_target c) \<noteq> Admin))"
proof -
  from restriction_Applied [OF assms] have auth:
    "authorize_transition (rc_target c) (rc_target_version c) (rc_request c) self = Inr (request_subject (rc_request c))"
    by blast
  then have admin: "validate_administration_authorization (mr_community_id self) (rc_request c) = Inr ()"
    by (simp add: authorize_transition_Inr)
  then have "authorize (rc_request c) = Allowed
      \<and> rq_required_scope (rc_request c) = AuthorizationScope MODERATION_MANAGE_SCOPE
      \<and> rs_community_id (rq_resource (rc_request c)) = mr_community_id self"
    by (auto simp: validate_administration_authorization_def validate_member_authorization_def result_simps
        split: if_splits authorization_decision.splits)
  with auth admin show ?thesis
    by (auto simp: authorize_transition_Inr validate_administration_authorization_def result_simps)
qed

theorem restriction_authority_witness: "authorize moderator_request = Allowed \<and> cm_role bob_target \<noteq> Owner"
  using restriction_authority [OF sample_ban_applied] by (simp add: sample_ban_def)

section \<open>Reports and mutes\<close>

datatype report_command =
  ResolveReport (rv_expected: aggregate_version) moderation_resolution moderation_source authorization_request

fun report_exec ::
  "report_command \<Rightarrow> moderation_report \<Rightarrow> (moderation_report, moderation_error, command_outcome) effect" where
  "report_exec (ResolveReport v resolution source r) = resolve v resolution source r"

definition report_ok :: "moderation_report \<Rightarrow> bool" where
  "report_ok self \<longleftrightarrow>
     (case rp_state self of
        ReportOpen \<Rightarrow> rp_version self = version_first
      | Resolved record \<Rightarrow> version_num (rp_version self) = 2
          \<and> ms_occurred_at_millis (rp_filed_source self) \<le> ms_occurred_at_millis (rr_source record)
          \<and> ms_operation_id (rr_source record) \<noteq> ms_operation_id (rp_filed_source self))"

lemma report_advance_version_Inr [result_simps]:
  "report_advance_version c = (Inr u, c') \<longleftrightarrow>
     (\<exists>v. version_next (rp_version c) = Some v \<and> c' = c\<lparr>rp_version := v\<rparr>)"
  by (auto simp: report_advance_version_def result_simps)

lemma report_advance_version_Inl [result_simps]:
  "report_advance_version c = (Inl e, c') \<longleftrightarrow>
     version_next (rp_version c) = None \<and> e = VersionExhausted \<and> c' = c"
  by (auto simp: report_advance_version_def result_simps)

lemma report_Applied:
  assumes "report_exec c self = (Inr Applied, t)"
  shows "rv_expected c = rp_version self \<and> version_next (rp_version self) = Some (rp_version t)
    \<and> rp_state self = ReportOpen \<and> rp_report_id t = rp_report_id self
    \<and> rp_filed_source t = rp_filed_source self
    \<and> (\<exists>record. rp_state t = Resolved record
         \<and> ms_occurred_at_millis (rp_filed_source self) \<le> ms_occurred_at_millis (rr_source record)
         \<and> ms_operation_id (rr_source record) \<noteq> ms_operation_id (rp_filed_source self))"
  using assms
  by (cases c)
    (auto simp: resolve_def Let_def result_simps report_require_version_def
      split: report_state.splits if_splits)

lemma report_ok_applied:
  assumes "report_ok self" "report_exec c self = (Inr Applied, t)"
  shows "report_ok t"
proof -
  from report_Applied [OF assms(2)] obtain rr where t: "rp_state t = Resolved rr"
      "version_next (rp_version self) = Some (rp_version t)" "rp_state self = ReportOpen"
      "rp_filed_source t = rp_filed_source self"
      "ms_occurred_at_millis (rp_filed_source self) \<le> ms_occurred_at_millis (rr_source rr)"
      "ms_operation_id (rr_source rr) \<noteq> ms_operation_id (rp_filed_source self)"
    by blast
  from assms(1) t(3) have "version_num (rp_version self) = 1"
    by (simp add: report_ok_def version_first_def version_num_def)
  with t show ?thesis by (simp add: report_ok_def version_next_Some)
qed

lemma report_Unchanged: "report_exec c self = (Inr Unchanged, t) \<Longrightarrow> t = self"
  by (cases c) (auto simp: resolve_def Let_def result_simps split: report_state.splits if_splits)

lemma report_failed:
  "report_exec c self = (Inl e, t) \<Longrightarrow>
     rp_version t = rp_version self \<and> (version_next (rp_version self) \<noteq> None \<or> rp_state self \<noteq> ReportOpen \<longrightarrow> t = self)
     \<and> rp_report_id t = rp_report_id self \<and> (report_ok self \<longrightarrow> t = self)"
  by (cases c)
    (auto simp: resolve_def Let_def result_simps report_ok_def version_first_def version_next_None version_num_def
      split: report_state.splits if_splits)

interpretation report: terminal_aggregate report_exec rp_version rv_expected rp_report_id report_ok
  "\<lambda>self. rp_state self \<noteq> ReportOpen"
proof unfold_locales
  fix c s
  show "rp_report_id (snd (report_exec c s)) = rp_report_id s"
    by (cases "report_exec c s" rule: outcome_cases) (auto dest: report_Unchanged report_failed report_Applied)
  show "report_ok (snd (report_exec c s))" if "report_ok s"
    using that by (cases "report_exec c s" rule: outcome_cases)
      (auto dest: report_Unchanged report_failed report_ok_applied)
next
  fix c and s :: moderation_report
  assume "rp_state s \<noteq> ReportOpen"
  then show "fst (report_exec c s) \<noteq> Inr Applied" by (metis prod.collapse report_Applied)
qed (auto dest: report_Unchanged report_failed report_Applied)


text \<open>A report is resolved once: after its resolution no command changes it, whoever sends it and
  however often it is delivered again.\<close>

theorem report_resolved_once:
  assumes "report_exec c self = (Inr Applied, t)"
  shows "rp_state self = ReportOpen \<and> run_commands report_exec cs t = t"
proof -
  from report_Applied [OF assms] have "rp_state self = ReportOpen" "rp_state t \<noteq> ReportOpen" by auto
  with report.terminal_run show ?thesis by blast
qed

datatype mute_command =
  SetMute (sm_expected: aggregate_version) mute_state (sm_source: moderation_source) authorization_request

fun mute_exec :: "mute_command \<Rightarrow> personal_mute \<Rightarrow> (personal_mute, moderation_error, command_outcome) effect" where
  "mute_exec (SetMute v state source r) = mute_set_state v state source r"

definition mute_loads :: "personal_mute \<Rightarrow> bool" where
  "mute_loads self \<longleftrightarrow>
     mute_replay [] Unmuted version_first None (pm_transitions self) = Inr (pm_state self, pm_version self)
     \<and> length (pm_transitions self) \<le> MAX_PERSONAL_MUTE_TRANSITIONS"

lemma mute_replay_snoc:
  "mute_replay seen state v previous (trs @ [tr]) =
     and_then (mute_replay seen state v previous trs) (\<lambda>(state', v').
       mute_replay (seen @ trs) state' v'
         (if trs = [] then previous else Some (ms_occurred_at_millis (mt_source (last trs)))) [tr])"
proof (induction trs arbitrary: seen state v previous)
  case (Cons t trs)
  show ?case
    by (cases "validate_source (mt_source t)") (simp_all add: Cons.IH)
qed simp

lemma mute_Applied:
  assumes "mute_exec c self = (Inr Applied, t)"
  shows "sm_expected c = pm_version self \<and> version_next (pm_version self) = Some (pm_version t)
    \<and> (mute_loads self \<longrightarrow> mute_loads t)
    \<and> (pm_community_id t, pm_owner_principal_id t, pm_muted_principal_id t) =
        (pm_community_id self, pm_owner_principal_id self, pm_muted_principal_id self)"
proof (cases c)
  case (SetMute v state source r)
  with assms obtain w where w: "validate_source source = Inr ()" "pm_version self = v" "pm_state self \<noteq> state"
      "\<not> list_ex (\<lambda>e. ms_operation_id (mt_source e) = ms_operation_id source) (pm_transitions self)"
      "length (pm_transitions self) < MAX_PERSONAL_MUTE_TRANSITIONS"
      "\<not> (pm_transitions self \<noteq> [] \<and> ms_occurred_at_millis source < ms_occurred_at_millis (mt_source (last (pm_transitions self))))"
      "version_next (pm_version self) = Some w"
      "t = self\<lparr>pm_transitions := pm_transitions self @ [\<lparr>mt_state = state, mt_source = source, mt_resulting_version = w\<rparr>],
              pm_state := state, pm_version := w\<rparr>"
    by (auto simp: mute_set_state_def attempt_Inr ok_or_Inr ensure_Inr find_None_iff list_ex_iff not_le
        split: option.splits if_splits dest!: find_Some_iff [THEN iffD1])
  then have "mute_loads self \<longrightarrow> mute_loads t"
    by (auto simp: mute_loads_def mute_replay_snoc version_follows_def)
  with w SetMute show ?thesis by simp
qed

lemma mute_other: "mute_exec c self = (res, t) \<Longrightarrow> res \<noteq> Inr Applied \<Longrightarrow> t = self"
  by (cases c)
    (auto simp: mute_set_state_def attempt_def split: sum.splits option.splits if_splits)

interpretation mute: versioned_aggregate mute_exec pm_version sm_expected
  "\<lambda>self. (pm_community_id self, pm_owner_principal_id self, pm_muted_principal_id self)" mute_loads
proof unfold_locales
  fix c s
  show "(pm_community_id (snd (mute_exec c s)), pm_owner_principal_id (snd (mute_exec c s)), pm_muted_principal_id (snd (mute_exec c s))) =
      (pm_community_id s, pm_owner_principal_id s, pm_muted_principal_id s)"
    by (cases "mute_exec c s" rule: outcome_cases) (auto dest: mute_other mute_Applied)
  show "mute_loads (snd (mute_exec c s))" if "mute_loads s"
    using that by (cases "mute_exec c s" rule: outcome_cases) (auto dest: mute_other mute_Applied)
qed (auto dest: mute_other mute_Applied)

text \<open>A personal mute loads back: whatever its owner does with a new mute, the stored record passes the
  replay of its transitions, and its version counts the changes.\<close>

theorem mute_record_roundtrip:
  assumes "mute_new c p r = Inr self" "\<not> uuid_is_nil (community_uuid c)" "\<not> uuid_is_nil (principal_uuid (request_subject r))"
  shows "mute_from_record (run_commands mute_exec cs self) = Inr (run_commands mute_exec cs self)
    \<and> version_num (pm_version (run_commands mute_exec cs self)) = 1 + count_applied mute_exec cs self"
proof -
  let ?t = "run_commands mute_exec cs self"
  from assms(1) have new: "pm_community_id self = c" "pm_owner_principal_id self = request_subject r"
      "pm_muted_principal_id self = p" "request_subject r \<noteq> p" "\<not> uuid_is_nil (principal_uuid p)"
      "pm_version self = version_first" "mute_loads self"
    by (auto simp: mute_new_def result_simps mute_loads_def validate_principal_id_def)
  from mute.run_identity [of cs self] new have id: "pm_community_id ?t = c" "pm_owner_principal_id ?t = request_subject r"
      "pm_muted_principal_id ?t = p"
    by simp_all
  from mute.run_invar [OF new(7)] have "mute_loads ?t" .
  with id new assms have "mute_from_record ?t = Inr ?t"
    by (auto simp: mute_from_record_def mute_loads_def validate_community_and_principal_def validate_principal_id_def)
  moreover have "version_num version_first = 1" by (simp add: version_first_def version_num_def)
  ultimately show ?thesis using mute.run_version [of cs self] new(6) by simp
qed


end
