(* ===== verification/ModerationPolicy.thy ===== *)
theory ModerationPolicy
  imports Moderation CommunityDeletion
begin

text \<open>
  Authorization under moderation (\<open>moderation_policy.rs\<close>): after the access decision, the restriction of
  the person, the archive state of the person and of the community, and the attribution of
  historical content are consulted. A snapshot that is unavailable or ambiguous denies. The decision
  is shown to implement a policy stated without the order of the tests, and bans and timeouts to
  take effect on the decision.
\<close>

section \<open>Data\<close>

datatype 'a moderation_snapshot = Absent | Current 'a | Unavailable | Ambiguous

datatype identity_archive_policy_state = IdentityVisible | IdentityArchivedState

record identity_archive_snapshot =
  ia_community_id :: community_id
  ia_principal_id :: principal_id
  ia_state :: identity_archive_policy_state
  ia_version :: aggregate_version

record historical_attribution_snapshot =
  ha_community_id :: community_id
  ha_principal_id :: principal_id
  ha_identity_archive :: "identity_archive_snapshot moderation_snapshot"

datatype moderation_resource_context = CurrentContext | HistoricalAttribution historical_attribution_snapshot

record moderation_authorization_request =
  mq_authorization :: authorization_request
  mq_restriction :: "moderation_restriction moderation_snapshot"
  mq_principal_archive :: "identity_archive_snapshot moderation_snapshot"
  mq_community_archive :: "community_archive_snapshot moderation_snapshot"
  mq_resource_context :: moderation_resource_context

record moderation_authorization =
  ma_community_id :: community_id
  ma_principal_id :: principal_id
  ma_action :: authorization_action
  ma_historical_attribution_principal_id :: "principal_id option"

datatype moderation_authorization_denial =
    AuthorizationDenied authorization_denial | PolicyTenantMismatch | InvalidPolicyInput | PolicyUnavailable
  | AmbiguousPolicyState | Banned | TimedOut | IdentityArchived | PolicyCommunityArchived

datatype moderation_decision =
  ModerationAllowed moderation_authorization | ModerationDenied moderation_authorization_denial

section \<open>The decision\<close>

definition resolve_snapshot :: "'a moderation_snapshot \<Rightarrow> moderation_authorization_denial + 'a option" where
  "resolve_snapshot snapshot =
     (case snapshot of
        Absent \<Rightarrow> Inr None
      | Current value \<Rightarrow> Inr (Some value)
      | Unavailable \<Rightarrow> Inl PolicyUnavailable
      | Ambiguous \<Rightarrow> Inl AmbiguousPolicyState)"

definition check_restriction ::
  "authorization_request \<Rightarrow> moderation_restriction option \<Rightarrow> moderation_authorization_denial + unit" where
  "check_restriction r restriction =
     (case restriction of
        None \<Rightarrow> Inr ()
      | Some restriction \<Rightarrow>
          if mr_community_id restriction \<noteq> tc_community_id (rq_tenant r)
             \<or> mr_target_principal_id restriction \<noteq> request_subject r then Inl PolicyTenantMismatch
          else if ban_is_active_at (mr_ban restriction) (rq_now_millis r) then Inl Banned
          else if rq_action r \<noteq> Read \<and> timeout_is_active_at (mr_timeout restriction) (rq_now_millis r)
          then Inl TimedOut
          else Inr ())"

definition check_principal_archive ::
  "authorization_request \<Rightarrow> identity_archive_snapshot option \<Rightarrow> moderation_authorization_denial + unit" where
  "check_principal_archive r archive =
     (case archive of
        None \<Rightarrow> Inr ()
      | Some archive \<Rightarrow>
          if ia_community_id archive \<noteq> tc_community_id (rq_tenant r)
             \<or> ia_principal_id archive \<noteq> request_subject r then Inl PolicyTenantMismatch
          else if ia_state archive = IdentityArchivedState then Inl IdentityArchived
          else Inr ())"

definition check_community_archive ::
  "authorization_request \<Rightarrow> community_archive_snapshot option \<Rightarrow> moderation_authorization_denial + unit" where
  "check_community_archive r archive =
     (case archive of
        None \<Rightarrow> Inr ()
      | Some archive \<Rightarrow>
          if as_community_id archive \<noteq> tc_community_id (rq_tenant r) then Inl PolicyTenantMismatch
          else if as_state archive = CommunityArchived \<and> rq_action r \<noteq> Read then Inl PolicyCommunityArchived
          else Inr ())"

definition check_attribution ::
  "authorization_request \<Rightarrow> moderation_resource_context \<Rightarrow> moderation_authorization_denial + principal_id option" where
  "check_attribution r resource =
     (case resource of
        CurrentContext \<Rightarrow> Inr None
      | HistoricalAttribution attribution \<Rightarrow>
          if rq_action r \<noteq> Read \<or> ha_community_id attribution \<noteq> tc_community_id (rq_tenant r)
             \<or> uuid_is_nil (principal_uuid (ha_principal_id attribution)) then Inl InvalidPolicyInput
          else and_then (resolve_snapshot (ha_identity_archive attribution)) (\<lambda>archive.
            if is_some_and archive (\<lambda>archive. ia_community_id archive \<noteq> tc_community_id (rq_tenant r)
                 \<or> ia_principal_id archive \<noteq> ha_principal_id attribution)
            then Inl PolicyTenantMismatch
            else Inr (Some (ha_principal_id attribution))))"

definition moderation_result ::
  "moderation_authorization_request \<Rightarrow> moderation_authorization_denial + moderation_authorization" where
  "moderation_result q =
     (let r = mq_authorization q in
      case authorize r of
        Denied denial \<Rightarrow> Inl (AuthorizationDenied denial)
      | Allowed \<Rightarrow>
          and_then (resolve_snapshot (mq_restriction q)) (\<lambda>restriction.
          and_then (resolve_snapshot (mq_principal_archive q)) (\<lambda>principal_archive.
          and_then (resolve_snapshot (mq_community_archive q)) (\<lambda>community_archive.
          and_then (check_restriction r restriction) (\<lambda>_.
          and_then (check_principal_archive r principal_archive) (\<lambda>_.
          and_then (check_community_archive r community_archive) (\<lambda>_.
          and_then (check_attribution r (mq_resource_context q)) (\<lambda>attribution.
          Inr \<lparr>ma_community_id = tc_community_id (rq_tenant r), ma_principal_id = request_subject r,
               ma_action = rq_action r, ma_historical_attribution_principal_id = attribution\<rparr>))))))))"

definition authorize_with_moderation :: "moderation_authorization_request \<Rightarrow> moderation_decision" where
  "authorize_with_moderation q =
     (case moderation_result q of Inl denial \<Rightarrow> ModerationDenied denial | Inr auth \<Rightarrow> ModerationAllowed auth)"

section \<open>The policy\<close>

text \<open>A snapshot is known when it is current or known to be absent.\<close>

definition known :: "'a moderation_snapshot \<Rightarrow> bool" where
  "known s \<longleftrightarrow> s \<noteq> Unavailable \<and> s \<noteq> Ambiguous"

lemma resolve_snapshot_Inr [result_simps]:
  "resolve_snapshot s = Inr v \<longleftrightarrow> known s \<and> v = (case s of Current x \<Rightarrow> Some x | _ \<Rightarrow> None)"
  by (cases s) (auto simp: resolve_snapshot_def known_def)

definition restriction_permits :: "authorization_request \<Rightarrow> moderation_restriction \<Rightarrow> bool" where
  "restriction_permits r restriction \<longleftrightarrow>
     mr_community_id restriction = tc_community_id (rq_tenant r)
     \<and> mr_target_principal_id restriction = request_subject r
     \<and> \<not> ban_is_active_at (mr_ban restriction) (rq_now_millis r)
     \<and> (rq_action r = Read \<or> \<not> timeout_is_active_at (mr_timeout restriction) (rq_now_millis r))"

definition principal_visible :: "authorization_request \<Rightarrow> identity_archive_snapshot \<Rightarrow> bool" where
  "principal_visible r archive \<longleftrightarrow>
     ia_community_id archive = tc_community_id (rq_tenant r) \<and> ia_principal_id archive = request_subject r
     \<and> ia_state archive = IdentityVisible"

definition community_open_for :: "authorization_request \<Rightarrow> community_archive_snapshot \<Rightarrow> bool" where
  "community_open_for r archive \<longleftrightarrow>
     as_community_id archive = tc_community_id (rq_tenant r)
     \<and> (as_state archive = CommunityArchived \<longrightarrow> rq_action r = Read)"

definition attribution_permits :: "authorization_request \<Rightarrow> historical_attribution_snapshot \<Rightarrow> bool" where
  "attribution_permits r attribution \<longleftrightarrow>
     rq_action r = Read \<and> ha_community_id attribution = tc_community_id (rq_tenant r)
     \<and> \<not> uuid_is_nil (principal_uuid (ha_principal_id attribution)) \<and> known (ha_identity_archive attribution)
     \<and> (\<forall>archive. ha_identity_archive attribution = Current archive \<longrightarrow>
          ia_community_id archive = tc_community_id (rq_tenant r) \<and> ia_principal_id archive = ha_principal_id attribution)"

definition moderation_permits :: "moderation_authorization_request \<Rightarrow> bool" where
  "moderation_permits q \<longleftrightarrow>
     (let r = mq_authorization q in
      known (mq_restriction q) \<and> known (mq_principal_archive q) \<and> known (mq_community_archive q)
      \<and> (\<forall>x. mq_restriction q = Current x \<longrightarrow> restriction_permits r x)
      \<and> (\<forall>x. mq_principal_archive q = Current x \<longrightarrow> principal_visible r x)
      \<and> (\<forall>x. mq_community_archive q = Current x \<longrightarrow> community_open_for r x)
      \<and> (\<forall>x. mq_resource_context q = HistoricalAttribution x \<longrightarrow> attribution_permits r x))"

definition attributed :: "moderation_resource_context \<Rightarrow> principal_id option" where
  "attributed resource = (case resource of CurrentContext \<Rightarrow> None | HistoricalAttribution x \<Rightarrow> Some (ha_principal_id x))"

lemma check_restriction_Inr [result_simps]:
  "check_restriction r s = Inr u \<longleftrightarrow> (\<forall>x. s = Some x \<longrightarrow> restriction_permits r x)"
  by (auto simp: check_restriction_def restriction_permits_def split: option.splits)

lemma check_principal_archive_Inr [result_simps]:
  "check_principal_archive r s = Inr u \<longleftrightarrow> (\<forall>x. s = Some x \<longrightarrow> principal_visible r x)"
  by (cases s; cases "ia_state (the s)")
    (auto simp: check_principal_archive_def principal_visible_def)

lemma check_community_archive_Inr [result_simps]:
  "check_community_archive r s = Inr u \<longleftrightarrow> (\<forall>x. s = Some x \<longrightarrow> community_open_for r x)"
  by (auto simp: check_community_archive_def community_open_for_def split: option.splits)

lemma check_attribution_Inr [result_simps]:
  "check_attribution r ctx = Inr a \<longleftrightarrow>
     a = attributed ctx \<and> (\<forall>x. ctx = HistoricalAttribution x \<longrightarrow> attribution_permits r x)"
proof (cases ctx)
  case (HistoricalAttribution x)
  then show ?thesis
    by (cases "ha_identity_archive x")
      (auto simp: check_attribution_def attributed_def attribution_permits_def resolve_snapshot_def known_def)
qed (auto simp: check_attribution_def attributed_def)

lemma snapshot_cases: "(\<forall>x. (case s of Current x \<Rightarrow> Some x | _ \<Rightarrow> None) = Some x \<longrightarrow> P x) \<longleftrightarrow> (\<forall>x. s = Current x \<longrightarrow> P x)"
  by (cases s) auto

lemma moderation_iff:
  "authorize_with_moderation q = ModerationAllowed a \<longleftrightarrow>
     authorized (mq_authorization q) \<and> moderation_permits q
     \<and> a = \<lparr>ma_community_id = tc_community_id (rq_tenant (mq_authorization q)),
            ma_principal_id = request_subject (mq_authorization q), ma_action = rq_action (mq_authorization q),
            ma_historical_attribution_principal_id = attributed (mq_resource_context q)\<rparr>"
proof -
  have "authorize_with_moderation q = ModerationAllowed a \<longleftrightarrow> moderation_result q = Inr a"
    by (simp add: authorize_with_moderation_def split: sum.splits)
  also have "\<dots> \<longleftrightarrow> authorized (mq_authorization q) \<and> moderation_permits q
     \<and> a = \<lparr>ma_community_id = tc_community_id (rq_tenant (mq_authorization q)),
            ma_principal_id = request_subject (mq_authorization q), ma_action = rq_action (mq_authorization q),
            ma_historical_attribution_principal_id = attributed (mq_resource_context q)\<rparr>"
  proof (cases "authorize (mq_authorization q)")
    case Allowed
    then have "authorized (mq_authorization q)" by (simp add: authorize_iff [symmetric])
    with Allowed show ?thesis
      by (simp add: moderation_result_def Let_def result_simps snapshot_cases moderation_permits_def) blast
  next
    case (Denied d)
    then have "\<not> authorized (mq_authorization q)" by (simp add: authorize_iff [symmetric])
    with Denied show ?thesis by (simp add: moderation_result_def)
  qed
  finally show ?thesis .
qed

text \<open>C27. Moderation only restricts: a request passes the moderated decision exactly when the access policy
  authorizes it and every moderation snapshot is known, concerns the subject of the request in its
  tenant, and permits the action now. The permission names the tenant, the subject and the action of
  the request.\<close>

theorem moderation_implements_policy:
  "authorize_with_moderation q = ModerationAllowed a \<longleftrightarrow>
     authorized (mq_authorization q) \<and> moderation_permits q
     \<and> a = \<lparr>ma_community_id = tc_community_id (rq_tenant (mq_authorization q)),
            ma_principal_id = request_subject (mq_authorization q), ma_action = rq_action (mq_authorization q),
            ma_historical_attribution_principal_id = attributed (mq_resource_context q)\<rparr>"
  by (rule moderation_iff)

section \<open>Bans and timeouts take effect\<close>

definition touches_ban :: "restriction_kind \<Rightarrow> bool" where
  "touches_ban k \<longleftrightarrow> (case k of ApplyBan _ \<Rightarrow> True | LiftBan \<Rightarrow> True | _ \<Rightarrow> False)"

lemma ban_kept:
  "\<not> touches_ban (rc_kind c) \<Longrightarrow> mr_ban (snd (restriction_exec c self)) = mr_ban self"
proof (cases "restriction_exec c self" rule: outcome_cases)
  case (applied t)
  assume "\<not> touches_ban (rc_kind c)"
  with applied restriction_Applied [OF applied] show ?thesis
    by (auto simp: record_transition_def set_restriction_state_def Moderation.command_transition_def touches_ban_def
        split: restriction_kind.splits)
qed (auto dest: restriction_not_applied)

lemma run_ban_kept:
  "\<forall>c \<in> set cs. \<not> touches_ban (rc_kind c) \<Longrightarrow>
     mr_ban (run_commands restriction_exec cs self) = mr_ban self"
  by (induction cs arbitrary: self) (simp_all add: ban_kept)

lemma denied_when_not_permitted:
  "mq_restriction q = Current x \<Longrightarrow> \<not> restriction_permits (mq_authorization q) x \<Longrightarrow>
     authorize_with_moderation q \<noteq> ModerationAllowed a"
  by (auto simp: moderation_iff moderation_permits_def Let_def)

text \<open>C28. A ban takes effect at once and lasts: after a ban has been applied, whatever commands other than
  bans and their lifting follow, no request of the banned person in the community is allowed, for
  any action, while the ban has not expired.\<close>

theorem ban_takes_effect:
  assumes "restriction_exec (RestrictionCommand (ApplyBan expires) v s tm tv r) self = (Inr Applied, t)"
    and "\<forall>c \<in> set cs. \<not> touches_ban (rc_kind c)"
    and "mq_restriction q = Current (run_commands restriction_exec cs t)"
    and "\<forall>e. expires = Some e \<longrightarrow> rq_now_millis (mq_authorization q) < e"
  shows "authorize_with_moderation q \<noteq> ModerationAllowed a"
proof (rule denied_when_not_permitted [OF assms(3)])
  from restriction_Applied [OF assms(1)] have "\<exists>actor. mr_ban t = BanActive expires actor s"
    by (auto simp: record_transition_def set_restriction_state_def Moderation.command_transition_def)
  with run_ban_kept [OF assms(2), of t] assms(4)
  show "\<not> restriction_permits (mq_authorization q) (run_commands restriction_exec cs t)"
    by (auto simp: restriction_permits_def ban_is_active_at_def split: option.splits)
qed

definition bob_request :: moderation_authorization_request where
  "bob_request =
     \<lparr>mq_authorization = (community_request Read Member)
        \<lparr>rq_principal := zed_account bob sample_community (ServiceAccountId 4) {sample_scope},
         rq_community_membership := Some bob_target, rq_current_membership_version := version_of 3\<rparr>,
      mq_restriction = Current banned_bob, mq_principal_archive = Absent, mq_community_archive = Absent,
      mq_resource_context = CurrentContext\<rparr>"

theorem ban_takes_effect_witness: "\<forall>a. authorize_with_moderation bob_request \<noteq> ModerationAllowed a"
  using ban_takes_effect [of None version_first "\<lparr>ms_operation_id = OperationId 40, ms_occurred_at_millis = 900\<rparr>"
      bob_target "version_of 3" moderator_request unrestricted_bob banned_bob "[]" bob_request]
    sample_ban_applied
  by (simp add: sample_ban_def bob_request_def)

text \<open>The refusal in the sample is the ban: without the restriction the request is allowed.\<close>

lemma bob_request_otherwise_allowed:
  "\<exists>a. authorize_with_moderation (bob_request\<lparr>mq_restriction := Absent\<rparr>) = ModerationAllowed a"
proof -
  let ?q = "bob_request\<lparr>mq_restriction := Absent\<rparr>"
  have "authorize (mq_authorization ?q) = Allowed"
    by (simp add: bob_request_def bob_target_def sample_defs authorize_eval)
  moreover have "moderation_permits ?q" by (simp add: bob_request_def moderation_permits_def known_def)
  ultimately show ?thesis by (auto simp: moderation_iff authorize_iff)
qed


end
