(* ===== verification/Retention.thy ===== *)
theory Retention
  imports CommunityDeletion
begin

text \<open>
  Retention of stored records (\<open>retention.rs\<close>): policies with rules per event kind, legal holds, archived
  communities, the disposition of a record at a moment, and the fences that keep successive
  decisions on a record from going back to older authorities. The disposition is shown to be the one of
  a specification on natural numbers, and to be determined by what the fences record.
\<close>

section \<open>Data\<close>

definition MAX_RETENTION_KIND_RULES :: nat where "MAX_RETENTION_KIND_RULES = 128"

datatype schema_version = RetentionPolicySchemaVersion (schema_get: u16)

definition CURRENT_RETENTION_POLICY_SCHEMA_VERSION :: schema_version where
  "CURRENT_RETENTION_POLICY_SCHEMA_VERSION = RetentionPolicySchemaVersion 1"

definition schema_version_new :: "u16 \<Rightarrow> schema_version option" where
  "schema_version_new value = (if value = 0 then None else Some (RetentionPolicySchemaVersion value))"

datatype retention_error =
    InvalidEventKind | InvalidRetentionRecord | InvalidPolicy | InvalidArchive | InvalidHold
  | RetentionTenantMismatch | AuthorityUnavailable | AuthorityAmbiguous | UnsupportedPolicyVersion
  | InvalidDeadline | StaleAuthority | ClockRegression | RetryConflict

datatype persistence_class = Durable | EphemeralClass

record retention_event_kind =
  ek_value :: u16
  ek_persistence :: persistence_class

definition event_kind_from_registry :: "u16 \<Rightarrow> persistence_class \<Rightarrow> retention_error + retention_event_kind" where
  "event_kind_from_registry value persistence =
     (let is_ephemeral = 20000 \<le> value \<and> value \<le> 29999 in
      if is_ephemeral \<noteq> (persistence = EphemeralClass) then Inl InvalidEventKind
      else Inr \<lparr>ek_value = value, ek_persistence = persistence\<rparr>)"

datatype retention_ttl = RetentionTtl (ttl_millis: u64)

definition ttl_from_millis :: "u64 \<Rightarrow> retention_ttl option" where
  "ttl_from_millis value = (if value = 0 then None else Some (RetentionTtl value))"

datatype archive_retention_rule = Preserve | FollowCommunityPolicy | DeleteOnArchive | ExpireAfter retention_ttl

record retention_kind_rule =
  kr_event_kind :: retention_event_kind
  kr_ttl :: "retention_ttl option"

record retention_policy =
  po_community_id :: community_id
  po_schema_version :: schema_version
  po_version :: aggregate_version
  po_default_ttl :: "retention_ttl option"
  po_archive_rule :: archive_retention_rule
  po_kind_rules :: "retention_kind_rule list"

datatype 'a retention_snapshot = Absent | Current 'a | Unavailable | Ambiguous

datatype legal_hold_scope = HoldCommunity | HoldRecord aggregate_id
datatype legal_hold_state = HoldActive | HoldReleased

record legal_hold =
  lh_community_id :: community_id
  lh_scope :: legal_hold_scope
  lh_state :: legal_hold_state
  lh_version :: aggregate_version

record retention_archive =
  rx_archive :: community_archive_snapshot
  rx_archived_at_millis :: "u64 option"

record retention_record =
  rn_community_id :: community_id
  rn_record_id :: aggregate_id
  rn_event_kind :: retention_event_kind
  rn_started_at_millis :: u64

datatype retention_visibility = Live | ArchiveOnly
datatype retention_reason = Permanent | CommunityPolicy | LegalHold | CommunityArchive

datatype retention_disposition =
    DoNotPersist
  | Retain retention_visibility retention_reason
  | DeleteAt retention_visibility retention_reason u64
  | DeleteNow retention_reason

record policy_fence =
  pf_schema_version :: schema_version
  pf_version :: aggregate_version
  pf_ttl :: "retention_ttl option"
  pf_archive_rule :: archive_retention_rule

record hold_fence =
  hf_version :: aggregate_version
  hf_scope :: legal_hold_scope
  hf_state :: legal_hold_state

record archive_fence =
  af_version :: aggregate_version
  af_state :: community_archive_policy_state
  af_archived_at_millis :: "u64 option"

record retention_decision =
  rd_record :: retention_record
  rd_evaluated_at_millis :: u64
  rd_policy_fence :: "policy_fence option"
  rd_hold_fence :: "hold_fence option"
  rd_archive_fence :: "archive_fence option"
  rd_disposition :: retention_disposition

record retention_request =
  rr_record :: retention_record
  rr_policy :: "retention_policy retention_snapshot"
  rr_legal_hold :: "legal_hold retention_snapshot"
  rr_community_archive :: "retention_archive retention_snapshot"
  rr_now_millis :: u64
  rr_previous_decision :: "retention_decision option"

datatype retention_resolution =
  Evaluated (resolved_decision: retention_decision) | UnchangedDecision (resolved_decision: retention_decision)

section \<open>Policies and validation\<close>

definition policy_from_record :: "retention_policy \<Rightarrow> retention_error + retention_policy" where
  "policy_from_record f =
     (if uuid_is_nil (community_uuid (po_community_id f))
         \<or> length (po_kind_rules f) > MAX_RETENTION_KIND_RULES
         \<or> list_ex (\<lambda>rule. ek_persistence (kr_event_kind rule) = EphemeralClass) (po_kind_rules f)
      then Inl InvalidPolicy
      else and_then (for_each_distinct (\<lambda>_. Inr ()) (\<lambda>rule. ek_value (kr_event_kind rule)) InvalidPolicy {} (po_kind_rules f))
        (\<lambda>_. Inr f))"

definition ttl_for :: "retention_policy \<Rightarrow> retention_event_kind \<Rightarrow> retention_ttl option" where
  "ttl_for self event_kind =
     (case find (\<lambda>rule. ek_value (kr_event_kind rule) = ek_value event_kind) (po_kind_rules self) of
        None \<Rightarrow> po_default_ttl self
      | Some rule \<Rightarrow> kr_ttl rule)"

definition validate_archive :: "retention_archive \<Rightarrow> retention_error + unit" where
  "validate_archive self =
     (case (as_state (rx_archive self), rx_archived_at_millis self) of
        (CommunityActive, None) \<Rightarrow> Inr ()
      | (CommunityArchived, Some _) \<Rightarrow> Inr ()
      | _ \<Rightarrow> Inl InvalidArchive)"

definition validate_record :: "retention_record \<Rightarrow> retention_error + unit" where
  "validate_record r =
     (if uuid_is_nil (community_uuid (rn_community_id r)) \<or> uuid_is_nil (aggregate_uuid (rn_record_id r))
      then Inl InvalidRetentionRecord else Inr ())"

definition validate_hold :: "retention_record \<Rightarrow> legal_hold \<Rightarrow> retention_error + unit" where
  "validate_hold r hold =
     (if lh_community_id hold \<noteq> rn_community_id r then Inl RetentionTenantMismatch
      else case lh_scope hold of
        HoldRecord record_id \<Rightarrow> if record_id \<noteq> rn_record_id r then Inl InvalidHold else Inr ()
      | HoldCommunity \<Rightarrow> Inr ())"

definition resolve_snapshot :: "'a retention_snapshot \<Rightarrow> retention_error + 'a option" where
  "resolve_snapshot snapshot =
     (case snapshot of
        Absent \<Rightarrow> Inr None
      | Current value \<Rightarrow> Inr (Some value)
      | Unavailable \<Rightarrow> Inl AuthorityUnavailable
      | Ambiguous \<Rightarrow> Inl AuthorityAmbiguous)"

section \<open>Dispositions\<close>

definition deadline_disposition ::
  "u64 \<Rightarrow> retention_ttl \<Rightarrow> u64 \<Rightarrow> retention_visibility \<Rightarrow> retention_reason
   \<Rightarrow> retention_error + retention_disposition" where
  "deadline_disposition started ttl now visibility reason =
     and_then (ok_or (checked_add started (ttl_millis ttl)) InvalidDeadline) (\<lambda>expires.
     Inr (if now \<ge> expires then DeleteNow reason else DeleteAt visibility reason expires))"

definition resolve_policy_disposition ::
  "retention_request \<Rightarrow> retention_policy option \<Rightarrow> retention_visibility \<Rightarrow> retention_error + retention_disposition" where
  "resolve_policy_disposition q policy visibility =
     (case Option.bind policy (\<lambda>policy. ttl_for policy (rn_event_kind (rr_record q))) of
        None \<Rightarrow> Inr (Retain visibility Permanent)
      | Some ttl \<Rightarrow>
          deadline_disposition (rn_started_at_millis (rr_record q)) ttl (rr_now_millis q) visibility CommunityPolicy)"

definition resolve_archived_disposition ::
  "retention_request \<Rightarrow> retention_policy option \<Rightarrow> retention_archive \<Rightarrow> retention_visibility
   \<Rightarrow> retention_error + retention_disposition" where
  "resolve_archived_disposition q policy archive visibility =
     (case (case policy of None \<Rightarrow> Preserve | Some policy \<Rightarrow> po_archive_rule policy) of
        Preserve \<Rightarrow> Inr (Retain visibility CommunityArchive)
      | FollowCommunityPolicy \<Rightarrow> resolve_policy_disposition q policy visibility
      | DeleteOnArchive \<Rightarrow> Inr (DeleteNow CommunityArchive)
      | ExpireAfter ttl \<Rightarrow>
          and_then (ok_or (rx_archived_at_millis archive) InvalidArchive) (\<lambda>archived_at.
          deadline_disposition archived_at ttl (rr_now_millis q) visibility CommunityArchive))"

section \<open>Fences\<close>

definition policy_fence :: "retention_policy option \<Rightarrow> retention_event_kind \<Rightarrow> policy_fence option" where
  "policy_fence policy event_kind =
     map_option (\<lambda>policy. \<lparr>pf_schema_version = po_schema_version policy, pf_version = po_version policy,
       pf_ttl = ttl_for policy event_kind, pf_archive_rule = po_archive_rule policy\<rparr>) policy"

definition hold_fence :: "legal_hold \<Rightarrow> hold_fence" where
  "hold_fence hold = \<lparr>hf_version = lh_version hold, hf_scope = lh_scope hold, hf_state = lh_state hold\<rparr>"

definition archive_fence :: "retention_archive \<Rightarrow> archive_fence" where
  "archive_fence archive =
     \<lparr>af_version = as_version (rx_archive archive), af_state = as_state (rx_archive archive),
      af_archived_at_millis = rx_archived_at_millis archive\<rparr>"

definition validate_fence_progress ::
  "('f \<Rightarrow> aggregate_version) \<Rightarrow> 'f option \<Rightarrow> 'f option \<Rightarrow> retention_error + unit" where
  "validate_fence_progress version previous current =
     (case (previous, current) of
        (None, _) \<Rightarrow> Inr ()
      | (Some _, None) \<Rightarrow> Inl StaleAuthority
      | (Some previous, Some current) \<Rightarrow>
          if version current < version previous then Inl StaleAuthority
          else if version current = version previous \<and> current \<noteq> previous then Inl RetryConflict
          else Inr ())"

definition finish_decision ::
  "retention_request \<Rightarrow> policy_fence option \<Rightarrow> hold_fence option \<Rightarrow> archive_fence option
   \<Rightarrow> retention_disposition \<Rightarrow> retention_error + retention_resolution" where
  "finish_decision q policy_f hold_f archive_f disposition =
     (let decision = \<lparr>rd_record = rr_record q, rd_evaluated_at_millis = rr_now_millis q,
        rd_policy_fence = policy_f, rd_hold_fence = hold_f, rd_archive_fence = archive_f,
        rd_disposition = disposition\<rparr> in
      case rr_previous_decision q of
        None \<Rightarrow> Inr (Evaluated decision)
      | Some previous \<Rightarrow>
          if rd_record previous \<noteq> rd_record decision then Inl RetryConflict
          else if rd_evaluated_at_millis previous > rd_evaluated_at_millis decision then Inl ClockRegression
          else
            and_then (validate_fence_progress pf_version (rd_policy_fence previous) (rd_policy_fence decision)) (\<lambda>_.
            and_then (validate_fence_progress hf_version (rd_hold_fence previous) (rd_hold_fence decision)) (\<lambda>_.
            and_then (validate_fence_progress af_version (rd_archive_fence previous) (rd_archive_fence decision)) (\<lambda>_.
            if rd_evaluated_at_millis previous = rd_evaluated_at_millis decision
            then if previous = decision then Inr (UnchangedDecision decision) else Inl RetryConflict
            else Inr (Evaluated decision)))))"

section \<open>The decision\<close>

definition check_policy :: "retention_request \<Rightarrow> retention_policy option \<Rightarrow> retention_error + unit" where
  "check_policy q policy =
     (case policy of
        None \<Rightarrow> Inr ()
      | Some policy \<Rightarrow>
          if po_community_id policy \<noteq> rn_community_id (rr_record q) then Inl RetentionTenantMismatch
          else if po_schema_version policy \<noteq> CURRENT_RETENTION_POLICY_SCHEMA_VERSION
          then Inl UnsupportedPolicyVersion
          else Inr ())"

definition check_archive :: "retention_request \<Rightarrow> retention_archive option \<Rightarrow> retention_error + unit" where
  "check_archive q archive =
     (case archive of
        None \<Rightarrow> Inr ()
      | Some archive \<Rightarrow>
          and_then (validate_archive archive) (\<lambda>_.
          if as_community_id (rx_archive archive) \<noteq> rn_community_id (rr_record q) then Inl RetentionTenantMismatch
          else if is_some_and (rx_archived_at_millis archive) (\<lambda>at. at > rr_now_millis q) then Inl InvalidArchive
          else Inr ()))"

text \<open>The disposition of a durable record: visibility, then hold, archive and policy.\<close>

definition resolve_disposition ::
  "retention_request \<Rightarrow> retention_policy option \<Rightarrow> legal_hold option \<Rightarrow> retention_archive option
   \<Rightarrow> retention_error + retention_disposition" where
  "resolve_disposition q policy hold archive =
     (let archived = is_some_and archive (\<lambda>archive. as_state (rx_archive archive) = CommunityArchived);
          visibility = if archived then ArchiveOnly else Live in
      if is_some_and hold (\<lambda>hold. lh_state hold = HoldActive) then Inr (Retain visibility LegalHold)
      else if archived then resolve_archived_disposition q policy (the archive) visibility
      else resolve_policy_disposition q policy visibility)"

definition resolve_retention :: "retention_request \<Rightarrow> retention_error + retention_resolution" where
  "resolve_retention q =
     and_then (validate_record (rr_record q)) (\<lambda>_.
     and_then (resolve_snapshot (rr_policy q)) (\<lambda>policy.
     and_then (check_policy q policy) (\<lambda>_.
     and_then (resolve_snapshot (rr_legal_hold q)) (\<lambda>hold.
     and_then (case hold of None \<Rightarrow> Inr () | Some hold \<Rightarrow> validate_hold (rr_record q) hold) (\<lambda>_.
     and_then (resolve_snapshot (rr_community_archive q)) (\<lambda>archive.
     and_then (check_archive q archive) (\<lambda>_.
     let finish = finish_decision q (policy_fence policy (rn_event_kind (rr_record q)))
           (map_option hold_fence hold) (map_option archive_fence archive) in
     if ek_persistence (rn_event_kind (rr_record q)) = EphemeralClass then
       (if is_some_and hold (\<lambda>hold. lh_state hold = HoldActive) then Inl InvalidHold
        else finish DoNotPersist)
     else
       and_then (resolve_disposition q policy hold archive) (\<lambda>disposition.
       finish disposition))))))))"

section \<open>The specification\<close>

text \<open>When a durable record is to be deleted, from what the fences record, on natural numbers:
  \<open>None\<close> is never.\<close>

definition held :: "hold_fence option \<Rightarrow> bool" where
  "held hold \<longleftrightarrow> is_some_and hold (\<lambda>hold. hf_state hold = HoldActive)"

definition archived_fence :: "archive_fence option \<Rightarrow> bool" where
  "archived_fence archive \<longleftrightarrow> is_some_and archive (\<lambda>archive. af_state archive = CommunityArchived)"

definition archive_rule_of :: "policy_fence option \<Rightarrow> archive_fence option \<Rightarrow> archive_retention_rule" where
  "archive_rule_of policy archive =
     (if archived_fence archive then case policy of None \<Rightarrow> Preserve | Some policy \<Rightarrow> pf_archive_rule policy
      else FollowCommunityPolicy)"

definition delete_from ::
  "retention_record \<Rightarrow> policy_fence option \<Rightarrow> hold_fence option \<Rightarrow> archive_fence option \<Rightarrow> nat option" where
  "delete_from r policy hold archive =
     (if held hold then None
      else case archive_rule_of policy archive of
        Preserve \<Rightarrow> None
      | DeleteOnArchive \<Rightarrow> Some 0
      | ExpireAfter ttl \<Rightarrow>
          Some (unat (the (af_archived_at_millis (the archive))) + unat (ttl_millis ttl))
      | FollowCommunityPolicy \<Rightarrow>
          map_option (\<lambda>ttl. unat (rn_started_at_millis r) + unat (ttl_millis ttl)) (Option.bind policy pf_ttl))"

definition retention_cause ::
  "policy_fence option \<Rightarrow> hold_fence option \<Rightarrow> archive_fence option \<Rightarrow> retention_reason" where
  "retention_cause policy hold archive =
     (if held hold then LegalHold
      else if archive_rule_of policy archive \<noteq> FollowCommunityPolicy then CommunityArchive
      else if Option.bind policy pf_ttl = None then Permanent else CommunityPolicy)"

definition specified_disposition ::
  "retention_record \<Rightarrow> policy_fence option \<Rightarrow> hold_fence option \<Rightarrow> archive_fence option \<Rightarrow> u64 \<Rightarrow> retention_disposition" where
  "specified_disposition r policy hold archive now =
     (if ek_persistence (rn_event_kind r) = EphemeralClass then DoNotPersist
      else
        let visibility = if archived_fence archive then ArchiveOnly else Live;
            cause = retention_cause policy hold archive in
        case delete_from r policy hold archive of
          None \<Rightarrow> Retain visibility cause
        | Some t \<Rightarrow> if t \<le> unat now then DeleteNow cause else DeleteAt visibility cause (word_of_nat t))"

definition snapshot_value :: "'a retention_snapshot \<Rightarrow> 'a option" where
  "snapshot_value s = (case s of Current x \<Rightarrow> Some x | _ \<Rightarrow> None)"

definition known :: "'a retention_snapshot \<Rightarrow> bool" where
  "known s \<longleftrightarrow> s \<noteq> Unavailable \<and> s \<noteq> Ambiguous"

definition specified_decision :: "retention_request \<Rightarrow> retention_decision" where
  "specified_decision q =
     (let policy = policy_fence (snapshot_value (rr_policy q)) (rn_event_kind (rr_record q));
          hold = map_option hold_fence (snapshot_value (rr_legal_hold q));
          archive = map_option archive_fence (snapshot_value (rr_community_archive q)) in
      \<lparr>rd_record = rr_record q, rd_evaluated_at_millis = rr_now_millis q, rd_policy_fence = policy,
       rd_hold_fence = hold, rd_archive_fence = archive,
       rd_disposition = specified_disposition (rr_record q) policy hold archive (rr_now_millis q)\<rparr>)"

text \<open>The requests that are answered: identified records, authorities that are known, of the same
  tenant and not from the future, no hold on what is not stored, and a deadline within the clock.\<close>

definition policy_admissible :: "retention_request \<Rightarrow> retention_policy \<Rightarrow> bool" where
  "policy_admissible q policy \<longleftrightarrow>
     po_community_id policy = rn_community_id (rr_record q)
     \<and> po_schema_version policy = CURRENT_RETENTION_POLICY_SCHEMA_VERSION"

definition hold_admissible :: "retention_request \<Rightarrow> legal_hold \<Rightarrow> bool" where
  "hold_admissible q hold \<longleftrightarrow>
     lh_community_id hold = rn_community_id (rr_record q)
     \<and> lh_scope hold \<in> {HoldCommunity, HoldRecord (rn_record_id (rr_record q))}
     \<and> (lh_state hold = HoldActive \<longrightarrow> ek_persistence (rn_event_kind (rr_record q)) = Durable)"

definition archive_admissible :: "retention_request \<Rightarrow> retention_archive \<Rightarrow> bool" where
  "archive_admissible q archive \<longleftrightarrow>
     as_community_id (rx_archive archive) = rn_community_id (rr_record q)
     \<and> (case rx_archived_at_millis archive of
          None \<Rightarrow> as_state (rx_archive archive) = CommunityActive
        | Some at \<Rightarrow> as_state (rx_archive archive) = CommunityArchived \<and> at \<le> rr_now_millis q)"

definition admissible :: "retention_request \<Rightarrow> bool" where
  "admissible q \<longleftrightarrow>
     \<not> uuid_is_nil (community_uuid (rn_community_id (rr_record q)))
     \<and> \<not> uuid_is_nil (aggregate_uuid (rn_record_id (rr_record q)))
     \<and> known (rr_policy q) \<and> known (rr_legal_hold q) \<and> known (rr_community_archive q)
     \<and> (\<forall>x. snapshot_value (rr_policy q) = Some x \<longrightarrow> policy_admissible q x)
     \<and> (\<forall>x. snapshot_value (rr_legal_hold q) = Some x \<longrightarrow> hold_admissible q x)
     \<and> (\<forall>x. snapshot_value (rr_community_archive q) = Some x \<longrightarrow> archive_admissible q x)
     \<and> (\<forall>t. ek_persistence (rn_event_kind (rr_record q)) = Durable
          \<longrightarrow> delete_from (rr_record q) (rd_policy_fence (specified_decision q))
                (rd_hold_fence (specified_decision q)) (rd_archive_fence (specified_decision q)) = Some t
          \<longrightarrow> t < 2 ^ 64)"

text \<open>How a decision may follow another: fences only advance, the clock too, and at one moment there
  is one decision.\<close>

definition fence_advances :: "('f \<Rightarrow> aggregate_version) \<Rightarrow> 'f option \<Rightarrow> 'f option \<Rightarrow> bool" where
  "fence_advances version p c \<longleftrightarrow> (\<forall>x. p = Some x \<longrightarrow> (\<exists>y. c = Some y \<and> (x = y \<or> version x < version y)))"

definition supersedes :: "retention_decision \<Rightarrow> retention_decision \<Rightarrow> bool" where
  "supersedes d p \<longleftrightarrow>
     rd_record p = rd_record d
     \<and> (p = d \<or> rd_evaluated_at_millis p < rd_evaluated_at_millis d)
     \<and> fence_advances pf_version (rd_policy_fence p) (rd_policy_fence d)
     \<and> fence_advances hf_version (rd_hold_fence p) (rd_hold_fence d)
     \<and> fence_advances af_version (rd_archive_fence p) (rd_archive_fence d)"

section \<open>The decision implements the specification\<close>

lemma authority_snapshot_Inr: "resolve_snapshot s = Inr v \<longleftrightarrow> known s \<and> v = snapshot_value s"
  by (cases s) (auto simp: resolve_snapshot_def known_def snapshot_value_def)

lemma validate_fence_progress_Inr:
  "validate_fence_progress version p c = Inr u \<longleftrightarrow> fence_advances version p c"
  by (cases p; cases c) (auto simp: validate_fence_progress_def fence_advances_def)

lemma fence_advances_refl: "fence_advances version p p"
  by (simp add: fence_advances_def)

lemma fence_advances_trans:
  "fence_advances version p c \<Longrightarrow> fence_advances version c d \<Longrightarrow> fence_advances version p d"
  by (fastforce simp: fence_advances_def)

lemma supersedes_trans: "supersedes d p \<Longrightarrow> supersedes e d \<Longrightarrow> supersedes e p"
  by (auto simp: supersedes_def intro: fence_advances_trans)

lemma supersedes_refl: "supersedes d d"
  by (simp add: supersedes_def fence_advances_refl)

lemma check_policy_Inr: "check_policy q p = Inr u \<longleftrightarrow> (\<forall>x. p = Some x \<longrightarrow> policy_admissible q x)"
  by (auto simp: check_policy_def policy_admissible_def split: option.splits)

lemma check_archive_Inr: "check_archive q p = Inr u \<longleftrightarrow> (\<forall>x. p = Some x \<longrightarrow> archive_admissible q x)"
proof (cases p)
  case (Some x)
  then show ?thesis
    by (cases "as_state (rx_archive x)"; cases "rx_archived_at_millis x")
      (auto simp: check_archive_def validate_archive_def archive_admissible_def)
qed (simp add: check_archive_def)

lemma validate_hold_Inr:
  "(case h of None \<Rightarrow> Inr () | Some hold \<Rightarrow> validate_hold r hold) = Inr u \<longleftrightarrow>
     (\<forall>x. h = Some x \<longrightarrow> lh_community_id x = rn_community_id r \<and> lh_scope x \<in> {HoldCommunity, HoldRecord (rn_record_id r)})"
  by (auto simp: validate_hold_def split: option.splits legal_hold_scope.splits if_splits)

lemma finish_decision_Inr:
  "finish_decision q pf hf af disposition = Inr res \<longleftrightarrow>
     (let d = \<lparr>rd_record = rr_record q, rd_evaluated_at_millis = rr_now_millis q, rd_policy_fence = pf,
        rd_hold_fence = hf, rd_archive_fence = af, rd_disposition = disposition\<rparr> in
      (\<forall>p. rr_previous_decision q = Some p \<longrightarrow> supersedes d p)
      \<and> res = (if rr_previous_decision q = Some d then UnchangedDecision d else Evaluated d))"
proof (cases "rr_previous_decision q")
  case (Some p)
  show ?thesis
    unfolding finish_decision_def Let_def Some
    by (auto simp: and_then_Inr validate_fence_progress_Inr supersedes_def fence_advances_refl)
qed (auto simp: finish_decision_def)

lemma deadline_disposition_Inr:
  "deadline_disposition started ttl now v c = Inr d \<longleftrightarrow>
     (let t = unat started + unat (ttl_millis ttl) in
      t < 2 ^ 64 \<and> d = (if t \<le> unat now then DeleteNow c else DeleteAt v c (word_of_nat t)))"
proof (cases "unat started + unat (ttl_millis ttl) < 2 ^ 64")
  case True
  then have "unat (started + ttl_millis ttl) = unat started + unat (ttl_millis ttl)"
    by (simp add: unat_word_ariths)
  with True show ?thesis
    by (auto simp: deadline_disposition_def checked_add_def word_le_nat_alt Let_def)
qed (simp add: deadline_disposition_def checked_add_def Let_def)

lemma fence_of_hold: "held (map_option hold_fence h) \<longleftrightarrow> is_some_and h (\<lambda>hold. lh_state hold = HoldActive)"
  by (cases h) (simp_all add: held_def hold_fence_def)

lemma fence_of_archive:
  "archived_fence (map_option archive_fence a)
     \<longleftrightarrow> is_some_and a (\<lambda>archive. as_state (rx_archive archive) = CommunityArchived)"
  by (cases a) (simp_all add: archived_fence_def archive_fence_def)

lemma fence_of_ttl: "Option.bind (policy_fence p k) pf_ttl = Option.bind p (\<lambda>p. ttl_for p k)"
  by (cases p) (simp_all add: policy_fence_def)

lemma fence_of_rule:
  "archive_rule_of (policy_fence p k) a =
     (if archived_fence a then case p of None \<Rightarrow> Preserve | Some p \<Rightarrow> po_archive_rule p else FollowCommunityPolicy)"
  by (cases p) (simp_all add: archive_rule_of_def policy_fence_def)

lemma resolve_policy_disposition_Inr:
  assumes "ek_persistence (rn_event_kind (rr_record q)) = Durable" "\<not> held hf"
    and "archive_rule_of (policy_fence p (rn_event_kind (rr_record q))) af = FollowCommunityPolicy"
  shows "resolve_policy_disposition q p (if archived_fence af then ArchiveOnly else Live) = Inr d \<longleftrightarrow>
     (\<forall>t. delete_from (rr_record q) (policy_fence p (rn_event_kind (rr_record q))) hf af = Some t \<longrightarrow> t < 2 ^ 64)
     \<and> d = specified_disposition (rr_record q) (policy_fence p (rn_event_kind (rr_record q))) hf af (rr_now_millis q)"
  using assms
  by (auto simp: resolve_policy_disposition_def specified_disposition_def delete_from_def retention_cause_def
      fence_of_ttl deadline_disposition_Inr Let_def split: option.splits)

lemma durable_disposition:
  fixes q p h a
  defines "pf \<equiv> policy_fence p (rn_event_kind (rr_record q))"
    and "hf \<equiv> map_option hold_fence h" and "af \<equiv> map_option archive_fence a"
  assumes ok: "\<forall>x. a = Some x \<longrightarrow> archive_admissible q x"
    and durable: "ek_persistence (rn_event_kind (rr_record q)) = Durable"
  shows "resolve_disposition q p h a = Inr d
    \<longleftrightarrow> (\<forall>t. delete_from (rr_record q) pf hf af = Some t \<longrightarrow> t < 2 ^ 64)
        \<and> d = specified_disposition (rr_record q) pf hf af (rr_now_millis q)"
proof -
  have choice: "resolve_disposition q p h a =
      (if held hf then Inr (Retain (if archived_fence af then ArchiveOnly else Live) LegalHold)
       else if archived_fence af
       then resolve_archived_disposition q p (the a) (if archived_fence af then ArchiveOnly else Live)
       else resolve_policy_disposition q p (if archived_fence af then ArchiveOnly else Live))"
    by (simp add: resolve_disposition_def Let_def hf_def af_def fence_of_hold fence_of_archive)
  consider (held) "held hf" | (follow) "\<not> held hf" "archive_rule_of pf af = FollowCommunityPolicy"
    | (archive) "\<not> held hf" "archive_rule_of pf af \<noteq> FollowCommunityPolicy" by blast
  then show ?thesis
  proof cases
    case held
    with durable show ?thesis
      by (auto simp: choice specified_disposition_def delete_from_def retention_cause_def)
  next
    case follow
    with fence_of_rule [of p "rn_event_kind (rr_record q)" af]
      resolve_policy_disposition_Inr [OF durable, of hf p af d] show ?thesis
      by (auto simp: choice pf_def resolve_archived_disposition_def)
  next
    case archive
    then have arch: "archived_fence af" by (auto simp: archive_rule_of_def split: if_splits)
    then obtain x where x: "a = Some x" "as_state (rx_archive x) = CommunityArchived"
      by (cases a) (auto simp: af_def archived_fence_def archive_fence_def)
    with ok obtain t where t: "rx_archived_at_millis x = Some t"
      by (auto simp: archive_admissible_def split: option.splits)
    have rule: "(case p of None \<Rightarrow> Preserve | Some p \<Rightarrow> po_archive_rule p) = archive_rule_of pf af"
      using arch by (simp add: pf_def fence_of_rule)
    have at: "the (af_archived_at_millis (the af)) = t" using x t by (simp add: af_def archive_fence_def)
    show ?thesis
      unfolding choice using archive arch durable x t at
      by (cases "archive_rule_of pf af")
        (auto simp: rule specified_disposition_def delete_from_def retention_cause_def resolve_archived_disposition_def
          deadline_disposition_Inr Let_def)
  qed
qed

text \<open>The guards before the disposition, once for both classes of records.\<close>

definition guarded :: "retention_request \<Rightarrow> bool" where
  "guarded q \<longleftrightarrow>
     \<not> uuid_is_nil (community_uuid (rn_community_id (rr_record q)))
     \<and> \<not> uuid_is_nil (aggregate_uuid (rn_record_id (rr_record q)))
     \<and> known (rr_policy q) \<and> (\<forall>x. snapshot_value (rr_policy q) = Some x \<longrightarrow> policy_admissible q x)
     \<and> known (rr_legal_hold q)
     \<and> (\<forall>x. snapshot_value (rr_legal_hold q) = Some x \<longrightarrow> lh_community_id x = rn_community_id (rr_record q)
          \<and> lh_scope x \<in> {HoldCommunity, HoldRecord (rn_record_id (rr_record q))})
     \<and> known (rr_community_archive q)
     \<and> (\<forall>x. snapshot_value (rr_community_archive q) = Some x \<longrightarrow> archive_admissible q x)"

lemma specified_decision_fields:
  "specified_decision q = \<lparr>rd_record = rr_record q, rd_evaluated_at_millis = rr_now_millis q,
     rd_policy_fence = policy_fence (snapshot_value (rr_policy q)) (rn_event_kind (rr_record q)),
     rd_hold_fence = map_option hold_fence (snapshot_value (rr_legal_hold q)),
     rd_archive_fence = map_option archive_fence (snapshot_value (rr_community_archive q)),
     rd_disposition = specified_disposition (rr_record q)
       (policy_fence (snapshot_value (rr_policy q)) (rn_event_kind (rr_record q)))
       (map_option hold_fence (snapshot_value (rr_legal_hold q)))
       (map_option archive_fence (snapshot_value (rr_community_archive q))) (rr_now_millis q)\<rparr>"
  by (simp add: specified_decision_def Let_def)

lemma validate_record_Inr:
  "validate_record r = Inr u \<longleftrightarrow>
     \<not> uuid_is_nil (community_uuid (rn_community_id r)) \<and> \<not> uuid_is_nil (aggregate_uuid (rn_record_id r))"
  by (simp add: validate_record_def)

lemmas retention_guards =
  and_then_Inr validate_record_Inr authority_snapshot_Inr check_policy_Inr check_archive_Inr validate_hold_Inr

lemma finish_specified:
  "finish_decision q (policy_fence (snapshot_value (rr_policy q)) (rn_event_kind (rr_record q)))
     (map_option hold_fence (snapshot_value (rr_legal_hold q)))
     (map_option archive_fence (snapshot_value (rr_community_archive q)))
     (rd_disposition (specified_decision q)) = Inr res \<longleftrightarrow>
   (\<forall>p. rr_previous_decision q = Some p \<longrightarrow> supersedes (specified_decision q) p)
   \<and> res = (if rr_previous_decision q = Some (specified_decision q)
            then UnchangedDecision (specified_decision q) else Evaluated (specified_decision q))"
  by (simp add: finish_decision_Inr specified_decision_fields Let_def)

lemma resolve_ephemeral:
  assumes "ek_persistence (rn_event_kind (rr_record q)) = EphemeralClass"
  shows "resolve_retention q = Inr res \<longleftrightarrow> admissible q
    \<and> finish_decision q (policy_fence (snapshot_value (rr_policy q)) (rn_event_kind (rr_record q)))
        (map_option hold_fence (snapshot_value (rr_legal_hold q)))
        (map_option archive_fence (snapshot_value (rr_community_archive q)))
        (rd_disposition (specified_decision q)) = Inr res"
proof -
  have "admissible q \<longleftrightarrow> guarded q \<and> \<not> is_some_and (snapshot_value (rr_legal_hold q)) (\<lambda>hold. lh_state hold = HoldActive)"
    by (auto simp: admissible_def guarded_def assms hold_admissible_def is_some_and_def split: option.splits)
  then show ?thesis
    unfolding resolve_retention_def Let_def
    by (auto simp: retention_guards assms guarded_def specified_decision_fields specified_disposition_def)
qed

lemma resolve_durable:
  assumes "ek_persistence (rn_event_kind (rr_record q)) = Durable"
  shows "resolve_retention q = Inr res \<longleftrightarrow> admissible q
    \<and> finish_decision q (policy_fence (snapshot_value (rr_policy q)) (rn_event_kind (rr_record q)))
        (map_option hold_fence (snapshot_value (rr_legal_hold q)))
        (map_option archive_fence (snapshot_value (rr_community_archive q)))
        (rd_disposition (specified_decision q)) = Inr res"
    (is "_ \<longleftrightarrow> _ \<and> ?finish (rd_disposition (specified_decision q)) = _")
proof -
  let ?choice = "resolve_disposition q (snapshot_value (rr_policy q)) (snapshot_value (rr_legal_hold q))
    (snapshot_value (rr_community_archive q))"
  have "resolve_retention q = Inr res \<longleftrightarrow> guarded q \<and> (\<exists>d. ?choice = Inr d \<and> ?finish d = Inr res)"
    unfolding resolve_retention_def Let_def by (auto simp: retention_guards assms guarded_def)
  moreover have "guarded q \<and> ?choice = Inr d \<longleftrightarrow> admissible q \<and> d = rd_disposition (specified_decision q)" for d
  proof (cases "guarded q")
    case True
    then have "\<forall>x. snapshot_value (rr_community_archive q) = Some x \<longrightarrow> archive_admissible q x"
      by (simp add: guarded_def)
    from durable_disposition [OF this assms] True show ?thesis
      by (auto simp: guarded_def admissible_def specified_decision_fields hold_admissible_def assms)
  qed (auto simp: guarded_def admissible_def hold_admissible_def)
  ultimately show ?thesis by metis
qed

lemma resolve_retention_iff:
  "resolve_retention q = Inr res \<longleftrightarrow>
     admissible q
     \<and> (\<forall>p. rr_previous_decision q = Some p \<longrightarrow> supersedes (specified_decision q) p)
     \<and> res = (if rr_previous_decision q = Some (specified_decision q)
              then UnchangedDecision (specified_decision q) else Evaluated (specified_decision q))"
  by (cases "ek_persistence (rn_event_kind (rr_record q))")
    (simp_all add: resolve_durable resolve_ephemeral finish_specified)

section \<open>Properties\<close>

text \<open>C17. The retention decision implements its specification: a request is answered exactly when it is
  admissible and follows the previous decision on the record, and the answer is the specified one:
  records under a legal hold are kept, ephemeral ones are not stored, and the others are deleted from
  the moment that their policy and their archive give, computed without wrap-around.\<close>

theorem retention_implements_specification:
  "resolve_retention q = Inr res \<longleftrightarrow>
     admissible q
     \<and> (\<forall>p. rr_previous_decision q = Some p \<longrightarrow> supersedes (specified_decision q) p)
     \<and> res = (if rr_previous_decision q = Some (specified_decision q)
              then UnchangedDecision (specified_decision q) else Evaluated (specified_decision q))"
  by (rule resolve_retention_iff)

text \<open>Successive decisions on a record, each made with the one before.\<close>

inductive retention_step :: "retention_decision \<Rightarrow> retention_decision \<Rightarrow> bool" where
  reevaluate: "rr_previous_decision q = Some d \<Longrightarrow> resolve_retention q = Inr res
    \<Longrightarrow> retention_step d (resolved_decision res)"

inductive_cases retention_stepE: "retention_step d e"

definition decided :: "retention_decision \<Rightarrow> bool" where
  "decided d \<longleftrightarrow>
     rd_disposition d = specified_disposition (rd_record d) (rd_policy_fence d) (rd_hold_fence d)
       (rd_archive_fence d) (rd_evaluated_at_millis d)"

lemma decided_specified: "decided (specified_decision q)"
  by (simp add: decided_def specified_decision_fields)

lemma retention_step_supersedes: "retention_step d e \<Longrightarrow> supersedes e d \<and> decided e"
  by (auto simp: resolve_retention_iff decided_specified elim!: retention_stepE split: if_splits)

lemma retention_steps_supersede: "retention_step\<^sup>*\<^sup>* d e \<Longrightarrow> supersedes e d \<and> (decided d \<longrightarrow> decided e)"
  by (induction rule: rtranclp_induct) (auto simp: supersedes_refl dest: retention_step_supersedes supersedes_trans)

lemma supersedes_time: "supersedes e d \<Longrightarrow> rd_evaluated_at_millis d \<le> rd_evaluated_at_millis e"
  by (auto simp: supersedes_def)

lemma deletion_stable:
  assumes "specified_disposition r pf hf af s = DeleteNow c" "s \<le> t"
  shows "specified_disposition r pf hf af t = DeleteNow c"
  using assms by (auto simp: specified_disposition_def Let_def word_le_nat_alt split: if_splits option.splits)

lemma decided_later:
  assumes "decided d" "decided e" "supersedes e d" "rd_disposition d = DeleteNow c"
    and "rd_policy_fence e = rd_policy_fence d" "rd_hold_fence e = rd_hold_fence d" "rd_archive_fence e = rd_archive_fence d"
  shows "rd_disposition e = DeleteNow c"
proof -
  from assms(3) have "rd_record d = rd_record e" by (simp add: supersedes_def)
  moreover from assms(1,4) have "specified_disposition (rd_record d) (rd_policy_fence d) (rd_hold_fence d)
      (rd_archive_fence d) (rd_evaluated_at_millis d) = DeleteNow c"
    by (simp add: decided_def)
  note deletion_stable [OF this supersedes_time [OF assms(3)]]
  ultimately show ?thesis using assms(2,5-) by (simp add: decided_def)
qed

lemma held_not_deleted: "decided e \<Longrightarrow> held (rd_hold_fence e) \<Longrightarrow> rd_disposition e \<noteq> DeleteNow c"
  by (simp add: decided_def specified_disposition_def delete_from_def)

text \<open>C36. Decisions on a record do not go back: through any number of later evaluations the record stays
  the same, the clock does not regress and no authority is replaced by an older one; where the
  authorities have not moved, a record that was due for deletion is still due; and while the hold
  last seen is active, no decision deletes.\<close>

theorem retention_decisions_progress:
  assumes "resolve_retention q = Inr res" and "retention_step\<^sup>*\<^sup>* (resolved_decision res) e"
  shows "supersedes e (resolved_decision res)
    \<and> (rd_policy_fence e = rd_policy_fence (resolved_decision res)
       \<and> rd_hold_fence e = rd_hold_fence (resolved_decision res)
       \<and> rd_archive_fence e = rd_archive_fence (resolved_decision res)
       \<and> rd_disposition (resolved_decision res) = DeleteNow c \<longrightarrow> rd_disposition e = DeleteNow c)
    \<and> (held (rd_hold_fence e) \<longrightarrow> rd_disposition e \<noteq> DeleteNow c)"
proof -
  from assms(1) have "decided (resolved_decision res)"
    by (auto simp: resolve_retention_iff decided_specified split: if_splits)
  with retention_steps_supersede [OF assms(2)]
  have "supersedes e (resolved_decision res)" "decided e" "decided (resolved_decision res)" by auto
  then show ?thesis using decided_later held_not_deleted by blast
qed

definition sample_policy :: retention_policy where
  "sample_policy =
     \<lparr>po_community_id = CommunityId 1, po_schema_version = CURRENT_RETENTION_POLICY_SCHEMA_VERSION,
      po_version = AggregateVersion 4, po_default_ttl = None, po_archive_rule = Preserve,
      po_kind_rules = [\<lparr>kr_event_kind = \<lparr>ek_value = 9, ek_persistence = Durable\<rparr>, kr_ttl = Some (RetentionTtl 1000)\<rparr>]\<rparr>"

definition sample_retention :: "u64 \<Rightarrow> retention_decision option \<Rightarrow> retention_request" where
  "sample_retention now previous =
     \<lparr>rr_record = \<lparr>rn_community_id = CommunityId 1, rn_record_id = AggregateId 7,
        rn_event_kind = \<lparr>ek_value = 9, ek_persistence = Durable\<rparr>, rn_started_at_millis = 500\<rparr>,
      rr_policy = Current sample_policy, rr_legal_hold = Absent, rr_community_archive = Absent,
      rr_now_millis = now, rr_previous_decision = previous\<rparr>"

definition sample_decision :: "u64 \<Rightarrow> retention_disposition \<Rightarrow> retention_decision" where
  "sample_decision now disposition =
     \<lparr>rd_record = rr_record (sample_retention now None), rd_evaluated_at_millis = now,
      rd_policy_fence = policy_fence (Some sample_policy) \<lparr>ek_value = 9, ek_persistence = Durable\<rparr>,
      rd_hold_fence = None, rd_archive_fence = None, rd_disposition = disposition\<rparr>"

lemmas retention_eval =
  resolve_retention_def validate_record_def resolve_snapshot_def check_policy_def check_archive_def
  resolve_disposition_def resolve_policy_disposition_def deadline_disposition_def finish_decision_def
  validate_fence_progress_def policy_fence_def ttl_for_def sample_retention_def sample_policy_def
  sample_decision_def uuid_is_nil_def checked_add_def Let_def

theorem retention_decisions_progress_witness:
  "rd_disposition (sample_decision 1600 (DeleteNow CommunityPolicy)) = DeleteNow CommunityPolicy
   \<and> supersedes (sample_decision 1600 (DeleteNow CommunityPolicy)) (sample_decision 1500 (DeleteNow CommunityPolicy))"
proof -
  let ?d = "sample_decision 1500 (DeleteNow CommunityPolicy)" and ?e = "sample_decision 1600 (DeleteNow CommunityPolicy)"
  have first: "resolve_retention (sample_retention 1500 None) = Inr (Evaluated ?d)"
    by (simp add: retention_eval)
  have "resolve_retention (sample_retention 1600 (Some ?d)) = Inr (Evaluated ?e)"
    by (simp add: retention_eval)
  from reevaluate [OF _ this, of ?d] have "retention_step ?d ?e" by (simp add: sample_retention_def)
  with retention_decisions_progress [OF first, of ?e CommunityPolicy] show ?thesis
    by (auto simp: sample_decision_def)
qed

text \<open>Asking again gives the same answer: repeating an answered request with its own decision as the
  previous one is reported as unchanged.\<close>

theorem retention_retry_idempotent:
  assumes "resolve_retention q = Inr res"
  shows "resolve_retention (q\<lparr>rr_previous_decision := Some (resolved_decision res)\<rparr>)
    = Inr (UnchangedDecision (resolved_decision res))"
proof -
  let ?q = "q\<lparr>rr_previous_decision := Some (resolved_decision res)\<rparr>"
  have same: "specified_decision ?q = specified_decision q" "admissible ?q = admissible q"
    by (simp_all add: specified_decision_fields admissible_def policy_admissible_def hold_admissible_def archive_admissible_def
        cong: option.case_cong)
  with assms show ?thesis by (auto simp: resolve_retention_iff supersedes_refl split: if_splits)
qed

theorem retention_implements_specification_witness:
  "resolve_retention (sample_retention 1500 None) = Inr (Evaluated (specified_decision (sample_retention 1500 None)))"
proof -
  have "resolve_retention (sample_retention 1500 None) = Inr (Evaluated (sample_decision 1500 (DeleteNow CommunityPolicy)))"
    by (simp add: retention_eval)
  then show ?thesis
    by (auto simp: retention_implements_specification split: if_splits)
qed

end
