(* ===== verification/Community.thy ===== *)
theory Community
  imports Samples
begin

text \<open>
  Communities (\<open>community.rs\<close>): hosts, icons and join policies with their validation, creation, and the
  commands that update, archive and restore a community. Unlike the other aggregates, the commands
  build their authorization request themselves from a context. A community under deletion
  (quiescing, fenced or a tombstone) is out of reach of every command.
\<close>

section \<open>Data\<close>

definition COMMUNITY_MANAGE_SCOPE :: rust_string where "COMMUNITY_MANAGE_SCOPE = lit ''communities:manage''"
definition MAX_COMMUNITY_HOST_BYTES :: nat where "MAX_COMMUNITY_HOST_BYTES = 255"
definition MAX_COMMUNITY_ICON_BYTES :: nat where "MAX_COMMUNITY_ICON_BYTES = 262144"
definition MAX_JOIN_POLICY_VERSION_BYTES :: nat where "MAX_JOIN_POLICY_VERSION_BYTES = 256"

datatype community_error =
    InvalidHost | InvalidIcon | InvalidJoinPolicyVersion | EmptyUpdate | Unauthorized authorization_denial
  | AuthorizationConfiguration | StaleVersion aggregate_version aggregate_version | InvalidTransition
  | VersionExhausted

datatype community_host = CommunityHost (host_str: rust_string)

definition community_host_new :: "rust_string \<Rightarrow> community_error + community_host" where
  "community_host_new value =
     (if value = [] \<or> str_len value > MAX_COMMUNITY_HOST_BYTES \<or> trim value \<noteq> value
         \<or> value \<noteq> to_ascii_lowercase value \<or> list_ex is_control value
      then Inl InvalidHost else Inr (CommunityHost value))"

datatype community_icon = CommunityIcon (icon_str: rust_string)

definition community_icon_new :: "rust_string \<Rightarrow> community_error + community_icon" where
  "community_icon_new value =
     (if str_len value > MAX_COMMUNITY_ICON_BYTES \<or> list_ex is_control value
      then Inl InvalidIcon else Inr (CommunityIcon value))"

datatype join_policy_version = JoinPolicyVersion (join_policy_str: rust_string)

definition join_policy_version_new :: "rust_string \<Rightarrow> community_error + join_policy_version" where
  "join_policy_version_new value =
     (if value = [] \<or> str_len value > MAX_JOIN_POLICY_VERSION_BYTES \<or> trim value \<noteq> value
         \<or> list_ex is_control value
      then Inl InvalidJoinPolicyVersion else Inr (JoinPolicyVersion value))"

datatype community_join_policy = Open | AcceptanceRequired join_policy_version

datatype community_lifecycle_state = Active | Archived | Quiescing | Fenced | Tombstone

record community =
  co_community_id :: community_id
  co_host :: community_host
  co_icon :: "community_icon option"
  co_lifecycle_state :: community_lifecycle_state
  co_join_policy :: community_join_policy
  co_version :: aggregate_version

record community_create_fields =
  cf_community_id :: community_id
  cf_host :: community_host
  cf_icon :: "community_icon option"
  cf_join_policy :: community_join_policy

datatype community_icon_update = IconUnchanged | IconClear | IconSet community_icon

record community_update =
  cu_host :: "community_host option"
  cu_icon :: community_icon_update

record community_command_context =
  cx_tenant :: tenant_context
  cx_principal :: authenticated_principal
  cx_current_membership_version :: aggregate_version
  cx_community_membership :: "community_membership option"
  cx_delegation :: "delegation_grant option"
  cx_now_millis :: u64

definition context_new ::
  "tenant_context \<Rightarrow> authenticated_principal \<Rightarrow> aggregate_version \<Rightarrow> community_membership option \<Rightarrow> u64
   \<Rightarrow> community_command_context" where
  "context_new tenant prin current_membership_version community_membership now =
     \<lparr>cx_tenant = tenant, cx_principal = prin, cx_current_membership_version = current_membership_version,
      cx_community_membership = community_membership, cx_delegation = None, cx_now_millis = now\<rparr>"

definition with_delegation :: "delegation_grant \<Rightarrow> community_command_context \<Rightarrow> community_command_context" where
  "with_delegation delegation self = self\<lparr>cx_delegation := Some delegation\<rparr>"

section \<open>Authorization\<close>

text \<open>The request that \<open>CommunityCommandContext::authorize\<close> builds.\<close>

definition context_request ::
  "community_command_context \<Rightarrow> authorization_scope \<Rightarrow> community_id \<Rightarrow> authorization_action \<Rightarrow> authorization_request" where
  "context_request self required_scope community action =
     \<lparr>rq_tenant = cx_tenant self, rq_principal = cx_principal self, rq_required_scope = required_scope,
      rq_action = action,
      rq_resource = \<lparr>rs_community_id = community, rs_kind = CommunityResource,
        rs_resource_id = community_resource community, rs_owner_principal_id = None, rs_channel_id = None\<rparr>,
      rq_current_membership_version = cx_current_membership_version self,
      rq_community_membership = cx_community_membership self,
      rq_current_channel_membership_version = None, rq_channel_membership = None,
      rq_delegation = cx_delegation self, rq_now_millis = cx_now_millis self\<rparr>"

definition context_authorize ::
  "community_command_context \<Rightarrow> community_id \<Rightarrow> authorization_action \<Rightarrow> community_error + unit" where
  "context_authorize self community action =
     and_then (map_err (\<lambda>_. AuthorizationConfiguration) (scope_new COMMUNITY_MANAGE_SCOPE)) (\<lambda>required_scope.
     case authorize (context_request self required_scope community action) of
       Allowed \<Rightarrow> Inr ()
     | Denied denial \<Rightarrow> Inl (Unauthorized denial))"

section \<open>Commands\<close>

definition require_version :: "community \<Rightarrow> aggregate_version \<Rightarrow> community_error + unit" where
  "require_version self expected = ensure (co_version self = expected) (StaleVersion expected (co_version self))"

definition require_active :: "community \<Rightarrow> community_error + unit" where
  "require_active self = ensure (co_lifecycle_state self = Active) InvalidTransition"

definition advance_version :: "community \<Rightarrow> (community, community_error, unit) effect" where
  "advance_version self =
     attempt self (ok_or (version_next (co_version self)) VersionExhausted) (\<lambda>v.
       (Inr (), self\<lparr>co_version := v\<rparr>))"

definition create :: "community_create_fields \<Rightarrow> community_command_context \<Rightarrow> community_error + community" where
  "create f ctx =
     and_then (context_authorize ctx (cf_community_id f) Delete) (\<lambda>_.
     Inr \<lparr>co_community_id = cf_community_id f, co_host = cf_host f, co_icon = cf_icon f,
          co_lifecycle_state = Active, co_join_policy = cf_join_policy f, co_version = version_first\<rparr>)"

definition update ::
  "aggregate_version \<Rightarrow> community_update \<Rightarrow> community_command_context \<Rightarrow> community
   \<Rightarrow> (community, community_error, command_outcome) effect" where
  "update expected up ctx self =
     attempt self (context_authorize ctx (co_community_id self) Manage) (\<lambda>_.
     attempt self (require_version self expected) (\<lambda>_.
     attempt self (require_active self) (\<lambda>_.
     if cu_host up = None \<and> cu_icon up = IconUnchanged then (Inl EmptyUpdate, self)
     else
       let host_changed = is_some_and (cu_host up) (\<lambda>host. host \<noteq> co_host self);
           icon_changed = (case cu_icon up of
             IconUnchanged \<Rightarrow> False
           | IconClear \<Rightarrow> co_icon self \<noteq> None
           | IconSet icon \<Rightarrow> co_icon self \<noteq> Some icon) in
       if \<not> host_changed \<and> \<not> icon_changed then (Inr Unchanged, self)
       else
         let self = (case cu_host up of Some host \<Rightarrow> self\<lparr>co_host := host\<rparr> | None \<Rightarrow> self);
             self = (case cu_icon up of
               IconUnchanged \<Rightarrow> self
             | IconClear \<Rightarrow> self\<lparr>co_icon := None\<rparr>
             | IconSet icon \<Rightarrow> self\<lparr>co_icon := Some icon\<rparr>) in
         and_continue (advance_version self) (\<lambda>_ self. (Inr Applied, self)))))"

definition set_join_policy ::
  "aggregate_version \<Rightarrow> community_join_policy \<Rightarrow> community_command_context \<Rightarrow> community
   \<Rightarrow> (community, community_error, command_outcome) effect" where
  "set_join_policy expected join_policy ctx self =
     attempt self (context_authorize ctx (co_community_id self) Manage) (\<lambda>_.
     attempt self (require_version self expected) (\<lambda>_.
     attempt self (require_active self) (\<lambda>_.
     if co_join_policy self = join_policy then (Inr Unchanged, self)
     else and_continue (advance_version (self\<lparr>co_join_policy := join_policy\<rparr>)) (\<lambda>_ self. (Inr Applied, self)))))"

definition archive ::
  "aggregate_version \<Rightarrow> community_command_context \<Rightarrow> community
   \<Rightarrow> (community, community_error, command_outcome) effect" where
  "archive expected ctx self =
     attempt self (context_authorize ctx (co_community_id self) Delete) (\<lambda>_.
     attempt self (require_version self expected) (\<lambda>_.
     case co_lifecycle_state self of
       Active \<Rightarrow> and_continue (advance_version (self\<lparr>co_lifecycle_state := Archived\<rparr>)) (\<lambda>_ self. (Inr Applied, self))
     | Archived \<Rightarrow> (Inr Unchanged, self)
     | _ \<Rightarrow> (Inl InvalidTransition, self)))"

definition restore ::
  "aggregate_version \<Rightarrow> community_command_context \<Rightarrow> community
   \<Rightarrow> (community, community_error, command_outcome) effect" where
  "restore expected ctx self =
     attempt self (context_authorize ctx (co_community_id self) Delete) (\<lambda>_.
     attempt self (require_version self expected) (\<lambda>_.
     case co_lifecycle_state self of
       Archived \<Rightarrow> and_continue (advance_version (self\<lparr>co_lifecycle_state := Active\<rparr>)) (\<lambda>_ self. (Inr Applied, self))
     | Active \<Rightarrow> (Inr Unchanged, self)
     | _ \<Rightarrow> (Inl InvalidTransition, self)))"

datatype community_command =
    Update aggregate_version community_update community_command_context
  | SetJoinPolicy aggregate_version community_join_policy community_command_context
  | Archive aggregate_version community_command_context
  | Restore aggregate_version community_command_context

fun community_exec :: "community_command \<Rightarrow> community \<Rightarrow> (community, community_error, command_outcome) effect" where
  "community_exec (Update v up ctx) = update v up ctx"
| "community_exec (SetJoinPolicy v p ctx) = set_join_policy v p ctx"
| "community_exec (Archive v ctx) = archive v ctx"
| "community_exec (Restore v ctx) = restore v ctx"

fun community_expected :: "community_command \<Rightarrow> aggregate_version" where
  "community_expected (Update v _ _) = v"
| "community_expected (SetJoinPolicy v _ _) = v"
| "community_expected (Archive v _) = v"
| "community_expected (Restore v _) = v"

fun command_context :: "community_command \<Rightarrow> community_command_context" where
  "command_context (Update _ _ ctx) = ctx"
| "command_context (SetJoinPolicy _ _ ctx) = ctx"
| "command_context (Archive _ ctx) = ctx"
| "command_context (Restore _ ctx) = ctx"

fun command_action :: "community_command \<Rightarrow> authorization_action" where
  "command_action (Update _ _ _) = Manage"
| "command_action (SetJoinPolicy _ _ _) = Manage"
| "command_action (Archive _ _) = Delete"
| "command_action (Restore _ _) = Delete"

section \<open>The contract of versioned aggregates\<close>

text \<open>The configured scope is valid, so the error for a misconfiguration does not occur.\<close>

lemma manage_scope_valid: "scope_new COMMUNITY_MANAGE_SCOPE = Inr (AuthorizationScope COMMUNITY_MANAGE_SCOPE)"
  by (simp add: scope_new_def COMMUNITY_MANAGE_SCOPE_def MAX_SCOPE_BYTES_def scope_punctuation_def string_defs)

lemma context_authorize_Inr:
  "context_authorize ctx c action = Inr u \<longleftrightarrow>
     authorized (context_request ctx (AuthorizationScope COMMUNITY_MANAGE_SCOPE) c action)"
  by (simp add: context_authorize_def manage_scope_valid authorize_iff [symmetric] split: authorization_decision.splits)

lemma community_advance_Inr [result_simps]:
  "advance_version c = (Inr u, c') \<longleftrightarrow>
     (\<exists>v. version_next (co_version c) = Some v \<and> c' = c\<lparr>co_version := v\<rparr>)"
  by (auto simp: advance_version_def result_simps)

lemma community_advance_Inl [result_simps]:
  "advance_version c = (Inl e, c') \<longleftrightarrow>
     version_next (co_version c) = None \<and> e = VersionExhausted \<and> c' = c"
  by (auto simp: advance_version_def result_simps)

text \<open>What a command writes, when it writes: the settings an update names, the join policy, or the
  life cycle between active and archived.\<close>

definition updated :: "community_update \<Rightarrow> community \<Rightarrow> community" where
  "updated up self =
     self\<lparr>co_host := (case cu_host up of Some host \<Rightarrow> host | None \<Rightarrow> co_host self),
          co_icon := (case cu_icon up of IconUnchanged \<Rightarrow> co_icon self | IconClear \<Rightarrow> None | IconSet icon \<Rightarrow> Some icon)\<rparr>"

fun written :: "community_command \<Rightarrow> community \<Rightarrow> community" where
  "written (Update _ up _) self = updated up self"
| "written (SetJoinPolicy _ p _) self = self\<lparr>co_join_policy := p\<rparr>"
| "written (Archive _ _) self = self\<lparr>co_lifecycle_state := Archived\<rparr>"
| "written (Restore _ _) self = self\<lparr>co_lifecycle_state := Active\<rparr>"

fun enabled :: "community_command \<Rightarrow> community_lifecycle_state \<Rightarrow> bool" where
  "enabled (Update _ up _) s \<longleftrightarrow> s = Active \<and> (cu_host up \<noteq> None \<or> cu_icon up \<noteq> IconUnchanged)"
| "enabled (SetJoinPolicy _ _ _) s \<longleftrightarrow> s = Active"
| "enabled (Archive _ _) s \<longleftrightarrow> s = Active \<or> s = Archived"
| "enabled (Restore _ _) s \<longleftrightarrow> s = Active \<or> s = Archived"

definition admitted :: "community_command \<Rightarrow> community \<Rightarrow> bool" where
  "admitted c self \<longleftrightarrow>
     authorized (context_request (command_context c) (AuthorizationScope COMMUNITY_MANAGE_SCOPE)
       (co_community_id self) (command_action c))
     \<and> community_expected c = co_version self \<and> enabled c (co_lifecycle_state self)"

lemma community_record_eq: "(s :: community) = t \<longleftrightarrow>
    co_community_id s = co_community_id t \<and> co_host s = co_host t \<and> co_icon s = co_icon t
    \<and> co_lifecycle_state s = co_lifecycle_state t \<and> co_join_policy s = co_join_policy t \<and> co_version s = co_version t"
  by (cases s; cases t) simp

lemma update_writes:
  "(case cu_icon up of
      IconUnchanged \<Rightarrow> (case cu_host up of Some host \<Rightarrow> self\<lparr>co_host := host\<rparr> | None \<Rightarrow> self)
    | IconClear \<Rightarrow> (case cu_host up of Some host \<Rightarrow> self\<lparr>co_host := host\<rparr> | None \<Rightarrow> self)\<lparr>co_icon := None\<rparr>
    | IconSet icon \<Rightarrow> (case cu_host up of Some host \<Rightarrow> self\<lparr>co_host := host\<rparr> | None \<Rightarrow> self)\<lparr>co_icon := Some icon\<rparr>)
   = updated up self"
  by (auto simp: updated_def community_record_eq split: option.splits community_icon_update.splits)

lemma update_unchanged:
  "\<not> is_some_and (cu_host up) (\<lambda>host. host \<noteq> co_host self)
   \<and> \<not> (case cu_icon up of IconUnchanged \<Rightarrow> False | IconClear \<Rightarrow> co_icon self \<noteq> None | IconSet icon \<Rightarrow> co_icon self \<noteq> Some icon)
   \<longleftrightarrow> updated up self = self"
  by (auto simp: updated_def community_record_eq is_some_and_def split: option.splits community_icon_update.splits)

text \<open>Each command, in one line: an admitted one writes its change and advances the version, or is
  ignored when there is nothing to change.\<close>

definition finish_command :: "community \<Rightarrow> community \<Rightarrow> (community, community_error, command_outcome) effect" where
  "finish_command self t =
     (if t = self then (Inr Unchanged, self)
      else case version_next (co_version self) of
        None \<Rightarrow> (Inl VersionExhausted, t)
      | Some v \<Rightarrow> (Inr Applied, t\<lparr>co_version := v\<rparr>))"

lemma admitted_authorize:
  "admitted c self \<longleftrightarrow>
     context_authorize (command_context c) (co_community_id self) (command_action c) = Inr ()
     \<and> co_version self = community_expected c \<and> enabled c (co_lifecycle_state self)"
  by (auto simp: admitted_def context_authorize_Inr)

lemma community_exec_admitted:
  assumes "admitted c self"
  shows "community_exec c self = finish_command self (written c self)"
proof (cases c)
  case (Update v up ctx)
  have "co_version (updated up self) = co_version self" by (simp add: updated_def)
  with Update assms show ?thesis
    by (cases "updated up self = self")
      (auto simp: admitted_authorize update_def require_version_def require_active_def
        update_writes update_unchanged Let_def advance_version_def finish_command_def split: option.splits)
next
  case (SetJoinPolicy v p ctx)
  with assms show ?thesis
    by (cases "co_join_policy self = p")
      (auto simp: admitted_authorize set_join_policy_def require_version_def require_active_def
        community_record_eq advance_version_def finish_command_def split: option.splits)
qed (use assms in \<open>auto simp: admitted_authorize archive_def restore_def require_version_def community_record_eq
    advance_version_def finish_command_def split: option.splits\<close>)

lemma community_exec_refused:
  assumes "\<not> admitted c self"
  shows "\<exists>e. community_exec c self = (Inl e, self)"
proof (cases "context_authorize (command_context c) (co_community_id self) (command_action c)")
  case (Inl e)
  then show ?thesis
    by (cases c) (simp_all add: update_def set_join_policy_def archive_def restore_def)
next
  case (Inr u)
  with assms show ?thesis
    by (cases c; cases "co_lifecycle_state self")
      (auto simp: admitted_authorize update_def set_join_policy_def archive_def restore_def
        require_version_def require_active_def ensure_def)
qed

definition under_deletion :: "community \<Rightarrow> bool" where
  "under_deletion self \<longleftrightarrow> co_lifecycle_state self \<in> {Quiescing, Fenced, Tombstone}"

lemma written_frame:
  "co_community_id (written c self) = co_community_id self" "co_version (written c self) = co_version self"
  by (cases c; simp add: updated_def)+

lemma community_cases:
  obtains (refused) e where "\<not> admitted c self" "community_exec c self = (Inl e, self)"
  | (same) "admitted c self" "written c self = self" "community_exec c self = (Inr Unchanged, self)"
  | (exhausted) "admitted c self" "written c self \<noteq> self" "version_next (co_version self) = None"
      "community_exec c self = (Inl VersionExhausted, written c self)"
  | (applied) v where "admitted c self" "written c self \<noteq> self" "version_next (co_version self) = Some v"
      "community_exec c self = (Inr Applied, (written c self)\<lparr>co_version := v\<rparr>)"
  using community_exec_refused [of c self] community_exec_admitted [of c self]
  by (cases "admitted c self"; cases "written c self = self"; cases "version_next (co_version self)")
    (auto simp: finish_command_def)

interpretation comm: terminal_aggregate community_exec co_version community_expected co_community_id
  "\<lambda>self. version_get (co_version self) \<noteq> 0" under_deletion
proof unfold_locales
  fix c s t
  assume "community_exec c s = (Inr Applied, t)"
  then show "community_expected c = co_version s" "version_next (co_version s) = Some (co_version t)"
    by (cases c s rule: community_cases; auto simp: admitted_def)+
next
  fix c s
  show "co_community_id (snd (community_exec c s)) = co_community_id s"
    by (cases c s rule: community_cases) (simp_all add: written_frame)
  show "version_get (co_version (snd (community_exec c s))) \<noteq> 0" if "version_get (co_version s) \<noteq> 0"
    using that by (cases c s rule: community_cases) (simp_all add: written_frame version_next_nonzero)
next
  fix c s
  assume deletion: "under_deletion s"
  then have "\<not> admitted c s" by (cases c) (auto simp: admitted_def under_deletion_def)
  then show "fst (community_exec c s) \<noteq> Inr Applied" using community_exec_refused [of c s] by auto
  show "t = s" if "community_exec c s = (Inl e, t)" for e t
    using community_exec_refused [OF \<open>\<not> admitted c s\<close>] that by auto
next
  fix c s t
  assume "community_exec c s = (Inr Unchanged, t)"
  then show "t = s" by (cases c s rule: community_cases) auto
next
  fix c s e t
  assume failed: "community_exec c s = (Inl e, t)"
  then show "co_version t = co_version s" by (cases c s rule: community_cases) (auto simp: written_frame)
  show "t = s" if "version_next (co_version s) \<noteq> None"
    using failed that by (cases c s rule: community_cases) auto
qed

section \<open>Properties\<close>

text \<open>C21. Every command does what it says: it is refused without a trace unless the access policy
  authorizes it for its action, it expects the current version and the life cycle enables it; an
  admitted one that changes nothing is ignored; otherwise it writes its change and advances the
  version, or at the last version reports that it is exhausted, having written.\<close>

theorem community_command_spec:
  "if admitted c self
   then community_exec c self =
     (if written c self = self then (Inr Unchanged, self)
      else case version_next (co_version self) of
        None \<Rightarrow> (Inl VersionExhausted, written c self)
      | Some v \<Rightarrow> (Inr Applied, (written c self)\<lparr>co_version := v\<rparr>))
   else snd (community_exec c self) = self \<and> \<not> is_ok (fst (community_exec c self))"
  by (cases c self rule: community_cases) simp_all

text \<open>A community under deletion is frozen: no sequence of updates, archivals and restorations changes
  a community that is quiescing, fenced or a tombstone.\<close>

theorem community_under_deletion_frozen:
  assumes "under_deletion self"
  shows "run_commands community_exec cs self = self"
  using assms by (rule comm.terminal_run)

definition sample_context :: "membership_role \<Rightarrow> community_command_context" where
  "sample_context role =
     context_new sample_tenant
       (zed_account alice sample_community (ServiceAccountId 3) {AuthorizationScope COMMUNITY_MANAGE_SCOPE})
       (version_of 5) (Some (alice_membership role)) 1000"

definition sample_host_community :: "community_lifecycle_state \<Rightarrow> community" where
  "sample_host_community state =
     \<lparr>co_community_id = sample_community, co_host = CommunityHost (lit ''chat.example''), co_icon = None,
      co_lifecycle_state = state, co_join_policy = Open, co_version = version_of 3\<rparr>"

theorem community_under_deletion_frozen_witness:
  "run_commands community_exec [Restore (version_of 3) (sample_context Owner)] (sample_host_community Fenced)
     = sample_host_community Fenced"
  by (rule community_under_deletion_frozen) (simp add: under_deletion_def sample_host_community_def)

text \<open>Who decides: without a delegation, a command that was applied came from a current, active member
  of the community, who is its owner or, for settings, an administrator.\<close>

theorem community_command_authority:
  assumes "community_exec c self = (Inr Applied, t)" and "cx_delegation (command_context c) = None"
  shows "\<exists>m. cx_community_membership (command_context c) = Some m
    \<and> cm_community_id m = co_community_id self \<and> cm_status m = MemberActive
    \<and> cm_version m = cx_current_membership_version (command_context c)
    \<and> (cm_role m = Owner \<or> cm_role m = Admin \<and> command_action c = Manage)"
proof -
  from assms(1) have "authorized (context_request (command_context c) (AuthorizationScope COMMUNITY_MANAGE_SCOPE)
      (co_community_id self) (command_action c))"
    by (cases c self rule: community_cases) (auto simp: admitted_def)
  then obtain m where m: "cx_community_membership (command_context c) = Some m"
      "cm_community_id m = co_community_id self" "cm_status m = MemberActive"
      "cm_version m = cx_current_membership_version (command_context c)" "permits (cm_role m) (command_action c)"
    using assms(2)
    by (auto simp: authorized_def context_request_def same_tenant_def member_in_force_def delegation_permits_def
        split: option.splits)
  moreover have "command_action c = Manage \<or> command_action c = Delete" by (cases c) simp_all
  ultimately show ?thesis by (cases "cm_role m") auto
qed

lemma sample_archive:
  "community_exec (Archive (version_of 3) (sample_context Owner)) (sample_host_community Active)
     = (Inr Applied, (sample_host_community Archived)\<lparr>co_version := version_of 4\<rparr>)"
proof -
  have "admitted (Archive (version_of 3) (sample_context Owner)) (sample_host_community Active)"
    by (simp add: admitted_def sample_host_community_def authorize_iff [symmetric])
      (simp add: context_request_def sample_context_def context_new_def sample_defs authorize_eval)
  from community_exec_admitted [OF this] show ?thesis
    by (simp add: finish_command_def sample_host_community_def version_next_def version_of_def checked_add_def version_new_def)
qed

theorem community_command_authority_witness:
  "\<exists>m. cx_community_membership (sample_context Owner) = Some m \<and> cm_role m = Owner"
  using community_command_authority [OF sample_archive]
  by (simp add: sample_context_def context_new_def)

text \<open>Archiving is reversible and touches nothing else: archiving an active community and restoring it
  gives it back, two versions later.\<close>

theorem archive_restore_roundtrip:
  assumes "community_exec (Archive v ctx) self = (Inr Applied, t)"
    and "community_exec (Restore w ctx') t = (Inr Applied, u)"
  shows "u = self\<lparr>co_version := co_version u\<rparr> \<and> version_num (co_version u) = version_num (co_version self) + 2"
proof -
  from assms(1) have "co_lifecycle_state self = Active" "version_next (co_version self) = Some (co_version t)"
    "t = self\<lparr>co_lifecycle_state := Archived, co_version := co_version t\<rparr>"
    by (cases "Archive v ctx" self rule: community_cases; auto simp: admitted_def community_record_eq)+
  moreover from assms(2) have "version_next (co_version t) = Some (co_version u)"
    "u = t\<lparr>co_lifecycle_state := Active, co_version := co_version u\<rparr>"
    by (cases "Restore w ctx'" t rule: community_cases; auto simp: admitted_def community_record_eq)+
  ultimately show ?thesis by (auto simp: community_record_eq version_next_Some)
qed

text \<open>Hosts are kept in a normal form: an accepted host is non-empty, at most 255 bytes, without
  capital ASCII letters, control characters and surrounding white space, and is the given string.\<close>

theorem community_host_type:
  "community_host_new s = Inr h \<longleftrightarrow>
     h = CommunityHost s \<and> 0 < str_len s \<and> str_len s \<le> 255 \<and> trim s = s
     \<and> (\<forall>c \<in> set s. \<not> (65 \<le> c \<and> c \<le> 90) \<and> \<not> is_control c)"
proof -
  have "s = to_ascii_lowercase s \<longleftrightarrow> (\<forall>c \<in> set s. \<not> (65 \<le> c \<and> c \<le> 90))"
    unfolding to_ascii_lowercase_def by (induction s) auto
  then show ?thesis
    by (auto simp: community_host_new_def MAX_COMMUNITY_HOST_BYTES_def list_ex_iff)
qed

theorem community_host_type_witness:
  "community_host_new (lit ''chat.example'') = Inr (CommunityHost (lit ''chat.example''))"
  by (subst community_host_type) (simp add: string_defs)

end
