(* ===== verification/Message.thy ===== *)
theory Message
  imports Channel EventSourced
begin

text \<open>
  Messages (\<open>message.rs\<close>): authors, source events, creation in an active channel, edits by the author or
  its owner, deletion by the author or a moderator, and the log of mutations that loading checks.
\<close>

section \<open>Data\<close>

definition MAX_CONTENT_BYTES :: nat where "MAX_CONTENT_BYTES = 65536"
definition MAX_MUTATIONS :: nat where "MAX_MUTATIONS = 10000"
definition MAX_REASON_CODE_BYTES :: nat where "MAX_REASON_CODE_BYTES = 64"
definition MAX_PUBLIC_REASON_BYTES :: nat where "MAX_PUBLIC_REASON_BYTES = 4096"

datatype message_error =
    InvalidMessageId | InvalidAuthor | InvalidSource | ContentTooLarge | InvalidModerationMetadata
  | ChannelMismatch | ChannelUnavailable | AuthorMismatch | AuthorEvidenceRequired | ActorNotAuthor
  | AuthorizationShape | Unauthorized authorization_denial | StaleVersion aggregate_version aggregate_version
  | InvalidTimestamp | MessageDeleted | DuplicateSource | InvalidHistory | TooManyMutations | VersionExhausted

datatype message_content = MessageContent (content_str: rust_string)

definition message_content_new :: "rust_string \<Rightarrow> message_error + message_content" where
  "message_content_new value =
     (if str_len value > MAX_CONTENT_BYTES then Inl ContentTooLarge else Inr (MessageContent value))"

datatype message_author =
    PrincipalAuthor principal_id
  | AgentAuthor (agent_principal_id: principal_id) (agent_owner_id: principal_id) (agent_proof_event_id: nostr_event_id)

definition from_virtual_agent :: "virtual_agent_membership_evidence \<Rightarrow> message_author" where
  "from_virtual_agent evidence =
     AgentAuthor (cm_principal_id (policy_membership_snapshot evidence)) (va_owner_principal_id evidence)
       (va_proof_event_id evidence)"

fun author_principal_id :: "message_author \<Rightarrow> principal_id" where
  "author_principal_id (PrincipalAuthor p) = p"
| "author_principal_id (AgentAuthor agent _ _) = agent"

fun author_owner_id :: "message_author \<Rightarrow> principal_id option" where
  "author_owner_id (PrincipalAuthor _) = None"
| "author_owner_id (AgentAuthor _ own _) = Some own"

fun author_validate :: "message_author \<Rightarrow> message_error + unit" where
  "author_validate (PrincipalAuthor p) = (if \<not> uuid_is_nil (principal_uuid p) then Inr () else Inl InvalidAuthor)"
| "author_validate (AgentAuthor agent own proof_id) =
     (if \<not> uuid_is_nil (principal_uuid agent) \<and> \<not> uuid_is_nil (principal_uuid own) \<and> agent \<noteq> own
         \<and> proof_id \<noteq> NostrEventId 0
      then Inr () else Inl InvalidAuthor)"

record message_source =
  so_event_id :: nostr_event_id
  so_event_created_at :: u64

definition source_validate :: "message_source \<Rightarrow> message_error + unit" where
  "source_validate self = (if so_event_id self = NostrEventId 0 then Inl InvalidSource else Inr ())"

record message_delete_metadata =
  dm_action_id :: "aggregate_id option"
  dm_reason_code :: "rust_string option"
  dm_public_reason :: "rust_string option"

definition metadata_validate :: "message_delete_metadata \<Rightarrow> message_error + unit" where
  "metadata_validate self =
     (if is_some_and (dm_action_id self) (\<lambda>action_id. uuid_is_nil (aggregate_uuid action_id))
         \<or> is_some_and (dm_reason_code self) (\<lambda>reason.
              reason = [] \<or> str_len reason > MAX_REASON_CODE_BYTES \<or> list_ex is_control reason)
         \<or> is_some_and (dm_public_reason self) (\<lambda>reason. str_len reason > MAX_PUBLIC_REASON_BYTES)
      then Inl InvalidModerationMetadata else Inr ())"

definition delete_metadata_new ::
  "aggregate_id option \<Rightarrow> rust_string option \<Rightarrow> rust_string option \<Rightarrow> message_error + message_delete_metadata" where
  "delete_metadata_new action_id reason_code public_reason =
     (let metadata = \<lparr>dm_action_id = action_id, dm_reason_code = reason_code, dm_public_reason = public_reason\<rparr> in
      and_then (metadata_validate metadata) (\<lambda>_. Inr metadata))"

definition metadata_is_empty :: "message_delete_metadata \<Rightarrow> bool" where
  "metadata_is_empty self \<longleftrightarrow>
     dm_action_id self = None \<and> dm_reason_code self = None \<and> dm_public_reason self = None"

datatype message_lifecycle_state = Active | Edited | Deleted

datatype message_mutation_kind = EditKind | DeleteKind bool "message_delete_metadata option"

record message_mutation =
  mm_source :: message_source
  mm_actor_principal_id :: principal_id
  mm_kind :: message_mutation_kind
  mm_resulting_version :: aggregate_version

record message =
  me_community_id :: community_id
  me_channel_id :: aggregate_id
  me_message_id :: aggregate_id
  me_author :: message_author
  me_content :: message_content
  me_lifecycle_state :: message_lifecycle_state
  me_source :: message_source
  me_current_source :: message_source
  me_mutations :: "message_mutation list"
  me_version :: aggregate_version

record message_create_fields =
  mf_community_id :: community_id
  mf_channel_id :: aggregate_id
  mf_message_id :: aggregate_id
  mf_author :: message_author
  mf_content :: message_content
  mf_source :: message_source

section \<open>Guards\<close>

definition authorize_message_command ::
  "authorization_request \<Rightarrow> community_id \<Rightarrow> aggregate_id \<Rightarrow> aggregate_id \<Rightarrow> principal_id
   \<Rightarrow> authorization_action \<Rightarrow> message_error + unit" where
  "authorize_message_command r community channel_id message_id author action =
     (if rq_action r \<noteq> action \<or> rs_community_id (rq_resource r) \<noteq> community
         \<or> rs_kind (rq_resource r) \<noteq> ConversationResource
         \<or> rs_resource_id (rq_resource r) \<noteq> message_id
         \<or> rs_owner_principal_id (rq_resource r) \<noteq> Some author
         \<or> rs_channel_id (rq_resource r) \<noteq> Some channel_id
      then Inl AuthorizationShape
      else case authorize r of Allowed \<Rightarrow> Inr () | Denied denial \<Rightarrow> Inl (Unauthorized denial))"

definition validate_authenticated_author :: "message_author \<Rightarrow> authorization_request \<Rightarrow> message_error + unit" where
  "validate_authenticated_author author r =
     (if request_subject r \<noteq> author_principal_id author then Inl AuthorMismatch
      else case (author, pn_kind (rq_principal r)) of
        (AgentAuthor _ _ proof_id, OwnerAttestedAgent _ _ _ authenticated_proof_id _) \<Rightarrow>
          if proof_id = authenticated_proof_id then Inr () else Inl AuthorEvidenceRequired
      | (AgentAuthor _ _ _, _) \<Rightarrow> Inl AuthorEvidenceRequired
      | (_, OwnerAttestedAgent _ _ _ _ _) \<Rightarrow> Inl AuthorEvidenceRequired
      | _ \<Rightarrow> Inr ())"

definition validate_identity :: "aggregate_id \<Rightarrow> aggregate_id \<Rightarrow> message_source \<Rightarrow> message_error + unit" where
  "validate_identity message_id channel_id source =
     (if uuid_is_nil (aggregate_uuid message_id) \<or> uuid_is_nil (aggregate_uuid channel_id)
      then Inl InvalidMessageId else source_validate source)"

definition is_author_or_owner :: "message_author \<Rightarrow> principal_id \<Rightarrow> bool" where
  "is_author_or_owner author p \<longleftrightarrow> p = author_principal_id author \<or> author_owner_id author = Some p"

definition has_source :: "message \<Rightarrow> nostr_event_id \<Rightarrow> bool" where
  "has_source self event_id \<longleftrightarrow>
     so_event_id (me_source self) = event_id
     \<or> list_ex (\<lambda>mutation. so_event_id (mm_source mutation) = event_id) (me_mutations self)"

definition require_version :: "message \<Rightarrow> aggregate_version \<Rightarrow> message_error + unit" where
  "require_version self expected = ensure (me_version self = expected) (StaleVersion expected (me_version self))"

definition require_not_deleted :: "message \<Rightarrow> message_error + unit" where
  "require_not_deleted self = ensure (me_lifecycle_state self \<noteq> Deleted) MessageDeleted"

definition require_source_time :: "message \<Rightarrow> message_source \<Rightarrow> message_error + unit" where
  "require_source_time self source =
     ensure (\<not> so_event_created_at source < so_event_created_at (me_current_source self)) InvalidTimestamp"

definition require_mutation_capacity :: "message \<Rightarrow> message_error + unit" where
  "require_mutation_capacity self = ensure (\<not> length (me_mutations self) \<ge> MAX_MUTATIONS) TooManyMutations"

definition next_version :: "message \<Rightarrow> message_error + aggregate_version" where
  "next_version self = ok_or (version_next (me_version self)) VersionExhausted"

section \<open>Commands\<close>

definition create ::
  "message_create_fields \<Rightarrow> channel \<Rightarrow> authorization_request \<Rightarrow> message_error + message" where
  "create f channel r =
     and_then (validate_identity (mf_message_id f) (mf_channel_id f) (mf_source f)) (\<lambda>_.
     and_then (author_validate (mf_author f)) (\<lambda>_.
     and_then (ensure (ch_community_id channel = mf_community_id f \<and> ch_channel_id channel = mf_channel_id f)
       ChannelMismatch) (\<lambda>_.
     and_then (ensure (ch_lifecycle_state channel = channel_lifecycle_state.Active) ChannelUnavailable) (\<lambda>_.
     and_then (authorize_message_command r (mf_community_id f) (mf_channel_id f) (mf_message_id f)
       (author_principal_id (mf_author f)) Write) (\<lambda>_.
     and_then (validate_authenticated_author (mf_author f) r) (\<lambda>_.
     Inr \<lparr>me_community_id = mf_community_id f, me_channel_id = mf_channel_id f, me_message_id = mf_message_id f,
          me_author = mf_author f, me_content = mf_content f, me_lifecycle_state = Active,
          me_source = mf_source f, me_current_source = mf_source f, me_mutations = [],
          me_version = version_first\<rparr>))))))"

definition visible_content :: "message \<Rightarrow> message_content option" where
  "visible_content self = (if me_lifecycle_state self \<noteq> Deleted then Some (me_content self) else None)"

definition edit ::
  "aggregate_version \<Rightarrow> message_content \<Rightarrow> message_source \<Rightarrow> authorization_request \<Rightarrow> message
   \<Rightarrow> (message, message_error, command_outcome) effect" where
  "edit expected content source r self =
     attempt self (source_validate source) (\<lambda>_.
     let actor = request_subject r in
     attempt self (ensure (is_author_or_owner (me_author self) actor) ActorNotAuthor) (\<lambda>_.
     attempt self (authorize_message_command r (me_community_id self) (me_channel_id self) (me_message_id self)
       (author_principal_id (me_author self)) Write) (\<lambda>_.
     if has_source self (so_event_id source) then (Inr Unchanged, self)
     else
       attempt self (require_mutation_capacity self) (\<lambda>_.
       attempt self (require_source_time self source) (\<lambda>_.
       attempt self (require_not_deleted self) (\<lambda>_.
       attempt self (require_version self expected) (\<lambda>_.
       attempt self (next_version self) (\<lambda>next.
       (Inr Applied, self\<lparr>me_content := content, me_lifecycle_state := Edited, me_current_source := source,
          me_mutations := me_mutations self @ [\<lparr>mm_source = source, mm_actor_principal_id = actor,
            mm_kind = EditKind, mm_resulting_version = next\<rparr>],
          me_version := next\<rparr>)))))))))"

definition delete ::
  "aggregate_version \<Rightarrow> message_source \<Rightarrow> message_delete_metadata option \<Rightarrow> authorization_request \<Rightarrow> message
   \<Rightarrow> (message, message_error, command_outcome) effect" where
  "delete expected source metadata r self =
     attempt self (source_validate source) (\<lambda>_.
     attempt self (case metadata of Some metadata \<Rightarrow> metadata_validate metadata | None \<Rightarrow> Inr ()) (\<lambda>_.
     let actor = request_subject r;
         self_delete = is_author_or_owner (me_author self) actor
           \<and> (case metadata of None \<Rightarrow> True | Some metadata \<Rightarrow> metadata_is_empty metadata) in
     attempt self (authorize_message_command r (me_community_id self) (me_channel_id self) (me_message_id self)
       (author_principal_id (me_author self)) (if self_delete then Write else Manage)) (\<lambda>_.
     if has_source self (so_event_id source) \<or> me_lifecycle_state self = Deleted then (Inr Unchanged, self)
     else
       attempt self (require_mutation_capacity self) (\<lambda>_.
       attempt self (require_source_time self source) (\<lambda>_.
       attempt self (require_version self expected) (\<lambda>_.
       attempt self (next_version self) (\<lambda>next.
       (Inr Applied, self\<lparr>me_lifecycle_state := Deleted, me_current_source := source,
          me_mutations := me_mutations self @ [\<lparr>mm_source = source, mm_actor_principal_id = actor,
            mm_kind = DeleteKind (\<not> self_delete)
              (case metadata of Some metadata \<Rightarrow> if metadata_is_empty metadata then None else Some metadata | None \<Rightarrow> None),
            mm_resulting_version = next\<rparr>],
          me_version := next\<rparr>))))))))"

section \<open>Loading\<close>

text \<open>The loop of \<open>validate_record\<close>: the source events seen, the last source, the last version and the
  derived life cycle.\<close>

type_synonym message_progress =
  "nostr_event_id set \<times> message_source \<times> aggregate_version \<times> message_lifecycle_state"

definition mutation_lifecycle :: "message_author \<Rightarrow> message_mutation \<Rightarrow> message_error + message_lifecycle_state" where
  "mutation_lifecycle author mutation =
     (let by_author = is_author_or_owner author (mm_actor_principal_id mutation) in
      case mm_kind mutation of
        EditKind \<Rightarrow> if by_author then Inr Edited else Inl InvalidHistory
      | DeleteKind moderated metadata \<Rightarrow>
          if \<not> moderated \<and> metadata = None \<and> by_author then Inr Deleted
          else if moderated then
            (case metadata of
               Some metadata \<Rightarrow> and_then (metadata_validate metadata) (\<lambda>_.
                 if metadata_is_empty metadata then Inl InvalidHistory else Inr Deleted)
             | None \<Rightarrow> Inr Deleted)
          else Inl InvalidHistory)"

fun validate_mutation :: "message_author \<Rightarrow> message_mutation \<Rightarrow> message_progress \<Rightarrow> message_error + message_progress" where
  "validate_mutation author mutation (sources, previous_source, previous_version, lifecycle) =
     and_then (source_validate (mm_source mutation)) (\<lambda>_.
     if uuid_is_nil (principal_uuid (mm_actor_principal_id mutation)) \<or> lifecycle = Deleted then Inl InvalidHistory
     else and_then (mutation_lifecycle author mutation) (\<lambda>derived.
       if so_event_created_at (mm_source mutation) < so_event_created_at previous_source then Inl InvalidTimestamp
       else if so_event_id (mm_source mutation) \<in> sources then Inl DuplicateSource
       else if \<not> version_follows (mm_resulting_version mutation) previous_version then Inl InvalidHistory
       else Inr (insert (so_event_id (mm_source mutation)) sources, mm_source mutation,
         mm_resulting_version mutation, derived)))"

definition validate_record :: "message \<Rightarrow> message_error + unit" where
  "validate_record f =
     and_then (validate_identity (me_message_id f) (me_channel_id f) (me_source f)) (\<lambda>_.
     and_then (author_validate (me_author f)) (\<lambda>_.
     and_then (ensure (\<not> length (me_mutations f) > MAX_MUTATIONS) TooManyMutations) (\<lambda>_.
     and_then (fold_log (validate_mutation (me_author f)) (me_mutations f)
       ({so_event_id (me_source f)}, me_source f, version_first, Active))
     (\<lambda>(_, previous_source, previous_version, derived).
     if me_current_source f \<noteq> previous_source \<or> me_version f \<noteq> previous_version then Inl InvalidHistory
     else if me_lifecycle_state f \<noteq> derived then Inl InvalidHistory
     else Inr ()))))"

definition from_record :: "message \<Rightarrow> message_error + message" where
  "from_record f = and_then (validate_record f) (\<lambda>_. Inr f)"

datatype message_command =
    EditMessage aggregate_version message_content message_source authorization_request
  | DeleteMessage aggregate_version message_source "message_delete_metadata option" authorization_request

fun message_exec :: "message_command \<Rightarrow> message \<Rightarrow> (message, message_error, command_outcome) effect" where
  "message_exec (EditMessage v content source r) = edit v content source r"
| "message_exec (DeleteMessage v source metadata r) = delete v source metadata r"

fun message_expected :: "message_command \<Rightarrow> aggregate_version" where
  "message_expected (EditMessage v _ _ _) = v"
| "message_expected (DeleteMessage v _ _ _) = v"

fun message_actor :: "message_command \<Rightarrow> principal_id" where
  "message_actor (EditMessage _ _ _ r) = request_subject r"
| "message_actor (DeleteMessage _ _ _ r) = request_subject r"

fun command_source :: "message_command \<Rightarrow> message_source" where
  "command_source (EditMessage _ _ s _) = s"
| "command_source (DeleteMessage _ s _ _) = s"

section \<open>The contracts\<close>

lemmas message_guards =
  require_version_def require_not_deleted_def require_source_time_def require_mutation_capacity_def next_version_def

definition message_identity :: "message \<Rightarrow> community_id \<times> aggregate_id \<times> aggregate_id \<times> message_author \<times> message_source" where
  "message_identity self = (me_community_id self, me_channel_id self, me_message_id self, me_author self, me_source self)"

text \<open>What the two commands have in common when they are applied.\<close>

fun mutation_of :: "message_command \<Rightarrow> message_author \<Rightarrow> aggregate_version \<Rightarrow> message_mutation" where
  "mutation_of (EditMessage _ _ source r) author v =
     \<lparr>mm_source = source, mm_actor_principal_id = request_subject r, mm_kind = EditKind, mm_resulting_version = v\<rparr>"
| "mutation_of (DeleteMessage _ source metadata r) author v =
     (let kept = (case metadata of Some metadata \<Rightarrow> if metadata_is_empty metadata then None else Some metadata | None \<Rightarrow> None) in
      \<lparr>mm_source = source, mm_actor_principal_id = request_subject r,
       mm_kind = DeleteKind (\<not> (is_author_or_owner author (request_subject r) \<and> kept = None)) kept,
       mm_resulting_version = v\<rparr>)"

definition mutated :: "message_command \<Rightarrow> aggregate_version \<Rightarrow> message \<Rightarrow> message" where
  "mutated c v self =
     (case c of
        EditMessage _ content _ _ \<Rightarrow> self\<lparr>me_content := content, me_lifecycle_state := Edited\<rparr>
      | DeleteMessage _ _ _ _ \<Rightarrow> self\<lparr>me_lifecycle_state := Deleted\<rparr>)
     \<lparr>me_current_source := command_source c, me_mutations := me_mutations self @ [mutation_of c (me_author self) v],
      me_version := v\<rparr>"

fun command_valid :: "message_command \<Rightarrow> message_author \<Rightarrow> bool" where
  "command_valid (EditMessage _ _ source r) author \<longleftrightarrow>
     source_validate source = Inr () \<and> is_author_or_owner author (request_subject r)"
| "command_valid (DeleteMessage _ source metadata r) author \<longleftrightarrow>
     source_validate source = Inr () \<and> (\<forall>m. metadata = Some m \<longrightarrow> metadata_validate m = Inr ())"

fun command_action :: "message_command \<Rightarrow> message_author \<Rightarrow> authorization_action" where
  "command_action (EditMessage _ _ _ _) author = Write"
| "command_action (DeleteMessage _ _ metadata r) author =
     (if is_author_or_owner author (request_subject r)
         \<and> (case metadata of None \<Rightarrow> True | Some metadata \<Rightarrow> metadata_is_empty metadata)
      then Write else Manage)"

fun command_request :: "message_command \<Rightarrow> authorization_request" where
  "command_request (EditMessage _ _ _ r) = r"
| "command_request (DeleteMessage _ _ _ r) = r"

definition command_allowed :: "message_command \<Rightarrow> message \<Rightarrow> bool" where
  "command_allowed c self \<longleftrightarrow>
     command_valid c (me_author self)
     \<and> authorize_message_command (command_request c) (me_community_id self) (me_channel_id self)
         (me_message_id self) (author_principal_id (me_author self)) (command_action c (me_author self)) = Inr ()"

lemma message_Applied:
  "message_exec c self = (Inr Applied, t) \<longleftrightarrow>
     (\<exists>v. t = mutated c v self \<and> version_next (me_version self) = Some v
        \<and> command_allowed c self \<and> \<not> has_source self (so_event_id (command_source c))
        \<and> length (me_mutations self) < MAX_MUTATIONS
        \<and> so_event_created_at (me_current_source self) \<le> so_event_created_at (command_source c)
        \<and> me_lifecycle_state self \<noteq> Deleted \<and> me_version self = message_expected c)"
proof (cases c)
  case (EditMessage v content source r)
  then show ?thesis
    by (auto simp: edit_def attempt_Inr ensure_Inr ok_or_Inr message_guards mutated_def command_allowed_def
        Let_def not_le not_less split: if_splits)
next
  case (DeleteMessage v source metadata r)
  have kept: "(is_author_or_owner a p \<and> (case metadata of None \<Rightarrow> True | Some metadata \<Rightarrow> metadata_is_empty metadata))
      = (is_author_or_owner a p \<and> (case metadata of Some metadata \<Rightarrow> if metadata_is_empty metadata then None else Some metadata | None \<Rightarrow> None) = None)"
    for a p by (auto split: option.splits)
  have valid: "(case metadata of Some metadata \<Rightarrow> metadata_validate metadata | None \<Rightarrow> Inr ()) = Inr () \<longleftrightarrow>
      (\<forall>m. metadata = Some m \<longrightarrow> metadata_validate m = Inr ())"
    by (cases metadata) simp_all
  from DeleteMessage show ?thesis
    by (auto simp: delete_def attempt_Inr ensure_Inr ok_or_Inr message_guards mutated_def command_allowed_def
        Let_def kept valid not_le not_less split: if_splits)
qed

lemma message_not_applied: "message_exec c self = (res, t) \<Longrightarrow> res \<noteq> Inr Applied \<Longrightarrow> t = self"
  by (cases c) (auto simp: edit_def delete_def attempt_def Let_def split: sum.splits if_splits)

lemma message_Unchanged_source:
  "command_allowed c self \<Longrightarrow> has_source self (so_event_id (command_source c)) \<Longrightarrow>
     message_exec c self = (Inr Unchanged, self)"
  by (cases c) (auto simp: command_allowed_def edit_def delete_def split: option.splits if_splits)

lemma mutated_frame [simp]:
  "message_identity (mutated c v self) = message_identity self" "me_version (mutated c v self) = v"
  "me_author (mutated c v self) = me_author self"
  "me_mutations (mutated c v self) = me_mutations self @ [mutation_of c (me_author self) v]"
  "me_current_source (mutated c v self) = command_source c" "me_source (mutated c v self) = me_source self"
  by (cases c; simp add: mutated_def message_identity_def)+

lemma mutation_of_source [simp]: "mm_source (mutation_of c a v) = command_source c"
  "mm_resulting_version (mutation_of c a v) = v" "mm_actor_principal_id (mutation_of c a v) = message_actor c"
  by (cases c; simp add: Let_def)+

lemma message_cases:
  obtains (same) "snd (message_exec c self) = self"
  | (applied) v where "message_exec c self = (Inr Applied, mutated c v self)"
      "version_next (me_version self) = Some v" "command_allowed c self" "length (me_mutations self) < MAX_MUTATIONS"
proof (cases "message_exec c self" rule: outcome_cases)
  case (applied t)
  with message_Applied [of c self t] that(2) show thesis by blast
qed (use that(1) message_not_applied in auto)

interpretation msg: terminal_aggregate message_exec me_version message_expected message_identity
  "\<lambda>self. version_get (me_version self) \<noteq> 0" "\<lambda>self. me_lifecycle_state self = Deleted"
proof unfold_locales
  fix c s
  show "message_identity (snd (message_exec c s)) = message_identity s"
    by (cases c s rule: message_cases) simp_all
  show "version_get (me_version (snd (message_exec c s))) \<noteq> 0" if "version_get (me_version s) \<noteq> 0"
    using that by (cases c s rule: message_cases) (simp_all add: version_next_nonzero)
next
  fix s :: message and c
  assume "me_lifecycle_state s = Deleted"
  then show "fst (message_exec c s) \<noteq> Inr Applied"
    by (cases "message_exec c s" rule: outcome_cases) (auto simp: message_Applied)
qed (auto simp: message_Applied dest: message_not_applied)

definition message_start :: "message \<Rightarrow> message_progress" where
  "message_start self = ({so_event_id (me_source self)}, me_source self, version_first, Active)"

definition message_view :: "message \<Rightarrow> message_progress" where
  "message_view self =
     (insert (so_event_id (me_source self)) (set (map (\<lambda>m. so_event_id (mm_source m)) (me_mutations self))),
      me_current_source self, me_version self, me_lifecycle_state self)"

lemma has_source_view: "has_source self e \<longleftrightarrow> e \<in> fst (message_view self)"
  by (auto simp: has_source_def message_view_def list_ex_iff)

lemma mutation_lifecycle_mutated:
  assumes "command_valid c (me_author self)"
  shows "mutation_lifecycle (me_author self) (mutation_of c (me_author self) v) = Inr (me_lifecycle_state (mutated c v self))"
  using assms
  by (cases c) (auto simp: mutation_lifecycle_def mutated_def Let_def split: option.splits)

lemma validate_mutated:
  assumes "message_exec c self = (Inr Applied, t)" and "\<not> uuid_is_nil (principal_uuid (message_actor c))"
  shows "validate_mutation (me_author self) (last (me_mutations t)) (message_view self) = Inr (message_view t)"
proof -
  from assms(1) obtain v where v: "t = mutated c v self" "version_next (me_version self) = Some v"
      "command_valid c (me_author self)" "so_event_id (command_source c) \<notin> fst (message_view self)"
      "so_event_created_at (me_current_source self) \<le> so_event_created_at (command_source c)"
      "me_lifecycle_state self \<noteq> Deleted"
    by (auto simp: message_Applied command_allowed_def has_source_view)
  moreover from v(3) have "source_validate (command_source c) = Inr ()" by (cases c) simp_all
  ultimately show ?thesis
    using assms(2)
    by (simp add: message_view_def mutation_lifecycle_mutated version_follows_def not_less insert_commute)
qed

interpretation mlog: mutation_log message_exec me_mutations message_start "\<lambda>self. validate_mutation (me_author self)"
  message_view "\<lambda>_ c. \<not> uuid_is_nil (principal_uuid (message_actor c))"
proof unfold_locales
  fix c s t
  assume applied: "message_exec c s = (Inr Applied, t)"
  then show "message_start t = message_start s \<and> validate_mutation (me_author t) = validate_mutation (me_author s)
      \<and> (\<lambda>c. \<not> uuid_is_nil (principal_uuid (message_actor c))) = (\<lambda>c. \<not> uuid_is_nil (principal_uuid (message_actor c)))"
    by (auto simp: message_Applied message_start_def)
  assume "\<not> uuid_is_nil (principal_uuid (message_actor c))"
  from validate_mutated [OF applied this] applied
  show "\<exists>m. me_mutations t = me_mutations s @ [m]
      \<and> validate_mutation (me_author s) m (message_view s) = Inr (message_view t)"
    by (auto simp: message_Applied)
next
  fix c s
  assume "fst (message_exec c s) \<noteq> Inr Applied"
  then show "snd (message_exec c s) = s" using message_not_applied [of c s] by (metis prod.collapse)
qed

lemma run_mutations_bound:
  "length (me_mutations self) \<le> MAX_MUTATIONS \<Longrightarrow> length (me_mutations (run_commands message_exec cs self)) \<le> MAX_MUTATIONS"
proof (induction cs arbitrary: self)
  case (Cons c cs)
  have "length (me_mutations (snd (message_exec c self))) \<le> MAX_MUTATIONS"
    using Cons.prems by (cases c self rule: message_cases) simp_all
  with Cons.IH show ?case by simp
qed simp

lemma from_record_agreement:
  "from_record self = Inr t \<longleftrightarrow>
     t = self \<and> validate_identity (me_message_id self) (me_channel_id self) (me_source self) = Inr ()
     \<and> author_validate (me_author self) = Inr () \<and> length (me_mutations self) \<le> MAX_MUTATIONS
     \<and> (\<exists>sources. fold_log (validate_mutation (me_author self)) (me_mutations self) (message_start self)
          = Inr (sources, me_current_source self, me_version self, me_lifecycle_state self))"
  by (auto simp: from_record_def validate_record_def message_start_def result_simps split: prod.splits if_splits)

lemma create_Inr:
  "create f ch r = Inr m \<Longrightarrow>
     validate_identity (me_message_id m) (me_channel_id m) (me_source m) = Inr ()
     \<and> author_validate (me_author m) = Inr () \<and> me_mutations m = [] \<and> mlog.in_agreement m
     \<and> me_content m = mf_content f"
  by (auto simp: create_def result_simps mlog.in_agreement_def message_start_def message_view_def)

section \<open>Properties\<close>

text \<open>The check of a record refuses a mutation without an identified actor, and only that stands between a log
  written by commands and the check.\<close>

abbreviation identified :: "message_mutation \<Rightarrow> bool" where
  "identified mutation \<equiv> \<not> uuid_is_nil (principal_uuid (mm_actor_principal_id mutation))"

lemma checked_identified:
  "fold_log (validate_mutation author) ms progress = Inr result \<Longrightarrow> \<forall>mutation \<in> set ms. identified mutation"
proof (induction ms arbitrary: progress)
  case (Cons mutation ms)
  obtain sources source version lifecycle where p: "progress = (sources, source, version, lifecycle)" by (metis prod_cases4)
  from Cons.prems obtain q where "validate_mutation author mutation progress = Inr q"
      "fold_log (validate_mutation author) ms q = Inr result"
    by (auto simp: result_simps)
  with Cons.IH [OF this(2)] show ?case by (auto simp: p result_simps split: if_splits)
qed simp

lemma run_log_grows: "\<exists>ms. me_mutations (run_commands message_exec cs self) = me_mutations self @ ms"
proof (induction cs arbitrary: self)
  case (Cons c cs)
  have "\<exists>ms. me_mutations (snd (message_exec c self)) = me_mutations self @ ms"
    by (cases c self rule: message_cases) simp_all
  with Cons.IH [of "snd (message_exec c self)"] show ?case by auto
qed simp

lemma identified_agreement:
  "\<lbrakk>mlog.in_agreement self; \<forall>mutation \<in> set (me_mutations (run_commands message_exec cs self)). identified mutation\<rbrakk> \<Longrightarrow>
   mlog.in_agreement (run_commands message_exec cs self)"
proof (induction cs arbitrary: self)
  case (Cons c cs)
  let ?t = "snd (message_exec c self)"
  have "mlog.in_agreement ?t"
  proof (cases c self rule: message_cases)
    case same
    with Cons.prems(1) show ?thesis by simp
  next
    case (applied v)
    have "set (me_mutations ?t) \<subseteq> set (me_mutations (run_commands message_exec cs ?t))"
      using run_log_grows [of cs ?t] by auto
    with applied(1) Cons.prems(2) have "\<not> uuid_is_nil (principal_uuid (message_actor c))" by auto
    from mlog.agreement_step [OF Cons.prems(1), of c] this show ?thesis by simp
  qed
  with Cons show ?case by simp
qed simp

text \<open>C18. Messages load back: after any run of edits and deletions, the stored message passes the check of its
  mutation log and loads unchanged exactly when every mutation in the log has an identified actor; its
  version counts the changes. (Commands let a principal with the nil identifier delete a message as a
  moderator, and the check refuses what they stored.)\<close>

theorem message_record_roundtrip:
  assumes "create f ch r = Inr m"
  shows "(from_record (run_commands message_exec cs m) = Inr (run_commands message_exec cs m)
      \<longleftrightarrow> (\<forall>mutation \<in> set (me_mutations (run_commands message_exec cs m)). identified mutation))
    \<and> version_num (me_version (run_commands message_exec cs m)) = 1 + count_applied message_exec cs m"
proof -
  let ?t = "run_commands message_exec cs m"
  note m = create_Inr [OF assms]
  from msg.run_identity [of cs m]
  have id: "me_message_id ?t = me_message_id m" "me_channel_id ?t = me_channel_id m" "me_source ?t = me_source m"
      "me_author ?t = me_author m"
    by (simp_all add: message_identity_def)
  have "from_record ?t = Inr ?t" if "\<forall>mutation \<in> set (me_mutations ?t). identified mutation"
  proof -
    have "mlog.in_agreement ?t" using m that by (intro identified_agreement) auto
    then have "\<exists>sources. fold_log (validate_mutation (me_author ?t)) (me_mutations ?t) (message_start ?t)
        = Inr (sources, me_current_source ?t, me_version ?t, me_lifecycle_state ?t)"
      by (auto simp: mlog.in_agreement_def message_view_def)
    with m id run_mutations_bound [of m cs] show ?thesis by (auto simp: from_record_agreement)
  qed
  moreover have "\<forall>mutation \<in> set (me_mutations ?t). identified mutation" if "from_record ?t = Inr ?t"
    using that unfolding from_record_agreement by (blast dest: checked_identified)
  moreover from assms have "me_version m = version_first" by (auto simp: create_def result_simps)
  then have "version_num (me_version ?t) = 1 + count_applied message_exec cs m"
    using msg.run_version [of cs m] by (simp add: version_first_def version_num_def)
  ultimately show ?thesis by blast
qed

definition may_write :: "message \<Rightarrow> message_content \<Rightarrow> message_command \<Rightarrow> bool" where
  "may_write self content c \<longleftrightarrow>
     (\<exists>v source r. c = EditMessage v content source r \<and> is_author_or_owner (me_author self) (request_subject r)
        \<and> authorize r = Allowed \<and> rs_resource_id (rq_resource r) = me_message_id self \<and> rq_action r = Write)"

lemma authorize_message_command_Inr:
  "authorize_message_command r c ch m a action = Inr u \<Longrightarrow>
     authorize r = Allowed \<and> rs_resource_id (rq_resource r) = m \<and> rq_action r = action"
  by (auto simp: authorize_message_command_def split: if_splits authorization_decision.splits)

lemma content_step:
  "me_content (snd (message_exec c self)) = me_content self \<or> may_write self (me_content (snd (message_exec c self))) c"
proof (cases c self rule: message_cases)
  case (applied v)
  then show ?thesis
    by (cases c) (auto simp: mutated_def may_write_def command_allowed_def dest: authorize_message_command_Inr)
qed simp

text \<open>C19. Nobody else's words: the content of a message is what it was created with or what an edit wrote
  that the access policy allowed and that came from the author or, for an agent, its owner.\<close>

theorem content_written_by_author:
  "me_content (run_commands message_exec cs self) = me_content self
   \<or> (\<exists>c \<in> set cs. may_write self (me_content (run_commands message_exec cs self)) c)"
proof (induction cs arbitrary: self)
  case (Cons c cs)
  let ?t = "snd (message_exec c self)"
  have "may_write ?t = may_write self"
    using msg.identity_kept [of c self] by (simp add: may_write_def [abs_def] message_identity_def)
  with Cons [of ?t] content_step [of c self] show ?case by auto
qed simp

text \<open>Deletion is final: nothing changes a deleted message any more, and its content stays hidden.\<close>

theorem deleted_message_final:
  assumes "message_exec (DeleteMessage v source metadata r) self = (Inr Applied, t)"
  shows "run_commands message_exec cs t = t \<and> visible_content t = None"
proof -
  from assms [unfolded message_Applied] have "me_lifecycle_state t = Deleted" by (auto simp: mutated_def)
  then show ?thesis by (simp add: msg.terminal_run visible_content_def)
qed

lemma source_kept:
  assumes "has_source self e"
  shows "has_source (snd (message_exec c self)) e"
  using assms
  by (cases c self rule: message_cases) (auto simp: has_source_def)

lemma run_source_kept: "has_source self e \<Longrightarrow> has_source (run_commands message_exec cs self) e"
  by (induction cs arbitrary: self) (auto simp: source_kept)

text \<open>Delivering a command again is harmless: once it has been applied, the same command, whatever
  happened in between, is answered as unchanged and changes nothing.\<close>

theorem message_redelivery_harmless:
  assumes "message_exec c self = (Inr Applied, t)"
  shows "message_exec c (run_commands message_exec cs t) = (Inr Unchanged, run_commands message_exec cs t)"
proof (rule message_Unchanged_source)
  let ?u = "run_commands message_exec cs t"
  from assms obtain v where t: "t = mutated c v self" "command_allowed c self" by (auto simp: message_Applied)
  then have "message_identity ?u = message_identity self" by (simp add: msg.run_identity)
  with t(2) show "command_allowed c ?u" by (simp add: command_allowed_def message_identity_def)
  from t(1) have "has_source t (so_event_id (command_source c))" by (auto simp: has_source_def)
  then show "has_source ?u (so_event_id (command_source c))" by (rule run_source_kept)
qed

section \<open>A sample conversation\<close>

definition message_request :: "authorization_action \<Rightarrow> authorization_request" where
  "message_request action =
     (channel_request action Member)\<lparr>rq_resource :=
        \<lparr>rs_community_id = sample_community, rs_kind = ConversationResource, rs_resource_id = AggregateId 70,
         rs_owner_principal_id = Some alice, rs_channel_id = Some sample_channel\<rparr>\<rparr>"

definition event_at :: "256 word \<Rightarrow> u64 \<Rightarrow> message_source" where
  "event_at e t = \<lparr>so_event_id = NostrEventId e, so_event_created_at = t\<rparr>"

definition hello :: message where
  "hello =
     \<lparr>me_community_id = sample_community, me_channel_id = sample_channel, me_message_id = AggregateId 70,
      me_author = PrincipalAuthor alice, me_content = MessageContent (lit ''helo''), me_lifecycle_state = Active,
      me_source = event_at 80 900, me_current_source = event_at 80 900, me_mutations = [], me_version = version_first\<rparr>"

definition hello_fields :: message_create_fields where
  "hello_fields =
     \<lparr>mf_community_id = sample_community, mf_channel_id = sample_channel, mf_message_id = AggregateId 70,
      mf_author = PrincipalAuthor alice, mf_content = MessageContent (lit ''helo''), mf_source = event_at 80 900\<rparr>"

definition fix_typo :: message_command where
  "fix_typo = EditMessage version_first (MessageContent (lit ''hello'')) (event_at 81 950) (message_request Write)"

definition take_back :: message_command where
  "take_back = DeleteMessage version_first (event_at 82 950) None (message_request Write)"

lemma message_request_authorized:
  "authorize_message_command (message_request Write) sample_community sample_channel (AggregateId 70) alice Write = Inr ()"
  by (simp add: authorize_message_command_def message_request_def)
    (simp add: message_request_def sample_defs authorize_eval)

lemma message_request_subject: "request_subject (message_request a) = alice"
  by (simp add: message_request_def request_subject_def authorization_subject_def sample_defs)

lemma hello_created: "create hello_fields (sample_ephemeral channel_lifecycle_state.Active) (message_request Write) = Inr hello"
proof -
  have "validate_authenticated_author (PrincipalAuthor alice) (message_request Write) = Inr ()"
    by (simp add: validate_authenticated_author_def message_request_subject)
      (simp add: message_request_def sample_defs)
  then show ?thesis
    using message_request_authorized
    by (simp add: create_def hello_fields_def hello_def sample_ephemeral_def validate_identity_def source_validate_def
        event_at_def uuid_is_nil_def alice_def sample_channel_def)
qed

lemma hello_next: "version_next version_first = Some (version_of 2)"
  by (simp add: version_next_Some version_first_def version_of_def version_num_def)

lemma hello_edited: "message_exec fix_typo hello = (Inr Applied, mutated fix_typo (version_of 2) hello)"
  unfolding message_Applied using message_request_authorized
  by (simp add: hello_next hello_def fix_typo_def command_allowed_def source_validate_def event_at_def
      is_author_or_owner_def message_request_subject has_source_def MAX_MUTATIONS_def)

lemma hello_deleted: "message_exec take_back hello = (Inr Applied, mutated take_back (version_of 2) hello)"
  unfolding message_Applied using message_request_authorized
  by (simp add: hello_next hello_def take_back_def command_allowed_def source_validate_def event_at_def
      is_author_or_owner_def message_request_subject has_source_def MAX_MUTATIONS_def)

text \<open>An administrator whose principal has the nil identifier deletes the message as a moderator.\<close>

definition nobody :: principal_id where
  "nobody = PrincipalId 0"

definition nobody_request :: authorization_request where
  "nobody_request =
     (message_request Manage)
       \<lparr>rq_principal := zed_account nobody sample_community (ServiceAccountId 3) {sample_scope},
        rq_community_membership := Some ((alice_membership Admin)\<lparr>cm_principal_id := nobody\<rparr>),
        rq_channel_membership := Some ((alice_channel_membership Admin)\<lparr>hm_principal_id := nobody\<rparr>)\<rparr>"

definition nobody_deletes :: message_command where
  "nobody_deletes = DeleteMessage version_first (event_at 83 950) None nobody_request"

lemma nobody_authorized:
  "authorize_message_command nobody_request sample_community sample_channel (AggregateId 70) alice Manage = Inr ()"
  "request_subject nobody_request = nobody"
  by (simp add: authorize_message_command_def nobody_request_def message_request_def)
    (simp_all add: nobody_request_def message_request_def sample_defs authorize_eval nobody_def)

lemma hello_deleted_by_nobody: "message_exec nobody_deletes hello = (Inr Applied, mutated nobody_deletes (version_of 2) hello)"
  unfolding message_Applied using nobody_authorized
  by (simp add: hello_next hello_def nobody_deletes_def command_allowed_def source_validate_def event_at_def
      is_author_or_owner_def nobody_def alice_def has_source_def MAX_MUTATIONS_def)

theorem message_record_roundtrip_witness:
  "from_record (mutated fix_typo (version_of 2) hello) = Inr (mutated fix_typo (version_of 2) hello)
   \<and> message_exec nobody_deletes hello = (Inr Applied, mutated nobody_deletes (version_of 2) hello)
   \<and> from_record (mutated nobody_deletes (version_of 2) hello) \<noteq> Inr (mutated nobody_deletes (version_of 2) hello)"
proof -
  have "from_record (mutated fix_typo (version_of 2) hello) = Inr (mutated fix_typo (version_of 2) hello)"
    using message_record_roundtrip [OF hello_created, of "[fix_typo]"] hello_edited
    by (simp add: hello_def fix_typo_def message_request_subject uuid_is_nil_def alice_def)
  moreover have "from_record (mutated nobody_deletes (version_of 2) hello) \<noteq> Inr (mutated nobody_deletes (version_of 2) hello)"
    using message_record_roundtrip [OF hello_created, of "[nobody_deletes]"] hello_deleted_by_nobody nobody_authorized(2)
    by (simp add: hello_def nobody_deletes_def uuid_is_nil_def nobody_def)
  ultimately show ?thesis using hello_deleted_by_nobody by blast
qed

theorem deleted_message_final_witness:
  "run_commands message_exec [fix_typo] (mutated take_back (version_of 2) hello) = mutated take_back (version_of 2) hello
   \<and> visible_content (mutated take_back (version_of 2) hello) = None"
  using deleted_message_final [OF hello_deleted [unfolded take_back_def], of "[fix_typo]", folded take_back_def] by simp

theorem message_redelivery_harmless_witness:
  "message_exec fix_typo (mutated fix_typo (version_of 2) hello) = (Inr Unchanged, mutated fix_typo (version_of 2) hello)"
  using message_redelivery_harmless [OF hello_edited, of "[]"] by simp

end
