(* ===== verification/OrderedMap.thy ===== *)
theory OrderedMap
  imports Profile "HOL-Library.Product_Lexorder" "HOL-Library.List_Lexorder"
begin

text \<open>
  Rust's \<open>BTreeMap\<close> where the order of its keys is observed: a list of entries with strictly ascending
  keys, with insertion, removal and the \<open>entry\<close> idiom, and the orders of the identifiers that serve as
  keys. Lookup is \<open>map_of\<close>; the operations act on it as on a finite map.
\<close>

section \<open>Orders of identifiers\<close>

text \<open>The derived orders of \<open>[u8; 32]\<close> and of a UUID are those of the big-endian number.\<close>

fun event_word :: "nostr_event_id \<Rightarrow> 256 word" where "event_word (NostrEventId w) = w"
fun key_word :: "nostr_public_key \<Rightarrow> 256 word" where "key_word (NostrPublicKey w) = w"

lemma event_word_inject [simp]: "event_word a = event_word b \<longleftrightarrow> a = b"
  by (cases a; cases b) simp

lemma key_word_inject [simp]: "key_word a = key_word b \<longleftrightarrow> a = b"
  by (cases a; cases b) simp

instantiation nostr_event_id :: linorder
begin

definition less_eq_nostr_event_id :: "nostr_event_id \<Rightarrow> nostr_event_id \<Rightarrow> bool" where
  "less_eq_nostr_event_id a b \<longleftrightarrow> event_word a \<le> event_word b"

definition less_nostr_event_id :: "nostr_event_id \<Rightarrow> nostr_event_id \<Rightarrow> bool" where
  "less_nostr_event_id a b \<longleftrightarrow> event_word a < event_word b"

instance
  by standard (auto simp: less_eq_nostr_event_id_def less_nostr_event_id_def)

end

instantiation nostr_public_key :: linorder
begin

definition less_eq_nostr_public_key :: "nostr_public_key \<Rightarrow> nostr_public_key \<Rightarrow> bool" where
  "less_eq_nostr_public_key a b \<longleftrightarrow> key_word a \<le> key_word b"

definition less_nostr_public_key :: "nostr_public_key \<Rightarrow> nostr_public_key \<Rightarrow> bool" where
  "less_nostr_public_key a b \<longleftrightarrow> key_word a < key_word b"

instance
  by standard (auto simp: less_eq_nostr_public_key_def less_nostr_public_key_def)

end

instantiation principal_id :: linorder
begin

definition less_eq_principal_id :: "principal_id \<Rightarrow> principal_id \<Rightarrow> bool" where
  "less_eq_principal_id a b \<longleftrightarrow> principal_uuid a \<le> principal_uuid b"

definition less_principal_id :: "principal_id \<Rightarrow> principal_id \<Rightarrow> bool" where
  "less_principal_id a b \<longleftrightarrow> principal_uuid a < principal_uuid b"

instance
  by standard (auto simp: less_eq_principal_id_def less_principal_id_def principal_id.expand)

end

section \<open>Ordered maps\<close>

type_synonym ('k, 'v) btree_map = "('k \<times> 'v) list"

definition ordered :: "('k::linorder, 'v) btree_map \<Rightarrow> bool" where
  "ordered m \<longleftrightarrow> sorted_wrt (<) (map fst m)"

fun bt_insert :: "'k::linorder \<Rightarrow> 'v \<Rightarrow> ('k, 'v) btree_map \<Rightarrow> ('k, 'v) btree_map" where
  "bt_insert k v [] = [(k, v)]"
| "bt_insert k v ((k', v') # m) =
     (if k < k' then (k, v) # (k', v') # m
      else if k = k' then (k, v) # m
      else (k', v') # bt_insert k v m)"

definition bt_remove :: "'k \<Rightarrow> ('k, 'v) btree_map \<Rightarrow> ('k, 'v) btree_map" where
  "bt_remove k m = filter (\<lambda>(k', _). k' \<noteq> k) m"

text \<open>\<open>m.entry(k).and_modify(f).or_insert(v)\<close>, and \<open>m.entry(k).or_default().push(x)\<close>.\<close>

definition bt_entry :: "'k::linorder \<Rightarrow> ('v \<Rightarrow> 'v) \<Rightarrow> 'v \<Rightarrow> ('k, 'v) btree_map \<Rightarrow> ('k, 'v) btree_map" where
  "bt_entry k f v m = bt_insert k (case map_of m k of None \<Rightarrow> v | Some x \<Rightarrow> f x) m"

definition bt_push :: "'k::linorder \<Rightarrow> 'v \<Rightarrow> ('k, 'v list) btree_map \<Rightarrow> ('k, 'v list) btree_map" where
  "bt_push k x m = bt_entry k (\<lambda>xs. xs @ [x]) [x] m"

lemma ordered_Nil [simp]: "ordered []"
  by (simp add: ordered_def)

lemma ordered_Cons [simp]: "ordered (e # m) \<longleftrightarrow> (\<forall>e' \<in> set m. fst e < fst e') \<and> ordered m"
  by (auto simp: ordered_def)

lemma ordered_distinct: "ordered m \<Longrightarrow> distinct (map fst m)"
  by (simp add: ordered_def strict_sorted_iff)

lemma map_of_bt_insert [simp]: "map_of (bt_insert k v m) = (map_of m)(k \<mapsto> v)"
  by (induction k v m rule: bt_insert.induct) (auto simp: fun_eq_iff)

lemma set_bt_insert_subset: "set (bt_insert k v m) \<subseteq> insert (k, v) (set m)"
  by (induction k v m rule: bt_insert.induct) auto

lemma ordered_bt_insert [simp]: "ordered m \<Longrightarrow> ordered (bt_insert k v m)"
proof (induction k v m rule: bt_insert.induct)
  case (2 k v k' v' m)
  have "\<forall>e \<in> set (bt_insert k v m). k' < fst e" if "k' < k"
    using 2(2) that set_bt_insert_subset [of k v m] by auto
  with 2 show ?case
    by (cases k k' rule: linorder_cases) (auto intro: less_trans)
qed simp

lemma map_of_bt_remove [simp]: "map_of (bt_remove k m) = (map_of m)(k := None)"
  by (induction m) (auto simp: bt_remove_def fun_eq_iff)

lemma ordered_bt_remove [simp]: "ordered m \<Longrightarrow> ordered (bt_remove k m)"
  by (induction m) (auto simp: bt_remove_def)

lemma map_of_bt_entry [simp]:
  "map_of (bt_entry k f v m) = (map_of m)(k \<mapsto> (case map_of m k of None \<Rightarrow> v | Some x \<Rightarrow> f x))"
  by (simp add: bt_entry_def)

lemma ordered_bt_entry [simp]: "ordered m \<Longrightarrow> ordered (bt_entry k f v m)"
  by (simp add: bt_entry_def)

lemma map_of_bt_push:
  "map_of (bt_push k x m) = (map_of m)(k \<mapsto> (case map_of m k of None \<Rightarrow> [x] | Some xs \<Rightarrow> xs @ [x]))"
  by (simp add: bt_push_def)

lemma ordered_bt_push [simp]: "ordered m \<Longrightarrow> ordered (bt_push k x m)"
  by (simp add: bt_push_def)

text \<open>An ordered map is determined by its lookups.\<close>

lemma ordered_eqI:
  assumes "ordered m" "ordered n" "map_of m = map_of n"
  shows "m = n"
proof -
  have same: "set m = set n"
    using assms map_of_eq_Some_iff [OF ordered_distinct] by (metis (no_types) subrelI subset_antisym)
  have "inj_on fst (set m \<union> set n)"
    using ordered_distinct [OF assms(1)] by (simp add: same distinct_map)
  then show ?thesis
    using assms(1,2) same by (intro map_sorted_distinct_set_unique [of fst]) (auto simp: ordered_def strict_sorted_iff)
qed

end
