(* ===== verification/Reaction.thy ===== *)
theory Reaction
  imports Message OrderedMap
begin

text \<open>
  Reactions to a message (\<open>reaction.rs\<close>): values, the commands that add and remove one's own reaction,
  the groups that are displayed, and the log of mutations that loading checks and folds. The log is
  shown to act as a finite map from values and people to the event that added the reaction.
\<close>

section \<open>Data\<close>

definition MAX_STANDARD_REACTION_CHARACTERS :: nat where "MAX_STANDARD_REACTION_CHARACTERS = 64"
definition MAX_CUSTOM_EMOJI_SHORTCODE_BYTES :: nat where "MAX_CUSTOM_EMOJI_SHORTCODE_BYTES = 64"
definition MAX_REACTION_MUTATIONS :: nat where "MAX_REACTION_MUTATIONS = 10000"

datatype reaction_error =
    InvalidValue | InvalidReactionSource | InvalidReactionRecord | TargetMismatch | TargetDeleted
  | AddedEventMismatch | MessageFailure message_error | StaleVersion aggregate_version aggregate_version
  | InvalidTimestamp | TooManyReactionMutations | VersionExhausted

datatype reaction_value = ReactionValue (value_str: rust_string)

text \<open>The order of strings by their UTF-8 bytes is the order by their scalar values.\<close>

instantiation reaction_value :: linorder
begin

definition less_eq_reaction_value :: "reaction_value \<Rightarrow> reaction_value \<Rightarrow> bool" where
  "less_eq_reaction_value a b \<longleftrightarrow> value_str a \<le> value_str b"

definition less_reaction_value :: "reaction_value \<Rightarrow> reaction_value \<Rightarrow> bool" where
  "less_reaction_value a b \<longleftrightarrow> value_str a < value_str b"

instance
  by standard (auto simp: less_eq_reaction_value_def less_reaction_value_def reaction_value.expand)

end

definition strip_colons :: "rust_string \<Rightarrow> rust_string option" where
  "strip_colons s =
     (if s \<noteq> [] \<and> hd s = 58 \<and> tl s \<noteq> [] \<and> last (tl s) = 58 then Some (butlast (tl s)) else None)"

definition shortcode_char :: "rust_char \<Rightarrow> bool" where
  "shortcode_char c \<longleftrightarrow> is_ascii_alphanumeric c \<or> c = 45 \<or> c = 95"

definition reaction_value_new :: "rust_string \<Rightarrow> reaction_error + reaction_value" where
  "reaction_value_new s =
     (if s = [] \<or> list_ex is_control s then Inl InvalidValue
      else if length s \<le> MAX_STANDARD_REACTION_CHARACTERS then Inr (ReactionValue s)
      else case strip_colons s of
        None \<Rightarrow> Inl InvalidValue
      | Some shortcode \<Rightarrow>
          if shortcode = [] \<or> str_len shortcode > MAX_CUSTOM_EMOJI_SHORTCODE_BYTES
             \<or> \<not> list_all shortcode_char shortcode \<or> shortcode \<noteq> to_ascii_lowercase shortcode
          then Inl InvalidValue
          else Inr (ReactionValue s))"

datatype reaction_mutation_kind = AddKind | RemoveKind nostr_event_id

record reaction_mutation =
  rm_source :: message_source
  rm_actor_principal_id :: principal_id
  rm_value :: reaction_value
  rm_kind :: reaction_mutation_kind
  rm_resulting_version :: aggregate_version

record reaction_set =
  rx_community_id :: community_id
  rx_channel_id :: aggregate_id
  rx_message_id :: aggregate_id
  rx_target_message_event_id :: nostr_event_id
  rx_mutations :: "reaction_mutation list"
  rx_version :: aggregate_version

record active_reaction =
  ar_actor_principal_id :: principal_id
  ar_added_source :: message_source

record reaction_group =
  rg_value :: reaction_value
  rg_reactions :: "active_reaction list"

type_synonym active_reactions = "(reaction_value \<times> principal_id, message_source) btree_map"

section \<open>Folding the log\<close>

definition fold_mutation :: "reaction_mutation \<Rightarrow> active_reactions \<Rightarrow> reaction_error + active_reactions" where
  "fold_mutation mutation active =
     (let key = (rm_value mutation, rm_actor_principal_id mutation) in
      case rm_kind mutation of
        AddKind \<Rightarrow>
          if map_of active key \<noteq> None then Inl InvalidReactionRecord
          else Inr (bt_insert key (rm_source mutation) active)
      | RemoveKind added_event_id \<Rightarrow>
          (case map_of active key of
             None \<Rightarrow> Inl InvalidReactionRecord
           | Some added_source \<Rightarrow>
               if so_event_id added_source \<noteq> added_event_id then Inl InvalidReactionRecord
               else Inr (bt_remove key active)))"

definition fold_mutations :: "reaction_mutation list \<Rightarrow> reaction_error + active_reactions" where
  "fold_mutations mutations = fold_log fold_mutation mutations []"

definition active_state :: "reaction_set \<Rightarrow> reaction_error + active_reactions" where
  "active_state self = fold_mutations (rx_mutations self)"

type_synonym reaction_progress = "nostr_event_id set \<times> message_source option \<times> aggregate_version"

fun validate_mutation ::
  "nostr_event_id \<Rightarrow> reaction_mutation \<Rightarrow> reaction_progress \<Rightarrow> reaction_error + reaction_progress" where
  "validate_mutation target mutation (sources, previous_source, previous_version) =
     and_then (map_err (\<lambda>_. InvalidReactionRecord) (source_validate (rm_source mutation))) (\<lambda>_.
     if uuid_is_nil (principal_uuid (rm_actor_principal_id mutation))
        \<or> so_event_id (rm_source mutation) = target
        \<or> is_some_and previous_source (\<lambda>previous.
             so_event_created_at (rm_source mutation) < so_event_created_at previous)
        \<or> so_event_id (rm_source mutation) \<in> sources
        \<or> \<not> version_follows (rm_resulting_version mutation) previous_version
     then Inl InvalidReactionRecord
     else Inr (insert (so_event_id (rm_source mutation)) sources, Some (rm_source mutation),
       rm_resulting_version mutation))"

definition validate_record :: "reaction_set \<Rightarrow> reaction_error + unit" where
  "validate_record f =
     (if uuid_is_nil (community_uuid (rx_community_id f)) \<or> uuid_is_nil (aggregate_uuid (rx_channel_id f))
         \<or> uuid_is_nil (aggregate_uuid (rx_message_id f))
         \<or> rx_target_message_event_id f = NostrEventId 0
         \<or> length (rx_mutations f) > MAX_REACTION_MUTATIONS
      then Inl InvalidReactionRecord
      else
        and_then (fold_log (validate_mutation (rx_target_message_event_id f)) (rx_mutations f) ({}, None, version_first))
        (\<lambda>(_, _, previous_version).
        if rx_version f \<noteq> previous_version then Inl InvalidReactionRecord
        else and_then (fold_mutations (rx_mutations f)) (\<lambda>_. Inr ())))"

definition from_record :: "reaction_set \<Rightarrow> reaction_error + reaction_set" where
  "from_record f = and_then (validate_record f) (\<lambda>_. Inr f)"

section \<open>Commands\<close>

definition for_message :: "message \<Rightarrow> reaction_set" where
  "for_message m =
     \<lparr>rx_community_id = me_community_id m, rx_channel_id = me_channel_id m, rx_message_id = me_message_id m,
      rx_target_message_event_id = so_event_id (me_source m), rx_mutations = [], rx_version = version_first\<rparr>"

definition authorize_reaction :: "message \<Rightarrow> authorization_request \<Rightarrow> reaction_error + principal_id" where
  "authorize_reaction m r =
     and_then (map_err MessageFailure (authorize_message_command r (me_community_id m) (me_channel_id m)
       (me_message_id m) (author_principal_id (me_author m)) Write)) (\<lambda>_.
     Inr (request_subject r))"

definition require_target :: "reaction_set \<Rightarrow> message \<Rightarrow> reaction_error + unit" where
  "require_target self m =
     (if rx_community_id self \<noteq> me_community_id m \<or> rx_channel_id self \<noteq> me_channel_id m
         \<or> rx_message_id self \<noteq> me_message_id m
         \<or> rx_target_message_event_id self \<noteq> so_event_id (me_source m)
      then Inl TargetMismatch else Inr ())"

definition has_source :: "reaction_set \<Rightarrow> nostr_event_id \<Rightarrow> bool" where
  "has_source self event_id \<longleftrightarrow>
     list_ex (\<lambda>mutation. so_event_id (rm_source mutation) = event_id) (rx_mutations self)"

definition require_mutation :: "reaction_set \<Rightarrow> message_source \<Rightarrow> aggregate_version \<Rightarrow> reaction_error + unit" where
  "require_mutation self source expected =
     (if length (rx_mutations self) \<ge> MAX_REACTION_MUTATIONS then Inl TooManyReactionMutations
      else if rx_version self \<noteq> expected then Inl (StaleVersion expected (rx_version self))
      else if rx_mutations self \<noteq> []
           \<and> so_event_created_at source < so_event_created_at (rm_source (last (rx_mutations self)))
      then Inl InvalidTimestamp
      else Inr ())"

definition push_mutation ::
  "principal_id \<Rightarrow> reaction_value \<Rightarrow> message_source \<Rightarrow> reaction_mutation_kind \<Rightarrow> reaction_set
   \<Rightarrow> (reaction_set, reaction_error, unit) effect" where
  "push_mutation actor reaction source kind self =
     attempt self (ok_or (version_next (rx_version self)) VersionExhausted) (\<lambda>next.
     (Inr (), self\<lparr>rx_mutations := rx_mutations self @ [\<lparr>rm_source = source, rm_actor_principal_id = actor,
        rm_value = reaction, rm_kind = kind, rm_resulting_version = next\<rparr>], rx_version := next\<rparr>))"

definition add ::
  "aggregate_version \<Rightarrow> reaction_value \<Rightarrow> message_source \<Rightarrow> message \<Rightarrow> authorization_request \<Rightarrow> reaction_set
   \<Rightarrow> (reaction_set, reaction_error, command_outcome) effect" where
  "add expected reaction source m r self =
     attempt self (map_err (\<lambda>_. InvalidReactionSource) (source_validate source)) (\<lambda>_.
     attempt self (require_target self m) (\<lambda>_.
     attempt self (authorize_reaction m r) (\<lambda>actor.
     if has_source self (so_event_id source) then (Inr Unchanged, self)
     else if me_lifecycle_state m = message_lifecycle_state.Deleted then (Inl TargetDeleted, self)
     else
       attempt self (active_state self) (\<lambda>active.
       if map_of active (reaction, actor) \<noteq> None then (Inr Unchanged, self)
       else
         attempt self (require_mutation self source expected) (\<lambda>_.
         and_continue (push_mutation actor reaction source AddKind self) (\<lambda>_ self. (Inr Applied, self)))))))"

definition remove ::
  "aggregate_version \<Rightarrow> reaction_value \<Rightarrow> nostr_event_id \<Rightarrow> message_source \<Rightarrow> message \<Rightarrow> authorization_request
   \<Rightarrow> reaction_set \<Rightarrow> (reaction_set, reaction_error, command_outcome) effect" where
  "remove expected reaction added_event_id source m r self =
     attempt self (map_err (\<lambda>_. InvalidReactionSource) (source_validate source)) (\<lambda>_.
     attempt self (require_target self m) (\<lambda>_.
     attempt self (authorize_reaction m r) (\<lambda>actor.
     if has_source self (so_event_id source) then (Inr Unchanged, self)
     else
       attempt self (active_state self) (\<lambda>active.
       case map_of active (reaction, actor) of
         None \<Rightarrow> (Inr Unchanged, self)
       | Some active_source \<Rightarrow>
           if so_event_id active_source \<noteq> added_event_id then (Inl AddedEventMismatch, self)
           else
             attempt self (require_mutation self source expected) (\<lambda>_.
             and_continue (push_mutation actor reaction source (RemoveKind added_event_id) self) (\<lambda>_ self.
               (Inr Applied, self)))))))"

definition group_entry ::
  "(reaction_value \<times> principal_id) \<times> message_source \<Rightarrow> (reaction_value, active_reaction list) btree_map
   \<Rightarrow> (reaction_value, active_reaction list) btree_map" where
  "group_entry active groups =
     (case active of ((reaction, actor), added_source) \<Rightarrow>
        bt_push reaction \<lparr>ar_actor_principal_id = actor, ar_added_source = added_source\<rparr> groups)"

definition active_groups :: "reaction_set \<Rightarrow> message \<Rightarrow> reaction_error + reaction_group list" where
  "active_groups self m =
     and_then (require_target self m) (\<lambda>_.
     if me_lifecycle_state m = message_lifecycle_state.Deleted then Inr []
     else
       and_then (active_state self) (\<lambda>active.
       Inr (map (\<lambda>(reaction, reactions). \<lparr>rg_value = reaction, rg_reactions = reactions\<rparr>)
         (fold group_entry active []))))"

datatype reaction_command =
    AddReaction aggregate_version reaction_value message_source message authorization_request
  | RemoveReaction aggregate_version reaction_value nostr_event_id message_source message authorization_request

fun reaction_exec :: "reaction_command \<Rightarrow> reaction_set \<Rightarrow> (reaction_set, reaction_error, command_outcome) effect" where
  "reaction_exec (AddReaction v reaction source m r) = add v reaction source m r"
| "reaction_exec (RemoveReaction v reaction added source m r) = remove v reaction added source m r"

fun reaction_expected :: "reaction_command \<Rightarrow> aggregate_version" where
  "reaction_expected (AddReaction v _ _ _ _) = v"
| "reaction_expected (RemoveReaction v _ _ _ _ _) = v"

fun reaction_source :: "reaction_command \<Rightarrow> message_source" where
  "reaction_source (AddReaction _ _ s _ _) = s"
| "reaction_source (RemoveReaction _ _ _ s _ _) = s"

fun reaction_actor :: "reaction_command \<Rightarrow> principal_id" where
  "reaction_actor (AddReaction _ _ _ _ r) = request_subject r"
| "reaction_actor (RemoveReaction _ _ _ _ _ r) = request_subject r"

fun reaction_of :: "reaction_command \<Rightarrow> reaction_value" where
  "reaction_of (AddReaction _ v _ _ _) = v"
| "reaction_of (RemoveReaction _ v _ _ _ _) = v"

fun kind_of :: "reaction_command \<Rightarrow> reaction_mutation_kind" where
  "kind_of (AddReaction _ _ _ _ _) = AddKind"
| "kind_of (RemoveReaction _ _ added _ _ _) = RemoveKind added"

section \<open>The contracts\<close>

definition reaction_mutation_of :: "reaction_command \<Rightarrow> aggregate_version \<Rightarrow> reaction_mutation" where
  "reaction_mutation_of c v =
     \<lparr>rm_source = reaction_source c, rm_actor_principal_id = reaction_actor c, rm_value = reaction_of c,
      rm_kind = kind_of c, rm_resulting_version = v\<rparr>"

definition logged :: "reaction_command \<Rightarrow> aggregate_version \<Rightarrow> reaction_set \<Rightarrow> reaction_set" where
  "logged c v self = self\<lparr>rx_mutations := rx_mutations self @ [reaction_mutation_of c v], rx_version := v\<rparr>"

lemma logged_simps [simp]:
  "rx_mutations (logged c v self) = rx_mutations self @ [reaction_mutation_of c v]" "rx_version (logged c v self) = v"
  "rx_community_id (logged c v self) = rx_community_id self" "rx_channel_id (logged c v self) = rx_channel_id self"
  "rx_message_id (logged c v self) = rx_message_id self"
  "rx_target_message_event_id (logged c v self) = rx_target_message_event_id self"
  by (simp_all add: logged_def)

definition loggable :: "reaction_command \<Rightarrow> aggregate_version \<Rightarrow> reaction_set \<Rightarrow> bool" where
  "loggable c v self \<longleftrightarrow>
     version_next (rx_version self) = Some v \<and> rx_version self = reaction_expected c
     \<and> source_validate (reaction_source c) = Inr ()
     \<and> so_event_id (reaction_source c) \<notin> (\<lambda>m. so_event_id (rm_source m)) ` set (rx_mutations self)
     \<and> length (rx_mutations self) < MAX_REACTION_MUTATIONS
     \<and> (rx_mutations self = []
        \<or> so_event_created_at (rm_source (last (rx_mutations self))) \<le> so_event_created_at (reaction_source c))"

lemma has_source_iff: "has_source self e \<longleftrightarrow> e \<in> (\<lambda>m. so_event_id (rm_source m)) ` set (rx_mutations self)"
  by (auto simp: has_source_def list_ex_iff)

lemma reaction_Applied_logged:
  assumes "reaction_exec c self = (Inr Applied, t)"
  shows "\<exists>v active active'. t = logged c v self \<and> loggable c v self \<and> active_state self = Inr active
    \<and> fold_mutation (reaction_mutation_of c v) active = Inr active'"
proof (cases c)
  case (AddReaction ex reaction source m r)
  with assms show ?thesis
    by (auto simp: add_def result_simps authorize_reaction_def push_mutation_def require_mutation_def
        fold_mutation_def reaction_mutation_of_def logged_def loggable_def has_source_iff not_le not_less
        split: if_splits)
next
  case (RemoveReaction ex reaction added source m r)
  with assms show ?thesis
    by (auto simp: remove_def result_simps authorize_reaction_def push_mutation_def require_mutation_def
        fold_mutation_def reaction_mutation_of_def logged_def loggable_def has_source_iff not_le not_less
        split: if_splits option.splits)
qed

lemma reaction_Applied:
  assumes "reaction_exec c self = (Inr Applied, t)"
  obtains v active active' where "t = logged c v self" "loggable c v self" "active_state self = Inr active"
    "fold_mutation (reaction_mutation_of c v) active = Inr active'"
  using reaction_Applied_logged [OF assms] by blast

lemma reaction_not_applied: "reaction_exec c self = (res, t) \<Longrightarrow> res \<noteq> Inr Applied \<Longrightarrow> t = self"
  by (cases c)
    (auto simp: add_def remove_def attempt_def and_continue_def push_mutation_def
      split: sum.splits if_splits option.splits)

lemma reaction_cases:
  obtains (same) "snd (reaction_exec c self) = self" "fst (reaction_exec c self) \<noteq> Inr Applied"
  | (applied) v active active' where "reaction_exec c self = (Inr Applied, logged c v self)" "loggable c v self"
      "active_state self = Inr active" "fold_mutation (reaction_mutation_of c v) active = Inr active'"
proof (cases "reaction_exec c self" rule: outcome_cases)
  case (applied t)
  then obtain v active active' where "t = logged c v self" "loggable c v self" "active_state self = Inr active"
      "fold_mutation (reaction_mutation_of c v) active = Inr active'"
    by (rule reaction_Applied)
  with applied that(2) show thesis by blast
qed (use that(1) reaction_not_applied in auto)

definition reaction_identity :: "reaction_set \<Rightarrow> community_id \<times> aggregate_id \<times> aggregate_id \<times> nostr_event_id" where
  "reaction_identity self =
     (rx_community_id self, rx_channel_id self, rx_message_id self, rx_target_message_event_id self)"

text \<open>What every reaction set reached by commands satisfies: its log folds, and is not longer than it
  may be.\<close>

definition reaction_ok :: "reaction_set \<Rightarrow> bool" where
  "reaction_ok self \<longleftrightarrow> is_ok (active_state self) \<and> length (rx_mutations self) \<le> MAX_REACTION_MUTATIONS"

lemma active_state_logged:
  assumes "active_state self = Inr active"
  shows "active_state (logged c v self) = fold_mutation (reaction_mutation_of c v) active"
  using assms by (cases "fold_mutation (reaction_mutation_of c v) active")
    (simp_all add: active_state_def fold_mutations_def fold_log_append)

lemma reaction_ok_step: "reaction_ok self \<Longrightarrow> reaction_ok (snd (reaction_exec c self))"
  by (cases c self rule: reaction_cases)
    (auto simp: reaction_ok_def active_state_logged loggable_def Suc_le_eq)

interpretation react: versioned_aggregate reaction_exec rx_version reaction_expected reaction_identity reaction_ok
proof unfold_locales
  fix c s t
  assume "reaction_exec c s = (Inr Applied, t)"
  then show "reaction_expected c = rx_version s" "version_next (rx_version s) = Some (rx_version t)"
    by (auto elim!: reaction_Applied simp: loggable_def)
next
  fix c s
  show "reaction_identity (snd (reaction_exec c s)) = reaction_identity s"
    by (cases c s rule: reaction_cases) (simp_all add: reaction_identity_def)
qed (auto dest: reaction_not_applied simp: reaction_ok_step)

definition reaction_view :: "reaction_set \<Rightarrow> reaction_progress" where
  "reaction_view self =
     ((\<lambda>m. so_event_id (rm_source m)) ` set (rx_mutations self),
      (if rx_mutations self = [] then None else Some (rm_source (last (rx_mutations self)))), rx_version self)"

lemma validate_logged:
  assumes "loggable c v self" "\<not> uuid_is_nil (principal_uuid (reaction_actor c))"
    and "so_event_id (reaction_source c) \<noteq> rx_target_message_event_id self"
  shows "validate_mutation (rx_target_message_event_id self) (reaction_mutation_of c v) (reaction_view self)
    = Inr (reaction_view (logged c v self))"
  using assms
  by (auto simp: loggable_def reaction_view_def reaction_mutation_of_def version_follows_def not_less is_some_and_def)

interpretation rlog: mutation_log reaction_exec rx_mutations "\<lambda>_. ({}, None, version_first)"
  "\<lambda>self. validate_mutation (rx_target_message_event_id self)" reaction_view
  "\<lambda>self c. \<not> uuid_is_nil (principal_uuid (reaction_actor c))
     \<and> so_event_id (reaction_source c) \<noteq> rx_target_message_event_id self"
proof unfold_locales
  fix c s t
  assume applied: "reaction_exec c s = (Inr Applied, t)"
  then show "({}, None, version_first) = ({}, None, version_first)
      \<and> validate_mutation (rx_target_message_event_id t) = validate_mutation (rx_target_message_event_id s)
      \<and> (\<lambda>c. \<not> uuid_is_nil (principal_uuid (reaction_actor c)) \<and> so_event_id (reaction_source c) \<noteq> rx_target_message_event_id t) =
        (\<lambda>c. \<not> uuid_is_nil (principal_uuid (reaction_actor c)) \<and> so_event_id (reaction_source c) \<noteq> rx_target_message_event_id s)"
    by (auto elim!: reaction_Applied)
  assume "\<not> uuid_is_nil (principal_uuid (reaction_actor c)) \<and> so_event_id (reaction_source c) \<noteq> rx_target_message_event_id s"
  with applied show "\<exists>m. rx_mutations t = rx_mutations s @ [m]
      \<and> validate_mutation (rx_target_message_event_id s) m (reaction_view s) = Inr (reaction_view t)"
    using validate_logged by (auto elim!: reaction_Applied)
next
  fix c s
  assume "fst (reaction_exec c s) \<noteq> Inr Applied"
  then show "snd (reaction_exec c s) = s" using reaction_not_applied [of c s] by (metis prod.collapse)
qed

section \<open>Active reactions\<close>

definition reaction_key :: "reaction_command \<Rightarrow> reaction_value \<times> principal_id" where
  "reaction_key c = (reaction_of c, reaction_actor c)"

definition active_map :: "reaction_set \<Rightarrow> reaction_value \<times> principal_id \<rightharpoonup> message_source" where
  "active_map self = (case active_state self of Inl _ \<Rightarrow> Map.empty | Inr active \<Rightarrow> map_of active)"

lemma fold_mutation_ordered: "fold_mutation m a = Inr b \<Longrightarrow> ordered a \<Longrightarrow> ordered b"
  by (auto simp: fold_mutation_def Let_def split: reaction_mutation_kind.splits option.splits if_splits)

lemma fold_log_ordered: "fold_log fold_mutation ms a = Inr b \<Longrightarrow> ordered a \<Longrightarrow> ordered b"
  by (induction ms arbitrary: a) (auto simp: and_then_Inr dest: fold_mutation_ordered)

lemma active_state_ordered: "active_state self = Inr a \<Longrightarrow> ordered a"
  by (auto simp: active_state_def fold_mutations_def dest: fold_log_ordered)

definition reactions_to :: "reaction_value \<Rightarrow> active_reactions \<Rightarrow> active_reaction list" where
  "reactions_to v active =
     map (\<lambda>((_, actor), source). \<lparr>ar_actor_principal_id = actor, ar_added_source = source\<rparr>)
       (filter (\<lambda>((v', _), _). v' = v) active)"

lemma reactions_to_member:
  "\<lparr>ar_actor_principal_id = p, ar_added_source = s\<rparr> \<in> set (reactions_to v active) \<longleftrightarrow> ((v, p), s) \<in> set active"
  by (induction active) (auto simp: reactions_to_def)

lemma fold_group_entry:
  "ordered (fold group_entry xs [])
   \<and> map_of (fold group_entry xs []) v = (if reactions_to v xs = [] then None else Some (reactions_to v xs))"
proof (induction xs rule: rev_induct)
  case (snoc x xs)
  obtain v' p s where x: "x = ((v', p), s)" by (cases x) auto
  show ?case
    using snoc by (auto simp: x group_entry_def map_of_bt_push reactions_to_def)
qed (simp add: reactions_to_def)

lemma sorted_reactions_to:
  "ordered active \<Longrightarrow> sorted_wrt (<) (map ar_actor_principal_id (reactions_to v active))"
  by (induction active) (auto simp: reactions_to_def split_beta)

section \<open>Properties\<close>

text \<open>Reaction sets load back: after any run of commands by identified people, none of them sent as the
  event of the message itself, the stored set passes the check of its log and loads unchanged.\<close>

theorem reaction_record_roundtrip:
  assumes "validate_identity (me_message_id m) (me_channel_id m) (me_source m) = Inr ()"
    and "\<not> uuid_is_nil (community_uuid (me_community_id m))"
    and "\<forall>c \<in> set cs. \<not> uuid_is_nil (principal_uuid (reaction_actor c))
           \<and> so_event_id (reaction_source c) \<noteq> so_event_id (me_source m)"
  shows "from_record (run_commands reaction_exec cs (for_message m)) = Inr (run_commands reaction_exec cs (for_message m))"
proof -
  let ?t = "run_commands reaction_exec cs (for_message m)"
  have "rlog.in_agreement ?t"
    using assms(3) by (intro rlog.agreement_run) (auto simp: rlog.in_agreement_def for_message_def reaction_view_def)
  moreover have "reaction_ok ?t"
    by (rule react.run_invar) (simp add: reaction_ok_def for_message_def active_state_def fold_mutations_def)
  moreover from react.run_identity [of cs "for_message m"]
  have "rx_community_id ?t = me_community_id m" "rx_channel_id ?t = me_channel_id m" "rx_message_id ?t = me_message_id m"
      "rx_target_message_event_id ?t = so_event_id (me_source m)"
    by (simp_all add: reaction_identity_def for_message_def)
  ultimately show ?thesis
    using assms(1,2)
    by (auto simp: from_record_def validate_record_def rlog.in_agreement_def reaction_view_def reaction_ok_def
        is_ok_iff active_state_def validate_identity_def source_validate_def split: if_splits)
qed

text \<open>C20. The log acts as a finite map: an applied command adds the sender's own reaction where there was
  none, or removes it by naming the event that added it; the reactions of everybody else, and all of
  them when the command is not applied, stay as they were.\<close>

theorem reactions_refine_map:
  "if fst (reaction_exec c self) = Inr Applied
    then (case kind_of c of
        AddKind \<Rightarrow> active_map self (reaction_key c) = None
          \<and> active_map (snd (reaction_exec c self)) = (active_map self)(reaction_key c \<mapsto> reaction_source c)
      | RemoveKind added \<Rightarrow> (\<exists>s. active_map self (reaction_key c) = Some s \<and> so_event_id s = added)
          \<and> active_map (snd (reaction_exec c self)) = (active_map self)(reaction_key c := None))
    else snd (reaction_exec c self) = self"
proof (cases c self rule: reaction_cases)
  case (applied v active active')
  then have "active_state (logged c v self) = Inr active'" by (simp add: active_state_logged)
  with applied show ?thesis
    by (auto simp: active_map_def fold_mutation_def reaction_mutation_of_def reaction_key_def Let_def
        split: reaction_mutation_kind.splits if_splits option.splits)
qed simp

text \<open>What is displayed: for a message that is not deleted, the groups are in strictly ascending order
  of their values, no group is empty, people stand in ascending order and once in a group, and a
  person stands in the group of a value exactly when the reaction is active.\<close>

theorem groups_show_active_reactions:
  assumes "active_groups self m = Inr groups" and "me_lifecycle_state m \<noteq> message_lifecycle_state.Deleted"
  shows "sorted_wrt (<) (map rg_value groups)
    \<and> (\<forall>g \<in> set groups. rg_reactions g \<noteq> [] \<and> sorted_wrt (<) (map ar_actor_principal_id (rg_reactions g)))
    \<and> (\<forall>v p s. active_map self (v, p) = Some s \<longleftrightarrow>
         (\<exists>g \<in> set groups. rg_value g = v \<and> \<lparr>ar_actor_principal_id = p, ar_added_source = s\<rparr> \<in> set (rg_reactions g)))"
proof -
  from assms obtain active where a: "active_state self = Inr active"
      and g: "groups = map (\<lambda>(reaction, reactions). \<lparr>rg_value = reaction, rg_reactions = reactions\<rparr>) (fold group_entry active [])"
    by (auto simp: active_groups_def result_simps split: if_splits)
  let ?G = "fold group_entry active []"
  note ord = active_state_ordered [OF a]
  have G: "ordered ?G" "map_of ?G v = (if reactions_to v active = [] then None else Some (reactions_to v active))" for v
    using fold_group_entry by blast+
  have mem: "(v, rs) \<in> set ?G \<longleftrightarrow> reactions_to v active = rs \<and> rs \<noteq> []" for v rs
    using map_of_eq_Some_iff [OF ordered_distinct [OF G(1)], of v rs] G(2) [of v] by (auto split: if_splits)
  have "map rg_value groups = map fst ?G" by (simp add: g comp_def split_beta)
  with G(1) have "sorted_wrt (<) (map rg_value groups)" by (simp add: ordered_def)
  moreover have "rg_reactions gr \<noteq> [] \<and> sorted_wrt (<) (map ar_actor_principal_id (rg_reactions gr))" if "gr \<in> set groups" for gr
    using that mem sorted_reactions_to [OF ord] by (auto simp: g)
  moreover have "active_map self (v, p) = Some s \<longleftrightarrow>
      (\<exists>gr \<in> set groups. rg_value gr = v \<and> \<lparr>ar_actor_principal_id = p, ar_added_source = s\<rparr> \<in> set (rg_reactions gr))" for v p s
  proof -
    have "(\<exists>gr \<in> set groups. rg_value gr = v \<and> x \<in> set (rg_reactions gr)) \<longleftrightarrow> (\<exists>rs. (v, rs) \<in> set ?G \<and> x \<in> set rs)" for x
      unfolding g by (simp add: bex_simps split_beta) (metis fst_conv prod.collapse snd_conv)
    then have "(\<exists>gr \<in> set groups. rg_value gr = v \<and> x \<in> set (rg_reactions gr)) \<longleftrightarrow> x \<in> set (reactions_to v active)" for x
      by (auto simp: mem)
    then show ?thesis
      using map_of_eq_Some_iff [OF ordered_distinct [OF ord]] by (simp add: active_map_def a reactions_to_member)
  qed
  ultimately show ?thesis by blast
qed

lemma fold_log_targets:
  "fold_log (validate_mutation target) ms a = Inr b \<Longrightarrow> \<forall>mu \<in> set ms. so_event_id (rm_source mu) \<noteq> target"
proof (induction ms arbitrary: a)
  case (Cons mu ms)
  then obtain a' where "validate_mutation target mu a = Inr a'" "fold_log (validate_mutation target) ms a' = Inr b"
    by (auto simp: and_then_Inr)
  with Cons.IH show ?case by (cases a) (auto simp: result_simps split: if_splits)
qed simp

lemma run_mutations_kept: "set (rx_mutations self) \<subseteq> set (rx_mutations (run_commands reaction_exec cs self))"
proof (induction cs arbitrary: self)
  case (Cons c cs)
  have "set (rx_mutations self) \<subseteq> set (rx_mutations (snd (reaction_exec c self)))"
    by (cases c self rule: reaction_cases) auto
  with Cons [of "snd (reaction_exec c self)"] show ?case by simp
qed simp

text \<open>C37. A reaction sent as the event of the message itself is accepted, although the loader refuses such a
  mutation: from then on the set does not load, whatever commands follow.\<close>

theorem own_event_reaction_unloadable:
  assumes "reaction_exec c self = (Inr Applied, t)"
    and "so_event_id (reaction_source c) = rx_target_message_event_id self"
  shows "\<not> is_ok (from_record (run_commands reaction_exec cs t))"
proof -
  let ?u = "run_commands reaction_exec cs t"
  from assms(1) obtain v where t: "t = logged c v self" by (rule reaction_Applied)
  then have "reaction_mutation_of c v \<in> set (rx_mutations ?u)" using run_mutations_kept [of t cs] by auto
  moreover from t react.run_identity [of cs t] have "rx_target_message_event_id ?u = rx_target_message_event_id self"
    by (simp add: reaction_identity_def)
  moreover have "so_event_id (rm_source (reaction_mutation_of c v)) = rx_target_message_event_id self"
    using assms(2) by (simp add: reaction_mutation_of_def)
  ultimately have "\<not> is_ok (fold_log (validate_mutation (rx_target_message_event_id ?u)) (rx_mutations ?u) ({}, None, version_first))"
    by (auto simp: is_ok_iff dest: fold_log_targets)
  then show ?thesis by (auto simp: from_record_def validate_record_def is_ok_iff result_simps split: if_splits)
qed

section \<open>A sample reaction\<close>

definition thumbs_up :: "256 word \<Rightarrow> reaction_command" where
  "thumbs_up e = AddReaction version_first (ReactionValue (lit ''+'')) (event_at e 990) hello (message_request Write)"

lemma thumbs_up_applied:
  assumes "e \<noteq> 0"
  shows "reaction_exec (thumbs_up e) (for_message hello) = (Inr Applied, logged (thumbs_up e) (version_of 2) (for_message hello))"
proof -
  have "authorize_reaction hello (message_request Write) = Inr alice"
    using message_request_authorized by (simp add: authorize_reaction_def hello_def message_request_subject)
  then show ?thesis
    using assms hello_next
    by (simp add: thumbs_up_def add_def source_validate_def event_at_def require_target_def for_message_def has_source_def
        active_state_def fold_mutations_def require_mutation_def MAX_REACTION_MUTATIONS_def push_mutation_def
        logged_def reaction_mutation_of_def message_request_subject)
      (simp add: hello_def)
qed

theorem reaction_record_roundtrip_witness:
  "from_record (logged (thumbs_up 90) (version_of 2) (for_message hello))
     = Inr (logged (thumbs_up 90) (version_of 2) (for_message hello))"
  using reaction_record_roundtrip [of hello "[thumbs_up 90]"] thumbs_up_applied [of 90]
  by (simp add: hello_def validate_identity_def source_validate_def event_at_def uuid_is_nil_def sample_community_def
      sample_channel_def thumbs_up_def message_request_subject alice_def)

theorem own_event_reaction_unloadable_witness:
  "\<not> is_ok (from_record (logged (thumbs_up 80) (version_of 2) (for_message hello)))"
  using own_event_reaction_unloadable [OF thumbs_up_applied [of 80], of "[]"]
  by (simp add: thumbs_up_def event_at_def for_message_def hello_def)

theorem groups_show_active_reactions_witness:
  "\<exists>groups. active_groups (logged (thumbs_up 90) (version_of 2) (for_message hello)) hello = Inr groups
     \<and> sorted_wrt (<) (map rg_value groups)
     \<and> (\<exists>g \<in> set groups. rg_value g = ReactionValue (lit ''+'')
          \<and> \<lparr>ar_actor_principal_id = alice, ar_added_source = event_at 90 990\<rparr> \<in> set (rg_reactions g))"
proof -
  let ?s = "logged (thumbs_up 90) (version_of 2) (for_message hello)"
  have active: "active_state ?s = Inr [((ReactionValue (lit ''+''), alice), event_at 90 990)]"
    by (simp add: active_state_def fold_mutations_def for_message_def fold_mutation_def reaction_mutation_of_def
        thumbs_up_def message_request_subject)
  moreover have "require_target ?s hello = Inr ()" by (simp add: require_target_def for_message_def)
  moreover have live: "me_lifecycle_state hello \<noteq> message_lifecycle_state.Deleted" by (simp add: hello_def)
  ultimately obtain groups where g: "active_groups ?s hello = Inr groups" by (simp add: active_groups_def)
  note shown = groups_show_active_reactions [OF g live]
  have "active_map ?s (ReactionValue (lit ''+''), alice) = Some (event_at 90 990)"
    by (simp add: active_map_def active)
  with shown have "\<exists>gr \<in> set groups. rg_value gr = ReactionValue (lit ''+'')
      \<and> \<lparr>ar_actor_principal_id = alice, ar_added_source = event_at 90 990\<rparr> \<in> set (rg_reactions gr)"
    by (simp only:)
  with g shown show ?thesis by blast
qed

end
