(* ===== verification/Thread.thy ===== *)
theory Thread
  imports OrderedMap "HOL-Library.Option_ord"
begin

text \<open>
  Threads (\<open>thread.rs\<close>): the graph of replies built from a set of events, by a memoising search that
  refuses cycles, and the queries on it: descendants, summaries, pages and auxiliary events. The search
  is shown to succeed exactly when every event has an ancestry up to a top-level event, and the queries
  to return what the ancestry says.
\<close>

section \<open>Data\<close>

definition MAX_THREAD_DEPTH :: u16 where "MAX_THREAD_DEPTH = 100"
definition MAX_THREAD_PAGE_ROWS :: nat where "MAX_THREAD_PAGE_ROWS = 200"
definition MAX_AUXILIARY_EVENTS_PER_HOP :: nat where "MAX_AUXILIARY_EVENTS_PER_HOP = 1000"
definition MAX_THREAD_SUMMARY_PARTICIPANTS :: nat where "MAX_THREAD_SUMMARY_PARTICIPANTS = 10"

datatype thread_error =
    InvalidEventId | InvalidChannelId | InvalidThreadAuthor | InvalidAuxiliaryReference
  | DuplicateEvent nostr_event_id | DuplicateAuxiliaryEvent nostr_event_id | MissingEvent nostr_event_id
  | ReferenceCycle nostr_event_id | ParentChannelMismatch nostr_event_id nostr_event_id
  | RootMismatch nostr_event_id nostr_event_id | DepthExceeded nostr_event_id | MixedChannelRows
  | AuxiliaryChannelMismatch nostr_event_id

datatype thread_reference = TopLevel | Reply nostr_event_id "nostr_event_id option"

record thread_event =
  te_event_id :: nostr_event_id
  te_channel_id :: aggregate_id
  te_author :: nostr_public_key
  te_created_at :: u64
  te_reference :: thread_reference
  te_broadcast :: bool
  te_deleted :: bool

record thread_node =
  tn_event :: thread_event
  tn_parent_event_id :: "nostr_event_id option"
  tn_root_event_id :: nostr_event_id
  tn_depth :: u16

definition is_top_level :: "thread_node \<Rightarrow> bool" where
  "is_top_level self \<longleftrightarrow> tn_depth self = 0 \<or> tn_depth self = 1 \<and> te_broadcast (tn_event self)"

datatype thread_cursor = ThreadCursor (tc_created_at: u64) (tc_event_id: nostr_event_id)

instantiation thread_cursor :: linorder
begin

definition less_eq_thread_cursor :: "thread_cursor \<Rightarrow> thread_cursor \<Rightarrow> bool" where
  "less_eq_thread_cursor a b \<longleftrightarrow>
     tc_created_at a < tc_created_at b \<or> tc_created_at a = tc_created_at b \<and> tc_event_id a \<le> tc_event_id b"

definition less_thread_cursor :: "thread_cursor \<Rightarrow> thread_cursor \<Rightarrow> bool" where
  "less_thread_cursor a b \<longleftrightarrow>
     tc_created_at a < tc_created_at b \<or> tc_created_at a = tc_created_at b \<and> tc_event_id a < tc_event_id b"

instance
  by standard (auto simp: less_eq_thread_cursor_def less_thread_cursor_def thread_cursor.expand)

end

text \<open>\<open>std::cmp::Reverse\<close>.\<close>

datatype cursor_reverse = Reverse (reversed: thread_cursor)

instantiation cursor_reverse :: linorder
begin

definition less_eq_cursor_reverse :: "cursor_reverse \<Rightarrow> cursor_reverse \<Rightarrow> bool" where
  "less_eq_cursor_reverse a b \<longleftrightarrow> reversed b \<le> reversed a"

definition less_cursor_reverse :: "cursor_reverse \<Rightarrow> cursor_reverse \<Rightarrow> bool" where
  "less_cursor_reverse a b \<longleftrightarrow> reversed b < reversed a"

instance
  by standard (auto simp: less_eq_cursor_reverse_def less_cursor_reverse_def cursor_reverse.expand)

end

definition for_node :: "thread_node \<Rightarrow> thread_cursor" where
  "for_node node = ThreadCursor (te_created_at (tn_event node)) (te_event_id (tn_event node))"

record thread_page =
  tp_replies :: "thread_node list"
  tp_has_more :: bool
  tp_next_cursor :: "thread_cursor option"

record thread_summary =
  sm_reply_count :: u64
  sm_descendant_count :: u64
  sm_last_reply_at :: "u64 option"
  sm_participants :: "nostr_public_key list"

datatype auxiliary_event_kind = ReactionEvent | DeletionEvent | AdministrativeDeletion | EditEvent

definition is_deletion :: "auxiliary_event_kind \<Rightarrow> bool" where
  "is_deletion k \<longleftrightarrow> k = DeletionEvent \<or> k = AdministrativeDeletion"

record auxiliary_event =
  ax_event_id :: nostr_event_id
  ax_channel_id :: aggregate_id
  ax_target_event_id :: nostr_event_id
  ax_created_at :: u64
  ax_kind :: auxiliary_event_kind

record auxiliary_closure =
  ac_first_hop :: "auxiliary_event list"
  ac_second_hop :: "auxiliary_event list"

record thread_graph =
  tg_nodes :: "(nostr_event_id, thread_node) btree_map"
  tg_children :: "(nostr_event_id, nostr_event_id list) btree_map"

section \<open>Building the graph\<close>

definition validate_event :: "thread_event \<Rightarrow> thread_error + unit" where
  "validate_event e =
     (if te_event_id e = NostrEventId 0 then Inl InvalidEventId
      else if uuid_is_nil (aggregate_uuid (te_channel_id e)) then Inl InvalidChannelId
      else if te_author e = NostrPublicKey 0 then Inl InvalidThreadAuthor
      else Inr ())"

type_synonym thread_events = "(nostr_event_id, thread_event) btree_map"

fun collect_events :: "thread_event list \<Rightarrow> thread_events \<Rightarrow> thread_error + thread_events" where
  "collect_events [] events = Inr events"
| "collect_events (e # es) events =
     and_then (validate_event e) (\<lambda>_.
     if map_of events (te_event_id e) \<noteq> None then Inl (DuplicateEvent (te_event_id e))
     else collect_events es (bt_insert (te_event_id e) e events))"

text \<open>\<open>resolve\<close> after the recursive call on the parent: the checks, the new child and the node.\<close>

definition attach ::
  "thread_event \<Rightarrow> nostr_event_id \<Rightarrow> nostr_event_id \<Rightarrow> nostr_event_id option \<Rightarrow> thread_node \<Rightarrow> thread_graph
   \<Rightarrow> thread_error + thread_node \<times> thread_graph" where
  "attach event event_id parent_id root parent g =
     (if te_channel_id (tn_event parent) \<noteq> te_channel_id event then Inl (ParentChannelMismatch event_id parent_id)
      else if is_some_and root (\<lambda>root. root \<noteq> tn_root_event_id parent)
      then Inl (RootMismatch event_id (tn_root_event_id parent))
      else
        and_then (ok_or (Option.bind (checked_add (tn_depth parent) 1)
            (\<lambda>depth. if depth \<le> MAX_THREAD_DEPTH then Some depth else None)) (DepthExceeded event_id)) (\<lambda>depth.
        Inr (\<lparr>tn_event = event, tn_parent_event_id = Some parent_id, tn_root_event_id = tn_root_event_id parent,
              tn_depth = depth\<rparr>,
             g\<lparr>tg_children := bt_push parent_id event_id (tg_children g)\<rparr>)))"

definition add_node :: "nostr_event_id \<Rightarrow> thread_node \<Rightarrow> thread_graph \<Rightarrow> thread_graph" where
  "add_node event_id node g = g\<lparr>tg_nodes := bt_insert event_id node (tg_nodes g)\<rparr>"

function resolve ::
  "thread_events \<Rightarrow> nostr_event_id \<Rightarrow> nostr_event_id set \<Rightarrow> thread_graph
   \<Rightarrow> thread_error + thread_node \<times> thread_graph \<times> nostr_event_id set" where
  "resolve events event_id visiting g =
     (case map_of (tg_nodes g) event_id of
        Some node \<Rightarrow> Inr (node, g, visiting)
      | None \<Rightarrow>
          if event_id \<in> visiting then Inl (ReferenceCycle event_id)
          else case map_of events event_id of
            None \<Rightarrow> Inl (MissingEvent event_id)
          | Some event \<Rightarrow>
              and_then
                (case te_reference event of
                   TopLevel \<Rightarrow>
                     Inr (\<lparr>tn_event = event, tn_parent_event_id = None, tn_root_event_id = event_id, tn_depth = 0\<rparr>,
                          g, insert event_id visiting)
                 | Reply parent_id root \<Rightarrow>
                     and_then (resolve events parent_id (insert event_id visiting) g) (\<lambda>(parent, g, visiting).
                     and_then (attach event event_id parent_id root parent g) (\<lambda>(node, g).
                     Inr (node, g, visiting))))
                (\<lambda>(node, g, visiting). Inr (node, add_node event_id node g, visiting - {event_id})))"
  by pat_completeness auto

termination
proof (relation "measure (\<lambda>(events, _, visiting, _). card (set (map fst events) - visiting))")
  fix events :: thread_events and event_id :: nostr_event_id and visiting :: "nostr_event_id set"
    and g event parent_id root
  assume "event_id \<notin> visiting" "map_of events event_id = Some event"
  then have "event_id \<in> set (map fst events) - visiting" by (auto dest: map_of_SomeD intro: rev_image_eqI)
  then have "set (map fst events) - insert event_id visiting \<subset> set (map fst events) - visiting" by blast
  then show "((events, parent_id, insert event_id visiting, g), (events, event_id, visiting, g))
      \<in> measure (\<lambda>(events, _, visiting, _). card (set (map fst events) - visiting))"
    by (simp add: psubset_card_mono)
qed simp

declare resolve.simps [simp del]

fun resolve_all ::
  "thread_events \<Rightarrow> nostr_event_id list \<Rightarrow> nostr_event_id set \<Rightarrow> thread_graph \<Rightarrow> thread_error + thread_graph" where
  "resolve_all events [] visiting g = Inr g"
| "resolve_all events (event_id # ids) visiting g =
     and_then (resolve events event_id visiting g) (\<lambda>(_, g, visiting). resolve_all events ids visiting g)"

definition sort_children :: "thread_graph \<Rightarrow> thread_graph" where
  "sort_children g =
     g\<lparr>tg_children := map (\<lambda>(event_id, children).
        (event_id, sort_key (\<lambda>child. map_option for_node (map_of (tg_nodes g) child)) children)) (tg_children g)\<rparr>"

definition build :: "thread_event list \<Rightarrow> thread_error + thread_graph" where
  "build events =
     and_then (collect_events events []) (\<lambda>events_by_id.
     and_then (resolve_all events_by_id (map fst events_by_id) {} \<lparr>tg_nodes = [], tg_children = []\<rparr>) (\<lambda>g.
     Inr (sort_children g)))"

section \<open>Queries\<close>

definition children_of :: "thread_graph \<Rightarrow> nostr_event_id \<Rightarrow> nostr_event_id list" where
  "children_of g event_id = (case map_of (tg_children g) event_id of None \<Rightarrow> [] | Some children \<Rightarrow> children)"

definition require_node :: "thread_graph \<Rightarrow> nostr_event_id \<Rightarrow> thread_error + thread_node" where
  "require_node g event_id = ok_or (map_of (tg_nodes g) event_id) (MissingEvent event_id)"

text \<open>The loop of \<open>active_descendants\<close>; the stack is popped at its end.\<close>

partial_function (option) descend ::
  "thread_graph \<Rightarrow> nostr_event_id list \<Rightarrow> thread_node list \<Rightarrow> thread_node list option" where
  "descend g pending descendants =
     (if pending = [] then Some descendants
      else case map_of (tg_nodes g) (last pending) of
        None \<Rightarrow> descend g (butlast pending) descendants
      | Some node \<Rightarrow>
          descend g (butlast pending @ children_of g (last pending))
            (if te_deleted (tn_event node) then descendants else descendants @ [node]))"

definition active_descendants :: "thread_graph \<Rightarrow> nostr_event_id \<Rightarrow> thread_node list option" where
  "active_descendants g event_id = descend g (children_of g event_id) []"

definition participants_of :: "thread_node list \<Rightarrow> (nostr_public_key, thread_cursor) btree_map" where
  "participants_of nodes =
     fold (\<lambda>node. bt_entry (te_author (tn_event node)) (\<lambda>latest. max latest (for_node node)) (for_node node)) nodes []"

definition last_reply_at :: "thread_node list \<Rightarrow> u64 option" where
  "last_reply_at nodes =
     (if nodes = [] then None else Some (Max (set (map (\<lambda>node. te_created_at (tn_event node)) nodes))))"

definition summary :: "thread_graph \<Rightarrow> nostr_event_id \<Rightarrow> thread_error + thread_summary option option" where
  "summary g row =
     and_then (require_node g row) (\<lambda>_.
     let direct_reply_count = length (filter (\<lambda>child.
           is_some_and (map_of (tg_nodes g) child) (\<lambda>node. \<not> te_deleted (tn_event node))) (children_of g row)) in
     Inr (if direct_reply_count = 0 then Some None
          else map_option (\<lambda>descendants.
            Some \<lparr>sm_reply_count = word_of_nat direct_reply_count,
                  sm_descendant_count = word_of_nat (length descendants),
                  sm_last_reply_at = last_reply_at descendants,
                  sm_participants = map fst (take MAX_THREAD_SUMMARY_PARTICIPANTS
                    (sort_key (\<lambda>(author, latest). (Reverse latest, author)) (participants_of descendants)))\<rparr>)
            (active_descendants g row)))"

definition saturating_add :: "'w::len word \<Rightarrow> 'w word \<Rightarrow> 'w word" where
  "saturating_add a b = (case checked_add a b of Some c \<Rightarrow> c | None \<Rightarrow> - 1)"

definition page ::
  "thread_graph \<Rightarrow> nostr_event_id \<Rightarrow> thread_cursor option \<Rightarrow> nat \<Rightarrow> u16 option
   \<Rightarrow> thread_error + thread_page option" where
  "page g row cursor requested_limit depth_limit =
     and_then (require_node g row) (\<lambda>row_node.
     let limit = max 1 (min MAX_THREAD_PAGE_ROWS requested_limit);
         maximum_depth = (case depth_limit of
           Some depth \<Rightarrow> saturating_add (tn_depth row_node) (min depth MAX_THREAD_DEPTH)
         | None \<Rightarrow> MAX_THREAD_DEPTH) in
     Inr (map_option (\<lambda>descendants.
       let replies = sort_key for_node
             (filter (\<lambda>node. case cursor of None \<Rightarrow> True | Some cursor \<Rightarrow> for_node node > cursor)
               (filter (\<lambda>node. tn_depth node \<le> maximum_depth) descendants));
           has_more = length replies > limit;
           replies = take limit replies in
       \<lparr>tp_replies = replies, tp_has_more = has_more,
        tp_next_cursor = (if has_more \<and> replies \<noteq> [] then Some (for_node (last replies)) else None)\<rparr>)
       (active_descendants g row)))"

definition validate_auxiliary_event :: "auxiliary_event \<Rightarrow> thread_error + unit" where
  "validate_auxiliary_event e =
     (if ax_event_id e = NostrEventId 0 \<or> ax_target_event_id e = NostrEventId 0 then Inl InvalidAuxiliaryReference
      else if uuid_is_nil (aggregate_uuid (ax_channel_id e)) then Inl InvalidChannelId
      else Inr ())"

fun collect_auxiliary ::
  "auxiliary_event list \<Rightarrow> (nostr_event_id, auxiliary_event) btree_map
   \<Rightarrow> thread_error + (nostr_event_id, auxiliary_event) btree_map" where
  "collect_auxiliary [] events = Inr events"
| "collect_auxiliary (e # es) events =
     and_then (validate_auxiliary_event e) (\<lambda>_.
     if map_of events (ax_event_id e) \<noteq> None then Inl (DuplicateAuxiliaryEvent (ax_event_id e))
     else collect_auxiliary es (bt_insert (ax_event_id e) e events))"

definition require_auxiliary_channel :: "aggregate_id \<Rightarrow> auxiliary_event \<Rightarrow> thread_error + unit" where
  "require_auxiliary_channel channel e =
     (if ax_channel_id e \<noteq> channel then Inl (AuxiliaryChannelMismatch (ax_event_id e)) else Inr ())"

definition auxiliary_sort_key :: "auxiliary_event \<Rightarrow> u64 \<times> nostr_event_id" where
  "auxiliary_sort_key e = (ax_created_at e, ax_event_id e)"

text \<open>One hop: the events selected, all of the channel, in order and up to the bound.\<close>

definition auxiliary_hop ::
  "aggregate_id \<Rightarrow> (auxiliary_event \<Rightarrow> bool) \<Rightarrow> (nostr_event_id, auxiliary_event) btree_map
   \<Rightarrow> thread_error + auxiliary_event list" where
  "auxiliary_hop channel selected events =
     (let chosen = filter selected (map snd events) in
      and_then (for_each (require_auxiliary_channel channel) chosen) (\<lambda>_.
      Inr (take MAX_AUXILIARY_EVENTS_PER_HOP (sort_key auxiliary_sort_key chosen))))"

fun row_channels :: "thread_graph \<Rightarrow> nostr_event_id list \<Rightarrow> aggregate_id list \<Rightarrow> thread_error + aggregate_id list" where
  "row_channels g [] channels = Inr channels"
| "row_channels g (row # rows) channels =
     and_then (require_node g row) (\<lambda>node.
     row_channels g rows (List.insert (te_channel_id (tn_event node)) channels))"

definition auxiliary_closure ::
  "thread_graph \<Rightarrow> nostr_event_id list \<Rightarrow> auxiliary_event list \<Rightarrow> thread_error + auxiliary_closure" where
  "auxiliary_closure g rows events =
     (if rows = [] then Inr \<lparr>ac_first_hop = [], ac_second_hop = []\<rparr>
      else
        and_then (row_channels g (sort (remdups rows)) []) (\<lambda>channels.
        case channels of
          [channel] \<Rightarrow>
            and_then (collect_auxiliary events []) (\<lambda>events_by_id.
            and_then (auxiliary_hop channel (\<lambda>e. ax_target_event_id e \<in> set rows) events_by_id) (\<lambda>first_hop.
            let first_hop_ids = ax_event_id ` set first_hop in
            and_then (auxiliary_hop channel (\<lambda>e. is_deletion (ax_kind e) \<and> ax_target_event_id e \<in> first_hop_ids
                \<and> ax_event_id e \<notin> first_hop_ids) events_by_id) (\<lambda>second_hop.
            Inr \<lparr>ac_first_hop = first_hop, ac_second_hop = second_hop\<rparr>)))
        | _ \<Rightarrow> Inl MixedChannelRows))"

section \<open>Ancestries\<close>

text \<open>An event has an ancestry when its references lead, within the channel and in at most 100 steps, to a
  top-level event, and every root it or its ancestors claim is that event.\<close>

inductive ancestry ::
  "(nostr_event_id \<rightharpoonup> thread_event) \<Rightarrow> nostr_event_id \<Rightarrow> nostr_event_id \<Rightarrow> nat \<Rightarrow> bool" for ev where
  top: "\<lbrakk>ev i = Some e; te_reference e = TopLevel\<rbrakk> \<Longrightarrow> ancestry ev i i 0"
| reply: "\<lbrakk>ancestry ev p root d; ev i = Some e; te_reference e = Reply p r; ev p = Some pe;
    te_channel_id pe = te_channel_id e; \<forall>x. r = Some x \<longrightarrow> x = root; d < 100\<rbrakk> \<Longrightarrow> ancestry ev i root (Suc d)"

inductive_cases ancestry_topE: "ancestry ev i root 0"
inductive_cases ancestry_replyE: "ancestry ev i root (Suc d)"

lemma ancestry_unique: "ancestry ev i root d \<Longrightarrow> ancestry ev i root' d' \<Longrightarrow> root' = root \<and> d' = d"
proof (induction arbitrary: root' d' rule: ancestry.induct)
  case (top i e)
  from top(3,1,2) show ?case by cases auto
next
  case (reply p root d i e r pe)
  note ih = reply.IH and event = reply.hyps(2,3)
  from reply.prems show ?case
  proof cases
    case top
    with event show ?thesis by simp
  next
    case (reply p' d'' e' r' pe')
    with event have "p' = p" by simp
    with ih [of root' d''] reply show ?thesis by simp
  qed
qed

lemma ancestry_event: "ancestry ev i root d \<Longrightarrow> \<exists>e. ev i = Some e"
  by (auto elim: ancestry.cases)

lemma ancestry_depth: "ancestry ev i root d \<Longrightarrow> d \<le> 100"
  by (auto elim: ancestry.cases)

definition parent_of :: "thread_event \<Rightarrow> nostr_event_id option" where
  "parent_of e = (case te_reference e of TopLevel \<Rightarrow> None | Reply p _ \<Rightarrow> Some p)"

text \<open>A graph records ancestries: its nodes carry the root and the depth of their events, parents are
  among the nodes, and the lists of children are those of the parents, without repetition.\<close>

definition node_ok :: "(nostr_event_id \<rightharpoonup> thread_event) \<Rightarrow> nostr_event_id \<Rightarrow> thread_node \<Rightarrow> bool" where
  "node_ok ev i n \<longleftrightarrow>
     ev i = Some (tn_event n) \<and> tn_parent_event_id n = parent_of (tn_event n)
     \<and> ancestry ev i (tn_root_event_id n) (unat (tn_depth n))"

definition graph_ok :: "(nostr_event_id \<rightharpoonup> thread_event) \<Rightarrow> thread_graph \<Rightarrow> bool" where
  "graph_ok ev g \<longleftrightarrow>
     (\<forall>i n. map_of (tg_nodes g) i = Some n \<longrightarrow> node_ok ev i n
        \<and> (\<forall>p. tn_parent_event_id n = Some p \<longrightarrow> map_of (tg_nodes g) p \<noteq> None))
     \<and> (\<forall>p. distinct (children_of g p)
        \<and> set (children_of g p) = {i. \<exists>n. map_of (tg_nodes g) i = Some n \<and> tn_parent_event_id n = Some p})"

lemma graph_ok_node: "graph_ok ev g \<Longrightarrow> map_of (tg_nodes g) i = Some n \<Longrightarrow> node_ok ev i n"
  by (simp add: graph_ok_def)

lemma graph_ok_empty: "graph_ok ev \<lparr>tg_nodes = [], tg_children = []\<rparr>"
  by (simp add: graph_ok_def children_of_def)

lemma children_of_push:
  "children_of (g\<lparr>tg_children := bt_push p i (tg_children g)\<rparr>) q = children_of g q @ (if q = p then [i] else [])"
  by (simp add: children_of_def map_of_bt_push split: option.splits)

lemma add_node_simps [simp]:
  "map_of (tg_nodes (add_node i n g)) = (map_of (tg_nodes g))(i \<mapsto> n)"
  "children_of (add_node i n g) q = children_of g q"
  by (simp_all add: add_node_def children_of_def)

lemma graph_ok_top:
  assumes "graph_ok ev g" "map_of (tg_nodes g) i = None" "node_ok ev i n" "tn_parent_event_id n = None"
  shows "graph_ok ev (add_node i n g)"
  using assms by (auto simp: graph_ok_def)

lemma graph_ok_reply:
  assumes "graph_ok ev g" "map_of (tg_nodes g) i = None" "node_ok ev i n" "tn_parent_event_id n = Some p"
    and "map_of (tg_nodes g) p \<noteq> None"
  shows "graph_ok ev (add_node i n (g\<lparr>tg_children := bt_push p i (tg_children g)\<rparr>))"
  using assms unfolding graph_ok_def add_node_simps children_of_push by auto

section \<open>The search is sound\<close>

lemma next_depth:
  "Option.bind (checked_add d 1) (\<lambda>depth. if depth \<le> MAX_THREAD_DEPTH then Some depth else None) = Some e
   \<longleftrightarrow> unat d < 100 \<and> unat e = Suc (unat d)"
proof -
  have "e \<le> MAX_THREAD_DEPTH \<longleftrightarrow> unat e \<le> 100" by (simp add: MAX_THREAD_DEPTH_def word_le_nat_alt)
  moreover have "checked_add d 1 = Some e \<longleftrightarrow> unat e = Suc (unat d)" by (simp add: checked_add_Some)
  moreover have "Option.bind (checked_add d 1) (\<lambda>depth. if depth \<le> MAX_THREAD_DEPTH then Some depth else None) = Some e
      \<longleftrightarrow> checked_add d 1 = Some e \<and> e \<le> MAX_THREAD_DEPTH"
    by (cases "checked_add d 1") auto
  ultimately show ?thesis by linarith
qed

lemma attach_Inr:
  "attach event i p r parent g = Inr (n, g') \<longleftrightarrow>
     te_channel_id (tn_event parent) = te_channel_id event
     \<and> (\<forall>x. r = Some x \<longrightarrow> x = tn_root_event_id parent) \<and> unat (tn_depth parent) < 100
     \<and> tn_event n = event \<and> tn_parent_event_id n = Some p \<and> tn_root_event_id n = tn_root_event_id parent
     \<and> unat (tn_depth n) = Suc (unat (tn_depth parent))
     \<and> g' = g\<lparr>tg_children := bt_push p i (tg_children g)\<rparr>"
  (is "?lhs \<longleftrightarrow> ?rhs")
proof
  assume ?lhs
  then show ?rhs
    by (auto simp: attach_def result_simps next_depth is_some_and_def split: if_splits option.splits)
next
  assume r: ?rhs
  moreover from r have "Option.bind (checked_add (tn_depth parent) 1)
      (\<lambda>depth. if depth \<le> MAX_THREAD_DEPTH then Some depth else None) = Some (tn_depth n)"
    by (simp add: next_depth)
  moreover have "n = \<lparr>tn_event = event, tn_parent_event_id = Some p, tn_root_event_id = tn_root_event_id parent,
      tn_depth = tn_depth n\<rparr>"
    using r by (cases n) simp
  ultimately show ?lhs by (auto simp: attach_def is_some_and_def split: option.splits)
qed

lemma attach_graph_ok:
  assumes "graph_ok ev g" "map_of (tg_nodes g) i = None" "map_of (tg_nodes g) p = Some parent"
    and "ev i = Some event" "te_reference event = Reply p r" "attach event i p r parent g = Inr (n, g')"
  shows "graph_ok ev (add_node i n g')"
proof -
  have parent: "node_ok ev p parent" using assms(1,3) by (rule graph_ok_node)
  from assms(6) have n: "te_channel_id (tn_event parent) = te_channel_id event"
      "\<forall>x. r = Some x \<longrightarrow> x = tn_root_event_id parent" "unat (tn_depth parent) < 100"
      "tn_event n = event" "tn_parent_event_id n = Some p" "tn_root_event_id n = tn_root_event_id parent"
      "unat (tn_depth n) = Suc (unat (tn_depth parent))" "g' = g\<lparr>tg_children := bt_push p i (tg_children g)\<rparr>"
    by (simp_all add: attach_Inr)
  have "ancestry ev i (tn_root_event_id n) (unat (tn_depth n))"
    unfolding n using parent assms(4,5) n(1-3) by (auto simp: node_ok_def intro: ancestry.reply)
  then have "node_ok ev i n" using n assms(4,5) by (simp add: node_ok_def parent_of_def)
  with assms n show ?thesis by (simp add: graph_ok_reply)
qed

definition extends :: "nostr_event_id set \<Rightarrow> thread_graph \<Rightarrow> thread_graph \<Rightarrow> bool" where
  "extends visiting g g' \<longleftrightarrow>
     map_of (tg_nodes g) \<subseteq>\<^sub>m map_of (tg_nodes g') \<and> (\<forall>x \<in> visiting. map_of (tg_nodes g') x = map_of (tg_nodes g) x)"

lemma resolve_sound:
  assumes "resolve events i visiting g = Inr (n, g', visiting')" and "graph_ok (map_of events) g"
  shows "graph_ok (map_of events) g' \<and> visiting' = visiting \<and> map_of (tg_nodes g') i = Some n \<and> extends visiting g g'"
  using assms
proof (induction events i visiting g arbitrary: n g' visiting' rule: resolve.induct)
  case (1 events i visiting g)
  show ?case
  proof (cases "map_of (tg_nodes g) i")
    case (Some m)
    with 1 show ?thesis by (simp add: resolve.simps [of events i visiting g] extends_def)
  next
    case None
    with "1.prems" obtain event where event: "i \<notin> visiting" "map_of events i = Some event"
      by (auto simp: resolve.simps [of events i visiting g] split: if_splits option.splits)
    show ?thesis
    proof (cases "te_reference event")
      case TopLevel
      with "1.prems" None event have n: "n = \<lparr>tn_event = event, tn_parent_event_id = None, tn_root_event_id = i, tn_depth = 0\<rparr>"
          "g' = add_node i n g" "visiting' = visiting"
        by (auto simp: resolve.simps [of events i visiting g])
      moreover have "node_ok (map_of events) i n"
        using n event TopLevel by (auto simp: node_ok_def parent_of_def intro: ancestry.top)
      ultimately show ?thesis
        using graph_ok_top [OF "1.prems"(2) None] event None by (auto simp: extends_def map_le_def)
    next
      case (Reply p r)
      with "1.prems"(1) None event obtain parent g1 v1 g2 where
          parent: "resolve events p (insert i visiting) g = Inr (parent, g1, v1)"
          and n: "attach event i p r parent g1 = Inr (n, g2)" "g' = add_node i n g2" "visiting' = v1 - {i}"
        by (auto simp: resolve.simps [of events i visiting g] and_then_Inr)
      from "1.IH" [OF None event Reply parent "1.prems"(2)]
      have g1: "graph_ok (map_of events) g1" "v1 = insert i visiting" "map_of (tg_nodes g1) p = Some parent"
          "extends (insert i visiting) g g1"
        by simp_all
      then have fresh: "map_of (tg_nodes g1) i = None" using None by (simp add: extends_def)
      have "graph_ok (map_of events) g'"
        using attach_graph_ok [OF g1(1) fresh g1(3) event(2) Reply n(1)] n(2) by simp
      moreover have "map_of (tg_nodes g') = (map_of (tg_nodes g1))(i \<mapsto> n)"
        using n by (simp add: attach_Inr)
      ultimately show ?thesis
        using g1 n event(1) None fresh by (auto simp: extends_def map_le_def dom_def)
    qed
  qed
qed

section \<open>The search is complete\<close>

lemma resolve_complete:
  assumes "ancestry (map_of events) i root d" "graph_ok (map_of events) g"
    and "\<forall>x \<in> visiting. \<exists>root' d'. ancestry (map_of events) x root' d' \<and> d < d'"
  shows "\<exists>n g'. resolve events i visiting g = Inr (n, g', visiting)"
  using assms
proof (induction i root d arbitrary: visiting rule: ancestry.induct)
  case (top i e)
  have "ancestry (map_of events) i i 0" using top.hyps by (rule ancestry.top)
  from top.prems(2) ancestry_unique [OF this] have "i \<notin> visiting" by fastforce
  with top.hyps show ?case
    by (auto simp: resolve.simps [of events i visiting g] split: option.splits)
next
  case (reply p root d i e r pe)
  have anc: "ancestry (map_of events) i root (Suc d)" using reply.hyps by (rule ancestry.reply)
  have fresh: "i \<notin> visiting" using reply.prems(2) ancestry_unique [OF anc] by fastforce
  show ?case
  proof (cases "map_of (tg_nodes g) i")
    case None
    have "\<forall>x \<in> insert i visiting. \<exists>root' d'. ancestry (map_of events) x root' d' \<and> d < d'"
      using reply.prems(2) anc by force
    from reply.IH [OF reply.prems(1) this] obtain parent g1 where
      r1: "resolve events p (insert i visiting) g = Inr (parent, g1, insert i visiting)" by blast
    from resolve_sound [OF r1 reply.prems(1)] have "node_ok (map_of events) p parent"
      using graph_ok_node by blast
    with ancestry_unique [OF reply.hyps(1)] have "tn_root_event_id parent = root" "unat (tn_depth parent) = d"
        "tn_event parent = pe"
      using reply.hyps(4) by (auto simp: node_ok_def)
    then have "\<exists>n. attach e i p r parent g1 = Inr (n, g1\<lparr>tg_children := bt_push p i (tg_children g1)\<rparr>)"
      using reply.hyps by (intro exI [of _ "\<lparr>tn_event = e, tn_parent_event_id = Some p, tn_root_event_id = root,
        tn_depth = tn_depth parent + 1\<rparr>"]) (simp add: attach_Inr unat_word_ariths)
    with None fresh r1 reply.hyps show ?thesis
      by (auto simp: resolve.simps [of events i visiting g])
  qed (auto simp: resolve.simps [of events i visiting g])
qed

lemma resolve_all_sound:
  assumes "resolve_all events ids visiting g = Inr g'" "graph_ok (map_of events) g"
  shows "graph_ok (map_of events) g' \<and> map_of (tg_nodes g) \<subseteq>\<^sub>m map_of (tg_nodes g')
    \<and> (\<forall>i \<in> set ids. map_of (tg_nodes g') i \<noteq> None)"
  using assms
proof (induction ids arbitrary: visiting g)
  case (Cons i ids)
  then obtain n g1 v1 where r: "resolve events i visiting g = Inr (n, g1, v1)" "resolve_all events ids v1 g1 = Inr g'"
    by (auto simp: and_then_Inr)
  from resolve_sound [OF r(1) Cons.prems(2)] have g1: "graph_ok (map_of events) g1" "map_of (tg_nodes g1) i = Some n"
      "map_of (tg_nodes g) \<subseteq>\<^sub>m map_of (tg_nodes g1)"
    by (simp_all add: extends_def)
  from Cons.IH [OF r(2) g1(1)] have g': "graph_ok (map_of events) g'" "map_of (tg_nodes g1) \<subseteq>\<^sub>m map_of (tg_nodes g')"
      "\<forall>i \<in> set ids. map_of (tg_nodes g') i \<noteq> None"
    by simp_all
  from g'(2) g1(2) have "map_of (tg_nodes g') i = Some n" unfolding map_le_def by (metis domI)
  with g' map_le_trans [OF g1(3)] show ?case by simp
qed simp

lemma resolve_all_complete:
  assumes "\<forall>i \<in> set ids. \<exists>root d. ancestry (map_of events) i root d" "graph_ok (map_of events) g"
  shows "\<exists>g'. resolve_all events ids {} g = Inr g'"
  using assms
proof (induction ids arbitrary: g)
  case (Cons i ids)
  then obtain root d where "ancestry (map_of events) i root d" by auto
  from resolve_complete [OF this Cons.prems(2), of "{}"] obtain n g1 where r: "resolve events i {} g = Inr (n, g1, {})"
    by auto
  from resolve_sound [OF r Cons.prems(2)] Cons.IH [of g1] Cons.prems(1) r show ?case by auto
qed simp

definition events_map :: "thread_event list \<Rightarrow> nostr_event_id \<rightharpoonup> thread_event" where
  "events_map es = map_of (map (\<lambda>e. (te_event_id e, e)) es)"

lemma events_map_Some: "distinct (map te_event_id es) \<Longrightarrow> events_map es i = Some e \<longleftrightarrow> e \<in> set es \<and> te_event_id e = i"
  by (auto simp: events_map_def map_of_eq_Some_iff comp_def)

lemma dom_events_map: "dom (events_map es) = te_event_id ` set es"
  by (simp add: events_map_def dom_map_of_conv_image_fst image_image)

lemma collect_events_Inr:
  "collect_events es m = Inr m' \<Longrightarrow>
     (\<forall>e \<in> set es. validate_event e = Inr ()) \<and> distinct (map te_event_id es)
     \<and> (\<forall>e \<in> set es. map_of m (te_event_id e) = None) \<and> map_of m' = map_of m ++ events_map es \<and> (ordered m \<longrightarrow> ordered m')"
proof (induction es arbitrary: m)
  case (Cons e es)
  then have e: "validate_event e = Inr ()" "map_of m (te_event_id e) = None"
      "collect_events es (bt_insert (te_event_id e) e m) = Inr m'"
    by (auto simp: and_then_Inr split: if_splits)
  have cons: "events_map (e # es) = (events_map es)(te_event_id e \<mapsto> e)" by (simp add: events_map_def)
  note ih = Cons.IH [OF e(3)]
  then have fresh: "te_event_id e \<notin> te_event_id ` set es" by (auto split: if_splits)
  then have "te_event_id e \<notin> dom (events_map es)" by (simp add: dom_events_map)
  then have "map_of m' = map_of m ++ events_map (e # es)"
    using ih [unfolded map_of_bt_insert] unfolding cons by (metis map_add_upd map_add_upd_left)
  moreover have "\<forall>e' \<in> set (e # es). map_of m (te_event_id e') = None"
    using ih e(2) fresh by (auto simp: fun_upd_def split: if_splits)
  ultimately show ?case using ih fresh e(1) by simp
qed (simp add: events_map_def)

lemma collect_events_complete:
  assumes "\<forall>e \<in> set es. validate_event e = Inr ()" "distinct (map te_event_id es)"
    and "\<forall>e \<in> set es. map_of m (te_event_id e) = None"
  shows "\<exists>m'. collect_events es m = Inr m'"
  using assms
proof (induction es arbitrary: m)
  case (Cons e es)
  have "\<forall>e' \<in> set es. map_of (bt_insert (te_event_id e) e m) (te_event_id e') = None"
    using Cons.prems(2,3) by (auto simp: image_iff)
  with Cons.IH [of "bt_insert (te_event_id e) e m"] Cons.prems show ?case by simp
qed simp

lemma sort_children_simps [simp]:
  "tg_nodes (sort_children g) = tg_nodes g"
  "children_of (sort_children g) p = sort_key (\<lambda>child. map_option for_node (map_of (tg_nodes g) child)) (children_of g p)"
  by (simp_all add: sort_children_def children_of_def map_of_map split: option.splits)

lemma sort_children_ok: "graph_ok ev g \<Longrightarrow> graph_ok ev (sort_children g)"
  by (simp add: graph_ok_def)

lemma build_sound:
  assumes "build es = Inr g"
  shows "(\<forall>e \<in> set es. validate_event e = Inr ()) \<and> distinct (map te_event_id es) \<and> graph_ok (events_map es) g
    \<and> (\<forall>e \<in> set es. map_of (tg_nodes g) (te_event_id e) \<noteq> None)"
proof -
  from assms obtain events g1 where b: "collect_events es [] = Inr events" "g = sort_children g1"
      "resolve_all events (map fst events) {} \<lparr>tg_nodes = [], tg_children = []\<rparr> = Inr g1"
    by (auto simp: build_def result_simps)
  from collect_events_Inr [OF b(1)] have ev: "map_of events = events_map es" "\<forall>e \<in> set es. validate_event e = Inr ()"
      "distinct (map te_event_id es)"
    by auto
  have "te_event_id e \<in> set (map fst events)" if "e \<in> set es" for e
  proof -
    from that ev(1) events_map_Some [OF ev(3)] have "map_of events (te_event_id e) = Some e" by simp
    then show ?thesis by (metis dom_map_of_conv_image_fst domI list.set_map)
  qed
  moreover from resolve_all_sound [OF b(3) graph_ok_empty]
  have "graph_ok (events_map es) g1" "\<forall>i \<in> set (map fst events). map_of (tg_nodes g1) i \<noteq> None"
    unfolding ev(1) by blast+
  ultimately show ?thesis using ev b(2) sort_children_ok by (metis sort_children_simps(1))
qed

lemma build_complete:
  assumes "\<forall>e \<in> set es. validate_event e = Inr ()" "distinct (map te_event_id es)"
    and "\<forall>e \<in> set es. \<exists>root d. ancestry (events_map es) (te_event_id e) root d"
  shows "\<exists>g. build es = Inr g"
proof -
  from collect_events_complete [OF assms(1,2), of "[]"] obtain events where c: "collect_events es [] = Inr events" by auto
  from collect_events_Inr [OF c] have ev: "map_of events = events_map es" by auto
  have "\<exists>root d. ancestry (map_of events) i root d" if "i \<in> set (map fst events)" for i
  proof -
    from that obtain e where "map_of events i = Some e" by (cases "map_of events i") (auto simp: map_of_eq_None_iff)
    with assms(2,3) show ?thesis by (auto simp: ev events_map_Some)
  qed
  from resolve_all_complete [OF _ graph_ok_empty, of "map fst events" events] this c show ?thesis
    by (auto simp: build_def)
qed

section \<open>Properties\<close>

text \<open>C13. The graph of a conversation is built exactly when it makes sense: the events are valid and have
  distinct identifiers, and every event has an ancestry, which excludes missing parents, cycles,
  replies across channels, wrong roots and threads deeper than 100. The search ends on every input.\<close>

theorem thread_build_succeeds:
  "(\<exists>g. build es = Inr g) \<longleftrightarrow>
     (\<forall>e \<in> set es. validate_event e = Inr ()) \<and> distinct (map te_event_id es)
     \<and> (\<forall>e \<in> set es. \<exists>root d. ancestry (events_map es) (te_event_id e) root d)"
proof
  assume "\<exists>g. build es = Inr g"
  then obtain g where "build es = Inr g" ..
  note g = build_sound [OF this]
  moreover have "\<exists>root d. ancestry (events_map es) (te_event_id e) root d" if "e \<in> set es" for e
  proof -
    from g that obtain n where "map_of (tg_nodes g) (te_event_id e) = Some n" by auto
    with g have "node_ok (events_map es) (te_event_id e) n" by (blast intro: graph_ok_node)
    then show ?thesis by (auto simp: node_ok_def)
  qed
  ultimately show "(\<forall>e \<in> set es. validate_event e = Inr ()) \<and> distinct (map te_event_id es)
     \<and> (\<forall>e \<in> set es. \<exists>root d. ancestry (events_map es) (te_event_id e) root d)" by blast
next
  assume "(\<forall>e \<in> set es. validate_event e = Inr ()) \<and> distinct (map te_event_id es)
     \<and> (\<forall>e \<in> set es. \<exists>root d. ancestry (events_map es) (te_event_id e) root d)"
  then show "\<exists>g. build es = Inr g" by (blast intro: build_complete)
qed

lemma node_eqI:
  assumes "node_ok ev i n" "node_ok ev i m"
  shows "n = m"
proof -
  from assms have "tn_root_event_id m = tn_root_event_id n \<and> unat (tn_depth m) = unat (tn_depth n)"
    by (intro ancestry_unique [of ev i]) (simp_all add: node_ok_def)
  then have "tn_root_event_id m = tn_root_event_id n" "tn_depth m = tn_depth n"
    by (auto dest: unsigned_word_eqI)
  with assms show ?thesis by (cases n; cases m) (auto simp: node_ok_def)
qed

lemma build_nodes:
  assumes "build es = Inr g"
  shows "map_of (tg_nodes g) i = Some n \<longleftrightarrow> node_ok (events_map es) i n"
proof
  note g = build_sound [OF assms]
  show "map_of (tg_nodes g) i = Some n" if "node_ok (events_map es) i n"
  proof -
    from that g have "tn_event n \<in> set es" "te_event_id (tn_event n) = i"
      by (auto simp: node_ok_def events_map_Some)
    with g obtain m where m: "map_of (tg_nodes g) i = Some m" by auto
    with g that have "m = n" by (blast intro: node_eqI dest: graph_ok_node)
    with m show ?thesis by simp
  qed
qed (use build_sound [OF assms] graph_ok_node in blast)

text \<open>C14. The graph says what the references say: an event stands in it with the root and the depth of its
  ancestry and with its parent, and the children of an event are the replies to it, each once, in the
  order of their creation.\<close>

theorem thread_graph_faithful:
  assumes "build es = Inr g"
  shows "(map_of (tg_nodes g) i = Some n \<longleftrightarrow>
       tn_event n \<in> set es \<and> te_event_id (tn_event n) = i \<and> tn_parent_event_id n = parent_of (tn_event n)
       \<and> ancestry (events_map es) i (tn_root_event_id n) (unat (tn_depth n)))
    \<and> distinct (children_of g p)
    \<and> set (children_of g p) = te_event_id ` {e \<in> set es. parent_of e = Some p}
    \<and> sorted (map (\<lambda>child. map_option for_node (map_of (tg_nodes g) child)) (children_of g p))"
proof -
  note g = build_sound [OF assms]
  have "sorted (map (\<lambda>child. map_option for_node (map_of (tg_nodes g) child)) (children_of g p))"
    using assms by (auto simp: build_def result_simps)
  moreover have "map_of (tg_nodes g) i = Some n \<longleftrightarrow>
       tn_event n \<in> set es \<and> te_event_id (tn_event n) = i \<and> tn_parent_event_id n = parent_of (tn_event n)
       \<and> ancestry (events_map es) i (tn_root_event_id n) (unat (tn_depth n))" for i n
    using g by (auto simp: build_nodes [OF assms] node_ok_def events_map_Some)
  moreover have "set (children_of g p) = te_event_id ` {e \<in> set es. parent_of e = Some p}"
  proof -
    have nodes: "map_of (tg_nodes g) i = Some n \<Longrightarrow> node_ok (events_map es) i n" for i n
      using build_nodes [OF assms] by blast
    have "set (children_of g p) = {i. \<exists>n. map_of (tg_nodes g) i = Some n \<and> tn_parent_event_id n = Some p}"
      using g by (simp add: graph_ok_def)
    also have "\<dots> = te_event_id ` {e \<in> set es. parent_of e = Some p}"
    proof (intro set_eqI iffI)
      fix i assume "i \<in> {i. \<exists>n. map_of (tg_nodes g) i = Some n \<and> tn_parent_event_id n = Some p}"
      then obtain n where "map_of (tg_nodes g) i = Some n" "tn_parent_event_id n = Some p" by blast
      with nodes [of i n] g show "i \<in> te_event_id ` {e \<in> set es. parent_of e = Some p}"
        by (auto simp: node_ok_def events_map_Some intro!: image_eqI [of _ _ "tn_event n"])
    next
      fix i assume "i \<in> te_event_id ` {e \<in> set es. parent_of e = Some p}"
      then obtain e where e: "e \<in> set es" "parent_of e = Some p" "i = te_event_id e" by blast
      with g obtain n where n: "map_of (tg_nodes g) i = Some n" by auto
      with nodes [of i n] g e have "tn_event n = e" by (auto simp: node_ok_def events_map_Some inj_on_def distinct_map)
      with n nodes [of i n] e show "i \<in> {i. \<exists>n. map_of (tg_nodes g) i = Some n \<and> tn_parent_event_id n = Some p}"
        by (auto simp: node_ok_def)
    qed
    finally show ?thesis .
  qed
  moreover have "distinct (children_of g p)" using g by (simp add: graph_ok_def)
  ultimately show ?thesis by blast
qed

definition sample_thread :: "thread_event list" where
  "sample_thread =
     [\<lparr>te_event_id = NostrEventId 1, te_channel_id = AggregateId 7, te_author = NostrPublicKey 5, te_created_at = 10,
       te_reference = TopLevel, te_broadcast = False, te_deleted = False\<rparr>,
      \<lparr>te_event_id = NostrEventId 2, te_channel_id = AggregateId 7, te_author = NostrPublicKey 6, te_created_at = 20,
       te_reference = Reply (NostrEventId 1) None, te_broadcast = False, te_deleted = False\<rparr>]"

definition sample_graph :: thread_graph where
  "sample_graph =
     \<lparr>tg_nodes =
        [(NostrEventId 1, \<lparr>tn_event = sample_thread ! 0, tn_parent_event_id = None, tn_root_event_id = NostrEventId 1, tn_depth = 0\<rparr>),
         (NostrEventId 2, \<lparr>tn_event = sample_thread ! 1, tn_parent_event_id = Some (NostrEventId 1),
            tn_root_event_id = NostrEventId 1, tn_depth = 1\<rparr>)],
      tg_children = [(NostrEventId 1, [NostrEventId 2])]\<rparr>"

lemma sample_built: "build sample_thread = Inr sample_graph"
  by (simp add: build_def sample_thread_def validate_event_def uuid_is_nil_def less_nostr_event_id_def
      resolve.simps add_node_def attach_def checked_add_def MAX_THREAD_DEPTH_def bt_push_def bt_entry_def
      sort_children_def sample_graph_def)

theorem thread_graph_faithful_witness:
  "set (children_of sample_graph (NostrEventId 1)) = {NostrEventId 2}"
proof -
  have "{e \<in> set sample_thread. parent_of e = Some (NostrEventId 1)} = {sample_thread ! 1}"
    by (auto simp: sample_thread_def parent_of_def)
  with thread_graph_faithful [OF sample_built, where p = "NostrEventId 1"] show ?thesis
    by (simp add: sample_thread_def)
qed

theorem thread_build_succeeds_witness:
  "\<exists>d. ancestry (events_map sample_thread) (NostrEventId 2) (NostrEventId 1) d \<and> \<not> (\<exists>g. build (tl sample_thread) = Inr g)"
proof -
  have "\<not> (\<exists>g. build (tl sample_thread) = Inr g)"
  proof
    assume "\<exists>g. build (tl sample_thread) = Inr g"
    then have "\<exists>root d. ancestry (events_map (tl sample_thread)) (NostrEventId 2) root d"
      unfolding thread_build_succeeds by (simp add: sample_thread_def)
    then obtain root d where "ancestry (events_map (tl sample_thread)) (NostrEventId 2) root d" by blast
    then show False
    proof cases
      case (reply p d' e r pe)
      then have "p = NostrEventId 1" by (auto simp: sample_thread_def events_map_def)
      moreover have "events_map (tl sample_thread) (NostrEventId 1) = None" by (simp add: sample_thread_def events_map_def)
      ultimately show False using reply by simp
    qed (auto simp: sample_thread_def events_map_def)
  qed
  moreover have "ancestry (events_map sample_thread) (NostrEventId 2) (NostrEventId 1) 1"
    using build_nodes [OF sample_built, of "NostrEventId 2" "snd (tg_nodes sample_graph ! 1)"] by (simp add: node_ok_def sample_graph_def)
  ultimately show ?thesis by blast
qed

end
