(* ===== verification/ThreadQueries.thy ===== *)
theory ThreadQueries
  imports Thread
begin

text \<open>
  What the queries on a thread graph return (\<open>thread.rs\<close>): the loop that collects descendants ends and
  collects each of them once, pages in the order of creation cover all of them, and a summary counts
  them and names the most recent participants.
\<close>

section \<open>Descendants\<close>

definition reply_to :: "(nostr_event_id \<rightharpoonup> thread_event) \<Rightarrow> nostr_event_id \<Rightarrow> nostr_event_id \<Rightarrow> bool" where
  "reply_to ev c p \<longleftrightarrow> (\<exists>e. ev c = Some e \<and> parent_of e = Some p)"

definition child :: "thread_graph \<Rightarrow> nostr_event_id \<Rightarrow> nostr_event_id \<Rightarrow> bool" where
  "child g p c \<longleftrightarrow> c \<in> set (children_of g p)"

definition depth_of :: "thread_graph \<Rightarrow> nostr_event_id \<Rightarrow> nat" where
  "depth_of g i = (case map_of (tg_nodes g) i of None \<Rightarrow> 0 | Some n \<Rightarrow> unat (tn_depth n))"

lemma child_node:
  assumes "graph_ok ev g" "child g p c"
  shows "\<exists>n m. map_of (tg_nodes g) c = Some n \<and> tn_parent_event_id n = Some p \<and> map_of (tg_nodes g) p = Some m
    \<and> unat (tn_depth n) = Suc (unat (tn_depth m))"
proof -
  from assms obtain n where n: "map_of (tg_nodes g) c = Some n" "tn_parent_event_id n = Some p"
    by (auto simp: graph_ok_def child_def)
  with assms(1) obtain m where m: "map_of (tg_nodes g) p = Some m" by (fastforce simp: graph_ok_def)
  have ok: "node_ok ev c n" "node_ok ev p m" using assms(1) n(1) m by (auto dest: graph_ok_node)
  with n(2) obtain r where r: "te_reference (tn_event n) = Reply p r"
    by (auto simp: node_ok_def parent_of_def split: thread_reference.splits)
  from ok(1) have "ancestry ev c (tn_root_event_id n) (unat (tn_depth n))" by (simp add: node_ok_def)
  then have "unat (tn_depth n) = Suc (unat (tn_depth m))"
  proof cases
    case top
    with ok(1) r show ?thesis by (simp add: node_ok_def)
  next
    case (reply p' d e r' pe)
    with ok(1) r have "p' = p" by (simp add: node_ok_def)
    with reply(2) have "ancestry ev p (tn_root_event_id n) d" by simp
    moreover from ok(2) have "ancestry ev p (tn_root_event_id m) (unat (tn_depth m))" by (simp add: node_ok_def)
    ultimately have "unat (tn_depth m) = d" by (blast dest: ancestry_unique)
    with reply(1) show ?thesis by simp
  qed
  with n m show ?thesis by blast
qed

lemma child_depth: "graph_ok ev g \<Longrightarrow> child g p c \<Longrightarrow> depth_of g c = Suc (depth_of g p)"
  by (auto simp: depth_of_def dest!: child_node)

lemma child_parent_unique: "graph_ok ev g \<Longrightarrow> child g p c \<Longrightarrow> child g q c \<Longrightarrow> p = q"
  using child_node [of ev g p c] child_node [of ev g q c] by auto

lemma depth_bound: "graph_ok ev g \<Longrightarrow> depth_of g i \<le> 100"
  by (auto simp: depth_of_def node_ok_def dest!: graph_ok_node ancestry_depth split: option.splits)

lemma descendant_depth:
  assumes "graph_ok ev g" "(child g)\<^sup>*\<^sup>* p c"
  shows "p = c \<or> depth_of g p < depth_of g c"
  using assms(2) by (induction rule: rtranclp_induct) (auto dest: child_depth [OF assms(1)])

lemma reach_iff: "(child g)\<^sup>*\<^sup>* q x \<longleftrightarrow> q = x \<or> (\<exists>c. child g q c \<and> (child g)\<^sup>*\<^sup>* c x)"
  by (metis converse_rtranclpE converse_rtranclp_into_rtranclp rtranclp.rtrancl_refl)

text \<open>A node has one ancestor at every depth.\<close>

lemma ancestor_unique:
  assumes "graph_ok ev g" "(child g)\<^sup>*\<^sup>* p x" "(child g)\<^sup>*\<^sup>* q x" "depth_of g p = depth_of g q"
  shows "p = q"
  using assms(2,3)
proof (induction rule: rtranclp_induct)
  case base
  with descendant_depth [OF assms(1)] assms(4) show ?case by force
next
  case (step y z)
  from step.prems show ?case
  proof (cases rule: rtranclp.cases)
    case rtrancl_refl
    with descendant_depth [OF assms(1) step.hyps(1)] child_depth [OF assms(1) step.hyps(2)] assms(4) show ?thesis
      by auto
  next
    case (rtrancl_into_rtrancl b)
    with step child_parent_unique [OF assms(1)] show ?thesis by blast
  qed
qed

text \<open>The order in which the loop visits: below each pending event, last one first.\<close>

primrec walk :: "nat \<Rightarrow> thread_graph \<Rightarrow> nostr_event_id list \<Rightarrow> nostr_event_id list" where
  "walk 0 g qs = []"
| "walk (Suc k) g qs = concat (map (\<lambda>q. q # walk k g (children_of g q)) (rev qs))"

definition alive :: "thread_graph \<Rightarrow> nostr_event_id list \<Rightarrow> thread_node list" where
  "alive g ids = filter (\<lambda>n. \<not> te_deleted (tn_event n)) (map (\<lambda>i. the (map_of (tg_nodes g) i)) ids)"

lemma alive_append [simp]: "alive g (xs @ ys) = alive g xs @ alive g ys"
  by (simp add: alive_def)

definition within :: "nat \<Rightarrow> thread_graph \<Rightarrow> nostr_event_id list \<Rightarrow> bool" where
  "within k g qs \<longleftrightarrow> (\<forall>q \<in> set qs. map_of (tg_nodes g) q \<noteq> None \<and> 100 < depth_of g q + k)"

lemma within_0:
  assumes "graph_ok ev g" "within 0 g qs"
  shows "qs = []"
proof (cases qs)
  case (Cons q qs')
  with assms(2) depth_bound [OF assms(1), of q] show ?thesis by (simp add: within_def)
qed simp

lemma within_children:
  assumes "graph_ok ev g" "within (Suc k) g qs" "q \<in> set qs"
  shows "within k g (children_of g q)"
  using assms child_node [OF assms(1)] child_depth [OF assms(1)] by (fastforce simp: within_def child_def)

lemma descend_walk:
  assumes "graph_ok ev g" "within k g qs"
  shows "descend g (ps @ qs) acc = descend g ps (acc @ alive g (walk k g qs))"
  using assms(2)
proof (induction k arbitrary: ps qs acc)
  case 0
  with within_0 [OF assms(1)] have "qs = []" .
  then show ?case by (simp add: alive_def)
next
  case (Suc k)
  show ?case
    using Suc.prems
  proof (induction qs arbitrary: acc rule: rev_induct)
    case (snoc q qs)
    from snoc.prems obtain n where n: "map_of (tg_nodes g) q = Some n" by (auto simp: within_def)
    have "descend g (ps @ qs @ [q]) acc = descend g ((ps @ qs) @ children_of g q) (acc @ alive g [q])"
      by (subst descend.simps) (simp add: n alive_def butlast_append)
    also have "\<dots> = descend g (ps @ qs) (acc @ alive g [q] @ alive g (walk k g (children_of g q)))"
      using Suc.IH [of "children_of g q" "ps @ qs" "acc @ alive g [q]"] within_children [OF assms(1) snoc.prems, of q]
      by simp
    also have "\<dots> = descend g ps (acc @ alive g (walk (Suc k) g (qs @ [q])))"
      using snoc.IH [of "acc @ alive g [q] @ alive g (walk k g (children_of g q))"] snoc.prems
      by (simp add: within_def alive_def)
    finally show ?case .
  qed (simp add: alive_def)
qed

lemma walk_member:
  assumes "graph_ok ev g" "within k g qs"
  shows "x \<in> set (walk k g qs) \<longleftrightarrow> (\<exists>q \<in> set qs. (child g)\<^sup>*\<^sup>* q x)"
  using assms(2)
proof (induction k arbitrary: qs)
  case 0
  with within_0 [OF assms(1)] have "qs = []" .
  then show ?case by simp
next
  case (Suc k)
  have "x \<in> set (walk k g (children_of g q)) \<longleftrightarrow> (\<exists>c. child g q c \<and> (child g)\<^sup>*\<^sup>* c x)" if "q \<in> set qs" for q
    using Suc.IH [OF within_children [OF assms(1) Suc.prems that]] by (simp add: child_def [symmetric] Bex_def)
  then have "x \<in> set (q # walk k g (children_of g q)) \<longleftrightarrow> (child g)\<^sup>*\<^sup>* q x" if "q \<in> set qs" for q
    using that reach_iff [of g q x] by auto
  then show ?case by auto
qed

lemma distinct_walk:
  assumes "graph_ok ev g" "within k g qs" "distinct qs" "\<forall>q \<in> set qs. depth_of g q = d"
  shows "distinct (walk k g qs)"
  using assms(2-)
proof (induction k arbitrary: qs d)
  case (Suc k)
  have below: "set (q # walk k g (children_of g q)) = {x. (child g)\<^sup>*\<^sup>* q x}" if "q \<in> set qs" for q
  proof -
    have "x \<in> set (walk k g (children_of g q)) \<longleftrightarrow> (\<exists>c. child g q c \<and> (child g)\<^sup>*\<^sup>* c x)" for x
      using walk_member [OF assms(1) within_children [OF assms(1) Suc.prems(1) that]]
      by (simp add: child_def [symmetric] Bex_def)
    then show ?thesis using reach_iff [of g q] by auto
  qed
  have "distinct (q # walk k g (children_of g q))" if q: "q \<in> set qs" for q
  proof -
    have "\<not> (\<exists>c \<in> set (children_of g q). (child g)\<^sup>*\<^sup>* c q)"
    proof
      assume "\<exists>c \<in> set (children_of g q). (child g)\<^sup>*\<^sup>* c q"
      then obtain c where "child g q c" "(child g)\<^sup>*\<^sup>* c q" by (auto simp: child_def [symmetric])
      with child_depth [OF assms(1), of q c] descendant_depth [OF assms(1), of c q] show False by auto
    qed
    then have "q \<notin> set (walk k g (children_of g q))"
      using walk_member [OF assms(1) within_children [OF assms(1) Suc.prems(1) q]] by blast
    moreover have "distinct (walk k g (children_of g q))"
      using Suc.IH [OF within_children [OF assms(1) Suc.prems(1) q], of "Suc d"] assms(1) child_depth [OF assms(1)]
        Suc.prems(3) q
      by (auto simp: graph_ok_def child_def)
    ultimately show ?thesis by simp
  qed
  moreover have "set (p # walk k g (children_of g p)) \<inter> set (q # walk k g (children_of g q)) = {}"
    if "p \<in> set qs" "q \<in> set qs" "p \<noteq> q" for p q
    unfolding below [OF that(1)] below [OF that(2)] using ancestor_unique [OF assms(1)] that Suc.prems(3) by auto
  ultimately show ?case
    using Suc.prems(2)
  proof (induction qs)
    case (Cons q qs)
    then have "distinct (concat (map (\<lambda>q. q # walk k g (children_of g q)) (rev qs)))" by simp
    moreover have "distinct (q # walk k g (children_of g q))" using Cons.prems(1) by simp
    moreover have "set (p # walk k g (children_of g p)) \<inter> set (q # walk k g (children_of g q)) = {}" if "p \<in> set qs" for p
      using Cons.prems(2) [of p q] Cons.prems(3) that by auto
    ultimately show ?case by auto
  qed simp
qed simp

lemma active_descendants_walk:
  assumes "graph_ok ev g"
  shows "active_descendants g i = Some (alive g (walk 100 g (children_of g i)))"
proof -
  have "within 100 g (children_of g i)"
    using child_node [OF assms, of i] child_depth [OF assms, of i] by (fastforce simp: within_def child_def)
  from descend_walk [OF assms this, of "[]" "[]"] show ?thesis
    by (simp add: active_descendants_def descend.simps [of g "[]"])
qed

lemma child_reply_to:
  assumes "build es = Inr g"
  shows "child g p c \<longleftrightarrow> reply_to (events_map es) c p"
proof -
  note g = build_sound [OF assms]
  have "child g p c \<longleftrightarrow> (\<exists>n. map_of (tg_nodes g) c = Some n \<and> tn_parent_event_id n = Some p)"
    using g by (simp add: child_def graph_ok_def)
  also have "\<dots> \<longleftrightarrow> (\<exists>n. map_of (tg_nodes g) c = Some n \<and> events_map es c = Some (tn_event n) \<and> parent_of (tn_event n) = Some p)"
    using build_nodes [OF assms] by (auto simp: node_ok_def)
  also have "\<dots> \<longleftrightarrow> reply_to (events_map es) c p"
  proof
    assume "reply_to (events_map es) c p"
    then obtain e where e: "events_map es c = Some e" "parent_of e = Some p" by (auto simp: reply_to_def)
    with g obtain n where "map_of (tg_nodes g) c = Some n" by (auto simp: events_map_Some)
    with e build_nodes [OF assms, of c n]
    show "\<exists>n. map_of (tg_nodes g) c = Some n \<and> events_map es c = Some (tn_event n) \<and> parent_of (tn_event n) = Some p"
      by (auto simp: node_ok_def)
  qed (auto simp: reply_to_def)
  finally show ?thesis .
qed

lemma tranclp_child: "(child g)\<^sup>+\<^sup>+ p x \<longleftrightarrow> (\<exists>c \<in> set (children_of g p). (child g)\<^sup>*\<^sup>* c x)"
  by (auto simp: child_def [symmetric] Bex_def dest: tranclpD intro: rtranclp_into_tranclp2)

lemma reply_trancl:
  assumes "build es = Inr g"
  shows "(reply_to (events_map es))\<^sup>+\<^sup>+ c i \<longleftrightarrow> (child g)\<^sup>+\<^sup>+ i c"
proof -
  have "child g = (reply_to (events_map es))\<inverse>\<inverse>"
    using child_reply_to [OF assms] by (auto simp: fun_eq_iff)
  then show ?thesis by (simp add: tranclp_converse)
qed

lemma active_descendants_found:
  assumes "build es = Inr g"
  shows "\<exists>ds. active_descendants g i = Some ds \<and> distinct ds
    \<and> set ds = {n. map_of (tg_nodes g) (te_event_id (tn_event n)) = Some n \<and> \<not> te_deleted (tn_event n)
                \<and> (reply_to (events_map es))\<^sup>+\<^sup>+ (te_event_id (tn_event n)) i}"
proof -
  note g = build_sound [OF assms]
  then have ok: "graph_ok (events_map es) g" by blast
  let ?ids = "walk 100 g (children_of g i)"
  have within: "within 100 g (children_of g i)"
    using child_node [OF ok, of i] child_depth [OF ok, of i] by (fastforce simp: within_def child_def)
  have member: "x \<in> set ?ids \<longleftrightarrow> (reply_to (events_map es))\<^sup>+\<^sup>+ x i" for x
    using walk_member [OF ok within] by (simp add: reply_trancl [OF assms] tranclp_child)
  have id: "te_event_id (tn_event n) = x" if "map_of (tg_nodes g) x = Some n" for x n
    using that g build_nodes [OF assms] by (auto simp: node_ok_def events_map_Some)
  have node: "\<exists>n. map_of (tg_nodes g) x = Some n" if "x \<in> set ?ids" for x
  proof -
    from that member tranclpD have "reply_to (events_map es) x (SOME p. reply_to (events_map es) x p)"
      by (metis someI_ex)
    then show ?thesis using g by (auto simp: reply_to_def events_map_Some)
  qed
  have "distinct ?ids"
    using ok child_depth [OF ok] by (intro distinct_walk [OF ok within, of "Suc (depth_of g i)"])
      (auto simp: graph_ok_def child_def)
  moreover have "inj_on (\<lambda>x. the (map_of (tg_nodes g) x)) (set ?ids)"
    using node id by (metis (mono_tags, lifting) inj_onI option.sel)
  ultimately have "distinct (alive g ?ids)" by (simp add: alive_def distinct_map)
  moreover have "set (alive g ?ids) = {n. map_of (tg_nodes g) (te_event_id (tn_event n)) = Some n \<and> \<not> te_deleted (tn_event n)
      \<and> (reply_to (events_map es))\<^sup>+\<^sup>+ (te_event_id (tn_event n)) i}"
  proof -
    have "(\<exists>x \<in> set ?ids. n = the (map_of (tg_nodes g) x)) \<longleftrightarrow>
        map_of (tg_nodes g) (te_event_id (tn_event n)) = Some n \<and> te_event_id (tn_event n) \<in> set ?ids" for n
      using node id by (metis option.sel)
    then show ?thesis by (auto simp: alive_def image_iff member)
  qed
  ultimately show ?thesis using active_descendants_walk [OF ok] by blast
qed

section \<open>Pages\<close>

definition after_cursor :: "thread_cursor option \<Rightarrow> thread_node \<Rightarrow> bool" where
  "after_cursor cursor n \<longleftrightarrow> (case cursor of None \<Rightarrow> True | Some c \<Rightarrow> c < for_node n)"

definition row_limit :: "nat \<Rightarrow> nat" where
  "row_limit requested = max 1 (min MAX_THREAD_PAGE_ROWS requested)"

text \<open>The depth to which a page shows replies, on natural numbers.\<close>

definition depth_limit_of :: "thread_node \<Rightarrow> u16 option \<Rightarrow> nat" where
  "depth_limit_of row d =
     (case d of None \<Rightarrow> 100 | Some d \<Rightarrow> min 65535 (unat (tn_depth row) + min (unat d) 100))"

text \<open>What a client collects that follows \<open>next_cursor\<close> until there is none.\<close>

inductive paging ::
  "thread_graph \<Rightarrow> nostr_event_id \<Rightarrow> nat \<Rightarrow> u16 option \<Rightarrow> thread_cursor option \<Rightarrow> thread_node list \<Rightarrow> bool"
  for g row limit d where
  last_page: "\<lbrakk>page g row cursor limit d = Inr (Some p); tp_next_cursor p = None\<rbrakk>
    \<Longrightarrow> paging g row limit d cursor (tp_replies p)"
| next_page: "\<lbrakk>page g row cursor limit d = Inr (Some p); tp_next_cursor p = Some c; paging g row limit d (Some c) rs\<rbrakk>
    \<Longrightarrow> paging g row limit d cursor (tp_replies p @ rs)"

lemma unat_saturating_add: "unat (saturating_add a b) = min (2 ^ LENGTH('w) - 1) (unat a + unat (b :: 'w::len word))"
proof -
  have "unat a + unat b < 2 ^ LENGTH('w) \<Longrightarrow> unat (a + b) = unat a + unat b"
    by (simp add: unat_add_lem)
  then show ?thesis
    by (auto simp: saturating_add_def checked_add_def unsigned_minus_1_eq_mask mask_eq_exp_minus_1)
qed

lemma sort_key_Nil_iff [simp]: "sort_key f xs = [] \<longleftrightarrow> xs = []"
  by (metis length_0_conv length_sort)

lemma filter_after_last:
  fixes f :: "'a \<Rightarrow> 'b::linorder"
  assumes "sorted_wrt (\<lambda>a b. f a < f b) zs" "zs = ws @ xs @ ys" "xs \<noteq> []"
  shows "filter (\<lambda>x. f (last xs) < f x) zs = ys"
proof -
  from assms(3) obtain us u where xs: "xs = us @ [u]" by (cases xs rule: rev_cases) auto
  with assms(1,2) have "\<forall>x \<in> set (ws @ xs). \<not> f u < f x" "\<forall>y \<in> set ys. f u < f y"
    by (auto simp: sorted_wrt_append not_less less_imp_le)
  with xs assms(2) show ?thesis by (simp add: filter_empty_conv filter_id_conv)
qed

lemma page_rows:
  assumes "map_of (tg_nodes g) row = Some n" "active_descendants g row = Some ds"
    and "rows = sort_key for_node (filter (\<lambda>m. unat (tn_depth m) \<le> depth_limit_of n d) ds)"
  shows "page g row cursor limit d =
    (let ys = filter (after_cursor cursor) rows; shown = take (row_limit limit) ys in
     Inr (Some \<lparr>tp_replies = shown, tp_has_more = row_limit limit < length ys,
       tp_next_cursor = (if row_limit limit < length ys then Some (for_node (last shown)) else None)\<rparr>))"
proof -
  have depth: "(case d of Some depth \<Rightarrow> saturating_add (tn_depth n) (min depth MAX_THREAD_DEPTH) | None \<Rightarrow> MAX_THREAD_DEPTH) \<ge> x
      \<longleftrightarrow> unat x \<le> depth_limit_of n d" for x
    by (cases d) (simp_all add: word_le_nat_alt depth_limit_of_def unat_saturating_add MAX_THREAD_DEPTH_def min_def)
  have "row_limit limit \<noteq> 0" by (simp add: row_limit_def)
  then show ?thesis
    using assms(1,2)
    by (auto simp: page_def require_node_def depth assms(3) filter_sort filter_filter after_cursor_def [abs_def]
        row_limit_def Let_def conj_commute)
qed

lemma strict_sort_key:
  fixes f :: "'a \<Rightarrow> 'b::linorder"
  assumes "distinct xs" "inj_on f (set xs)"
  shows "sorted_wrt (\<lambda>a b. f a < f b) (sort_key f xs)"
proof -
  have "sorted_wrt (<) (map f (sort_key f xs))"
    using assms by (simp add: strict_sorted_iff distinct_map)
  then show ?thesis by (simp add: sorted_wrt_map)
qed

text \<open>Paging through ascending rows from a cursor collects the rows after it.\<close>

lemma paging_collects:
  assumes row: "map_of (tg_nodes g) row = Some n" "active_descendants g row = Some ds"
    and rows: "rows = sort_key for_node (filter (\<lambda>m. unat (tn_depth m) \<le> depth_limit_of n d) ds)"
    and ascending: "sorted_wrt (\<lambda>a b. for_node a < for_node b) rows"
  shows "rows = before @ filter (after_cursor cursor) rows
    \<Longrightarrow> paging g row limit d cursor rs \<longleftrightarrow> rs = filter (after_cursor cursor) rows"
proof (induction "length (filter (after_cursor cursor) rows)" arbitrary: cursor before rs rule: less_induct)
  case less
  let ?ys = "filter (after_cursor cursor) rows" and ?k = "row_limit limit"
  note page = page_rows [OF row rows, of cursor limit, unfolded Let_def]
  show ?case
  proof (cases "?k < length ?ys")
    case False
    with page show ?thesis by (subst paging.simps) auto
  next
    case True
    let ?c = "for_node (last (take ?k ?ys))"
    have k: "take ?k ?ys \<noteq> []" using True by (auto simp: row_limit_def)
    have split: "rows = (before @ take ?k ?ys) @ drop ?k ?ys" using less.prems by simp
    then have "rows = before @ take ?k ?ys @ drop ?k ?ys" by (simp only: append_assoc)
    from filter_after_last [OF ascending this k] have rest: "filter (after_cursor (Some ?c)) rows = drop ?k ?ys"
      by (simp only: after_cursor_def [abs_def] option.case)
    moreover have "length (drop ?k ?ys) < length ?ys" using True by (simp add: row_limit_def) linarith
    ultimately have "paging g row limit d (Some ?c) rs' \<longleftrightarrow> rs' = drop ?k ?ys" for rs'
      using less.hyps [of "Some ?c" "before @ take ?k ?ys" rs'] split by (simp only: rest)
    with True page show ?thesis by (subst paging.simps) auto
  qed
qed

section \<open>Summaries\<close>

abbreviation author :: "thread_node \<Rightarrow> nostr_public_key" where
  "author n \<equiv> te_author (tn_event n)"

definition latest :: "thread_node list \<Rightarrow> nostr_public_key \<Rightarrow> thread_cursor" where
  "latest ns a = Max (for_node ` {n \<in> set ns. author n = a})"

lemma participants_fold:
  "ordered m \<Longrightarrow> ordered (fold (\<lambda>n. bt_entry (author n) (\<lambda>l. max l (for_node n)) (for_node n)) ns m)
   \<and> (\<forall>a. map_of (fold (\<lambda>n. bt_entry (author n) (\<lambda>l. max l (for_node n)) (for_node n)) ns m) a =
       (let S = set_option (map_of m a) \<union> for_node ` {n \<in> set ns. author n = a} in if S = {} then None else Some (Max S)))"
proof (induction ns arbitrary: m)
  case (Cons n ns)
  let ?m = "bt_entry (author n) (\<lambda>l. max l (for_node n)) (for_node n) m"
  let ?rest = "\<lambda>a. for_node ` {n \<in> set ns. author n = a}"
  have "ordered ?m" using Cons.prems by (simp add: bt_entry_def)
  note ih = Cons.IH [OF this]
  have "(let S = set_option (map_of ?m a) \<union> ?rest a in if S = {} then None else Some (Max S))
      = (let S = set_option (map_of m a) \<union> for_node ` {x \<in> set (n # ns). author x = a} in if S = {} then None else Some (Max S))" for a
  proof (cases "a = author n")
    case True
    have "{x \<in> set (n # ns). author x = a} = insert n {x \<in> set ns. author x = a}" using True by auto
    moreover have "Max (insert (max l c) S) = Max (insert l (insert c S))" if "finite S" for l c :: thread_cursor and S
      using that by (cases "S = {}") (simp_all add: max.assoc)
    ultimately show ?thesis using True by (cases "map_of m a") (simp_all add: bt_entry_def insert_commute)
  next
    case False
    then have "{x \<in> set (n # ns). author x = a} = {x \<in> set ns. author x = a}" by auto
    with False show ?thesis by (simp add: bt_entry_def)
  qed
  with ih show ?case by simp
qed (auto split: option.splits)

lemma participants:
  "ordered (participants_of ns)
   \<and> map_of (participants_of ns) a = (if a \<in> author ` set ns then Some (latest ns a) else None)"
  using participants_fold [of "[]" ns] by (auto simp: participants_of_def latest_def Let_def)

text \<open>Sorting the participants names the authors, each once, those who wrote last first.\<close>

lemma people_by_latest:
  assumes "inj_on for_node (set ds)"
  defines "people \<equiv> sort_key (\<lambda>(author, latest). (Reverse latest, author)) (participants_of ds)"
  shows "set (map fst people) = author ` set ds" and "sorted_wrt (\<lambda>a b. latest ds b < latest ds a) (map fst people)"
proof -
  let ?key = "\<lambda>(author, latest). (Reverse latest, author)"
  have ps: "(a, l) \<in> set (participants_of ds) \<longleftrightarrow> a \<in> author ` set ds \<and> l = latest ds a" for a l
  proof -
    have "(a, l) \<in> set (participants_of ds) \<longleftrightarrow> map_of (participants_of ds) a = Some l"
      using conjunct1 [OF participants [of ds a]] by (metis map_of_eq_Some_iff ordered_distinct)
    with participants [of ds a] show ?thesis by auto
  qed
  have "a \<in> fst ` set (participants_of ds) \<longleftrightarrow> (\<exists>l. (a, l) \<in> set (participants_of ds))" for a by (simp only: Domain_fst [symmetric] Domain_iff)
  then have "fst ` set (participants_of ds) = author ` set ds" unfolding ps by blast
  then show "set (map fst people) = author ` set ds" by (simp add: people_def)
  have latest_in: "latest ds a \<in> for_node ` {n \<in> set ds. author n = a}" if "a \<in> author ` set ds" for a
    unfolding latest_def using that by (intro Max_in) auto
  have inj: "author x = author y" if "x \<in> set ds" "y \<in> set ds" "latest ds (author x) = latest ds (author y)" for x y
    using latest_in [of "author x"] latest_in [of "author y"] that inj_onD [OF assms(1)] by fastforce
  have later: "latest ds (fst q) < latest ds (fst p)" if "p \<in> set people" "q \<in> set people" "?key p < ?key q" for p q
    using that ps by (auto simp: people_def less_prod_def' less_cursor_reverse_def less_eq_cursor_reverse_def dest: inj
        split: prod.splits)
  have "sorted_wrt (\<lambda>p q. ?key p < ?key q) people"
    unfolding people_def
  proof (rule strict_sort_key)
    show "distinct (participants_of ds)"
      using participants [of ds] by (metis distinct_map ordered_distinct)
  qed (auto simp: inj_on_def)
  then have "sorted_wrt (\<lambda>p q. latest ds (fst q) < latest ds (fst p)) people"
    by (rule sorted_wrt_mono_rel [rotated]) (rule later)
  then show "sorted_wrt (\<lambda>a b. latest ds b < latest ds a) (map fst people)" by (simp add: sorted_wrt_map)
qed

text \<open>The events that count below a row: the undeleted replies to it, direct or not.\<close>

definition below :: "thread_event list \<Rightarrow> nostr_event_id \<Rightarrow> thread_event set" where
  "below es row = {e \<in> set es. \<not> te_deleted e \<and> (reply_to (events_map es))\<^sup>+\<^sup>+ (te_event_id e) row}"

definition direct_replies :: "thread_event list \<Rightarrow> nostr_event_id \<Rightarrow> thread_event set" where
  "direct_replies es row = {e \<in> set es. \<not> te_deleted e \<and> parent_of e = Some row}"

definition event_cursor :: "thread_event \<Rightarrow> thread_cursor" where
  "event_cursor e = ThreadCursor (te_created_at e) (te_event_id e)"

lemma for_node_event: "for_node n = event_cursor (tn_event n)"
  by (simp add: for_node_def event_cursor_def)

lemma descendant_events:
  assumes "build es = Inr g"
  shows "\<exists>ds. active_descendants g row = Some ds \<and> distinct (map tn_event ds) \<and> set (map tn_event ds) = below es row
    \<and> (\<forall>n \<in> set ds. map_of (tg_nodes g) (te_event_id (tn_event n)) = Some n)"
proof -
  note g = build_sound [OF assms]
  from active_descendants_found [OF assms] obtain ds where ds: "active_descendants g row = Some ds" "distinct ds"
    and set: "set ds = {n. map_of (tg_nodes g) (te_event_id (tn_event n)) = Some n \<and> \<not> te_deleted (tn_event n)
                \<and> (reply_to (events_map es))\<^sup>+\<^sup>+ (te_event_id (tn_event n)) row}" by blast
  have "inj_on tn_event (set ds)" unfolding set by (rule inj_onI) (metis (mono_tags, lifting) mem_Collect_eq option.inject)
  moreover have "tn_event ` set ds = below es row"
  proof (intro set_eqI iffI)
    fix e assume "e \<in> below es row"
    with g obtain n where n: "map_of (tg_nodes g) (te_event_id e) = Some n" by (auto simp: below_def)
    with build_nodes [OF assms] g have "tn_event n \<in> set es \<and> te_event_id (tn_event n) = te_event_id e"
      by (auto simp: node_ok_def events_map_Some)
    with g \<open>e \<in> below es row\<close> have "tn_event n = e" by (auto simp: below_def distinct_map inj_on_def)
    with n \<open>e \<in> below es row\<close> show "e \<in> tn_event ` set ds" by (auto simp: set below_def)
  next
    fix e assume "e \<in> tn_event ` set ds"
    then obtain n where n: "n \<in> set ds" "e = tn_event n" by blast
    then have "map_of (tg_nodes g) (te_event_id e) = Some n" by (simp add: set)
    with build_nodes [OF assms] g have "tn_event n \<in> set es" by (auto simp: node_ok_def events_map_Some)
    with n show "e \<in> below es row" by (simp add: set below_def)
  qed
  ultimately show ?thesis using ds set by (intro exI [of _ ds]) (auto simp: distinct_map)
qed

lemma direct_reply_count:
  assumes "build es = Inr g"
  shows "length (filter (\<lambda>child. is_some_and (map_of (tg_nodes g) child) (\<lambda>node. \<not> te_deleted (tn_event node))) (children_of g row))
    = card (direct_replies es row)"
proof -
  note g = build_sound [OF assms]
  let ?alive = "\<lambda>child. is_some_and (map_of (tg_nodes g) child) (\<lambda>node. \<not> te_deleted (tn_event node))"
  have alive: "?alive child \<longleftrightarrow> (\<exists>e. events_map es child = Some e \<and> \<not> te_deleted e)" for child
  proof (cases "map_of (tg_nodes g) child")
    case None
    with g have "events_map es child = None"
      by (metis (no_types, lifting) events_map_Some not_None_eq)
    with None show ?thesis by simp
  next
    case (Some n)
    with build_nodes [OF assms, of child n] show ?thesis by (auto simp: node_ok_def)
  qed
  have "c \<in> set (filter ?alive (children_of g row)) \<longleftrightarrow>
      (\<exists>e. events_map es c = Some e \<and> \<not> te_deleted e \<and> parent_of e = Some row)" for c
    using child_reply_to [OF assms, of row] by (auto simp: alive child_def reply_to_def)
  then have "set (filter ?alive (children_of g row)) = te_event_id ` direct_replies es row"
    using g by (auto simp: events_map_Some direct_replies_def simp del: set_filter)
  moreover have "distinct (filter ?alive (children_of g row))" using g by (simp add: graph_ok_def)
  moreover have "inj_on te_event_id (direct_replies es row)"
    using g by (auto simp: direct_replies_def distinct_map inj_on_def)
  ultimately show ?thesis by (metis card_image distinct_card)
qed

section \<open>Properties\<close>

text \<open>C15. The loop over descendants ends, whatever the thread, and returns each event below the given one
  that is not deleted exactly once; those below a deleted reply are still found.\<close>

theorem descendants_complete:
  assumes "build es = Inr g"
  shows "\<exists>ds. active_descendants g i = Some ds \<and> distinct ds
    \<and> set ds = {n. map_of (tg_nodes g) (te_event_id (tn_event n)) = Some n \<and> \<not> te_deleted (tn_event n)
                \<and> (reply_to (events_map es))\<^sup>+\<^sup>+ (te_event_id (tn_event n)) i}"
  using assms by (rule active_descendants_found)

text \<open>C16. Paging loses nothing: a client that follows the cursors from page to page, with any limit, comes
  to an end and has then seen, each once and in the order of creation, exactly the undeleted events
  below the row down to the depth asked for; no page holds more than the limit, nor more than 200.\<close>

theorem paging_shows_every_reply:
  assumes "build es = Inr g" and "map_of (tg_nodes g) row = Some n"
  shows "\<exists>rs. (\<forall>xs. paging g row limit d None xs \<longleftrightarrow> xs = rs)
    \<and> sorted_wrt (\<lambda>a b. event_cursor a < event_cursor b) (map tn_event rs)
    \<and> set (map tn_event rs) =
        {e \<in> below es row. \<exists>root k. ancestry (events_map es) (te_event_id e) root k \<and> k \<le> depth_limit_of n d}
    \<and> (\<forall>cursor p. page g row cursor limit d = Inr (Some p) \<longrightarrow> length (tp_replies p) \<le> min 200 (max 1 limit))"
proof -
  from descendant_events [OF assms(1)] obtain ds where ds: "active_descendants g row = Some ds" "distinct (map tn_event ds)"
    "set (map tn_event ds) = below es row" and nodes: "\<forall>n \<in> set ds. map_of (tg_nodes g) (te_event_id (tn_event n)) = Some n" by blast
  define rs where "rs = sort_key for_node (filter (\<lambda>m. unat (tn_depth m) \<le> depth_limit_of n d) ds)"
  have "inj_on for_node (set ds)" using nodes by (intro inj_onI) (metis for_node_def option.inject thread_cursor.inject)
  moreover have "distinct ds" using ds(2) by (simp add: distinct_map)
  ultimately have asc: "sorted_wrt (\<lambda>a b. for_node a < for_node b) rs"
    unfolding rs_def by (intro strict_sort_key) (auto intro: inj_on_subset)
  have "filter (after_cursor None) rs = rs" by (simp add: after_cursor_def filter_id_conv)
  then have "paging g row limit d None xs \<longleftrightarrow> xs = rs" for xs
    using paging_collects [OF assms(2) ds(1) rs_def asc, of "[]" None limit xs] by simp
  moreover have "set (map tn_event rs) =
        {e \<in> below es row. \<exists>root k. ancestry (events_map es) (te_event_id e) root k \<and> k \<le> depth_limit_of n d}"
    (is "_ = {e \<in> _. ?shown e}")
  proof -
    have "unat (tn_depth m) \<le> depth_limit_of n d \<longleftrightarrow> ?shown (tn_event m)" if "m \<in> set ds" for m
      using nodes that build_nodes [OF assms(1)] by (metis ancestry_unique node_ok_def)
    then have "set rs = {m \<in> set ds. ?shown (tn_event m)}" unfolding rs_def set_sort set_filter by blast
    moreover have "tn_event ` {m \<in> set ds. P (tn_event m)} = {e \<in> tn_event ` set ds. P e}" for P by blast
    ultimately show ?thesis using ds(3) by simp
  qed
  moreover have "length (tp_replies p) \<le> min 200 (max 1 limit)" if "page g row cursor limit d = Inr (Some p)" for cursor p
    using that page_rows [OF assms(2) ds(1) rs_def, of cursor limit]
    by (auto simp: Let_def row_limit_def MAX_THREAD_PAGE_ROWS_def)
  ultimately show ?thesis using asc by (auto simp: for_node_event sorted_wrt_map)
qed

text \<open>A summary tells the truth: a row without undeleted direct replies has none, and otherwise it
  counts the direct replies and all replies below, gives the time of the newest, and names at most ten
  people who replied, those who replied last first, each once.\<close>

theorem thread_summary_faithful:
  assumes "build es = Inr g" and "map_of (tg_nodes g) row = Some n"
  shows "if direct_replies es row = {} then summary g row = Inr (Some None)
    else \<exists>s people. summary g row = Inr (Some (Some s))
      \<and> sm_reply_count s = word_of_nat (card (direct_replies es row))
      \<and> sm_descendant_count s = word_of_nat (card (below es row))
      \<and> sm_last_reply_at s = Some (Max (te_created_at ` below es row))
      \<and> sm_participants s = take 10 people \<and> set people = te_author ` below es row
      \<and> sorted_wrt (\<lambda>a b. Max (event_cursor ` {e \<in> below es row. te_author e = b})
                          < Max (event_cursor ` {e \<in> below es row. te_author e = a})) people"
proof -
  from descendant_events [OF assms(1)] obtain ds where ds: "active_descendants g row = Some ds" "distinct (map tn_event ds)"
    "set (map tn_event ds) = below es row" and nodes: "\<forall>n \<in> set ds. map_of (tg_nodes g) (te_event_id (tn_event n)) = Some n" by blast
  have inj: "inj_on for_node (set ds)" using nodes by (intro inj_onI) (metis for_node_def option.inject thread_cursor.inject)
  let ?people = "map fst (sort_key (\<lambda>(author, latest). (Reverse latest, author)) (participants_of ds))"
  have "reply_to (events_map es) (te_event_id e) row" if "e \<in> direct_replies es row" for e
    using that build_sound [OF assms(1)] by (auto simp: direct_replies_def reply_to_def events_map_Some)
  then have "direct_replies es row \<subseteq> below es row" by (auto simp: direct_replies_def below_def)
  then have ne: "direct_replies es row \<noteq> {} \<Longrightarrow> ds \<noteq> []" using ds(3) by auto
  have fin: "finite (direct_replies es row)" by (simp add: direct_replies_def)
  have "set ?people = te_author ` below es row"
    using people_by_latest [OF inj] by (simp flip: ds(3) add: image_image)
  moreover have "latest ds a = Max (event_cursor ` {e \<in> below es row. te_author e = a})" for a
  proof -
    have "{e \<in> below es row. te_author e = a} = tn_event ` {n \<in> set ds. author n = a}" using ds(3) by auto
    then show ?thesis by (simp add: latest_def for_node_event image_image)
  qed
  with people_by_latest [OF inj]
  have "sorted_wrt (\<lambda>a b. Max (event_cursor ` {e \<in> below es row. te_author e = b})
      < Max (event_cursor ` {e \<in> below es row. te_author e = a})) ?people" by simp
  moreover have "length ds = card (below es row)" using ds(2,3) by (metis distinct_card length_map)
  moreover have "te_created_at ` below es row = (\<lambda>n. te_created_at (tn_event n)) ` set ds"
    by (simp flip: ds(3) add: image_image)
  ultimately show ?thesis
    using assms(2) ds(1) ne fin exI [where x = ?people]
    by (auto simp: summary_def require_node_def direct_reply_count [OF assms(1)] last_reply_at_def
        MAX_THREAD_SUMMARY_PARTICIPANTS_def take_map [symmetric] Let_def)
qed

theorem descendants_complete_witness:
  "active_descendants sample_graph (NostrEventId 1) = Some [snd (tg_nodes sample_graph ! 1)]"
proof -
  obtain ds where ds: "active_descendants sample_graph (NostrEventId 1) = Some ds" "distinct ds"
    and set: "set ds = {n. map_of (tg_nodes sample_graph) (te_event_id (tn_event n)) = Some n \<and> \<not> te_deleted (tn_event n)
                \<and> (reply_to (events_map sample_thread))\<^sup>+\<^sup>+ (te_event_id (tn_event n)) (NostrEventId 1)}"
    using descendants_complete [OF sample_built] by blast
  let ?n = "snd (tg_nodes sample_graph ! 1)"
  have "reply_to (events_map sample_thread) (NostrEventId 2) (NostrEventId 1)"
    by (simp add: reply_to_def events_map_def sample_thread_def parent_of_def)
  then have "?n \<in> set ds" by (auto simp: set sample_graph_def sample_thread_def)
  moreover have "\<not> (reply_to (events_map sample_thread))\<^sup>+\<^sup>+ (NostrEventId 1) (NostrEventId 1)"
    by (auto simp: reply_to_def events_map_def sample_thread_def parent_of_def dest!: tranclpD)
  then have "n = ?n" if "n \<in> set ds" for n
    using that by (auto simp: set sample_graph_def split: if_splits)
  ultimately have "set ds = {?n}" by blast
  with ds(2) have "ds = [?n]" by (cases ds rule: remdups_adj.cases) auto
  with ds(1) show ?thesis by simp
qed

lemma sample_replies:
  "below sample_thread (NostrEventId 1) = {sample_thread ! 1}" "direct_replies sample_thread (NostrEventId 1) = {sample_thread ! 1}"
proof -
  have "reply_to (events_map sample_thread) (NostrEventId 2) (NostrEventId 1)"
    by (simp add: reply_to_def events_map_def sample_thread_def parent_of_def)
  moreover have "\<not> (reply_to (events_map sample_thread))\<^sup>+\<^sup>+ (NostrEventId 1) (NostrEventId 1)"
    by (auto simp: reply_to_def events_map_def sample_thread_def parent_of_def dest!: tranclpD)
  ultimately show "below sample_thread (NostrEventId 1) = {sample_thread ! 1}"
    by (auto simp: below_def sample_thread_def)
qed (auto simp: direct_replies_def sample_thread_def parent_of_def)

theorem paging_shows_every_reply_witness:
  "\<exists>r. paging sample_graph (NostrEventId 1) 1 None None [r] \<and> tn_event r = sample_thread ! 1"
proof -
  let ?n = "snd (tg_nodes sample_graph ! 0)"
  have "map_of (tg_nodes sample_graph) (NostrEventId 1) = Some ?n" by (simp add: sample_graph_def)
  from paging_shows_every_reply [OF sample_built this, of 1 None] obtain rs
    where rs: "paging sample_graph (NostrEventId 1) 1 None None rs"
      "sorted_wrt (\<lambda>a b. event_cursor a < event_cursor b) (map tn_event rs)"
      "set (map tn_event rs) = {e \<in> below sample_thread (NostrEventId 1).
         \<exists>root k. ancestry (events_map sample_thread) (te_event_id e) root k \<and> k \<le> depth_limit_of ?n None}"
    by blast
  have "ancestry (events_map sample_thread) (NostrEventId 2) (NostrEventId 1) 1"
    using build_nodes [OF sample_built, of "NostrEventId 2" "snd (tg_nodes sample_graph ! 1)"]
    by (simp add: node_ok_def sample_graph_def)
  moreover have "te_event_id (sample_thread ! 1) = NostrEventId 2" by (simp add: sample_thread_def)
  ultimately have "\<exists>root k. ancestry (events_map sample_thread) (te_event_id (sample_thread ! 1)) root k \<and> k \<le> depth_limit_of ?n None"
    by (auto simp: depth_limit_of_def intro!: exI [of _ "Suc 0"])
  then have "set (map tn_event rs) = {sample_thread ! 1}" unfolding rs(3) sample_replies by blast
  with rs(2) obtain r where "rs = [r]" "tn_event r = sample_thread ! 1"
    by (cases rs rule: remdups_adj.cases) auto
  with rs(1) show ?thesis by blast
qed

theorem thread_summary_faithful_witness:
  "\<exists>s. summary sample_graph (NostrEventId 1) = Inr (Some (Some s)) \<and> sm_reply_count s = 1 \<and> sm_descendant_count s = 1
     \<and> sm_last_reply_at s = Some 20"
proof -
  have "map_of (tg_nodes sample_graph) (NostrEventId 1) = Some (snd (tg_nodes sample_graph ! 0))"
    by (simp add: sample_graph_def)
  moreover have "te_created_at (sample_thread ! 1) = 20" by (simp add: sample_thread_def)
  ultimately show ?thesis
    using thread_summary_faithful [OF sample_built, of "NostrEventId 1"] by (auto simp: sample_replies)
qed

end
