(* ===== verification/AccessPolicy.thy ===== *)
theory AccessPolicy
  imports Authorization
begin

text \<open>
  The access policy of a community, stated without the decision procedure: who acts for whom, which rank an
  action takes, and the four ways to be entitled. The decision of \<open>authorization.rs\<close> allows a request exactly
  when one of them applies, and what it reports otherwise is a requirement that the request fails.
\<close>

section \<open>Entitlement\<close>

text \<open>A scoped token acts for its subject, everybody else for themselves.\<close>

inductive acts_for :: "authenticated_principal \<Rightarrow> principal_id \<Rightarrow> bool" where
  token: "pn_kind p = ScopedToken t s \<Longrightarrow> acts_for p s"
| in_person: "(\<And>t s. pn_kind p \<noteq> ScopedToken t s) \<Longrightarrow> acts_for p (pn_principal_id p)"

text \<open>Roles are ranked, and an action takes a rank.\<close>

fun needed_rank :: "authorization_action \<Rightarrow> nat" where
  "needed_rank Read = role_rank Guest"
| "needed_rank Write = role_rank Member"
| "needed_rank Manage = role_rank Admin"
| "needed_rank Delete = role_rank Owner"

text \<open>A grant is live when it is not revoked, covers the present time and was made against the present
  version of the membership.\<close>

definition live_grant :: "authorization_request \<Rightarrow> delegation_grant \<Rightarrow> bool" where
  "live_grant r d \<longleftrightarrow> \<not> dg_revoked d \<and> unat (rq_now_millis r) \<le> unat (dg_expires_at_millis d)
     \<and> dg_membership_version d = rq_current_membership_version r"

text \<open>Whose memberships a request shows, and that they are current and active.\<close>

definition standing :: "authorization_request \<Rightarrow> principal_id \<Rightarrow> membership_role \<Rightarrow> bool" where
  "standing r s role \<longleftrightarrow>
     rq_community_membership r =
       Some \<lparr>cm_community_id = tc_community_id (rq_tenant r), cm_principal_id = s, cm_role = role,
             cm_status = MemberActive, cm_version = rq_current_membership_version r\<rparr>"

definition channel_standing :: "authorization_request \<Rightarrow> aggregate_id \<Rightarrow> principal_id \<Rightarrow> membership_role \<Rightarrow> bool" where
  "channel_standing r channel s role \<longleftrightarrow>
     (\<exists>v. rq_current_channel_membership_version r = Some v
        \<and> rq_channel_membership r =
            Some \<lparr>hm_community_id = tc_community_id (rq_tenant r), hm_channel_id = channel, hm_principal_id = s,
                  hm_role = role, hm_status = MemberActive, hm_version = v\<rparr>)"

text \<open>The four ways: by a grant to the principal for this action on this resource, by a role in the channel of
  the resource, by owning a resource outside of channels other than the community and its administration,
  and by a role in the community.\<close>

inductive entitled :: "authorization_request \<Rightarrow> bool" where
  by_grant: "\<lbrakk>rq_delegation r = Some d; live_grant r d; dg_delegate_principal_id d = pn_principal_id (rq_principal r);
     dg_community_id d = tc_community_id (rq_tenant r); dg_resource_id d = rs_resource_id (rq_resource r);
     dg_action d = rq_action r\<rbrakk> \<Longrightarrow> entitled r"
| by_channel_role: "\<lbrakk>acts_for (rq_principal r) s; rs_channel_id (rq_resource r) = Some channel; standing r s any_role;
     channel_standing r channel s role; needed_rank (rq_action r) \<le> role_rank role\<rbrakk> \<Longrightarrow> entitled r"
| by_ownership: "\<lbrakk>acts_for (rq_principal r) s; rs_channel_id (rq_resource r) = None; standing r s any_role;
     rs_owner_principal_id (rq_resource r) = Some s;
     rs_kind (rq_resource r) \<noteq> CommunityResource; rs_kind (rq_resource r) \<noteq> AdministrationResource\<rbrakk> \<Longrightarrow> entitled r"
| by_role: "\<lbrakk>acts_for (rq_principal r) s; rs_channel_id (rq_resource r) = None; standing r s role;
     needed_rank (rq_action r) \<le> role_rank role\<rbrakk> \<Longrightarrow> entitled r"

text \<open>A request stays within its tenant and its principal's scopes; a channel is named by itself.\<close>

definition within_bounds :: "authorization_request \<Rightarrow> bool" where
  "within_bounds r \<longleftrightarrow>
     {pn_community_id (rq_principal r), rs_community_id (rq_resource r)} = {tc_community_id (rq_tenant r)}
     \<and> rq_required_scope r \<in> pn_scopes (rq_principal r)
     \<and> (rs_kind (rq_resource r) = ChannelResource \<longrightarrow> rs_channel_id (rq_resource r) \<noteq> None)"

section \<open>Reasons\<close>

text \<open>What a denial says about the request.\<close>

fun reason :: "authorization_denial \<Rightarrow> authorization_request \<Rightarrow> bool" where
  "reason TenantMismatch r \<longleftrightarrow>
     {pn_community_id (rq_principal r), rs_community_id (rq_resource r)} \<noteq> {tc_community_id (rq_tenant r)}
     \<or> (\<exists>m. rq_community_membership r = Some m
          \<and> (cm_community_id m \<noteq> tc_community_id (rq_tenant r) \<or> \<not> acts_for (rq_principal r) (cm_principal_id m)))
     \<or> (\<exists>m. rq_channel_membership r = Some m
          \<and> (hm_community_id m \<noteq> tc_community_id (rq_tenant r) \<or> \<not> acts_for (rq_principal r) (hm_principal_id m)
             \<or> rs_channel_id (rq_resource r) \<noteq> Some (hm_channel_id m)))"
| "reason MissingScope r \<longleftrightarrow> rq_required_scope r \<notin> pn_scopes (rq_principal r)"
| "reason MissingMembership r \<longleftrightarrow> rq_community_membership r = None"
| "reason InactiveMembership r \<longleftrightarrow> (\<exists>m. rq_community_membership r = Some m \<and> cm_status m \<in> {MemberRevoked, MemberArchived})"
| "reason StaleMembership r \<longleftrightarrow> (\<exists>m. rq_community_membership r = Some m \<and> cm_version m \<noteq> rq_current_membership_version r)"
| "reason MissingChannelMembership r \<longleftrightarrow>
     rs_channel_id (rq_resource r) = None \<and> rs_kind (rq_resource r) = ChannelResource
     \<or> rs_channel_id (rq_resource r) \<noteq> None \<and> rq_channel_membership r = None"
| "reason InactiveChannelMembership r \<longleftrightarrow> (\<exists>m. rq_channel_membership r = Some m \<and> hm_status m \<in> {MemberRevoked, MemberArchived})"
| "reason StaleChannelMembership r \<longleftrightarrow>
     (\<exists>m. rq_channel_membership r = Some m \<and> rq_current_channel_membership_version r \<noteq> Some (hm_version m))"
| "reason InsufficientRole r \<longleftrightarrow>
     (case rs_channel_id (rq_resource r) of
        None \<Rightarrow> \<exists>m. rq_community_membership r = Some m \<and> role_rank (cm_role m) < needed_rank (rq_action r)
      | Some channel \<Rightarrow> \<exists>m. rq_channel_membership r = Some m \<and> hm_channel_id m = channel \<and> role_rank (hm_role m) < needed_rank (rq_action r))"

section \<open>The decision implements the policy\<close>

lemma permits_rank: "permits role action \<longleftrightarrow> needed_rank action \<le> role_rank role"
  by (cases role; cases action) simp_all

lemma acts_for_subject: "acts_for p s \<longleftrightarrow> s = authorization_subject p"
  by (cases "pn_kind p") (auto simp: acts_for.simps authorization_subject_def)

lemma standing_in_force: "standing r (request_subject r) role \<longleftrightarrow> (\<exists>m. member_in_force r m \<and> cm_role m = role)"
  by (auto simp: standing_def member_in_force_def)

lemma some_standing: "Ex (standing r (request_subject r)) \<longleftrightarrow> (\<exists>m. member_in_force r m)"
  using standing_in_force by blast

lemma channel_standing_in_force:
  "channel_standing r channel (request_subject r) role \<longleftrightarrow> (\<exists>m. channel_member_in_force r channel m \<and> hm_role m = role)"
  by (auto simp: channel_standing_def channel_member_in_force_def)

lemma grant_permits:
  "delegation_permits r \<longleftrightarrow> (\<exists>d. rq_delegation r = Some d \<and> live_grant r d
     \<and> dg_delegate_principal_id d = pn_principal_id (rq_principal r) \<and> dg_community_id d = tc_community_id (rq_tenant r)
     \<and> dg_resource_id d = rs_resource_id (rq_resource r) \<and> dg_action d = rq_action r)"
  by (auto simp: delegation_permits_def live_grant_def word_le_nat_alt split: option.splits)

lemma entitled_iff:
  "entitled r \<longleftrightarrow> delegation_permits r
     \<or> (\<exists>m. member_in_force r m
          \<and> (case rs_channel_id (rq_resource r) of
               Some channel \<Rightarrow> \<exists>c. channel_member_in_force r channel c \<and> permits (hm_role c) (rq_action r)
             | None \<Rightarrow> rs_kind (rq_resource r) \<notin> {CommunityResource, AdministrationResource}
                 \<and> rs_owner_principal_id (rq_resource r) = Some (request_subject r)
               \<or> permits (cm_role m) (rq_action r)))"
  unfolding entitled.simps acts_for_subject request_subject_def [symmetric] permits_rank
  by (cases "rs_channel_id (rq_resource r)")
    (auto simp: some_standing standing_in_force channel_standing_in_force grant_permits)

lemma authorize_entitled: "authorize r = Allowed \<longleftrightarrow> within_bounds r \<and> entitled r"
  by (auto simp: authorize_iff authorized_def entitled_iff within_bounds_def same_tenant_def)

lemma status_cases: "s \<noteq> MemberActive \<longleftrightarrow> s \<in> {MemberRevoked, MemberArchived}"
  by (cases s) simp_all

lemma denied_reason: "authorize r = Denied d \<Longrightarrow> reason d r"
  by (auto simp: authorize_def role_decision_def permits_rank acts_for_subject Let_def not_le
      split: if_splits option.splits dest: status_cases [THEN iffD1])

end
