(* ===== verification/TreeParallel.thy ===== *)
theory TreeParallel
  imports SumTree
begin

text \<open>
  The parallel constructors of sum trees (\<open>from_par_iter\<close> and \<open>par_extend\<close> of \<open>sum_tree.rs\<close>). The
  chunks are independent of one another and collected in order, so the parallel map is the map of
  lists; the tree is again one of exactly the items.
\<close>

section \<open>The constructors\<close>

text \<open>One level: full parents, the last one possibly shorter.\<close>

definition parent_of_chunk :: "('t, 's) summary_ops \<Rightarrow> nat \<Rightarrow> ('t, 's) sum_tree list \<Rightarrow> ('t, 's) sum_tree" where
  "parent_of_chunk ops h cts =
     (let ss = map summary cts
      in Internal h (foldl (so_add ops) (hd ss) (tl ss)) ss cts)"

function par_parents :: "('t, 's) summary_ops \<Rightarrow> nat \<Rightarrow> ('t, 's) sum_tree list \<Rightarrow> ('t, 's) sum_tree list" where
  "par_parents ops h nodes =
     (if nodes = [] then []
      else parent_of_chunk ops h (take (2 * TREE_BASE) nodes) # par_parents ops h (drop (2 * TREE_BASE) nodes))"
  by pat_completeness auto
termination
  by (relation "measure (\<lambda>(ops, h, nodes). length nodes)") (auto simp: TREE_BASE_def)

declare par_parents.simps [simp del]

lemma fewer_parents: "1 < n \<Longrightarrow> (n + 11) div 12 < (n :: nat)"
  by (rule less_mult_imp_div_less) simp

lemma one_more_chunk:
  assumes "0 < n"
  shows "1 + (n - 12 + 11) div 12 \<le> (n + 11) div (12 :: nat)"
proof (cases "12 \<le> n")
  case True
  then have "n + 11 = (n - 12 + 11) + 12" by simp
  then show ?thesis by (simp only: div_add_self2)
next
  case False
  then have "n - 12 + 11 = 11" by simp
  moreover have "12 div 12 \<le> (n + 11) div 12" using assms by (intro div_le_mono) simp
  ultimately show ?thesis by simp
qed

lemma length_par_parents: "length (par_parents ops h nodes) \<le> (length nodes + 11) div 12"
proof (induction "length nodes" arbitrary: nodes rule: less_induct)
  case less
  show ?case
  proof (cases "nodes = []")
    case False
    with less [of "drop 12 nodes"] have "length (par_parents ops h (drop 12 nodes)) \<le> (length nodes - 12 + 11) div 12"
      by simp
    moreover have "1 + (length nodes - 12 + 11) div 12 \<le> (length nodes + 11) div 12" using False by (intro one_more_chunk) simp
    ultimately show ?thesis using False by (simp add: par_parents.simps [of ops h nodes] TREE_BASE_def)
  qed (simp add: par_parents.simps)
qed

function par_levels :: "('t, 's) summary_ops \<Rightarrow> nat \<Rightarrow> ('t, 's) sum_tree list \<Rightarrow> ('t, 's) sum_tree list" where
  "par_levels ops h nodes =
     (if length nodes > 1 then par_levels ops (h + 1) (par_parents ops (h + 1) nodes) else nodes)"
  by pat_completeness auto
termination
proof (relation "measure (\<lambda>(ops, h, nodes). length nodes)")
  fix ops :: "('t, 's) summary_ops" and h and nodes :: "('t, 's) sum_tree list"
  assume "length nodes > 1"
  moreover from this have "(length nodes + 11) div 12 < length nodes" by (rule fewer_parents)
  ultimately show "((ops, h + 1, par_parents ops (h + 1) nodes), ops, h, nodes) \<in> measure (\<lambda>(ops, h, nodes). length nodes)"
    using length_par_parents [of ops "h + 1" nodes] by simp
qed simp

declare par_levels.simps [simp del]

definition from_par_iter :: "('t, 's) summary_ops \<Rightarrow> 't list \<Rightarrow> ('t, 's) sum_tree" where
  "from_par_iter ops xs =
     (let nodes = par_levels ops 0 (leaf_nodes ops xs)
      in if nodes = [] then tree_new ops else last nodes)"

definition par_extend :: "('t, 's) summary_ops \<Rightarrow> ('t, 's) sum_tree \<Rightarrow> 't list \<Rightarrow> ('t, 's) sum_tree option" where
  "par_extend ops self xs = append_tree ops self (from_par_iter ops xs)"

section \<open>They build the tree of the items\<close>

context summary_laws
begin

lemma parent_of_chunk_ok:
  assumes "list_all (\<lambda>t. node_ok ops t \<and> h = height t + 1) ts" "ts \<noteq> []" "length ts \<le> 2 * TREE_BASE"
  shows "node_ok ops (parent_of_chunk ops h ts)" "height (parent_of_chunk ops h ts) = h"
    "tree_items (parent_of_chunk ops h ts) = concat (map tree_items ts)"
  using assms by (simp_all add: parent_of_chunk_def Let_def sum_hd)

lemma par_parents_ok:
  "list_all (\<lambda>t. node_ok ops t \<and> h = height t + 1) nodes \<Longrightarrow>
   list_all (\<lambda>t. node_ok ops t \<and> height t = h) (par_parents ops h nodes)
   \<and> concat (map tree_items (par_parents ops h nodes)) = concat (map tree_items nodes)"
proof (induction "length nodes" arbitrary: nodes rule: less_induct)
  case less
  show ?case
  proof (cases "nodes = []")
    case False
    let ?c = "take (2 * TREE_BASE) nodes" and ?r = "drop (2 * TREE_BASE) nodes"
    have all: "list_all (\<lambda>t. node_ok ops t \<and> h = height t + 1) ?c" "list_all (\<lambda>t. node_ok ops t \<and> h = height t + 1) ?r"
      using less.prems by (auto simp: list_all_iff dest: in_set_takeD in_set_dropD)
    have "length ?r < length nodes" using False by (simp add: TREE_BASE_def)
    from less.hyps [OF this all(2)] parent_of_chunk_ok [OF all(1)] False show ?thesis
      by (simp add: par_parents.simps [of ops h nodes] TREE_BASE_def flip: concat_append map_append)
  qed (simp add: par_parents.simps)
qed

lemma par_levels_ok:
  "list_all (\<lambda>t. node_ok ops t \<and> height t = h) nodes \<Longrightarrow>
   length (par_levels ops h nodes) \<le> 1 \<and> list_all (node_ok ops) (par_levels ops h nodes)
   \<and> concat (map tree_items (par_levels ops h nodes)) = concat (map tree_items nodes)"
proof (induction "length nodes" arbitrary: h nodes rule: less_induct)
  case less
  show ?case
  proof (cases "length nodes > 1")
    case True
    have "list_all (\<lambda>t. node_ok ops t \<and> h + 1 = height t + 1) nodes" using less.prems by (simp add: list_all_iff)
    note parents = par_parents_ok [OF this]
    from True have "(length nodes + 11) div 12 < length nodes" by (rule fewer_parents)
    then have "length (par_parents ops (h + 1) nodes) < length nodes"
      using length_par_parents [of ops "h + 1" nodes] by simp
    from less.hyps [OF this conjunct1 [OF parents]] parents True show ?thesis
      by (simp add: par_levels.simps [of ops h nodes])
  next
    case False
    with less.prems show ?thesis by (simp add: par_levels.simps list_all_iff)
  qed
qed

lemma from_par_iter_refines: "tree_ok ops (from_par_iter ops xs) \<and> tree_items (from_par_iter ops xs) = xs"
proof -
  let ?ps = "par_levels ops 0 (leaf_nodes ops xs)"
  from par_levels_ok [of 0 "leaf_nodes ops xs"] leaf_nodes_ok [of xs]
  have "length ?ps \<le> 1" "list_all (node_ok ops) ?ps" "concat (map tree_items ?ps) = xs" by simp_all
  then show ?thesis by (cases ?ps) (auto simp: from_par_iter_def tree_ok_def tree_new_def)
qed

lemma par_extend_refines:
  "tree_ok ops t \<Longrightarrow> \<exists>u. par_extend ops t xs = Some u \<and> tree_ok ops u \<and> tree_items u = tree_items t @ xs"
  using append_tree_refines [of t "from_par_iter ops xs"] from_par_iter_refines [of xs] by (simp add: par_extend_def)

end

end
