(* ===== verification/Fragment.thy ===== *)
theory Fragment
  imports UndoMap TreeMap TreeParallel Locator "HOL-Library.Product_Lexorder"
begin

text \<open>
  The fragments of a text buffer (\<open>text/src/text.rs\<close>): pieces of inserted text, visible or deleted,
  in a sum tree that measures them in visible and deleted bytes; the index of fragments by insertion,
  and the slices of insertions that an edit touched. Lengths and offsets that the code holds in 32
  bits are natural numbers; narrowing and adding say what happens beyond that width.
\<close>

section \<open>Version vectors in summaries\<close>

text \<open>The vectors that the operations of \<open>clock::Global\<close> build have no trailing zeros; on them joining
  and meeting are associative, and the empty vector is neutral for both.\<close>

lemma vector_eqI:
  assumes "vector_ok a" "vector_ok b" "\<And>i. entry a i = entry b i"
  shows "a = b"
proof (rule global_eqI [OF _ assms(3)])
  have "length x \<le> length y" if "vector_ok x" "\<And>i. entry x i = entry y i" for x y
  proof (rule ccontr)
    assume "\<not> length x \<le> length y"
    then have "entry y (length x - 1) = 0" "0 < length x" by (auto simp: entry_def)
    with that show False by (auto simp: vector_ok_def)
  qed
  with assms show "length a = length b" by (simp add: antisym)
qed

typedef version_vector = "{g :: global. vector_ok g}"
  morphisms vector_of Version
  by (rule exI [of _ "[]"]) simp

setup_lifting type_definition_version_vector

instantiation version_vector :: equal
begin

definition equal_version_vector :: "version_vector \<Rightarrow> version_vector \<Rightarrow> bool" where
  "equal_version_vector a b \<longleftrightarrow> vector_of a = vector_of b"

instance
  by standard (simp add: equal_version_vector_def vector_of_inject)

end

lift_definition vv_new :: version_vector is global_new by (simp add: global_new_def)
lift_definition vv_observe :: "version_vector \<Rightarrow> lamport \<Rightarrow> version_vector" is global_observe by (rule vector_ok_observe)
lift_definition vv_join :: "version_vector \<Rightarrow> version_vector \<Rightarrow> version_vector" is join by (rule vector_ok_join)
lift_definition vv_meet :: "version_vector \<Rightarrow> version_vector \<Rightarrow> version_vector" is meet by (rule vector_ok_meet)

lemma meet_entry_assoc: "meet_entry (meet_entry a b) c = meet_entry a (meet_entry b c)"
  by (auto simp: meet_entry_def min.assoc min_def)

lemma vv_join_laws: "vv_join (vv_join a b) c = vv_join a (vv_join b c)" "vv_join vv_new a = a"
proof -
  show "vv_join (vv_join a b) c = vv_join a (vv_join b c)"
    by transfer (rule vector_eqI, simp_all add: vector_ok_join entry_join max.assoc)
  show "vv_join vv_new a = a"
    by transfer (rule vector_eqI, simp_all add: vector_ok_join entry_join global_new_def)
qed

lemma vv_meet_laws: "vv_meet (vv_meet a b) c = vv_meet a (vv_meet b c)" "vv_meet vv_new a = a"
proof -
  show "vv_meet (vv_meet a b) c = vv_meet a (vv_meet b c)"
    by transfer (rule vector_eqI, simp_all add: vector_ok_meet entry_meet meet_entry_assoc)
  show "vv_meet vv_new a = a"
    by transfer (rule vector_eqI, simp_all add: vector_ok_meet entry_meet global_new_def, simp add: meet_entry_def)
qed

section \<open>Fragments and their summaries\<close>

record fragment =
  fr_id :: locator
  fr_timestamp :: lamport
  fr_insertion_offset :: nat
  fr_len :: nat
  fr_visible :: bool
  fr_deletions :: "lamport list"
  fr_max_undos :: version_vector

record fragment_text_summary =
  ft_visible :: nat
  ft_deleted :: nat

record fragment_summary =
  fs_text :: fragment_text_summary
  fs_max_id :: locator
  fs_max_version :: version_vector
  fs_min_insertion_version :: version_vector
  fs_max_insertion_version :: version_vector

definition text_zero :: fragment_text_summary where
  "text_zero = \<lparr>ft_visible = 0, ft_deleted = 0\<rparr>"

definition text_add :: "fragment_text_summary \<Rightarrow> fragment_text_summary \<Rightarrow> fragment_text_summary" where
  "text_add a b = \<lparr>ft_visible = ft_visible a + ft_visible b, ft_deleted = ft_deleted a + ft_deleted b\<rparr>"

definition fragment_summary_zero :: fragment_summary where
  "fragment_summary_zero =
     \<lparr>fs_text = text_zero, fs_max_id = locator_min, fs_max_version = vv_new,
      fs_min_insertion_version = vv_new, fs_max_insertion_version = vv_new\<rparr>"

definition fragment_summary_add :: "fragment_summary \<Rightarrow> fragment_summary \<Rightarrow> fragment_summary" where
  "fragment_summary_add self other =
     \<lparr>fs_text = text_add (fs_text self) (fs_text other), fs_max_id = fs_max_id other,
      fs_max_version = vv_join (fs_max_version self) (fs_max_version other),
      fs_min_insertion_version = vv_meet (fs_min_insertion_version self) (fs_min_insertion_version other),
      fs_max_insertion_version = vv_join (fs_max_insertion_version self) (fs_max_insertion_version other)\<rparr>"

definition fragment_summary_of :: "fragment \<Rightarrow> fragment_summary" where
  "fragment_summary_of self =
     (let max_version = vv_join (fold (\<lambda>d v. vv_observe v d) (fr_deletions self) (vv_observe vv_new (fr_timestamp self)))
            (fr_max_undos self);
          insertion_version = vv_observe vv_new (fr_timestamp self) in
      \<lparr>fs_text = (if fr_visible self then \<lparr>ft_visible = fr_len self, ft_deleted = 0\<rparr>
                  else \<lparr>ft_visible = 0, ft_deleted = fr_len self\<rparr>),
       fs_max_id = fr_id self, fs_max_version = max_version,
       fs_min_insertion_version = insertion_version, fs_max_insertion_version = insertion_version\<rparr>)"

definition fragment_ops :: "(fragment, fragment_summary) summary_ops" where
  "fragment_ops = \<lparr>so_zero = fragment_summary_zero, so_add = fragment_summary_add, so_summary = fragment_summary_of\<rparr>"

text \<open>The dimension of a cursor that counts visible and deleted bytes; an offset is compared with the
  visible ones.\<close>

definition text_dim :: "(fragment_summary, fragment_text_summary) dimension_ops" where
  "text_dim = \<lparr>dm_zero = text_zero, dm_add = (\<lambda>d s. text_add d (fs_text s))\<rparr>"

definition visible_target :: "nat \<Rightarrow> fragment_text_summary \<Rightarrow> ordering" where
  "visible_target offset position = cmp offset (ft_visible position)"

lemma text_laws [simp]:
  "text_add (text_add a b) c = text_add a (text_add b c)" "text_add text_zero a = a" "text_add a text_zero = a"
  by (simp_all add: text_add_def text_zero_def)

interpretation fragments: dimension_laws fragment_ops text_dim
  by unfold_locales
    (simp_all add: fragment_ops_def text_dim_def fragment_summary_add_def fragment_summary_zero_def vv_join_laws vv_meet_laws)

section \<open>Fragments by insertion\<close>

datatype insertion_fragment_key = InsertionFragmentKey (ik_timestamp: lamport) (ik_split_offset: nat)

text \<open>The derived order: by timestamp, then by offset.\<close>

instantiation insertion_fragment_key :: linorder
begin

definition less_eq_insertion_fragment_key :: "insertion_fragment_key \<Rightarrow> insertion_fragment_key \<Rightarrow> bool" where
  "less_eq_insertion_fragment_key a b \<longleftrightarrow>
     ik_timestamp a < ik_timestamp b \<or> ik_timestamp a = ik_timestamp b \<and> ik_split_offset a \<le> ik_split_offset b"

definition less_insertion_fragment_key :: "insertion_fragment_key \<Rightarrow> insertion_fragment_key \<Rightarrow> bool" where
  "less_insertion_fragment_key a b \<longleftrightarrow>
     ik_timestamp a < ik_timestamp b \<or> ik_timestamp a = ik_timestamp b \<and> ik_split_offset a < ik_split_offset b"

instance
  by standard (auto simp: less_eq_insertion_fragment_key_def less_insertion_fragment_key_def insertion_fragment_key.expand)

end

record insertion_fragment =
  if_timestamp :: lamport
  if_split_offset :: nat
  if_fragment_id :: locator

definition insertion_key :: "insertion_fragment \<Rightarrow> insertion_fragment_key" where
  "insertion_key self = InsertionFragmentKey (if_timestamp self) (if_split_offset self)"

definition insertion_key_zero :: insertion_fragment_key where
  "insertion_key_zero = InsertionFragmentKey lamport_MIN 0"

text \<open>\<open>add_summary\<close> overwrites.\<close>

definition insertion_ops :: "(insertion_fragment, insertion_fragment_key) summary_ops" where
  "insertion_ops = \<lparr>so_zero = insertion_key_zero, so_add = (\<lambda>_ s. s), so_summary = insertion_key\<rparr>"

definition insertion_dim :: "(insertion_fragment_key, insertion_fragment_key) dimension_ops" where
  "insertion_dim = \<lparr>dm_zero = insertion_key_zero, dm_add = (\<lambda>_ s. s)\<rparr>"

definition insertion_fragment_new :: "fragment \<Rightarrow> insertion_fragment" where
  "insertion_fragment_new f =
     \<lparr>if_timestamp = fr_timestamp f, if_split_offset = fr_insertion_offset f, if_fragment_id = fr_id f\<rparr>"

definition insert_new :: "fragment \<Rightarrow> (insertion_fragment, insertion_fragment_key) tree_edit" where
  "insert_new f = Insert (insertion_fragment_new f)"

interpretation insertions: keyed_laws insertion_ops insertion_dim insertion_key
  by unfold_locales
    (auto simp: insertion_ops_def insertion_dim_def insertion_key_zero_def less_eq_insertion_fragment_key_def
      order_le_less [symmetric])

section \<open>Slices of insertions\<close>

datatype insertion_slice =
  InsertionSlice (is_edit_id: lamport) (is_insertion_id: lamport) (is_start: nat) (is_end: nat)

text \<open>\<open>Ord::cmp\<close>: by edit, insertion, start and end.\<close>

definition slice_rank :: "insertion_slice \<Rightarrow> lamport \<times> lamport \<times> nat \<times> nat" where
  "slice_rank s = (is_edit_id s, is_insertion_id s, is_start s, is_end s)"

lemma slice_rank_inject: "slice_rank a = slice_rank b \<longleftrightarrow> a = b"
  by (cases a; cases b) (simp add: slice_rank_def)

instantiation insertion_slice :: linorder
begin

definition less_eq_insertion_slice :: "insertion_slice \<Rightarrow> insertion_slice \<Rightarrow> bool" where
  "less_eq_insertion_slice a b \<longleftrightarrow> slice_rank a \<le> slice_rank b"

definition less_insertion_slice :: "insertion_slice \<Rightarrow> insertion_slice \<Rightarrow> bool" where
  "less_insertion_slice a b \<longleftrightarrow> slice_rank a < slice_rank b"

instance
proof
  fix a b c :: insertion_slice
  show "a < b \<longleftrightarrow> a \<le> b \<and> \<not> b \<le> a"
    unfolding less_eq_insertion_slice_def less_insertion_slice_def by (rule less_le_not_le)
  show "a \<le> a" unfolding less_eq_insertion_slice_def by (rule order_refl)
  show "a \<le> b \<Longrightarrow> b \<le> c \<Longrightarrow> a \<le> c" unfolding less_eq_insertion_slice_def by (rule order_trans)
  show "a \<le> b \<Longrightarrow> b \<le> a \<Longrightarrow> a = b"
    unfolding less_eq_insertion_slice_def slice_rank_inject [symmetric] by (rule antisym)
  show "a \<le> b \<or> b \<le> a" unfolding less_eq_insertion_slice_def by (rule linear)
qed

end

text \<open>Addition of 32-bit numbers, which panics beyond their width.\<close>

definition add_u32 :: "nat \<Rightarrow> nat \<Rightarrow> nat option" where
  "add_u32 a b = (if a + b < 2 ^ 32 then Some (a + b) else None)"

text \<open>The cast \<open>as u32\<close> truncates.\<close>

definition as_u32 :: "nat \<Rightarrow> nat" where
  "as_u32 n = n mod 2 ^ 32"

definition slice_from_fragment :: "lamport \<Rightarrow> fragment \<Rightarrow> insertion_slice option" where
  "slice_from_fragment edit_id f = do {
     end_offset \<leftarrow> add_u32 (fr_insertion_offset f) (fr_len f);
     Some (InsertionSlice edit_id (fr_timestamp f) (fr_insertion_offset f) end_offset)
   }"

end
