(* ===== verification/Buffer.thy ===== *)
theory Buffer
  imports Fragment Patch
begin

text \<open>
  Local edits of a text buffer (\<open>text/src/text.rs\<close>): the builders of the new fragments and texts, and
  \<open>apply_edit_internal\<close>, which walks the fragments with a cursor, splits them at the ends of the edited
  ranges, inserts fragments for the new text and marks the replaced ones as deleted. A rope is the
  list of its bytes; slicing it panics outside its range. A panic is \<open>None\<close>.
\<close>

section \<open>Texts\<close>

type_synonym rope = "8 word list"

record rope_cursor =
  rc_rope :: rope
  rc_offset :: nat

definition rope_cursor_slice :: "nat \<Rightarrow> rope_cursor \<Rightarrow> (rope \<times> rope_cursor) option" where
  "rope_cursor_slice end_offset self =
     (if rc_offset self \<le> end_offset \<and> end_offset \<le> length (rc_rope self)
      then Some (take (end_offset - rc_offset self) (drop (rc_offset self) (rc_rope self)), self\<lparr>rc_offset := end_offset\<rparr>)
      else None)"

definition rope_cursor_suffix :: "rope_cursor \<Rightarrow> rope option" where
  "rope_cursor_suffix self = map_option fst (rope_cursor_slice (length (rc_rope self)) self)"

text \<open>\<open>LineEnding::normalize_arc\<close>: the separators CR LF and CR become LF.\<close>

fun normalize :: "rope \<Rightarrow> rope" where
  "normalize (b # c # bs) =
     (if b = 13 \<and> c = 10 then 10 # normalize bs
      else if b = 13 then 10 # normalize (c # bs)
      else b # normalize (c # bs))"
| "normalize [b] = (if b = 13 then [10] else [b])"
| "normalize [] = []"

text \<open>\<open>str::floor_char_boundary\<close>; the bytes 128 to 191 continue a character.\<close>

definition is_char_boundary :: "rope \<Rightarrow> nat \<Rightarrow> bool" where
  "is_char_boundary bs i \<longleftrightarrow> i = 0 \<or> i = length bs \<or> i < length bs \<and> \<not> (128 \<le> bs ! i \<and> bs ! i < 192)"

primrec floor_char_boundary_from :: "rope \<Rightarrow> nat \<Rightarrow> nat" where
  "floor_char_boundary_from bs 0 = 0"
| "floor_char_boundary_from bs (Suc i) = (if is_char_boundary bs (Suc i) then Suc i else floor_char_boundary_from bs i)"

definition floor_char_boundary :: "rope \<Rightarrow> nat \<Rightarrow> nat" where
  "floor_char_boundary bs i = (if length bs \<le> i then length bs else floor_char_boundary_from bs i)"

definition MAX_INSERTION_LEN :: nat where
  "MAX_INSERTION_LEN = 2 ^ 32 - 1"

section \<open>Builders\<close>

datatype fragment_chunk = TreeChunk "(fragment, fragment_summary) sum_tree" | Loose "fragment list"

record fragment_builder =
  fb_chunks :: "fragment_chunk list"
  fb_summary :: fragment_summary

definition builder_new :: "(fragment, fragment_summary) sum_tree \<Rightarrow> fragment_builder" where
  "builder_new init =
     \<lparr>fb_chunks = (if tree_is_empty init then [] else [TreeChunk init]), fb_summary = summary init\<rparr>"

definition builder_append :: "(fragment, fragment_summary) sum_tree \<Rightarrow> fragment_builder \<Rightarrow> fragment_builder" where
  "builder_append items self =
     (if tree_is_empty items then self
      else self\<lparr>fb_chunks := fb_chunks self @ [TreeChunk items],
                fb_summary := fragment_summary_add (fb_summary self) (summary items)\<rparr>)"

definition builder_push :: "fragment \<Rightarrow> fragment_builder \<Rightarrow> fragment_builder" where
  "builder_push f self =
     self\<lparr>fb_summary := fragment_summary_add (fb_summary self) (fragment_summary_of f),
          fb_chunks :=
            (let cs = fb_chunks self in
             if cs = [] then [Loose [f]]
             else case last cs of
               Loose fs \<Rightarrow> butlast cs @ [Loose (fs @ [f])]
             | TreeChunk _ \<Rightarrow> cs @ [Loose [f]])\<rparr>"

definition append_chunk ::
  "fragment_chunk \<Rightarrow> (fragment, fragment_summary) sum_tree \<Rightarrow> (fragment, fragment_summary) sum_tree option" where
  "append_chunk chunk tree =
     (case chunk of
        TreeChunk subtree \<Rightarrow> append_tree fragment_ops tree subtree
      | Loose fs \<Rightarrow>
          if length fs > 1024 then append_tree fragment_ops tree (from_par_iter fragment_ops fs)
          else do {
            loose \<leftarrow> tree_from_iter fragment_ops fs;
            append_tree fragment_ops tree loose
          })"

fun append_chunks ::
  "fragment_chunk list \<Rightarrow> (fragment, fragment_summary) sum_tree \<Rightarrow> (fragment, fragment_summary) sum_tree option" where
  "append_chunks [] tree = Some tree"
| "append_chunks (chunk # chunks) tree = do { tree \<leftarrow> append_chunk chunk tree; append_chunks chunks tree }"

definition to_sum_tree :: "fragment_builder \<Rightarrow> (fragment, fragment_summary) sum_tree option" where
  "to_sum_tree self = append_chunks (fb_chunks self) (tree_new fragment_ops)"

record rope_builder =
  rb_old_visible_cursor :: rope_cursor
  rb_old_deleted_cursor :: rope_cursor
  rb_new_visible :: rope
  rb_new_deleted :: rope

definition rope_builder_new :: "rope_cursor \<Rightarrow> rope_cursor \<Rightarrow> rope_builder" where
  "rope_builder_new old_visible_cursor old_deleted_cursor =
     \<lparr>rb_old_visible_cursor = old_visible_cursor, rb_old_deleted_cursor = old_deleted_cursor,
      rb_new_visible = [], rb_new_deleted = []\<rparr>"

definition rope_push :: "nat \<Rightarrow> bool \<Rightarrow> bool \<Rightarrow> rope_builder \<Rightarrow> rope_builder option" where
  "rope_push len was_visible is_visible self = do {
     (text, self) \<leftarrow>
       (if was_visible then do {
          (text, cursor) \<leftarrow> rope_cursor_slice (rc_offset (rb_old_visible_cursor self) + len) (rb_old_visible_cursor self);
          Some (text, self\<lparr>rb_old_visible_cursor := cursor\<rparr>)
        } else do {
          (text, cursor) \<leftarrow> rope_cursor_slice (rc_offset (rb_old_deleted_cursor self) + len) (rb_old_deleted_cursor self);
          Some (text, self\<lparr>rb_old_deleted_cursor := cursor\<rparr>)
        });
     Some (if is_visible then self\<lparr>rb_new_visible := rb_new_visible self @ text\<rparr>
           else self\<lparr>rb_new_deleted := rb_new_deleted self @ text\<rparr>)
   }"

definition rope_append :: "fragment_text_summary \<Rightarrow> rope_builder \<Rightarrow> rope_builder option" where
  "rope_append len self = do {
     self \<leftarrow> rope_push (ft_visible len) True True self;
     rope_push (ft_deleted len) False False self
   }"

definition rope_push_fragment :: "fragment \<Rightarrow> bool \<Rightarrow> rope_builder \<Rightarrow> rope_builder option" where
  "rope_push_fragment f was_visible self =
     (if fr_len f = 0 then None else rope_push (fr_len f) was_visible (fr_visible f) self)"

definition rope_push_str :: "rope \<Rightarrow> rope_builder \<Rightarrow> rope_builder" where
  "rope_push_str text self = self\<lparr>rb_new_visible := rb_new_visible self @ text\<rparr>"

definition rope_finish :: "rope_builder \<Rightarrow> (rope \<times> rope) option" where
  "rope_finish self = do {
     visible \<leftarrow> rope_cursor_suffix (rb_old_visible_cursor self);
     deleted \<leftarrow> rope_cursor_suffix (rb_old_deleted_cursor self);
     Some (rb_new_visible self @ visible, rb_new_deleted self @ deleted)
   }"

section \<open>Snapshots and operations\<close>

datatype line_ending = Unix | Windows

record buffer_snapshot =
  bs_visible_text :: rope
  bs_deleted_text :: rope
  bs_fragments :: "(fragment, fragment_summary) sum_tree"
  bs_insertions :: "(insertion_fragment, insertion_fragment_key) sum_tree"
  bs_insertion_slices :: "insertion_slice tree_set"
  bs_undo_map :: undo_map
  bs_version :: global
  bs_remote_id :: u64
  bs_replica_id :: replica_id
  bs_line_ending :: line_ending

record edit_operation =
  eo_timestamp :: lamport
  eo_version :: global
  eo_ranges :: "(nat \<times> nat) list"
  eo_new_text :: "rope list"

text \<open>The variables of \<open>apply_edit_internal\<close>.\<close>

record edit_progress =
  ep_old_fragments :: "(fragment, fragment_summary, fragment_text_summary) cursor"
  ep_new_fragments :: fragment_builder
  ep_new_ropes :: rope_builder
  ep_fragment_start :: nat
  ep_insertion_offset :: nat
  ep_new_insertions :: "(insertion_fragment, insertion_fragment_key) tree_edit list"
  ep_insertion_slices :: "insertion_slice list"
  ep_edits_patch :: patch
  ep_ranges :: "(nat \<times> nat) list"
  ep_new_text :: "rope list"

section \<open>The parts of an edit\<close>

definition old_start :: "edit_progress \<Rightarrow> fragment_text_summary" where
  "old_start st = cu_position (ep_old_fragments st)"

definition new_summary :: "edit_progress \<Rightarrow> fragment_summary" where
  "new_summary st = fb_summary (ep_new_fragments st)"

text \<open>A fragment, whole or in part, is recorded and pushed to the new fragments and texts.\<close>

definition push_piece :: "fragment \<Rightarrow> bool \<Rightarrow> edit_progress \<Rightarrow> edit_progress option" where
  "push_piece f was_visible st = do {
     ropes \<leftarrow> rope_push_fragment f was_visible (ep_new_ropes st);
     Some (st\<lparr>ep_new_insertions := ep_new_insertions st @ [insert_new f], ep_new_ropes := ropes,
              ep_new_fragments := builder_push f (ep_new_fragments st)\<rparr>)
   }"

text \<open>The part of the current fragment from \<open>fragment_start\<close> on that is \<open>len\<close> bytes long.\<close>

definition current_part :: "nat \<Rightarrow> edit_progress \<Rightarrow> fragment option" where
  "current_part len st = do {
     item \<leftarrow> cursor_item (ep_old_fragments st);
     f \<leftarrow> item;
     skipped \<leftarrow> sub (ep_fragment_start st) (ft_visible (old_start st));
     insertion_offset \<leftarrow> add_u32 (fr_insertion_offset f) (as_u32 skipped);
     Some (f\<lparr>fr_len := as_u32 len, fr_insertion_offset := insertion_offset\<rparr>)
   }"

definition next_fragment :: "edit_progress \<Rightarrow> edit_progress option" where
  "next_fragment st = do {
     cu \<leftarrow> cursor_next text_dim (ep_old_fragments st);
     Some (st\<lparr>ep_old_fragments := cu\<rparr>)
   }"

text \<open>The rest of a fragment that an edit has entered.\<close>

definition push_suffix :: "edit_progress \<Rightarrow> edit_progress option" where
  "push_suffix st =
     (if ep_fragment_start st > ft_visible (old_start st) then do {
        end_pos \<leftarrow> cursor_end text_dim (ep_old_fragments st);
        st \<leftarrow> (if ft_visible end_pos > ep_fragment_start st then do {
                 suffix \<leftarrow> current_part (ft_visible end_pos - ep_fragment_start st) st;
                 push_piece suffix (fr_visible suffix) st
               } else Some st);
        next_fragment st
      } else Some st)"

definition append_slice :: "(fragment, fragment_summary) sum_tree \<Rightarrow> edit_progress \<Rightarrow> edit_progress option" where
  "append_slice passed st = do {
     ropes \<leftarrow> rope_append (fs_text (summary passed)) (ep_new_ropes st);
     Some (st\<lparr>ep_new_ropes := ropes, ep_new_fragments := builder_append passed (ep_new_fragments st)\<rparr>)
   }"

text \<open>Going on to an edit that starts behind the current fragment.\<close>

definition advance_to_edit :: "nat \<Rightarrow> edit_progress \<Rightarrow> edit_progress option" where
  "advance_to_edit range_start st = do {
     end_pos \<leftarrow> cursor_end text_dim (ep_old_fragments st);
     if ft_visible end_pos < range_start then do {
       st \<leftarrow> push_suffix st;
       (passed, cu) \<leftarrow> cursor_slice fragment_ops text_dim (visible_target range_start) BiasRight (ep_old_fragments st);
       st \<leftarrow> append_slice passed (st\<lparr>ep_old_fragments := cu\<rparr>);
       Some (st\<lparr>ep_fragment_start := ft_visible (old_start st)\<rparr>)
     } else Some st
   }"

text \<open>The part of the current fragment before the edit.\<close>

definition push_prefix :: "nat \<Rightarrow> edit_progress \<Rightarrow> edit_progress option" where
  "push_prefix range_start st =
     (if ep_fragment_start st < range_start then do {
        prefix \<leftarrow> current_part (range_start - ep_fragment_start st) st;
        let prefix = prefix\<lparr>fr_id := between (fs_max_id (new_summary st)) (fr_id prefix)\<rparr>;
        st \<leftarrow> push_piece prefix (fr_visible prefix) st;
        Some (st\<lparr>ep_fragment_start := range_start\<rparr>)
      } else Some st)"

text \<open>The loop of \<open>push_fragments_for_insertion\<close>.\<close>

definition chunk_end :: "rope \<Rightarrow> nat \<Rightarrow> nat" where
  "chunk_end new_text text_offset =
     (let target_end = min (length new_text) (text_offset + MAX_INSERTION_LEN) in
      if target_end = length new_text then target_end else floor_char_boundary new_text target_end)"

definition push_chunk :: "lamport \<Rightarrow> lamport \<Rightarrow> locator \<Rightarrow> nat \<Rightarrow> edit_progress \<Rightarrow> edit_progress option" where
  "push_chunk timestamp edit_timestamp next_fragment_id chunk_len st =
     (let f = \<lparr>fr_id = between (fs_max_id (new_summary st)) next_fragment_id, fr_timestamp = timestamp,
               fr_insertion_offset = ep_insertion_offset st, fr_len = as_u32 chunk_len, fr_visible = True,
               fr_deletions = [], fr_max_undos = vv_new\<rparr> in do {
        touched \<leftarrow> slice_from_fragment edit_timestamp f;
        insertion_offset \<leftarrow> add_u32 (ep_insertion_offset st) (as_u32 chunk_len);
        Some (st\<lparr>ep_insertion_slices := ep_insertion_slices st @ [touched],
                 ep_new_insertions := ep_new_insertions st @ [insert_new f],
                 ep_new_fragments := builder_push f (ep_new_fragments st),
                 ep_insertion_offset := insertion_offset\<rparr>)
      })"

function push_chunks ::
  "rope \<Rightarrow> lamport \<Rightarrow> lamport \<Rightarrow> locator \<Rightarrow> nat \<Rightarrow> edit_progress \<Rightarrow> edit_progress option" where
  "push_chunks new_text timestamp edit_timestamp next_fragment_id text_offset st =
     (let e = chunk_end new_text text_offset in
      if text_offset < length new_text \<and> e \<noteq> text_offset then
        if e < text_offset then None
        else Option.bind (push_chunk timestamp edit_timestamp next_fragment_id (e - text_offset) st)
               (push_chunks new_text timestamp edit_timestamp next_fragment_id e)
      else Some st)"
  by pat_completeness auto
termination
  by (relation "measure (\<lambda>(new_text, _, _, _, text_offset, _). length new_text - text_offset)")
    (auto simp: diff_less_mono2)

declare push_chunks.simps [simp del]

definition push_fragments_for_insertion ::
  "rope \<Rightarrow> lamport \<Rightarrow> lamport \<Rightarrow> locator \<Rightarrow> edit_progress \<Rightarrow> edit_progress option" where
  "push_fragments_for_insertion new_text timestamp edit_timestamp next_fragment_id st = do {
     st \<leftarrow> push_chunks new_text timestamp edit_timestamp next_fragment_id 0 st;
     Some (st\<lparr>ep_new_ropes := rope_push_str new_text (ep_new_ropes st)\<rparr>)
   }"

definition insert_text :: "lamport \<Rightarrow> rope \<Rightarrow> edit_progress \<Rightarrow> edit_progress option" where
  "insert_text timestamp new_text st =
     (if new_text = [] then Some st
      else do {
        let new_start = ft_visible (fs_text (new_summary st));
        item \<leftarrow> cursor_item (ep_old_fragments st);
        let next_fragment_id = (case item of None \<Rightarrow> locator_max | Some f \<Rightarrow> fr_id f);
        st \<leftarrow> push_fragments_for_insertion new_text timestamp timestamp next_fragment_id st;
        Some (st\<lparr>ep_edits_patch := push (ep_edits_patch st)
                  (mk_edit (ep_fragment_start st) (ep_fragment_start st) new_start (new_start + length new_text))\<rparr>)
      })"

text \<open>One turn of the loop over the fragments that the edit replaces.\<close>

definition delete_step :: "lamport \<Rightarrow> nat \<Rightarrow> edit_progress \<Rightarrow> edit_progress option" where
  "delete_step timestamp range_end st = do {
     item \<leftarrow> cursor_item (ep_old_fragments st);
     f \<leftarrow> item;
     end_pos \<leftarrow> cursor_end text_dim (ep_old_fragments st);
     let fragment_end = ft_visible end_pos;
     let intersection_end = min range_end fragment_end;
     intersection \<leftarrow>
       (if fr_visible f then do {
          len \<leftarrow> sub intersection_end (ep_fragment_start st);
          part \<leftarrow> current_part len st;
          Some (part\<lparr>fr_id := between (fs_max_id (new_summary st)) (fr_id part),
                     fr_deletions := fr_deletions part @ [timestamp], fr_visible := False\<rparr>)
        } else Some f);
     st \<leftarrow>
       (if fr_len intersection > 0 then do {
          st \<leftarrow>
            (if fr_visible f \<and> \<not> fr_visible intersection then do {
               let new_start = ft_visible (fs_text (new_summary st));
               touched \<leftarrow> slice_from_fragment timestamp intersection;
               Some (st\<lparr>ep_edits_patch := push (ep_edits_patch st)
                           (mk_edit (ep_fragment_start st) intersection_end new_start new_start),
                        ep_insertion_slices := ep_insertion_slices st @ [touched]\<rparr>)
             } else Some st);
          st \<leftarrow> push_piece intersection (fr_visible f) st;
          Some (st\<lparr>ep_fragment_start := intersection_end\<rparr>)
        } else Some st);
     if fragment_end \<le> range_end then next_fragment st else Some st
   }"

partial_function (option) delete_loop :: "lamport \<Rightarrow> nat \<Rightarrow> edit_progress \<Rightarrow> edit_progress option" where
  "delete_loop timestamp range_end st =
     (if ep_fragment_start st < range_end
      then Option.bind (delete_step timestamp range_end st) (delete_loop timestamp range_end)
      else Some st)"

declare delete_loop.simps [code]

definition apply_one_edit :: "lamport \<Rightarrow> nat \<times> nat \<times> rope \<Rightarrow> edit_progress \<Rightarrow> edit_progress option" where
  "apply_one_edit timestamp e st =
     (case e of (range_start, range_end, new_text) \<Rightarrow> do {
        let new_text = normalize new_text;
        st \<leftarrow> advance_to_edit range_start st;
        let full_range_start = range_start + ft_deleted (old_start st);
        st \<leftarrow> push_prefix range_start st;
        st \<leftarrow> insert_text timestamp new_text st;
        st \<leftarrow> delete_loop timestamp range_end st;
        let full_range_end = range_end + ft_deleted (old_start st);
        Some (st\<lparr>ep_ranges := ep_ranges st @ [(full_range_start, full_range_end)],
                 ep_new_text := ep_new_text st @ [new_text]\<rparr>)
      })"

fun apply_edits :: "lamport \<Rightarrow> (nat \<times> nat \<times> rope) list \<Rightarrow> edit_progress \<Rightarrow> edit_progress option" where
  "apply_edits timestamp [] st = Some st"
| "apply_edits timestamp (e # es) st = do { st \<leftarrow> apply_one_edit timestamp e st; apply_edits timestamp es st }"

section \<open>The whole edit\<close>

text \<open>Before the loop: the fragments before the first edit.\<close>

definition begin_edit :: "nat \<Rightarrow> buffer_snapshot \<Rightarrow> edit_progress option" where
  "begin_edit first_start self = do {
     let new_ropes = rope_builder_new \<lparr>rc_rope = bs_visible_text self, rc_offset = 0\<rparr>
           \<lparr>rc_rope = bs_deleted_text self, rc_offset = 0\<rparr>;
     (passed, cu) \<leftarrow> cursor_slice fragment_ops text_dim (visible_target first_start) BiasRight
       (cursor_new text_dim (bs_fragments self));
     let new_fragments = builder_new passed;
     new_ropes \<leftarrow> rope_append (fs_text (fb_summary new_fragments)) new_ropes;
     Some \<lparr>ep_old_fragments = cu, ep_new_fragments = new_fragments, ep_new_ropes = new_ropes,
           ep_fragment_start = ft_visible (cu_position cu), ep_insertion_offset = 0, ep_new_insertions = [],
           ep_insertion_slices = [], ep_edits_patch = [], ep_ranges = [], ep_new_text = []\<rparr>
   }"

text \<open>After the loop: the rest of the last fragment and the fragments behind it.\<close>

definition finish_edit :: "edit_progress \<Rightarrow> edit_progress option" where
  "finish_edit st = do {
     st \<leftarrow> push_suffix st;
     (suffix, cu) \<leftarrow> cursor_suffix fragment_ops text_dim (ep_old_fragments st);
     append_slice suffix (st\<lparr>ep_old_fragments := cu\<rparr>)
   }"

definition commit_edit :: "edit_progress \<Rightarrow> buffer_snapshot \<Rightarrow> buffer_snapshot option" where
  "commit_edit st self = do {
     (visible_text, deleted_text) \<leftarrow> rope_finish (ep_new_ropes st);
     fragments \<leftarrow> to_sum_tree (ep_new_fragments st);
     (_, insertions) \<leftarrow> edit_tree insertion_ops insertion_dim insertion_key (ep_new_insertions st) (bs_insertions self);
     insertion_slices \<leftarrow> ts_extend (ep_insertion_slices st) (bs_insertion_slices self);
     Some (self\<lparr>bs_fragments := fragments, bs_insertions := insertions, bs_visible_text := visible_text,
                bs_deleted_text := deleted_text, bs_insertion_slices := insertion_slices\<rparr>)
   }"

definition apply_edit_internal ::
  "(nat \<times> nat \<times> rope) list \<Rightarrow> lamport \<Rightarrow> buffer_snapshot \<Rightarrow> (edit_operation \<times> patch \<times> buffer_snapshot) option" where
  "apply_edit_internal edits timestamp self =
     (case edits of
        [] \<Rightarrow> Some (\<lparr>eo_timestamp = timestamp, eo_version = bs_version self, eo_ranges = [], eo_new_text = []\<rparr>, [], self)
      | (first_start, _) # _ \<Rightarrow> do {
          st \<leftarrow> begin_edit first_start self;
          st \<leftarrow> apply_edits timestamp edits st;
          st \<leftarrow> finish_edit st;
          self' \<leftarrow> commit_edit st self;
          Some (\<lparr>eo_timestamp = timestamp, eo_version = bs_version self, eo_ranges = ep_ranges st,
                 eo_new_text = ep_new_text st\<rparr>, ep_edits_patch st, self')
        })"

section \<open>New buffers\<close>

text \<open>The loop of \<open>new_normalized\<close> over the base text, which goes on while the offset is before its end.\<close>

partial_function (option) push_base_chunks ::
  "rope \<Rightarrow> lamport \<Rightarrow> nat \<Rightarrow> nat \<Rightarrow> locator \<Rightarrow> (fragment, fragment_summary) sum_tree
   \<Rightarrow> (insertion_fragment, insertion_fragment_key) sum_tree
   \<Rightarrow> ((fragment, fragment_summary) sum_tree \<times> (insertion_fragment, insertion_fragment_key) sum_tree) option" where
  "push_base_chunks text timestamp text_offset insertion_offset prev_locator fragments insertions =
     (if text_offset < length text then do {
        chunk_len \<leftarrow> sub (chunk_end text text_offset) text_offset;
        let f = \<lparr>fr_id = between prev_locator locator_max, fr_timestamp = timestamp,
                 fr_insertion_offset = insertion_offset, fr_len = as_u32 chunk_len, fr_visible = True,
                 fr_deletions = [], fr_max_undos = vv_new\<rparr>;
        insertions \<leftarrow> push_item insertion_ops insertions (insertion_fragment_new f);
        fragments \<leftarrow> push_item fragment_ops fragments f;
        insertion_offset \<leftarrow> add_u32 insertion_offset (as_u32 chunk_len);
        push_base_chunks text timestamp (chunk_end text text_offset) insertion_offset (fr_id f) fragments insertions
      }
      else Some (fragments, insertions))"

declare push_base_chunks.simps [code]

text \<open>The snapshot and the clock of a new buffer.\<close>

definition new_normalized :: "replica_id \<Rightarrow> u64 \<Rightarrow> line_ending \<Rightarrow> rope \<Rightarrow> (buffer_snapshot \<times> lamport) option" where
  "new_normalized replica remote_id ending normalized = do {
     let insertion_timestamp = lamport_new LOCAL;
     (fragments, insertions, version, clock) \<leftarrow>
       (if normalized = [] then Some (tree_new fragment_ops, tree_new insertion_ops, global_new, lamport_new replica)
        else do {
          (fragments, insertions) \<leftarrow> push_base_chunks normalized insertion_timestamp 0 0 locator_min
            (tree_new fragment_ops) (tree_new insertion_ops);
          Some (fragments, insertions, global_observe global_new insertion_timestamp,
            lamport_observe (lamport_new replica) insertion_timestamp)
        });
     Some (\<lparr>bs_visible_text = normalized, bs_deleted_text = [], bs_fragments = fragments, bs_insertions = insertions,
            bs_insertion_slices = tm_default, bs_undo_map = undo_default, bs_version = version,
            bs_remote_id = remote_id, bs_replica_id = replica, bs_line_ending = ending\<rparr>, clock)
   }"

end
