(* ===== verification/BufferWalk.thy ===== *)
theory BufferWalk
  imports Buffer "HOL-Library.Sublist" "HOL-Library.Multiset"
begin

text \<open>
  The parts that explain a local edit: what fragments stand for, byte for byte; cursors over them and the
  builders of the new fragments and texts; the walk over the old fragments and the invariant that each
  of its steps keeps; and the reference, the replacement of ranges in a text.
\<close>

section \<open>What fragments stand for\<close>

text \<open>A byte is named by its insertion and its offset in it.\<close>

type_synonym cell = "lamport \<times> nat"

definition cells :: "fragment \<Rightarrow> cell list" where
  "cells f = map (Pair (fr_timestamp f)) [fr_insertion_offset f ..< fr_insertion_offset f + fr_len f]"

definition all_cells :: "fragment list \<Rightarrow> cell list" where
  "all_cells fs = concat (map cells fs)"

definition visible_cells :: "fragment list \<Rightarrow> cell list" where
  "visible_cells fs = all_cells (filter fr_visible fs)"

definition deleted_cells :: "fragment list \<Rightarrow> cell list" where
  "deleted_cells fs = all_cells (filter (\<lambda>f. \<not> fr_visible f) fs)"

lemma length_cells [simp]: "length (cells f) = fr_len f"
  by (simp add: cells_def)

lemma cells_simps [simp]:
  "all_cells [] = []" "visible_cells [] = []" "deleted_cells [] = []"
  "all_cells (f # fs) = cells f @ all_cells fs"
  "visible_cells (f # fs) = (if fr_visible f then cells f else []) @ visible_cells fs"
  "deleted_cells (f # fs) = (if fr_visible f then [] else cells f) @ deleted_cells fs"
  "all_cells (fs @ gs) = all_cells fs @ all_cells gs"
  "visible_cells (fs @ gs) = visible_cells fs @ visible_cells gs"
  "deleted_cells (fs @ gs) = deleted_cells fs @ deleted_cells gs"
  by (simp_all add: all_cells_def visible_cells_def deleted_cells_def)

text \<open>Cutting a fragment cuts its run.\<close>

lemma cells_part:
  "k + m \<le> fr_len f \<Longrightarrow>
   cells (f\<lparr>fr_len := m, fr_insertion_offset := fr_insertion_offset f + k\<rparr>) = take m (drop k (cells f))"
  by (simp add: cells_def drop_map take_map drop_upt take_upt add.commute add.left_commute)

lemma cells_update [simp]:
  "cells (f\<lparr>fr_id := i\<rparr>) = cells f" "cells (f\<lparr>fr_deletions := ds\<rparr>) = cells f" "cells (f\<lparr>fr_visible := v\<rparr>) = cells f"
  by (simp_all add: cells_def)

text \<open>The summary of a list of fragments.\<close>

definition visible_len :: "fragment list \<Rightarrow> nat" where
  "visible_len fs = length (visible_cells fs)"

definition text_sum :: "fragment list \<Rightarrow> fragment_text_summary" where
  "text_sum fs = \<lparr>ft_visible = length (visible_cells fs), ft_deleted = length (deleted_cells fs)\<rparr>"

definition frag_sum :: "fragment list \<Rightarrow> fragment_summary" where
  "frag_sum fs = sum_summaries fragment_ops (map fragment_summary_of fs)"

definition last_id :: "fragment list \<Rightarrow> locator" where
  "last_id fs = (if fs = [] then locator_min else fr_id (last fs))"

lemma text_sum_simps [simp]:
  "ft_visible (text_sum fs) = length (visible_cells fs)" "ft_deleted (text_sum fs) = length (deleted_cells fs)"
  "text_sum [] = text_zero"
  by (simp_all add: text_sum_def text_zero_def)

lemma text_sum_append: "text_sum (fs @ gs) = text_add (text_sum fs) (text_sum gs)"
  by (simp add: text_sum_def text_add_def)

lemma text_sum_single: "fs_text (fragment_summary_of f) = text_sum [f]"
  by (simp add: text_sum_def fragment_summary_of_def Let_def)

lemma fragment_ops_simps [simp]:
  "so_summary fragment_ops = fragment_summary_of" "so_zero fragment_ops = fragment_summary_zero"
  "so_add fragment_ops = fragment_summary_add" "dm_zero text_dim = text_zero"
  "dm_add text_dim d s = text_add d (fs_text s)"
  by (simp_all add: fragment_ops_def text_dim_def)

lemma frag_sum_Nil [simp]: "frag_sum [] = fragment_summary_zero"
  by (simp add: frag_sum_def sum_summaries_def)

lemma frag_sum_snoc: "frag_sum (fs @ [f]) = fragment_summary_add (frag_sum fs) (fragment_summary_of f)"
  using fragments.sum_snoc [of "map fragment_summary_of fs" "fragment_summary_of f"] by (simp add: frag_sum_def)

lemma frag_sum_append: "gs \<noteq> [] \<Longrightarrow> frag_sum (fs @ gs) = fragment_summary_add (frag_sum fs) (frag_sum gs)"
  using fragments.sum_append [of "map fragment_summary_of gs" "map fragment_summary_of fs"] by (simp add: frag_sum_def)

lemma frag_sum_fields: "fs_text (frag_sum fs) = text_sum fs" "fs_max_id (frag_sum fs) = last_id fs"
  by (induction fs rule: rev_induct)
    (simp_all add: fragment_summary_zero_def frag_sum_snoc fragment_summary_add_def text_sum_append text_sum_single
      last_id_def, simp add: fragment_summary_of_def Let_def)

lemma tree_summary: "tree_ok fragment_ops t \<Longrightarrow> summary t = frag_sum (tree_items t)"
  using fragments.summary_items [of t] by (auto simp: tree_ok_def tree_new_def frag_sum_def sum_summaries_def)

section \<open>Moving the cursor\<close>

lemma item_ends_text: "last_end p (item_ends fragment_ops text_dim p fs) = text_add p (text_sum fs)"
proof (induction fs arbitrary: p)
  case (Cons f fs)
  have "last_end p (e # es) = last_end e es" for e :: fragment_text_summary and es by (simp add: last_end_def)
  with Cons show ?case using text_sum_append [of "[f]" fs] by (simp add: Let_def text_sum_single)
qed simp

lemma item_ends_ge: "e \<in> set (item_ends fragment_ops text_dim p fs) \<Longrightarrow> ft_visible p \<le> ft_visible e"
proof (induction fs arbitrary: p)
  case (Cons f fs)
  from Cons.prems Cons.IH [of "text_add p (text_sum [f])"] show ?case
    by (auto simp: Let_def text_sum_single text_add_def)
qed simp

lemma ordered_visible: "ordered_ends (target_in (visible_target n) BiasRight) (item_ends fragment_ops text_dim p fs)"
proof (induction fs arbitrary: p)
  case (Cons f fs)
  have found: "target_in (visible_target n) BiasRight e \<longleftrightarrow> n < ft_visible e" for e
    by (auto simp: target_in_def visible_target_def cmp_def)
  from Cons item_ends_ge show ?case
    unfolding ordered_ends_def found by (fastforce simp: Let_def intro: order.strict_trans2)
qed (simp add: ordered_ends_def)

lemma slice_to_offset:
  assumes "cursor_at fragment_ops text_dim cu fs p" "ft_visible p \<le> n"
  shows "\<exists>t cu' ys zs. cursor_slice fragment_ops text_dim (visible_target n) BiasRight cu = Some (t, cu')
    \<and> fs = ys @ zs \<and> tree_ok fragment_ops t \<and> tree_items t = ys
    \<and> cursor_at fragment_ops text_dim cu' zs (text_add p (text_sum ys)) \<and> cu_did_seek cu'
    \<and> ft_visible p + visible_len ys \<le> n \<and> (zs \<noteq> [] \<longrightarrow> n < ft_visible p + visible_len (ys @ [hd zs]))"
proof -
  have "visible_target n p \<noteq> Less" using assms(2) by (simp add: visible_target_def cmp_def)
  from fragments.cursor_slice_splits [OF assms(1) this ordered_visible] obtain t cu' ys zs where
    s: "cursor_slice fragment_ops text_dim (visible_target n) BiasRight cu = Some (t, cu')"
      "seek_splits fragment_ops text_dim (target_in (visible_target n) BiasRight) fs p ys zs"
      "tree_ok fragment_ops t" "tree_items t = ys"
      "cursor_at fragment_ops text_dim cu' zs (last_end p (item_ends fragment_ops text_dim p ys))" "cu_did_seek cu'"
    by blast
  have found: "target_in (visible_target n) BiasRight e \<longleftrightarrow> n < ft_visible e" for e
    by (auto simp: target_in_def visible_target_def cmp_def)
  have "ft_visible (last_end p (item_ends fragment_ops text_dim p ys)) \<le> n"
    using s(2) assms(2) last_in_set [of "item_ends fragment_ops text_dim p ys"]
    by (fastforce simp: seek_splits_def found last_end_def not_less)
  with s show ?thesis
    by (auto simp: seek_splits_def found item_ends_text text_sum_single text_add_def visible_len_def add.assoc)
qed

lemma cursor_end_at:
  assumes "cursor_at fragment_ops text_dim cu fs p" "cu_did_seek cu"
  shows "cursor_end text_dim cu = Some (text_add p (text_sum (take 1 fs)))"
  using cursor_item_at(2) [OF assms] assms(1)
  by (cases fs) (auto simp: cursor_end_def cursor_at_def text_sum_single)

lemma next_at:
  assumes "cursor_at fragment_ops text_dim cu (f # fs) p" "cu_did_seek cu"
  shows "\<exists>cu'. cursor_next text_dim cu = Some cu' \<and> cursor_at fragment_ops text_dim cu' fs (text_add p (text_sum [f]))
    \<and> cu_did_seek cu'"
  using fragments.cursor_next_at [OF assms(1)] assms(2)
  by (auto simp: fragments.after_current_def fragments.position_after_def text_sum_single)

section \<open>The builders\<close>

fun chunk_items :: "fragment_chunk \<Rightarrow> fragment list" where
  "chunk_items (TreeChunk t) = tree_items t"
| "chunk_items (Loose fs) = fs"

fun chunk_ok :: "fragment_chunk \<Rightarrow> bool" where
  "chunk_ok (TreeChunk t) \<longleftrightarrow> tree_ok fragment_ops t"
| "chunk_ok (Loose fs) \<longleftrightarrow> True"

text \<open>A builder holds a list of fragments.\<close>

definition builds :: "fragment_builder \<Rightarrow> fragment list \<Rightarrow> bool" where
  "builds b fs \<longleftrightarrow> list_all chunk_ok (fb_chunks b) \<and> concat (map chunk_items (fb_chunks b)) = fs \<and> fb_summary b = frag_sum fs"

lemma empty_items: "tree_ok fragment_ops t \<Longrightarrow> tree_is_empty t \<longleftrightarrow> tree_items t = []"
  by (auto simp: tree_ok_def tree_new_def dest: node_ok_nonempty node_ok_items)

lemma builds_new: "tree_ok fragment_ops t \<Longrightarrow> builds (builder_new t) (tree_items t)"
  by (auto simp: builds_def builder_new_def empty_items tree_summary)

lemma builds_append: "builds b fs \<Longrightarrow> tree_ok fragment_ops t \<Longrightarrow> builds (builder_append t b) (fs @ tree_items t)"
  by (auto simp: builds_def builder_append_def empty_items tree_summary frag_sum_append)

lemma builds_push: "builds b fs \<Longrightarrow> builds (builder_push f b) (fs @ [f])"
proof (cases "fb_chunks b" rule: rev_cases)
  case Nil
  assume "builds b fs"
  with Nil show ?thesis using frag_sum_snoc [of "[]" f] by (auto simp: builds_def builder_push_def)
next
  case (snoc cs c)
  assume "builds b fs"
  with snoc show ?thesis by (cases c) (simp_all add: builds_def builder_push_def frag_sum_snoc)
qed

lemma append_chunks_ok:
  "\<lbrakk>list_all chunk_ok cs; tree_ok fragment_ops t\<rbrakk> \<Longrightarrow>
   \<exists>u. append_chunks cs t = Some u \<and> tree_ok fragment_ops u \<and> tree_items u = tree_items t @ concat (map chunk_items cs)"
proof (induction cs arbitrary: t)
  case (Cons c cs)
  have "\<exists>u. append_chunk c t = Some u \<and> tree_ok fragment_ops u \<and> tree_items u = tree_items t @ chunk_items c"
  proof (cases c)
    case (TreeChunk s)
    with Cons.prems fragments.append_tree_refines [of t s] show ?thesis by (simp add: append_chunk_def)
  next
    case (Loose fs)
    from fragments.tree_from_iter_refines obtain s where
      s: "tree_from_iter fragment_ops fs = Some s" "tree_ok fragment_ops s" "tree_items s = fs" by blast
    from fragments.append_tree_refines [OF Cons.prems(2) s(2)]
      fragments.append_tree_refines [OF Cons.prems(2) conjunct1 [OF fragments.from_par_iter_refines [of fs]]]
      fragments.from_par_iter_refines [of fs] s Loose
    show ?thesis by (auto simp: append_chunk_def)
  qed
  then obtain u where u: "append_chunk c t = Some u" "tree_ok fragment_ops u" "tree_items u = tree_items t @ chunk_items c" by blast
  with Cons.IH [OF _ u(2)] Cons.prems show ?case by simp
qed simp

lemma builds_tree: "builds b fs \<Longrightarrow> \<exists>u. to_sum_tree b = Some u \<and> tree_ok fragment_ops u \<and> tree_items u = fs"
  using append_chunks_ok [of "fb_chunks b" "tree_new fragment_ops"]
  by (auto simp: builds_def to_sum_tree_def tree_ok_def tree_new_def)

text \<open>A rope builder has read the old texts up to two offsets and holds the new texts.\<close>

definition ropes_at :: "rope \<Rightarrow> rope \<Rightarrow> nat \<Rightarrow> nat \<Rightarrow> rope \<Rightarrow> rope \<Rightarrow> rope_builder \<Rightarrow> bool" where
  "ropes_at V D i j v d rb \<longleftrightarrow>
     rb = \<lparr>rb_old_visible_cursor = \<lparr>rc_rope = V, rc_offset = i\<rparr>, rb_old_deleted_cursor = \<lparr>rc_rope = D, rc_offset = j\<rparr>,
           rb_new_visible = v, rb_new_deleted = d\<rparr> \<and> i \<le> length V \<and> j \<le> length D"

lemma rope_push_visible:
  "\<lbrakk>ropes_at V D i j v d rb; i + k \<le> length V\<rbrakk> \<Longrightarrow>
   \<exists>rb'. rope_push k True vis rb = Some rb'
     \<and> ropes_at V D (i + k) j (if vis then v @ take k (drop i V) else v) (if vis then d else d @ take k (drop i V)) rb'"
  by (simp add: ropes_at_def rope_push_def rope_cursor_slice_def)

lemma rope_push_deleted:
  "\<lbrakk>ropes_at V D i j v d rb; j + k \<le> length D\<rbrakk> \<Longrightarrow>
   \<exists>rb'. rope_push k False False rb = Some rb' \<and> ropes_at V D i (j + k) v (d @ take k (drop j D)) rb'"
  by (simp add: ropes_at_def rope_push_def rope_cursor_slice_def)

lemma rope_append_at:
  assumes "ropes_at V D i j v d rb" "i + ft_visible len \<le> length V" "j + ft_deleted len \<le> length D"
  shows "\<exists>rb'. rope_append len rb = Some rb'
    \<and> ropes_at V D (i + ft_visible len) (j + ft_deleted len)
        (v @ take (ft_visible len) (drop i V)) (d @ take (ft_deleted len) (drop j D)) rb'"
proof -
  from rope_push_visible [OF assms(1,2), of True] obtain rb1 where
    "rope_push (ft_visible len) True True rb = Some rb1"
    "ropes_at V D (i + ft_visible len) j (v @ take (ft_visible len) (drop i V)) d rb1" by auto
  with rope_push_deleted [OF this(2) assms(3)] show ?thesis by (simp add: rope_append_def)
qed

lemma rope_finish_at:
  "ropes_at V D i j v d rb \<Longrightarrow> rope_finish rb = Some (v @ drop i V, d @ drop j D)"
  by (simp add: ropes_at_def rope_finish_def rope_cursor_suffix_def rope_cursor_slice_def)

section \<open>The walk over the fragments\<close>

text \<open>An edit walks over the old fragments: those passed, those to come, how many bytes of the first of
  them are done, the new fragments, and which of these were recorded by insertion and as touched.\<close>

record walk =
  wk_passed :: "fragment list"
  wk_rest :: "fragment list"
  wk_taken :: nat
  wk_new :: "fragment list"
  wk_recorded :: "fragment list"
  wk_touched :: "fragment list"
  wk_inserted :: nat

definition fragment_key :: "fragment \<Rightarrow> insertion_fragment_key" where
  "fragment_key f = InsertionFragmentKey (fr_timestamp f) (fr_insertion_offset f)"

definition touched_by :: "lamport \<Rightarrow> fragment \<Rightarrow> bool" where
  "touched_by ts f \<longleftrightarrow> fr_timestamp f = ts \<or> ts \<in> set (fr_deletions f)"

definition ids_ok :: "fragment list \<Rightarrow> bool" where
  "ids_ok fs \<longleftrightarrow> sorted_wrt (<) (map fr_id fs)
     \<and> (\<forall>f \<in> set fs. locator_ok (fr_id f) \<and> locator_min < fr_id f \<and> fr_id f < locator_max)"

text \<open>The invariant of the fragments of a buffer: identifiers strictly ascending between the extremes, no
  empty fragment, and no byte twice or beyond the width of an offset.\<close>

definition fragments_ok :: "fragment list \<Rightarrow> bool" where
  "fragments_ok fs \<longleftrightarrow> ids_ok fs \<and> (\<forall>f \<in> set fs. 0 < fr_len f) \<and> distinct (all_cells fs)
     \<and> (\<forall>c \<in> set (all_cells fs). snd c < 2 ^ 32 - 1)"

text \<open>A new fragment is new text, or a part of an old fragment, kept as it was or deleted now.\<close>

definition piece_of :: "lamport \<Rightarrow> fragment \<Rightarrow> fragment \<Rightarrow> bool" where
  "piece_of ts f n \<longleftrightarrow> fr_timestamp n = fr_timestamp f \<and> fr_insertion_offset f \<le> fr_insertion_offset n
     \<and> fr_insertion_offset n + fr_len n \<le> fr_insertion_offset f + fr_len f
     \<and> (fr_deletions n = fr_deletions f \<and> fr_visible n = fr_visible f
        \<or> fr_deletions n = fr_deletions f @ [ts] \<and> fr_visible f \<and> \<not> fr_visible n)"

definition derived :: "fragment list \<Rightarrow> lamport \<Rightarrow> fragment \<Rightarrow> bool" where
  "derived F ts n \<longleftrightarrow> fr_timestamp n = ts \<and> fr_deletions n = [] \<and> fr_visible n \<or> (\<exists>f \<in> set F. piece_of ts f n)"

definition older :: "lamport \<Rightarrow> fragment list \<Rightarrow> fragment list" where
  "older ts fs = filter (\<lambda>f. fr_timestamp f \<noteq> ts) fs"

lemma older_simps [simp]:
  "older ts [] = []" "older ts (fs @ gs) = older ts fs @ older ts gs"
  "older ts (f # fs) = (if fr_timestamp f = ts then [] else [f]) @ older ts fs"
  by (simp_all add: older_def)

lemma derived_same: "f \<in> set F \<Longrightarrow> derived F ts f"
  by (auto simp: derived_def piece_of_def)

definition walk_ok :: "fragment list \<Rightarrow> lamport \<Rightarrow> walk \<Rightarrow> bool" where
  "walk_ok F ts w \<longleftrightarrow>
     F = wk_passed w @ wk_rest w
     \<and> (wk_taken w = 0 \<or> wk_rest w \<noteq> [] \<and> fr_visible (hd (wk_rest w)) \<and> wk_taken w \<le> fr_len (hd (wk_rest w)))
     \<and> ids_ok (wk_new w @ wk_rest w)
     \<and> mset (all_cells (wk_new w)) + mset (drop (wk_taken w) (all_cells (wk_rest w)))
        = mset (all_cells F) + mset (map (Pair ts) [0 ..< wk_inserted w])
     \<and> all_cells (older ts (wk_new w)) @ drop (wk_taken w) (all_cells (wk_rest w)) = all_cells F
     \<and> (\<forall>f \<in> set (wk_new w). 0 < fr_len f \<and> derived F ts f)
     \<and> subseq (wk_recorded w) (wk_new w) \<and> subseq (wk_touched w) (wk_new w)
     \<and> set (wk_touched w) = {n \<in> set (wk_new w). touched_by ts n}
     \<and> (\<forall>n \<in> set (wk_new w). n \<in> set (wk_recorded w) \<or> n \<in> set (wk_passed w))
     \<and> (\<forall>f \<in> set (wk_passed w @ (if wk_taken w = 0 then [] else [hd (wk_rest w)])).
          f \<in> set (wk_new w) \<or> (\<exists>p \<in> set (wk_recorded w). fragment_key p = fragment_key f))"

lemma walk_start: "ids_ok F \<Longrightarrow>
  walk_ok F ts \<lparr>wk_passed = [], wk_rest = F, wk_taken = 0, wk_new = [], wk_recorded = [], wk_touched = [], wk_inserted = 0\<rparr>"
  by (simp add: walk_ok_def)

definition untouched :: "lamport \<Rightarrow> fragment list \<Rightarrow> bool" where
  "untouched ts F \<longleftrightarrow> (\<forall>f \<in> set F. \<not> touched_by ts f) \<and> (\<forall>f \<in> set F. 0 < fr_len f)"

lemma subseq_snoc: "subseq xs ys \<Longrightarrow> subseq (xs @ [x]) (ys @ [x])"
  by (simp add: list_emb_append_mono)

lemma subseq_longer: "subseq xs ys \<Longrightarrow> subseq xs (ys @ zs)"
  by (rule list_emb_prefix)

lemma older_untouched: "untouched ts F \<Longrightarrow> set ys \<subseteq> set F \<Longrightarrow> older ts ys = ys"
  by (auto simp: older_def untouched_def touched_by_def filter_id_conv)

lemma walk_pass:
  assumes "walk_ok F ts w" "untouched ts F" "wk_taken w = 0" "wk_rest w = ys @ zs"
  shows "walk_ok F ts (w\<lparr>wk_passed := wk_passed w @ ys, wk_rest := zs, wk_new := wk_new w @ ys\<rparr>)"
proof -
  have "older ts ys = ys" using assms by (intro older_untouched) (auto simp: walk_ok_def)
  with assms show ?thesis by (auto simp: walk_ok_def untouched_def subseq_longer derived_same ac_simps)
qed

lemma walk_pass_recorded:
  assumes "walk_ok F ts w" "untouched ts F" "wk_taken w = 0" "wk_rest w = f # fs"
  shows "walk_ok F ts (w\<lparr>wk_passed := wk_passed w @ [f], wk_rest := fs, wk_new := wk_new w @ [f],
    wk_recorded := wk_recorded w @ [f]\<rparr>)"
proof -
  have "older ts [f] = [f]" using assms by (intro older_untouched) (auto simp: walk_ok_def)
  with assms show ?thesis
    by (auto simp: walk_ok_def untouched_def subseq_longer subseq_snoc derived_same ac_simps split: if_splits)
qed

lemma walk_skip:
  assumes "walk_ok F ts w" "wk_rest w = f # fs" "wk_taken w = fr_len f" "0 < fr_len f"
  shows "walk_ok F ts (w\<lparr>wk_passed := wk_passed w @ [f], wk_rest := fs, wk_taken := 0\<rparr>)"
  using assms by (auto simp: walk_ok_def ids_ok_def sorted_wrt_append)

lemma walk_balance:
  "walk_ok F ts w \<Longrightarrow> mset (all_cells (wk_new w)) + mset (drop (wk_taken w) (all_cells (wk_rest w)))
     = mset (all_cells F) + mset (map (Pair ts) [0 ..< wk_inserted w])"
  by (simp add: walk_ok_def)

text \<open>The identifier of the next old fragment, and one between the last new fragment and it.\<close>

definition next_id :: "fragment list \<Rightarrow> locator" where
  "next_id rest = (case rest of [] \<Rightarrow> locator_max | f # _ \<Rightarrow> fr_id f)"

lemma ids_between:
  assumes "ids_ok (new @ rest)" "fr_id g = between (last_id new) (next_id rest)"
  shows "ids_ok (new @ g # rest)"
proof -
  have max_ok: "locator_ok locator_max" by (simp add: locator_ok_def locator_max_def)
  have less: "last_id new < next_id rest"
  proof (cases new rule: rev_cases)
    case Nil
    with assms(1) show ?thesis
      by (cases rest) (auto simp: ids_ok_def last_id_def next_id_def locator_min_def locator_max_def)
  next
    case (snoc ns n)
    with assms(1) show ?thesis by (cases rest) (auto simp: ids_ok_def last_id_def next_id_def sorted_wrt_append)
  qed
  have ok: "locator_ok (next_id rest)" using assms(1) max_ok by (cases rest) (auto simp: ids_ok_def next_id_def)
  have above: "last_id new < fr_id g" and below: "fr_id g < next_id rest" and g: "locator_ok (fr_id g)"
    using between_greater between_less [OF less ok] between_ok by (simp_all add: assms(2))
  have "locator_min \<le> last_id new" using assms(1) by (cases new rule: rev_cases) (auto simp: ids_ok_def last_id_def)
  moreover have "next_id rest \<le> locator_max" using assms(1) by (cases rest) (auto simp: ids_ok_def next_id_def)
  moreover have "\<forall>n \<in> set new. fr_id n < fr_id g"
  proof (cases new rule: rev_cases)
    case (snoc ns n)
    with assms(1) have "\<forall>m \<in> set ns. fr_id m < fr_id n" by (auto simp: ids_ok_def sorted_wrt_append)
    with above snoc show ?thesis by (auto simp: last_id_def)
  qed simp
  moreover have "\<forall>r \<in> set rest. fr_id g < fr_id r"
  proof (cases rest)
    case (Cons r rs)
    with assms(1) have "\<forall>m \<in> set rs. fr_id r < fr_id m" by (auto simp: ids_ok_def sorted_wrt_append)
    with below Cons show ?thesis by (auto simp: next_id_def)
  qed simp
  ultimately show ?thesis
    using assms(1) above below g by (auto simp: ids_ok_def sorted_wrt_append)
qed

lemma part_cells:
  assumes "t + k \<le> fr_len f" "cells g = take k (drop t (cells f))"
  shows "drop t (cells f @ xs) = cells g @ drop (t + k) (cells f @ xs)"
  using assms by (simp add: add.commute flip: drop_drop)

text \<open>A part of the current fragment, kept or deleted.\<close>

lemma walk_part:
  assumes ok: "walk_ok F ts w" and un: "untouched ts F" and rest: "wk_rest w = f # fs" and f: "fr_visible f"
    and k: "wk_taken w + k \<le> fr_len f" "0 < k"
    and g: "cells g = take k (drop (wk_taken w) (cells f))" "fr_len g = k" "fr_timestamp g = fr_timestamp f"
      "fr_insertion_offset g = fr_insertion_offset f + wk_taken w" "fr_id g = between (last_id (wk_new w)) (fr_id f)"
      "fr_deletions g = fr_deletions f @ (if deleted then [ts] else [])" "fr_visible g \<longleftrightarrow> \<not> deleted"
  shows "walk_ok F ts (w\<lparr>wk_new := wk_new w @ [g], wk_recorded := wk_recorded w @ [g], wk_taken := wk_taken w + k,
    wk_touched := wk_touched w @ (if deleted then [g] else [])\<rparr>)"
proof -
  have "ids_ok (wk_new w @ g # wk_rest w)"
    using ok rest g(5) by (intro ids_between) (auto simp: walk_ok_def next_id_def)
  moreover have "touched_by ts g \<longleftrightarrow> deleted"
    using un ok rest g(3,6) by (auto simp: untouched_def walk_ok_def touched_by_def)
  moreover have "mset (all_cells (wk_new w @ [g])) + mset (drop (wk_taken w + k) (all_cells (wk_rest w)))
      = mset (all_cells F) + mset (map (Pair ts) [0 ..< wk_inserted w])"
    using walk_balance [OF ok] part_cells [OF k(1) g(1), of "all_cells fs"]
    unfolding rest cells_simps by (simp only: mset_append add.assoc append_Nil2)
  moreover have "f \<in> set F" "fr_timestamp f \<noteq> ts" using un ok rest by (auto simp: walk_ok_def untouched_def touched_by_def)
  moreover from this have "all_cells (older ts (wk_new w @ [g])) @ drop (wk_taken w + k) (all_cells (wk_rest w)) = all_cells F"
    using ok part_cells [OF k(1) g(1), of "all_cells fs"] g(3) by (simp add: walk_ok_def rest)
  moreover from \<open>f \<in> set F\<close> have "derived F ts g" using f k(1) g(2-4,6,7) by (auto simp: derived_def piece_of_def split: if_splits)
  moreover have "f \<in> set (wk_new w) \<or> (\<exists>p \<in> set (wk_recorded w @ [g]). fragment_key p = fragment_key f)"
    using ok rest g(3,4) by (cases "wk_taken w = 0") (auto simp: walk_ok_def fragment_key_def)
  ultimately show ?thesis
    using ok rest f k g(2) by (auto simp: walk_ok_def subseq_longer subseq_snoc)
qed

text \<open>The rest of a fragment that was entered keeps its identifier.\<close>

lemma walk_suffix:
  assumes ok: "walk_ok F ts w" and un: "untouched ts F" and rest: "wk_rest w = f # fs"
    and t: "0 < wk_taken w" "wk_taken w < fr_len f"
    and g: "cells g = drop (wk_taken w) (cells f)" "fr_len g = fr_len f - wk_taken w" "fr_timestamp g = fr_timestamp f"
      "fr_id g = fr_id f" "fr_deletions g = fr_deletions f" "fr_visible g = fr_visible f"
      "fr_insertion_offset g = fr_insertion_offset f + wk_taken w"
  shows "walk_ok F ts (w\<lparr>wk_passed := wk_passed w @ [f], wk_rest := fs, wk_taken := 0, wk_new := wk_new w @ [g],
    wk_recorded := wk_recorded w @ [g]\<rparr>)"
proof -
  have "ids_ok (wk_new w @ g # fs)" using ok rest g(4) by (auto simp: walk_ok_def ids_ok_def sorted_wrt_append)
  moreover have "\<not> touched_by ts g"
    using un ok rest g(3,5) by (auto simp: untouched_def walk_ok_def touched_by_def)
  moreover have "mset (all_cells (wk_new w @ [g])) + mset (all_cells fs)
      = mset (all_cells F) + mset (map (Pair ts) [0 ..< wk_inserted w])"
    using walk_balance [OF ok] t unfolding rest cells_simps mset_append by (simp add: g(1) add.assoc)
  moreover have F: "f \<in> set F" "fr_timestamp f \<noteq> ts" using un ok rest by (auto simp: walk_ok_def untouched_def touched_by_def)
  moreover from this have "all_cells (older ts (wk_new w @ [g])) @ all_cells fs = all_cells F"
    using ok t g(1,3) by (simp add: walk_ok_def rest)
  moreover from F have "derived F ts g" using t g by (auto simp: derived_def piece_of_def)
  ultimately show ?thesis
    using ok rest t g(2) by (auto simp: walk_ok_def subseq_longer subseq_snoc)
qed

text \<open>A fragment of new text.\<close>

lemma walk_insert:
  assumes ok: "walk_ok F ts w" and k: "0 < k"
    and h: "fr_id h = between (last_id (wk_new w)) (next_id (wk_rest w))" "fr_timestamp h = ts"
      "fr_insertion_offset h = wk_inserted w" "fr_len h = k" "fr_deletions h = []" "fr_visible h"
  shows "walk_ok F ts (w\<lparr>wk_new := wk_new w @ [h], wk_recorded := wk_recorded w @ [h], wk_touched := wk_touched w @ [h],
    wk_inserted := wk_inserted w + k\<rparr>)"
proof -
  have "ids_ok (wk_new w @ h # wk_rest w)" using ok h(1) by (intro ids_between) (auto simp: walk_ok_def)
  moreover have "touched_by ts h" by (simp add: touched_by_def h(2))
  moreover have "map (Pair ts) [0 ..< wk_inserted w + k] = map (Pair ts) [0 ..< wk_inserted w] @ cells h"
    by (subst upt_add_eq_append) (simp_all add: cells_def h)
  then have "mset (all_cells (wk_new w @ [h])) + mset (drop (wk_taken w) (all_cells (wk_rest w)))
      = mset (all_cells F) + mset (map (Pair ts) [0 ..< wk_inserted w + k])"
    using walk_balance [OF ok] by (simp only: cells_simps mset_append append_Nil2) (simp only: ac_simps)
  moreover have "derived F ts h" "older ts [h] = []" using h by (simp_all add: derived_def)
  ultimately show ?thesis
    using ok h(4) k by (auto simp: walk_ok_def subseq_longer subseq_snoc)
qed

section \<open>What an edit means for a text\<close>

text \<open>The reference: replacing ranges in ascending order, from a position on.\<close>

fun spliced :: "nat \<Rightarrow> (nat \<times> nat \<times> 'a list) list \<Rightarrow> 'a list \<Rightarrow> 'a list" where
  "spliced i [] a = drop i a"
| "spliced i ((s, e, t) # es) a = take (s - i) (drop i a) @ t @ spliced e es a"

fun ranges_ok :: "nat \<Rightarrow> (nat \<times> nat \<times> 'a list) list \<Rightarrow> 'a list \<Rightarrow> bool" where
  "ranges_ok i [] a \<longleftrightarrow> i \<le> length a"
| "ranges_ok i ((s, e, t) # es) a \<longleftrightarrow> i \<le> s \<and> s \<le> e \<and> ranges_ok e es a"

lemma ranges_ok_le: "ranges_ok i es a \<Longrightarrow> i \<le> length a"
  by (induction i es a rule: ranges_ok.induct) auto

text \<open>How far an edit has got: the text so far is a beginning of the result, and the patch so far leads
  to it.\<close>

definition edited_to :: "'a list \<Rightarrow> 'a list \<Rightarrow> (nat \<times> nat \<times> 'a list) list \<Rightarrow> nat \<Rightarrow> 'a list \<Rightarrow> patch \<Rightarrow> bool" where
  "edited_to a b es i so_far p \<longleftrightarrow>
     ranges_ok i es a \<and> so_far @ spliced i es a = b \<and> covers a b 0 0 p i (length so_far)"

definition next_start :: "(nat \<times> nat \<times> 'a list) list \<Rightarrow> 'a list \<Rightarrow> nat" where
  "next_start es a = (case es of [] \<Rightarrow> length a | (s, _) # _ \<Rightarrow> s)"

lemma edited_to_start: "ranges_ok 0 es a \<Longrightarrow> edited_to a (spliced 0 es a) es 0 [] []"
  by (simp add: edited_to_def)

lemma edited_to_end: "edited_to a b [] i so_far p \<Longrightarrow> i = length a \<Longrightarrow> so_far = b \<and> leads a p b"
  by (auto simp: edited_to_def leads_def)

lemma edited_to_keep:
  assumes "edited_to a b es i so_far p" "i + k \<le> next_start es a"
  shows "edited_to a b es (i + k) (so_far @ take k (drop i a)) p"
proof -
  have len: "i + k \<le> length a"
  proof (cases es)
    case (Cons x xs)
    then obtain s e t where "x = (s, e, t)" by (cases x) auto
    with Cons assms have "i + k \<le> s" "s \<le> e" "ranges_ok e xs a" by (simp_all add: edited_to_def next_start_def)
    with ranges_ok_le [of e xs a] show ?thesis by simp
  qed (use assms in \<open>simp add: next_start_def\<close>)
  have "spliced i es a = take k (drop i a) @ spliced (i + k) es a"
  proof (cases es)
    case (Cons x xs)
    obtain s e t where x: "x = (s, e, t)" by (cases x) auto
    with assms(2) Cons obtain m where "s = i + k + m" by (auto simp: next_start_def le_iff_add)
    then have "take (s - i) (drop i a) = take k (drop i a) @ take (s - (i + k)) (drop (i + k) a)"
      by (simp add: take_add add.commute add.left_commute)
    with Cons x show ?thesis by simp
  next
    case Nil
    have "drop (i + k) a = drop k (drop i a)" by (simp add: add.commute)
    with Nil show ?thesis by (simp del: drop_drop)
  qed
  moreover from this assms(1) have b: "b = so_far @ take k (drop i a) @ spliced (i + k) es a" by (simp add: edited_to_def)
  have "aligned a b i (length so_far) (i + k) (length so_far + k)"
    using len by (auto simp: aligned_def b nth_append)
  moreover have "ranges_ok (i + k) es a"
    using assms len by (cases es) (auto simp: edited_to_def next_start_def)
  moreover have "length (take k (drop i a)) = k" using len by simp
  ultimately show ?thesis
    using assms(1) by (auto simp: edited_to_def intro: covers_extend)
qed

lemma edited_to_insert:
  assumes "edited_to a b ((i, e, t) # es) i so_far p"
  shows "edited_to a b ((i, e, []) # es) i (so_far @ t)
    (push p (mk_edit i i (length so_far) (length so_far + length t)))"
proof -
  from assms have r: "ranges_ok i ((i, e, t) # es) a" and b: "so_far @ t @ spliced e es a = b"
    and c: "covers a b 0 0 p i (length so_far)" by (simp_all add: edited_to_def)
  from r have "i \<le> length a" by (rule ranges_ok_le)
  with covers_push [OF c, of i "length so_far" i "length so_far + length t"] b r show ?thesis
    by (auto simp: edited_to_def)
qed

lemma edited_to_delete:
  assumes "edited_to a b ((i, e, []) # es) i so_far p" "i + k \<le> e"
  shows "edited_to a b ((i + k, e, []) # es) (i + k) so_far (push p (mk_edit i (i + k) (length so_far) (length so_far)))"
proof -
  from assms have r: "ranges_ok e es a" and b: "so_far @ spliced e es a = b"
    and c: "covers a b 0 0 p i (length so_far)" by (simp_all add: edited_to_def)
  from ranges_ok_le [OF r] assms(2) have len: "i \<le> length a" "i + k \<le> length a" by simp_all
  have "length so_far \<le> length b" using b by auto
  with covers_push [OF c, of i "length so_far" "i + k" "length so_far"] b r assms(2) len show ?thesis
    by (simp add: edited_to_def)
qed

lemma edited_to_done: "edited_to a b ((e, e, []) # es) e so_far p \<Longrightarrow> edited_to a b es e so_far p"
  by (simp add: edited_to_def)

lemma edited_to_begin: "edited_to a b ((s, e, t) # es) i so_far p \<Longrightarrow> i \<le> s \<and> s \<le> e \<and> e \<le> length a"
  by (auto simp: edited_to_def dest: ranges_ok_le)

end
