(* ===== verification/BufferEdit.thy ===== *)
theory BufferEdit
  imports BufferWalk
begin

text \<open>
  What a local edit does to a buffer. The visible and the deleted text are what the visible and the
  deleted fragments stand for, in order. An edit never panics on ranges in order, replaces exactly
  those ranges in the visible text, keeps every byte ever inserted, and keeps the invariant of the
  buffer; its patch leads from the old text to the new.
\<close>

section \<open>The state of an edit\<close>

definition slice_of :: "lamport \<Rightarrow> fragment \<Rightarrow> insertion_slice" where
  "slice_of ts f = InsertionSlice ts (fr_timestamp f) (fr_insertion_offset f) (fr_insertion_offset f + fr_len f)"

text \<open>The variables of an edit show how far the walk has got.\<close>

definition represents :: "(cell \<Rightarrow> 8 word) \<Rightarrow> fragment list \<Rightarrow> lamport \<Rightarrow> walk \<Rightarrow> edit_progress \<Rightarrow> bool" where
  "represents content F ts w st \<longleftrightarrow>
     walk_ok F ts w
     \<and> cursor_at fragment_ops text_dim (ep_old_fragments st) (wk_rest w) (text_sum (wk_passed w))
     \<and> cu_did_seek (ep_old_fragments st)
     \<and> builds (ep_new_fragments st) (wk_new w)
     \<and> ropes_at (map content (visible_cells F)) (map content (deleted_cells F)) (ep_fragment_start st)
         (length (deleted_cells (wk_passed w))) (map content (visible_cells (wk_new w)))
         (map content (deleted_cells (wk_new w))) (ep_new_ropes st)
     \<and> ep_fragment_start st = length (visible_cells (wk_passed w)) + wk_taken w
     \<and> ep_insertion_offset st = wk_inserted w
     \<and> ep_new_insertions st = map insert_new (wk_recorded w)
     \<and> ep_insertion_slices st = map (slice_of ts) (wk_touched w)"

lemma representsD:
  assumes "represents content F ts w st"
  shows "walk_ok F ts w"
    and "cursor_at fragment_ops text_dim (ep_old_fragments st) (wk_rest w) (text_sum (wk_passed w))"
    and "cu_did_seek (ep_old_fragments st)"
    and "builds (ep_new_fragments st) (wk_new w)"
    and "ropes_at (map content (visible_cells F)) (map content (deleted_cells F)) (ep_fragment_start st)
         (length (deleted_cells (wk_passed w))) (map content (visible_cells (wk_new w)))
         (map content (deleted_cells (wk_new w))) (ep_new_ropes st)"
    and "ep_fragment_start st = length (visible_cells (wk_passed w)) + wk_taken w"
    and "F = wk_passed w @ wk_rest w"
  using assms unfolding represents_def walk_ok_def by blast+

text \<open>The state of an edit with the edits to come.\<close>

definition editing ::
  "(cell \<Rightarrow> 8 word) \<Rightarrow> fragment list \<Rightarrow> lamport \<Rightarrow> rope \<Rightarrow> (nat \<times> nat \<times> rope) list \<Rightarrow> walk \<Rightarrow> edit_progress \<Rightarrow> bool" where
  "editing content F ts b es w st \<longleftrightarrow>
     represents content F ts w st
     \<and> edited_to (map content (visible_cells F)) b es (ep_fragment_start st) (map content (visible_cells (wk_new w)))
         (ep_edits_patch st)"

text \<open>The hypotheses on the fragments: well-formed, and not yet touched by the edit.\<close>

definition editable :: "fragment list \<Rightarrow> lamport \<Rightarrow> bool" where
  "editable F ts \<longleftrightarrow> fragments_ok F \<and> untouched ts F"

lemma cells_bound:
  assumes "fragments_ok fs" "f \<in> set fs"
  shows "fr_insertion_offset f + fr_len f < 2 ^ 32" "0 < fr_len f"
proof -
  from assms show len: "0 < fr_len f" by (simp add: fragments_ok_def)
  then have "(fr_timestamp f, fr_insertion_offset f + fr_len f - 1) \<in> set (cells f)" by (auto simp: cells_def)
  with assms have "fr_insertion_offset f + fr_len f - 1 < 2 ^ 32 - 1" by (force simp: fragments_ok_def all_cells_def)
  with len show "fr_insertion_offset f + fr_len f < 2 ^ 32" by simp
qed

lemma represents_rest:
  assumes "represents content F ts w st" "editable F ts"
  shows "\<forall>f \<in> set (wk_rest w). fr_insertion_offset f + fr_len f < 2 ^ 32 \<and> 0 < fr_len f"
  using assms cells_bound by (auto simp: represents_def walk_ok_def editable_def)

text \<open>The bytes of the old text behind the current position.\<close>

lemma visible_part:
  assumes "F = passed @ f # fs" "fr_visible f" "t + k \<le> fr_len f"
  shows "take k (drop (length (visible_cells passed) + t) (visible_cells F)) = take k (drop t (cells f))"
  using assms by simp

lemma current_part_at:
  assumes r: "represents content F ts w st" and e: "editable F ts" and rest: "wk_rest w = f # fs"
    and k: "wk_taken w + k \<le> fr_len f"
  shows "current_part k st = Some (f\<lparr>fr_len := k, fr_insertion_offset := fr_insertion_offset f + wk_taken w\<rparr>)"
proof -
  from represents_rest [OF r e] rest have "fr_insertion_offset f + fr_len f < 2 ^ 32" by simp
  with k have small: "as_u32 k = k" "as_u32 (wk_taken w) = wk_taken w" "fr_insertion_offset f + wk_taken w < 2 ^ 32"
    by (simp_all add: as_u32_def)
  from r have cu: "cursor_at fragment_ops text_dim (ep_old_fragments st) (f # fs) (text_sum (wk_passed w))"
      "cu_did_seek (ep_old_fragments st)"
    by (simp_all add: represents_def rest)
  from cursor_item_at(1) [OF cu] have "cursor_item (ep_old_fragments st) = Some (Some f)" by simp
  moreover from cu(1) have "old_start st = text_sum (wk_passed w)" by (simp add: old_start_def cursor_at_def)
  moreover from r have "ep_fragment_start st = length (visible_cells (wk_passed w)) + wk_taken w" by (simp add: represents_def)
  ultimately show ?thesis using small by (simp add: current_part_def sub_def add_u32_def)
qed

text \<open>Pushing a part of the current fragment, kept or deleted.\<close>

lemma push_part:
  assumes r: "represents content F ts w st" and e: "editable F ts" and rest: "wk_rest w = f # fs" and f: "fr_visible f"
    and k: "wk_taken w + k \<le> fr_len f" "0 < k"
    and part: "part = f\<lparr>fr_len := k, fr_insertion_offset := fr_insertion_offset f + wk_taken w\<rparr>"
    and g: "g = part\<lparr>fr_id := between (last_id (wk_new w)) (fr_id part),
                     fr_deletions := fr_deletions part @ (if deleted then [ts] else []), fr_visible := \<not> deleted\<rparr>"
    and w': "w' = w\<lparr>wk_new := wk_new w @ [g], wk_recorded := wk_recorded w @ [g], wk_taken := wk_taken w + k,
                    wk_touched := wk_touched w @ (if deleted then [g] else [])\<rparr>"
    and st0: "st0 = st\<lparr>ep_edits_patch := p, ep_insertion_slices := map (slice_of ts) (wk_touched w')\<rparr>"
  shows "\<exists>st'. push_piece g True st0 = Some st' \<and> represents content F ts w' (st'\<lparr>ep_fragment_start := ep_fragment_start st + k\<rparr>)
    \<and> ep_edits_patch st' = p \<and> ep_fragment_start st' = ep_fragment_start st \<and> ep_ranges st' = ep_ranges st \<and> ep_new_text st' = ep_new_text st
    \<and> map content (cells g) = take k (drop (ep_fragment_start st) (map content (visible_cells F)))"
proof -
  from r have ok: "walk_ok F ts w" and start: "ep_fragment_start st = length (visible_cells (wk_passed w)) + wk_taken w"
    by (simp_all add: represents_def)
  then have F: "F = wk_passed w @ f # fs" by (simp add: walk_ok_def rest)
  have cells: "cells g = take k (drop (wk_taken w) (cells f))" using k by (simp add: g part cells_part)
  then have bytes: "take k (drop (ep_fragment_start st) (map content (visible_cells F))) = map content (cells g)"
    using visible_part [OF F f k(1)] by (simp add: start take_map drop_map)
  have walk: "walk_ok F ts w'"
    unfolding w' using e f k cells by (intro walk_part [OF ok _ rest f]) (auto simp: editable_def g part)
  have len: "ep_fragment_start st + k \<le> length (map content (visible_cells F))" using k F f by (simp add: start)
  from rope_push_visible [OF representsD(5) [OF r] len, of "fr_visible g", unfolded bytes] obtain rb where
    "rope_push k True (fr_visible g) (ep_new_ropes st) = Some rb"
    "ropes_at (map content (visible_cells F)) (map content (deleted_cells F)) (ep_fragment_start st + k)
         (length (deleted_cells (wk_passed w'))) (map content (visible_cells (wk_new w')))
         (map content (deleted_cells (wk_new w'))) rb"
    by (cases "fr_visible g") (auto simp: w')
  moreover have "fr_len g = k" by (simp add: g part)
  ultimately show ?thesis
    using r walk bytes k(2) builds_push [of "ep_new_fragments st" "wk_new w" g]
    by (simp add: represents_def push_piece_def rope_push_fragment_def st0 w' add.assoc)
qed

definition same_record :: "edit_progress \<Rightarrow> edit_progress \<Rightarrow> bool" where
  "same_record st st' \<longleftrightarrow>
     ep_edits_patch st' = ep_edits_patch st \<and> ep_ranges st' = ep_ranges st \<and> ep_new_text st' = ep_new_text st"

lemma same_start: "ep_fragment_start st = i \<Longrightarrow> st\<lparr>ep_fragment_start := i\<rparr> = st"
  by auto

text \<open>Leaving a fragment that is done.\<close>

lemma next_done:
  assumes r: "represents content F ts w (st\<lparr>ep_fragment_start := i\<rparr>)" and rest: "wk_rest w = f # fs"
    and t: "wk_taken w = fr_len f" "0 < fr_len f"
  shows "\<exists>st'. next_fragment st = Some st' \<and> same_record st st' \<and> ep_fragment_start st' = ep_fragment_start st
    \<and> represents content F ts (w\<lparr>wk_passed := wk_passed w @ [f], wk_rest := fs, wk_taken := 0\<rparr>) (st'\<lparr>ep_fragment_start := i\<rparr>)"
proof -
  note ok = representsD(1) [OF r]
  from ok rest t have f: "fr_visible f" by (auto simp: walk_ok_def)
  from representsD(2,3) [OF r] rest have cu: "cursor_at fragment_ops text_dim (ep_old_fragments st) (f # fs) (text_sum (wk_passed w))"
    "cu_did_seek (ep_old_fragments st)" by simp_all
  from next_at [OF this] obtain cu' where cu': "cursor_next text_dim (ep_old_fragments st) = Some cu'"
    "cursor_at fragment_ops text_dim cu' fs (text_sum (wk_passed w @ [f]))" "cu_did_seek cu'"
    by (auto simp: text_sum_append)
  then show ?thesis
    using r f walk_skip [OF ok rest t] t by (auto simp: next_fragment_def represents_def same_record_def)
qed

text \<open>Leaving a fragment that was entered, with its rest.\<close>

lemma push_suffix_at:
  assumes r: "represents content F ts w st" and e: "editable F ts"
  shows "\<exists>st' w' k. push_suffix st = Some st' \<and> same_record st st' \<and> wk_taken w' = 0 \<and> wk_inserted w' = wk_inserted w
    \<and> represents content F ts w' (st'\<lparr>ep_fragment_start := ep_fragment_start st + k\<rparr>)
    \<and> ep_fragment_start st + k \<le> length (visible_cells (wk_passed w @ take 1 (wk_rest w)))
    \<and> map content (visible_cells (wk_new w')) =
        map content (visible_cells (wk_new w)) @ take k (drop (ep_fragment_start st) (map content (visible_cells F)))"
proof (cases "wk_taken w = 0")
  case True
  with r show ?thesis
    by (intro exI [of _ st] exI [of _ w] exI [of _ 0])
      (auto simp: push_suffix_def old_start_def same_record_def represents_def cursor_at_def)
next
  case False
  note ok = representsD(1) [OF r] and start = representsD(6) [OF r]
  from False ok obtain f fs where rest: "wk_rest w = f # fs" and f: "fr_visible f" "wk_taken w \<le> fr_len f"
    by (cases "wk_rest w") (auto simp: walk_ok_def)
  note cu = representsD(2,3) [OF r]
  from cursor_end_at [OF cu] obtain end_pos where end_pos: "cursor_end text_dim (ep_old_fragments st) = Some end_pos"
    "ft_visible end_pos = length (visible_cells (wk_passed w)) + fr_len f"
    using f by (simp add: rest text_add_def)
  from cu have pos: "old_start st = text_sum (wk_passed w)" by (simp add: old_start_def cursor_at_def)
  show ?thesis
  proof (cases "wk_taken w = fr_len f")
    case True
    with False have "0 < fr_len f" by simp
    from next_done [where st = st and i = "ep_fragment_start st" and content = content, OF _ rest True this] r obtain st' where
      "next_fragment st = Some st'" "same_record st st'" "represents content F ts
        (w\<lparr>wk_passed := wk_passed w @ [f], wk_rest := fs, wk_taken := 0\<rparr>) (st'\<lparr>ep_fragment_start := ep_fragment_start st\<rparr>)"
      by auto
    moreover have "push_suffix st = next_fragment st"
      using True False by (simp add: push_suffix_def pos start end_pos)
    ultimately show ?thesis using rest f True
      by (intro exI [of _ st'] exI [of _ "w\<lparr>wk_passed := wk_passed w @ [f], wk_rest := fs, wk_taken := 0\<rparr>"] exI [of _ 0])
        (simp add: start)
  next
    case t: False
    let ?k = "fr_len f - wk_taken w"
    define g where "g = f\<lparr>fr_len := ?k, fr_insertion_offset := fr_insertion_offset f + wk_taken w\<rparr>"
    have k: "wk_taken w + ?k \<le> fr_len f" using f by simp
    note part = current_part_at [OF r e rest k, folded g_def]
    have F: "F = wk_passed w @ f # fs" using representsD(7) [OF r] by (simp add: rest)
    have cells: "cells g = drop (wk_taken w) (cells f)" using f by (simp add: g_def cells_part)
    then have bytes: "take ?k (drop (ep_fragment_start st) (map content (visible_cells F))) = map content (cells g)"
      using visible_part [OF F f(1) k] by (simp add: start take_map drop_map)
    have walk: "walk_ok F ts (w\<lparr>wk_passed := wk_passed w @ [f], wk_rest := fs, wk_taken := 0, wk_new := wk_new w @ [g],
        wk_recorded := wk_recorded w @ [g]\<rparr>)" (is "walk_ok F ts ?w")
      using e False t f cells by (intro walk_suffix [OF ok _ rest]) (auto simp: editable_def g_def)
    have len: "ep_fragment_start st + ?k \<le> length (map content (visible_cells F))" using F f by (simp add: start)
    from rope_push_visible [OF representsD(5) [OF r] len, of True, unfolded bytes] obtain rb where
      rb: "rope_push ?k True True (ep_new_ropes st) = Some rb"
      "ropes_at (map content (visible_cells F)) (map content (deleted_cells F)) (ep_fragment_start st + ?k)
         (length (deleted_cells (wk_passed w))) (map content (visible_cells (wk_new w)) @ map content (cells g))
         (map content (deleted_cells (wk_new w))) rb"
      by auto
    from next_at [of "ep_old_fragments st" f fs "text_sum (wk_passed w)"] cu rest obtain cu' where
      cu': "cursor_next text_dim (ep_old_fragments st) = Some cu'"
      "cursor_at fragment_ops text_dim cu' fs (text_sum (wk_passed w @ [f]))" "cu_did_seek cu'"
      by (auto simp: text_sum_append)
    have g: "fr_len g = ?k" "fr_visible g" using f by (simp_all add: g_def)
    let ?st = "st\<lparr>ep_new_insertions := ep_new_insertions st @ [insert_new g], ep_new_ropes := rb,
        ep_new_fragments := builder_push g (ep_new_fragments st), ep_old_fragments := cu'\<rparr>"
    have "push_suffix st = Some ?st"
      using False t f part rb(1) cu'(1) g
      by (simp add: push_suffix_def pos start end_pos push_piece_def rope_push_fragment_def next_fragment_def)
    moreover have "represents content F ts ?w (?st\<lparr>ep_fragment_start := ep_fragment_start st + ?k\<rparr>)"
      using r walk cu'(2,3) rb(2) g f builds_push [OF representsD(4) [OF r], of g] by (simp add: represents_def start)
    ultimately show ?thesis
      using g f bytes by (intro exI [of _ ?st] exI [of _ ?w] exI [of _ ?k]) (simp add: same_record_def rest start)
  qed
qed

text \<open>Passing whole fragments.\<close>

lemma append_slice_at:
  assumes r: "represents content F ts w (st\<lparr>ep_fragment_start := i\<rparr>)" and e: "editable F ts"
    and t: "wk_taken w = 0" "wk_rest w = ys @ zs" "tree_ok fragment_ops t" "tree_items t = ys"
    and cu: "cursor_at fragment_ops text_dim cu zs (text_sum (wk_passed w @ ys))" "cu_did_seek cu"
  shows "\<exists>st'. append_slice t (st\<lparr>ep_old_fragments := cu\<rparr>) = Some st' \<and> same_record st st'
    \<and> ep_old_fragments st' = cu
    \<and> represents content F ts (w\<lparr>wk_passed := wk_passed w @ ys, wk_rest := zs, wk_new := wk_new w @ ys\<rparr>)
        (st'\<lparr>ep_fragment_start := i + length (visible_cells ys)\<rparr>)
    \<and> map content (visible_cells ys) = take (length (visible_cells ys)) (drop i (map content (visible_cells F)))"
proof -
  note F = representsD(7) [OF r] and start = representsD(6) [OF r] and ropes = representsD(5) [OF r]
  have walk: "walk_ok F ts (w\<lparr>wk_passed := wk_passed w @ ys, wk_rest := zs, wk_new := wk_new w @ ys\<rparr>)"
    using e t by (intro walk_pass [OF representsD(1) [OF r]]) (simp_all add: editable_def)
  have sum: "fs_text (summary t) = text_sum ys" using tree_summary [OF t(3)] t(4) by (simp add: frag_sum_fields)
  have bytes: "take (length (visible_cells ys)) (drop i (map content (visible_cells F))) = map content (visible_cells ys)"
    "take (length (deleted_cells ys)) (drop (length (deleted_cells (wk_passed w))) (map content (deleted_cells F)))
      = map content (deleted_cells ys)"
    using start t F by (simp_all add: take_map drop_map)
  from rope_append_at [OF ropes, of "text_sum ys"] start t F bytes obtain rb where
    "rope_append (text_sum ys) (ep_new_ropes st) = Some rb"
    "ropes_at (map content (visible_cells F)) (map content (deleted_cells F)) (i + length (visible_cells ys))
         (length (deleted_cells (wk_passed w @ ys))) (map content (visible_cells (wk_new w @ ys)))
         (map content (deleted_cells (wk_new w @ ys))) rb"
    by auto
  then show ?thesis
    using r walk cu start t bytes builds_append [OF representsD(4) [OF r] t(3)]
    by (auto simp: append_slice_def sum represents_def same_record_def)
qed

lemma slice_at:
  assumes r: "represents content F ts w (st\<lparr>ep_fragment_start := i\<rparr>)" and t: "wk_taken w = 0" and n: "i \<le> n"
  shows "\<exists>t cu ys zs. cursor_slice fragment_ops text_dim (visible_target n) BiasRight (ep_old_fragments st) = Some (t, cu)
    \<and> wk_rest w = ys @ zs \<and> tree_ok fragment_ops t \<and> tree_items t = ys
    \<and> cursor_at fragment_ops text_dim cu zs (text_sum (wk_passed w @ ys)) \<and> cu_did_seek cu
    \<and> i + length (visible_cells ys) \<le> n \<and> (zs \<noteq> [] \<longrightarrow> n < i + length (visible_cells (ys @ [hd zs])))"
  using slice_to_offset [of "ep_old_fragments st" "wk_rest w" "text_sum (wk_passed w)" n]
    representsD(2,6) [OF r] t n
  by (auto simp: text_sum_append visible_len_def)

text \<open>Where an edit begins, the position is in the current fragment or at one of its ends.\<close>

lemma advance_to_edit_at:
  assumes ed: "editing content F ts b ((s, x, t) # es) w st" and e: "editable F ts"
  shows "\<exists>st' w'. advance_to_edit s st = Some st' \<and> editing content F ts b ((s, x, t) # es) w' st'
    \<and> wk_inserted w' = wk_inserted w \<and> ep_ranges st' = ep_ranges st \<and> ep_new_text st' = ep_new_text st
    \<and> s \<le> length (visible_cells (wk_passed w' @ take 1 (wk_rest w')))"
proof -
  let ?V = "map content (visible_cells F)"
  from ed have r: "represents content F ts w st"
    and to: "edited_to ?V b ((s, x, t) # es) (ep_fragment_start st) (map content (visible_cells (wk_new w))) (ep_edits_patch st)"
    by (simp_all add: editing_def)
  from edited_to_begin [OF to] have le: "ep_fragment_start st \<le> s" "s \<le> length ?V" by auto
  from cursor_end_at [OF representsD(2,3) [OF r]] obtain end_pos where
    end_pos: "cursor_end text_dim (ep_old_fragments st) = Some end_pos"
      "ft_visible end_pos = length (visible_cells (wk_passed w @ take 1 (wk_rest w)))"
    by (auto simp: text_sum_append text_add_def)
  show ?thesis
  proof (cases "ft_visible end_pos < s")
    case False
    with ed end_pos show ?thesis by (intro exI [of _ st] exI [of _ w]) (simp add: advance_to_edit_def)
  next
    case True
    from push_suffix_at [OF r e] obtain st1 w1 k where
      1: "push_suffix st = Some st1" "same_record st st1" "wk_taken w1 = 0" "wk_inserted w1 = wk_inserted w"
        "represents content F ts w1 (st1\<lparr>ep_fragment_start := ep_fragment_start st + k\<rparr>)"
      and k: "ep_fragment_start st + k \<le> length (visible_cells (wk_passed w @ take 1 (wk_rest w)))"
      and new1: "map content (visible_cells (wk_new w1)) =
          map content (visible_cells (wk_new w)) @ take k (drop (ep_fragment_start st) ?V)"
      by blast
    let ?i = "ep_fragment_start st + k"
    from k True end_pos have i: "?i \<le> s" by simp
    from slice_at [OF 1(5,3) i] obtain p cu ys zs where
      2: "cursor_slice fragment_ops text_dim (visible_target s) BiasRight (ep_old_fragments st1) = Some (p, cu)"
        "wk_rest w1 = ys @ zs" "tree_ok fragment_ops p" "tree_items p = ys"
        "cursor_at fragment_ops text_dim cu zs (text_sum (wk_passed w1 @ ys))" "cu_did_seek cu"
      and ys: "?i + length (visible_cells ys) \<le> s" "zs \<noteq> [] \<longrightarrow> s < ?i + length (visible_cells (ys @ [hd zs]))"
      by blast
    let ?w = "w1\<lparr>wk_passed := wk_passed w1 @ ys, wk_rest := zs, wk_new := wk_new w1 @ ys\<rparr>"
    from append_slice_at [OF 1(5) e 1(3) 2(2-6)] obtain st2 where
      3: "append_slice p (st1\<lparr>ep_old_fragments := cu\<rparr>) = Some st2" "same_record st1 st2" "ep_old_fragments st2 = cu"
        "represents content F ts ?w (st2\<lparr>ep_fragment_start := ?i + length (visible_cells ys)\<rparr>)"
      and bytes: "map content (visible_cells ys) = take (length (visible_cells ys)) (drop ?i ?V)"
      by blast
    have start: "?i + length (visible_cells ys) = length (visible_cells (wk_passed ?w))"
      using representsD(6) [OF 3(4)] 1(3) by simp
    have "old_start st2 = text_sum (wk_passed ?w)" using 2(5) 3(3) by (simp add: old_start_def cursor_at_def)
    with 1(1) 2(1) 3(1) True end_pos have run: "advance_to_edit s st =
        Some (st2\<lparr>ep_fragment_start := ?i + length (visible_cells ys)\<rparr>)"
      by (simp add: advance_to_edit_def start)
    have "next_start ((s, x, t) # es) ?V = s" by (simp add: next_start_def)
    with i ys(1) have "edited_to ?V b ((s, x, t) # es) (?i + length (visible_cells ys))
        ((map content (visible_cells (wk_new w)) @ take k (drop (ep_fragment_start st) ?V)) @
          take (length (visible_cells ys)) (drop ?i ?V)) (ep_edits_patch st)"
      by (intro edited_to_keep edited_to_keep [OF to]) simp_all
    then have "edited_to ?V b ((s, x, t) # es) (?i + length (visible_cells ys)) (map content (visible_cells (wk_new ?w))) (ep_edits_patch st)"
      by (simp add: new1 bytes)
    moreover have "s \<le> length (visible_cells (wk_passed ?w @ take 1 zs))"
    proof (cases zs)
      case Nil
      with representsD(7) [OF 3(4)] le start show ?thesis by simp
    next
      case (Cons z zs')
      with ys(2) start show ?thesis by simp
    qed
    ultimately show ?thesis
      using run 3 1(2,4) by (intro exI [of _ "st2\<lparr>ep_fragment_start := ?i + length (visible_cells ys)\<rparr>"] exI [of _ ?w])
        (simp add: editing_def same_record_def)
  qed
qed

lemma new_summary_at:
  assumes "represents content F ts w st"
  shows "fs_max_id (new_summary st) = last_id (wk_new w)"
    and "ft_visible (fs_text (new_summary st)) = length (visible_cells (wk_new w))"
  using representsD(4) [OF assms] by (simp_all add: new_summary_def builds_def frag_sum_fields)

text \<open>The part of the current fragment before the edit.\<close>

lemma push_prefix_at:
  assumes ed: "editing content F ts b ((s, x, t) # es) w st" and e: "editable F ts"
    and s: "s \<le> length (visible_cells (wk_passed w @ take 1 (wk_rest w)))"
  shows "\<exists>st' w'. push_prefix s st = Some st' \<and> editing content F ts b ((s, x, t) # es) w' st'
    \<and> wk_inserted w' = wk_inserted w \<and> ep_ranges st' = ep_ranges st \<and> ep_new_text st' = ep_new_text st
    \<and> ep_fragment_start st' = s"
proof -
  let ?V = "map content (visible_cells F)"
  from ed have r: "represents content F ts w st"
    and to: "edited_to ?V b ((s, x, t) # es) (ep_fragment_start st) (map content (visible_cells (wk_new w))) (ep_edits_patch st)"
    by (simp_all add: editing_def)
  from edited_to_begin [OF to] have le: "ep_fragment_start st \<le> s" by simp
  note start = representsD(6) [OF r]
  show ?thesis
  proof (cases "ep_fragment_start st < s")
    case False
    with ed le show ?thesis by (intro exI [of _ st] exI [of _ w]) (simp add: push_prefix_def)
  next
    case True
    define k where "k = s - ep_fragment_start st"
    from True s start obtain f fs where rest: "wk_rest w = f # fs" and f: "fr_visible f"
      and k: "wk_taken w + k \<le> fr_len f" "0 < k"
      by (cases "wk_rest w") (auto simp: k_def split: if_splits)
    define part where "part = f\<lparr>fr_len := k, fr_insertion_offset := fr_insertion_offset f + wk_taken w\<rparr>"
    define g where "g = part\<lparr>fr_id := between (last_id (wk_new w)) (fr_id part),
                     fr_deletions := fr_deletions part @ (if False then [ts] else []), fr_visible := \<not> False\<rparr>"
    have g: "part\<lparr>fr_id := between (last_id (wk_new w)) (fr_id part)\<rparr> = g" "fr_visible g" "fr_visible part"
      using f by (cases f; simp add: g_def part_def)+
    let ?w = "w\<lparr>wk_new := wk_new w @ [g], wk_recorded := wk_recorded w @ [g], wk_taken := wk_taken w + k,
                    wk_touched := wk_touched w @ (if False then [g] else [])\<rparr>"
    have st: "st = st\<lparr>ep_edits_patch := ep_edits_patch st, ep_insertion_slices := map (slice_of ts) (wk_touched ?w)\<rparr>"
      using r by (simp add: represents_def)
    from push_part [OF r e rest f k part_def g_def refl st] obtain st' where
      st': "push_piece g True st = Some st'" "represents content F ts ?w (st'\<lparr>ep_fragment_start := ep_fragment_start st + k\<rparr>)"
        "ep_edits_patch st' = ep_edits_patch st" "ep_ranges st' = ep_ranges st" "ep_new_text st' = ep_new_text st"
        and bytes: "map content (cells g) = take k (drop (ep_fragment_start st) ?V)"
      by blast
    have k': "ep_fragment_start st + k = s" using True by (simp add: k_def)
    have "push_prefix s st = Some (st'\<lparr>ep_fragment_start := s\<rparr>)"
      using True st'(1) g current_part_at [OF r e rest k(1), folded part_def] new_summary_at(1) [OF r]
      by (simp add: push_prefix_def k_def [symmetric])
    moreover have "edited_to ?V b ((s, x, t) # es) (ep_fragment_start st + k)
        (map content (visible_cells (wk_new w)) @ take k (drop (ep_fragment_start st) ?V)) (ep_edits_patch st)"
      using k' by (intro edited_to_keep [OF to]) (simp add: next_start_def)
    ultimately show ?thesis
      using st' g bytes k' by (intro exI [of _ "st'\<lparr>ep_fragment_start := s\<rparr>"] exI [of _ ?w]) (simp add: editing_def)
  qed
qed

text \<open>New text becomes one fragment; only beyond the width of an offset would it take several.\<close>

lemma insert_text_at:
  assumes ed: "editing content F ts b ((s, x, t) # es) w st" and s: "ep_fragment_start st = s"
    and t: "map content (map (Pair ts) [wk_inserted w ..< wk_inserted w + length t]) = t" "wk_inserted w + length t < 2 ^ 32"
  shows "\<exists>st' w'. insert_text ts t st = Some st' \<and> editing content F ts b ((s, x, []) # es) w' st'
    \<and> wk_inserted w' = wk_inserted w + length t \<and> ep_ranges st' = ep_ranges st \<and> ep_new_text st' = ep_new_text st
    \<and> ep_fragment_start st' = s"
proof (cases "t = []")
  case True
  with ed s show ?thesis by (intro exI [of _ st] exI [of _ w]) (simp add: insert_text_def)
next
  case False
  let ?V = "map content (visible_cells F)"
  from ed have r: "represents content F ts w st"
    and to: "edited_to ?V b ((s, x, t) # es) s (map content (visible_cells (wk_new w))) (ep_edits_patch st)"
    using s by (simp_all add: editing_def)
  let ?id = "between (last_id (wk_new w)) (next_id (wk_rest w))"
  define h where "h = \<lparr>fr_id = ?id, fr_timestamp = ts, fr_insertion_offset = wk_inserted w, fr_len = length t,
      fr_visible = True, fr_deletions = [], fr_max_undos = vv_new\<rparr>"
  let ?w = "w\<lparr>wk_new := wk_new w @ [h], wk_recorded := wk_recorded w @ [h], wk_touched := wk_touched w @ [h],
      wk_inserted := wk_inserted w + length t\<rparr>"
  have walk: "walk_ok F ts ?w"
    using False by (intro walk_insert [OF representsD(1) [OF r]]) (simp_all add: h_def)
  have item: "cursor_item (ep_old_fragments st) = Some (case wk_rest w of [] \<Rightarrow> None | f # _ \<Rightarrow> Some f)"
    by (rule cursor_item_at(1) [OF representsD(2,3) [OF r]])
  then have next_id: "(case wk_rest w of [] \<Rightarrow> locator_max | f # _ \<Rightarrow> fr_id f) = next_id (wk_rest w)"
    by (simp add: next_id_def)
  have small: "as_u32 (length t) = length t" using t(2) by (simp add: as_u32_def)
  from r have offset: "ep_insertion_offset st = wk_inserted w" by (simp add: represents_def)
  let ?st = "st\<lparr>ep_insertion_slices := ep_insertion_slices st @ [slice_of ts h],
      ep_new_insertions := ep_new_insertions st @ [insert_new h],
      ep_new_fragments := builder_push h (ep_new_fragments st), ep_insertion_offset := wk_inserted w + length t\<rparr>"
  have chunk: "push_chunk ts ts (next_id (wk_rest w)) (length t) st = Some ?st"
    using t(2) by (simp add: push_chunk_def small offset new_summary_at(1) [OF r] slice_from_fragment_def add_u32_def
        slice_of_def h_def Let_def)
  have ends: "chunk_end t 0 = length t" "chunk_end t (length t) = length t"
    using t(2) by (simp_all add: chunk_end_def MAX_INSERTION_LEN_def min_def)
  have chunks: "push_chunks t ts ts (next_id (wk_rest w)) 0 st = Some ?st"
    using False chunk by (subst push_chunks.simps) (simp add: ends, subst push_chunks.simps, simp add: ends)
  let ?st' = "?st\<lparr>ep_new_ropes := rope_push_str t (ep_new_ropes st),
      ep_edits_patch := push (ep_edits_patch st) (mk_edit s s (length (visible_cells (wk_new w)))
        (length (visible_cells (wk_new w)) + length t))\<rparr>"
  have "insert_text ts t st = Some ?st'"
    using False item chunks s
    by (cases "wk_rest w") (simp_all add: insert_text_def push_fragments_for_insertion_def new_summary_at(2) [OF r] next_id_def Let_def)
  moreover have h: "map content (cells h) = t" "fr_visible h" using t(1) by (simp_all add: cells_def h_def)
  moreover have "represents content F ts ?w ?st'"
    using r walk h builds_push [OF representsD(4) [OF r], of h]
    by (simp add: represents_def ropes_at_def rope_push_str_def)
  moreover have "edited_to ?V b ((s, x, []) # es) s (map content (visible_cells (wk_new ?w))) (ep_edits_patch ?st')"
    using edited_to_insert [OF to] h by simp
  ultimately show ?thesis using s by (intro exI [of _ ?st'] exI [of _ ?w]) (simp add: editing_def)
qed

text \<open>A deleted fragment inside the range is passed as it is.\<close>

lemma delete_step_deleted:
  assumes ed: "editing content F ts b ((i, x, []) # es) w st" and e: "editable F ts"
    and i: "ep_fragment_start st = i" "i < x" and rest: "wk_rest w = f # fs" and f: "\<not> fr_visible f"
  shows "\<exists>st' w'. delete_step ts x st = Some st' \<and> editing content F ts b ((i, x, []) # es) w' st'
    \<and> wk_inserted w' = wk_inserted w \<and> ep_ranges st' = ep_ranges st \<and> ep_new_text st' = ep_new_text st
    \<and> ep_fragment_start st' = i \<and> wk_rest w' = fs"
proof -
  let ?V = "map content (visible_cells F)" and ?D = "map content (deleted_cells F)"
  from ed have r: "represents content F ts w st" by (simp add: editing_def)
  note start = representsD(6) [OF r] and F = representsD(7) [OF r] and cu = representsD(2,3) [OF r, unfolded rest]
  from representsD(1) [OF r] rest f have taken: "wk_taken w = 0" by (auto simp: walk_ok_def)
  from represents_rest [OF r e] rest have len: "0 < fr_len f" by simp
  from cursor_end_at [OF cu] f obtain end_pos where
    end_pos: "cursor_end text_dim (ep_old_fragments st) = Some end_pos" "ft_visible end_pos = i"
    using start i taken by (simp add: text_add_def)
  from cursor_item_at(1) [OF cu] have item: "cursor_item (ep_old_fragments st) = Some (Some f)" by simp
  have "length (deleted_cells (wk_passed w)) + fr_len f \<le> length ?D" using F rest f by simp
  from rope_push_deleted [OF representsD(5) [OF r] this] obtain rb where
    rb: "rope_push (fr_len f) False False (ep_new_ropes st) = Some rb"
      "ropes_at ?V ?D i (length (deleted_cells (wk_passed w @ [f]))) (map content (visible_cells (wk_new w)))
         (map content (deleted_cells (wk_new w @ [f]))) rb"
    using F rest f i by (auto simp: take_map drop_map)
  from next_at [OF cu] obtain cu' where cu': "cursor_next text_dim (ep_old_fragments st) = Some cu'"
    "cursor_at fragment_ops text_dim cu' fs (text_sum (wk_passed w @ [f]))" "cu_did_seek cu'"
    by (auto simp: text_sum_append)
  let ?w = "w\<lparr>wk_passed := wk_passed w @ [f], wk_rest := fs, wk_new := wk_new w @ [f], wk_recorded := wk_recorded w @ [f]\<rparr>"
  have walk: "walk_ok F ts ?w"
    using e taken rest by (intro walk_pass_recorded [OF representsD(1) [OF r]]) (simp_all add: editable_def)
  let ?st = "st\<lparr>ep_new_insertions := ep_new_insertions st @ [insert_new f], ep_new_ropes := rb,
      ep_new_fragments := builder_push f (ep_new_fragments st), ep_fragment_start := i, ep_old_fragments := cu'\<rparr>"
  have "delete_step ts x st = Some ?st"
    using item end_pos i f len rb(1) cu'(1)
    by (simp add: delete_step_def push_piece_def rope_push_fragment_def next_fragment_def)
  moreover have "represents content F ts ?w ?st"
    using r walk f rb(2) cu'(2,3) i taken start builds_push [OF representsD(4) [OF r], of f] by (simp add: represents_def)
  ultimately show ?thesis
    using ed f i by (intro exI [of _ ?st] exI [of _ ?w]) (simp add: editing_def)
qed

text \<open>A visible fragment inside the range is deleted up to the end of the range.\<close>

lemma delete_step_visible:
  assumes ed: "editing content F ts b ((i, x, []) # es) w st" and e: "editable F ts"
    and i: "ep_fragment_start st = i" "i < x" and rest: "wk_rest w = f # fs" and f: "fr_visible f"
  shows "\<exists>st' w' j. delete_step ts x st = Some st' \<and> editing content F ts b ((j, x, []) # es) w' st'
    \<and> wk_inserted w' = wk_inserted w \<and> ep_ranges st' = ep_ranges st \<and> ep_new_text st' = ep_new_text st
    \<and> ep_fragment_start st' = j \<and> j \<le> x \<and> (i < j \<or> j = i \<and> wk_rest w' = fs)"
proof -
  let ?V = "map content (visible_cells F)"
  from ed have r: "represents content F ts w st"
    and to: "edited_to ?V b ((i, x, []) # es) i (map content (visible_cells (wk_new w))) (ep_edits_patch st)"
    using i by (simp_all add: editing_def)
  note start = representsD(6) [OF r] and cu = representsD(2,3) [OF r, unfolded rest]
  from represents_rest [OF r e] rest have len: "0 < fr_len f" "fr_insertion_offset f + fr_len f < 2 ^ 32" by simp_all
  from representsD(1) [OF r] rest have taken: "wk_taken w \<le> fr_len f" by (auto simp: walk_ok_def)
  let ?fin = "length (visible_cells (wk_passed w)) + fr_len f"
  from cursor_end_at [OF cu] f obtain end_pos where
    end_pos: "cursor_end text_dim (ep_old_fragments st) = Some end_pos" "ft_visible end_pos = ?fin"
    by (simp add: text_add_def)
  from cursor_item_at(1) [OF cu] have item: "cursor_item (ep_old_fragments st) = Some (Some f)" by simp
  define k where "k = min x ?fin - i"
  have k: "wk_taken w + k \<le> fr_len f" "i + k = min x ?fin" using start i taken by (auto simp: k_def)
  define part where "part = f\<lparr>fr_len := k, fr_insertion_offset := fr_insertion_offset f + wk_taken w\<rparr>"
  define g where "g = part\<lparr>fr_id := between (last_id (wk_new w)) (fr_id part),
                   fr_deletions := fr_deletions part @ (if True then [ts] else []), fr_visible := \<not> True\<rparr>"
  have sub: "sub (min x ?fin) (ep_fragment_start st) = Some k"
    using start i taken by (auto simp: sub_def k_def)
  note part = current_part_at [OF r e rest k(1), folded part_def]
  have g: "fr_len g = k" "\<not> fr_visible g" "fr_len part = k" by (simp_all add: g_def part_def)
  have gd: "part\<lparr>fr_id := between (last_id (wk_new w)) (fr_id part), fr_deletions := fr_deletions part @ [ts], fr_visible := False\<rparr> = g"
    by (simp add: g_def)
  show ?thesis
  proof (cases "k = 0")
    case True
    with k start i have fin: "wk_taken w = fr_len f" "?fin \<le> x" by auto
    from r i have "represents content F ts w (st\<lparr>ep_fragment_start := i\<rparr>)" by auto
    from next_done [OF this rest fin(1) len(1)] i obtain st' where
      st': "next_fragment st = Some st'" "same_record st st'" "ep_fragment_start st' = i" "represents content F ts
        (w\<lparr>wk_passed := wk_passed w @ [f], wk_rest := fs, wk_taken := 0\<rparr>) (st'\<lparr>ep_fragment_start := i\<rparr>)"
      by auto
    have "delete_step ts x st = Some st'"
      using item end_pos f sub part g True fin(2) st'(1) new_summary_at(1) [OF r]
      by (simp add: delete_step_def Let_def gd)
    then show ?thesis
      using st' to i by (intro exI [of _ st'] exI [of _ "w\<lparr>wk_passed := wk_passed w @ [f], wk_rest := fs, wk_taken := 0\<rparr>"] exI [of _ i])
        (simp add: editing_def same_record_def same_start)
  next
    case False
    let ?n = "length (visible_cells (wk_new w))"
    let ?w = "w\<lparr>wk_new := wk_new w @ [g], wk_recorded := wk_recorded w @ [g], wk_taken := wk_taken w + k,
                wk_touched := wk_touched w @ (if True then [g] else [])\<rparr>"
    let ?p = "push (ep_edits_patch st) (mk_edit i (i + k) ?n ?n)"
    let ?st0 = "st\<lparr>ep_edits_patch := ?p, ep_insertion_slices := map (slice_of ts) (wk_touched ?w)\<rparr>"
    from False have "0 < k" by simp
    from push_part [OF r e rest f k(1) this part_def g_def refl refl, of ?p] i obtain st1 where
      st1: "push_piece g True ?st0 = Some st1" "represents content F ts ?w (st1\<lparr>ep_fragment_start := i + k\<rparr>)"
        "ep_edits_patch st1 = ?p" "ep_ranges st1 = ep_ranges st" "ep_new_text st1 = ep_new_text st"
      by auto
    have slices: "ep_insertion_slices st @ [slice_of ts g] = map (slice_of ts) (wk_touched ?w)"
      using r by (simp add: represents_def)
    have touched: "slice_from_fragment ts g = Some (slice_of ts g)"
      using len(2) k(1) by (simp add: slice_from_fragment_def slice_of_def add_u32_def g_def part_def)
    have step: "delete_step ts x st =
        (if ?fin \<le> x then next_fragment (st1\<lparr>ep_fragment_start := i + k\<rparr>) else Some (st1\<lparr>ep_fragment_start := i + k\<rparr>))"
      using item end_pos f sub part g \<open>0 < k\<close> st1(1) touched new_summary_at [OF r] i(1)
      by (simp add: delete_step_def Let_def gd k(2) slices del: list.map map_append)
    have to': "edited_to ?V b ((i + k, x, []) # es) (i + k) (map content (visible_cells (wk_new ?w))) ?p"
      using edited_to_delete [OF to, of k] k(2) g by simp
    show ?thesis
    proof (cases "?fin \<le> x")
      case True
      with k(2) start i have all: "wk_taken ?w = fr_len f" by simp
      have r1: "represents content F ts ?w (st1\<lparr>ep_fragment_start := i + k\<rparr>\<lparr>ep_fragment_start := i + k\<rparr>)" using st1(2) by simp
      have rest1: "wk_rest ?w = f # fs" using rest by simp
      from next_done [OF r1 rest1 all len(1)] obtain st' where
        "next_fragment (st1\<lparr>ep_fragment_start := i + k\<rparr>) = Some st'" "same_record (st1\<lparr>ep_fragment_start := i + k\<rparr>) st'"
        "ep_fragment_start st' = i + k"
        "represents content F ts (?w\<lparr>wk_passed := wk_passed ?w @ [f], wk_rest := fs, wk_taken := 0\<rparr>) (st'\<lparr>ep_fragment_start := i + k\<rparr>)"
        by auto
      with True step st1(3-5) to' k(2) \<open>0 < k\<close> show ?thesis
        by (intro exI [of _ st'] exI [of _ "?w\<lparr>wk_passed := wk_passed ?w @ [f], wk_rest := fs, wk_taken := 0\<rparr>"] exI [of _ "i + k"])
          (simp add: editing_def same_record_def same_start)
    next
      case False
      with step st1 to' k(2) \<open>0 < k\<close> show ?thesis
        by (intro exI [of _ "st1\<lparr>ep_fragment_start := i + k\<rparr>"] exI [of _ ?w] exI [of _ "i + k"])
          (simp add: editing_def)
    qed
  qed
qed

text \<open>The loop ends at the end of the range.\<close>

lemma delete_loop_at:
  assumes "editing content F ts b ((i, x, []) # es) w st" "editable F ts" "ep_fragment_start st = i" "i \<le> x"
  shows "\<exists>st' w'. delete_loop ts x st = Some st' \<and> editing content F ts b es w' st'
    \<and> wk_inserted w' = wk_inserted w \<and> ep_ranges st' = ep_ranges st \<and> ep_new_text st' = ep_new_text st"
  using assms
proof (induction "(x - i, length (wk_rest w))" arbitrary: i w st
    rule: wf_induct_rule [OF wf_lex_prod [OF wf_less_than wf_less_than], case_names less])
  case less
  note ed = less.prems(1) and e = less.prems(2) and start = less.prems(3)
  show ?case
  proof (cases "i < x")
    case False
    with less.prems(4) have x: "x = i" by simp
    have "delete_loop ts x st = Some st" using start by (subst delete_loop.simps) (simp add: x)
    moreover have "editing content F ts b es w st" using ed start by (simp add: editing_def x edited_to_done)
    ultimately show ?thesis by blast
  next
    case True
    from ed have r: "represents content F ts w st"
      and to: "edited_to (map content (visible_cells F)) b ((i, x, []) # es) i (map content (visible_cells (wk_new w))) (ep_edits_patch st)"
      using start by (simp_all add: editing_def)
    from True edited_to_begin [OF to] have "i < length (visible_cells F)" by auto
    with start representsD(1,6,7) [OF r] obtain f fs where rest: "wk_rest w = f # fs"
      by (cases "wk_rest w") (auto simp: walk_ok_def)
    from delete_step_deleted [OF ed e start True rest] delete_step_visible [OF ed e start True rest]
    obtain st1 w1 j where 1: "delete_step ts x st = Some st1" "editing content F ts b ((j, x, []) # es) w1 st1"
      "wk_inserted w1 = wk_inserted w" "ep_ranges st1 = ep_ranges st" "ep_new_text st1 = ep_new_text st"
      "ep_fragment_start st1 = j" "j \<le> x" "i < j \<or> j = i \<and> wk_rest w1 = fs"
      using True by (cases "fr_visible f") (blast, fastforce)
    have "((x - j, length (wk_rest w1)), (x - i, length (wk_rest w))) \<in> less_than <*lex*> less_than"
      using 1(7,8) True rest by auto
    from less.hyps [OF this 1(2) e 1(6,7)] 1(1,3-5) True start show ?thesis
      by (subst delete_loop.simps) auto
  qed
qed

text \<open>One edit, and all of them.\<close>

lemma apply_one_edit_at:
  assumes ed: "editing content F ts b ((s, x, normalize t) # es) w st" and e: "editable F ts"
    and t: "map content (map (Pair ts) [wk_inserted w ..< wk_inserted w + length (normalize t)]) = normalize t"
      "wk_inserted w + length (normalize t) < 2 ^ 32"
  shows "\<exists>st' w'. apply_one_edit ts (s, x, t) st = Some st' \<and> editing content F ts b es w' st'
    \<and> wk_inserted w' = wk_inserted w + length (normalize t) \<and> ep_new_text st' = ep_new_text st @ [normalize t]"
proof -
  from advance_to_edit_at [OF ed e] obtain st1 w1 where
    1: "advance_to_edit s st = Some st1" "editing content F ts b ((s, x, normalize t) # es) w1 st1"
      "wk_inserted w1 = wk_inserted w" "ep_new_text st1 = ep_new_text st"
      "s \<le> length (visible_cells (wk_passed w1 @ take 1 (wk_rest w1)))" by blast
  from push_prefix_at [OF 1(2) e 1(5)] obtain st2 w2 where
    2: "push_prefix s st1 = Some st2" "editing content F ts b ((s, x, normalize t) # es) w2 st2"
      "wk_inserted w2 = wk_inserted w" "ep_new_text st2 = ep_new_text st" "ep_fragment_start st2 = s"
    using 1(3,4) by auto
  from insert_text_at [OF 2(2,5)] t 2(3,4) obtain st3 w3 where
    3: "insert_text ts (normalize t) st2 = Some st3" "editing content F ts b ((s, x, []) # es) w3 st3"
      "wk_inserted w3 = wk_inserted w + length (normalize t)" "ep_new_text st3 = ep_new_text st" "ep_fragment_start st3 = s"
    by auto
  from 3(2,5) have "s \<le> x" by (auto simp: editing_def dest: edited_to_begin)
  from delete_loop_at [OF 3(2) e 3(5) this] 3(3,4) obtain st4 w4 where
    4: "delete_loop ts x st3 = Some st4" "editing content F ts b es w4 st4"
      "wk_inserted w4 = wk_inserted w + length (normalize t)" "ep_new_text st4 = ep_new_text st" by auto
  let ?st = "st4\<lparr>ep_ranges := ep_ranges st4 @ [(s + ft_deleted (old_start st1), x + ft_deleted (old_start st4))],
      ep_new_text := ep_new_text st4 @ [normalize t]\<rparr>"
  have "apply_one_edit ts (s, x, t) st = Some ?st"
    using 1(1) 2(1) 3(1) 4(1) by (simp add: apply_one_edit_def Let_def)
  moreover have "editing content F ts b es w4 ?st" using 4(2) by (auto simp: editing_def represents_def)
  ultimately show ?thesis using 4(3,4) by auto
qed

definition normalized :: "(nat \<times> nat \<times> rope) list \<Rightarrow> (nat \<times> nat \<times> rope) list" where
  "normalized es = map (\<lambda>(s, x, t). (s, x, normalize t)) es"

definition inserted_text :: "(nat \<times> nat \<times> rope) list \<Rightarrow> rope" where
  "inserted_text es = concat (map (\<lambda>(s, x, t). normalize t) es)"

lemma edits_simps [simp]:
  "normalized [] = []" "normalized ((s, x, t) # es) = (s, x, normalize t) # normalized es"
  "inserted_text [] = []" "inserted_text ((s, x, t) # es) = normalize t @ inserted_text es"
  by (simp_all add: normalized_def inserted_text_def)

lemma apply_edits_at:
  assumes "editing content F ts b (normalized es) w st" "editable F ts"
    "map content (map (Pair ts) [wk_inserted w ..< wk_inserted w + length (inserted_text es)]) = inserted_text es"
    "wk_inserted w + length (inserted_text es) < 2 ^ 32"
  shows "\<exists>st' w'. apply_edits ts es st = Some st' \<and> editing content F ts b [] w' st'
    \<and> wk_inserted w' = wk_inserted w + length (inserted_text es)
    \<and> ep_new_text st' = ep_new_text st @ map (\<lambda>(s, x, t). normalize t) es"
  using assms
proof (induction es arbitrary: w st)
  case (Cons y es)
  obtain s x t where y: "y = (s, x, t)" by (cases y) auto
  let ?n = "wk_inserted w" and ?k = "length (normalize t)" and ?m = "length (inserted_text es)"
  have "[?n ..< ?n + (?k + ?m)] = [?n ..< ?n + ?k] @ [?n + ?k ..< ?n + ?k + ?m]"
    using upt_add_eq_append [of ?n "?n + ?k" ?m] by (simp add: add.assoc)
  with Cons.prems(3) have new: "map content (map (Pair ts) [?n ..< ?n + ?k]) = normalize t"
    "map content (map (Pair ts) [?n + ?k ..< ?n + ?k + ?m]) = inserted_text es" by (simp_all add: y)
  from apply_one_edit_at [OF _ Cons.prems(2) new(1), where b = b and st = st and s = s and x = x and es = "normalized es"]
    Cons.prems(1,4) obtain st1 w1 where
    1: "apply_one_edit ts (s, x, t) st = Some st1" "editing content F ts b (normalized es) w1 st1"
      "wk_inserted w1 = ?n + ?k" "ep_new_text st1 = ep_new_text st @ [normalize t]"
    by (auto simp: y)
  from Cons.IH [OF 1(2) Cons.prems(2)] new(2) Cons.prems(4) 1 show ?case by (auto simp: y add.assoc)
qed auto

end
