(* ===== verification/BufferContract.thy ===== *)
theory BufferContract
  imports BufferEdit
begin

text \<open>
  The contract of a local edit: the invariant of a buffer, the walk over all of its fragments, what is
  committed at its end, and the properties of \<open>apply_edit_internal\<close> and of new buffers.
\<close>

section \<open>The invariant of a buffer\<close>

abbreviation buffer_fragments :: "buffer_snapshot \<Rightarrow> fragment list" where
  "buffer_fragments sn \<equiv> tree_items (bs_fragments sn)"

text \<open>The texts are what the fragments stand for, and the fragments are found by insertion.\<close>

definition buffer_ok :: "(cell \<Rightarrow> 8 word) \<Rightarrow> buffer_snapshot \<Rightarrow> bool" where
  "buffer_ok content sn \<longleftrightarrow>
     tree_ok fragment_ops (bs_fragments sn) \<and> fragments_ok (buffer_fragments sn)
     \<and> bs_visible_text sn = map content (visible_cells (buffer_fragments sn))
     \<and> bs_deleted_text sn = map content (deleted_cells (buffer_fragments sn))
     \<and> tree_ok insertion_ops (bs_insertions sn) \<and> key_sorted insertion_key (tree_items (bs_insertions sn))
     \<and> set (tree_items (bs_insertions sn)) = insertion_fragment_new ` set (buffer_fragments sn)
     \<and> map_ok (bs_insertion_slices sn)"

definition shallow :: "buffer_snapshot \<Rightarrow> bool" where
  "shallow sn \<longleftrightarrow> height (bs_fragments sn) < STACK_CAPACITY \<and> height (bs_insertions sn) < STACK_CAPACITY
     \<and> height (bs_insertion_slices sn) < STACK_CAPACITY"

text \<open>The bytes of a new insertion.\<close>

definition with_text :: "(cell \<Rightarrow> 8 word) \<Rightarrow> lamport \<Rightarrow> rope \<Rightarrow> cell \<Rightarrow> 8 word" where
  "with_text content ts t = (\<lambda>(id, n). if id = ts \<and> n < length t then t ! n else content (id, n))"

lemma with_text_new: "map (with_text content ts t) (map (Pair ts) [0 ..< length t]) = t"
  by (rule nth_equalityI) (simp_all add: with_text_def)

lemma cells_of_fragment: "c \<in> set (all_cells fs) \<Longrightarrow> \<exists>f \<in> set fs. c \<in> set (cells f) \<and> fst c = fr_timestamp f"
  by (auto simp: all_cells_def cells_def)

lemma with_text_old:
  assumes "untouched ts F"
  shows "map (with_text content ts t) (visible_cells F) = map content (visible_cells F)"
    "map (with_text content ts t) (deleted_cells F) = map content (deleted_cells F)"
proof -
  have "with_text content ts t c = content c" if "c \<in> set (all_cells (filter P F))" for c P
    using cells_of_fragment [OF that] assms by (auto simp: with_text_def untouched_def touched_by_def split: prod.splits)
  then show "map (with_text content ts t) (visible_cells F) = map content (visible_cells F)"
    "map (with_text content ts t) (deleted_cells F) = map content (deleted_cells F)"
    by (simp_all add: visible_cells_def deleted_cells_def)
qed

section \<open>The beginning and the end of the walk\<close>

lemma begin_edit_at:
  assumes sn: "buffer_ok content sn" "shallow sn" and e: "editable (buffer_fragments sn) ts"
    and es: "es \<noteq> []" "ranges_ok 0 es (bs_visible_text sn)"
  shows "\<exists>st w. begin_edit (fst (hd es)) sn = Some st \<and> wk_inserted w = 0 \<and> ep_new_text st = []
    \<and> editing content (buffer_fragments sn) ts (spliced 0 es (bs_visible_text sn)) es w st"
proof -
  let ?F = "buffer_fragments sn" and ?V = "bs_visible_text sn" and ?n = "fst (hd es)"
  from sn have tree: "tree_ok fragment_ops (bs_fragments sn)" "height (bs_fragments sn) < STACK_CAPACITY"
    and texts: "?V = map content (visible_cells ?F)" "bs_deleted_text sn = map content (deleted_cells ?F)"
    by (simp_all add: buffer_ok_def shallow_def)
  have zero: "ft_visible text_zero = 0" by (simp add: text_zero_def)
  have "cursor_at fragment_ops text_dim (cursor_new text_dim (bs_fragments sn)) ?F text_zero"
    using cursor_at_new [OF tree, of text_dim] by simp
  from slice_to_offset [OF this, of ?n] obtain t cu ys zs where
    cu: "cursor_slice fragment_ops text_dim (visible_target ?n) BiasRight (cursor_new text_dim (bs_fragments sn)) = Some (t, cu)"
      "?F = ys @ zs" "tree_ok fragment_ops t" "tree_items t = ys"
      "cursor_at fragment_ops text_dim cu zs (text_sum ys)" "cu_did_seek cu" and n: "length (visible_cells ys) \<le> ?n"
    using zero by (auto simp: visible_len_def)
  let ?w = "\<lparr>wk_passed = ys, wk_rest = zs, wk_taken = 0, wk_new = ys, wk_recorded = [], wk_touched = [], wk_inserted = 0\<rparr>"
  have walk: "walk_ok ?F ts ?w"
    using walk_pass [OF walk_start, of ?F ts ys zs] e cu(2) by (simp add: editable_def fragments_ok_def)
  have b: "builds (builder_new t) ys" using builds_new [OF cu(3)] cu(4) by simp
  then have sum: "fs_text (fb_summary (builder_new t)) = text_sum ys" by (simp add: builds_def frag_sum_fields)
  have "ropes_at ?V (bs_deleted_text sn) 0 0 [] []
      (rope_builder_new \<lparr>rc_rope = ?V, rc_offset = 0\<rparr> \<lparr>rc_rope = bs_deleted_text sn, rc_offset = 0\<rparr>)"
    by (simp add: ropes_at_def rope_builder_new_def)
  from rope_append_at [OF this, of "text_sum ys"] cu(2) texts obtain rb where
    rb: "rope_append (text_sum ys) (rope_builder_new \<lparr>rc_rope = ?V, rc_offset = 0\<rparr>
        \<lparr>rc_rope = bs_deleted_text sn, rc_offset = 0\<rparr>) = Some rb"
      "ropes_at ?V (bs_deleted_text sn) (length (visible_cells ys)) (length (deleted_cells ys))
        (map content (visible_cells ys)) (map content (deleted_cells ys)) rb"
    by (auto simp: take_map)
  let ?st = "\<lparr>ep_old_fragments = cu, ep_new_fragments = builder_new t, ep_new_ropes = rb,
           ep_fragment_start = length (visible_cells ys), ep_insertion_offset = 0, ep_new_insertions = [],
           ep_insertion_slices = [], ep_edits_patch = [], ep_ranges = [], ep_new_text = []\<rparr>"
  have "cu_position cu = text_sum ys" using cu(5) by (simp add: cursor_at_def)
  with cu(1) rb(1) have "begin_edit ?n sn = Some ?st" by (simp add: begin_edit_def sum)
  moreover have "represents content ?F ts ?w ?st"
    using walk cu(5,6) b rb(2) texts by (simp add: represents_def)
  moreover have "next_start es ?V = ?n" using es(1) by (cases es) (auto simp: next_start_def)
  then have "edited_to ?V (spliced 0 es ?V) es (0 + length (visible_cells ys))
      ([] @ take (length (visible_cells ys)) (drop 0 ?V)) []"
    using n by (intro edited_to_keep [OF edited_to_start [OF es(2)]]) simp
  then have "edited_to ?V (spliced 0 es ?V) es (length (visible_cells ys)) (map content (visible_cells ys)) []"
    using texts(1) cu(2) by (simp add: take_map)
  ultimately show ?thesis using texts(1) by (intro exI [of _ ?st] exI [of _ ?w]) (simp add: editing_def)
qed

lemma suffix_at:
  assumes "cursor_at fragment_ops text_dim cu fs p"
  shows "\<exists>t cu'. cursor_suffix fragment_ops text_dim cu = Some (t, cu') \<and> tree_ok fragment_ops t \<and> tree_items t = fs
    \<and> cursor_at fragment_ops text_dim cu' [] (text_add p (text_sum fs)) \<and> cu_did_seek cu'"
proof -
  have never: "target_in end_target BiasRight = (\<lambda>_. False)" by (auto simp: target_in_def end_target_def)
  have "ordered_ends (target_in end_target BiasRight) (item_ends fragment_ops text_dim p fs)"
    by (simp add: never ordered_ends_def sorted_wrt_iff_nth_less)
  from fragments.cursor_slice_splits [OF assms _ this] show ?thesis
    by (auto simp: end_target_def never cursor_suffix_def seek_splits_def item_ends_text)
qed

text \<open>At the end every fragment is passed.\<close>

lemma finish_edit_at:
  assumes ed: "editing content F ts b [] w st" and e: "editable F ts"
  shows "\<exists>st' w'. finish_edit st = Some st' \<and> wk_inserted w' = wk_inserted w \<and> same_record st st'
    \<and> represents content F ts w' (st'\<lparr>ep_fragment_start := length (visible_cells F)\<rparr>)
    \<and> wk_rest w' = [] \<and> wk_taken w' = 0
    \<and> map content (visible_cells (wk_new w')) = b \<and> leads (map content (visible_cells F)) (ep_edits_patch st') b"
proof -
  let ?V = "map content (visible_cells F)"
  from ed have r: "represents content F ts w st"
    and to: "edited_to ?V b [] (ep_fragment_start st) (map content (visible_cells (wk_new w))) (ep_edits_patch st)"
    by (simp_all add: editing_def)
  from push_suffix_at [OF r e] obtain st1 w1 k where
    1: "push_suffix st = Some st1" "same_record st st1" "wk_taken w1 = 0" "wk_inserted w1 = wk_inserted w"
      "represents content F ts w1 (st1\<lparr>ep_fragment_start := ep_fragment_start st + k\<rparr>)"
    and new1: "map content (visible_cells (wk_new w1)) =
        map content (visible_cells (wk_new w)) @ take k (drop (ep_fragment_start st) ?V)"
    by blast
  let ?i = "ep_fragment_start st + k" and ?ys = "wk_rest w1"
  from representsD(2) [OF 1(5)] have at: "cursor_at fragment_ops text_dim (ep_old_fragments st1) ?ys (text_sum (wk_passed w1))"
    by simp
  from suffix_at [OF at] obtain t cu where
    2: "cursor_suffix fragment_ops text_dim (ep_old_fragments st1) = Some (t, cu)" "tree_ok fragment_ops t" "tree_items t = ?ys"
      "cursor_at fragment_ops text_dim cu [] (text_sum (wk_passed w1 @ ?ys))" "cu_did_seek cu"
    by (auto simp: text_sum_append)
  let ?w = "w1\<lparr>wk_passed := wk_passed w1 @ ?ys, wk_rest := [], wk_new := wk_new w1 @ ?ys\<rparr>"
  from append_slice_at [OF 1(5) e 1(3) _ 2(2-5), unfolded append_Nil2, OF refl] obtain st2 where
    3: "append_slice t (st1\<lparr>ep_old_fragments := cu\<rparr>) = Some st2" "same_record st1 st2"
      "represents content F ts ?w (st2\<lparr>ep_fragment_start := ?i + length (visible_cells ?ys)\<rparr>)"
    and bytes: "map content (visible_cells ?ys) = take (length (visible_cells ?ys)) (drop ?i ?V)"
    by blast
  have F: "F = wk_passed w1 @ ?ys" by (rule representsD(7) [OF 1(5)])
  have total: "?i + length (visible_cells ?ys) = length (visible_cells F)"
    using representsD(6) [OF 1(5)] 1(3) arg_cong [OF F, of "\<lambda>fs. length (visible_cells fs)"] by simp
  have "edited_to ?V b [] (?i + length (visible_cells ?ys))
        ((map content (visible_cells (wk_new w)) @ take k (drop (ep_fragment_start st) ?V)) @
          take (length (visible_cells ?ys)) (drop ?i ?V)) (ep_edits_patch st)"
    using total by (intro edited_to_keep edited_to_keep [OF to]) (simp_all add: next_start_def)
  then have "edited_to ?V b [] (length (visible_cells F)) (map content (visible_cells (wk_new ?w))) (ep_edits_patch st)"
    unfolding total by (simp add: new1 bytes)
  from edited_to_end [OF this] have "map content (visible_cells (wk_new ?w)) = b \<and> leads ?V (ep_edits_patch st) b" by simp
  moreover have "finish_edit st = Some st2" using 1(1) 2(1) 3(1) by (simp add: finish_edit_def)
  ultimately show ?thesis
    using 1(2-4) 3(2,3) by (intro exI [of _ st2] exI [of _ ?w]) (auto simp: total same_record_def)
qed

section \<open>What is committed\<close>

lemma distinct_keys: "\<lbrakk>distinct (all_cells fs); \<forall>f \<in> set fs. 0 < fr_len f\<rbrakk> \<Longrightarrow> distinct (map fragment_key fs)"
proof (induction fs)
  case (Cons f fs)
  have first: "(fr_timestamp g, fr_insertion_offset g) \<in> set (cells g)" if "0 < fr_len g" for g
    using that by (auto simp: cells_def)
  have "fragment_key f \<noteq> fragment_key g" if "g \<in> set fs" for g
  proof
    assume "fragment_key f = fragment_key g"
    then have "(fr_timestamp f, fr_insertion_offset f) \<in> set (cells f) \<inter> set (cells g)"
      using first [of f] first [of g] Cons.prems(2) that by (auto simp: fragment_key_def)
    with Cons.prems(1) that show False by (auto simp: all_cells_def)
  qed
  with Cons show ?case by auto
qed simp

lemma key_of_fragment [simp]: "insertion_key (insertion_fragment_new f) = fragment_key f"
  by (simp add: insertion_key_def insertion_fragment_new_def fragment_key_def)

lemma subseq_distinct_map: "\<lbrakk>subseq xs ys; distinct (map g ys)\<rbrakk> \<Longrightarrow> distinct (map g xs)"
  by (auto simp: subseq_conv_nths nths_map [symmetric] distinct_nthsI)

text \<open>The new fragments are well-formed again.\<close>

lemma walk_fragments_ok:
  assumes w: "walk_ok F ts w" "wk_rest w = []" "wk_taken w = 0" "wk_inserted w < 2 ^ 32" and e: "editable F ts"
  shows "fragments_ok (wk_new w)"
    and "mset (all_cells (wk_new w)) = mset (all_cells F) + mset (map (Pair ts) [0 ..< wk_inserted w])"
proof -
  show cells: "mset (all_cells (wk_new w)) = mset (all_cells F) + mset (map (Pair ts) [0 ..< wk_inserted w])"
    using walk_balance [OF w(1)] w(2,3) by simp
  then have set: "set (all_cells (wk_new w)) = set (all_cells F @ map (Pair ts) [0 ..< wk_inserted w])"
    by (intro mset_eq_setD) simp
  have "fst c \<noteq> ts" if "c \<in> set (all_cells F)" for c
    using cells_of_fragment [OF that] e by (auto simp: editable_def untouched_def touched_by_def)
  then have "set (all_cells F) \<inter> set (map (Pair ts) [0 ..< wk_inserted w]) = {}" by fastforce
  with e have "distinct (all_cells F @ map (Pair ts) [0 ..< wk_inserted w])"
    by (simp add: editable_def fragments_ok_def distinct_map inj_on_def)
  then have "distinct (all_cells (wk_new w))"
    using cells by (metis mset_append mset_eq_imp_distinct_iff)
  moreover have "\<forall>c \<in> set (all_cells (wk_new w)). snd c < 2 ^ 32 - 1"
    unfolding set using w(4) e by (auto simp: editable_def fragments_ok_def)
  ultimately show "fragments_ok (wk_new w)"
    using w(1,2) by (simp add: fragments_ok_def walk_ok_def)
qed

text \<open>Recording the pieces by insertion accounts for every new fragment.\<close>

lemma recorded_fragments:
  assumes w: "walk_ok F ts w" "wk_rest w = []" "wk_taken w = 0" and new: "fragments_ok (wk_new w)"
  shows "insertion_fragment_new ` set (wk_recorded w)
      \<union> {x \<in> insertion_fragment_new ` set F. insertion_key x \<notin> fragment_key ` set (wk_recorded w)}
    = insertion_fragment_new ` set (wk_new w)" (is "?lhs = ?rhs")
proof -
  from w have rec: "set (wk_recorded w) \<subseteq> set (wk_new w)" by (auto simp: walk_ok_def dest: list_emb_set)
  from new have inj: "inj_on fragment_key (set (wk_new w))"
    using distinct_keys [of "wk_new w"] by (simp add: fragments_ok_def distinct_map)
  have "F = wk_passed w" using w by (simp add: walk_ok_def)
  then have from_old: "\<forall>n \<in> set (wk_new w). n \<in> set (wk_recorded w) \<or> n \<in> set F"
    and old: "\<forall>f \<in> set F. f \<in> set (wk_new w) \<or> (\<exists>p \<in> set (wk_recorded w). fragment_key p = fragment_key f)"
    using w by (simp_all add: walk_ok_def)
  have kept: "f \<in> set (wk_new w)" if "f \<in> set F" "fragment_key f \<notin> fragment_key ` set (wk_recorded w)" for f
    using old that by (metis image_eqI)
  have "?lhs \<subseteq> ?rhs" using rec kept by auto
  moreover have "?rhs \<subseteq> ?lhs"
  proof
    fix x
    assume "x \<in> ?rhs"
    then obtain n where n: "n \<in> set (wk_new w)" "x = insertion_fragment_new n" by blast
    show "x \<in> ?lhs"
    proof (cases "n \<in> set (wk_recorded w)")
      case False
      with rec inj n have "fragment_key n \<notin> fragment_key ` set (wk_recorded w)" by (auto simp: inj_on_def)
      with False n from_old show ?thesis by auto
    qed (use n in blast)
  qed
  ultimately show ?thesis by blast
qed

lemma commit_edit_at:
  assumes sn: "buffer_ok content sn" "shallow sn" and e: "editable (buffer_fragments sn) ts"
    and r: "represents content (buffer_fragments sn) ts w (st\<lparr>ep_fragment_start := length (visible_cells (buffer_fragments sn))\<rparr>)"
    and w: "wk_rest w = []" "wk_taken w = 0" "wk_inserted w < 2 ^ 32"
  shows "\<exists>sn'. commit_edit st sn = Some sn' \<and> buffer_ok content sn' \<and> buffer_fragments sn' = wk_new w
    \<and> map_abs (bs_insertion_slices sn') = map_abs (bs_insertion_slices sn)
        ++ map_of (map (\<lambda>n. (slice_of ts n, ())) (wk_touched w))
    \<and> sn' = sn\<lparr>bs_fragments := bs_fragments sn', bs_insertions := bs_insertions sn', bs_visible_text := bs_visible_text sn',
                bs_deleted_text := bs_deleted_text sn', bs_insertion_slices := bs_insertion_slices sn'\<rparr>"
proof -
  let ?F = "buffer_fragments sn"
  note walk = representsD(1) [OF r]
  note new = walk_fragments_ok(1) [OF walk w e]
  have F: "?F = wk_passed w" using representsD(7) [OF r] w(1) by simp
  have keys: "distinct (map fragment_key (wk_new w))" using new distinct_keys by (simp add: fragments_ok_def)
  have sub: "subseq (wk_recorded w) (wk_new w)" "subseq (wk_touched w) (wk_new w)" using walk by (simp_all add: walk_ok_def)
  from rope_finish_at [OF representsD(5) [OF r]] F have ropes: "rope_finish (ep_new_ropes st) =
      Some (map content (visible_cells (wk_new w)), map content (deleted_cells (wk_new w)))"
    by simp
  from builds_tree [OF representsD(4) [OF r]] obtain fr where
    fr: "to_sum_tree (ep_new_fragments st) = Some fr" "tree_ok fragment_ops fr" "tree_items fr = wk_new w" by auto
  let ?js = "map insertion_fragment_new (wk_recorded w)"
  have edits: "ep_new_insertions st = map Insert ?js"
    using r by (simp add: represents_def insert_new_def)
  have dist: "distinct (map insertion_key ?js)" using subseq_distinct_map [OF sub(1) keys] by (simp add: comp_def)
  then have dist': "distinct (map (edit_key insertion_key) (map Insert ?js))" by (simp add: edit_key_def comp_def)
  from sn have ins: "tree_ok insertion_ops (bs_insertions sn)" "height (bs_insertions sn) < STACK_CAPACITY"
      "key_sorted insertion_key (tree_items (bs_insertions sn))"
    by (simp_all add: buffer_ok_def shallow_def)
  from insertions.edit_tree_refines [OF ins dist'] obtain rem u where
    u: "edit_tree insertion_ops insertion_dim insertion_key (ep_new_insertions st) (bs_insertions sn) = Some (rem, u)"
      "tree_ok insertion_ops u" "tree_items u = fold (list_edit insertion_key) (map Insert ?js) (tree_items (bs_insertions sn))"
    unfolding edits by blast
  have "key_sorted insertion_key (tree_items u)" unfolding u(3) by (rule key_sorted_edits [OF ins(3)])
  moreover have "set (tree_items u) = insertion_fragment_new ` set (wk_new w)"
    unfolding u(3) set_fold_inserts [OF dist] using recorded_fragments [OF walk w(1,2) new] sn(1)
    by (simp add: buffer_ok_def image_image Un_commute)
  moreover have "distinct (map (slice_of ts) (wk_touched w))"
    using subseq_distinct_map [OF sub(2) keys] by (auto simp: distinct_map inj_on_def slice_of_def fragment_key_def)
  then have "distinct (map fst (map (\<lambda>key. (key, ())) (map (slice_of ts) (wk_touched w))))" by (simp add: comp_def)
  from tm_extend_abs [OF _ _ this, of "bs_insertion_slices sn"] sn obtain m where
    m: "ts_extend (ep_insertion_slices st) (bs_insertion_slices sn) = Some m" "map_ok m"
      "map_abs m = map_abs (bs_insertion_slices sn) ++ map_of (map (\<lambda>n. (slice_of ts n, ())) (wk_touched w))"
    using r by (auto simp: buffer_ok_def shallow_def ts_extend_def represents_def comp_def)
  ultimately show ?thesis
    using ropes fr u(1,2) new m by (simp add: commit_edit_def buffer_ok_def)
qed

section \<open>The whole edit\<close>

text \<open>An edit has a timestamp that no fragment knows.\<close>

definition fresh :: "lamport \<Rightarrow> buffer_snapshot \<Rightarrow> bool" where
  "fresh ts sn \<longleftrightarrow> (\<forall>f \<in> set (buffer_fragments sn). \<not> touched_by ts f)"

definition has_slice :: "buffer_snapshot \<Rightarrow> insertion_slice \<Rightarrow> bool" where
  "has_slice sn s \<longleftrightarrow> map_abs (bs_insertion_slices sn) s \<noteq> None"

lemma ranges_normalized: "ranges_ok i (normalized es) a \<longleftrightarrow> ranges_ok i es a"
  by (induction i es a rule: ranges_ok.induct) auto

lemma with_text_ok: "\<lbrakk>buffer_ok content sn; untouched ts (buffer_fragments sn)\<rbrakk> \<Longrightarrow> buffer_ok (with_text content ts t) sn"
  by (simp add: buffer_ok_def with_text_old)

definition edit_outcome ::
  "(cell \<Rightarrow> 8 word) \<Rightarrow> (nat \<times> nat \<times> rope) list \<Rightarrow> lamport \<Rightarrow> buffer_snapshot \<Rightarrow> edit_operation \<times> patch \<times> buffer_snapshot \<Rightarrow> bool" where
  "edit_outcome content edits ts sn r \<longleftrightarrow> (case r of (op, p, sn') \<Rightarrow>
     buffer_ok (with_text content ts (inserted_text edits)) sn'
     \<and> bs_visible_text sn' = spliced 0 (normalized edits) (bs_visible_text sn)
     \<and> leads (bs_visible_text sn) p (bs_visible_text sn')
     \<and> mset (all_cells (buffer_fragments sn')) =
         mset (all_cells (buffer_fragments sn)) + mset (map (Pair ts) [0 ..< length (inserted_text edits)])
     \<and> (\<forall>s. has_slice sn' s \<longleftrightarrow> has_slice sn s \<or> s \<in> slice_of ts ` {f \<in> set (buffer_fragments sn'). touched_by ts f})
     \<and> all_cells (older ts (buffer_fragments sn')) = all_cells (buffer_fragments sn)
     \<and> (\<forall>n \<in> set (buffer_fragments sn'). derived (buffer_fragments sn) ts n)
     \<and> eo_timestamp op = ts \<and> eo_version op = bs_version sn \<and> eo_new_text op = map (\<lambda>(s, x, t). normalize t) edits
     \<and> bs_version sn' = bs_version sn \<and> bs_undo_map sn' = bs_undo_map sn)"

lemma apply_edit_internal_at:
  assumes sn: "buffer_ok content sn" "shallow sn" and ts: "fresh ts sn"
    and edits: "ranges_ok 0 edits (bs_visible_text sn)" "length (inserted_text edits) < 2 ^ 32"
  shows "\<exists>r. apply_edit_internal edits ts sn = Some r \<and> edit_outcome content edits ts sn r"
proof (cases edits)
  case Nil
  let ?r = "(\<lparr>eo_timestamp = ts, eo_version = bs_version sn, eo_ranges = [], eo_new_text = []\<rparr>, [], sn)"
  from sn ts have "untouched ts (buffer_fragments sn)" by (auto simp: untouched_def fresh_def buffer_ok_def fragments_ok_def)
  then have "edit_outcome content edits ts sn ?r"
    using sn ts with_text_ok Nil
    by (auto simp: edit_outcome_def leads_def aligned_def fresh_def derived_same older_untouched)
  with Nil show ?thesis by (simp add: apply_edit_internal_def)
next
  case (Cons y es)
  let ?F = "buffer_fragments sn" and ?t = "inserted_text edits"
  let ?c = "with_text content ts ?t" and ?b = "spliced 0 (normalized edits) (bs_visible_text sn)"
  from sn ts have e: "editable ?F ts" by (auto simp: editable_def untouched_def fresh_def buffer_ok_def fragments_ok_def)
  with sn have ok: "buffer_ok ?c sn" by (simp add: with_text_ok editable_def)
  then have V: "map ?c (visible_cells ?F) = bs_visible_text sn" by (simp add: buffer_ok_def)
  have hd: "fst (hd (normalized edits)) = fst y" "normalized edits \<noteq> []" using Cons by (cases y; simp)+
  from begin_edit_at [OF ok sn(2) e hd(2)] edits(1) obtain st w where
    1: "begin_edit (fst y) sn = Some st" "wk_inserted w = 0" "ep_new_text st = []"
      "editing ?c ?F ts ?b (normalized edits) w st"
    by (auto simp: hd ranges_normalized)
  from apply_edits_at [OF 1(4) e] 1(2,3) edits(2) with_text_new [of content ts ?t] obtain st1 w1 where
    2: "apply_edits ts edits st = Some st1" "editing ?c ?F ts ?b [] w1 st1" "wk_inserted w1 = length ?t"
      "ep_new_text st1 = map (\<lambda>(s, x, t). normalize t) edits"
    by auto
  from finish_edit_at [OF 2(2) e] obtain st2 w2 where
    3: "finish_edit st1 = Some st2" "wk_inserted w2 = length ?t" "same_record st1 st2"
      "represents ?c ?F ts w2 (st2\<lparr>ep_fragment_start := length (visible_cells ?F)\<rparr>)" "wk_rest w2 = []" "wk_taken w2 = 0"
    and result: "map ?c (visible_cells (wk_new w2)) = ?b" "leads (bs_visible_text sn) (ep_edits_patch st2) ?b"
    using 2(3) V by auto
  have small: "wk_inserted w2 < 2 ^ 32" using 3(2) edits(2) by simp
  from commit_edit_at [OF ok sn(2) e 3(4-6) small] obtain sn' where
    4: "commit_edit st2 sn = Some sn'" "buffer_ok ?c sn'" "buffer_fragments sn' = wk_new w2"
    and slices: "map_abs (bs_insertion_slices sn') = map_abs (bs_insertion_slices sn)
        ++ map_of (map (\<lambda>n. (slice_of ts n, ())) (wk_touched w2))"
    and rest: "sn' = sn\<lparr>bs_fragments := bs_fragments sn', bs_insertions := bs_insertions sn', bs_visible_text := bs_visible_text sn',
                bs_deleted_text := bs_deleted_text sn', bs_insertion_slices := bs_insertion_slices sn'\<rparr>"
    by blast
  note walk = representsD(1) [OF 3(4)]
  have "has_slice sn' s \<longleftrightarrow> has_slice sn s \<or> s \<in> slice_of ts ` {f \<in> set (buffer_fragments sn'). touched_by ts f}" for s
  proof -
    have touched: "set (wk_touched w2) = {f \<in> set (buffer_fragments sn'). touched_by ts f}"
      using walk 4(3) by (simp add: walk_ok_def)
    show ?thesis unfolding touched [symmetric] has_slice_def slices
      by (auto simp: map_add_None map_of_eq_None_iff image_image simp del: not_None_eq)
  qed
  moreover have "all_cells (older ts (buffer_fragments sn')) = all_cells ?F" "\<forall>n \<in> set (buffer_fragments sn'). derived ?F ts n"
    using walk 3(5,6) 4(3) by (auto simp: walk_ok_def)
  moreover have "bs_version sn' = bs_version sn" "bs_undo_map sn' = bs_undo_map sn"
    by (subst rest, simp)+
  ultimately have "edit_outcome content edits ts sn (\<lparr>eo_timestamp = ts, eo_version = bs_version sn, eo_ranges = ep_ranges st2,
      eo_new_text = ep_new_text st2\<rparr>, ep_edits_patch st2, sn')"
    using 4(2,3) result walk_fragments_ok(2) [OF walk 3(5,6) small e] 3(2,3) 2(4)
    by (simp add: edit_outcome_def buffer_ok_def same_record_def)
  moreover from 1(1) 2(1) 3(1) 4(1) Cons have "apply_edit_internal edits ts sn = Some (\<lparr>eo_timestamp = ts, eo_version = bs_version sn,
      eo_ranges = ep_ranges st2, eo_new_text = ep_new_text st2\<rparr>, ep_edits_patch st2, sn')"
    by (cases y) (simp add: apply_edit_internal_def del: apply_edits.simps)
  ultimately show ?thesis by blast
qed

section \<open>New buffers\<close>

text \<open>The content of a new buffer: its text, inserted at the first time of the local replica.\<close>

definition base_content :: "rope \<Rightarrow> cell \<Rightarrow> 8 word" where
  "base_content t = with_text (\<lambda>_. 0) (lamport_new LOCAL) t"

definition base_fragment :: "rope \<Rightarrow> fragment" where
  "base_fragment t = \<lparr>fr_id = between locator_min locator_max, fr_timestamp = lamport_new LOCAL, fr_insertion_offset = 0,
     fr_len = length t, fr_visible = True, fr_deletions = [], fr_max_undos = vv_new\<rparr>"

lemma base_chunk:
  assumes "t \<noteq> []" "length t < 2 ^ 32"
  shows "push_base_chunks t (lamport_new LOCAL) 0 0 locator_min (tree_new fragment_ops) (tree_new insertion_ops) =
    Some (Leaf (fragment_summary_of (base_fragment t)) [base_fragment t] [fragment_summary_of (base_fragment t)],
          Leaf (fragment_key (base_fragment t)) [insertion_fragment_new (base_fragment t)] [fragment_key (base_fragment t)])"
proof -
  have small: "as_u32 (length t) = length t" "chunk_end t 0 = length t"
    using assms(2) by (simp_all add: as_u32_def chunk_end_def MAX_INSERTION_LEN_def min_def)
  have "\<lparr>fr_id = between locator_min locator_max, fr_timestamp = lamport_new LOCAL, fr_insertion_offset = 0,
     fr_len = length t, fr_visible = True, fr_deletions = [], fr_max_undos = vv_new\<rparr> = base_fragment t"
    by (simp add: base_fragment_def)
  with assms show ?thesis
    by (subst push_base_chunks.simps, subst push_base_chunks.simps)
      (simp add: small sub_def add_u32_def push_item_def append_tree_def tree_new_def Let_def insertion_ops_def)
qed

lemma new_normalized_at:
  assumes "new_normalized replica remote_id ending t = Some (sn, c)" "length t < 2 ^ 32"
  shows "buffer_ok (base_content t) sn \<and> shallow sn \<and> bs_visible_text sn = t \<and> bs_deleted_text sn = []
    \<and> buffer_fragments sn = (if t = [] then [] else [base_fragment t])"
proof (cases "t = []")
  case True
  with assms show ?thesis
    by (auto simp: new_normalized_def buffer_ok_def shallow_def tree_ok_def tree_new_def fragments_ok_def ids_ok_def
        tm_default_def map_ok_def STACK_CAPACITY_def)
next
  case False
  note chunk = base_chunk [OF False assms(2)]
  let ?f = "base_fragment t"
  have ids: "locator_ok (between locator_min locator_max)" "locator_min < between locator_min locator_max"
      "between locator_min locator_max < locator_max"
    using ids_between [of "[]" "[]" ?f] by (simp_all add: ids_ok_def last_id_def next_id_def base_fragment_def)
  have "fragments_ok [?f]"
    using ids False assms(2) by (auto simp: fragments_ok_def ids_ok_def base_fragment_def cells_def distinct_map inj_on_def)
  moreover have "map (base_content t) (cells ?f) = t"
    using with_text_new [of "\<lambda>_. 0" "lamport_new LOCAL" t] by (simp add: base_content_def cells_def base_fragment_def)
  moreover have "fr_visible ?f" by (simp add: base_fragment_def)
  moreover have "tree_ok fragment_ops (Leaf (fragment_summary_of ?f) [?f] [fragment_summary_of ?f])"
    by (simp add: tree_ok_def TREE_BASE_def)
  moreover have "tree_ok insertion_ops (Leaf (fragment_key ?f) [insertion_fragment_new ?f] [fragment_key ?f])"
    by (simp add: tree_ok_def TREE_BASE_def insertion_ops_def sum_summaries_def)
  moreover have "tree_ok map_ops (tm_default :: insertion_slice tree_set)" "tree_items (tm_default :: insertion_slice tree_set) = []"
      "height (tm_default :: insertion_slice tree_set) = 0"
    by (simp_all add: tm_default_def tree_ok_def tree_new_def)
  ultimately show ?thesis
    using assms(1) False chunk
    by (auto simp: new_normalized_def Let_def buffer_ok_def shallow_def map_ok_def STACK_CAPACITY_def key_sorted_def)
qed

lemma new_normalized_total: "length t < 2 ^ 32 \<Longrightarrow> \<exists>sn c. new_normalized replica remote_id ending t = Some (sn, c)"
  by (cases "t = []") (simp_all add: new_normalized_def Let_def base_chunk)

section \<open>The properties\<close>

text \<open>A buffer with the text \<open>abc\<close>.\<close>

definition sample_text :: rope where
  "sample_text = [97, 98, 99]"

definition sample_edits :: "(nat \<times> nat \<times> rope) list" where
  "sample_edits = [(0, 1, [88, 13, 10]), (2, 3, [])]"

definition sample_edit_time :: lamport where
  "sample_edit_time = Lamport 3 LOCAL"

lemma sample_buffer:
  "\<exists>sn c. new_normalized LOCAL 1 Unix sample_text = Some (sn, c) \<and> buffer_ok (base_content sample_text) sn \<and> shallow sn
     \<and> fresh sample_edit_time sn \<and> bs_visible_text sn = sample_text"
proof -
  have len: "length sample_text < 2 ^ 32" by (simp add: sample_text_def)
  from new_normalized_total [OF len] obtain sn c where n: "new_normalized LOCAL 1 Unix sample_text = Some (sn, c)" by blast
  with new_normalized_at [OF n len] show ?thesis
    by (auto simp: fresh_def touched_by_def base_fragment_def sample_edit_time_def lamport_new_def split: if_splits)
qed

lemma sample_edits_ok:
  "ranges_ok 0 sample_edits sample_text" "length (inserted_text sample_edits) < 2 ^ 32"
  "spliced 0 (normalized sample_edits) sample_text = [88, 10, 98]"
  by (simp_all add: sample_edits_def sample_text_def inserted_text_def normalized_def)

text \<open>A local edit of a well-formed buffer, with ranges in order and within its text, never panics: it returns,
  the new visible text is the old one with each range replaced by the normalized text given for it, and the patch it
  publishes leads from the old text to the new one.\<close>

theorem local_edit_splices_text:
  assumes "buffer_ok content sn" "shallow sn" "fresh ts sn"
    and "ranges_ok 0 edits (bs_visible_text sn)" "length (inserted_text edits) < 2 ^ 32"
  shows "\<exists>op p sn'. apply_edit_internal edits ts sn = Some (op, p, sn')
    \<and> bs_visible_text sn' = spliced 0 (normalized edits) (bs_visible_text sn)
    \<and> leads (bs_visible_text sn) p (bs_visible_text sn')"
  using apply_edit_internal_at [OF assms] by (auto simp: edit_outcome_def)

theorem local_edit_splices_text_witness:
  "\<exists>sn c op p sn'. new_normalized LOCAL 1 Unix sample_text = Some (sn, c)
     \<and> apply_edit_internal sample_edits sample_edit_time sn = Some (op, p, sn')
     \<and> bs_visible_text sn' = [88, 10, 98] \<and> leads sample_text p (bs_visible_text sn')"
proof -
  from sample_buffer obtain sn c where sn: "new_normalized LOCAL 1 Unix sample_text = Some (sn, c)"
    "buffer_ok (base_content sample_text) sn" "shallow sn" "fresh sample_edit_time sn" "bs_visible_text sn = sample_text" by blast
  from local_edit_splices_text [OF sn(2-4), of sample_edits] sn(1,5) sample_edits_ok show ?thesis
    by (auto simp: sample_text_def)
qed

text \<open>A local edit keeps the invariant of the buffer: the fragments stay in the strict order of their
  identifiers, none is empty, no byte occurs twice, the visible and the deleted text are what the visible and the deleted
  fragments stand for, and every fragment is found by its insertion.\<close>

theorem local_edit_keeps_invariant:
  assumes "buffer_ok content sn" "shallow sn" "fresh ts sn"
    and "ranges_ok 0 edits (bs_visible_text sn)" "length (inserted_text edits) < 2 ^ 32"
    and "apply_edit_internal edits ts sn = Some (op, p, sn')"
  shows "buffer_ok (with_text content ts (inserted_text edits)) sn'"
  using apply_edit_internal_at [OF assms(1-5)] assms(6) by (auto simp: edit_outcome_def)

theorem local_edit_keeps_invariant_witness:
  "\<exists>sn c op p sn'. new_normalized LOCAL 1 Unix sample_text = Some (sn, c)
     \<and> apply_edit_internal sample_edits sample_edit_time sn = Some (op, p, sn')
     \<and> buffer_ok (with_text (base_content sample_text) sample_edit_time [88, 10]) sn'"
proof -
  from sample_buffer obtain sn c where sn: "new_normalized LOCAL 1 Unix sample_text = Some (sn, c)"
    "buffer_ok (base_content sample_text) sn" "shallow sn" "fresh sample_edit_time sn" "bs_visible_text sn = sample_text" by blast
  with sample_edits_ok apply_edit_internal_at [OF sn(2-4), of sample_edits] obtain op p sn' where
    r: "apply_edit_internal sample_edits sample_edit_time sn = Some (op, p, sn')" by auto
  have "inserted_text sample_edits = [88, 10]" by (simp add: sample_edits_def inserted_text_def)
  with local_edit_keeps_invariant [OF sn(2-4) _ sample_edits_ok(2) r] sn(1,5) r sample_edits_ok(1) show ?thesis by auto
qed



text \<open>A new buffer is well-formed, for every text shorter than the width of an offset, and shows that text.\<close>

theorem new_buffer_ok:
  assumes "length t < 2 ^ 32"
  shows "\<exists>sn c. new_normalized replica remote_id ending t = Some (sn, c) \<and> buffer_ok (base_content t) sn
    \<and> bs_visible_text sn = t \<and> bs_deleted_text sn = []"
  using new_normalized_total [OF assms, of replica remote_id ending] new_normalized_at [OF _ assms] by blast

theorem new_buffer_ok_witness:
  "\<exists>sn c. new_normalized LOCAL 1 Windows sample_text = Some (sn, c) \<and> buffer_ok (base_content sample_text) sn
     \<and> bs_visible_text sn = [97, 98, 99]"
  using new_buffer_ok [of sample_text LOCAL 1 Windows] by (auto simp: sample_text_def)

end
