(* ===== verification/Undo.thy ===== *)
theory Undo
  imports Buffer
begin

text \<open>
  Undoing edits of a text buffer (\<open>text.rs\<close>): the fragments that an edit inserted or deleted are found
  through the slices recorded for it and the tree of fragments by insertion; an undo operation raises
  the undo counts of its edits and decides anew which of these fragments are visible.
\<close>

section \<open>The fragments of some edits\<close>

definition edit_slices :: "lamport \<Rightarrow> buffer_snapshot \<Rightarrow> insertion_slice list option" where
  "edit_slices edit_id self = do {
     slices \<leftarrow> ts_iter_from (InsertionSlice edit_id lamport_MIN 0 0) (bs_insertion_slices self);
     Some (takeWhile (\<lambda>s. is_edit_id s = edit_id) slices)
   }"

fun slices_of_edits :: "lamport list \<Rightarrow> buffer_snapshot \<Rightarrow> insertion_slice list option" where
  "slices_of_edits [] self = Some []"
| "slices_of_edits (edit_id # edit_ids) self = do {
     slices \<leftarrow> edit_slices edit_id self;
     rest \<leftarrow> slices_of_edits edit_ids self;
     Some (slices @ rest)
   }"

text \<open>The key of \<open>sort_unstable_by_key\<close>: by insertion, start, and end downwards.\<close>

definition slice_order :: "insertion_slice \<Rightarrow> lamport \<times> nat \<times> int" where
  "slice_order s = (is_insertion_id s, is_start s, - int (is_end s))"

type_synonym insertions_cursor = "(insertion_fragment, insertion_fragment_key, insertion_fragment_key) cursor"

text \<open>The inner loop: the fragments of the slice from the cursor on.\<close>

partial_function (option) collect_ids ::
  "insertion_slice \<Rightarrow> insertions_cursor \<Rightarrow> locator list \<Rightarrow> (insertions_cursor \<times> locator list) option" where
  "collect_ids s cu ids = do {
     item \<leftarrow> cursor_item cu;
     case item of
       None \<Rightarrow> Some (cu, ids)
     | Some f \<Rightarrow>
         if if_timestamp f \<noteq> is_insertion_id s \<or> if_split_offset f \<ge> is_end s then Some (cu, ids)
         else do {
           cu \<leftarrow> cursor_next insertion_dim cu;
           collect_ids s cu (ids @ [if_fragment_id f])
         }
   }"

declare collect_ids.simps [code]

definition ids_in_slice ::
  "insertion_slice \<Rightarrow> insertions_cursor \<times> locator list \<Rightarrow> (insertions_cursor \<times> locator list) option" where
  "ids_in_slice s st =
     (case st of (cu, ids) \<Rightarrow> do {
        cu \<leftarrow> (if is_insertion_id s \<noteq> ik_timestamp (cu_position cu) \<or> is_start s > ik_split_offset (cu_position cu)
               then map_option snd (cursor_seek_forward insertion_dim
                      (cmp (InsertionFragmentKey (is_insertion_id s) (is_start s))) BiasLeft cu)
               else Some cu);
        collect_ids s cu ids
      })"

fun ids_in_slices ::
  "insertion_slice list \<Rightarrow> insertions_cursor \<times> locator list \<Rightarrow> (insertions_cursor \<times> locator list) option" where
  "ids_in_slices [] st = Some st"
| "ids_in_slices (s # slices) st = do { st \<leftarrow> ids_in_slice s st; ids_in_slices slices st }"

definition fragment_ids_for_edits :: "lamport list \<Rightarrow> buffer_snapshot \<Rightarrow> locator list option" where
  "fragment_ids_for_edits edit_ids self = do {
     slices \<leftarrow> slices_of_edits edit_ids self;
     (_, ids) \<leftarrow> ids_in_slices (sort_key slice_order slices) (cursor_new insertion_dim (bs_insertions self), []);
     Some (sort ids)
   }"

section \<open>Applying an undo operation\<close>

text \<open>\<open>Fragment::is_visible\<close>; the second conjunct is only evaluated when the first holds.\<close>

fun all_undone :: "lamport list \<Rightarrow> undo_map \<Rightarrow> bool option" where
  "all_undone [] undos = Some True"
| "all_undone (d # ds) undos = do {
     undone \<leftarrow> is_undone d undos;
     if undone then all_undone ds undos else Some False
   }"

definition is_visible :: "undo_map \<Rightarrow> fragment \<Rightarrow> bool option" where
  "is_visible undos self = do {
     undone \<leftarrow> is_undone (fr_timestamp self) undos;
     if undone then Some False else all_undone (fr_deletions self) undos
   }"

text \<open>A cursor by identifier and visible bytes; an identifier is compared with the first of them.\<close>

definition id_dim :: "(fragment_summary, locator option \<times> nat) dimension_ops" where
  "id_dim = \<lparr>dm_zero = (None, 0), dm_add = (\<lambda>(_, n) s. (Some (fs_max_id s), n + ft_visible (fs_text s)))\<rparr>"

definition id_target :: "locator \<Rightarrow> locator option \<times> nat \<Rightarrow> ordering" where
  "id_target fragment_id position = cmp (Some fragment_id) (fst position)"

text \<open>The variables of \<open>apply_undo\<close>.\<close>

record undo_progress =
  up_old_fragments :: "(fragment, fragment_summary, locator option \<times> nat) cursor"
  up_new_fragments :: "(fragment, fragment_summary) sum_tree"
  up_new_ropes :: rope_builder
  up_edits :: patch

definition append_preceding ::
  "(fragment, fragment_summary) sum_tree \<Rightarrow> undo_progress \<Rightarrow> undo_progress option" where
  "append_preceding preceding st = do {
     ropes \<leftarrow> rope_append (fs_text (summary preceding)) (up_new_ropes st);
     new_fragments \<leftarrow> append_tree fragment_ops (up_new_fragments st) preceding;
     Some (st\<lparr>up_new_ropes := ropes, up_new_fragments := new_fragments\<rparr>)
   }"

definition undo_edit_patch :: "bool \<Rightarrow> bool \<Rightarrow> nat \<Rightarrow> nat \<Rightarrow> nat \<Rightarrow> patch \<Rightarrow> patch" where
  "undo_edit_patch was_visible visible len old_at new_at edits =
     (if was_visible \<and> \<not> visible then push edits (mk_edit old_at (old_at + len) new_at new_at)
      else if \<not> was_visible \<and> visible then push edits (mk_edit old_at old_at new_at (new_at + len))
      else edits)"

text \<open>One turn of the loop over the fragments of the edits.\<close>

definition undo_fragment :: "undo_map \<Rightarrow> lamport \<Rightarrow> locator \<Rightarrow> undo_progress \<Rightarrow> undo_progress option" where
  "undo_fragment undos timestamp fragment_id st = do {
     (preceding, cu) \<leftarrow> cursor_slice fragment_ops id_dim (id_target fragment_id) BiasLeft (up_old_fragments st);
     st \<leftarrow> append_preceding preceding (st\<lparr>up_old_fragments := cu\<rparr>);
     item \<leftarrow> cursor_item cu;
     case item of
       None \<Rightarrow> Some st
     | Some old \<Rightarrow> do {
         visible \<leftarrow> is_visible undos old;
         let f = old\<lparr>fr_visible := visible, fr_max_undos := vv_observe (fr_max_undos old) timestamp\<rparr>;
         let old_at = snd (cu_position cu);
         let new_at = ft_visible (fs_text (summary (up_new_fragments st)));
         ropes \<leftarrow> rope_push_fragment f (fr_visible old) (up_new_ropes st);
         new_fragments \<leftarrow> push_item fragment_ops (up_new_fragments st) f;
         cu \<leftarrow> cursor_next id_dim cu;
         Some (st\<lparr>up_edits := undo_edit_patch (fr_visible old) visible (fr_len f) old_at new_at (up_edits st),
                  up_new_ropes := ropes, up_new_fragments := new_fragments, up_old_fragments := cu\<rparr>)
       }
   }"

fun undo_fragments :: "undo_map \<Rightarrow> lamport \<Rightarrow> locator list \<Rightarrow> undo_progress \<Rightarrow> undo_progress option" where
  "undo_fragments undos timestamp [] st = Some st"
| "undo_fragments undos timestamp (fragment_id # ids) st = do {
     st \<leftarrow> undo_fragment undos timestamp fragment_id st;
     undo_fragments undos timestamp ids st
   }"

text \<open>\<open>apply_undo\<close> returns the patch it publishes.\<close>

definition apply_undo :: "undo_operation \<Rightarrow> buffer_snapshot \<Rightarrow> (patch \<times> buffer_snapshot) option" where
  "apply_undo undo self = do {
     undos \<leftarrow> undo_insert undo (bs_undo_map self);
     let self = self\<lparr>bs_undo_map := undos\<rparr>;
     ids \<leftarrow> fragment_ids_for_edits (map fst (uo_counts undo)) self;
     st \<leftarrow> undo_fragments undos (uo_timestamp undo) ids
       \<lparr>up_old_fragments = cursor_new id_dim (bs_fragments self), up_new_fragments = tree_new fragment_ops,
        up_new_ropes = rope_builder_new \<lparr>rc_rope = bs_visible_text self, rc_offset = 0\<rparr>
          \<lparr>rc_rope = bs_deleted_text self, rc_offset = 0\<rparr>,
        up_edits = []\<rparr>;
     (suffix, cu) \<leftarrow> cursor_suffix fragment_ops id_dim (up_old_fragments st);
     st \<leftarrow> append_preceding suffix (st\<lparr>up_old_fragments := cu\<rparr>);
     (visible_text, deleted_text) \<leftarrow> rope_finish (up_new_ropes st);
     Some (up_edits st, self\<lparr>bs_fragments := up_new_fragments st, bs_visible_text := visible_text,
                              bs_deleted_text := deleted_text\<rparr>)
   }"

end
