(* ===== verification/UndoSearch.thy ===== *)
theory UndoSearch
  imports BufferContract Undo
begin

text \<open>
  The search for the fragments of an edit. However often the fragments that an edit inserted or deleted were
  split since, the slices recorded for the edit and the tree of fragments by insertion lead to all of them.
\<close>

section \<open>Finding the fragments of an edit\<close>

definition in_slice :: "insertion_slice \<Rightarrow> insertion_fragment \<Rightarrow> bool" where
  "in_slice s x \<longleftrightarrow> if_timestamp x = is_insertion_id s \<and> is_start s \<le> if_split_offset x \<and> if_split_offset x < is_end s"

definition slice_goes_on :: "insertion_slice \<Rightarrow> insertion_fragment \<Rightarrow> bool" where
  "slice_goes_on s x \<longleftrightarrow> if_timestamp x = is_insertion_id s \<and> if_split_offset x < is_end s"

lemma collect_ids_at:
  assumes "insertions.keyed_at cu zs p" "cu_did_seek cu"
  shows "\<exists>cu' q. collect_ids s cu ids = Some (cu', ids @ map if_fragment_id (takeWhile (slice_goes_on s) zs))
    \<and> insertions.keyed_at cu' (dropWhile (slice_goes_on s) zs) q \<and> cu_did_seek cu'
    \<and> q \<in> insert p (insertion_key ` set (takeWhile (slice_goes_on s) zs))"
  using assms
proof (induction zs arbitrary: cu p ids)
  case Nil
  then have "cursor_item cu = Some None" using cursor_item_at(1) [of insertion_ops insertion_dim cu "[]" p]
    by (simp add: insertions.keyed_at_def)
  with Nil show ?case by (subst collect_ids.simps) auto
next
  case (Cons x zs)
  then have item: "cursor_item cu = Some (Some x)" using cursor_item_at(1) [of insertion_ops insertion_dim cu "x # zs" p]
    by (simp add: insertions.keyed_at_def)
  show ?case
  proof (cases "slice_goes_on s x")
    case False
    with item Cons.prems show ?thesis by (subst collect_ids.simps) (auto simp: slice_goes_on_def)
  next
    case True
    from insertions.keyed_next [OF Cons.prems] obtain cu1 where
      1: "cursor_next insertion_dim cu = Some cu1" "insertions.keyed_at cu1 zs (insertion_key x)" "cu_did_seek cu1" by blast
    have "collect_ids s cu ids = collect_ids s cu1 (ids @ [if_fragment_id x])"
      using True item 1(1) by (subst collect_ids.simps) (simp add: slice_goes_on_def)
    with Cons.IH [OF 1(2,3), of "ids @ [if_fragment_id x]"] True show ?thesis by (simp, blast)
  qed
qed

definition slice_start :: "insertion_slice \<Rightarrow> insertion_fragment_key" where
  "slice_start s = InsertionFragmentKey (is_insertion_id s) (is_start s)"

text \<open>The state of the search: the fragments behind the cursor that were not collected lie in none of the
  slices to come.\<close>

definition gathering ::
  "insertion_fragment list \<Rightarrow> insertion_slice set \<Rightarrow> insertion_slice list \<Rightarrow> insertion_fragment list
   \<Rightarrow> insertions_cursor \<times> locator list \<Rightarrow> bool" where
  "gathering xs handled slices cs st \<longleftrightarrow>
     (\<exists>ys zs p. xs = ys @ zs \<and> insertions.keyed_at (fst st) zs p \<and> (cu_did_seek (fst st) \<or> p = insertion_key_zero)
        \<and> snd st = map if_fragment_id cs \<and> subseq cs ys
        \<and> (\<forall>s \<in> handled. \<forall>x \<in> set xs. in_slice s x \<longrightarrow> x \<in> set cs)
        \<and> (\<forall>s \<in> set slices. \<forall>y \<in> set ys. in_slice s y \<longrightarrow> y \<in> set cs)
        \<and> (\<forall>s \<in> set slices. ik_timestamp p \<le> is_insertion_id s))"

lemma gatheringI:
  assumes "xs = ys @ zs" "insertions.keyed_at cu zs p" "cu_did_seek cu \<or> p = insertion_key_zero" "subseq cs ys"
    and "\<And>s x. \<lbrakk>s \<in> handled; x \<in> set xs; in_slice s x\<rbrakk> \<Longrightarrow> x \<in> set cs"
    and "\<And>s y. \<lbrakk>s \<in> set slices; y \<in> set ys; in_slice s y\<rbrakk> \<Longrightarrow> y \<in> set cs"
    and "\<And>s. s \<in> set slices \<Longrightarrow> ik_timestamp p \<le> is_insertion_id s"
  shows "gathering xs handled slices cs (cu, map if_fragment_id cs)"
  unfolding gathering_def fst_conv snd_conv
  by (rule exI [of _ ys], rule exI [of _ zs], rule exI [of _ p]) (use assms in \<open>intro conjI ballI impI; simp\<close>)

lemma slice_order_start: "slice_order a \<le> slice_order b \<Longrightarrow> slice_start a \<le> slice_start b"
  by (auto simp: slice_order_def slice_start_def less_eq_insertion_fragment_key_def less_eq_prod_def)

lemma goes_on_prefix:
  assumes "key_sorted insertion_key zs" "\<forall>z \<in> set zs. is_insertion_id s \<le> if_timestamp z"
    and "x \<in> set zs" "slice_goes_on s x"
  shows "x \<in> set (takeWhile (slice_goes_on s) zs)"
  using assms
proof (induction zs)
  case (Cons z zs)
  have "slice_goes_on s z"
    using Cons.prems
    by (auto simp: key_sorted_Cons insertion_key_def less_insertion_fragment_key_def slice_goes_on_def)
  with Cons show ?case by (auto simp: key_sorted_Cons)
qed simp

lemma key_sorted_partition:
  "key_sorted key xs \<Longrightarrow> xs = filter (\<lambda>x. key x < k) xs @ filter (\<lambda>x. k \<le> key x) xs"
proof (induction xs)
  case (Cons x xs)
  show ?case
  proof (cases "key x < k")
    case False
    with Cons.prems have "\<forall>y \<in> set xs. k < key y" by (auto simp: key_sorted_Cons)
    then have "filter (\<lambda>x. key x < k) xs = []" "filter (\<lambda>x. k \<le> key x) xs = xs"
      by (auto simp: filter_empty_conv filter_id_conv)
    with False show ?thesis by auto
  qed (use Cons in \<open>auto simp: key_sorted_Cons\<close>)
qed simp

lemma gathering_collect:
  assumes xs: "xs = ys @ zs" "insertions.keyed_at cu zs p" "cu_did_seek cu" "subseq cs ys"
    and handled: "\<forall>s \<in> handled. \<forall>x \<in> set xs. in_slice s x \<longrightarrow> x \<in> set cs"
    and coming: "\<forall>t \<in> set (s # slices). \<forall>y \<in> set ys. in_slice t y \<longrightarrow> y \<in> set cs"
    and time: "\<forall>t \<in> set (s # slices). is_insertion_id s \<le> is_insertion_id t" "ik_timestamp p \<le> is_insertion_id s"
    and from_s: "\<forall>z \<in> set zs. is_insertion_id s \<le> if_timestamp z"
  shows "\<exists>st cs'. collect_ids s cu (map if_fragment_id cs) = Some st \<and> gathering xs (insert s handled) slices cs' st"
proof -
  let ?go = "slice_goes_on s"
  from collect_ids_at [OF xs(2,3), of s "map if_fragment_id cs"] obtain cu' q where
    cu': "collect_ids s cu (map if_fragment_id cs) = Some (cu', map if_fragment_id cs @ map if_fragment_id (takeWhile ?go zs))"
      "insertions.keyed_at cu' (dropWhile ?go zs) q" "cu_did_seek cu'" "q \<in> insert p (insertion_key ` set (takeWhile ?go zs))"
    by blast
  let ?cs = "cs @ takeWhile ?go zs" and ?ys = "ys @ takeWhile ?go zs"
  have sorted: "key_sorted insertion_key zs" using xs(2) by (simp add: insertions.keyed_at_def)
  have "in_slice s x \<longrightarrow> x \<in> set ?cs" if "x \<in> set xs" for x
    using that xs(1) coming goes_on_prefix [OF sorted from_s, of x] by (auto simp: in_slice_def slice_goes_on_def)
  moreover have "ik_timestamp q \<le> is_insertion_id s"
    using cu'(4) time(2) by (auto simp: slice_goes_on_def insertion_key_def dest!: set_takeWhileD)
  then have "\<forall>t \<in> set slices. ik_timestamp q \<le> is_insertion_id t" using time(1) by auto
  moreover have "subseq ?cs ?ys" using xs(4) by (simp add: list_emb_append_mono)
  moreover have "xs = ?ys @ dropWhile ?go zs" using xs(1) by simp
  moreover have "\<forall>s \<in> handled. \<forall>x \<in> set xs. in_slice s x \<longrightarrow> x \<in> set ?cs" using handled by auto
  moreover have "\<forall>t \<in> set slices. \<forall>y \<in> set ?ys. in_slice t y \<longrightarrow> y \<in> set ?cs" using coming by auto
  ultimately have "gathering xs (insert s handled) slices ?cs (cu', map if_fragment_id ?cs)"
    using cu'(2,3) by (intro gatheringI [where ys = ?ys and zs = "dropWhile ?go zs" and p = q]) blast+
  with cu'(1) show ?thesis by auto
qed

lemma ids_in_slice_at:
  assumes g: "gathering xs handled (s # slices) cs st" and sorted: "key_sorted insertion_key xs"
    and order: "\<forall>t \<in> set slices. slice_order s \<le> slice_order t" and s: "is_insertion_id s \<noteq> lamport_MIN"
  shows "\<exists>st' cs'. ids_in_slice s st = Some st' \<and> gathering xs (insert s handled) slices cs' st'"
proof -
  obtain cu ids where st: "st = (cu, ids)" by (cases st)
  from g obtain ys zs p where xs: "xs = ys @ zs" "insertions.keyed_at cu zs p" "subseq cs ys"
    and seek: "cu_did_seek cu \<or> p = insertion_key_zero" and ids: "ids = map if_fragment_id cs"
    and handled: "\<forall>s \<in> handled. \<forall>x \<in> set xs. in_slice s x \<longrightarrow> x \<in> set cs"
    and coming: "\<forall>t \<in> set (s # slices). \<forall>y \<in> set ys. in_slice t y \<longrightarrow> y \<in> set cs"
    and time: "\<forall>t \<in> set (s # slices). ik_timestamp p \<le> is_insertion_id t"
    unfolding gathering_def st by auto
  from xs(2) have pos: "cu_position cu = p" by (simp add: insertions.keyed_at_def cursor_at_def)
  have starts: "slice_start s \<le> slice_start t" "is_insertion_id s \<le> is_insertion_id t" if "t \<in> set (s # slices)" for t
  proof -
    from that order show "slice_start s \<le> slice_start t" by (auto intro: slice_order_start)
    then show "is_insertion_id s \<le> is_insertion_id t" by (auto simp: slice_start_def less_eq_insertion_fragment_key_def)
  qed
  let ?k = "slice_start s"
  show ?thesis
  proof (cases "is_insertion_id s \<noteq> ik_timestamp p \<or> is_start s > ik_split_offset p")
    case False
    with s have did: "cu_did_seek cu" using seek by (auto simp: insertion_key_zero_def)
    from xs(2) False have "\<forall>z \<in> set zs. is_insertion_id s \<le> if_timestamp z"
      by (auto simp: insertions.keyed_at_def less_eq_insertion_fragment_key_def insertion_key_def)
    from gathering_collect [OF xs(1,2) did xs(3) handled coming _ _ this] starts(2) time False show ?thesis
      by (auto simp: ids_in_slice_def st pos ids)
  next
    case True
    with time have "p \<le> ?k" by (auto simp: slice_start_def less_eq_insertion_fragment_key_def)
    from insertions.keyed_seek_forward [OF xs(2) this] obtain found cu' q where
      cu': "cursor_seek_forward insertion_dim (cmp ?k) BiasLeft cu = Some (found, cu')"
        "insertions.keyed_at cu' (filter (\<lambda>x. ?k \<le> insertion_key x) zs) q" "cu_did_seek cu'"
        "q \<in> insert p (insertion_key ` set (filter (\<lambda>x. insertion_key x < ?k) zs))"
      by blast
    let ?ys = "ys @ filter (\<lambda>x. insertion_key x < ?k) zs" and ?zs = "filter (\<lambda>x. ?k \<le> insertion_key x) zs"
    have "key_sorted insertion_key zs" using xs(2) by (simp add: insertions.keyed_at_def)
    then have "zs = filter (\<lambda>x. insertion_key x < ?k) zs @ ?zs" by (rule key_sorted_partition)
    then have xs': "xs = ?ys @ ?zs" using xs(1) by simp
    have "\<not> in_slice t y" if "t \<in> set (s # slices)" "insertion_key y < ?k" for t y
      using starts(1) [OF that(1)] that(2)
      by (auto simp: in_slice_def slice_start_def insertion_key_def less_insertion_fragment_key_def less_eq_insertion_fragment_key_def)
    then have coming': "\<forall>t \<in> set (s # slices). \<forall>y \<in> set ?ys. in_slice t y \<longrightarrow> y \<in> set cs" using coming by auto
    have q: "ik_timestamp q \<le> is_insertion_id s"
      using cu'(4) time by (auto simp: slice_start_def insertion_key_def less_insertion_fragment_key_def)
    have zs': "\<forall>z \<in> set ?zs. is_insertion_id s \<le> if_timestamp z"
      by (auto simp: slice_start_def insertion_key_def less_eq_insertion_fragment_key_def)
    have "subseq cs ?ys" using xs(3) by (simp add: subseq_longer)
    from gathering_collect [OF xs' cu'(2,3) this handled coming' _ q zs'] starts(2) cu'(1) True show ?thesis
      by (auto simp: ids_in_slice_def st pos ids slice_start_def)
  qed
qed

lemma ids_in_slices_at:
  assumes "gathering xs handled slices cs st" "key_sorted insertion_key xs"
    and "sorted_wrt (\<lambda>a b. slice_order a \<le> slice_order b) slices" "\<forall>s \<in> set slices. is_insertion_id s \<noteq> lamport_MIN"
  shows "\<exists>st' cs'. ids_in_slices slices st = Some st' \<and> gathering xs (handled \<union> set slices) [] cs' st'"
  using assms
proof (induction slices arbitrary: handled cs st)
  case (Cons s slices)
  from ids_in_slice_at [OF Cons.prems(1,2)] Cons.prems(3,4) obtain st1 cs1 where
    1: "ids_in_slice s st = Some st1" "gathering xs (insert s handled) slices cs1 st1" by auto
  from Cons.IH [OF 1(2) Cons.prems(2)] Cons.prems(3,4) 1(1) show ?case by (auto simp: Un_insert_left)
qed auto

text \<open>The slices of an edit are found together.\<close>

lemma takeWhile_same:
  assumes "sorted_wrt (<) xs" "\<forall>x \<in> set xs. InsertionSlice e lamport_MIN 0 0 \<le> x"
  shows "set (takeWhile (\<lambda>s. is_edit_id s = e) xs) = {s \<in> set xs. is_edit_id s = e}"
  using assms
proof (induction xs)
  case (Cons x xs)
  show ?case
  proof (cases "is_edit_id x = e")
    case False
    with Cons.prems have x: "e < is_edit_id x"
      by (auto simp: less_eq_insertion_slice_def slice_rank_def less_eq_prod_def)
    have "is_edit_id s \<noteq> e" if "s \<in> set xs" for s
    proof -
      from Cons.prems that have "slice_rank x < slice_rank s" by (simp add: less_insertion_slice_def)
      with x show ?thesis by (auto simp: slice_rank_def less_prod_def)
    qed
    with False show ?thesis by auto
  qed (use Cons in auto)
qed simp

lemma has_slice_entries:
  "map_ok (bs_insertion_slices sn) \<Longrightarrow> has_slice sn s \<longleftrightarrow> s \<in> fst ` set (entry_list (bs_insertion_slices sn))"
  by (metis has_slice_def entry_list_sorted(2) domIff dom_map_of_conv_image_fst)

lemma edit_slices_at:
  assumes "map_ok (bs_insertion_slices sn)" "height (bs_insertion_slices sn) < STACK_CAPACITY"
  shows "\<exists>slices. edit_slices e sn = Some slices \<and> set slices = {s. has_slice sn s \<and> is_edit_id s = e}"
proof -
  let ?from = "InsertionSlice e lamport_MIN 0 0"
  let ?keys = "map fst (entry_list (bs_insertion_slices sn))"
  have run: "ts_iter_from ?from (bs_insertion_slices sn) = Some (filter ((\<le>) ?from) ?keys)"
    by (simp add: ts_iter_from_def tm_iter_from_items [OF assms] filter_map o_def split_def)
  have "sorted_wrt (<) (filter ((\<le>) ?from) ?keys)"
    using entry_list_sorted(1) [OF assms(1)] by (rule sorted_wrt_filter)
  from takeWhile_same [OF this] have "set (takeWhile (\<lambda>s. is_edit_id s = e) (filter ((\<le>) ?from) ?keys)) =
      {s \<in> set (filter ((\<le>) ?from) ?keys). is_edit_id s = e}" by simp
  also have "\<dots> = {s. has_slice sn s \<and> is_edit_id s = e}"
    using has_slice_entries [OF assms(1)]
    by (auto simp: less_eq_insertion_slice_def slice_rank_def less_eq_prod_def order_le_less [of lamport_MIN, symmetric])
  finally show ?thesis by (simp add: edit_slices_def run)
qed

lemma slices_of_edits_at:
  assumes "map_ok (bs_insertion_slices sn)" "height (bs_insertion_slices sn) < STACK_CAPACITY"
  shows "\<exists>slices. slices_of_edits es sn = Some slices \<and> set slices = {s. has_slice sn s \<and> is_edit_id s \<in> set es}"
proof (induction es)
  case (Cons e es)
  with edit_slices_at [OF assms, of e] show ?case by auto
qed simp

text \<open>The search returns distinct fragments, in order, and misses none that lies in a slice of the edits.\<close>

lemma fragment_ids_at:
  assumes sn: "tree_ok insertion_ops (bs_insertions sn)" "height (bs_insertions sn) < STACK_CAPACITY"
      "key_sorted insertion_key (tree_items (bs_insertions sn))"
      "map_ok (bs_insertion_slices sn)" "height (bs_insertion_slices sn) < STACK_CAPACITY"
    and times: "\<And>s. has_slice sn s \<Longrightarrow> is_insertion_id s \<noteq> lamport_MIN"
  shows "\<exists>cs. fragment_ids_for_edits es sn = Some (sort (map if_fragment_id cs)) \<and> subseq cs (tree_items (bs_insertions sn))
    \<and> (\<forall>s x. has_slice sn s \<and> is_edit_id s \<in> set es \<and> x \<in> set (tree_items (bs_insertions sn)) \<and> in_slice s x \<longrightarrow> x \<in> set cs)"
proof -
  let ?xs = "tree_items (bs_insertions sn)"
  from slices_of_edits_at [OF sn(4,5)] obtain slices where
    slices: "slices_of_edits es sn = Some slices" "set slices = {s. has_slice sn s \<and> is_edit_id s \<in> set es}" by blast
  let ?slices = "sort_key slice_order slices"
  have at: "insertions.keyed_at (cursor_new insertion_dim (bs_insertions sn)) ?xs insertion_key_zero"
    using insertions.keyed_at_new [OF sn(1-3)] by (simp add: insertion_dim_def)
  have start: "gathering ?xs {} ?slices [] (cursor_new insertion_dim (bs_insertions sn), [])"
    using gatheringI [where ys = "[]" and p = insertion_key_zero and cs = "[]" and handled = "{}", OF _ at]
    by (simp add: insertion_key_zero_def)
  have "sorted_wrt (\<lambda>a b. slice_order a \<le> slice_order b) ?slices"
    using sorted_sort_key [of slice_order slices] by (simp add: sorted_wrt_map)
  from ids_in_slices_at [OF start sn(3) this] slices(2) times obtain st cs where
    "ids_in_slices ?slices (cursor_new insertion_dim (bs_insertions sn), []) = Some st" "gathering ?xs (set slices) [] cs st"
    by auto
  moreover from this(2) have "snd st = map if_fragment_id cs" "subseq cs ?xs"
      "\<forall>s \<in> set slices. \<forall>x \<in> set ?xs. in_slice s x \<longrightarrow> x \<in> set cs"
    by (auto simp: gathering_def subseq_longer)
  ultimately show ?thesis using slices by (auto simp: fragment_ids_for_edits_def split_def)
qed

end
