(* ===== verification/UndoWalk.thy ===== *)
theory UndoWalk
  imports UndoSearch
begin

text \<open>
  The walk of an undo operation over the fragments: those found by the search are decided anew, the others
  are passed as they are, and the texts and the patch follow.
\<close>

section \<open>Visibility\<close>

definition undone :: "undo_map \<Rightarrow> lamport \<Rightarrow> bool" where
  "undone m e \<longleftrightarrow> largest_count e (\<lambda>_. True) (tree_items m) mod 2 = 1"

text \<open>A fragment is visible when its insertion is not undone and all of its deletions are.\<close>

definition visible_under :: "undo_map \<Rightarrow> fragment \<Rightarrow> bool" where
  "visible_under m f \<longleftrightarrow> \<not> undone m (fr_timestamp f) \<and> (\<forall>d \<in> set (fr_deletions f). undone m d)"

lemma all_undone_at:
  "\<lbrakk>undo_ok m; height m < STACK_CAPACITY\<rbrakk> \<Longrightarrow> all_undone ds m = Some (\<forall>d \<in> set ds. undone m d)"
  by (induction ds) (auto simp: undo_count_items(2) undone_def)

lemma is_visible_at: "\<lbrakk>undo_ok m; height m < STACK_CAPACITY\<rbrakk> \<Longrightarrow> is_visible m f = Some (visible_under m f)"
  by (simp add: is_visible_def undo_count_items(2) all_undone_at visible_under_def undone_def)

section \<open>The cursor by identifier\<close>

interpretation by_id: dimension_laws fragment_ops id_dim
  by unfold_locales (auto simp: id_dim_def fragment_summary_add_def text_add_def)

lemma id_dim_add: "dm_add id_dim p (fragment_summary_of f) = (Some (fr_id f), snd p + length (visible_cells [f]))"
  by (cases p) (simp add: id_dim_def fragment_summary_of_def Let_def)

lemma id_ends_ids: "map fst (item_ends fragment_ops id_dim p fs) = map (Some \<circ> fr_id) fs"
  by (induction fs arbitrary: p) (simp_all add: Let_def id_dim_add)

lemma id_last_end:
  "last_end p (item_ends fragment_ops id_dim p fs) =
     (if fs = [] then fst p else Some (fr_id (last fs)), snd p + length (visible_cells fs))"
proof (induction fs arbitrary: p)
  case (Cons f fs)
  have "last_end p (e # es) = last_end e es" for e :: "locator option \<times> nat" and es by (simp add: last_end_def)
  with Cons show ?case by (simp add: Let_def id_dim_add)
qed (simp add: last_end_def)

lemma id_target_in: "target_in (id_target i) BiasLeft e \<longleftrightarrow> Some i \<le> fst e"
  by (auto simp: target_in_def id_target_def cmp_def)

lemma ordered_ids:
  assumes "sorted_wrt (<) (map fr_id fs)"
  shows "ordered_ends (target_in (id_target i) BiasLeft) (item_ends fragment_ops id_dim p fs)"
proof -
  have "sorted_wrt (\<lambda>a b. a < b) (map fst (item_ends fragment_ops id_dim p fs))"
    using assms by (simp add: id_ends_ids sorted_wrt_map)
  then show ?thesis
    unfolding ordered_ends_def id_target_in sorted_wrt_map by (rule sorted_wrt_mono_rel [rotated]) auto
qed

lemma slice_to_id:
  assumes at: "cursor_at fragment_ops id_dim cu (ys @ f # zs) (p, n)" and ids: "sorted_wrt (<) (map fr_id (ys @ f # zs))"
    and p: "p \<le> Some (fr_id f)"
  shows "\<exists>t cu' q. cursor_slice fragment_ops id_dim (id_target (fr_id f)) BiasLeft cu = Some (t, cu')
    \<and> tree_ok fragment_ops t \<and> tree_items t = ys
    \<and> cursor_at fragment_ops id_dim cu' (f # zs) (q, n + length (visible_cells ys)) \<and> cu_did_seek cu'
    \<and> q \<le> Some (fr_id f)"
proof -
  let ?i = "fr_id f"
  have "id_target ?i (p, n) \<noteq> Less" using p by (auto simp: id_target_def cmp_def)
  from by_id.cursor_slice_splits [OF at this ordered_ids [OF ids]] obtain t cu' as bs where
    s: "cursor_slice fragment_ops id_dim (id_target ?i) BiasLeft cu = Some (t, cu')"
      "seek_splits fragment_ops id_dim (target_in (id_target ?i) BiasLeft) (ys @ f # zs) (p, n) as bs"
      "tree_ok fragment_ops t" "tree_items t = as"
      "cursor_at fragment_ops id_dim cu' bs (last_end (p, n) (item_ends fragment_ops id_dim (p, n) as))" "cu_did_seek cu'"
    by blast
  from s(2) have split: "ys @ f # zs = as @ bs"
    and before: "\<forall>e \<in> fst ` set (item_ends fragment_ops id_dim (p, n) as). \<not> Some ?i \<le> e"
    and first: "bs \<noteq> [] \<longrightarrow> ?i \<le> fr_id (hd bs)"
    by (auto simp: seek_splits_def id_target_in id_dim_add)
  have "fst ` set (item_ends fragment_ops id_dim (p, n) as) = Some ` fr_id ` set as"
    using arg_cong [OF id_ends_ids [of "(p, n)" as], of set] by (simp add: image_comp)
  with before have before: "\<forall>a \<in> set as. fr_id a < ?i" by auto
  have sorted: "key_sorted fr_id (as @ bs)" using ids split by (simp add: key_sorted_def)
  have "\<forall>y \<in> set ys. fr_id y < ?i" "\<forall>z \<in> set zs. ?i < fr_id z" using ids by (auto simp: sorted_wrt_append)
  then have parts: "filter (\<lambda>x. fr_id x < ?i) ys = ys" "filter (\<lambda>x. fr_id x < ?i) zs = []"
      "filter (\<lambda>x. ?i \<le> fr_id x) ys = []" "filter (\<lambda>x. ?i \<le> fr_id x) zs = zs"
    by (auto simp: filter_id_conv filter_empty_conv not_le)
  from key_sorted_split [OF sorted before first, folded split] parts have "as = ys" "bs = f # zs" by simp_all
  moreover from this before have "ys \<noteq> [] \<longrightarrow> fr_id (last ys) \<le> ?i" by (auto simp: less_imp_le)
  ultimately show ?thesis using s p by (auto simp: id_last_end split: if_splits)
qed

lemma by_id_suffix_at:
  assumes "cursor_at fragment_ops id_dim cu fs (p, n)"
  shows "\<exists>t cu' q. cursor_suffix fragment_ops id_dim cu = Some (t, cu') \<and> tree_ok fragment_ops t \<and> tree_items t = fs
    \<and> cursor_at fragment_ops id_dim cu' [] (q, n + length (visible_cells fs)) \<and> cu_did_seek cu'"
proof -
  have never: "target_in end_target BiasRight = (\<lambda>_. False)" by (auto simp: target_in_def end_target_def)
  have "ordered_ends (target_in end_target BiasRight) (item_ends fragment_ops id_dim (p, n) fs)"
    by (simp add: never ordered_ends_def sorted_wrt_iff_nth_less)
  from by_id.cursor_slice_splits [OF assms _ this] show ?thesis
    by (auto simp: end_target_def never cursor_suffix_def seek_splits_def id_last_end)
qed

section \<open>The walk\<close>

text \<open>Old fragments passed and to come; each passed one was replaced by \<open>upd\<close>.\<close>

definition undoing ::
  "(cell \<Rightarrow> 8 word) \<Rightarrow> fragment list \<Rightarrow> (fragment \<Rightarrow> fragment) \<Rightarrow> fragment list \<Rightarrow> fragment list \<Rightarrow> undo_progress \<Rightarrow> bool" where
  "undoing content F upd passed rest st \<longleftrightarrow>
     F = passed @ rest
     \<and> (\<exists>p. cursor_at fragment_ops id_dim (up_old_fragments st) rest (p, length (visible_cells passed))
          \<and> (\<forall>f \<in> set rest. p \<le> Some (fr_id f)))
     \<and> tree_ok fragment_ops (up_new_fragments st) \<and> tree_items (up_new_fragments st) = map upd passed
     \<and> ropes_at (map content (visible_cells F)) (map content (deleted_cells F)) (length (visible_cells passed))
         (length (deleted_cells passed)) (map content (visible_cells (map upd passed)))
         (map content (deleted_cells (map upd passed))) (up_new_ropes st)
     \<and> covers (map content (visible_cells F)) (map content (visible_cells (map upd F))) 0 0 (up_edits st)
         (length (visible_cells passed)) (length (visible_cells (map upd passed)))"

lemma undoingD:
  assumes "undoing content F upd passed rest st"
  shows "F = passed @ rest"
    and "\<exists>p. cursor_at fragment_ops id_dim (up_old_fragments st) rest (p, length (visible_cells passed))
          \<and> (\<forall>f \<in> set rest. p \<le> Some (fr_id f))"
    and "tree_ok fragment_ops (up_new_fragments st)" "tree_items (up_new_fragments st) = map upd passed"
    and "ropes_at (map content (visible_cells F)) (map content (deleted_cells F)) (length (visible_cells passed))
         (length (deleted_cells passed)) (map content (visible_cells (map upd passed)))
         (map content (deleted_cells (map upd passed))) (up_new_ropes st)"
    and "covers (map content (visible_cells F)) (map content (visible_cells (map upd F))) 0 0 (up_edits st)
         (length (visible_cells passed)) (length (visible_cells (map upd passed)))"
  using assms unfolding undoing_def by blast+

lemma rope_push_revived:
  "\<lbrakk>ropes_at V D i j v d rb; j + k \<le> length D\<rbrakk> \<Longrightarrow>
   \<exists>rb'. rope_push k False vis rb = Some rb'
     \<and> ropes_at V D i (j + k) (if vis then v @ take k (drop j D) else v) (if vis then d else d @ take k (drop j D)) rb'"
  by (simp add: ropes_at_def rope_push_def rope_cursor_slice_def)

text \<open>Fragments that are not concerned are passed.\<close>

lemma append_preceding_at:
  assumes u: "undoing content F upd passed (ys @ zs) st" and same: "\<forall>y \<in> set ys. upd y = y"
    and t: "tree_ok fragment_ops t" "tree_items t = ys"
    and cu: "cursor_at fragment_ops id_dim cu zs (q, length (visible_cells (passed @ ys)))" "\<forall>f \<in> set zs. q \<le> Some (fr_id f)"
  shows "\<exists>st'. append_preceding t (st\<lparr>up_old_fragments := cu\<rparr>) = Some st'
    \<and> undoing content F upd (passed @ ys) zs st' \<and> up_old_fragments st' = cu"
proof -
  let ?V = "map content (visible_cells F)" and ?D = "map content (deleted_cells F)"
  let ?b = "map content (visible_cells (map upd F))"
  note F = undoingD(1) [OF u] and new = undoingD(3,4) [OF u] and ropes = undoingD(5) [OF u] and cov = undoingD(6) [OF u]
  have ys: "map upd ys = ys" using same by (simp add: map_idI)
  have sum: "fs_text (summary t) = text_sum ys" using tree_summary [OF t(1)] t(2) by (simp add: frag_sum_fields)
  from rope_append_at [OF ropes, of "text_sum ys"] F obtain rb where
    rb: "rope_append (text_sum ys) (up_new_ropes st) = Some rb"
      "ropes_at ?V ?D (length (visible_cells (passed @ ys))) (length (deleted_cells (passed @ ys)))
         (map content (visible_cells (map upd (passed @ ys)))) (map content (deleted_cells (map upd (passed @ ys)))) rb"
    by (auto simp: take_map drop_map ys)
  from fragments.append_tree_refines [OF new(1) t(1)] obtain n where
    n: "append_tree fragment_ops (up_new_fragments st) t = Some n" "tree_ok fragment_ops n"
      "tree_items n = map upd (passed @ ys)"
    by (auto simp: new(2) t(2) ys)
  have "aligned ?V ?b (length (visible_cells passed)) (length (visible_cells (map upd passed)))
      (length (visible_cells (passed @ ys))) (length (visible_cells (map upd (passed @ ys))))"
    by (auto simp: aligned_def F ys nth_append)
  from covers_extend [OF cov this] rb n cu F show ?thesis
    by (auto simp: append_preceding_def sum undoing_def)
qed

text \<open>A fragment that is concerned is decided anew: the texts and the patch follow.\<close>

lemma undo_rope_at:
  assumes r: "ropes_at (map content (visible_cells F)) (map content (deleted_cells F))
      (length (visible_cells passed)) (length (deleted_cells passed)) v d rb" and f: "0 < fr_len f" and F: "F = passed @ f # zs"
    and g: "fr_len g = fr_len f" "cells g = cells f"
  shows "\<exists>rb'. rope_push_fragment g (fr_visible f) rb = Some rb'
    \<and> ropes_at (map content (visible_cells F)) (map content (deleted_cells F))
        (length (visible_cells (passed @ [f]))) (length (deleted_cells (passed @ [f])))
        (v @ map content (visible_cells [g])) (d @ map content (deleted_cells [g])) rb'"
proof (cases "fr_visible f")
  case True
  with rope_push_visible [OF r, of "fr_len f" "fr_visible g"] f g F show ?thesis
    by (auto simp: rope_push_fragment_def take_map drop_map split: if_splits)
next
  case False
  with rope_push_revived [OF r, of "fr_len f" "fr_visible g"] f g F show ?thesis
    by (auto simp: rope_push_fragment_def take_map drop_map split: if_splits)
qed

lemma undo_patch_at:
  assumes c: "covers (map content (visible_cells F)) (map content (visible_cells (map upd F))) 0 0 es
      (length (visible_cells passed)) (length (visible_cells (map upd passed)))"
    and F: "F = passed @ f # zs" and upd: "cells (upd f) = cells f" "fr_len (upd f) = fr_len f"
  shows "covers (map content (visible_cells F)) (map content (visible_cells (map upd F))) 0 0
    (undo_edit_patch (fr_visible f) (fr_visible (upd f)) (fr_len f) (length (visible_cells passed))
       (length (visible_cells (map upd passed))) es)
    (length (visible_cells (passed @ [f]))) (length (visible_cells (map upd (passed @ [f]))))"
proof (cases "fr_visible f = fr_visible (upd f)")
  case True
  have "aligned (map content (visible_cells F)) (map content (visible_cells (map upd F)))
      (length (visible_cells passed)) (length (visible_cells (map upd passed)))
      (length (visible_cells (passed @ [f]))) (length (visible_cells (map upd (passed @ [f]))))"
    using True upd by (auto simp: aligned_def F nth_append)
  from covers_extend [OF c this] True show ?thesis by (auto simp: undo_edit_patch_def)
next
  case False
  with covers_push [OF c, of "length (visible_cells passed)" "length (visible_cells (map upd passed))"
      "length (visible_cells (passed @ [f]))" "length (visible_cells (map upd (passed @ [f])))"] upd F
  show ?thesis by (auto simp: undo_edit_patch_def)
qed

lemma undo_fragment_at:
  assumes u: "undoing content F upd passed (ys @ f # zs) st" and same: "\<forall>y \<in> set ys. upd y = y"
    and F: "sorted_wrt (<) (map fr_id F)" "0 < fr_len f"
    and undos: "undo_ok undos" "height undos < STACK_CAPACITY"
    and f: "upd f = f\<lparr>fr_visible := visible_under undos f, fr_max_undos := vv_observe (fr_max_undos f) ts\<rparr>"
  shows "\<exists>st'. undo_fragment undos ts (fr_id f) st = Some st' \<and> undoing content F upd (passed @ ys @ [f]) zs st'"
proof -
  let ?V = "map content (visible_cells F)" and ?D = "map content (deleted_cells F)"
  let ?b = "map content (visible_cells (map upd F))"
  from u obtain p where at: "cursor_at fragment_ops id_dim (up_old_fragments st) (ys @ f # zs) (p, length (visible_cells passed))"
      "p \<le> Some (fr_id f)" and split: "F = passed @ ys @ f # zs"
    by (auto simp: undoing_def)
  from F(1) split have sorted: "sorted_wrt (<) (map fr_id (ys @ f # zs))" "\<forall>z \<in> set zs. fr_id f < fr_id z"
    by (auto simp: sorted_wrt_append)
  from slice_to_id [OF at(1) sorted(1) at(2)] obtain t cu q where
    1: "cursor_slice fragment_ops id_dim (id_target (fr_id f)) BiasLeft (up_old_fragments st) = Some (t, cu)"
      "tree_ok fragment_ops t" "tree_items t = ys"
      "cursor_at fragment_ops id_dim cu (f # zs) (q, length (visible_cells (passed @ ys)))" "cu_did_seek cu"
      "q \<le> Some (fr_id f)"
    by auto
  have q: "\<forall>z \<in> set (f # zs). q \<le> Some (fr_id z)" using 1(6) sorted(2) by (cases q) (auto intro: order_trans less_imp_le)
  let ?passed = "passed @ ys" and ?vis = "visible_under undos f"
  from append_preceding_at [OF u same 1(2-4) q] obtain st1 where
    2: "append_preceding t (st\<lparr>up_old_fragments := cu\<rparr>) = Some st1" "undoing content F upd ?passed (f # zs) st1"
      "up_old_fragments st1 = cu"
    by blast
  note new = undoingD(3,4) [OF 2(2)] and cov = undoingD(6) [OF 2(2)]
  from cursor_item_at(1) [OF 1(4,5)] have item: "cursor_item cu = Some (Some f)" by simp
  from 1(4) have pos: "snd (cu_position cu) = length (visible_cells ?passed)" by (simp add: cursor_at_def)
  from by_id.cursor_next_at [OF 1(4)] 1(5) obtain cu' where
    3: "cursor_next id_dim cu = Some cu'" "cursor_at fragment_ops id_dim cu' zs (Some (fr_id f), length (visible_cells (?passed @ [f])))"
    by (auto simp: by_id.after_current_def by_id.position_after_def id_dim_add add.assoc split: if_splits)
  have upd: "cells (upd f) = cells f" "fr_len (upd f) = fr_len f" "fr_visible (upd f) = ?vis"
    by (simp_all add: f cells_def)
  from undo_rope_at [OF undoingD(5) [OF 2(2)] F(2), of zs "upd f"] split upd obtain rb where
    rb: "rope_push_fragment (upd f) (fr_visible f) (up_new_ropes st1) = Some rb"
      "ropes_at ?V ?D (length (visible_cells (?passed @ [f]))) (length (deleted_cells (?passed @ [f])))
         (map content (visible_cells (map upd (?passed @ [f])))) (map content (deleted_cells (map upd (?passed @ [f])))) rb"
    by auto
  from fragments.push_item_refines [OF new(1), of "upd f"] obtain n where
    n: "push_item fragment_ops (up_new_fragments st1) (upd f) = Some n" "tree_ok fragment_ops n"
      "tree_items n = map upd (?passed @ [f])"
    by (auto simp: new(2))
  have at_new: "ft_visible (fs_text (summary (up_new_fragments st1))) = length (visible_cells (map upd ?passed))"
    by (simp add: tree_summary [OF new(1)] new(2) frag_sum_fields)
  let ?e = "undo_edit_patch (fr_visible f) ?vis (fr_len f) (length (visible_cells ?passed))
      (length (visible_cells (map upd ?passed))) (up_edits st1)"
  have "covers ?V ?b 0 0 ?e (length (visible_cells (?passed @ [f]))) (length (visible_cells (map upd (?passed @ [f]))))"
    using undo_patch_at [OF cov, of f zs] split upd by simp
  moreover have "undo_fragment undos ts (fr_id f) st = Some (st1\<lparr>up_edits := ?e, up_new_ropes := rb,
      up_new_fragments := n, up_old_fragments := cu'\<rparr>)"
    using 1(1) 2(1,3) item pos rb(1) n(1) 3(1) f upd(2)
    by (simp add: undo_fragment_def is_visible_at [OF undos] at_new Let_def)
  ultimately show ?thesis
    using 3(2) n(2,3) rb(2) sorted(2) split by (auto simp: undoing_def less_imp_le)
qed

definition refresh :: "undo_map \<Rightarrow> lamport \<Rightarrow> locator set \<Rightarrow> fragment \<Rightarrow> fragment" where
  "refresh undos ts ids f =
     (if fr_id f \<in> ids then f\<lparr>fr_visible := visible_under undos f, fr_max_undos := vv_observe (fr_max_undos f) ts\<rparr> else f)"

lemma undo_fragments_at:
  assumes "undoing content F upd passed rest st" "sorted_wrt (<) (map fr_id F)" "\<forall>f \<in> set F. 0 < fr_len f"
    and "undo_ok undos" "height undos < STACK_CAPACITY"
    and "sorted_wrt (<) ids" "\<forall>f \<in> set rest. upd f = refresh undos ts (set ids) f" "set ids \<subseteq> fr_id ` set rest"
  shows "\<exists>st' passed' rest'. undo_fragments undos ts ids st = Some st' \<and> undoing content F upd passed' rest' st'
    \<and> (\<forall>f \<in> set rest'. upd f = f)"
  using assms
proof (induction ids arbitrary: passed rest st)
  case Nil
  then show ?case by (auto simp: refresh_def)
next
  case (Cons i ids)
  from Cons.prems(8) obtain f where "f \<in> set rest" "fr_id f = i" by auto
  then obtain ys zs where rest: "rest = ys @ f # zs" and i: "fr_id f = i" by (auto simp: in_set_conv_decomp)
  have "F = passed @ ys @ f # zs" using undoingD(1) [OF Cons.prems(1)] rest by simp
  with Cons.prems(2,3) have order: "\<forall>y \<in> set ys. fr_id y < i" "\<forall>z \<in> set zs. i < fr_id z" and len: "0 < fr_len f"
    by (auto simp: sorted_wrt_append i)
  from Cons.prems(6) have later: "\<forall>j \<in> set ids. i < j" by simp
  have "\<forall>y \<in> set ys. upd y = y" using Cons.prems(7) rest order(1) later by (fastforce simp: refresh_def)
  moreover have "upd f = f\<lparr>fr_visible := visible_under undos f, fr_max_undos := vv_observe (fr_max_undos f) ts\<rparr>"
    using Cons.prems(7) rest i by (simp add: refresh_def)
  ultimately obtain st1 where
    1: "undo_fragment undos ts (fr_id f) st = Some st1" "undoing content F upd (passed @ ys @ [f]) zs st1"
    using undo_fragment_at [OF _ _ Cons.prems(2) len Cons.prems(4,5)] Cons.prems(1) rest by blast
  have "\<forall>z \<in> set zs. upd z = refresh undos ts (set ids) z" using Cons.prems(7) rest order(2) by (auto simp: refresh_def)
  moreover have "set ids \<subseteq> fr_id ` set zs"
  proof
    fix j
    assume j: "j \<in> set ids"
    with Cons.prems(8) rest obtain g where "g \<in> set (ys @ f # zs)" "j = fr_id g" by auto
    moreover have "\<not> fr_id y \<in> set ids" if "y \<in> set ys" for y using that order(1) later by (auto dest: less_asym)
    ultimately show "j \<in> fr_id ` set zs" using later j i by auto
  qed
  ultimately show ?case
    using Cons.IH [OF 1(2) Cons.prems(2-5)] Cons.prems(6) 1(1) i by simp
qed

text \<open>The fragments found by the search have different identifiers.\<close>

lemma found_ids:
  assumes sn: "buffer_ok content sn" and cs: "subseq cs (tree_items (bs_insertions sn))"
  shows "sorted_wrt (<) (sort (map if_fragment_id cs))" and "set (map if_fragment_id cs) \<subseteq> fr_id ` set (buffer_fragments sn)"
proof -
  let ?xs = "tree_items (bs_insertions sn)" and ?F = "buffer_fragments sn"
  from sn have items: "set ?xs = insertion_fragment_new ` set ?F" and sorted: "key_sorted insertion_key ?xs"
    and ids: "sorted_wrt (<) (map fr_id ?F)"
    by (simp_all add: buffer_ok_def fragments_ok_def ids_ok_def)
  from ids have "inj_on fr_id (set ?F)" by (simp add: strict_sorted_iff distinct_map)
  then have "inj_on if_fragment_id (set ?xs)"
    unfolding items by (auto simp: inj_on_def insertion_fragment_new_def)
  moreover from sorted have "distinct ?xs" by (auto simp: key_sorted_def strict_sorted_iff distinct_map)
  ultimately have "distinct (map if_fragment_id ?xs)" by (simp add: distinct_map)
  from subseq_distinct_map [OF cs this] show "sorted_wrt (<) (sort (map if_fragment_id cs))"
    by (simp add: strict_sorted_iff)
  have "set cs \<subseteq> set ?xs" using list_emb_set [OF cs] by blast
  then show "set (map if_fragment_id cs) \<subseteq> fr_id ` set ?F"
    unfolding items by (auto simp: insertion_fragment_new_def)
qed

lemma refresh_same [simp]:
  "fr_id (refresh m ts ids f) = fr_id f" "fr_len (refresh m ts ids f) = fr_len f" "cells (refresh m ts ids f) = cells f"
  "fr_timestamp (refresh m ts ids f) = fr_timestamp f" "fr_deletions (refresh m ts ids f) = fr_deletions f"
  "fr_insertion_offset (refresh m ts ids f) = fr_insertion_offset f"
  "insertion_fragment_new (refresh m ts ids f) = insertion_fragment_new f"
  "visible_under m' (refresh m ts ids f) = visible_under m' f"
  by (simp_all add: refresh_def cells_def insertion_fragment_new_def visible_under_def)

lemma refresh_fragments_ok: "fragments_ok (map (refresh m ts ids) fs) \<longleftrightarrow> fragments_ok fs"
  and refresh_all_cells: "all_cells (map (refresh m ts ids) fs) = all_cells fs"
proof -
  show cells: "all_cells (map (refresh m ts ids) fs) = all_cells fs" by (induction fs) simp_all
  show "fragments_ok (map (refresh m ts ids) fs) \<longleftrightarrow> fragments_ok fs"
    by (simp add: fragments_ok_def ids_ok_def cells comp_def)
qed

section \<open>The whole undo\<close>

lemma apply_undo_at:
  assumes sn: "buffer_ok content sn" "shallow sn"
    and undo: "undo_ok (bs_undo_map sn)" "height (bs_undo_map sn) < STACK_CAPACITY" "distinct (map fst (uo_counts undo))"
      "undo_insert undo (bs_undo_map sn) = Some undos" "height undos < STACK_CAPACITY"
    and times: "\<And>s. has_slice sn s \<Longrightarrow> is_insertion_id s \<noteq> lamport_MIN"
  shows "\<exists>p sn' ids. apply_undo undo sn = Some (p, sn')
    \<and> buffer_fragments sn' = map (refresh undos (uo_timestamp undo) ids) (buffer_fragments sn)
    \<and> buffer_ok content sn' \<and> leads (bs_visible_text sn) p (bs_visible_text sn')
    \<and> bs_undo_map sn' = undos \<and> undo_ok undos \<and> bs_version sn' = bs_version sn
    \<and> bs_insertions sn' = bs_insertions sn \<and> bs_insertion_slices sn' = bs_insertion_slices sn
    \<and> (\<forall>s f. has_slice sn s \<and> is_edit_id s \<in> fst ` set (uo_counts undo) \<and> f \<in> set (buffer_fragments sn)
          \<and> in_slice s (insertion_fragment_new f) \<longrightarrow> fr_id f \<in> ids)"
proof -
  let ?F = "buffer_fragments sn" and ?ts = "uo_timestamp undo" and ?sn = "sn\<lparr>bs_undo_map := undos\<rparr>"
  from undo_insert_items [OF undo(1-3)] undo(4) have undos: "undo_ok undos" by auto
  have "has_slice ?sn s \<longleftrightarrow> has_slice sn s" for s by (simp add: has_slice_def)
  with fragment_ids_at [of ?sn "map fst (uo_counts undo)"] sn times obtain cs where
    cs: "fragment_ids_for_edits (map fst (uo_counts undo)) ?sn = Some (sort (map if_fragment_id cs))"
      "subseq cs (tree_items (bs_insertions sn))"
      "\<forall>s x. has_slice sn s \<and> is_edit_id s \<in> fst ` set (uo_counts undo) \<and> x \<in> set (tree_items (bs_insertions sn))
         \<and> in_slice s x \<longrightarrow> x \<in> set cs"
    by (auto simp: buffer_ok_def shallow_def)
  let ?ids = "sort (map if_fragment_id cs)"
  let ?upd = "refresh undos ?ts (set ?ids)"
  let ?st = "\<lparr>up_old_fragments = cursor_new id_dim (bs_fragments sn), up_new_fragments = tree_new fragment_ops,
        up_new_ropes = rope_builder_new \<lparr>rc_rope = bs_visible_text sn, rc_offset = 0\<rparr>
          \<lparr>rc_rope = bs_deleted_text sn, rc_offset = 0\<rparr>, up_edits = []\<rparr>"
  from sn have F: "tree_ok fragment_ops (bs_fragments sn)" "height (bs_fragments sn) < STACK_CAPACITY"
      "bs_visible_text sn = map content (visible_cells ?F)" "bs_deleted_text sn = map content (deleted_cells ?F)"
      "sorted_wrt (<) (map fr_id ?F)" "\<forall>f \<in> set ?F. 0 < fr_len f"
    by (simp_all add: buffer_ok_def shallow_def fragments_ok_def ids_ok_def)
  have "cursor_at fragment_ops id_dim (cursor_new id_dim (bs_fragments sn)) ?F (None, 0)"
    using cursor_at_new [OF F(1,2), of id_dim] by (simp add: id_dim_def)
  then have "undoing content ?F ?upd [] ?F ?st"
    by (auto simp: undoing_def tree_ok_def tree_new_def ropes_at_def rope_builder_new_def F(3,4))
  from undo_fragments_at [where ts = ?ts, OF this F(5,6) undos undo(5) found_ids(1) [OF sn(1) cs(2)]] found_ids(2) [OF sn(1) cs(2)]
  obtain st passed rest where
    1: "undo_fragments undos ?ts ?ids ?st = Some st" "undoing content ?F ?upd passed rest st" "\<forall>f \<in> set rest. ?upd f = f"
    by auto
  from undoingD(2) [OF 1(2)] obtain p where
    at: "cursor_at fragment_ops id_dim (up_old_fragments st) rest (p, length (visible_cells passed))" by blast
  from by_id_suffix_at [OF at] obtain t cu q where
    2: "cursor_suffix fragment_ops id_dim (up_old_fragments st) = Some (t, cu)" "tree_ok fragment_ops t" "tree_items t = rest"
      "cursor_at fragment_ops id_dim cu [] (q, length (visible_cells (passed @ rest)))"
    by auto
  from append_preceding_at [of content ?F ?upd passed rest "[]" st t cu q] 1(2,3) 2(2-4) obtain st1 where
    3: "append_preceding t (st\<lparr>up_old_fragments := cu\<rparr>) = Some st1" "undoing content ?F ?upd (passed @ rest) [] st1"
    by auto
  have all: "passed @ rest = ?F" using undoingD(1) [OF 1(2)] by simp
  note fin = undoingD [OF 3(2), unfolded all]
  let ?G = "map ?upd ?F"
  let ?sn' = "?sn\<lparr>bs_fragments := up_new_fragments st1, bs_visible_text := map content (visible_cells ?G),
      bs_deleted_text := map content (deleted_cells ?G)\<rparr>"
  from rope_finish_at [OF fin(5)] have ropes: "rope_finish (up_new_ropes st1) =
      Some (map content (visible_cells ?G), map content (deleted_cells ?G))" by simp
  have run: "apply_undo undo sn = Some (up_edits st1, ?sn')"
    using undo(4) cs(1) 1(1) 2(1) 3(1) ropes by (simp add: apply_undo_def)
  moreover have "buffer_ok content ?sn'"
    using sn(1) fin(3,4) by (simp add: buffer_ok_def refresh_fragments_ok image_image)
  moreover have "leads (bs_visible_text sn) (up_edits st1) (bs_visible_text ?sn')"
    using fin(6) by (simp add: leads_def F(3))
  moreover have "fr_id f \<in> set ?ids" if "has_slice sn s" "is_edit_id s \<in> fst ` set (uo_counts undo)" "f \<in> set ?F"
      "in_slice s (insertion_fragment_new f)" for s f
  proof -
    have "insertion_fragment_new f \<in> set (tree_items (bs_insertions sn))" using sn(1) that(3) by (simp add: buffer_ok_def)
    with cs(3) that have "insertion_fragment_new f \<in> set cs" by blast
    then have "if_fragment_id (insertion_fragment_new f) \<in> set ?ids" by simp
    then show ?thesis by (simp add: insertion_fragment_new_def)
  qed
  ultimately show ?thesis
    using undos fin(4) by (intro exI [of _ "up_edits st1"] exI [of _ ?sn'] exI [of _ "set ?ids"]) auto
qed

end
