(* ===== verification/UndoContract.thy ===== *)
theory UndoContract
  imports UndoWalk
begin

text \<open>
  The contract of undo: after an undo operation every fragment is visible exactly when its insertion is not
  undone and all of its deletions are; undoing an edit gives back the text before it, byte for byte, and
  undoing that gives back the text after it.
\<close>

section \<open>The invariant of undoing\<close>

text \<open>Whatever became of the fragments that an edit touched, its slices cover them.\<close>

definition covers_edit :: "buffer_snapshot \<Rightarrow> lamport \<Rightarrow> bool" where
  "covers_edit sn e \<longleftrightarrow> (\<forall>f \<in> set (buffer_fragments sn). touched_by e f \<longrightarrow>
     (\<exists>s. has_slice sn s \<and> is_edit_id s = e \<and> is_insertion_id s = fr_timestamp f \<and> is_start s \<le> fr_insertion_offset f
        \<and> fr_insertion_offset f + fr_len f \<le> is_end s))"

definition visibility_ok :: "buffer_snapshot \<Rightarrow> bool" where
  "visibility_ok sn \<longleftrightarrow> (\<forall>f \<in> set (buffer_fragments sn). fr_visible f \<longleftrightarrow> visible_under (bs_undo_map sn) f)"

definition timed :: "buffer_snapshot \<Rightarrow> bool" where
  "timed sn \<longleftrightarrow> (\<forall>f \<in> set (buffer_fragments sn). fr_timestamp f \<noteq> lamport_MIN)
     \<and> (\<forall>s. has_slice sn s \<longrightarrow> is_insertion_id s \<noteq> lamport_MIN)"

definition undo_ready :: "buffer_snapshot \<Rightarrow> lamport set \<Rightarrow> bool" where
  "undo_ready sn E \<longleftrightarrow> undo_ok (bs_undo_map sn) \<and> height (bs_undo_map sn) < STACK_CAPACITY
     \<and> visibility_ok sn \<and> timed sn \<and> (\<forall>e \<in> E. covers_edit sn e)"

text \<open>An edit that was never undone.\<close>

definition never_undone :: "lamport \<Rightarrow> buffer_snapshot \<Rightarrow> bool" where
  "never_undone ts sn \<longleftrightarrow> (\<forall>x \<in> set (tree_items (bs_undo_map sn)). uk_edit_id (ue_key x) \<noteq> ts)"

lemma never_undone_count: "never_undone ts sn \<Longrightarrow> largest_count ts (\<lambda>_. True) (tree_items (bs_undo_map sn)) = 0"
proof -
  assume "never_undone ts sn"
  then have none: "{x \<in> set (tree_items (bs_undo_map sn)). uk_edit_id (ue_key x) = ts \<and> True} = {}"
    by (auto simp: never_undone_def)
  show ?thesis unfolding largest_count_def none by simp
qed

section \<open>Edits keep it\<close>

lemma derived_touched:
  assumes "derived F ts n" "touched_by e n" "e \<noteq> ts"
  shows "\<exists>f \<in> set F. piece_of ts f n \<and> touched_by e f"
  using assms by (auto simp: derived_def piece_of_def touched_by_def)

lemma edit_covers:
  assumes out: "edit_outcome content edits ts sn (op, p, sn')" and e: "e = ts \<or> covers_edit sn e"
  shows "covers_edit sn' e"
  unfolding covers_edit_def
proof (intro ballI impI)
  fix n
  assume n: "n \<in> set (buffer_fragments sn')" "touched_by e n"
  from out have slices: "\<And>s. has_slice sn' s \<longleftrightarrow> has_slice sn s \<or> s \<in> slice_of ts ` {f \<in> set (buffer_fragments sn'). touched_by ts f}"
    and n': "derived (buffer_fragments sn) ts n"
    using n(1) by (simp_all add: edit_outcome_def)
  show "\<exists>s. has_slice sn' s \<and> is_edit_id s = e \<and> is_insertion_id s = fr_timestamp n \<and> is_start s \<le> fr_insertion_offset n
      \<and> fr_insertion_offset n + fr_len n \<le> is_end s"
  proof (cases "e = ts")
    case True
    with n slices have "has_slice sn' (slice_of ts n)" by blast
    with True show ?thesis by (intro exI [of _ "slice_of ts n"]) (simp add: slice_of_def)
  next
    case False
    from derived_touched [OF n' n(2) False] obtain f where
      f: "f \<in> set (buffer_fragments sn)" "piece_of ts f n" "touched_by e f" by blast
    with e False obtain s where "has_slice sn s" "is_edit_id s = e" "is_insertion_id s = fr_timestamp f"
        "is_start s \<le> fr_insertion_offset f" "fr_insertion_offset f + fr_len f \<le> is_end s"
      by (auto simp: covers_edit_def)
    with f(2) slices show ?thesis by (intro exI [of _ s]) (auto simp: piece_of_def)
  qed
qed

lemma edit_visibility:
  assumes out: "edit_outcome content edits ts sn (op, p, sn')" and sn: "visibility_ok sn" "never_undone ts sn"
  shows "visibility_ok sn'"
  unfolding visibility_ok_def
proof
  fix n
  assume "n \<in> set (buffer_fragments sn')"
  with out have n: "derived (buffer_fragments sn) ts n" and undo: "bs_undo_map sn' = bs_undo_map sn"
    by (simp_all add: edit_outcome_def)
  have ts: "\<not> undone (bs_undo_map sn) ts" using never_undone_count [OF sn(2)] by (simp add: undone_def)
  from n sn(1) ts show "fr_visible n \<longleftrightarrow> visible_under (bs_undo_map sn') n"
    unfolding undo by (auto simp: derived_def piece_of_def visible_under_def visibility_ok_def)
qed

lemma edit_timed:
  assumes out: "edit_outcome content edits ts sn (op, p, sn')" and sn: "timed sn" "ts \<noteq> lamport_MIN"
  shows "timed sn'"
proof -
  from out have slices: "\<And>s. has_slice sn' s \<longleftrightarrow> has_slice sn s \<or> s \<in> slice_of ts ` {f \<in> set (buffer_fragments sn'). touched_by ts f}"
    and n: "\<forall>n \<in> set (buffer_fragments sn'). derived (buffer_fragments sn) ts n"
    by (simp_all add: edit_outcome_def)
  from n sn have "\<forall>n \<in> set (buffer_fragments sn'). fr_timestamp n \<noteq> lamport_MIN"
    by (auto simp: derived_def piece_of_def timed_def)
  with slices sn(1) show ?thesis by (auto simp: timed_def slice_of_def)
qed

lemma edit_undo_ready:
  assumes out: "edit_outcome content edits ts sn (op, p, sn')" and sn: "undo_ready sn E" "never_undone ts sn" "ts \<noteq> lamport_MIN"
  shows "undo_ready sn' (insert ts E)"
proof -
  from out have "bs_undo_map sn' = bs_undo_map sn" by (simp add: edit_outcome_def)
  with sn edit_covers [OF out] edit_visibility [OF out] edit_timed [OF out] show ?thesis by (simp add: undo_ready_def)
qed

section \<open>Undo keeps it\<close>

text \<open>An undo operation for edits whose slices cover what they touched, new to the undo map.\<close>

definition undo_applies :: "undo_operation \<Rightarrow> buffer_snapshot \<Rightarrow> lamport set \<Rightarrow> bool" where
  "undo_applies undo sn E \<longleftrightarrow> distinct (map fst (uo_counts undo)) \<and> fst ` set (uo_counts undo) \<subseteq> E
     \<and> (\<forall>x \<in> set (tree_items (bs_undo_map sn)). uk_undo_id (ue_key x) \<noteq> uo_timestamp undo)
     \<and> (\<forall>m. undo_insert undo (bs_undo_map sn) = Some m \<longrightarrow> height m < STACK_CAPACITY)"

definition undo_outcome ::
  "(cell \<Rightarrow> 8 word) \<Rightarrow> undo_operation \<Rightarrow> buffer_snapshot \<Rightarrow> patch \<times> buffer_snapshot \<Rightarrow> bool" where
  "undo_outcome content undo sn r \<longleftrightarrow> (case r of (p, sn') \<Rightarrow>
     buffer_ok content sn' \<and> leads (bs_visible_text sn) p (bs_visible_text sn')
     \<and> (\<exists>ids. buffer_fragments sn' = map (refresh (bs_undo_map sn') (uo_timestamp undo) ids) (buffer_fragments sn))
     \<and> (\<forall>e. largest_count e (\<lambda>_. True) (tree_items (bs_undo_map sn')) =
          max (largest_count e (\<lambda>_. True) (tree_items (bs_undo_map sn))) (case map_of (uo_counts undo) e of None \<Rightarrow> 0 | Some n \<Rightarrow> n))
     \<and> (\<forall>x \<in> set (tree_items (bs_undo_map sn')). x \<in> set (tree_items (bs_undo_map sn))
          \<or> uk_undo_id (ue_key x) = uo_timestamp undo \<and> uk_edit_id (ue_key x) \<in> fst ` set (uo_counts undo))
     \<and> bs_version sn' = bs_version sn \<and> bs_insertions sn' = bs_insertions sn \<and> bs_insertion_slices sn' = bs_insertion_slices sn)"

lemma refresh_visibility:
  assumes vis: "fr_visible f \<longleftrightarrow> visible_under m f"
    and same: "\<And>e. e \<notin> K \<Longrightarrow> undone m' e \<longleftrightarrow> undone m e"
    and found: "\<And>e. e \<in> K \<Longrightarrow> touched_by e f \<Longrightarrow> fr_id f \<in> ids"
  shows "fr_visible (refresh m' ts ids f) \<longleftrightarrow> visible_under m' f"
proof (cases "fr_id f \<in> ids")
  case False
  with found have "\<not> touched_by e f" if "e \<in> K" for e using that by blast
  then have "undone m' e \<longleftrightarrow> undone m e" if "e = fr_timestamp f \<or> e \<in> set (fr_deletions f)" for e
    using that same by (auto simp: touched_by_def)
  with False vis show ?thesis by (simp add: refresh_def visible_under_def)
qed (simp add: refresh_def)

lemma undo_at:
  assumes sn: "buffer_ok content sn" "shallow sn" "undo_ready sn E" and undo: "undo_applies undo sn E"
  shows "\<exists>r. apply_undo undo sn = Some r \<and> undo_outcome content undo sn r \<and> undo_ready (snd r) E"
proof -
  let ?F = "buffer_fragments sn" and ?K = "fst ` set (uo_counts undo)"
  from sn(3) have ready: "undo_ok (bs_undo_map sn)" "height (bs_undo_map sn) < STACK_CAPACITY" "visibility_ok sn"
      "timed sn" "\<forall>e \<in> E. covers_edit sn e"
    by (simp_all add: undo_ready_def)
  from undo have keys: "distinct (map fst (uo_counts undo))" "?K \<subseteq> E"
      "\<forall>x \<in> set (tree_items (bs_undo_map sn)). uk_undo_id (ue_key x) \<noteq> uo_timestamp undo"
    by (simp_all add: undo_applies_def)
  from undo_insert_items [OF ready(1,2) keys(1)] undo obtain m where
    m: "undo_insert undo (bs_undo_map sn) = Some m" "height m < STACK_CAPACITY" "undo_ok m"
      "tree_items m = fold (list_edit ue_key) (undo_edits undo) (tree_items (bs_undo_map sn))"
    by (auto simp: undo_applies_def)
  have counts: "largest_count e (\<lambda>_. True) (tree_items m) = max (largest_count e (\<lambda>_. True) (tree_items (bs_undo_map sn)))
      (case map_of (uo_counts undo) e of None \<Rightarrow> 0 | Some n \<Rightarrow> n)" for e
    unfolding m(4) by (rule largest_count_insert [OF keys(1,3)])
  have same: "undone m e \<longleftrightarrow> undone (bs_undo_map sn) e" if "e \<notin> ?K" for e
    using that by (simp add: undone_def counts map_of_eq_None_iff [THEN iffD2])
  have times: "\<And>s. has_slice sn s \<Longrightarrow> is_insertion_id s \<noteq> lamport_MIN" using ready(4) by (simp add: timed_def)
  from apply_undo_at [OF sn(1,2) ready(1,2) keys(1) m(1,2) times] obtain p sn' ids where
    1: "apply_undo undo sn = Some (p, sn')" "buffer_fragments sn' = map (refresh m (uo_timestamp undo) ids) ?F"
      "buffer_ok content sn'" "leads (bs_visible_text sn) p (bs_visible_text sn')" "bs_undo_map sn' = m"
      "bs_version sn' = bs_version sn" "bs_insertions sn' = bs_insertions sn" "bs_insertion_slices sn' = bs_insertion_slices sn"
    and found: "\<forall>s f. has_slice sn s \<and> is_edit_id s \<in> ?K \<and> f \<in> set ?F \<and> in_slice s (insertion_fragment_new f) \<longrightarrow> fr_id f \<in> ids"
    by blast
  have ids: "fr_id f \<in> ids" if "e \<in> ?K" "touched_by e f" "f \<in> set ?F" for e f
  proof -
    from that(1) keys(2) ready(5) have "covers_edit sn e" by blast
    with that(2,3) obtain s where "has_slice sn s" "is_edit_id s = e" "is_insertion_id s = fr_timestamp f"
        "is_start s \<le> fr_insertion_offset f" "fr_insertion_offset f + fr_len f \<le> is_end s"
      unfolding covers_edit_def by blast
    moreover have "0 < fr_len f" using sn(1) that(3) by (simp add: buffer_ok_def fragments_ok_def)
    ultimately show ?thesis using found [rule_format, of s f] that by (simp add: in_slice_def insertion_fragment_new_def)
  qed
  have "visibility_ok sn'"
    using ready(3) ids by (auto simp: visibility_ok_def 1(2,5) refresh_visibility [OF _ same])
  moreover have slices: "has_slice sn' s \<longleftrightarrow> has_slice sn s" for s by (simp add: has_slice_def 1(8))
  then have "timed sn'" "\<forall>e \<in> E. covers_edit sn' e"
    using ready(4,5) by (simp_all add: timed_def covers_edit_def 1(2) touched_by_def)
  ultimately have "undo_ready sn' E" using m by (simp add: undo_ready_def 1(5))
  moreover have "x \<in> set (tree_items (bs_undo_map sn))
      \<or> uk_undo_id (ue_key x) = uo_timestamp undo \<and> uk_edit_id (ue_key x) \<in> ?K" if "x \<in> set (tree_items m)" for x
    using that undo_insert_set [OF keys(1,3)] by (auto simp: m(4) undo_entries_def intro: rev_image_eqI)
  then have "undo_outcome content undo sn (p, sn')"
    using 1 counts by (auto simp: undo_outcome_def)
  ultimately show ?thesis using 1(1) by (intro exI [of _ "(p, sn')"]) simp
qed

section \<open>Undoing restores\<close>

text \<open>What fragments show when a set of edits is undone.\<close>

definition shows_under :: "lamport set \<Rightarrow> fragment \<Rightarrow> bool" where
  "shows_under U f \<longleftrightarrow> fr_timestamp f \<notin> U \<and> set (fr_deletions f) \<subseteq> U"

definition shown :: "lamport set \<Rightarrow> fragment list \<Rightarrow> cell list" where
  "shown U fs = all_cells (filter (shows_under U) fs)"

abbreviation undone_edits :: "buffer_snapshot \<Rightarrow> lamport set" where
  "undone_edits sn \<equiv> {e. undone (bs_undo_map sn) e}"

lemma visible_under_shows: "visible_under m f \<longleftrightarrow> shows_under {e. undone m e} f"
  by (auto simp: visible_under_def shows_under_def)

lemma shown_visible: "visibility_ok sn \<Longrightarrow> visible_cells (buffer_fragments sn) = shown (undone_edits sn) (buffer_fragments sn)"
  by (auto simp: visible_cells_def shown_def visibility_ok_def visible_under_shows intro!: arg_cong [of _ _ all_cells] filter_cong)

lemma shows_refresh [simp]: "shows_under U (refresh m ts ids f) \<longleftrightarrow> shows_under U f"
  by (simp add: shows_under_def)

lemma shown_refresh: "shown U (map (refresh m ts ids) fs) = shown U fs"
  by (induction fs) (simp_all add: shown_def)

lemma shown_cong: "(\<And>f e. f \<in> set fs \<Longrightarrow> touched_by e f \<Longrightarrow> e \<in> U \<longleftrightarrow> e \<in> V) \<Longrightarrow> shown U fs = shown V fs"
  unfolding shown_def by (intro arg_cong [of _ _ all_cells] filter_cong) (auto simp: shows_under_def touched_by_def)

lemma all_member: "c \<in> set (all_cells gs) \<longleftrightarrow> (\<exists>g \<in> set gs. c \<in> set (cells g))"
  by (induction gs) auto

lemma cells_unique:
  "\<lbrakk>distinct (all_cells gs); f \<in> set gs; g \<in> set gs; c \<in> set (cells f); c \<in> set (cells g)\<rbrakk> \<Longrightarrow> f = g"
proof (induction gs)
  case (Cons h gs)
  then have "c \<notin> set (cells h) \<or> c \<notin> set (all_cells gs)" by auto
  with Cons show ?case by (auto simp: all_member)
qed simp

lemma shown_member:
  assumes "distinct (all_cells gs)" "f \<in> set gs" "c \<in> set (cells f)"
  shows "c \<in> set (shown U gs) \<longleftrightarrow> shows_under U f"
proof -
  have "c \<in> set (shown U gs) \<longleftrightarrow> (\<exists>g \<in> set gs. shows_under U g \<and> c \<in> set (cells g))"
    unfolding shown_def all_member by auto
  with assms(2,3) cells_unique [OF assms(1,2) _ assms(3)] show ?thesis by metis
qed

lemma shown_filter: "distinct (all_cells gs) \<Longrightarrow> shown U gs = filter (\<lambda>c. c \<in> set (shown U gs)) (all_cells gs)"
proof (induction gs)
  case (Cons g gs)
  then have apart: "set (cells g) \<inter> set (all_cells gs) = {}" and IH: "shown U gs = filter (\<lambda>c. c \<in> set (shown U gs)) (all_cells gs)"
    by simp_all
  have shown: "shown U (g # gs) = (if shows_under U g then cells g else []) @ shown U gs" by (simp add: shown_def)
  have sub: "set (shown U gs) \<subseteq> set (all_cells gs)" by (auto simp: shown_def all_member)
  have "filter (\<lambda>c. c \<in> set (shown U (g # gs))) (all_cells gs) = filter (\<lambda>c. c \<in> set (shown U gs)) (all_cells gs)"
    using apart by (intro filter_cong) (auto simp: shown)
  moreover have "filter (\<lambda>c. c \<in> set (shown U (g # gs))) (cells g) = (if shows_under U g then cells g else [])"
    using apart sub by (auto simp: shown filter_id_conv filter_empty_conv)
  ultimately show ?case using IH shown by simp
qed (simp add: shown_def)

lemma filter_older:
  "(\<And>n c. n \<in> set fs \<Longrightarrow> fr_timestamp n = ts \<Longrightarrow> c \<in> set (cells n) \<Longrightarrow> \<not> P c) \<Longrightarrow>
   filter P (all_cells fs) = filter P (all_cells (older ts fs))"
proof (induction fs)
  case (Cons f fs)
  have "filter P (cells f) = []" if "fr_timestamp f = ts" using Cons.prems [of f] that by (simp add: filter_empty_conv)
  moreover have "filter P (all_cells fs) = filter P (all_cells (older ts fs))" by (rule Cons.IH, rule Cons.prems) auto
  ultimately show ?case by simp
qed simp

text \<open>Where an edit is undone, the fragments after it show what those before it show.\<close>

lemma shown_undone:
  assumes out: "edit_outcome content edits ts sn (op, p, sn')" and F: "distinct (all_cells (buffer_fragments sn))" "fresh ts sn"
    and F': "distinct (all_cells (buffer_fragments sn'))" and ts: "ts \<in> U"
  shows "shown U (buffer_fragments sn') = shown U (buffer_fragments sn)"
proof -
  let ?F = "buffer_fragments sn" and ?N = "buffer_fragments sn'"
  let ?P = "\<lambda>c. c \<in> set (shown U ?F)"
  from out have derived: "\<And>n. n \<in> set ?N \<Longrightarrow> derived ?F ts n" and older: "all_cells (older ts ?N) = all_cells ?F"
    by (simp_all add: edit_outcome_def)
  have old: "fst c \<noteq> ts" if "c \<in> set (shown U ?F)" for c
    using that F(2) by (auto simp: shown_def all_member cells_def fresh_def touched_by_def)
  have same: "c \<in> set (shown U ?N) \<longleftrightarrow> ?P c" if "c \<in> set (all_cells ?N)" for c
  proof -
    from that obtain n where n: "n \<in> set ?N" "c \<in> set (cells n)" by (auto simp: all_member)
    have "c \<in> set (shown U ?N) \<longleftrightarrow> shows_under U n" by (rule shown_member [OF F' n])
    also have "\<dots> \<longleftrightarrow> ?P c"
    proof (cases "fr_timestamp n = ts")
      case True
      then have "fst c = ts" using n(2) by (auto simp: cells_def)
      with old have "\<not> ?P c" by blast
      with True ts show ?thesis by (simp add: shows_under_def)
    next
      case False
      with derived [OF n(1)] obtain f where f: "f \<in> set ?F" "piece_of ts f n" by (auto simp: derived_def)
      then have "c \<in> set (cells f)" using n(2) by (auto simp: cells_def piece_of_def)
      with shown_member [OF F(1) f(1)] have "?P c \<longleftrightarrow> shows_under U f" by blast
      moreover have "shows_under U n \<longleftrightarrow> shows_under U f"
        using f(2) ts by (auto simp: piece_of_def shows_under_def)
      ultimately show ?thesis by simp
    qed
    finally show ?thesis .
  qed
  have "shown U ?N = filter (\<lambda>c. c \<in> set (shown U ?N)) (all_cells ?N)" by (rule shown_filter [OF F'])
  also have "\<dots> = filter ?P (all_cells ?N)" using same by (intro filter_cong) auto
  also have "\<dots> = filter ?P (all_cells (older ts ?N))"
  proof (rule filter_older)
    fix n c
    assume "fr_timestamp n = ts" "c \<in> set (cells n)"
    then have "fst c = ts" by (auto simp: cells_def)
    with old show "\<not> ?P c" by blast
  qed
  also have "\<dots> = shown U ?F" unfolding older by (rule shown_filter [OF F(1), symmetric])
  finally show ?thesis .
qed

text \<open>A fragment keeps its timestamps through an edit, in its pieces.\<close>

lemma touched_after:
  assumes out: "edit_outcome content edits ts sn (op, p, sn')" and F: "fragments_ok (buffer_fragments sn)"
    and f: "f \<in> set (buffer_fragments sn)" "touched_by e f"
  shows "\<exists>n \<in> set (buffer_fragments sn'). touched_by e n"
proof -
  let ?F = "buffer_fragments sn" and ?N = "buffer_fragments sn'"
  let ?c = "(fr_timestamp f, fr_insertion_offset f)"
  from F f(1) have c: "?c \<in> set (cells f)" by (auto simp: cells_def fragments_ok_def)
  with f(1) have "?c \<in> set (all_cells ?F)" by (auto simp: all_member)
  with out have "?c \<in> set (all_cells (older ts ?N))" by (simp add: edit_outcome_def)
  then obtain n where n: "n \<in> set ?N" "fr_timestamp n \<noteq> ts" "?c \<in> set (cells n)" by (auto simp: all_member older_def)
  with out have "derived ?F ts n" by (simp add: edit_outcome_def)
  with n(2) obtain g where g: "g \<in> set ?F" "piece_of ts g n" by (auto simp: derived_def)
  with n(3) have "?c \<in> set (cells g)" by (auto simp: cells_def piece_of_def)
  with F f(1) g(1) c have "g = f" by (auto simp: fragments_ok_def dest: cells_unique)
  with g(2) f(2) have "touched_by e n" by (auto simp: piece_of_def touched_by_def)
  with n(1) show ?thesis by blast
qed

text \<open>A session: edits that follow one another, as in a transaction.\<close>

definition edit_allowed :: "(nat \<times> nat \<times> rope) list \<Rightarrow> lamport \<Rightarrow> buffer_snapshot \<Rightarrow> bool" where
  "edit_allowed edits ts sn \<longleftrightarrow> shallow sn \<and> fresh ts sn \<and> never_undone ts sn \<and> ts \<noteq> lamport_MIN
     \<and> ranges_ok 0 edits (bs_visible_text sn) \<and> length (inserted_text edits) < 2 ^ 32"

inductive session ::
  "(cell \<Rightarrow> 8 word) \<Rightarrow> buffer_snapshot \<Rightarrow> lamport list \<Rightarrow> (cell \<Rightarrow> 8 word) \<Rightarrow> buffer_snapshot \<Rightarrow> bool" where
  session_start: "session content sn [] content sn"
| session_edit: "\<lbrakk>session content sn es content1 sn1; edit_allowed edits ts sn1;
     apply_edit_internal edits ts sn1 = Some (op, p, sn2)\<rbrakk> \<Longrightarrow>
     session content sn (es @ [ts]) (with_text content1 ts (inserted_text edits)) sn2"

lemma session_keeps:
  assumes "session content sn es content' sn'" "buffer_ok content sn" "undo_ready sn E"
  shows "buffer_ok content' sn' \<and> undo_ready sn' (E \<union> set es) \<and> bs_undo_map sn' = bs_undo_map sn
    \<and> (\<forall>ts \<in> set es. fresh ts sn \<and> never_undone ts sn)
    \<and> (\<forall>e. \<forall>f \<in> set (buffer_fragments sn). touched_by e f \<longrightarrow> (\<exists>n \<in> set (buffer_fragments sn'). touched_by e n))
    \<and> (\<forall>U. set es \<subseteq> U \<longrightarrow> shown U (buffer_fragments sn') = shown U (buffer_fragments sn))"
  using assms
proof (induction rule: session.induct)
  case (session_edit content sn es content1 sn1 edits ts op p sn2)
  then have IH: "buffer_ok content1 sn1" "undo_ready sn1 (E \<union> set es)" "bs_undo_map sn1 = bs_undo_map sn"
      "\<forall>ts \<in> set es. fresh ts sn \<and> never_undone ts sn"
      "\<And>e f. f \<in> set (buffer_fragments sn) \<Longrightarrow> touched_by e f \<Longrightarrow> \<exists>n \<in> set (buffer_fragments sn1). touched_by e n"
      "\<And>U. set es \<subseteq> U \<Longrightarrow> shown U (buffer_fragments sn1) = shown U (buffer_fragments sn)"
    by blast+
  from session_edit.hyps(2) have allowed: "shallow sn1" "fresh ts sn1" "never_undone ts sn1" "ts \<noteq> lamport_MIN"
      "ranges_ok 0 edits (bs_visible_text sn1)" "length (inserted_text edits) < 2 ^ 32"
    by (simp_all add: edit_allowed_def)
  from apply_edit_internal_at [OF IH(1) allowed(1,2,5,6)] session_edit.hyps(3)
  have out: "edit_outcome content1 edits ts sn1 (op, p, sn2)" by simp
  then have ok: "buffer_ok (with_text content1 ts (inserted_text edits)) sn2" and undo: "bs_undo_map sn2 = bs_undo_map sn1"
    by (simp_all add: edit_outcome_def)
  from IH(1) ok have F: "fragments_ok (buffer_fragments sn1)" "distinct (all_cells (buffer_fragments sn1))"
      "distinct (all_cells (buffer_fragments sn2))"
    by (simp_all add: buffer_ok_def fragments_ok_def)
  have "fresh ts sn" using allowed(2) IH(5) by (fastforce simp: fresh_def)
  moreover have "never_undone ts sn" using allowed(3) IH(3) by (simp add: never_undone_def)
  moreover have "undo_ready sn2 (E \<union> set (es @ [ts]))"
    using edit_undo_ready [OF out IH(2) allowed(3,4)] by simp
  moreover have "shown U (buffer_fragments sn2) = shown U (buffer_fragments sn)" if "set (es @ [ts]) \<subseteq> U" for U
    using shown_undone [OF out F(2) allowed(2) F(3)] IH(6) that by simp
  moreover have "\<exists>n \<in> set (buffer_fragments sn2). touched_by e n"
    if "f \<in> set (buffer_fragments sn)" "touched_by e f" for e f
    using IH(5) [OF that] touched_after [OF out F(1)] by blast
  ultimately show ?case using ok undo IH(3,4) by (auto simp: Un_insert_left)
qed auto

text \<open>The bytes of old fragments stay what they were.\<close>

lemma session_content:
  assumes "session content sn es content' sn'" "buffer_ok content sn" "undo_ready sn E"
  shows "map content' (visible_cells (buffer_fragments sn)) = map content (visible_cells (buffer_fragments sn))"
  using assms
proof (induction rule: session.induct)
  case (session_edit content sn es content1 sn1 edits ts op p sn2)
  have "session content sn (es @ [ts]) (with_text content1 ts (inserted_text edits)) sn2"
    using session.session_edit session_edit.hyps by blast
  from session_keeps [OF this session_edit.prems] have "fresh ts sn" by simp
  with session_edit.prems(1) have "untouched ts (buffer_fragments sn)"
    by (simp add: untouched_def fresh_def buffer_ok_def fragments_ok_def)
  with session_edit.IH session_edit.prems show ?case by (simp add: with_text_old)
qed simp

end
