(* ===== verification/History.thy ===== *)
theory History
  imports Buffer
begin

text \<open>
  The history of a text buffer (\<open>text.rs\<close>, \<open>History\<close>): the operations by timestamp, and the stacks of
  transactions that undo and redo go through. A stack is a list whose last element is the top. Instants
  and durations are natural numbers of one unit; the difference of two instants is cut off at zero, as
  that of \<open>Instant\<close>. An assertion that fails is None.
\<close>

section \<open>Transactions\<close>

datatype operation = EditOp edit_operation | UndoOp undo_operation

fun op_timestamp :: "operation \<Rightarrow> lamport" where
  "op_timestamp (EditOp edit) = eo_timestamp edit"
| "op_timestamp (UndoOp undo) = uo_timestamp undo"

record transaction =
  tr_id :: lamport
  tr_edit_ids :: "lamport list"
  tr_start :: global

record history_entry =
  he_transaction :: transaction
  he_first_edit_at :: nat
  he_last_edit_at :: nat
  he_suppress_grouping :: bool

record history =
  hi_base_text :: rope
  hi_operations :: "(lamport, operation) tree_map"
  hi_undo_stack :: "history_entry list"
  hi_redo_stack :: "history_entry list"
  hi_transaction_depth :: nat
  hi_group_interval :: nat

definition entry_id :: "history_entry \<Rightarrow> lamport" where
  "entry_id self = tr_id (he_transaction self)"

definition entry_edits :: "history_entry \<Rightarrow> lamport list" where
  "entry_edits self = tr_edit_ids (he_transaction self)"

definition merge_in :: "transaction \<Rightarrow> transaction \<Rightarrow> transaction" where
  "merge_in other self = self\<lparr>tr_edit_ids := tr_edit_ids self @ tr_edit_ids other\<rparr>"

definition new_entry_at :: "transaction \<Rightarrow> nat \<Rightarrow> history_entry" where
  "new_entry_at transaction now =
     \<lparr>he_transaction = transaction, he_first_edit_at = now, he_last_edit_at = now, he_suppress_grouping = False\<rparr>"

section \<open>Operations\<close>

text \<open>The interval of grouping is that of a build without tests: 300 milliseconds.\<close>

definition history_new :: "nat \<Rightarrow> rope \<Rightarrow> history" where
  "history_new millisecond base_text =
     \<lparr>hi_base_text = base_text, hi_operations = tm_default, hi_undo_stack = [], hi_redo_stack = [],
      hi_transaction_depth = 0, hi_group_interval = 300 * millisecond\<rparr>"

definition history_push :: "operation \<Rightarrow> history \<Rightarrow> history option" where
  "history_push op self = do {
     ops \<leftarrow> tm_insert (op_timestamp op) op (hi_operations self);
     Some (self\<lparr>hi_operations := ops\<rparr>)
   }"

definition start_transaction :: "global \<Rightarrow> nat \<Rightarrow> lamport \<Rightarrow> history \<Rightarrow> lamport option \<times> lamport \<times> history" where
  "start_transaction start now clock self =
     (let self = self\<lparr>hi_transaction_depth := hi_transaction_depth self + 1\<rparr> in
      if hi_transaction_depth self = 1 then
        let (tid, clock) = tick clock in
        (Some tid, clock, self\<lparr>hi_undo_stack := hi_undo_stack self @
           [new_entry_at \<lparr>tr_id = tid, tr_edit_ids = [], tr_start = start\<rparr> now]\<rparr>)
      else (None, clock, self))"

text \<open>The result is the entry at the top, when a transaction with edits has ended.\<close>

definition end_transaction :: "nat \<Rightarrow> history \<Rightarrow> (history_entry option \<times> history) option" where
  "end_transaction now self =
     (if hi_transaction_depth self = 0 then None
      else
        let self = self\<lparr>hi_transaction_depth := hi_transaction_depth self - 1\<rparr> in
        if hi_transaction_depth self \<noteq> 0 then Some (None, self)
        else if hi_undo_stack self = [] then None
        else
          let newest = last (hi_undo_stack self) in
          if entry_edits newest = [] then Some (None, self\<lparr>hi_undo_stack := butlast (hi_undo_stack self)\<rparr>)
          else
            let newest = newest\<lparr>he_last_edit_at := now\<rparr> in
            Some (Some newest, self\<lparr>hi_redo_stack := [], hi_undo_stack := butlast (hi_undo_stack self) @ [newest]\<rparr>))"

text \<open>The entries to merge and the entry they are merged into.\<close>

definition absorb :: "history_entry list \<Rightarrow> history_entry \<Rightarrow> history_entry" where
  "absorb merged self =
     self\<lparr>he_transaction := (he_transaction self)\<lparr>tr_edit_ids := entry_edits self @ concat (map entry_edits merged)\<rparr>,
          he_last_edit_at := (if merged = [] then he_last_edit_at self else he_last_edit_at (last merged))\<rparr>"

definition group_trailing :: "nat \<Rightarrow> history \<Rightarrow> (lamport option \<times> history) option" where
  "group_trailing n self = do {
     new_len \<leftarrow> sub (length (hi_undo_stack self)) n;
     let kept = take new_len (hi_undo_stack self);
     let merged = drop new_len (hi_undo_stack self);
     let kept = (if kept = [] then [] else butlast kept @ [absorb merged (last kept)]);
     Some (if kept = [] then None else Some (entry_id (last kept)), self\<lparr>hi_undo_stack := kept\<rparr>)
   }"

text \<open>The loop of \<open>group\<close>, over the entries below from the top down.\<close>

fun group_count :: "nat \<Rightarrow> history_entry \<Rightarrow> history_entry list \<Rightarrow> nat" where
  "group_count interval newest [] = 0"
| "group_count interval newest (prev # below) =
     (if \<not> he_suppress_grouping prev \<and> he_first_edit_at newest - he_last_edit_at prev < interval
      then 1 + group_count interval prev below else 0)"

definition group :: "history \<Rightarrow> (lamport option \<times> history) option" where
  "group self =
     group_trailing
       (case rev (hi_undo_stack self) of [] \<Rightarrow> 0 | newest # below \<Rightarrow> group_count (hi_group_interval self) newest below) self"

text \<open>The loop of \<open>group_until\<close>: how many entries lie above the one with the identifier.\<close>

fun count_until :: "lamport \<Rightarrow> history_entry list \<Rightarrow> nat \<Rightarrow> nat option" where
  "count_until tid [] n = None"
| "count_until tid (newest # below) n =
     (if entry_id newest = tid then Some n
      else if he_suppress_grouping newest then None
      else count_until tid below (n + 1))"

definition group_until :: "lamport \<Rightarrow> history \<Rightarrow> history option" where
  "group_until transaction_id self =
     (case count_until transaction_id (rev (hi_undo_stack self)) 0 of
        None \<Rightarrow> Some self
      | Some n \<Rightarrow> map_option snd (group_trailing n self))"

definition finalize_last_transaction :: "history \<Rightarrow> transaction option \<times> history" where
  "finalize_last_transaction self =
     (if hi_undo_stack self = [] then (None, self)
      else
        let newest = (last (hi_undo_stack self))\<lparr>he_suppress_grouping := True\<rparr> in
        (Some (he_transaction newest), self\<lparr>hi_undo_stack := butlast (hi_undo_stack self) @ [newest]\<rparr>))"

definition push_transaction :: "transaction \<Rightarrow> nat \<Rightarrow> history \<Rightarrow> history option" where
  "push_transaction transaction now self =
     (if hi_transaction_depth self \<noteq> 0 then None
      else Some (self\<lparr>hi_undo_stack := hi_undo_stack self @ [new_entry_at transaction now]\<rparr>))"

definition push_empty_transaction :: "global \<Rightarrow> nat \<Rightarrow> lamport \<Rightarrow> history \<Rightarrow> (lamport \<times> lamport \<times> history) option" where
  "push_empty_transaction start now clock self =
     (if hi_transaction_depth self \<noteq> 0 then None
      else
        let (tid, clock) = tick clock in
        Some (tid, clock, self\<lparr>hi_undo_stack := hi_undo_stack self @
          [new_entry_at \<lparr>tr_id = tid, tr_edit_ids = [], tr_start = start\<rparr> now]\<rparr>))"

definition push_undo :: "lamport \<Rightarrow> history \<Rightarrow> history option" where
  "push_undo op_id self =
     (if hi_transaction_depth self = 0 then None
      else case tm_get op_id (hi_operations self) of
        Some (EditOp _) \<Rightarrow>
          if hi_undo_stack self = [] then None
          else
            let newest = last (hi_undo_stack self);
                newest = newest\<lparr>he_transaction := (he_transaction newest)\<lparr>tr_edit_ids := entry_edits newest @ [op_id]\<rparr>\<rparr> in
            Some (self\<lparr>hi_undo_stack := butlast (hi_undo_stack self) @ [newest]\<rparr>)
      | _ \<Rightarrow> Some self)"

definition pop_undo :: "history \<Rightarrow> (history_entry option \<times> history) option" where
  "pop_undo self =
     (if hi_transaction_depth self \<noteq> 0 then None
      else if hi_undo_stack self = [] then Some (None, self)
      else
        let newest = last (hi_undo_stack self) in
        Some (Some newest, self\<lparr>hi_undo_stack := butlast (hi_undo_stack self), hi_redo_stack := hi_redo_stack self @ [newest]\<rparr>))"

text \<open>\<open>rposition\<close> and \<open>rfind\<close>: the last entry with an identifier.\<close>

definition rposition :: "lamport \<Rightarrow> history_entry list \<Rightarrow> nat option" where
  "rposition tid entries =
     (case filter (\<lambda>i. entry_id (entries ! i) = tid) (rev [0 ..< length entries]) of [] \<Rightarrow> None | i # _ \<Rightarrow> Some i)"

definition remove_at :: "nat \<Rightarrow> 'a list \<Rightarrow> 'a list" where
  "remove_at i xs = take i xs @ drop (i + 1) xs"

definition remove_from_undo :: "lamport \<Rightarrow> history \<Rightarrow> (history_entry option \<times> history) option" where
  "remove_from_undo transaction_id self =
     (if hi_transaction_depth self \<noteq> 0 then None
      else case rposition transaction_id (hi_undo_stack self) of
        None \<Rightarrow> Some (None, self)
      | Some i \<Rightarrow>
          Some (Some (hi_undo_stack self ! i), self\<lparr>hi_undo_stack := remove_at i (hi_undo_stack self),
            hi_redo_stack := hi_redo_stack self @ [hi_undo_stack self ! i]\<rparr>))"

definition remove_from_undo_until :: "lamport \<Rightarrow> history \<Rightarrow> (history_entry list \<times> history) option" where
  "remove_from_undo_until transaction_id self =
     (if hi_transaction_depth self \<noteq> 0 then None
      else case rposition transaction_id (hi_undo_stack self) of
        None \<Rightarrow> Some ([], self)
      | Some i \<Rightarrow>
          let moved = rev (drop i (hi_undo_stack self)) in
          Some (moved, self\<lparr>hi_undo_stack := take i (hi_undo_stack self), hi_redo_stack := hi_redo_stack self @ moved\<rparr>))"

definition forget :: "lamport \<Rightarrow> history \<Rightarrow> (transaction option \<times> history) option" where
  "forget transaction_id self =
     (if hi_transaction_depth self \<noteq> 0 then None
      else case rposition transaction_id (hi_undo_stack self) of
        Some i \<Rightarrow> Some (Some (he_transaction (hi_undo_stack self ! i)),
                         self\<lparr>hi_undo_stack := remove_at i (hi_undo_stack self)\<rparr>)
      | None \<Rightarrow>
          (case rposition transaction_id (hi_redo_stack self) of
             Some i \<Rightarrow> Some (Some (he_transaction (hi_redo_stack self ! i)),
                              self\<lparr>hi_redo_stack := remove_at i (hi_redo_stack self)\<rparr>)
           | None \<Rightarrow> Some (None, self)))"

definition transaction_of :: "lamport \<Rightarrow> history \<Rightarrow> transaction option" where
  "transaction_of transaction_id self =
     (case rposition transaction_id (hi_undo_stack self) of
        Some i \<Rightarrow> Some (he_transaction (hi_undo_stack self ! i))
      | None \<Rightarrow> map_option (\<lambda>i. he_transaction (hi_redo_stack self ! i)) (rposition transaction_id (hi_redo_stack self)))"

text \<open>\<open>transaction_mut\<close> with what is done to the transaction.\<close>

definition change_transaction :: "(transaction \<Rightarrow> transaction) \<Rightarrow> history_entry \<Rightarrow> history_entry" where
  "change_transaction g self = self\<lparr>he_transaction := g (he_transaction self)\<rparr>"

definition transaction_mut :: "lamport \<Rightarrow> (transaction \<Rightarrow> transaction) \<Rightarrow> history \<Rightarrow> history" where
  "transaction_mut transaction_id g self =
     (case rposition transaction_id (hi_undo_stack self) of
        Some i \<Rightarrow> self\<lparr>hi_undo_stack := (hi_undo_stack self)[i := change_transaction g (hi_undo_stack self ! i)]\<rparr>
      | None \<Rightarrow>
          (case rposition transaction_id (hi_redo_stack self) of
             Some i \<Rightarrow> self\<lparr>hi_redo_stack := (hi_redo_stack self)[i := change_transaction g (hi_redo_stack self ! i)]\<rparr>
           | None \<Rightarrow> self))"

definition merge_transactions :: "lamport \<Rightarrow> lamport \<Rightarrow> history \<Rightarrow> history option" where
  "merge_transactions transaction destination self = do {
     (forgotten, self) \<leftarrow> forget transaction self;
     case forgotten of
       None \<Rightarrow> Some self
     | Some t \<Rightarrow> Some (transaction_mut destination (merge_in t) self)
   }"

definition pop_redo :: "history \<Rightarrow> (history_entry option \<times> history) option" where
  "pop_redo self =
     (if hi_transaction_depth self \<noteq> 0 then None
      else if hi_redo_stack self = [] then Some (None, self)
      else
        let newest = last (hi_redo_stack self) in
        Some (Some newest, self\<lparr>hi_redo_stack := butlast (hi_redo_stack self), hi_undo_stack := hi_undo_stack self @ [newest]\<rparr>))"

definition remove_from_redo :: "lamport \<Rightarrow> history \<Rightarrow> (history_entry list \<times> history) option" where
  "remove_from_redo transaction_id self =
     (if hi_transaction_depth self \<noteq> 0 then None
      else case rposition transaction_id (hi_redo_stack self) of
        None \<Rightarrow> Some ([], self)
      | Some i \<Rightarrow>
          let moved = rev (drop i (hi_redo_stack self)) in
          Some (moved, self\<lparr>hi_redo_stack := take i (hi_redo_stack self), hi_undo_stack := hi_undo_stack self @ moved\<rparr>))"

section \<open>Grouping\<close>

definition stack_edits :: "history_entry list \<Rightarrow> lamport list" where
  "stack_edits es = concat (map entry_edits es)"

lemma stack_edits_simps [simp]:
  "stack_edits [] = []" "stack_edits (e # es) = entry_edits e @ stack_edits es" "stack_edits (es @ fs) = stack_edits es @ stack_edits fs"
  by (simp_all add: stack_edits_def)

text \<open>Two neighbours are joined when the lower one may be grouped and the upper one began soon after it.\<close>

definition joined :: "nat \<Rightarrow> history_entry \<Rightarrow> history_entry \<Rightarrow> bool" where
  "joined interval lower upper \<longleftrightarrow> \<not> he_suppress_grouping lower \<and> he_first_edit_at upper - he_last_edit_at lower < interval"

fun all_joined :: "nat \<Rightarrow> history_entry list \<Rightarrow> bool" where
  "all_joined interval (a # b # es) \<longleftrightarrow> joined interval a b \<and> all_joined interval (b # es)"
| "all_joined interval es \<longleftrightarrow> True"

lemma all_joined_snoc: "all_joined k (es @ [a, b]) \<longleftrightarrow> all_joined k (es @ [a]) \<and> joined k a b"
proof (induction es)
  case (Cons e es)
  then show ?case by (cases es) auto
qed simp

text \<open>The loop counts the longest run of joined entries below the top.\<close>

lemma group_count_run:
  "\<exists>low run. rev below @ [e] = low @ run \<and> length run = group_count k e below + 1 \<and> all_joined k run
     \<and> (low \<noteq> [] \<longrightarrow> \<not> joined k (last low) (hd run))"
proof (induction below arbitrary: e)
  case (Cons b below)
  show ?case
  proof (cases "joined k b e")
    case True
    from Cons.IH [of b] obtain low run where
      run: "rev below @ [b] = low @ run" "length run = group_count k b below + 1" "all_joined k run"
        "low \<noteq> [] \<longrightarrow> \<not> joined k (last low) (hd run)"
      by blast
    then obtain r where r: "run = r @ [b]" by (cases run rule: rev_cases) auto
    have "group_count k e (b # below) = 1 + group_count k b below" using True by (simp add: joined_def)
    moreover have "all_joined k (run @ [e])" using run(3) True r by (simp add: all_joined_snoc)
    moreover have "hd (run @ [e]) = hd run" using r by (cases r) simp_all
    ultimately show ?thesis using run r by (intro exI [of _ low] exI [of _ "run @ [e]"]) auto
  next
    case False
    then have "group_count k e (b # below) = 0" by (simp add: joined_def)
    with False show ?thesis by (intro exI [of _ "rev below @ [b]"] exI [of _ "[e]"]) simp
  qed
next
  case Nil
  show ?case by (intro exI [of _ "[]"] exI [of _ "[e]"]) simp
qed

lemma group_trailing_at:
  assumes "hi_undo_stack h = low @ e # merged"
  shows "group_trailing (length merged) h = Some (Some (entry_id e), h\<lparr>hi_undo_stack := low @ [absorb merged e]\<rparr>)"
proof -
  have "sub (length (hi_undo_stack h)) (length merged) = Some (length low + 1)" using assms by (simp add: sub_def)
  then show ?thesis using assms by (simp add: group_trailing_def absorb_def entry_id_def Let_def)
qed

lemma absorb_edits [simp]: "entry_edits (absorb merged e) = entry_edits e @ stack_edits merged"
  by (simp add: absorb_def entry_edits_def stack_edits_def)

lemma group_at:
  assumes "hi_undo_stack h \<noteq> []"
  shows "\<exists>low e merged. hi_undo_stack h = low @ e # merged \<and> all_joined (hi_group_interval h) (e # merged)
    \<and> (low \<noteq> [] \<longrightarrow> \<not> joined (hi_group_interval h) (last low) e)
    \<and> group h = Some (Some (entry_id e), h\<lparr>hi_undo_stack := low @ [absorb merged e]\<rparr>)"
proof -
  obtain below top_entry where stack: "hi_undo_stack h = rev below @ [top_entry]"
    using assms by (metis append_butlast_last_id rev_rev_ident)
  from group_count_run [of below top_entry "hi_group_interval h"] stack obtain low run where
    run: "hi_undo_stack h = low @ run" "length run = group_count (hi_group_interval h) top_entry below + 1"
      "all_joined (hi_group_interval h) run" "low \<noteq> [] \<longrightarrow> \<not> joined (hi_group_interval h) (last low) (hd run)"
    by auto
  then obtain e merged where e: "run = e # merged" by (cases run) auto
  have "group h = group_trailing (length merged) h" using run(2) e by (simp add: group_def stack)
  with group_trailing_at [of h low e merged] run e show ?thesis by auto
qed

section \<open>Properties\<close>

text \<open>Grouping merges exactly the longest run of joined transactions at the top of the undo stack into the
  lowest of them, loses no edit and keeps their order, and never panics.\<close>

theorem group_merges_run:
  assumes "hi_undo_stack h \<noteq> []"
  shows "\<exists>low e merged h'. hi_undo_stack h = low @ e # merged \<and> all_joined (hi_group_interval h) (e # merged)
    \<and> (low \<noteq> [] \<longrightarrow> \<not> joined (hi_group_interval h) (last low) e)
    \<and> group h = Some (Some (entry_id e), h') \<and> length (hi_undo_stack h') = length low + 1
    \<and> stack_edits (hi_undo_stack h') = stack_edits (hi_undo_stack h)"
proof -
  from group_at [OF assms] obtain low e merged where
    g: "hi_undo_stack h = low @ e # merged" "all_joined (hi_group_interval h) (e # merged)"
      "low \<noteq> [] \<longrightarrow> \<not> joined (hi_group_interval h) (last low) e"
      "group h = Some (Some (entry_id e), h\<lparr>hi_undo_stack := low @ [absorb merged e]\<rparr>)" by blast
  then show ?thesis
    by (intro exI [of _ low] exI [of _ e] exI [of _ merged] exI [of _ "h\<lparr>hi_undo_stack := low @ [absorb merged e]\<rparr>"]) simp
qed

text \<open>Redo is the inverse of undo on the history, and undo of redo.\<close>

theorem undo_redo_stacks:
  assumes "hi_transaction_depth h = 0"
  shows "(hi_undo_stack h \<noteq> [] \<longrightarrow> (\<exists>e h'. pop_undo h = Some (Some e, h') \<and> pop_redo h' = Some (Some e, h)))
    \<and> (hi_redo_stack h \<noteq> [] \<longrightarrow> (\<exists>e h'. pop_redo h = Some (Some e, h') \<and> pop_undo h' = Some (Some e, h)))"
  using assms by (auto simp: pop_undo_def pop_redo_def Let_def)

end
