(* ===== verification/TextBuffer.thy ===== *)
theory TextBuffer
  imports Undo History "HOL-Library.AList"
begin

text \<open>
  The text buffer (\<open>text.rs\<close>, \<open>Buffer\<close>): a snapshot, its history, the Lamport clock and the subscriptions,
  and the operations that change them together: transactions, edits, undo and redo. Subscriptions
  (\<open>subscription.rs\<close>) are shared objects: a topic holds weak pointers to patches in a store, from which
  dropping a subscription removes its patch. Times are given by the caller.
\<close>

section \<open>Subscriptions\<close>

record topic =
  to_subscriptions :: "nat list"
  to_store :: "nat \<Rightarrow> patch option"
  to_next :: nat

definition topic_default :: topic where
  "topic_default = \<lparr>to_subscriptions = [], to_store = (\<lambda>_. None), to_next = 0\<rparr>"

definition subscribe :: "topic \<Rightarrow> nat \<times> topic" where
  "subscribe self =
     (to_next self,
      \<lparr>to_subscriptions = to_subscriptions self @ [to_next self], to_store = (to_store self)(to_next self \<mapsto> []),
       to_next = to_next self + 1\<rparr>)"

definition consume_patch :: "nat \<Rightarrow> topic \<Rightarrow> patch option \<times> topic" where
  "consume_patch s self =
     (to_store self s, self\<lparr>to_store := (to_store self)(s := map_option (\<lambda>_. []) (to_store self s))\<rparr>)"

definition drop_subscription :: "nat \<Rightarrow> topic \<Rightarrow> topic" where
  "drop_subscription s self = self\<lparr>to_store := (to_store self)(s := None)\<rparr>"

fun publish_to :: "patch \<Rightarrow> nat list \<Rightarrow> (nat \<Rightarrow> patch option) \<Rightarrow> (nat list \<times> (nat \<Rightarrow> patch option)) option" where
  "publish_to edits [] store = Some ([], store)"
| "publish_to edits (s # subscriptions) store =
     (case store s of
        Some p \<Rightarrow> do {
          p \<leftarrow> compose p edits;
          (kept, store) \<leftarrow> publish_to edits subscriptions (store(s \<mapsto> p));
          Some (s # kept, store)
        }
      | None \<Rightarrow> publish_to edits subscriptions store)"

definition publish :: "patch \<Rightarrow> topic \<Rightarrow> topic option" where
  "publish edits self = do {
     (kept, store) \<leftarrow> publish_to edits (to_subscriptions self) (to_store self);
     Some (self\<lparr>to_subscriptions := kept, to_store := store\<rparr>)
   }"

section \<open>The buffer\<close>

record text_buffer =
  tb_snapshot :: buffer_snapshot
  tb_history :: history
  tb_lamport_clock :: lamport
  tb_subscriptions :: topic

definition buffer_new_normalized :: "nat \<Rightarrow> replica_id \<Rightarrow> u64 \<Rightarrow> line_ending \<Rightarrow> rope \<Rightarrow> text_buffer option" where
  "buffer_new_normalized millisecond replica remote_id ending normalized = do {
     (snapshot, clock) \<leftarrow> new_normalized replica remote_id ending normalized;
     Some \<lparr>tb_snapshot = snapshot, tb_history = history_new millisecond normalized, tb_lamport_clock = clock,
           tb_subscriptions = topic_default\<rparr>
   }"

text \<open>A branch has a clock and a history of its own.\<close>

definition buffer_branch :: "nat \<Rightarrow> text_buffer \<Rightarrow> text_buffer" where
  "buffer_branch millisecond self =
     \<lparr>tb_snapshot = tb_snapshot self, tb_history = history_new millisecond (hi_base_text (tb_history self)),
      tb_lamport_clock = lamport_new LOCAL_BRANCH, tb_subscriptions = topic_default\<rparr>"

definition buffer_start_transaction :: "nat \<Rightarrow> text_buffer \<Rightarrow> lamport option \<times> text_buffer" where
  "buffer_start_transaction now self =
     (let (tid, clock, history) =
        start_transaction (bs_version (tb_snapshot self)) now (tb_lamport_clock self) (tb_history self) in
      (tid, self\<lparr>tb_lamport_clock := clock, tb_history := history\<rparr>))"

definition buffer_end_transaction :: "nat \<Rightarrow> text_buffer \<Rightarrow> ((lamport \<times> global) option \<times> text_buffer) option" where
  "buffer_end_transaction now self = do {
     (ended, history) \<leftarrow> end_transaction now (tb_history self);
     case ended of
       None \<Rightarrow> Some (None, self\<lparr>tb_history := history\<rparr>)
     | Some e \<Rightarrow> do {
         (grouped, history) \<leftarrow> group history;
         tid \<leftarrow> grouped;
         Some (Some (tid, tr_start (he_transaction e)), self\<lparr>tb_history := history\<rparr>)
       }
   }"

definition apply_local_edit ::
  "(nat \<times> nat \<times> rope) list \<Rightarrow> lamport \<Rightarrow> text_buffer \<Rightarrow> (edit_operation \<times> text_buffer) option" where
  "apply_local_edit edits timestamp self = do {
     (edit_op, edits_patch, snapshot) \<leftarrow> apply_edit_internal edits timestamp (tb_snapshot self);
     subscriptions \<leftarrow> publish edits_patch (tb_subscriptions self);
     Some (edit_op, self\<lparr>tb_snapshot := snapshot, tb_subscriptions := subscriptions\<rparr>)
   }"

definition observe_version :: "lamport \<Rightarrow> text_buffer \<Rightarrow> text_buffer" where
  "observe_version timestamp self =
     self\<lparr>tb_snapshot := (tb_snapshot self)\<lparr>bs_version := global_observe (bs_version (tb_snapshot self)) timestamp\<rparr>\<rparr>"

definition buffer_edit :: "(nat \<times> nat \<times> rope) list \<Rightarrow> nat \<Rightarrow> nat \<Rightarrow> text_buffer \<Rightarrow> (operation \<times> text_buffer) option" where
  "buffer_edit edits start_at end_at self = do {
     let self = snd (buffer_start_transaction start_at self);
     let (timestamp, clock) = tick (tb_lamport_clock self);
     (edit_op, self) \<leftarrow> apply_local_edit edits timestamp (self\<lparr>tb_lamport_clock := clock\<rparr>);
     history \<leftarrow> history_push (EditOp edit_op) (tb_history self);
     history \<leftarrow> push_undo (eo_timestamp edit_op) history;
     let self = observe_version (eo_timestamp edit_op) (self\<lparr>tb_history := history\<rparr>);
     (_, self) \<leftarrow> buffer_end_transaction end_at self;
     Some (EditOp edit_op, self)
   }"

section \<open>Undo and redo\<close>

definition saturating_inc :: "u32 \<Rightarrow> u32" where
  "saturating_inc n = (if n = - 1 then n else n + 1)"

text \<open>The counts of a transaction, a map: a repeated edit replaces its entry.\<close>

fun undo_counts :: "lamport list \<Rightarrow> undo_map \<Rightarrow> (lamport \<times> u32) list \<Rightarrow> (lamport \<times> u32) list option" where
  "undo_counts [] undos counts = Some counts"
| "undo_counts (edit_id # edit_ids) undos counts = do {
     n \<leftarrow> undo_count edit_id undos;
     undo_counts edit_ids undos (AList.update edit_id (saturating_inc n) counts)
   }"

definition undo_operations :: "(lamport \<times> u32) list \<Rightarrow> text_buffer \<Rightarrow> (operation \<times> text_buffer) option" where
  "undo_operations counts self = do {
     let (timestamp, clock) = tick (tb_lamport_clock self);
     let version = bs_version (tb_snapshot self);
     let self = observe_version timestamp (self\<lparr>tb_lamport_clock := clock\<rparr>);
     let undo = \<lparr>uo_timestamp = timestamp, uo_version = version, uo_counts = counts\<rparr>;
     (edits, snapshot) \<leftarrow> apply_undo undo (tb_snapshot self);
     subscriptions \<leftarrow> publish edits (tb_subscriptions self);
     Some (UndoOp undo, self\<lparr>tb_snapshot := snapshot, tb_subscriptions := subscriptions\<rparr>)
   }"

definition undo_or_redo :: "transaction \<Rightarrow> text_buffer \<Rightarrow> (operation \<times> text_buffer) option" where
  "undo_or_redo transaction self = do {
     counts \<leftarrow> undo_counts (tr_edit_ids transaction) (bs_undo_map (tb_snapshot self)) [];
     (op, self) \<leftarrow> undo_operations counts self;
     history \<leftarrow> history_push op (tb_history self);
     Some (op, self\<lparr>tb_history := history\<rparr>)
   }"

definition buffer_undo :: "text_buffer \<Rightarrow> ((lamport \<times> operation) option \<times> text_buffer) option" where
  "buffer_undo self = do {
     (popped, history) \<leftarrow> pop_undo (tb_history self);
     let self = self\<lparr>tb_history := history\<rparr>;
     case popped of
       None \<Rightarrow> Some (None, self)
     | Some e \<Rightarrow> do {
         (op, self) \<leftarrow> undo_or_redo (he_transaction e) self;
         Some (Some (entry_id e, op), self)
       }
   }"

definition buffer_redo :: "text_buffer \<Rightarrow> ((lamport \<times> operation) option \<times> text_buffer) option" where
  "buffer_redo self = do {
     (popped, history) \<leftarrow> pop_redo (tb_history self);
     let self = self\<lparr>tb_history := history\<rparr>;
     case popped of
       None \<Rightarrow> Some (None, self)
     | Some e \<Rightarrow> do {
         (op, self) \<leftarrow> undo_or_redo (he_transaction e) self;
         Some (Some (entry_id e, op), self)
       }
   }"

definition undo_transaction :: "lamport \<Rightarrow> text_buffer \<Rightarrow> (operation option \<times> text_buffer) option" where
  "undo_transaction transaction_id self = do {
     (removed, history) \<leftarrow> remove_from_undo transaction_id (tb_history self);
     let self = self\<lparr>tb_history := history\<rparr>;
     case removed of
       None \<Rightarrow> Some (None, self)
     | Some e \<Rightarrow> do {
         (op, self) \<leftarrow> undo_or_redo (he_transaction e) self;
         Some (Some op, self)
       }
   }"

fun undo_or_redo_all :: "history_entry list \<Rightarrow> text_buffer \<Rightarrow> (operation list \<times> text_buffer) option" where
  "undo_or_redo_all [] self = Some ([], self)"
| "undo_or_redo_all (e # es) self = do {
     (op, self) \<leftarrow> undo_or_redo (he_transaction e) self;
     (ops, self) \<leftarrow> undo_or_redo_all es self;
     Some (op # ops, self)
   }"

definition undo_to_transaction :: "lamport \<Rightarrow> text_buffer \<Rightarrow> (operation list \<times> text_buffer) option" where
  "undo_to_transaction transaction_id self = do {
     (moved, history) \<leftarrow> remove_from_undo_until transaction_id (tb_history self);
     undo_or_redo_all moved (self\<lparr>tb_history := history\<rparr>)
   }"

definition redo_to_transaction :: "lamport \<Rightarrow> text_buffer \<Rightarrow> (operation list \<times> text_buffer) option" where
  "redo_to_transaction transaction_id self = do {
     (moved, history) \<leftarrow> remove_from_redo transaction_id (tb_history self);
     undo_or_redo_all moved (self\<lparr>tb_history := history\<rparr>)
   }"

text \<open>The operations that the buffer hands to its history.\<close>

definition buffer_finalize_last_transaction :: "text_buffer \<Rightarrow> transaction option \<times> text_buffer" where
  "buffer_finalize_last_transaction self =
     (let (finalized, history) = finalize_last_transaction (tb_history self) in
      (finalized, self\<lparr>tb_history := history\<rparr>))"

definition group_until_transaction :: "lamport \<Rightarrow> text_buffer \<Rightarrow> text_buffer option" where
  "group_until_transaction transaction_id self = do {
     history \<leftarrow> group_until transaction_id (tb_history self);
     Some (self\<lparr>tb_history := history\<rparr>)
   }"

definition forget_transaction :: "lamport \<Rightarrow> text_buffer \<Rightarrow> (transaction option \<times> text_buffer) option" where
  "forget_transaction transaction_id self = do {
     (forgotten, history) \<leftarrow> forget transaction_id (tb_history self);
     Some (forgotten, self\<lparr>tb_history := history\<rparr>)
   }"

definition buffer_merge_transactions :: "lamport \<Rightarrow> lamport \<Rightarrow> text_buffer \<Rightarrow> text_buffer option" where
  "buffer_merge_transactions transaction destination self = do {
     history \<leftarrow> merge_transactions transaction destination (tb_history self);
     Some (self\<lparr>tb_history := history\<rparr>)
   }"

definition buffer_push_transaction :: "transaction \<Rightarrow> nat \<Rightarrow> text_buffer \<Rightarrow> text_buffer option" where
  "buffer_push_transaction transaction now self = do {
     history \<leftarrow> push_transaction transaction now (tb_history self);
     Some (self\<lparr>tb_history := history\<rparr>)
   }"

definition buffer_push_empty_transaction :: "nat \<Rightarrow> text_buffer \<Rightarrow> (lamport \<times> text_buffer) option" where
  "buffer_push_empty_transaction now self = do {
     (tid, clock, history) \<leftarrow>
       push_empty_transaction (bs_version (tb_snapshot self)) now (tb_lamport_clock self) (tb_history self);
     Some (tid, self\<lparr>tb_lamport_clock := clock, tb_history := history\<rparr>)
   }"

end
