(* ===== verification/TextBufferContract.thy ===== *)
theory TextBufferContract
  imports UndoContract TextBuffer
begin

text \<open>
  What the operations of a text buffer do together: the invariant that edits, undo and redo keep, the clock
  that is ahead of every timestamp, subscribers whose patches lead from the text they saw last to the
  present one, and a history through which undo and redo restore texts.
\<close>

section \<open>Subscribers\<close>

text \<open>A live subscriber holds a patch from the text that it saw last to the present one.\<close>

definition holds :: "rope option \<Rightarrow> patch option \<Rightarrow> rope \<Rightarrow> bool" where
  "holds a p now \<longleftrightarrow> (case (a, p) of (Some a, Some p) \<Rightarrow> leads a p now | (None, None) \<Rightarrow> True | _ \<Rightarrow> False)"

lemma holds_simps [simp]: "holds (Some a) (Some p) b \<longleftrightarrow> leads a p b" "holds None None b" "\<not> holds (Some a) None b" "\<not> holds None (Some p) b"
  by (simp_all add: holds_def)

definition topic_ok :: "(nat \<Rightarrow> rope option) \<Rightarrow> rope \<Rightarrow> topic \<Rightarrow> bool" where
  "topic_ok seen now t \<longleftrightarrow> distinct (to_subscriptions t) \<and> (\<forall>s. s \<ge> to_next t \<longrightarrow> s \<notin> set (to_subscriptions t))
     \<and> (\<forall>s. s \<notin> set (to_subscriptions t) \<longrightarrow> to_store t s = None) \<and> (\<forall>s. holds (seen s) (to_store t s) now)"

lemma leads_refl [simp]: "leads a [] a"
  by (simp add: leads_def aligned_def)

lemma publish_to_at:
  assumes "\<forall>s \<in> set ss. holds (seen s) (store s) a" "leads a edits b" "distinct ss"
  shows "\<exists>store'. publish_to edits ss store = Some (filter (\<lambda>s. store s \<noteq> None) ss, store')
    \<and> (\<forall>s. s \<notin> set ss \<longrightarrow> store' s = store s) \<and> (\<forall>s \<in> set ss. holds (seen s) (store' s) b)"
  using assms
proof (induction ss arbitrary: store)
  case (Cons s ss)
  show ?case
  proof (cases "store s")
    case None
    with Cons.prems(1) have "seen s = None" by (cases "seen s") auto
    with None Cons.IH [of store] Cons.prems show ?thesis by fastforce
  next
    case (Some p)
    with Cons.prems(1) obtain x where x: "seen s = Some x" "leads x p a" by (cases "seen s") auto
    from compose_leads [OF x(2) Cons.prems(2)] obtain q where q: "compose p edits = Some q" "leads x q b" by blast
    have "\<forall>t \<in> set ss. holds (seen t) ((store(s \<mapsto> q)) t) a" using Cons.prems(1,3) by auto
    from Cons.IH [OF this Cons.prems(2)] Cons.prems(3) obtain store' where
      st: "publish_to edits ss (store(s \<mapsto> q)) = Some (filter (\<lambda>t. (store(s \<mapsto> q)) t \<noteq> None) ss, store')"
        "\<forall>t. t \<notin> set ss \<longrightarrow> store' t = (store(s \<mapsto> q)) t" "\<forall>t \<in> set ss. holds (seen t) (store' t) b"
      by (metis distinct.simps(2))
    have "filter (\<lambda>t. (store(s \<mapsto> q)) t \<noteq> None) ss = filter (\<lambda>t. store t \<noteq> None) ss"
      using Cons.prems(3) by (intro filter_cong) auto
    with st q Some x(1) Cons.prems(3) show ?thesis by (intro exI [of _ store']) auto
  qed
qed simp

lemma holds_None: "holds a p b \<Longrightarrow> a = None \<longleftrightarrow> p = None"
  by (cases a; cases p) auto

lemma publish_at:
  assumes "topic_ok seen a t" "leads a edits b"
  shows "\<exists>t'. publish edits t = Some t' \<and> topic_ok seen b t'"
proof -
  from assms have ss: "\<forall>s \<in> set (to_subscriptions t). holds (seen s) (to_store t s) a" "distinct (to_subscriptions t)"
      "\<And>s. s \<notin> set (to_subscriptions t) \<Longrightarrow> to_store t s = None" "\<And>s. holds (seen s) (to_store t s) a"
    by (simp_all add: topic_ok_def)
  from publish_to_at [OF ss(1) assms(2) ss(2)] obtain store where
    st: "publish_to edits (to_subscriptions t) (to_store t) = Some (filter (\<lambda>s. to_store t s \<noteq> None) (to_subscriptions t), store)"
      "\<forall>s. s \<notin> set (to_subscriptions t) \<longrightarrow> store s = to_store t s"
      "\<forall>s \<in> set (to_subscriptions t). holds (seen s) (store s) b"
    by blast
  have gone: "to_store t s = None" "seen s = None" if "s \<notin> set (to_subscriptions t)" for s
    using that ss(3) holds_None [OF ss(4) [of s]] by auto
  then have holds: "holds (seen s) (store s) b" for s using st(2,3) by (cases "s \<in> set (to_subscriptions t)") auto
  have "store s = None" if "to_store t s = None" for s
    using that holds_None [OF ss(4) [of s]] holds_None [OF holds [of s]] by metis
  with gone holds assms(1) have "topic_ok seen b
      (t\<lparr>to_subscriptions := filter (\<lambda>s. to_store t s \<noteq> None) (to_subscriptions t), to_store := store\<rparr>)"
    by (auto simp: topic_ok_def)
  with st(1) show ?thesis by (simp add: publish_def)
qed

lemma subscribe_at:
  "topic_ok seen a t \<Longrightarrow> subscribe t = (s, t') \<Longrightarrow> topic_ok (seen(s \<mapsto> a)) a t'"
  by (auto simp: subscribe_def topic_ok_def)

lemma consume_patch_at:
  assumes "topic_ok seen a t" "seen s = Some x" "consume_patch s t = (r, t')"
  shows "topic_ok (seen(s \<mapsto> a)) a t' \<and> (\<exists>p. r = Some p \<and> leads x p a)"
proof -
  from assms(1,2) obtain p where p: "to_store t s = Some p" "leads x p a" by (cases "to_store t s") (auto simp: topic_ok_def dest: spec [of _ s])
  with assms(3) have "r = Some p" by (simp add: consume_patch_def)
  with assms p show ?thesis by (auto simp: consume_patch_def topic_ok_def)
qed

lemma drop_at: "topic_ok seen a t \<Longrightarrow> topic_ok (seen(s := None)) a (drop_subscription s t)"
  by (auto simp: drop_subscription_def topic_ok_def)

section \<open>The invariant\<close>

text \<open>A timestamp that a clock is ahead of.\<close>

definition older_time :: "lamport \<Rightarrow> lamport \<Rightarrow> bool" where
  "older_time c t \<longleftrightarrow> (ts_replica t = ts_replica c \<longrightarrow> ts_value t < ts_value c)"

lemma less_plus_one: "(n :: u32) \<noteq> - 1 \<Longrightarrow> n < n + 1"
  using unatSuc [of n] by (auto simp: word_less_nat_alt add.commute eq_neg_iff_add_eq_0)

lemma older_tick:
  assumes "ts_value c \<noteq> - 1"
  shows "older_time c t \<Longrightarrow> older_time (snd (tick c)) t" "older_time (snd (tick c)) c"
  using less_plus_one [OF assms] by (auto simp: older_time_def tick_def dest: less_trans)

lemma older_irrefl [simp]: "\<not> older_time c c"
  by (simp add: older_time_def)

text \<open>The edits on both stacks, and every timestamp in use.\<close>

definition history_edits :: "history \<Rightarrow> lamport set" where
  "history_edits h = set (stack_edits (hi_undo_stack h @ hi_redo_stack h))"

definition known_times :: "text_buffer \<Rightarrow> lamport set" where
  "known_times tb = history_edits (tb_history tb) \<union> {e. \<exists>f \<in> set (buffer_fragments (tb_snapshot tb)). touched_by e f}
     \<union> (\<lambda>x. uk_edit_id (ue_key x)) ` set (tree_items (bs_undo_map (tb_snapshot tb)))
     \<union> (\<lambda>x. uk_undo_id (ue_key x)) ` set (tree_items (bs_undo_map (tb_snapshot tb)))"

definition text_core_ok :: "(cell \<Rightarrow> 8 word) \<Rightarrow> (nat \<Rightarrow> rope option) \<Rightarrow> text_buffer \<Rightarrow> bool" where
  "text_core_ok content seen tb \<longleftrightarrow>
     buffer_ok content (tb_snapshot tb) \<and> undo_ready (tb_snapshot tb) (history_edits (tb_history tb))
     \<and> map_ok (hi_operations (tb_history tb)) \<and> (\<forall>e \<in> known_times tb. older_time (tb_lamport_clock tb) e)
     \<and> topic_ok seen (bs_visible_text (tb_snapshot tb)) (tb_subscriptions tb)"

text \<open>Between transactions, exactly the edits on the redo stack are those that the user took back.\<close>

definition settled :: "text_buffer \<Rightarrow> bool" where
  "settled tb \<longleftrightarrow>
     (let h = tb_history tb; undos = undone_edits (tb_snapshot tb) in
      hi_transaction_depth h = 0 \<and> distinct (stack_edits (hi_undo_stack h @ hi_redo_stack h))
      \<and> set (stack_edits (hi_undo_stack h)) \<inter> undos = {} \<and> set (stack_edits (hi_redo_stack h)) \<subseteq> undos
      \<and> ts_value (tb_lamport_clock tb) \<noteq> 0)"

definition text_buffer_ok :: "(cell \<Rightarrow> 8 word) \<Rightarrow> (nat \<Rightarrow> rope option) \<Rightarrow> text_buffer \<Rightarrow> bool" where
  "text_buffer_ok content seen tb \<longleftrightarrow> text_core_ok content seen tb \<and> settled tb"

definition text_buffer_shallow :: "text_buffer \<Rightarrow> bool" where
  "text_buffer_shallow tb \<longleftrightarrow> shallow (tb_snapshot tb) \<and> height (hi_operations (tb_history tb)) < STACK_CAPACITY"

section \<open>Undo and redo\<close>

text \<open>How often an edit was undone.\<close>

definition times_undone :: "text_buffer \<Rightarrow> lamport \<Rightarrow> u32" where
  "times_undone tb e = largest_count e (\<lambda>_. True) (tree_items (bs_undo_map (tb_snapshot tb)))"

lemma undone_times: "undone (bs_undo_map (tb_snapshot tb)) e \<longleftrightarrow> odd (times_undone tb e)"
  by (simp add: undone_def times_undone_def odd_iff_mod_2_eq_one)

lemma undo_counts_at:
  assumes "undo_ok m" "height m < STACK_CAPACITY" "distinct (map fst counts)"
  shows "\<exists>cs. undo_counts es m counts = Some cs \<and> distinct (map fst cs)
    \<and> map_of cs = (\<lambda>e. if e \<in> set es then Some (saturating_inc (largest_count e (\<lambda>_. True) (tree_items m))) else map_of counts e)"
  using assms(3)
proof (induction es arbitrary: counts)
  case (Cons e es)
  let ?n = "saturating_inc (largest_count e (\<lambda>_. True) (tree_items m))"
  have "distinct (map fst (AList.update e ?n counts))" using Cons.prems by (rule distinct_update)
  from Cons.IH [OF this] show ?case by (auto simp: undo_count_items(1) [OF assms(1,2)] update_conv' fun_eq_iff)
qed simp

text \<open>There is room to undo or redo a transaction: cursors stay within their stacks, and neither the clock nor
  a count is at its maximum.\<close>

definition undo_room :: "transaction \<Rightarrow> text_buffer \<Rightarrow> bool" where
  "undo_room t tb \<longleftrightarrow> text_buffer_shallow tb \<and> ts_value (tb_lamport_clock tb) \<noteq> - 1
     \<and> (\<forall>e \<in> set (tr_edit_ids t). times_undone tb e \<noteq> - 1)
     \<and> (case undo_counts (tr_edit_ids t) (bs_undo_map (tb_snapshot tb)) [] of
           None \<Rightarrow> True
         | Some counts \<Rightarrow>
             (case undo_insert \<lparr>uo_timestamp = tb_lamport_clock tb, uo_version = bs_version (tb_snapshot tb), uo_counts = counts\<rparr>
                (bs_undo_map (tb_snapshot tb)) of
                None \<Rightarrow> True
              | Some m \<Rightarrow> height m < STACK_CAPACITY))"

text \<open>The fragments keep their order and their cells, and the edits of the transaction change sides.\<close>

definition undo_effect :: "lamport list \<Rightarrow> text_buffer \<Rightarrow> text_buffer \<Rightarrow> bool" where
  "undo_effect es tb tb' \<longleftrightarrow>
     (\<exists>m u ids. buffer_fragments (tb_snapshot tb') = map (refresh m u ids) (buffer_fragments (tb_snapshot tb)))
     \<and> (\<forall>e. e \<in> undone_edits (tb_snapshot tb') \<longleftrightarrow> (e \<in> undone_edits (tb_snapshot tb)) \<noteq> (e \<in> set es))
     \<and> tb_lamport_clock tb' = snd (tick (tb_lamport_clock tb))
     \<and> (\<exists>ops. tb_history tb' = (tb_history tb)\<lparr>hi_operations := ops\<rparr>)"

lemma observe_version_same:
  "buffer_ok content (sn\<lparr>bs_version := v\<rparr>) = buffer_ok content sn" "shallow (sn\<lparr>bs_version := v\<rparr>) = shallow sn"
  "undo_ready (sn\<lparr>bs_version := v\<rparr>) E = undo_ready sn E" "undo_applies undo (sn\<lparr>bs_version := v\<rparr>) E = undo_applies undo sn E"
  by (simp_all add: buffer_ok_def shallow_def undo_ready_def visibility_ok_def timed_def covers_edit_def has_slice_def undo_applies_def)

lemma saturating_max: "n \<noteq> - 1 \<Longrightarrow> max n (saturating_inc n) = n + 1"
  by (auto simp: saturating_inc_def max_def dest: less_plus_one)

lemma touched_refresh [simp]: "touched_by e (refresh m ts ids f) \<longleftrightarrow> touched_by e f"
  by (simp add: touched_by_def)

lemma undo_or_redo_at:
  assumes tb: "text_core_ok content seen tb" and t: "set (tr_edit_ids t) \<subseteq> history_edits (tb_history tb)" and room: "undo_room t tb"
  shows "\<exists>op tb'. undo_or_redo t tb = Some (op, tb') \<and> text_core_ok content seen tb' \<and> undo_effect (tr_edit_ids t) tb tb'"
proof -
  let ?sn = "tb_snapshot tb" and ?h = "tb_history tb" and ?c = "tb_lamport_clock tb" and ?E = "history_edits (tb_history tb)"
  let ?um = "bs_undo_map ?sn"
  from tb room have ok: "buffer_ok content ?sn" "shallow ?sn" "undo_ready ?sn ?E" "map_ok (hi_operations ?h)"
      "height (hi_operations ?h) < STACK_CAPACITY" "topic_ok seen (bs_visible_text ?sn) (tb_subscriptions tb)"
      "\<And>e. e \<in> known_times tb \<Longrightarrow> older_time ?c e" "ts_value ?c \<noteq> - 1" "\<And>e. e \<in> set (tr_edit_ids t) \<Longrightarrow> times_undone tb e \<noteq> - 1"
    by (simp_all add: text_core_ok_def undo_room_def text_buffer_shallow_def)
  from ok(3) have um: "undo_ok ?um" "height ?um < STACK_CAPACITY" by (simp_all add: undo_ready_def)
  from undo_counts_at [OF um, of "[]" "tr_edit_ids t"] obtain cs where
    cs: "undo_counts (tr_edit_ids t) ?um [] = Some cs" "distinct (map fst cs)"
      "map_of cs = (\<lambda>e. if e \<in> set (tr_edit_ids t) then Some (saturating_inc (times_undone tb e)) else None)"
    by (auto simp: times_undone_def if_distrib cong: if_cong)
  let ?undo = "\<lparr>uo_timestamp = ?c, uo_version = bs_version ?sn, uo_counts = cs\<rparr>"
  let ?sn1 = "?sn\<lparr>bs_version := global_observe (bs_version ?sn) ?c\<rparr>"
  have keys: "fst ` set cs = set (tr_edit_ids t)"
    using dom_map_of_conv_image_fst [of cs] cs(3) by (auto simp: dom_def split: if_splits)
  have "uk_undo_id (ue_key x) \<noteq> ?c" if "x \<in> set (tree_items ?um)" for x
    using ok(7) [of "uk_undo_id (ue_key x)"] that by (auto simp: known_times_def)
  then have "undo_applies ?undo ?sn1 ?E"
    using t cs(1,2) room keys by (auto simp: undo_applies_def undo_room_def)
  from undo_at [of content ?sn1 ?E ?undo] ok(1-3) this obtain p sn' where
    1: "apply_undo ?undo ?sn1 = Some (p, sn')" "undo_outcome content ?undo ?sn1 (p, sn')" "undo_ready sn' ?E"
    by (auto simp: observe_version_same)
  then have out: "buffer_ok content sn'" "leads (bs_visible_text ?sn) p (bs_visible_text sn')"
      "\<exists>ids. buffer_fragments sn' = map (refresh (bs_undo_map sn') ?c ids) (buffer_fragments ?sn)"
      "\<And>e. largest_count e (\<lambda>_. True) (tree_items (bs_undo_map sn')) = max (times_undone tb e)
         (case map_of cs e of None \<Rightarrow> 0 | Some n \<Rightarrow> n)"
      "\<And>x. x \<in> set (tree_items (bs_undo_map sn')) \<Longrightarrow> x \<in> set (tree_items ?um)
         \<or> uk_undo_id (ue_key x) = ?c \<and> uk_edit_id (ue_key x) \<in> set (tr_edit_ids t)"
    by (auto simp: undo_outcome_def times_undone_def keys)
  from publish_at [OF ok(6) out(2)] obtain topic where
    2: "publish p (tb_subscriptions tb) = Some topic" "topic_ok seen (bs_visible_text sn') topic" by blast
  from tm_insert_abs [OF ok(4,5), of ?c "UndoOp ?undo"] obtain ops where
    3: "tm_insert ?c (UndoOp ?undo) (hi_operations ?h) = Some ops" "map_ok ops" by blast
  let ?tb = "tb\<lparr>tb_lamport_clock := snd (tick ?c), tb_snapshot := sn', tb_subscriptions := topic,
      tb_history := ?h\<lparr>hi_operations := ops\<rparr>\<rparr>"
  have run: "undo_or_redo t tb = Some (UndoOp ?undo, ?tb)"
    using cs(1) 1(1) 2(1) 3(1)
    by (simp add: undo_or_redo_def undo_operations_def tick_def observe_version_def history_push_def Let_def)
  from out(3) obtain ids where "buffer_fragments sn' = map (refresh (bs_undo_map sn') ?c ids) (buffer_fragments ?sn)" by blast
  then have "{e. \<exists>f \<in> set (buffer_fragments sn'). touched_by e f} = {e. \<exists>f \<in> set (buffer_fragments ?sn). touched_by e f}"
    by simp
  moreover have "uk_edit_id (ue_key x) \<in> known_times tb \<and> uk_undo_id (ue_key x) \<in> insert ?c (known_times tb)"
    if "x \<in> set (tree_items (bs_undo_map sn'))" for x
    using out(5) [OF that] t by (auto simp: known_times_def)
  ultimately have "known_times ?tb \<subseteq> insert ?c (known_times tb)"
    by (auto simp: known_times_def [of ?tb]) (auto simp: known_times_def history_edits_def)
  then have "\<forall>e \<in> known_times ?tb. older_time (snd (tick ?c)) e" using older_tick [OF ok(8)] ok(7) by blast
  then have "text_core_ok content seen ?tb"
    using out(1) 1(3) 3(2) 2(2) by (simp add: text_core_ok_def history_edits_def)
  moreover have "undone (bs_undo_map sn') e \<longleftrightarrow> undone ?um e \<noteq> (e \<in> set (tr_edit_ids t))" for e
    using ok(9) [of e] by (auto simp: undone_times undone_def [of "bs_undo_map sn'"] out(4) cs(3) saturating_max odd_iff_mod_2_eq_one [symmetric])
  then have "undo_effect (tr_edit_ids t) tb ?tb"
    using out(3) by (auto simp: undo_effect_def)
  ultimately show ?thesis using run by blast
qed

text \<open>Transactions that change stacks: what is on the redo stack is taken back, the rest is not.\<close>

definition with_stacks :: "history_entry list \<Rightarrow> history_entry list \<Rightarrow> text_buffer \<Rightarrow> text_buffer" where
  "with_stacks u r tb = tb\<lparr>tb_history := (tb_history tb)\<lparr>hi_undo_stack := u, hi_redo_stack := r\<rparr>\<rparr>"

definition moved ::
  "history_entry list \<Rightarrow> history_entry list \<Rightarrow> lamport list \<Rightarrow> text_buffer \<Rightarrow> text_buffer \<Rightarrow> bool" where
  "moved u r es tb tb' \<longleftrightarrow>
     hi_undo_stack (tb_history tb') = u \<and> hi_redo_stack (tb_history tb') = r
     \<and> hi_group_interval (tb_history tb') = hi_group_interval (tb_history tb)
     \<and> (\<exists>m ts ids. buffer_fragments (tb_snapshot tb') = map (refresh m ts ids) (buffer_fragments (tb_snapshot tb)))
     \<and> (\<forall>e. e \<in> undone_edits (tb_snapshot tb') \<longleftrightarrow> (e \<in> undone_edits (tb_snapshot tb)) \<noteq> (e \<in> set es))"

lemma with_stacks_core:
  "set (stack_edits (u @ r)) = history_edits (tb_history tb) \<Longrightarrow> text_core_ok content seen (with_stacks u r tb) = text_core_ok content seen tb"
  by (simp add: text_core_ok_def with_stacks_def history_edits_def known_times_def)

lemma with_stacks_room [simp]: "undo_room t (with_stacks u r tb) = undo_room t tb"
  unfolding undo_room_def with_stacks_def text_buffer_shallow_def times_undone_def by (simp split: option.splits)

lemma move_at:
  assumes tb: "text_buffer_ok content seen tb" and room: "undo_room t tb"
    and stacks: "distinct (stack_edits (u @ r))" "set (stack_edits (u @ r)) = history_edits (tb_history tb)"
    and t: "set (tr_edit_ids t) \<subseteq> history_edits (tb_history tb)"
    and sides: "\<And>x. x \<in> set (stack_edits r) \<longleftrightarrow> (x \<in> set (stack_edits (hi_redo_stack (tb_history tb)))) \<noteq> (x \<in> set (tr_edit_ids t))"
  shows "\<exists>op tb'. undo_or_redo t (with_stacks u r tb) = Some (op, tb') \<and> text_buffer_ok content seen tb' \<and> moved u r (tr_edit_ids t) tb tb'"
proof -
  let ?tb = "with_stacks u r tb"
  from tb have core: "text_core_ok content seen ?tb" and settled: "settled tb"
    using with_stacks_core [OF stacks(2)] by (simp_all add: text_buffer_ok_def)
  have "undo_room t ?tb" using room by simp
  moreover have "set (tr_edit_ids t) \<subseteq> history_edits (tb_history ?tb)"
    using t stacks(2) by (simp add: with_stacks_def history_edits_def)
  ultimately obtain op tb' where
    1: "undo_or_redo t ?tb = Some (op, tb')" "text_core_ok content seen tb'" "undo_effect (tr_edit_ids t) ?tb tb'"
    using undo_or_redo_at [OF core] by blast
  then have m: "moved u r (tr_edit_ids t) tb tb'" and h: "hi_transaction_depth (tb_history tb') = hi_transaction_depth (tb_history tb)"
      "tb_lamport_clock tb' = snd (tick (tb_lamport_clock tb))"
    by (auto simp: undo_effect_def moved_def with_stacks_def)
  have undone: "e \<in> undone_edits (tb_snapshot tb') \<longleftrightarrow> (e \<in> undone_edits (tb_snapshot tb)) \<noteq> (e \<in> set (tr_edit_ids t))" for e
    using m unfolding moved_def by blast
  have "ts_value (tb_lamport_clock tb') \<noteq> 0"
    using room h(2) by (auto simp: undo_room_def tick_def eq_neg_iff_add_eq_0)
  moreover have "x \<in> undone_edits (tb_snapshot tb') \<longleftrightarrow> x \<in> set (stack_edits r)" if "x \<in> history_edits (tb_history tb)" for x
    using undone [of x] sides [of x] that settled by (auto simp: settled_def history_edits_def Let_def)
  ultimately have "settled tb'"
    using stacks m h(1) settled by (auto simp: settled_def moved_def Let_def)
  with 1 m show ?thesis by (auto simp: text_buffer_ok_def)
qed

lemma buffer_undo_at:
  assumes tb: "text_buffer_ok content seen tb" and h: "hi_undo_stack (tb_history tb) = low @ [e]" and room: "undo_room (he_transaction e) tb"
  shows "\<exists>op tb'. buffer_undo tb = Some (Some (entry_id e, op), tb') \<and> text_buffer_ok content seen tb'
    \<and> moved low (hi_redo_stack (tb_history tb) @ [e]) (entry_edits e) tb tb'"
proof -
  let ?r = "hi_redo_stack (tb_history tb)"
  from tb have depth: "hi_transaction_depth (tb_history tb) = 0" and d: "distinct (stack_edits (low @ ?r @ [e]))"
    by (auto simp: text_buffer_ok_def settled_def h Let_def)
  have "\<exists>op tb'. undo_or_redo (he_transaction e) (with_stacks low (?r @ [e]) tb) = Some (op, tb') \<and> text_buffer_ok content seen tb'
      \<and> moved low (?r @ [e]) (tr_edit_ids (he_transaction e)) tb tb'"
    by (rule move_at [OF tb room d]) (use d in \<open>auto simp: history_edits_def h entry_edits_def\<close>)
  then show ?thesis
    using depth by (auto simp: buffer_undo_def pop_undo_def h with_stacks_def entry_edits_def Let_def)
qed

lemma stacks_swap: "h\<lparr>hi_redo_stack := r, hi_undo_stack := u\<rparr> = h\<lparr>hi_undo_stack := u, hi_redo_stack := r\<rparr>"
  by simp

lemma buffer_redo_at:
  assumes tb: "text_buffer_ok content seen tb" and h: "hi_redo_stack (tb_history tb) = low @ [e]" and room: "undo_room (he_transaction e) tb"
  shows "\<exists>op tb'. buffer_redo tb = Some (Some (entry_id e, op), tb') \<and> text_buffer_ok content seen tb'
    \<and> moved (hi_undo_stack (tb_history tb) @ [e]) low (entry_edits e) tb tb'"
proof -
  let ?u = "hi_undo_stack (tb_history tb)"
  from tb have depth: "hi_transaction_depth (tb_history tb) = 0" and d: "distinct (stack_edits ((?u @ [e]) @ low))"
    by (auto simp: text_buffer_ok_def settled_def h Let_def)
  have "\<exists>op tb'. undo_or_redo (he_transaction e) (with_stacks (?u @ [e]) low tb) = Some (op, tb') \<and> text_buffer_ok content seen tb'
      \<and> moved (?u @ [e]) low (tr_edit_ids (he_transaction e)) tb tb'"
    by (rule move_at [OF tb room d]) (use d in \<open>auto simp: history_edits_def h entry_edits_def\<close>)
  then show ?thesis
    using depth by (auto simp: buffer_redo_def pop_redo_def h stacks_swap with_stacks_def entry_edits_def Let_def)
qed

section \<open>Edits\<close>

text \<open>There is room for an edit, and its ranges lie in the text.\<close>

definition edit_room :: "(nat \<times> nat \<times> rope) list \<Rightarrow> text_buffer \<Rightarrow> bool" where
  "edit_room edits tb \<longleftrightarrow> text_buffer_shallow tb \<and> unat (ts_value (tb_lamport_clock tb)) + 2 < 2 ^ 32
     \<and> ranges_ok 0 edits (bs_visible_text (tb_snapshot tb)) \<and> length (inserted_text edits) < 2 ^ 32"

text \<open>The transaction of an edit is joined with those before it that ended less than the interval ago.\<close>

definition grouped :: "history \<Rightarrow> lamport \<Rightarrow> nat \<Rightarrow> nat \<Rightarrow> history_entry list \<Rightarrow> bool" where
  "grouped h ts start_at end_at stack \<longleftrightarrow>
     (\<exists>newest low e merged. hi_undo_stack h @ [newest] = low @ e # merged \<and> entry_edits newest = [ts]
        \<and> he_first_edit_at newest = start_at \<and> he_last_edit_at newest = end_at \<and> \<not> he_suppress_grouping newest
        \<and> all_joined (hi_group_interval h) (e # merged)
        \<and> (low \<noteq> [] \<longrightarrow> \<not> joined (hi_group_interval h) (last low) e) \<and> stack = low @ [absorb merged e])"

definition edited ::
  "(cell \<Rightarrow> 8 word) \<Rightarrow> (nat \<times> nat \<times> rope) list \<Rightarrow> lamport \<Rightarrow> nat \<Rightarrow> nat \<Rightarrow> text_buffer \<Rightarrow> text_buffer \<Rightarrow> bool" where
  "edited content edits ts start_at end_at tb tb' \<longleftrightarrow>
     (\<exists>op p sn v. edit_outcome content edits ts (tb_snapshot tb) (op, p, sn) \<and> tb_snapshot tb' = sn\<lparr>bs_version := v\<rparr>)
     \<and> ts \<notin> known_times tb \<and> hi_redo_stack (tb_history tb') = []
     \<and> hi_group_interval (tb_history tb') = hi_group_interval (tb_history tb)
     \<and> grouped (tb_history tb) ts start_at end_at (hi_undo_stack (tb_history tb'))"

lemma two_ticks:
  assumes "unat (ts_value c) + 2 < 2 ^ 32"
  shows "ts_value c \<noteq> - 1" "ts_value (snd (tick c)) \<noteq> - 1" "ts_value (snd (tick c)) \<noteq> 0" "ts_value (snd (tick (snd (tick c)))) \<noteq> 0"
proof -
  have "unat (ts_value c + 1) = unat (ts_value c) + 1" "unat (ts_value c + 2) = unat (ts_value c) + 2"
    using assms by (simp_all add: unat_word_ariths)
  then have "ts_value c + 1 \<noteq> 0" "ts_value c + 2 \<noteq> 0" by auto
  then show "ts_value c \<noteq> - 1" "ts_value (snd (tick c)) \<noteq> - 1" "ts_value (snd (tick c)) \<noteq> 0" "ts_value (snd (tick (snd (tick c)))) \<noteq> 0"
    by (auto simp: tick_def add.assoc eq_neg_iff_add_eq_0)
qed

text \<open>The history during an edit: a new transaction, the edit in it, and the end of the transaction.\<close>

lemma history_of_edit:
  assumes "hi_transaction_depth h = 0" "map_ok (hi_operations h)" "height (hi_operations h) < STACK_CAPACITY" "eo_timestamp op = ts"
  shows "\<exists>h2 h3 ended h4. history_push (EditOp op) (snd (snd (start_transaction v a c h))) = Some h2 \<and> push_undo ts h2 = Some h3
    \<and> end_transaction b h3 = Some (Some ended, h4) \<and> hi_transaction_depth h4 = 0 \<and> hi_redo_stack h4 = [] \<and> map_ok (hi_operations h4)
    \<and> hi_group_interval h4 = hi_group_interval h \<and> hi_undo_stack h4 = hi_undo_stack h @ [ended] \<and> entry_edits ended = [ts]
    \<and> he_first_edit_at ended = a \<and> he_last_edit_at ended = b \<and> \<not> he_suppress_grouping ended"
proof -
  from tm_insert_abs [OF assms(2,3), of ts "EditOp op"] obtain ops where
    ops: "tm_insert ts (EditOp op) (hi_operations h) = Some ops" "map_ok ops" "map_abs ops ts = Some (EditOp op)" by auto
  then have "tm_get ts ops = Some (EditOp op)" by (simp add: tm_get_abs)
  with ops assms(1,4) show ?thesis
    by (simp add: history_push_def start_transaction_def push_undo_def end_transaction_def tick_def new_entry_at_def
        entry_edits_def Let_def)
qed


lemma undo_ready_mono: "undo_ready sn E \<Longrightarrow> D \<subseteq> E \<Longrightarrow> undo_ready sn D"
  by (auto simp: undo_ready_def)

lemma known_of_edit:
  assumes "edit_outcome content edits ts (tb_snapshot tb) (op, p, sn)" "tb_snapshot tb' = sn\<lparr>bs_version := v\<rparr>"
    and "history_edits (tb_history tb') \<subseteq> insert ts (history_edits (tb_history tb))"
  shows "known_times tb' \<subseteq> insert ts (known_times tb)"
proof -
  from assms(1) have d: "\<And>n. n \<in> set (buffer_fragments sn) \<Longrightarrow> derived (buffer_fragments (tb_snapshot tb)) ts n"
    and m: "bs_undo_map sn = bs_undo_map (tb_snapshot tb)"
    by (simp_all add: edit_outcome_def)
  have "e = ts \<or> (\<exists>f \<in> set (buffer_fragments (tb_snapshot tb)). touched_by e f)"
    if "n \<in> set (buffer_fragments sn)" "touched_by e n" for e n
    using derived_touched [OF d [OF that(1)] that(2)] by blast
  then show ?thesis using assms(3) by (auto simp: known_times_def assms(2) m)
qed

lemma buffer_edit_at:
  assumes tb: "text_buffer_ok content seen tb" and room: "edit_room edits tb"
  shows "\<exists>op tb'. buffer_edit edits a b tb = Some (EditOp op, tb')
    \<and> text_buffer_ok (with_text content (eo_timestamp op) (inserted_text edits)) seen tb'
    \<and> edited content edits (eo_timestamp op) a b tb tb'"
proof -
  let ?sn = "tb_snapshot tb" and ?h = "tb_history tb" and ?c = "tb_lamport_clock tb"
  let ?ts = "snd (tick ?c)"
  from tb have ok: "buffer_ok content ?sn" "undo_ready ?sn (history_edits ?h)" "map_ok (hi_operations ?h)"
      "topic_ok seen (bs_visible_text ?sn) (tb_subscriptions tb)" "settled tb" "\<And>e. e \<in> known_times tb \<Longrightarrow> older_time ?c e"
    by (simp_all add: text_buffer_ok_def text_core_ok_def)
  from room have r: "shallow ?sn" "height (hi_operations ?h) < STACK_CAPACITY" "unat (ts_value ?c) + 2 < 2 ^ 32"
      "ranges_ok 0 edits (bs_visible_text ?sn)" "length (inserted_text edits) < 2 ^ 32"
    by (simp_all add: edit_room_def text_buffer_shallow_def)
  note ticks = two_ticks [OF r(3)]
  have older: "older_time ?ts e" if "e \<in> known_times tb" for e using older_tick(1) [OF ticks(1)] ok(6) that by blast
  then have unknown: "?ts \<notin> known_times tb" using older_irrefl by blast
  then have fresh: "fresh ?ts ?sn" "never_undone ?ts ?sn" by (auto simp: known_times_def fresh_def never_undone_def image_iff)
  from apply_edit_internal_at [OF ok(1) r(1) fresh(1) r(4,5)] obtain op p sn where
    1: "apply_edit_internal edits ?ts ?sn = Some (op, p, sn)" "edit_outcome content edits ?ts ?sn (op, p, sn)" by auto
  then have out: "buffer_ok (with_text content ?ts (inserted_text edits)) sn" "leads (bs_visible_text ?sn) p (bs_visible_text sn)"
      "eo_timestamp op = ?ts" "bs_undo_map sn = bs_undo_map ?sn"
    unfolding edit_outcome_def by auto
  from ok(5) have settled: "hi_transaction_depth ?h = 0" by (simp add: settled_def Let_def)
  then obtain h1 where 0: "start_transaction (bs_version ?sn) a ?c ?h = (Some ?c, ?ts, h1)"
    by (simp add: start_transaction_def tick_def Let_def)
  from history_of_edit [OF settled ok(3) r(2) out(3), of "bs_version ?sn" a ?c b] 0 obtain h2 h3 ended h4 where
    2: "history_push (EditOp op) h1 = Some h2" "push_undo ?ts h2 = Some h3" "end_transaction b h3 = Some (Some ended, h4)"
      "hi_transaction_depth h4 = 0" "hi_redo_stack h4 = []" "map_ok (hi_operations h4)" "hi_group_interval h4 = hi_group_interval ?h"
      "hi_undo_stack h4 = hi_undo_stack ?h @ [ended]" "entry_edits ended = [?ts]" "he_first_edit_at ended = a" "he_last_edit_at ended = b"
      "\<not> he_suppress_grouping ended"
    by auto
  from group_at [of h4] 2(8) obtain low e merged where
    3: "hi_undo_stack h4 = low @ e # merged" "all_joined (hi_group_interval ?h) (e # merged)"
      "low \<noteq> [] \<longrightarrow> \<not> joined (hi_group_interval ?h) (last low) e" "group h4 = Some (Some (entry_id e), h4\<lparr>hi_undo_stack := low @ [absorb merged e]\<rparr>)"
    by (auto simp: 2(7))
  from publish_at [OF ok(4) out(2)] obtain topic where
    4: "publish p (tb_subscriptions tb) = Some topic" "topic_ok seen (bs_visible_text sn) topic" by blast
  obtain c2 where c2: "tick ?ts = (?ts, c2)" by (simp add: tick_def)
  let ?tb = "tb\<lparr>tb_lamport_clock := c2, tb_snapshot := sn\<lparr>bs_version := global_observe (bs_version sn) ?ts\<rparr>,
      tb_subscriptions := topic, tb_history := h4\<lparr>hi_undo_stack := low @ [absorb merged e]\<rparr>\<rparr>"
  have run: "buffer_edit edits a b tb = Some (EditOp op, ?tb)"
    using 0 1(1) 2(1-3) 3(4) 4(1) out(3) c2
    by (simp add: buffer_edit_def buffer_start_transaction_def apply_local_edit_def observe_version_def
        buffer_end_transaction_def)
  have "stack_edits (low @ [absorb merged e]) = stack_edits (hi_undo_stack h4)" by (simp add: 3(1))
  then have edits: "stack_edits (hi_undo_stack (tb_history ?tb)) = stack_edits (hi_undo_stack ?h) @ [?ts]"
    by (simp add: 2(8,9))
  have sub: "history_edits (tb_history ?tb) \<subseteq> insert ?ts (history_edits ?h)"
    using edits 2(5) by (auto simp: history_edits_def)
  have "?ts \<noteq> lamport_MIN" using ticks(3) by (auto simp: lamport_MIN_def)
  then have "undo_ready (tb_snapshot ?tb) (history_edits (tb_history ?tb))"
    using undo_ready_mono [OF edit_undo_ready [OF 1(2) ok(2) fresh(2)] sub] by (simp add: observe_version_same)
  moreover have "known_times ?tb \<subseteq> insert ?ts (known_times tb)" by (rule known_of_edit [OF 1(2) _ sub]) simp
  then have "older_time (tb_lamport_clock ?tb) e" if "e \<in> known_times ?tb" for e
    using older older_tick [OF ticks(2)] that c2 by auto
  ultimately have "text_core_ok (with_text content ?ts (inserted_text edits)) seen ?tb"
    using out(1) 2(6) 4(2) by (simp add: text_core_ok_def observe_version_same)
  moreover have "?ts \<notin> undone_edits ?sn" using never_undone_count [OF fresh(2)] by (simp add: undone_def)
  then have "settled ?tb"
    using ok(5) edits 2(4,5) ticks(4) unknown out(4) c2
    by (simp add: settled_def known_times_def history_edits_def Let_def)
  moreover have "grouped ?h ?ts a b (low @ [absorb merged e])"
    unfolding grouped_def using 2(8-12) 3(1-3) by metis
  then have "edited content edits ?ts a b tb ?tb" using 1(2) unknown 2(5,7) by (auto simp: edited_def)
  ultimately show ?thesis using run out(3) by (auto simp: text_buffer_ok_def)
qed

end
