(* ===== verification/UndoProperties.thy ===== *)
theory UndoProperties
  imports UndoContract "HOL-Library.Code_Target_Nat"
begin

text \<open>
  The properties of undo, with witnesses evaluated on a small buffer. Natural numbers are evaluated in
  binary here, since offsets are compared with \<open>2 ^ 32\<close>.
\<close>

section \<open>An edited buffer\<close>

definition sample_snapshot :: buffer_snapshot where
  "sample_snapshot =
     (case new_normalized LOCAL 1 Unix sample_text of
        Some (sn, _) \<Rightarrow> sn
      | None \<Rightarrow> \<lparr>bs_visible_text = [], bs_deleted_text = [], bs_fragments = tree_new fragment_ops,
                  bs_insertions = tree_new insertion_ops, bs_insertion_slices = tm_default, bs_undo_map = undo_default,
                  bs_version = [], bs_remote_id = 0, bs_replica_id = LOCAL, bs_line_ending = Unix\<rparr>)"

definition sample_edited :: buffer_snapshot where
  "sample_edited =
     (case apply_edit_internal sample_edits sample_edit_time sample_snapshot of
        Some (_, _, sn) \<Rightarrow> sn
      | None \<Rightarrow> sample_snapshot)"

definition undo_of :: "lamport \<Rightarrow> u32 \<Rightarrow> lamport \<Rightarrow> undo_operation" where
  "undo_of ts n at = \<lparr>uo_timestamp = at, uo_version = [], uo_counts = [(ts, n)]\<rparr>"

lemma sample_snapshot_ok:
  "buffer_ok (base_content sample_text) sample_snapshot" "shallow sample_snapshot" "bs_visible_text sample_snapshot = sample_text"
  "buffer_fragments sample_snapshot = [base_fragment sample_text]" "bs_undo_map sample_snapshot = undo_default"
  "bs_insertion_slices sample_snapshot = tm_default"
proof -
  have len: "length sample_text < 2 ^ 32" by (simp add: sample_text_def)
  from new_normalized_total [OF len] obtain sn c where n: "new_normalized LOCAL 1 Unix sample_text = Some (sn, c)" by blast
  then have sn: "sample_snapshot = sn" by (simp add: sample_snapshot_def)
  have "sample_text \<noteq> []" by (simp add: sample_text_def)
  with new_normalized_at [OF n len] show
    "buffer_ok (base_content sample_text) sample_snapshot" "shallow sample_snapshot" "bs_visible_text sample_snapshot = sample_text"
    "buffer_fragments sample_snapshot = [base_fragment sample_text]"
    by (simp_all add: sn)
  from n show "bs_undo_map sample_snapshot = undo_default" "bs_insertion_slices sample_snapshot = tm_default"
    by (auto simp: sn new_normalized_def Let_def split: if_splits bind_splits)
qed

lemma undo_default_items [simp]: "tree_items undo_default = []" "undo_ok undo_default" "height undo_default < STACK_CAPACITY"
  using undo_default_ok by (simp_all add: undo_default_def tree_new_def)

lemma undone_default [simp]: "\<not> undone undo_default e"
  by (simp add: undone_def largest_count_def)

lemma sample_undo_ready: "undo_ready sample_snapshot {}"
proof -
  have "\<not> has_slice sample_snapshot s" for s
    by (simp add: has_slice_def sample_snapshot_ok(6) tm_default_def map_abs_def items_map_def list_get_def tree_new_def)
  then show ?thesis
    by (simp add: undo_ready_def sample_snapshot_ok(4,5) visibility_ok_def visible_under_def timed_def base_fragment_def
        lamport_new_def lamport_MIN_def)
qed

lemma sample_edit_allowed: "edit_allowed sample_edits sample_edit_time sample_snapshot"
  using sample_edits_ok sample_snapshot_ok
  by (auto simp: edit_allowed_def fresh_def never_undone_def touched_by_def base_fragment_def sample_edit_time_def
      lamport_new_def lamport_MIN_def LOCAL_def)

definition heights :: "buffer_snapshot \<Rightarrow> nat \<times> nat \<times> nat" where
  "heights sn = (height (bs_fragments sn), height (bs_insertions sn), height (bs_insertion_slices sn))"

lemma sample_edit_heights:
  "map_option (\<lambda>(_, _, sn). heights sn) (apply_edit_internal sample_edits sample_edit_time sample_snapshot) = Some (0, 0, 0)"
  by code_simp

lemma sample_session:
  "session (base_content sample_text) sample_snapshot [sample_edit_time]
     (with_text (base_content sample_text) sample_edit_time (inserted_text sample_edits)) sample_edited"
  and sample_edited_shallow: "shallow sample_edited"
proof -
  from sample_edit_heights obtain op p sn where
    r: "apply_edit_internal sample_edits sample_edit_time sample_snapshot = Some (op, p, sn)" "heights sn = (0, 0, 0)" by auto
  from session_edit [OF session_start sample_edit_allowed r(1)] r(1) show
    "session (base_content sample_text) sample_snapshot [sample_edit_time]
       (with_text (base_content sample_text) sample_edit_time (inserted_text sample_edits)) sample_edited"
    by (simp add: sample_edited_def)
  from r show "shallow sample_edited" by (simp add: sample_edited_def shallow_def heights_def STACK_CAPACITY_def)
qed

lemma sample_undo_height:
  "map_option height (undo_insert (undo_of sample_edit_time 1 (Lamport 4 LOCAL)) undo_default) = Some 0"
  by code_simp

lemma sample_undo_applies: "undo_applies (undo_of sample_edit_time 1 (Lamport 4 LOCAL)) sample_edited {sample_edit_time}"
proof -
  have "bs_undo_map sample_edited = undo_default"
    using session_keeps [OF sample_session sample_snapshot_ok(1) sample_undo_ready] sample_snapshot_ok(5) by simp
  with sample_undo_height show ?thesis by (auto simp: undo_applies_def undo_of_def STACK_CAPACITY_def)
qed

section \<open>Properties\<close>

text \<open>Undoing the edits of a session with one undo operation never panics and gives back the visible text before
  the first of them, byte for byte, however the later edits split, deleted or surrounded what the earlier ones
  inserted; the patch it publishes leads from the edited text to the restored one.\<close>

theorem undo_restores_text:
  assumes "buffer_ok content sn" "undo_ready sn E" "session content sn es content' sn'" "shallow sn'"
    and "uo_counts undo = map (\<lambda>e. (e, 1)) es" "undo_applies undo sn' (E \<union> set es)"
  shows "\<exists>p sn''. apply_undo undo sn' = Some (p, sn'') \<and> bs_visible_text sn'' = bs_visible_text sn
    \<and> leads (bs_visible_text sn') p (bs_visible_text sn'') \<and> buffer_ok content' sn''"
proof -
  from session_keeps [OF assms(3,1,2)] have k: "buffer_ok content' sn'" "undo_ready sn' (E \<union> set es)"
      "bs_undo_map sn' = bs_undo_map sn" "\<And>e. e \<in> set es \<Longrightarrow> fresh e sn \<and> never_undone e sn"
      "\<And>U. set es \<subseteq> U \<Longrightarrow> shown U (buffer_fragments sn') = shown U (buffer_fragments sn)"
    by blast+
  from undo_at [OF k(1) assms(4) k(2) assms(6)] obtain p sn'' where
    1: "apply_undo undo sn' = Some (p, sn'')" "undo_outcome content' undo sn' (p, sn'')" "undo_ready sn'' (E \<union> set es)"
    by auto
  let ?m = "bs_undo_map sn''"
  from 1(2) obtain ids where fragments: "buffer_fragments sn'' = map (refresh ?m (uo_timestamp undo) ids) (buffer_fragments sn')"
    and counts: "\<And>e. largest_count e (\<lambda>_. True) (tree_items ?m) = max (largest_count e (\<lambda>_. True) (tree_items (bs_undo_map sn)))
      (case map_of (uo_counts undo) e of None \<Rightarrow> 0 | Some n \<Rightarrow> n)"
    and out: "buffer_ok content' sn''" "leads (bs_visible_text sn') p (bs_visible_text sn'')"
    by (auto simp: undo_outcome_def k(3))
  have map: "map_of (uo_counts undo) e = (if e \<in> set es then Some 1 else None)" for e
    unfolding assms(5) by (induction es) auto
  have undone_es: "undone ?m e" if "e \<in> set es" for e
    using never_undone_count [of e sn] k(4) [OF that] that by (simp add: undone_def counts map)
  have other: "undone ?m e \<longleftrightarrow> undone (bs_undo_map sn) e" if "e \<notin> set es" for e
    using that by (simp add: undone_def counts map)
  have "e \<notin> set es" if "f \<in> set (buffer_fragments sn)" "touched_by e f" for f e
    using that k(4) by (auto simp: fresh_def)
  then have "shown (undone_edits sn'') (buffer_fragments sn) = shown (undone_edits sn) (buffer_fragments sn)"
    using other by (intro shown_cong) auto
  then have "visible_cells (buffer_fragments sn'') = visible_cells (buffer_fragments sn)"
    using shown_visible [of sn''] shown_visible [of sn] 1(3) assms(2) k(5) [of "undone_edits sn''"] undone_es
    by (auto simp: undo_ready_def fragments shown_refresh)
  moreover have "map content' (visible_cells (buffer_fragments sn)) = map content (visible_cells (buffer_fragments sn))"
    by (rule session_content [OF assms(3,1,2)])
  ultimately have "bs_visible_text sn'' = bs_visible_text sn" using out(1) assms(1) by (simp add: buffer_ok_def)
  with 1(1) out show ?thesis by blast
qed

theorem undo_restores_text_witness:
  "\<exists>p sn. apply_undo (undo_of sample_edit_time 1 (Lamport 4 LOCAL)) sample_edited = Some (p, sn) \<and> bs_visible_text sn = [97, 98, 99]"
  using undo_restores_text [OF sample_snapshot_ok(1) sample_undo_ready sample_session sample_edited_shallow,
      of "undo_of sample_edit_time 1 (Lamport 4 LOCAL)"] sample_undo_applies sample_snapshot_ok(3)
  by (auto simp: undo_of_def sample_text_def)

end
