(* ===== verification/Editor.thy ===== *)
theory Editor
  imports TextBufferContract UndoProperties
begin

text \<open>
  The editor that a text buffer implements: a present text, the past texts that undo goes back to, and the
  future texts that redo goes forward to. Fragments, timestamps, undo counts and stacks of transactions
  are an implementation of it: edits, undo and redo of a buffer refine those of the editor.
\<close>

section \<open>The abstract editor\<close>

text \<open>A step of editing: the text to go to from it, the times of its first and last edit, and whether it is final,
  so that no edit joins it any more.\<close>

record edit_step =
  es_text :: rope
  es_first :: nat
  es_last :: nat
  es_final :: bool

text \<open>The last of the past steps is the nearest, as is the last of the future ones.\<close>

record editor =
  ed_past :: "edit_step list"
  ed_present :: rope
  ed_future :: "edit_step list"

definition new_editor :: "rope \<Rightarrow> editor" where
  "new_editor t = \<lparr>ed_past = [], ed_present = t, ed_future = []\<rparr>"

text \<open>A step joins the one before it when it begins soon after it.\<close>

definition soon_after :: "nat \<Rightarrow> edit_step \<Rightarrow> edit_step \<Rightarrow> bool" where
  "soon_after interval lower upper \<longleftrightarrow> \<not> es_final lower \<and> es_first upper - es_last lower < interval"

definition editor_undo :: "editor \<Rightarrow> editor" where
  "editor_undo ed =
     (if ed_past ed = [] then ed
      else let s = last (ed_past ed) in
        \<lparr>ed_past = butlast (ed_past ed), ed_present = es_text s, ed_future = ed_future ed @ [s\<lparr>es_text := ed_present ed\<rparr>]\<rparr>)"

definition editor_redo :: "editor \<Rightarrow> editor" where
  "editor_redo ed =
     (if ed_future ed = [] then ed
      else let s = last (ed_future ed) in
        \<lparr>ed_past = ed_past ed @ [s\<lparr>es_text := ed_present ed\<rparr>], ed_present = es_text s, ed_future = butlast (ed_future ed)\<rparr>)"

definition editor_finalize :: "editor \<Rightarrow> editor" where
  "editor_finalize ed =
     (if ed_past ed = [] then ed
      else ed\<lparr>ed_past := butlast (ed_past ed) @ [(last (ed_past ed))\<lparr>es_final := True\<rparr>]\<rparr>)"

text \<open>What a user does; an edit comes with the times at which its transaction starts and ends.\<close>

datatype buffer_command =
    EditCommand "(nat \<times> nat \<times> rope) list" nat nat
  | UndoCommand
  | RedoCommand
  | FinalizeCommand

text \<open>An edit puts the present among the past steps and joins the longest run of steps that came soon after each
  other; the future is lost.\<close>

inductive editor_step :: "nat \<Rightarrow> buffer_command \<Rightarrow> editor \<Rightarrow> editor \<Rightarrow> bool" for interval where
  editor_edits: "\<lbrakk>ed_past ed @ [\<lparr>es_text = ed_present ed, es_first = start_at, es_last = end_at, es_final = False\<rparr>] = low @ s # joining;
     successively (soon_after interval) (s # joining); low \<noteq> [] \<Longrightarrow> \<not> soon_after interval (last low) s\<rbrakk>
   \<Longrightarrow> editor_step interval (EditCommand edits start_at end_at) ed
     \<lparr>ed_past = low @ [s\<lparr>es_last := end_at\<rparr>], ed_present = spliced 0 (normalized edits) (ed_present ed), ed_future = []\<rparr>"
| editor_undoes: "editor_step interval UndoCommand ed (editor_undo ed)"
| editor_redoes: "editor_step interval RedoCommand ed (editor_redo ed)"
| editor_finalizes: "editor_step interval FinalizeCommand ed (editor_finalize ed)"

inductive editor_run :: "nat \<Rightarrow> buffer_command list \<Rightarrow> editor \<Rightarrow> editor \<Rightarrow> bool" for interval where
  run_nothing: "editor_run interval [] ed ed"
| run_command: "\<lbrakk>editor_step interval c ed ed'; editor_run interval cs ed' ed''\<rbrakk> \<Longrightarrow> editor_run interval (c # cs) ed ed''"

section \<open>The abstraction\<close>

text \<open>The text of a snapshot if some edits were undone.\<close>

definition text_under :: "(cell \<Rightarrow> 8 word) \<Rightarrow> buffer_snapshot \<Rightarrow> lamport set \<Rightarrow> rope" where
  "text_under content sn U = map content (shown U (buffer_fragments sn))"

text \<open>The text before the transactions from the \<open>k\<close>th on, and after the undone ones from the \<open>k\<close>th on.\<close>

definition text_before :: "(cell \<Rightarrow> 8 word) \<Rightarrow> text_buffer \<Rightarrow> nat \<Rightarrow> rope" where
  "text_before content tb k =
     text_under content (tb_snapshot tb) (undone_edits (tb_snapshot tb) \<union> set (stack_edits (drop k (hi_undo_stack (tb_history tb)))))"

definition text_after :: "(cell \<Rightarrow> 8 word) \<Rightarrow> text_buffer \<Rightarrow> nat \<Rightarrow> rope" where
  "text_after content tb k =
     text_under content (tb_snapshot tb) (undone_edits (tb_snapshot tb) - set (stack_edits (drop k (hi_redo_stack (tb_history tb)))))"

definition step_of :: "history_entry \<Rightarrow> rope \<Rightarrow> edit_step" where
  "step_of e t = \<lparr>es_text = t, es_first = he_first_edit_at e, es_last = he_last_edit_at e, es_final = he_suppress_grouping e\<rparr>"

definition steps_of :: "history_entry list \<Rightarrow> (nat \<Rightarrow> rope) \<Rightarrow> edit_step list" where
  "steps_of stack texts = map2 step_of stack (map texts [0 ..< length stack])"

definition editor_of :: "(cell \<Rightarrow> 8 word) \<Rightarrow> text_buffer \<Rightarrow> editor" where
  "editor_of content tb =
     \<lparr>ed_past = steps_of (hi_undo_stack (tb_history tb)) (text_before content tb),
      ed_present = bs_visible_text (tb_snapshot tb),
      ed_future = steps_of (hi_redo_stack (tb_history tb)) (text_after content tb)\<rparr>"

lemma step_of_simps [simp]:
  "es_text (step_of e t) = t" "es_first (step_of e t) = he_first_edit_at e" "es_last (step_of e t) = he_last_edit_at e"
  "es_final (step_of e t) = he_suppress_grouping e" "(step_of e t)\<lparr>es_text := t'\<rparr> = step_of e t'"
  by (simp_all add: step_of_def)

lemma steps_of_simps [simp]:
  "steps_of [] texts = []" "length (steps_of stack texts) = length stack" "steps_of stack texts = [] \<longleftrightarrow> stack = []"
  "steps_of (low @ [e]) texts = steps_of low texts @ [step_of e (texts (length low))]"
  by (simp_all add: steps_of_def)

lemma steps_of_cong: "(\<And>k. k < length stack \<Longrightarrow> f k = g k) \<Longrightarrow> steps_of stack f = steps_of stack g"
  unfolding steps_of_def by (intro arg_cong2 [of _ _ _ _ "map2 step_of"] map_cong) auto

lemma steps_of_append: "steps_of (low @ high) texts = steps_of low texts @ steps_of high (\<lambda>k. texts (length low + k))"
  by (rule nth_equalityI) (auto simp: steps_of_def nth_append)

lemma steps_of_Cons [simp]: "steps_of (e # stack) texts = step_of e (texts 0) # steps_of stack (\<lambda>k. texts (Suc k))"
  using steps_of_append [of "[e]" stack texts] by (simp add: steps_of_def)

lemma soon_after_joined [simp]: "soon_after k (step_of a t) (step_of b u) \<longleftrightarrow> joined k a b"
  by (simp add: soon_after_def joined_def)

lemma present_text:
  assumes "text_buffer_ok content seen tb"
  shows "bs_visible_text (tb_snapshot tb) = text_under content (tb_snapshot tb) (undone_edits (tb_snapshot tb))"
proof -
  from assms have "visibility_ok (tb_snapshot tb)" "buffer_ok content (tb_snapshot tb)"
    by (simp_all add: text_buffer_ok_def text_core_ok_def undo_ready_def)
  then show ?thesis by (simp add: buffer_ok_def text_under_def shown_visible)
qed

section \<open>Undo and redo refine\<close>

lemma moved_text: "moved u r es tb tb' \<Longrightarrow> text_under content (tb_snapshot tb') = text_under content (tb_snapshot tb)"
  by (auto simp: moved_def text_under_def shown_refresh)

lemma moved_undone:
  assumes "moved u r es tb tb'"
  shows "undone_edits (tb_snapshot tb') = (undone_edits (tb_snapshot tb) - set es) \<union> (set es - undone_edits (tb_snapshot tb))"
  using assms by (auto simp: moved_def)

lemma undo_refines:
  assumes ok: "text_buffer_ok content seen tb" "text_buffer_ok content seen tb'"
    and h: "hi_undo_stack (tb_history tb) = low @ [e]" and m: "moved low (hi_redo_stack (tb_history tb) @ [e]) (entry_edits e) tb tb'"
  shows "editor_of content tb' = editor_undo (editor_of content tb)"
proof -
  let ?U = "undone_edits (tb_snapshot tb)" and ?r = "hi_redo_stack (tb_history tb)"
  from ok(1) have d: "set (entry_edits e) \<inter> ?U = {}" "set (entry_edits e) \<inter> set (stack_edits ?r) = {}"
    by (auto simp: text_buffer_ok_def settled_def h Let_def)
  with moved_undone [OF m] have U: "undone_edits (tb_snapshot tb') = ?U \<union> set (entry_edits e)" by auto
  from m have stacks: "hi_undo_stack (tb_history tb') = low" "hi_redo_stack (tb_history tb') = ?r @ [e]" by (simp_all add: moved_def)
  have "text_before content tb' k = text_before content tb k" if "k < length low" for k
    using that by (simp add: text_before_def moved_text [OF m] stacks h U Un_ac)
  then have "steps_of low (text_before content tb') = steps_of low (text_before content tb)" by (rule steps_of_cong)
  moreover have "bs_visible_text (tb_snapshot tb') = text_before content tb (length low)"
    by (simp add: present_text [OF ok(2)] text_before_def moved_text [OF m] h U)
  moreover have "text_after content tb' k = text_after content tb k" if "k < length ?r" for k
  proof -
    have "?U \<union> set (entry_edits e) - (set (stack_edits (drop k ?r)) \<union> set (entry_edits e)) = ?U - set (stack_edits (drop k ?r))"
      using d by auto
    then show ?thesis using that by (simp add: text_after_def moved_text [OF m] stacks U)
  qed
  then have "steps_of ?r (text_after content tb') = steps_of ?r (text_after content tb)" by (rule steps_of_cong)
  moreover have "text_after content tb' (length ?r) = bs_visible_text (tb_snapshot tb)"
  proof -
    have "?U \<union> set (entry_edits e) - set (entry_edits e) = ?U" using d by auto
    then show ?thesis by (simp add: present_text [OF ok(1)] text_after_def moved_text [OF m] stacks U)
  qed
  ultimately show ?thesis
    by (simp add: editor_of_def editor_undo_def stacks h Let_def)
qed

lemma redo_refines:
  assumes ok: "text_buffer_ok content seen tb" "text_buffer_ok content seen tb'"
    and h: "hi_redo_stack (tb_history tb) = low @ [e]" and m: "moved (hi_undo_stack (tb_history tb) @ [e]) low (entry_edits e) tb tb'"
  shows "editor_of content tb' = editor_redo (editor_of content tb)"
proof -
  let ?U = "undone_edits (tb_snapshot tb)" and ?u = "hi_undo_stack (tb_history tb)"
  from ok(1) have d: "set (entry_edits e) \<subseteq> ?U" "set (entry_edits e) \<inter> set (stack_edits low) = {}"
    by (auto simp: text_buffer_ok_def settled_def h Let_def)
  with moved_undone [OF m] have U: "undone_edits (tb_snapshot tb') = ?U - set (entry_edits e)" by auto
  from m have stacks: "hi_undo_stack (tb_history tb') = ?u @ [e]" "hi_redo_stack (tb_history tb') = low" by (simp_all add: moved_def)
  have redone: "?U - set (entry_edits e) \<union> (X \<union> set (entry_edits e)) = ?U \<union> X" for X using d by auto
  then have "text_before content tb' k = text_before content tb k" if "k < length ?u" for k
    using that by (simp add: text_before_def moved_text [OF m] stacks U)
  then have "steps_of ?u (text_before content tb') = steps_of ?u (text_before content tb)" by (rule steps_of_cong)
  moreover have "text_before content tb' (length ?u) = bs_visible_text (tb_snapshot tb)"
    using redone [of "{}"] by (simp add: present_text [OF ok(1)] text_before_def moved_text [OF m] stacks U)
  moreover have "bs_visible_text (tb_snapshot tb') = text_after content tb (length low)"
    by (simp add: present_text [OF ok(2)] text_after_def moved_text [OF m] h U)
  moreover have "text_after content tb' k = text_after content tb k" if "k < length low" for k
    using that by (simp add: text_after_def moved_text [OF m] stacks h U Diff_Un [symmetric] Diff_Diff_Int set_diff_eq conj_ac)
  then have "steps_of low (text_after content tb') = steps_of low (text_after content tb)" by (rule steps_of_cong)
  ultimately show ?thesis
    by (simp add: editor_of_def editor_redo_def stacks h Let_def)
qed

section \<open>Edits refine\<close>

text \<open>With the edit undone, the text is what it was.\<close>

lemma edit_text_under:
  assumes ok: "text_buffer_ok content seen tb" and ok': "text_buffer_ok content' seen tb'" and e: "edited content edits ts a b tb tb'"
    and c: "content' = with_text content ts (inserted_text edits)"
  shows "text_under content' (tb_snapshot tb') (insert ts U) = text_under content (tb_snapshot tb) U"
proof -
  let ?F = "buffer_fragments (tb_snapshot tb)" and ?F' = "buffer_fragments (tb_snapshot tb')"
  from e obtain op p sn v where out: "edit_outcome content edits ts (tb_snapshot tb) (op, p, sn)"
    and sn: "tb_snapshot tb' = sn\<lparr>bs_version := v\<rparr>" and new: "ts \<notin> known_times tb"
    by (auto simp: edited_def)
  from new have fresh: "\<not> touched_by ts f" if "f \<in> set ?F" for f using that by (auto simp: known_times_def)
  from ok ok' have F: "fragments_ok ?F" "fragments_ok ?F'"
    by (simp_all add: text_buffer_ok_def text_core_ok_def buffer_ok_def)
  have old: "with_text content ts (inserted_text edits) x = content x" if "x \<in> set (shown U ?F)" for x
  proof -
    from that obtain f where "f \<in> set ?F" "x \<in> set (cells f)" by (auto simp: shown_def all_member)
    with fresh [of f] show ?thesis by (auto simp: with_text_def cells_def touched_by_def)
  qed
  have "shown (insert ts U) ?F' = shown (insert ts U) ?F"
    using shown_undone [OF out] F fresh by (simp add: sn fresh_def fragments_ok_def)
  also have "\<dots> = shown U ?F" using fresh by (intro shown_cong) auto
  finally have "text_under content' (tb_snapshot tb') (insert ts U) = map content' (shown U ?F)" by (simp add: text_under_def)
  also have "\<dots> = map content (shown U ?F)" using old by (simp add: c)
  finally show ?thesis by (simp add: text_under_def)
qed

lemma steps_joined: "successively (soon_after k) (steps_of stack texts) \<longleftrightarrow> all_joined k stack"
proof (induction k stack arbitrary: texts rule: all_joined.induct)
  case (1 k a b es)
  from 1 [of "\<lambda>n. texts (Suc n)"] show ?case by simp
qed simp_all

lemma absorb_step:
  assumes "he_last_edit_at (last (x # merged)) = b"
  shows "step_of (absorb merged x) t = (step_of x t)\<lparr>es_last := b\<rparr>"
  using assms by (auto simp: step_of_def absorb_def)

lemma edit_refines:
  assumes ok: "text_buffer_ok content seen tb" and ok': "text_buffer_ok content' seen tb'" and e: "edited content edits ts a b tb tb'"
    and c: "content' = with_text content ts (inserted_text edits)"
  shows "editor_step (hi_group_interval (tb_history tb)) (EditCommand edits a b) (editor_of content tb) (editor_of content' tb')"
proof -
  let ?k = "hi_group_interval (tb_history tb)" and ?u = "hi_undo_stack (tb_history tb)" and ?t = "text_before content tb"
  from e obtain newest low x merged where g: "?u @ [newest] = low @ x # merged" "entry_edits newest = [ts]"
      "hi_undo_stack (tb_history tb') = low @ [absorb merged x]" "all_joined ?k (x # merged)" "low \<noteq> [] \<longrightarrow> \<not> joined ?k (last low) x"
    and new: "he_first_edit_at newest = a" "he_last_edit_at newest = b" "\<not> he_suppress_grouping newest"
    by (auto simp: edited_def grouped_def)
  from e have s: "bs_undo_map (tb_snapshot tb') = bs_undo_map (tb_snapshot tb)" "hi_redo_stack (tb_history tb') = []"
      "bs_visible_text (tb_snapshot tb') = spliced 0 (normalized edits) (bs_visible_text (tb_snapshot tb))"
    by (auto simp: edited_def edit_outcome_def)
  have low: "length low \<le> length ?u" using arg_cong [OF g(1), of length] by simp
  have before: "text_before content' tb' k = ?t k" if k: "k \<le> length low" for k
  proof -
    have "stack_edits (drop k (hi_undo_stack (tb_history tb'))) = stack_edits (drop k (?u @ [newest]))"
      unfolding g(1,3) using k by simp
    also have "\<dots> = stack_edits (drop k ?u) @ [ts]" using g(2) k low by simp
    finally show ?thesis
      by (simp add: text_before_def s(1) edit_text_under [OF ok ok' e c])
  qed
  then have "steps_of low (text_before content' tb') = steps_of low ?t" by (intro steps_of_cong) simp
  moreover have "he_last_edit_at (last (x # merged)) = b" using arg_cong [OF g(1), of last] new(2) by simp
  ultimately have past': "ed_past (editor_of content' tb') = steps_of low ?t @ [(step_of x (?t (length low)))\<lparr>es_last := b\<rparr>]"
    using before [of "length low"] by (simp add: editor_of_def g(3) absorb_step)
  have "step_of newest (?t (length ?u)) = \<lparr>es_text = bs_visible_text (tb_snapshot tb), es_first = a, es_last = b, es_final = False\<rparr>"
    using new by (simp add: step_of_def text_before_def present_text [OF ok])
  then have "ed_past (editor_of content tb) @ [\<lparr>es_text = bs_visible_text (tb_snapshot tb), es_first = a, es_last = b, es_final = False\<rparr>] =
      steps_of (?u @ [newest]) ?t"
    by (simp add: editor_of_def)
  also have "\<dots> = steps_of low ?t @ step_of x (?t (length low)) # steps_of merged (\<lambda>k. ?t (Suc (length low + k)))"
    unfolding g(1) by (simp add: steps_of_append)
  finally have past: "ed_past (editor_of content tb) @ [\<lparr>es_text = bs_visible_text (tb_snapshot tb), es_first = a, es_last = b, es_final = False\<rparr>] =
      steps_of low ?t @ step_of x (?t (length low)) # steps_of merged (\<lambda>k. ?t (Suc (length low + k)))" .
  have run: "successively (soon_after ?k) (step_of x (?t (length low)) # steps_of merged (\<lambda>k. ?t (Suc (length low + k))))"
    using steps_joined [of ?k "x # merged" "\<lambda>k. ?t (length low + k)"] g(4) by simp
  have maximal: "\<not> soon_after ?k (last (steps_of low ?t)) (step_of x (?t (length low)))" if "steps_of low ?t \<noteq> []"
    using that g(5) by (cases low rule: rev_cases) auto
  have "editor_of content' tb' =
      \<lparr>ed_past = steps_of low ?t @ [(step_of x (?t (length low)))\<lparr>es_last := b\<rparr>],
       ed_present = spliced 0 (normalized edits) (ed_present (editor_of content tb)), ed_future = []\<rparr>"
    using past' by (simp add: editor_of_def s(2,3))
  then show ?thesis
    using editor_edits [of "editor_of content tb" a b, OF _ run maximal] past by (simp add: editor_of_def)
qed

section \<open>Finality\<close>

lemma finalize_refines:
  assumes "text_buffer_ok content seen tb"
  shows "text_buffer_ok content seen (snd (buffer_finalize_last_transaction tb))"
    and "editor_of content (snd (buffer_finalize_last_transaction tb)) = editor_finalize (editor_of content tb)"
    and "hi_group_interval (tb_history (snd (buffer_finalize_last_transaction tb))) = hi_group_interval (tb_history tb)"
proof -
  let ?h = "tb_history tb"
  have "text_buffer_ok content seen (snd (buffer_finalize_last_transaction tb))
    \<and> editor_of content (snd (buffer_finalize_last_transaction tb)) = editor_finalize (editor_of content tb)
    \<and> hi_group_interval (tb_history (snd (buffer_finalize_last_transaction tb))) = hi_group_interval ?h"
  proof (cases "hi_undo_stack ?h" rule: rev_cases)
    case Nil
    then show ?thesis using assms
      by (simp add: buffer_finalize_last_transaction_def finalize_last_transaction_def editor_finalize_def editor_of_def)
  next
    case (snoc low e)
    let ?e = "e\<lparr>he_suppress_grouping := True\<rparr>"
    let ?tb = "with_stacks (low @ [?e]) (hi_redo_stack ?h) tb"
    have fin: "snd (buffer_finalize_last_transaction tb) = ?tb"
      by (simp add: buffer_finalize_last_transaction_def finalize_last_transaction_def snoc with_stacks_def Let_def)
    have e: "entry_edits ?e = entry_edits e" "step_of ?e t = (step_of e t)\<lparr>es_final := True\<rparr>" for t
      by (simp_all add: entry_edits_def step_of_def)
    then have st: "stack_edits (drop k (low @ [?e])) = stack_edits (drop k (low @ [e]))" for k
      by (cases "k \<le> length low") simp_all
    have "text_core_ok content seen ?tb"
      using assms st [of 0] by (subst with_stacks_core) (simp_all add: text_buffer_ok_def history_edits_def snoc)
    moreover have "settled ?tb"
      using assms st [of 0] by (simp add: text_buffer_ok_def settled_def with_stacks_def snoc Let_def)
    moreover have "text_before content ?tb = text_before content tb" "text_after content ?tb = text_after content tb"
      using st by (auto simp: text_before_def text_after_def with_stacks_def snoc)
    then have "editor_of content ?tb = editor_finalize (editor_of content tb)"
      by (simp add: editor_of_def editor_finalize_def with_stacks_def snoc e)
    ultimately show ?thesis by (simp add: fin text_buffer_ok_def with_stacks_def)
  qed
  then show "text_buffer_ok content seen (snd (buffer_finalize_last_transaction tb))"
    "editor_of content (snd (buffer_finalize_last_transaction tb)) = editor_finalize (editor_of content tb)"
    "hi_group_interval (tb_history (snd (buffer_finalize_last_transaction tb))) = hi_group_interval (tb_history tb)"
    by blast+
qed

section \<open>Commands\<close>

fun buffer_step :: "buffer_command \<Rightarrow> text_buffer \<Rightarrow> text_buffer option" where
  "buffer_step (EditCommand edits start_at end_at) tb = map_option snd (buffer_edit edits start_at end_at tb)"
| "buffer_step UndoCommand tb = map_option snd (buffer_undo tb)"
| "buffer_step RedoCommand tb = map_option snd (buffer_redo tb)"
| "buffer_step FinalizeCommand tb = Some (snd (buffer_finalize_last_transaction tb))"

fun buffer_run :: "buffer_command list \<Rightarrow> text_buffer \<Rightarrow> text_buffer option" where
  "buffer_run [] tb = Some tb"
| "buffer_run (c # cs) tb = Option.bind (buffer_step c tb) (buffer_run cs)"

text \<open>The commands stay within the text and within the capacity of cursors, clocks and counts.\<close>

fun step_room :: "buffer_command \<Rightarrow> text_buffer \<Rightarrow> bool" where
  "step_room (EditCommand edits start_at end_at) tb \<longleftrightarrow> edit_room edits tb"
| "step_room UndoCommand tb \<longleftrightarrow>
     (let stack = hi_undo_stack (tb_history tb) in stack = [] \<or> undo_room (he_transaction (last stack)) tb)"
| "step_room RedoCommand tb \<longleftrightarrow>
     (let stack = hi_redo_stack (tb_history tb) in stack = [] \<or> undo_room (he_transaction (last stack)) tb)"
| "step_room FinalizeCommand tb \<longleftrightarrow> True"

fun run_room :: "buffer_command list \<Rightarrow> text_buffer \<Rightarrow> bool" where
  "run_room [] tb \<longleftrightarrow> True"
| "run_room (c # cs) tb \<longleftrightarrow> step_room c tb \<and> (case buffer_step c tb of None \<Rightarrow> True | Some tb \<Rightarrow> run_room cs tb)"

abbreviation interval_of :: "text_buffer \<Rightarrow> nat" where
  "interval_of tb \<equiv> hi_group_interval (tb_history tb)"

lemma step_refines:
  assumes tb: "text_buffer_ok content seen tb" and room: "step_room c tb"
  shows "\<exists>content' tb'. buffer_step c tb = Some tb' \<and> text_buffer_ok content' seen tb' \<and> interval_of tb' = interval_of tb
    \<and> editor_step (interval_of tb) c (editor_of content tb) (editor_of content' tb')"
proof (cases c)
  case (EditCommand edits a b)
  with room have "edit_room edits tb" by simp
  from buffer_edit_at [OF tb this, of a b] obtain op tb' where
    1: "buffer_edit edits a b tb = Some (EditOp op, tb')"
      "text_buffer_ok (with_text content (eo_timestamp op) (inserted_text edits)) seen tb'" "edited content edits (eo_timestamp op) a b tb tb'"
    by blast
  moreover from 1(3) have "interval_of tb' = interval_of tb" by (simp add: edited_def)
  ultimately show ?thesis using EditCommand edit_refines [OF tb 1(2,3) refl] by auto
next
  case UndoCommand
  show ?thesis
  proof (cases "hi_undo_stack (tb_history tb)" rule: rev_cases)
    case Nil
    with tb have "buffer_undo tb = Some (None, tb)" "editor_undo (editor_of content tb) = editor_of content tb"
      by (simp_all add: buffer_undo_def pop_undo_def editor_undo_def editor_of_def text_buffer_ok_def settled_def Let_def)
    with UndoCommand tb show ?thesis using editor_undoes [of "interval_of tb" "editor_of content tb"] by auto
  next
    case (snoc low e)
    with room UndoCommand have "undo_room (he_transaction e) tb" by simp
    from buffer_undo_at [OF tb snoc this] obtain r tb' where
      1: "buffer_undo tb = Some (r, tb')" "text_buffer_ok content seen tb'" "moved low (hi_redo_stack (tb_history tb) @ [e]) (entry_edits e) tb tb'"
      by blast
    moreover from 1(3) have "interval_of tb' = interval_of tb" by (simp add: moved_def)
    ultimately show ?thesis
      using UndoCommand editor_undoes [of "interval_of tb" "editor_of content tb"] undo_refines [OF tb 1(2) snoc 1(3)] by auto
  qed
next
  case RedoCommand
  show ?thesis
  proof (cases "hi_redo_stack (tb_history tb)" rule: rev_cases)
    case Nil
    with tb have "buffer_redo tb = Some (None, tb)" "editor_redo (editor_of content tb) = editor_of content tb"
      by (simp_all add: buffer_redo_def pop_redo_def editor_redo_def editor_of_def text_buffer_ok_def settled_def Let_def)
    with RedoCommand tb show ?thesis using editor_redoes [of "interval_of tb" "editor_of content tb"] by auto
  next
    case (snoc low e)
    with room RedoCommand have "undo_room (he_transaction e) tb" by simp
    from buffer_redo_at [OF tb snoc this] obtain r tb' where
      1: "buffer_redo tb = Some (r, tb')" "text_buffer_ok content seen tb'" "moved (hi_undo_stack (tb_history tb) @ [e]) low (entry_edits e) tb tb'"
      by blast
    moreover from 1(3) have "interval_of tb' = interval_of tb" by (simp add: moved_def)
    ultimately show ?thesis
      using RedoCommand editor_redoes [of "interval_of tb" "editor_of content tb"] redo_refines [OF tb 1(2) snoc 1(3)] by auto
  qed
next
  case FinalizeCommand
  with finalize_refines [OF tb] editor_finalizes [of "interval_of tb" "editor_of content tb"] show ?thesis by auto
qed

lemma run_refines:
  assumes "text_buffer_ok content seen tb" "run_room cs tb"
  shows "\<exists>content' tb'. buffer_run cs tb = Some tb' \<and> text_buffer_ok content' seen tb'
    \<and> editor_run (interval_of tb) cs (editor_of content tb) (editor_of content' tb')"
  using assms
proof (induction cs arbitrary: content tb)
  case Nil
  then show ?case using run_nothing by auto
next
  case (Cons c cs)
  from Cons.prems(2) have room: "step_room c tb" "\<And>tb'. buffer_step c tb = Some tb' \<Longrightarrow> run_room cs tb'" by auto
  from step_refines [OF Cons.prems(1) room(1)] obtain content1 tb1 where
    1: "buffer_step c tb = Some tb1" "text_buffer_ok content1 seen tb1" "interval_of tb1 = interval_of tb"
      "editor_step (interval_of tb) c (editor_of content tb) (editor_of content1 tb1)"
    by blast
  from Cons.IH [OF 1(2) room(2) [OF 1(1)]] obtain content2 tb2 where
    2: "buffer_run cs tb1 = Some tb2" "text_buffer_ok content2 seen tb2"
      "editor_run (interval_of tb) cs (editor_of content1 tb1) (editor_of content2 tb2)"
    using 1(3) by auto
  with 1 show ?case by (auto intro: run_command)
qed

section \<open>New buffers\<close>

lemma new_normalized_clock:
  assumes "new_normalized replica remote_id ending t = Some (sn, c)"
  shows "bs_undo_map sn = undo_default" "bs_insertion_slices sn = tm_default" "ts_value c \<noteq> 0"
    "t \<noteq> [] \<longrightarrow> older_time c (lamport_new LOCAL)"
  using assms
  by (auto simp: new_normalized_def Let_def lamport_new_def lamport_observe_def older_time_def split: if_splits bind_splits)

lemma new_buffer_at:
  assumes new: "buffer_new_normalized millisecond replica remote_id ending t = Some tb" and len: "length t < 2 ^ 32"
  shows "text_buffer_ok (base_content t) Map.empty tb"
    and "editor_of (base_content t) tb = new_editor t" "interval_of tb = 300 * millisecond"
proof -
  from new obtain sn c where n: "new_normalized replica remote_id ending t = Some (sn, c)"
    and tb: "tb = \<lparr>tb_snapshot = sn, tb_history = history_new millisecond t, tb_lamport_clock = c, tb_subscriptions = topic_default\<rparr>"
    by (auto simp: buffer_new_normalized_def split: bind_splits)
  note at = new_normalized_at [OF n len] and clock = new_normalized_clock [OF n]
  have h: "history_edits (history_new millisecond t) = {}" by (simp add: history_edits_def history_new_def)
  have "\<not> has_slice sn s" for s
    by (simp add: has_slice_def clock(2) tm_default_def map_abs_def items_map_def list_get_def tree_new_def)
  then have "undo_ready sn {}"
    using at by (simp add: undo_ready_def clock(1) visibility_ok_def visible_under_def timed_def base_fragment_def
        lamport_new_def lamport_MIN_def)
  moreover have "older_time c e" if "e \<in> known_times tb" for e
    using that at clock(4) by (auto simp: known_times_def tb h clock(1) touched_by_def base_fragment_def split: if_splits)
  moreover have "map_ok (tm_default :: (lamport, operation) tree_map)"
    by (simp add: tm_default_def map_ok_def tree_ok_def tree_new_def key_sorted_def)
  ultimately show "text_buffer_ok (base_content t) Map.empty tb"
    using at clock(3)
    by (simp add: text_buffer_ok_def text_core_ok_def settled_def topic_ok_def topic_default_def tb history_edits_def
        history_new_def Let_def)
  show "editor_of (base_content t) tb = new_editor t" "interval_of tb = 300 * millisecond"
    using at by (simp_all add: editor_of_def new_editor_def tb history_new_def)
qed


section \<open>Properties\<close>




definition sample_commands :: "buffer_command list" where
  "sample_commands = [EditCommand [(0, 0, [120, 121])] 0 1, UndoCommand, RedoCommand]"



text \<open>C6. A subscription taken at any time and consumed after any further commands returns a patch that leads from the
  text at the first time to the text at the second.\<close>

theorem subscriber_patch_correct:
  assumes "buffer_new_normalized millisecond replica remote_id ending t = Some tb" "length t < 2 ^ 32"
    and "run_room cs tb" "buffer_run cs tb = Some tb1" "subscribe (tb_subscriptions tb1) = (s, topic)"
    and "run_room ds (tb1\<lparr>tb_subscriptions := topic\<rparr>)"
  shows "\<exists>tb2 p. buffer_run ds (tb1\<lparr>tb_subscriptions := topic\<rparr>) = Some tb2
    \<and> fst (consume_patch s (tb_subscriptions tb2)) = Some p
    \<and> leads (bs_visible_text (tb_snapshot tb1)) p (bs_visible_text (tb_snapshot tb2))"
proof -
  from run_refines [OF new_buffer_at(1) [OF assms(1,2)] assms(3)] assms(4) obtain content where
    1: "text_buffer_ok content Map.empty tb1" by auto
  let ?seen = "Map.empty(s \<mapsto> bs_visible_text (tb_snapshot tb1))" and ?tb = "tb1\<lparr>tb_subscriptions := topic\<rparr>"
  from 1 have "topic_ok Map.empty (bs_visible_text (tb_snapshot tb1)) (tb_subscriptions tb1)"
    by (simp add: text_buffer_ok_def text_core_ok_def)
  from subscribe_at [OF this assms(5)] 1 have "text_buffer_ok content ?seen ?tb"
    by (simp add: text_buffer_ok_def text_core_ok_def settled_def known_times_def)
  from run_refines [OF this assms(6)] obtain content2 tb2 where
    2: "buffer_run ds ?tb = Some tb2" "text_buffer_ok content2 ?seen tb2" by blast
  then have "topic_ok ?seen (bs_visible_text (tb_snapshot tb2)) (tb_subscriptions tb2)"
    by (simp add: text_buffer_ok_def text_core_ok_def)
  from consume_patch_at [OF this, of s] 2(1) show ?thesis by (metis fst_conv fun_upd_same surj_pair)
qed

lemma sample_subscribed:
  "map_option (\<lambda>tb. run_room sample_commands (tb\<lparr>tb_subscriptions := snd (subscribe (tb_subscriptions tb))\<rparr>))
     (buffer_new_normalized 1 LOCAL 1 Unix []) = Some True"
  by code_simp

theorem subscriber_patch_correct_witness:
  "\<exists>tb tb2 p. buffer_new_normalized 1 LOCAL 1 Unix [] = Some tb
     \<and> buffer_run sample_commands (tb\<lparr>tb_subscriptions := snd (subscribe (tb_subscriptions tb))\<rparr>) = Some tb2
     \<and> fst (consume_patch (fst (subscribe (tb_subscriptions tb))) (tb_subscriptions tb2)) = Some p
     \<and> leads (bs_visible_text (tb_snapshot tb)) p (bs_visible_text (tb_snapshot tb2))"
proof -
  from sample_subscribed obtain tb where tb: "buffer_new_normalized 1 LOCAL 1 Unix [] = Some tb"
      "run_room sample_commands (tb\<lparr>tb_subscriptions := snd (subscribe (tb_subscriptions tb))\<rparr>)"
    by auto
  with subscriber_patch_correct [OF tb(1), of "[]" tb _ _ sample_commands] show ?thesis by fastforce
qed

end
