(* ===== verification/Spec2Isabelle.thy ===== *)
theory Spec2Isabelle
  imports Membership Channel ReadState Clock Locator Patch Job CommunityDeletion AuditLog
    TreeContract ModerationPolicy Retention Community Reaction ThreadQueries AccessPolicy Editor
begin

text \<open>
  A verification of the core of a collaborative editor: the collaboration domain
  (\<open>src/crates/collaboration_domain\<close>), the replicated text core (\<open>src/crates/clock\<close>,
  \<open>src/crates/text\<close>) and the sum tree that carries the text (\<open>src/crates/sum_tree\<close>).

  \<^bold>\<open>The program.\<close> The collaboration domain is a layer without I/O. A request enters with a tenant
  context that \<open>tenant.rs\<close> establishes from a trusted route and untrusted claims; \<open>principal.rs\<close>
  says who acts; \<open>authorization.rs\<close> decides, from membership snapshots and delegations, whether
  the principal may act on a resource; \<open>admission_evidence.rs\<close> admits newcomers by token or
  invite. The aggregates (\<open>community.rs\<close>, \<open>membership.rs\<close>, \<open>channel.rs\<close>, \<open>message.rs\<close>, \<open>reaction.rs\<close>,
  \<open>job.rs\<close>, \<open>community_deletion.rs\<close>) take commands with the version the sender expects, ask the authorization decision, and advance their
  version; \<open>read_state.rs\<close> merges read positions of several devices; \<open>audit.rs\<close> chains what
  happened by hashes. The text core gives replicas Lamport timestamps and version vectors
  (\<open>clock.rs\<close>), orders inserted fragments by dense identifiers (\<open>locator.rs\<close>) and relates versions
  of a text by patches (\<open>patch.rs\<close>). A buffer (\<open>text.rs\<close>) keeps its fragments in a sum tree and never forgets
  one: deleting hides it, and undoing an edit decides anew, by counts in the undo map, which fragments
  show. Its history keeps the transactions that undo and redo move between two stacks; subscribers
  (\<open>subscription.rs\<close>) collect the patches.

  \<^bold>\<open>Theories.\<close>
  \<^item> \<open>Prelude\<close>: machine integers, \<open>checked_add\<close> and \<open>checked_mul\<close>, Rust strings as lists of scalar
    values with their UTF-8 lengths, \<open>Result\<close> as a sum with the error on the left, \<open>?\<close> as
    \<open>and_then\<close>, methods on \<open>&mut self\<close> as functions that return the result and the new state.
  \<^item> \<open>Identity\<close> (\<open>identity_types.rs\<close>, \<open>provenance.rs\<close>, \<open>tenant.rs\<close>), \<open>AccountBinding\<close>, \<open>Profile\<close>,
    \<open>Principal\<close>, \<open>Authorization\<close>, \<open>Admission\<close>: one theory per file of the same name. In \<open>Authorization\<close>
    the decision is brought into the form of one condition; \<open>AccessPolicy\<close> states the policy without the code's
    functions (who acts for whom, ranks, live grants, standing in a community or channel, the four ways to
    be entitled, and what each denial says), which \<open>authorize\<close> implements.
  \<^item> \<open>Versioned\<close>: the contract of an aggregate with optimistic versions, as the locale
    \<open>versioned_aggregate\<close> and its extension \<open>terminal_aggregate\<close>; a stale command is refused, an
    applied one advances the version by one, a final state stays. \<open>Community\<close>, \<open>Membership\<close>, \<open>Channel\<close>,
    \<open>Message\<close>, \<open>Reaction\<close>, \<open>Job\<close> and \<open>CommunityDeletion\<close> interpret it on their commands. \<open>Membership\<close> also runs
    commands on the members of several communities and channels, with adding and redeeming invites;
    \<open>Channel\<close> gives the life cycle as a machine whose steps carry the command, and paths of it that agree
    with what the commands report.
  \<^item> \<open>Moderation\<close> (\<open>moderation.rs\<close>): reports, restrictions with the history that loading replays, and
    personal mutes. \<open>ModerationPolicy\<close> (\<open>moderation_policy.rs\<close>): the decision that consults them after
    the access decision, and the policy \<open>moderation_permits\<close> it refines.
  \<^item> \<open>EventSourced\<close>: the contract of an aggregate that stores its commands, as a locale; \<open>Job\<close>
    interprets it and gets that a history rebuilds the job. Its locale \<open>mutation_log\<close> is the contract
    of a state that keeps a log of mutations and is validated against it on loading; \<open>Message\<close> and
    \<open>Reaction\<close> interpret it and get that a stored record loads back.
  \<^item> \<open>Community\<close> (\<open>community.rs\<close>): hosts, icons, join policies and the commands, each of which builds its
    own authorization request; a community under deletion is frozen.
  \<^item> \<open>Message\<close> (\<open>message.rs\<close>), \<open>Reaction\<close> (\<open>reaction.rs\<close>): messages with their edits and deletion, and the
    reactions to a message folded from their log. \<open>OrderedMap\<close> models \<open>BTreeMap\<close> as a strictly sorted
    association list, where its order of iteration is observable.
  \<^item> \<open>Thread\<close>, \<open>ThreadQueries\<close> (\<open>thread.rs\<close>): the resolution of replies into a graph, shown to agree with
    the inductive relation \<open>ancestry\<close>, and the queries on it: descendants, pages, summaries and the
    closure of auxiliary events.
  \<^item> \<open>Retention\<close> (\<open>retention.rs\<close>): policies, legal holds and archives, the disposition of a record,
    which refines a specification on natural numbers, and the fences that order decisions.
  \<^item> \<open>Replication\<close>: the contract of a merge that is a semilattice, as the locale
    \<open>merge_semilattice\<close>; \<open>ReadState\<close> interprets it for registers, frontiers and overrides, \<open>Clock\<close>
    for version vectors.
  \<^item> \<open>Encoding\<close>: the contract of a prefix code, as a locale; \<open>AuditLog\<close> interprets it for values,
    fields and records, so that the hashed bytes determine the entry.
  \<^item> \<open>Locator\<close>, \<open>Patch\<close>: identifiers between two neighbours, and patches with their composition;
    \<open>covers\<close> and \<open>leads\<close> say what a patch means for the two texts it relates.
  \<^item> \<open>SumTree\<close>, \<open>TreeSearch\<close>, \<open>TreeCursor\<close>, \<open>TreeEdit\<close>, \<open>TreeIter\<close> (\<open>sum_tree.rs\<close>, \<open>cursor.rs\<close>): the B-tree
    with summaries, generic in the items and summaries (the record \<open>summary_ops\<close>) and in the
    dimension that measures them (\<open>dimension_ops\<close>). The laws of summaries, dimensions and keys are the
    locales \<open>summary_laws\<close>, \<open>dimension_laws\<close> and \<open>keyed_laws\<close>; in them each operation is shown to refine
    the operation on the list of items. \<open>seek_aggregate\<close> is the contract of what a seek collects,
    \<open>iterator_laws\<close> that of an iterator. A panic is \<open>None\<close>, so the refinements show that none occurs.
    The stack of a cursor holds 16 nodes, so the theorems on cursors are for trees below that height.
    \<open>TreeParallel\<close> has the parallel constructors: rayon's ordered maps are maps over lists.
  \<^item> \<open>TreeMap\<close> (\<open>tree_map.rs\<close>) and \<open>UndoMap\<close> (\<open>undo_map.rs\<close>): the ordered map and set and the undo map on
    sum trees; both interpret \<open>keyed_laws\<close> on their entries. \<open>TreeContract\<close> states the promises of the
    sum tree outside its locales.
  \<^item> \<open>Fragment\<close>, \<open>Buffer\<close> (\<open>text.rs\<close>, and the cursor of \<open>rope.rs\<close>): fragments with their summaries, the builders,
    and \<open>apply_edit_internal\<close> as the loop it is. \<open>BufferWalk\<close>, \<open>BufferEdit\<close> and \<open>BufferContract\<close> prove it correct: a
    fragment stands for cells, the bytes of an insertion by their offset; \<open>buffer_ok\<close> is the invariant and
    \<open>edit_outcome\<close> what an edit does.
  \<^item> \<open>Undo\<close> (\<open>text.rs\<close>, \<open>fragment_ids_for_edits\<close> and \<open>apply_undo\<close>), with \<open>UndoSearch\<close>, \<open>UndoWalk\<close>, \<open>UndoContract\<close> and
    \<open>UndoProperties\<close>: the search finds every fragment of the undone edits, and exactly the cells show whose
    insertion is not undone and whose deletions all are.
  \<^item> \<open>History\<close> and \<open>TextBuffer\<close> (\<open>text.rs\<close>, \<open>subscription.rs\<close>): transactions with their grouping, and the buffer that puts
    snapshot, history, clock and subscriptions together. \<open>TextBufferContract\<close> has the invariant of the whole
    buffer. \<open>Editor\<close> is the specification: a present text with past and future steps and the times that decide which
    edits are one step, which edit, undo, redo and finalization of a buffer refine.
  \<^item> \<open>Samples\<close>: the concrete values at which the theorems are exercised. This theory adds the
    properties that span several components.

  \<^bold>\<open>Modelling.\<close> Structs are records, enums are datatypes, integers are words of their width or
  natural numbers with the bound written out. Arithmetic that the code checks is checked in the
  model; the Lamport clock, which the code lets wrap, is modelled with a wrapping 32-bit addition
  and its theorems carry the bound they need. The subtractions of \<open>patch.rs\<close> on \<open>usize\<close> give
  \<open>None\<close> on underflow, and composition is shown never to underflow. A command that fails after
  writing a field keeps the write in the model, as in the code. Ordered maps are maps with a finite
  domain; where the order is observable they are lists. SHA-256 is a parameter of the audit
  theory: its theorems hold for every function, and conclude with a collision where they need one.
  A rope is the list of its bytes, and instants are natural numbers given by the caller; subscriptions are
  patches in a store that a topic points to. A failed assertion, an index out of range and an arithmetic
  overflow of the buffer are \<open>None\<close>, and the theorems on buffers show that none occurs within the bounds
  that they name: trees below the height of a cursor's stack, a clock and undo counts below their largest
  value, less than \<open>2 ^ 32\<close> bytes in one insertion, ranges in order within the text (\<open>run_room\<close>, which is
  executable). Small differences: the batch edit of a sum tree sorts its edits by a stable sort where
  \<open>sort_unstable_by_key\<close> may order edits of one key differently, so its theorems are for distinct keys;
  the height of a node is a natural number where the code has \<open>u8\<close>; the recursion of a thread's \<open>resolve\<close> is
  not bounded by a stack.
  Every loop is a terminating function, or a partial function shown to return: no fuel is used.
  \<open>between\<close> ends by the total length of its arguments, \<open>compose\<close> by the number of edits left.

  \<^bold>\<open>Results.\<close> Authorization implements its policy, denies with true reasons and isolates tenants, moderation only
  restricts it and bans take effect at once; no command makes an
  owner, memberships lose no update, and revocation takes effect at once; channels follow their life cycle;
  deletions pass every stage and do not go back once irreversible; community commands follow their
  specification and need authority; jobs rebuild from their
  histories, messages and reactions from their logs, and a deleted message stays deleted; threads
  resolve exactly the replies with a sound ancestry and their queries miss no reply; retention
  follows its specification and its decisions never go back behind a fence; invites respect their budgets; read states and version vectors converge; audit chains
  are tamper evident; fragment identifiers stay strictly ordered; patches compose; sum trees refine
  lists, tree maps refine finite maps, and undo maps converge; an edit of a buffer loses no byte, a buffer
  is an editor with undo and redo, and its subscribers receive patches that lead from text to text. Some theorems record behaviour that
  departs from the evident intent: a delegation lets its holder act with the
  role of an unchecked membership snapshot, a deletion record may start without its request, messages and
  restrictions take commands of a principal with the nil identifier and then do not load, and
  a command refused for an exhausted counter may have written its field already (memberships and
  read states); extending a tree map by entries that repeat a key stores both; a
  reaction sent as the message's own event is accepted and makes the set unloadable.

  \<^bold>\<open>Not modelled.\<close> Serialization derives, display and accessor boilerplate, and UUID generation. In
  the domain: forums, direct messages, inboxes and reminders, channel invites, presence and push
  leases, reviews, media and huddles, which follow the same command shape.
  In the sum tree: the backward search of cursors. In the text core: remote operations of a buffer with their
  queue and deferral, anchors and selections, offsets given as points, futures that wait for a version, and the chunks
  of a rope.
  The user interface, language servers, terminals and native runtimes are I/O and orchestration
  around external processes.
\<close>

section \<open>Tenancy and authorization\<close>

text \<open>C1. The authorization decision implements the access policy, stated apart from it: a request is
  allowed exactly when it stays within its tenant and its principal's scopes and is entitled to the
  action, by a live grant, by a role of sufficient rank in the channel or the community, or by owning
  the resource, the memberships being those of whom the principal acts for, active and current. And
  a denial tells the truth: whatever reason it gives is a requirement that the request fails.\<close>

theorem authorize_implements_policy:
  "(authorize r = Allowed \<longleftrightarrow> within_bounds r \<and> entitled r)
   \<and> (\<forall>d. authorize r = authorization_decision.Denied d \<longrightarrow> reason d r)"
  by (simp add: authorize_entitled denied_reason)

theorem authorize_implements_policy_witness:
  "entitled (community_request Manage Owner) \<and> \<not> entitled (community_request Manage Guest)
   \<and> reason InsufficientRole (community_request Manage Guest)"
proof -
  have "within_bounds (community_request Manage Guest)"
    by (simp add: within_bounds_def sample_defs)
  moreover have "authorize (community_request Manage Owner) = Allowed"
    and "authorize (community_request Manage Guest) = authorization_decision.Denied InsufficientRole"
    by (simp_all add: community_request_allowed role_decision_def)
  ultimately show ?thesis
    using authorize_implements_policy [of "community_request Manage Owner"]
      authorize_implements_policy [of "community_request Manage Guest"] by simp
qed

text \<open>C2. Tenant isolation: in a context established from a trusted route and untrusted claims,
  an allowed request concerns a principal and a resource of the community of the route, and no
  claim named another community.\<close>

theorem tenant_isolation:
  assumes "establish route claims = Inr (rq_tenant r)"
    and "authorize r = Allowed"
  shows "\<exists>trusted. route = Some trusted
       \<and> pn_community_id (rq_principal r) = rt_community_id trusted
       \<and> rs_community_id (rq_resource r) = rt_community_id trusted
       \<and> (\<forall>c \<in> set claims. cl_community_id c = rt_community_id trusted)"
  using assms authorize_same_tenant [OF assms(2)]
  by (auto simp: establish_Inr same_tenant_def)

theorem tenant_isolation_witness:
  "pn_community_id (rq_principal (community_request Manage Owner)) = sample_community
   \<and> rs_community_id (rq_resource (community_request Manage Owner)) = sample_community"
proof -
  let ?route = "\<lparr>rt_community_id = sample_community, rt_source = Listener, rt_reference = lit ''main''\<rparr>"
  have "establish (Some ?route) [\<lparr>cl_community_id = sample_community, cl_source = EventTag\<rparr>] =
      Inr (rq_tenant (community_request Manage Owner))"
    by (simp add: establish_Inr sample_defs)
  moreover have "authorize (community_request Manage Owner) = Allowed"
    by (simp add: community_request_allowed)
  ultimately show ?thesis using tenant_isolation by fastforce
qed

text \<open>Roles form a chain: raising the community role of an allowed request keeps it
  allowed.\<close>

theorem authorize_role_monotone:
  assumes "authorize r = Allowed"
    and "rq_community_membership r = Some m"
    and "role_rank (cm_role m) \<le> role_rank role"
  shows "authorize (r\<lparr>rq_community_membership := Some (m\<lparr>cm_role := role\<rparr>)\<rparr>) = Allowed"
  using assms permits_mono [OF assms(3)]
  by (auto simp: authorize_iff authorized_def same_tenant_def member_in_force_def
      channel_member_in_force_def request_subject_def delegation_permits_def
      split: option.splits)

theorem authorize_role_monotone_witness:
  "authorize ((community_request Write Member)
     \<lparr>rq_community_membership := Some ((alice_membership Member)\<lparr>cm_role := Admin\<rparr>)\<rparr>) = Allowed"
  by (rule authorize_role_monotone)
    (simp_all add: community_request_allowed, simp_all add: sample_defs)

section \<open>Admission\<close>

text \<open>C31. An invite admits at most its budget: through any sequence of redemption attempts on a
  constructed invite, the number of people who join, added to the uses it started with, never
  exceeds its maximum.\<close>

theorem invite_budget_respected:
  assumes "invite_new i c (Some maximum) uses expires revoked v = Inr ev"
  shows "joined_count ev attempts + unat uses \<le> unat maximum"
  using joined_count_bound [OF invite_new_ok [OF assms], of maximum attempts] assms
  by (auto simp: invite_new_def split: if_splits)

theorem invite_budget_respected_witness:
  "joined_count sample_invite
     [\<lparr>at_community_id = sample_community, at_principal_id = bob, at_existing = None,
       at_current_version = version_of 1, at_membership_version = version_of 1,
       at_now_millis = 10\<rparr>] + unat (1 :: u32) \<le> unat (3 :: u32)"
  by (rule invite_budget_respected [of "InviteId 1" sample_community _ _ 5000 False "version_of 1"])
    (simp add: invite_new_def sample_invite_def)

text \<open>A scoped token never exceeds its grant and a replay challenge works once: an admitted
  principal carries the scopes requested, all of them granted, and the challenge it used admits
  nobody again, whatever the token, the versions and the time.\<close>

theorem token_admission_sound:
  assumes "admit token requested challenge v now = Inr adm"
  shows "pn_scopes (ta_principal adm) = requested \<and> requested \<subseteq> st_granted_scopes token
       \<and> pn_community_id (ta_principal adm) = re_community_id challenge
       \<and> \<not> is_ok (admit token' requested' (ta_replay_evidence adm) v' now')"
proof -
  note adm = admit_Inr [OF assms]
  have "\<not> is_ok (admit token' requested' (ta_replay_evidence adm) v' now')"
    using consume_once adm by (fastforce simp: is_ok_iff dest: admit_Inr)
  with adm show ?thesis by (auto simp: Principal.scoped_token_def consume_Inr)
qed

theorem token_admission_sound_witness:
  "\<exists>adm. admit sample_token {sample_scope} sample_replay (version_of 1) 10 = Inr adm
     \<and> pn_scopes (ta_principal adm) = {sample_scope}
     \<and> {sample_scope} \<subseteq> st_granted_scopes sample_token
     \<and> pn_community_id (ta_principal adm) = re_community_id sample_replay
     \<and> \<not> is_ok (admit sample_token {} (ta_replay_evidence adm) (version_of 2) 11)"
proof -
  obtain adm where "admit sample_token {sample_scope} sample_replay (version_of 1) 10 = Inr adm"
    by (simp add: admit_def consume_def sample_token_def sample_replay_def result_simps)
  with token_admission_sound [OF this] show ?thesis by blast
qed

text \<open>Redeeming an invite gives access at once: the membership projected from a successful
  redemption lets its principal read and write in the community, and nothing more.\<close>

theorem redeemed_invite_grants_member_access:
  assumes "redeem ev c p None v w now = Inr redemption"
    and "input_community_membership
           (policy_input (im_membership (from_invite_redemption redemption added_by)))
         = rq_community_membership r"
    and "same_tenant r" and "tc_community_id (rq_tenant r) = c"
    and "request_subject r = p" and "rq_current_membership_version r = w"
    and "rq_required_scope r \<in> pn_scopes (rq_principal r)"
    and "rs_kind (rq_resource r) = CommunityResource" and "rs_channel_id (rq_resource r) = None"
    and "rq_delegation r = None"
  shows "authorize r = Allowed \<longleftrightarrow> rq_action r = Read \<or> rq_action r = Write"
proof (cases redemption)
  case (Joined ev' m)
  with redeem_Joined assms(1) have "m = \<lparr>cm_community_id = c, cm_principal_id = p,
      cm_role = Member, cm_status = MemberActive, cm_version = w\<rparr>"
    by blast
  with Joined assms(2) have "rq_community_membership r = Some m"
    by (simp add: policy_input_def from_invite_redemption_def Let_def)
  with \<open>m = _\<close> assms(3-10) show ?thesis
    by (auto simp: authorize_iff authorized_def member_in_force_def delegation_permits_def)
next
  case (AlreadyMember ev' m)
  with redeem_AlreadyMember assms(1) show ?thesis by blast
qed

theorem redeemed_invite_grants_member_access_witness:
  "authorize ((community_request Write Member)
      \<lparr>rq_community_membership := input_community_membership
          (policy_input (im_membership (from_invite_redemption alice_redemption None))),
       rq_current_membership_version := version_of 1\<rparr>) = Allowed"
  by (subst redeemed_invite_grants_member_access [OF alice_redeems, of None])
    (simp_all add: sample_defs same_tenant_def request_subject_def authorization_subject_def)

text \<open>A virtual agent never outranks a member: with the membership snapshot derived from its
  owner's membership and without a delegation, it may only read and write, only in the owner's
  community, and only while the owner's membership version is current.\<close>

theorem virtual_agent_bounded:
  assumes "derive_virtual pn owner m v = Inr ev"
    and "rq_community_membership r = input_community_membership (virtual_policy_input ev)"
    and "rq_principal r = pn" and "rq_delegation r = None"
    and "rs_kind (rq_resource r) = CommunityResource" and "rs_channel_id (rq_resource r) = None"
    and "authorize r = Allowed"
  shows "(rq_action r = Read \<or> rq_action r = Write)
       \<and> rs_community_id (rq_resource r) = cm_community_id m
       \<and> rq_current_membership_version r = cm_version m"
  using assms derive_virtual_Inr [OF assms(1)]
  by (auto simp: authorize_iff authorized_def member_in_force_def same_tenant_def
      delegation_permits_def virtual_policy_input_def policy_membership_snapshot_def)

theorem virtual_agent_bounded_witness:
  "\<exists>ev. derive_virtual agent_principal alice (alice_membership Owner) (version_of 5) = Inr ev
     \<and> (rq_action (agent_request_with (input_community_membership (virtual_policy_input ev))) = Read \<or> rq_action (agent_request_with (input_community_membership (virtual_policy_input ev))) = Write)"
proof -
  obtain ev where ev: "derive_virtual agent_principal alice (alice_membership Owner) (version_of 5)
      = Inr ev"
    by (simp add: derive_virtual_def agent_principal_def sample_defs)
  note facts = derive_virtual_Inr [OF ev]
  have "authorize (agent_request_with (input_community_membership (virtual_policy_input ev))) = Allowed"
    using facts
    by (simp add: agent_request_with_def agent_principal_def virtual_policy_input_def
        policy_membership_snapshot_def sample_defs authorize_eval)
  with virtual_agent_bounded [OF ev, of "agent_request_with (input_community_membership (virtual_policy_input ev))"] ev show ?thesis
    by (simp add: agent_request_with_def community_request_def)
qed

section \<open>Identities\<close>

text \<open>The conflict scan over account bindings is exact: it accepts a list of bindings exactly
  when no two active ones share community, account and profile, and all active ones with the
  same key in a community belong to one account.\<close>

theorem active_bindings_unambiguous:
  "validate_active_bindings bs = Inr () \<longleftrightarrow>
     distinct (map profile_key (filter (\<lambda>b. ab_status b = binding_status.Active) bs))
     \<and> (\<forall>b \<in> set (filter (\<lambda>b. ab_status b = binding_status.Active) bs).
         \<forall>c \<in> set (filter (\<lambda>b. ab_status b = binding_status.Active) bs). owner_compatible b c)"
  by (rule validate_active_bindings_Inr)

theorem active_bindings_unambiguous_witness:
  "validate_active_bindings [sample_binding, sample_binding\<lparr>ab_profile_id := ProfileId 40\<rparr>] = Inr ()"
  by (subst active_bindings_unambiguous)
    (simp add: sample_binding_def profile_key_def owner_compatible_def)

text \<open>A constructed binding has a consistent life: creation, verification, activation and
  termination in order; a terminal time exactly when it is historical; and if active, an
  activation time and evidence that was not merely migrated.\<close>

theorem constructed_binding_consistent:
  assumes "account_binding_new f = Inr b"
  shows "binding_timeline b
       \<and> (ab_terminal_at_millis b \<noteq> None) = is_historical b
       \<and> (can_sign b \<longrightarrow> (\<exists>v a. ab_verification b = Some v \<and> bv_method v \<noteq> MigratedEvidence
             \<and> ab_activated_at_millis b = Some a))"
proof -
  from assms have f: "validate_fields b = Inr ()"
    by (auto simp: account_binding_new_def result_simps)
  moreover have "can_sign b \<Longrightarrow> ab_status b = binding_status.Active"
    by (cases "ab_status b") (simp_all add: can_sign_def)
  ultimately show ?thesis
    using validate_fields_timeline validate_fields_terminal validate_fields_active
    by (simp add: is_historical_def)
qed

theorem constructed_binding_consistent_witness:
  "binding_timeline sample_binding
   \<and> (ab_terminal_at_millis sample_binding \<noteq> None) = is_historical sample_binding
   \<and> (\<exists>v a. ab_verification sample_binding = Some v \<and> bv_method v \<noteq> MigratedEvidence
         \<and> ab_activated_at_millis sample_binding = Some a)"
proof -
  have "account_binding_new sample_binding = Inr sample_binding"
    by (simp add: account_binding_new_def validate_fields_def sample_binding_def)
  from constructed_binding_consistent [OF this] show ?thesis
    by (simp add: can_sign_def) (simp add: sample_binding_def)
qed

text \<open>A constructed profile is well attributed: everything it projects is signed by its
  author, nothing is projected twice, and if it is an agent with an owner then the owner is
  attested, so that authentication never meets a broken attestation.\<close>

theorem constructed_profile_attributed:
  assumes "identity_profile_new p = Inr q"
  shows "signed_by_author q \<and> projections_unique q
       \<and> owner_attested_agent a c q method scopes \<noteq> Inl InvalidPrincipalAttestation"
proof -
  from assms have "validate_profile q = Inr ()"
    by (auto simp: identity_profile_new_def result_simps)
  then show ?thesis
    by (simp add: validate_profile_signed validate_profile_unique owner_attested_agent_valid)
qed

theorem constructed_profile_attributed_witness:
  "signed_by_author (agent_profile_at 1) \<and> projections_unique (agent_profile_at 1)
   \<and> owner_attested_agent bob sample_community (agent_profile_at 1) Nip98 {} \<noteq>
       Inl InvalidPrincipalAttestation"
  by (rule constructed_profile_attributed [of "agent_profile_at 1"])
    (simp add: identity_profile_new_def validate_profile_def agent_profile_at_def
      valid_owner_attestation_def check_status_def validate_authored_def validate_status_def
      profile_limits string_defs)

text \<open>Accepted profile updates never change who a profile is, and count: after any chain of
  updates, identity, community, author and kind are those of the first profile, and the version
  has grown by exactly the number of updates.\<close>

theorem profile_updates_keep_identity:
  assumes "update_chain p qs" and "qs \<noteq> []"
  shows "pr_profile_id (last qs) = pr_profile_id p
       \<and> pr_community_id (last qs) = pr_community_id p
       \<and> pr_author_public_key (last qs) = pr_author_public_key p
       \<and> is_agent (pr_kind (last qs)) = is_agent (pr_kind p)
       \<and> version_num (pr_version (last qs)) = version_num (pr_version p) + length qs"
  using update_chain_last [OF assms] .

theorem profile_updates_keep_identity_witness:
  "version_num (pr_version (last [agent_profile_at 2, agent_profile_at 3])) =
   version_num (pr_version (agent_profile_at 1)) + length [agent_profile_at 2, agent_profile_at 3]"
proof -
  have "update_chain (agent_profile_at 1) [agent_profile_at 2, agent_profile_at 3]"
    by (simp add: validate_profile_update_Inr) (simp add: agent_profile_at_def)
  from profile_updates_keep_identity [OF this] show ?thesis by blast
qed

end
